(* ===== verification/Prelude.thy ===== *)
theory Prelude
  imports Main "HOL-Library.Word" "HOL-Library.Monad_Syntax" "HOL-Library.Multiset"
    "HOL-Library.Sublist"
begin

text \<open>
  Shared vocabulary of the development: the C integer types as words, arrays
  with checked access, C string literals, loops over an option monad, and the
  generic lemmas about lists and words that several components use.

  Conventions. The target is RV32 (ilp32): \<open>int\<close>, \<open>long\<close> and pointers have 32
  bits and plain \<open>char\<close> is unsigned. A value of type \<open>option\<close> returned by
  a model function is \<open>None\<close> when the C call does not return normally: it
  reads or writes outside an object, or it waits on the device for ever.
  Each theory says which of the two its \<open>None\<close> stands for.
\<close>

unbundle bit_operations_syntax

section \<open>Integer types\<close>

type_synonym u8 = "8 word"
type_synonym u16 = "16 word"
type_synonym u32 = "32 word"
type_synonym u64 = "64 word"
type_synonym s16 = "16 word"
type_synonym s32 = "32 word"

section \<open>Collections of rules\<close>

named_theorems emit_eqs \<open>routines that write to the console, as the bytes they write\<close>
named_theorems frame_eqs \<open>fields an operation leaves alone\<close>

section \<open>Bytes and string literals\<close>

definition bytes :: "string \<Rightarrow> u8 list" where
  "bytes s = map of_char s"

text \<open>A C string literal: its characters and the terminating zero byte.\<close>

definition cstr :: "string \<Rightarrow> u8 list" where
  "cstr s = bytes s @ [0]"

definition CRLF :: string where
  "CRLF = [CHR 0x0D, CHR 0x0A]"

lemma bytes_CRLF: "bytes CRLF = [0x0D, 0x0A]"
  by (simp add: bytes_def CRLF_def)

lemma bytes_append [simp]: "bytes (s @ t) = bytes s @ bytes t"
  by (simp add: bytes_def)

lemma length_bytes [simp]: "length (bytes s) = length s"
  by (simp add: bytes_def)

section \<open>Arrays with checked access\<close>

text \<open>An access outside the array is undefined behaviour in C: it is \<open>None\<close> here.\<close>

definition arr_get :: "'a list \<Rightarrow> nat \<Rightarrow> 'a option" where
  "arr_get xs i = (if i < length xs then Some (xs ! i) else None)"

definition arr_set :: "'a list \<Rightarrow> nat \<Rightarrow> 'a \<Rightarrow> 'a list option" where
  "arr_set xs i x = (if i < length xs then Some (xs[i := x]) else None)"

lemma arr_get_Some [simp]: "i < length xs \<Longrightarrow> arr_get xs i = Some (xs ! i)"
  by (simp add: arr_get_def)

lemma arr_set_Some [simp]: "i < length xs \<Longrightarrow> arr_set xs i x = Some (xs[i := x])"
  by (simp add: arr_set_def)

lemma arr_get_eq_Some: "arr_get xs i = Some x \<longleftrightarrow> i < length xs \<and> x = xs ! i"
  by (auto simp: arr_get_def)

lemma arr_set_eq_Some: "arr_set xs i x = Some ys \<longleftrightarrow> i < length xs \<and> ys = xs[i := x]"
  by (auto simp: arr_set_def)

lemma arr_set_length: "arr_set xs i x = Some ys \<Longrightarrow> length ys = length xs"
  by (auto simp: arr_set_def split: if_splits)

section \<open>Running a unit operation over a list\<close>

primrec each :: "('a \<Rightarrow> 's \<Rightarrow> 's option) \<Rightarrow> 'a list \<Rightarrow> 's \<Rightarrow> 's option" where
  "each f [] s = Some s"
| "each f (x # xs) s = do { s1 \<leftarrow> f x s; each f xs s1 }"

lemma each_append: "each f (xs @ ys) s = do { s1 \<leftarrow> each f xs s; each f ys s1 }"
  by (induction xs arbitrary: s) (auto simp: Option.bind_assoc)

lemma each_concat: "each (\<lambda>x. each f (g x)) xs s = each f (concat (map g xs)) s"
  by (induction xs arbitrary: s) (simp_all add: each_append)

lemma each_invariant:
  assumes "each f xs s = Some s'" and "P s"
    and "\<And>x s t. x \<in> set xs \<Longrightarrow> P s \<Longrightarrow> f x s = Some t \<Longrightarrow> P t"
  shows "P s'"
  using assms by (induction xs arbitrary: s) (auto simp: Option.bind_eq_Some_conv)

section \<open>Word lemmas\<close>

lemma ucast_u8_u32_u8 [simp]: "ucast (ucast (x :: u8) :: u32) = x"
  by (rule bit_word_eqI) (auto simp: bit_simps dest: bit_imp_le_length)

lemma unat_lt_256: "unat (c :: u8) < 256"
  by (transfer) (simp add: take_bit_eq_mod nat_less_iff)

lemma unat_ucast_u8 [simp]: "unat (ucast (c :: u8) :: u32) = unat c"
proof -
  have "unat c < 2 ^ 32" using unat_lt_256 [of c] by simp
  then show ?thesis by (simp add: unsigned_ucast_eq take_bit_nat_eq_self)
qed

lemma take_bit_4_eq: "v < 16 \<Longrightarrow> take_bit 4 v = v" for v :: u32
  by (simp add: word_unat_eq_iff unsigned_take_bit_eq take_bit_nat_eq_self word_less_nat_alt)

lemma shift_in_nibble:
  assumes "v < 16"
  shows "push_bit 4 h OR v = 16 * h + (v :: u32)"
proof -
  have "\<not> bit (push_bit 4 h) n \<or> \<not> bit v n" for n
    by (metis assms bit_push_bit_iff bit_take_bit_iff linorder_not_less take_bit_4_eq)
  then have "push_bit 4 h + v = push_bit 4 h OR v" by (rule disjunctive_add)
  then show ?thesis by (simp add: push_bit_eq_mult mult.commute)
qed

text \<open>Counting up to a bound never wraps.\<close>

lemma unat_count: "i < n \<Longrightarrow> unat (i + 1) = Suc (unat i)" for i n :: "'a::len word"
proof -
  assume "i < n"
  then have "Suc (unat i) \<le> unat n" by (simp add: word_less_nat_alt Suc_le_eq)
  also have "\<dots> < 2 ^ LENGTH('a)" by simp
  finally show ?thesis by (simp add: unat_word_ariths)
qed

lemma unat_count_down: "i < n \<Longrightarrow> unat (n - (i + 1)) < unat (n - i)" for i n :: "'a::len word"
proof -
  assume less: "i < n"
  then have "unat (i + 1) \<le> unat n" by (simp add: unat_count word_less_nat_alt Suc_le_eq)
  with less have "unat (n - (i + 1)) = unat n - Suc (unat i)" "unat (n - i) = unat n - unat i"
    by (simp_all add: unat_sub word_le_nat_alt word_less_nat_alt unat_count [OF less] del: diff_diff_left)
  with less show ?thesis by (simp add: word_less_nat_alt)
qed

lemma and_mask_take_bit: "x AND 0xF = take_bit 4 x" "x AND 0xFF = take_bit 8 x"
  for x :: "'a::len word"
  by (simp_all add: take_bit_eq_mask mask_eq_exp_minus_1)

lemma ucast_u8_and_ff [simp]: "(ucast (x :: u8) :: u32) AND 0xFF = ucast x"
  unfolding and_mask_take_bit by (rule bit_word_eqI) (auto simp: bit_simps dest: bit_imp_le_length)

lemma nibble_less: "unat ((x :: 'a::len word) AND 0xF) < 16"
proof -
  have "unat (x AND 0xF) = take_bit 4 (unat x)"
    by (simp add: and_mask_take_bit unsigned_take_bit_eq)
  also have "\<dots> < 2 ^ 4" by (rule take_bit_nat_less_exp)
  finally show ?thesis by simp
qed


section \<open>Overwriting a stretch of an array\<close>

definition put_at :: "'a list \<Rightarrow> nat \<Rightarrow> 'a list \<Rightarrow> 'a list" where
  "put_at m k xs = take k m @ xs @ drop (k + length xs) m"

lemma length_put_at: "k + length xs \<le> length m \<Longrightarrow> length (put_at m k xs) = length m"
  by (simp add: put_at_def)

lemma put_at_Nil [simp]: "put_at m k [] = m"
  by (simp add: put_at_def)

lemma put_at_update: "k < length m \<Longrightarrow> put_at (m[k := x]) (Suc k) xs = put_at m k (x # xs)"
  by (simp add: put_at_def take_Suc_conv_app_nth)

lemma put_at_put_at:
  "k + length xs \<le> length m \<Longrightarrow> put_at (put_at m k xs) (k + length xs) ys = put_at m k (xs @ ys)"
  by (cases xs) (auto simp: put_at_def min_def ac_simps)

lemma nth_put_at:
  "k + length xs \<le> length m \<Longrightarrow> i < length m \<Longrightarrow>
     put_at m k xs ! i = (if k \<le> i \<and> i < k + length xs then xs ! (i - k) else m ! i)"
  by (auto simp: put_at_def nth_append min_def)


lemma each_cong:
  "(\<And>x s. x \<in> set xs \<Longrightarrow> f x s = g x s) \<Longrightarrow> each f xs s = each g xs s"
  by (induction xs arbitrary: s) (auto intro!: bind_option_cong)

end
