(* ===== verification/Uart.thy ===== *)
theory Uart
  imports Prelude
begin

text \<open>
  The UART of the board and the polling driver \<open>sim/sw/common/uart.h\<close>.

  The device state is what the register map of \<open>axi4_lite_uart.sv\<close> lets software
  see: the two 16-byte FIFOs, the sticky overrun flag and the two interrupt
  enables. The engines run on their own: \<open>sched\<close> lists, time slot by time slot,
  what they do, and each register access of the program takes one slot. When
  \<open>sched\<close> is exhausted the device does nothing any more, so a poll whose flag is
  still clear is a loop that does not end; such a call returns \<open>None\<close>.
\<close>

section \<open>The device\<close>

datatype uart_event =
    Ship              \<comment> \<open>the TX engine takes the next byte and puts it on the wire\<close>
  | Arrive u8         \<comment> \<open>the RX engine has received a frame\<close>

record uart =
  tx_fifo :: "u8 list"
  tx_line :: "u8 list"
  rx_fifo :: "u8 list"
  rx_stale :: u8
  rx_overrun :: bool
  tx_ie :: bool
  rx_ie :: bool
  sched :: "uart_event list list"

definition FIFO_DEPTH :: nat where
  "FIFO_DEPTH = 16"

definition tx_ready :: "uart \<Rightarrow> bool" where
  "tx_ready u \<longleftrightarrow> length (tx_fifo u) < FIFO_DEPTH"

definition rx_ready :: "uart \<Rightarrow> bool" where
  "rx_ready u \<longleftrightarrow> rx_fifo u \<noteq> []"

fun hw_event :: "uart_event \<Rightarrow> uart \<Rightarrow> uart" where
  "hw_event Ship u = (case tx_fifo u of
       [] \<Rightarrow> u
     | b # bs \<Rightarrow> u\<lparr>tx_fifo := bs, tx_line := tx_line u @ [b]\<rparr>)"
| "hw_event (Arrive b) u =
     (if length (rx_fifo u) < FIFO_DEPTH then u\<lparr>rx_fifo := rx_fifo u @ [b]\<rparr>
      else u\<lparr>rx_overrun := True\<rparr>)"

text \<open>One time slot of the engines.\<close>

definition tick :: "uart \<Rightarrow> uart" where
  "tick u = (case sched u of [] \<Rightarrow> u | evs # rest \<Rightarrow> fold hw_event evs (u\<lparr>sched := rest\<rparr>))"

text \<open>The level-sensitive interrupt line.\<close>

definition uart_irq :: "uart \<Rightarrow> bool" where
  "uart_irq u \<longleftrightarrow> (tx_ready u \<and> tx_ie u) \<or> (rx_ready u \<and> rx_ie u)"

section \<open>Register accesses\<close>

definition UART_TX_READY_BIT :: u32 where
  "UART_TX_READY_BIT = 0x1"

definition UART_RX_READY_BIT :: u32 where
  "UART_RX_READY_BIT = 0x2"

definition status_word :: "uart \<Rightarrow> u32" where
  "status_word u = (if tx_ready u then 1 else 0) OR (if rx_ready u then 2 else 0)
     OR (if rx_overrun u then 4 else 0)"

definition read_status :: "uart \<Rightarrow> u32 \<times> uart" where
  "read_status u = (let u1 = tick u in (status_word u1, u1))"

text \<open>
  Reading RXDATA consumes the head and acknowledges an overrun; with an empty
  FIFO it returns whatever the ring holds (\<open>rx_stale\<close>) and consumes nothing.
\<close>

definition read_rxdata :: "uart \<Rightarrow> u32 \<times> uart" where
  "read_rxdata u = (let u1 = tick u in
     (case rx_fifo u1 of
        [] \<Rightarrow> (ucast (rx_stale u1), u1\<lparr>rx_overrun := False\<rparr>)
      | b # bs \<Rightarrow> (ucast b, u1\<lparr>rx_fifo := bs, rx_overrun := False\<rparr>)))"

text \<open>
  A TXDATA write with a full FIFO is held by the device until a byte ships.
\<close>

function write_txdata :: "u32 \<Rightarrow> uart \<Rightarrow> uart option" where
  "write_txdata w u =
     (if tx_ready (tick u) then Some ((tick u)\<lparr>tx_fifo := tx_fifo (tick u) @ [ucast w]\<rparr>)
      else if sched u = [] then None
      else write_txdata w (tick u))"
  by pat_completeness auto

lemma hw_event_sched [simp]: "sched (hw_event e u) = sched u"
  by (cases e) (auto split: list.splits)

lemma fold_hw_event_sched [simp]: "sched (fold hw_event es u) = sched u"
  by (induction es arbitrary: u) simp_all

lemma sched_tick: "sched (tick u) = tl (sched u)"
  by (simp add: tick_def split: list.splits)

termination write_txdata
  by (relation "measure (\<lambda>(w, u). length (sched u))") (auto simp: sched_tick)

declare write_txdata.simps [simp del]

definition write_ctrl :: "u32 \<Rightarrow> uart \<Rightarrow> uart" where
  "write_ctrl w u = (let u1 = tick u in u1\<lparr>tx_ie := bit w 0, rx_ie := bit w 1\<rparr>)"

section \<open>The driver\<close>

text \<open>The busy-wait on a STATUS bit.\<close>

function wait_status :: "u32 \<Rightarrow> uart \<Rightarrow> uart option" where
  "wait_status m u =
     (let (st, u1) = read_status u in
      if st AND m \<noteq> 0 then Some u1
      else if sched u = [] then None
      else wait_status m u1)"
  by pat_completeness auto

termination wait_status
  by (relation "measure (\<lambda>(m, u). length (sched u))") (auto simp: read_status_def sched_tick Let_def)

declare wait_status.simps [simp del]

definition uart_getc :: "uart \<Rightarrow> (u8 \<times> uart) option" where
  "uart_getc u = do {
     u1 \<leftarrow> wait_status UART_RX_READY_BIT u;
     let (d, u2) = read_rxdata u1;
     Some (ucast (d AND 0xFF), u2) }"

definition uart_putc :: "u8 \<Rightarrow> uart \<Rightarrow> uart option" where
  "uart_putc c u = do {
     u1 \<leftarrow> wait_status UART_TX_READY_BIT u;
     write_txdata (ucast c) u1 }"

text \<open>The UART_TX_PACED build: a delay loop in place of the poll.\<close>

definition UART_TX_DELAY :: nat where
  "UART_TX_DELAY = 3000"

definition uart_putc_paced :: "u8 \<Rightarrow> uart \<Rightarrow> uart option" where
  "uart_putc_paced c u = write_txdata (ucast c) ((tick ^^ UART_TX_DELAY) u)"

text \<open>
  \<open>uart_puts\<close> takes the bytes of the object its argument points into, from that
  position on; running off the end of the object is \<open>None\<close>.
\<close>

fun uart_puts :: "u8 list \<Rightarrow> uart \<Rightarrow> uart option" where
  "uart_puts [] u = None"
| "uart_puts (c # s) u = (if c = 0 then Some u else do { u1 \<leftarrow> uart_putc c u; uart_puts s u1 })"

definition hex_upper :: "u8 list" where
  "hex_upper = cstr ''0123456789ABCDEF''"

text \<open>The loop \<open>for (int i = 28; i >= 0; i -= 4)\<close>, with \<open>i = 4 * n\<close>.\<close>

primrec put_hex_loop :: "nat \<Rightarrow> u32 \<Rightarrow> uart \<Rightarrow> uart option" where
  "put_hex_loop 0 v u = Some u"
| "put_hex_loop (Suc n) v u = do {
     d \<leftarrow> arr_get hex_upper (unat (drop_bit (4 * n) v AND 0xF));
     u1 \<leftarrow> uart_putc d u;
     put_hex_loop n v u1 }"

definition uart_put_hex32 :: "u32 \<Rightarrow> uart \<Rightarrow> uart option" where
  "uart_put_hex32 v u = do {
     u1 \<leftarrow> uart_puts (cstr ''0x'') u;
     put_hex_loop 8 v u1 }"

section \<open>What the engines preserve\<close>

text \<open>The bytes handed to the device so far, on the wire or queued, in order.\<close>

definition sent :: "uart \<Rightarrow> u8 list" where
  "sent u = tx_line u @ tx_fifo u"

definition arrivals :: "uart_event list \<Rightarrow> u8 list" where
  "arrivals es = concat (map (\<lambda>e. case e of Ship \<Rightarrow> [] | Arrive b \<Rightarrow> [b]) es)"

text \<open>The bytes the program can still receive, had the RX FIFO unbounded room.\<close>

definition incoming :: "uart \<Rightarrow> u8 list" where
  "incoming u = rx_fifo u @ arrivals (concat (sched u))"

definition fifo_ok :: "uart \<Rightarrow> bool" where
  "fifo_ok u \<longleftrightarrow> length (tx_fifo u) \<le> FIFO_DEPTH \<and> length (rx_fifo u) \<le> FIFO_DEPTH"

lemma arrivals_simps [simp]:
  "arrivals [] = []" "arrivals (Ship # es) = arrivals es"
  "arrivals (Arrive b # es) = b # arrivals es" "arrivals (xs @ ys) = arrivals xs @ arrivals ys"
  by (simp_all add: arrivals_def)

lemma hw_event_sent [frame_eqs]: "sent (hw_event e u) = sent u"
  by (cases e) (auto simp: sent_def split: list.splits)

lemma hw_event_fifo_ok: "fifo_ok u \<Longrightarrow> fifo_ok (hw_event e u)"
  by (cases e) (auto simp: fifo_ok_def split: list.splits)

lemma hw_event_tx_ready: "tx_ready u \<Longrightarrow> tx_ready (hw_event e u)"
  by (cases e) (auto simp: tx_ready_def split: list.splits)

lemma hw_event_rx_ready: "rx_ready u \<Longrightarrow> rx_ready (hw_event e u)"
  by (cases e) (auto simp: rx_ready_def split: list.splits)

lemma fold_hw_event_inv:
  assumes "\<And>e u. P u \<Longrightarrow> P (hw_event e u)" and "P u"
  shows "P (fold hw_event es u)"
  using assms(2) by (induction es arbitrary: u) (auto intro: assms(1))

lemma sched_update_frame [simp]:
  "sent (u\<lparr>sched := s\<rparr>) = sent u" "fifo_ok (u\<lparr>sched := s\<rparr>) = fifo_ok u"
  "tx_ready (u\<lparr>sched := s\<rparr>) = tx_ready u" "rx_ready (u\<lparr>sched := s\<rparr>) = rx_ready u"
  by (simp_all add: sent_def fifo_ok_def tx_ready_def rx_ready_def)

lemma tick_sent [simp]: "sent (tick u) = sent u"
proof -
  have "sent (fold hw_event es v) = sent v" for es v
    by (induction es arbitrary: v) (simp_all add: frame_eqs)
  then show ?thesis by (simp add: tick_def split: list.splits)
qed

lemma tick_inv:
  assumes "\<And>e u. P u \<Longrightarrow> P (hw_event e u)" and "\<And>s. P (u\<lparr>sched := s\<rparr>) = P u" and "P u"
  shows "P (tick u)"
  using assms fold_hw_event_inv [of P "u\<lparr>sched := tl (sched u)\<rparr>"]
  by (auto simp: tick_def split: list.splits)

lemma tick_fifo_ok: "fifo_ok u \<Longrightarrow> fifo_ok (tick u)"
  by (rule tick_inv) (auto intro: hw_event_fifo_ok)

lemma tick_tx_ready: "tx_ready u \<Longrightarrow> tx_ready (tick u)"
  by (rule tick_inv) (auto intro: hw_event_tx_ready)

lemma tick_rx_ready: "rx_ready u \<Longrightarrow> rx_ready (tick u)"
  by (rule tick_inv) (auto intro: hw_event_rx_ready)

lemma tick_idle: "sched u = [] \<Longrightarrow> tick u = u"
  by (simp add: tick_def)

section \<open>The polls\<close>

lemma status_tx: "status_word u AND UART_TX_READY_BIT = 0 \<longleftrightarrow> \<not> tx_ready u"
  by (simp add: status_word_def UART_TX_READY_BIT_def)

lemma status_rx: "status_word u AND UART_RX_READY_BIT = 0 \<longleftrightarrow> \<not> rx_ready u"
  by (simp add: status_word_def UART_RX_READY_BIT_def)

lemma wait_status_unfold:
  "wait_status m u = (if status_word (tick u) AND m \<noteq> 0 then Some (tick u)
     else if sched u = [] then None else wait_status m (tick u))"
  by (subst wait_status.simps) (simp add: read_status_def Let_def)

lemma wait_status_cases:
  assumes "\<And>m u. (status_word (tick u) AND m = 0 \<Longrightarrow> sched u \<noteq> [] \<Longrightarrow> Q m (tick u)) \<Longrightarrow> Q m u"
  shows "Q m u"
  by (induction m u rule: wait_status.induct)
    (rule assms, auto simp: read_status_def Let_def)

lemma wait_status_inv:
  assumes "wait_status m u = Some u'" and "\<And>u. P u \<Longrightarrow> P (tick u)" and "P u"
  shows "P u' \<and> status_word u' AND m \<noteq> 0"
proof -
  have "wait_status m u = Some u' \<longrightarrow> P u \<longrightarrow> P u' \<and> status_word u' AND m \<noteq> 0"
    by (induction m u rule: wait_status_cases)
      (subst wait_status_unfold, auto intro: assms(2))
  with assms(1,3) show ?thesis by blast
qed

lemma wait_status_sent: "wait_status m u = Some u' \<Longrightarrow> sent u' = sent u"
  using wait_status_inv [of m u u' "\<lambda>v. sent v = sent u"] by simp

lemma wait_status_fifo_ok: "wait_status m u = Some u' \<Longrightarrow> fifo_ok u \<Longrightarrow> fifo_ok u'"
  using wait_status_inv [of m u u' fifo_ok] by (simp add: tick_fifo_ok)

lemma wait_status_tx: "wait_status UART_TX_READY_BIT u = Some u' \<Longrightarrow> tx_ready u'"
  using wait_status_inv [of UART_TX_READY_BIT u u' "\<lambda>_. True"] by (simp add: status_tx)

lemma wait_status_rx: "wait_status UART_RX_READY_BIT u = Some u' \<Longrightarrow> rx_ready u'"
  using wait_status_inv [of UART_RX_READY_BIT u u' "\<lambda>_. True"] by (simp add: status_rx)

lemma write_txdata_ready:
  "tx_ready u \<Longrightarrow> write_txdata w u = Some ((tick u)\<lparr>tx_fifo := tx_fifo (tick u) @ [ucast w]\<rparr>)"
  by (simp add: write_txdata.simps tick_tx_ready)

lemma write_txdata_spec:
  "write_txdata w u = Some u' \<Longrightarrow>
     sent u' = sent u @ [ucast w] \<and> (fifo_ok u \<longrightarrow> fifo_ok u')"
proof (induction w u rule: write_txdata.induct)
  case (1 w u)
  have push: "sent ((tick u)\<lparr>tx_fifo := tx_fifo (tick u) @ [ucast w]\<rparr>) = sent u @ [ucast w]"
    using tick_sent [of u] by (simp add: sent_def)
  show ?case
  proof (cases "tx_ready (tick u)")
    case True
    with "1.prems" push tick_fifo_ok [of u] show ?thesis
      by (auto simp: write_txdata.simps [of w u] fifo_ok_def tx_ready_def)
  next
    case False
    with 1 tick_fifo_ok [of u] show ?thesis
      by (auto simp: write_txdata.simps [of w u] split: if_splits)
  qed
qed

section \<open>Consoles\<close>

text \<open>
  The interface every printing routine relies on: a byte goes in, the log grows
  by that byte, the device stays well formed.
\<close>

locale byte_sink =
  fixes putc :: "u8 \<Rightarrow> 's \<Rightarrow> 's option"
    and log :: "'s \<Rightarrow> u8 list"
    and ok :: "'s \<Rightarrow> bool"
  assumes putc_log: "putc c s = Some s' \<Longrightarrow> log s' = log s @ [c]"
    and putc_ok: "putc c s = Some s' \<Longrightarrow> ok s \<Longrightarrow> ok s'"
begin

lemma each_log: "each putc cs s = Some s' \<Longrightarrow> log s' = log s @ cs"
  by (induction cs arbitrary: s) (auto simp: Option.bind_eq_Some_conv dest: putc_log)

lemma each_ok: "each putc cs s = Some s' \<Longrightarrow> ok s \<Longrightarrow> ok s'"
  by (rule each_invariant) (auto intro: putc_ok)

end

text \<open>
  A console that is known to make progress: \<open>credit\<close> bytes can be written before
  a write may block for ever.
\<close>

locale live_sink = byte_sink +
  fixes credit :: "'s \<Rightarrow> nat"
  assumes putc_live: "ok s \<Longrightarrow> 0 < credit s \<Longrightarrow> \<exists>s'. putc c s = Some s' \<and> credit s \<le> Suc (credit s')"
begin

lemma each_live:
  assumes "ok s" and "length cs \<le> credit s"
  shows "\<exists>s'. each putc cs s = Some s' \<and> log s' = log s @ cs \<and> credit s \<le> length cs + credit s'"
  using assms
proof (induction cs arbitrary: s)
  case Nil
  then show ?case by simp
next
  case (Cons c cs)
  then obtain s1 where s1: "putc c s = Some s1" "credit s \<le> Suc (credit s1)"
    using putc_live [of s c] by auto
  with Cons.prems have "ok s1" "length cs \<le> credit s1"
    by (auto intro: putc_ok)
  then obtain s2 where "each putc cs s1 = Some s2" "log s2 = log s1 @ cs"
      "credit s1 \<le> length cs + credit s2"
    using Cons.IH by blast
  with s1 show ?case by (auto dest: putc_log)
qed

end

lemma uart_putc_spec:
  "uart_putc c u = Some u' \<Longrightarrow> sent u' = sent u @ [c] \<and> (fifo_ok u \<longrightarrow> fifo_ok u')"
  by (auto simp: uart_putc_def Option.bind_eq_Some_conv
      dest!: write_txdata_spec dest: wait_status_sent wait_status_fifo_ok)

lemma funpow_tick_sent [simp]: "sent ((tick ^^ n) u) = sent u"
  by (induction n) simp_all

lemma funpow_tick_fifo_ok: "fifo_ok u \<Longrightarrow> fifo_ok ((tick ^^ n) u)"
  by (induction n) (simp_all add: tick_fifo_ok)

lemma uart_putc_paced_spec:
  "uart_putc_paced c u = Some u' \<Longrightarrow> sent u' = sent u @ [c] \<and> (fifo_ok u \<longrightarrow> fifo_ok u')"
  by (auto simp: uart_putc_paced_def dest!: write_txdata_spec intro: funpow_tick_fifo_ok)

interpretation polled: byte_sink uart_putc sent fifo_ok
  by unfold_locales (auto dest: uart_putc_spec)

interpretation paced: byte_sink uart_putc_paced sent fifo_ok
  by unfold_locales (auto dest: uart_putc_paced_spec)

text \<open>
  A polled write is never held by the device: the FIFO still has room when the
  store reaches it, because the engines only drain it.
\<close>

lemma uart_putc_never_held:
  assumes "uart_putc c u = Some u'"
  shows "\<exists>u1. wait_status UART_TX_READY_BIT u = Some u1 \<and> tx_ready u1 \<and>
    u' = (tick u1)\<lparr>tx_fifo := tx_fifo (tick u1) @ [c]\<rparr>"
proof -
  from assms obtain u1 where u1: "wait_status UART_TX_READY_BIT u = Some u1"
      "write_txdata (ucast c) u1 = Some u'"
    by (auto simp: uart_putc_def Option.bind_eq_Some_conv)
  then have "tx_ready u1" by (auto dest: wait_status_tx)
  with u1 show ?thesis by (auto simp: write_txdata_ready)
qed

section \<open>Printing is writing bytes\<close>

lemma uart_puts_each: "0 \<notin> set s \<Longrightarrow> uart_puts (s @ [0]) u = each uart_putc s u"
  by (induction s arbitrary: u) (auto cong: bind_option_cong)

lemma uart_puts_cstr [emit_eqs]: "0 \<notin> set (bytes s) \<Longrightarrow> uart_puts (cstr s) u = each uart_putc (bytes s) u"
  by (simp add: cstr_def uart_puts_each)

text \<open>Only the part of an object before its first zero byte is printed.\<close>

lemma uart_puts_takeWhile:
  "0 \<in> set s \<Longrightarrow> uart_puts s u = each uart_putc (takeWhile (\<lambda>c. c \<noteq> 0) s) u"
  by (induction s arbitrary: u) (auto cong: bind_option_cong)

definition hex_digits :: "nat \<Rightarrow> u32 \<Rightarrow> u8 list" where
  "hex_digits n v = map (\<lambda>i. hex_upper ! unat (drop_bit (4 * i) v AND 0xF)) (rev [0..<n])"

lemma length_hex_upper: "length hex_upper = 17"
  by (simp add: hex_upper_def cstr_def)

lemma put_hex_loop_each: "put_hex_loop n v u = each uart_putc (hex_digits n v) u"
proof (induction n arbitrary: u)
  case 0
  then show ?case by (simp add: hex_digits_def)
next
  case (Suc n)
  have "arr_get hex_upper (unat (drop_bit (4 * n) v AND 0xF))
      = Some (hex_upper ! unat (drop_bit (4 * n) v AND 0xF))"
    using nibble_less [of "drop_bit (4 * n) v"] by (simp add: length_hex_upper)
  with Suc show ?case
    by (simp add: hex_digits_def del: arr_get_Some cong: bind_option_cong)
qed

lemma put_hex_loop_eta: "put_hex_loop n v = each uart_putc (hex_digits n v)"
  by (rule ext) (rule put_hex_loop_each)

lemma uart_put_hex32_each [emit_eqs]:
  "uart_put_hex32 v u = each uart_putc (bytes ''0x'' @ hex_digits 8 v) u"
proof -
  have "0 \<notin> set (bytes ''0x'')" by (simp add: bytes_def)
  then show ?thesis
    unfolding uart_put_hex32_def each_append by (simp add: uart_puts_cstr put_hex_loop_eta)
qed

section \<open>Receiving\<close>

lemma arrivals_fold:
  "length (rx_fifo u) + length (arrivals es) \<le> FIFO_DEPTH \<Longrightarrow>
     rx_fifo (fold hw_event es u) = rx_fifo u @ arrivals es"
proof (induction es arbitrary: u)
  case Nil
  then show ?case by simp
next
  case (Cons e es)
  then show ?case by (cases e) (auto split: list.splits)
qed

lemma rx_fifo_fold_subseq: "subseq (rx_fifo (fold hw_event es u)) (rx_fifo u @ arrivals es)"
proof (induction es arbitrary: u)
  case Nil
  then show ?case by simp
next
  case (Cons e es)
  show ?case
  proof (cases e)
    case Ship
    with Cons.IH [of "hw_event e u"] show ?thesis by (simp split: list.splits)
  next
    case (Arrive b)
    have "subseq (rx_fifo (hw_event e u) @ arrivals es) (rx_fifo u @ arrivals (e # es))"
      by (auto simp: Arrive subseq_append' intro: list_emb_Cons)
    with Cons.IH [of "hw_event e u"] show ?thesis
      by (simp del: hw_event.simps)
  qed
qed

lemma incoming_tick_subseq: "subseq (incoming (tick u)) (incoming u)"
proof (cases "sched u")
  case Nil
  then show ?thesis by (simp add: tick_idle)
next
  case (Cons es rest)
  have "subseq (rx_fifo (fold hw_event es (u\<lparr>sched := rest\<rparr>)) @ arrivals (concat rest))
      ((rx_fifo u @ arrivals es) @ arrivals (concat rest))"
    using rx_fifo_fold_subseq [of es "u\<lparr>sched := rest\<rparr>"] by (simp only: subseq_append) simp
  with Cons show ?thesis by (simp add: incoming_def tick_def)
qed

lemma incoming_tick: "length (incoming u) \<le> FIFO_DEPTH \<Longrightarrow> incoming (tick u) = incoming u"
  by (cases "sched u") (auto simp: incoming_def tick_def arrivals_fold)

text \<open>With nothing queued, the first byte to arrive is always accepted.\<close>

lemma incoming_tick_empty: "incoming (tick u) = [] \<longleftrightarrow> incoming u = []"
proof -
  have "rx_fifo (fold hw_event es v) = [] \<longleftrightarrow> rx_fifo v = [] \<and> arrivals es = []" for es v
  proof (induction es arbitrary: v)
    case Nil
    then show ?case by simp
  next
    case (Cons e es)
    then show ?case by (cases e) (auto simp: FIFO_DEPTH_def split: list.splits)
  qed
  then show ?thesis by (auto simp: incoming_def tick_def split: list.splits)
qed

lemma read_rxdata_ready:
  assumes "rx_ready u" and "read_rxdata u = (d, u')"
  shows "incoming (tick u) = ucast d # incoming u' \<and> d AND 0xFF = d"
  using assms tick_rx_ready [of u]
  by (auto simp: read_rxdata_def rx_ready_def incoming_def Let_def neq_Nil_conv)

lemma uart_getc_obtain:
  assumes "uart_getc u = Some (c, u')"
  obtains u1 where "wait_status UART_RX_READY_BIT u = Some u1" "rx_ready u1"
    "incoming (tick u1) = c # incoming u'" "sent u' = sent u"
proof -
  from assms obtain u1 where u1: "wait_status UART_RX_READY_BIT u = Some u1"
      and r: "(let (d, u2) = read_rxdata u1 in Some (ucast (d AND 0xFF), u2)) = Some (c, u')"
    unfolding uart_getc_def Option.bind_eq_Some_conv by blast
  from r obtain d where d: "read_rxdata u1 = (d, u')" "c = ucast (d AND 0xFF)"
    by (cases "read_rxdata u1") auto
  have "sent u' = sent u1"
    using d(1) tick_sent [of u1] by (auto simp: read_rxdata_def Let_def sent_def split: list.splits)
  with u1 have "sent u' = sent u" by (simp add: wait_status_sent)
  moreover from u1 have "rx_ready u1" by (rule wait_status_rx)
  moreover with d(1) have "incoming (tick u1) = c # incoming u'"
    using read_rxdata_ready [of u1 d u'] d(2) by simp
  ultimately show ?thesis using u1 that by blast
qed

lemma uart_getc_subseq:
  assumes "uart_getc u = Some (c, u')"
  shows "subseq (c # incoming u') (incoming u)"
proof -
  from assms obtain u1 where u1: "wait_status UART_RX_READY_BIT u = Some u1"
      "incoming (tick u1) = c # incoming u'"
    by (rule uart_getc_obtain)
  have step: "subseq (incoming v) (incoming u) \<Longrightarrow> subseq (incoming (tick v)) (incoming u)" for v
    by (rule subseq_order.trans [OF incoming_tick_subseq])
  have "subseq (incoming u1) (incoming u)"
    using wait_status_inv [OF u1(1), of "\<lambda>v. subseq (incoming v) (incoming u)", OF step] by simp
  then have "subseq (incoming (tick u1)) (incoming u)" by (rule step)
  with u1(2) show ?thesis by simp
qed

lemma uart_getc_lossless:
  assumes "uart_getc u = Some (c, u')" and "length (incoming u) \<le> FIFO_DEPTH"
  shows "incoming u = c # incoming u'"
proof -
  from assms(1) obtain u1 where u1: "wait_status UART_RX_READY_BIT u = Some u1"
      "incoming (tick u1) = c # incoming u'"
    by (rule uart_getc_obtain)
  have "incoming u1 = incoming u"
    using wait_status_inv [OF u1(1), of "\<lambda>v. incoming v = incoming u"] assms(2)
    by (simp add: incoming_tick)
  with assms(2) u1(2) show ?thesis by (simp add: incoming_tick)
qed

lemma uart_getc_blocks_iff: "uart_getc u = None \<longleftrightarrow> incoming u = []"
proof -
  have "wait_status UART_RX_READY_BIT u = None \<longleftrightarrow> incoming u = []"
  proof (induction "UART_RX_READY_BIT" u rule: wait_status_cases)
    case (1 u)
    have "rx_ready (tick u) \<Longrightarrow> incoming u \<noteq> []"
      using incoming_tick_empty [of u] by (auto simp: incoming_def rx_ready_def)
    moreover have "\<not> rx_ready (tick u) \<Longrightarrow> sched u = [] \<Longrightarrow> incoming u = []"
      by (auto simp: incoming_def rx_ready_def tick_idle)
    ultimately show ?case
      using 1 incoming_tick_empty [of u] by (subst wait_status_unfold) (auto simp: status_rx)
  qed
  then show ?thesis
    by (auto simp: uart_getc_def Option.bind_eq_None_conv split: prod.splits)
qed

section \<open>Progress of the transmitter\<close>

text \<open>
  The engines are \<open>k\<close>-fair when every \<open>k\<close> consecutive time slots ship at least one
  byte. On the board a slot is a few cycles and a frame 4340 of them at 50 MHz,
  so \<open>k\<close> is finite.
\<close>

definition fair_sched :: "nat \<Rightarrow> uart_event list list \<Rightarrow> bool" where
  "fair_sched k s \<longleftrightarrow> (\<forall>i. i + k \<le> length s \<longrightarrow> Ship \<in> set (concat (take k (drop i s))))"

text \<open>How many bytes can be written before the schedule may run out.\<close>

definition tx_credit :: "nat \<Rightarrow> uart \<Rightarrow> nat" where
  "tx_credit k u = (if fair_sched k (sched u) then length (sched u) div Suc k else 0)"

lemma fair_sched_drop: "fair_sched k s \<Longrightarrow> fair_sched k (drop n s)"
proof (cases "n \<le> length s")
  case True
  then show "fair_sched k s \<Longrightarrow> ?thesis"
    by (auto simp: fair_sched_def add.commute dest!: spec [of _ "_ + n"])
next
  case False
  then show "fair_sched k s \<Longrightarrow> ?thesis"
    by (auto simp: fair_sched_def dest!: spec [of _ 0])
qed

lemma fold_hw_event_ship:
  "Ship \<in> set es \<Longrightarrow> fifo_ok u \<Longrightarrow> tx_ready (fold hw_event es u)"
proof (induction es arbitrary: u)
  case Nil
  then show ?case by simp
next
  case (Cons e es)
  show ?case
  proof (cases "e = Ship")
    case True
    have "tx_ready (hw_event Ship u)"
      using Cons.prems(2) by (auto simp: tx_ready_def fifo_ok_def FIFO_DEPTH_def split: list.splits)
    with True show ?thesis
      using fold_hw_event_inv [of tx_ready "hw_event Ship u" es] by (simp add: hw_event_tx_ready)
  next
    case False
    with Cons show ?thesis by (simp add: hw_event_fifo_ok)
  qed
qed

lemma wait_tx_within:
  assumes "Ship \<in> set (concat (take k (sched u)))" and "fifo_ok u"
  shows "\<exists>u' j. wait_status UART_TX_READY_BIT u = Some u' \<and> sched u' = drop j (sched u) \<and> j \<le> k"
  using assms
proof (induction k arbitrary: u)
  case 0
  then show ?case by simp
next
  case (Suc k)
  then obtain es rest where s: "sched u = es # rest" by (cases "sched u") auto
  show ?case
  proof (cases "tx_ready (tick u)")
    case True
    then have "wait_status UART_TX_READY_BIT u = Some (tick u)"
      by (subst wait_status_unfold) (simp add: status_tx)
    then show ?thesis
      by (intro exI [of _ "tick u"] exI [of _ 1]) (simp add: sched_tick drop_Suc)
  next
    case False
    with fold_hw_event_ship [of es "u\<lparr>sched := rest\<rparr>"] Suc.prems(2) s have "Ship \<notin> set es"
      by (auto simp: tick_def)
    with Suc.prems s obtain u' j where "wait_status UART_TX_READY_BIT (tick u) = Some u'"
        "sched u' = drop j (sched (tick u))" "j \<le> k"
      using Suc.IH [of "tick u"] by (auto simp: sched_tick tick_fifo_ok)
    with False s show ?thesis
      by (subst wait_status_unfold)
        (auto simp: status_tx sched_tick intro!: exI [of _ "Suc j"])
  qed
qed

lemma uart_putc_live:
  assumes ok: "fifo_ok u" and cr: "0 < tx_credit k u"
  shows "\<exists>u'. uart_putc c u = Some u' \<and> tx_credit k u \<le> Suc (tx_credit k u')"
proof -
  let ?n = "length (sched u)"
  from cr have fair: "fair_sched k (sched u)" and len: "Suc k \<le> ?n"
    by (auto simp: tx_credit_def div_greater_zero_iff split: if_splits)
  then have "Ship \<in> set (concat (take k (sched u)))"
    by (force simp: fair_sched_def dest: spec [of _ 0])
  then obtain u1 j where u1: "wait_status UART_TX_READY_BIT u = Some u1"
      "sched u1 = drop j (sched u)" "j \<le> k"
    using wait_tx_within ok by blast
  define u2 where "u2 = (tick u1)\<lparr>tx_fifo := tx_fifo (tick u1) @ [c]\<rparr>"
  have "uart_putc c u = Some u2"
    using u1(1) wait_status_tx [OF u1(1)] by (simp add: uart_putc_def u2_def write_txdata_ready)
  moreover have s2: "sched u2 = drop (Suc j) (sched u)"
    by (simp add: u2_def sched_tick u1(2) tl_drop drop_Suc)
  moreover have "?n div Suc k \<le> Suc ((?n - Suc j) div Suc k)"
  proof -
    have "?n div Suc k = Suc ((?n - Suc k) div Suc k)"
      using len by (simp add: le_div_geq)
    also have "\<dots> \<le> Suc ((?n - Suc j) div Suc k)"
      using u1(3) by (simp add: div_le_mono)
    finally show ?thesis .
  qed
  ultimately show ?thesis
    using fair fair_sched_drop [OF fair, of "Suc j"] by (auto simp: tx_credit_def)
qed

interpretation live: live_sink uart_putc sent fifo_ok "tx_credit k" for k
  by unfold_locales (rule uart_putc_live)


section \<open>Sending and receiving together\<close>

lemma write_txdata_incoming:
  "write_txdata w u = Some u' \<Longrightarrow> subseq (incoming u') (incoming u)"
proof (induction w u rule: write_txdata.induct)
  case (1 w u)
  have push: "incoming ((tick u)\<lparr>tx_fifo := x\<rparr>) = incoming (tick u)" for x
    by (simp add: incoming_def)
  show ?case
  proof (cases "tx_ready (tick u)")
    case True
    with "1.prems" push incoming_tick_subseq [of u] show ?thesis
      by (auto simp: write_txdata.simps [of w u])
  next
    case False
    with 1 incoming_tick_subseq [of u] show ?thesis
      by (auto simp: write_txdata.simps [of w u] split: if_splits intro: subseq_order.trans)
  qed
qed

lemma wait_status_incoming: "wait_status m u = Some u' \<Longrightarrow> subseq (incoming u') (incoming u)"
  using wait_status_inv [of m u u' "\<lambda>v. subseq (incoming v) (incoming u)"]
  by (auto intro: subseq_order.trans incoming_tick_subseq)

lemma uart_putc_incoming: "uart_putc c u = Some u' \<Longrightarrow> subseq (incoming u') (incoming u)"
  by (auto simp: uart_putc_def Option.bind_eq_Some_conv
      intro: subseq_order.trans write_txdata_incoming wait_status_incoming)

lemma each_putc_incoming:
  "each uart_putc cs u = Some u' \<Longrightarrow> subseq (incoming u') (incoming u)"
  by (rule each_invariant [where P = "\<lambda>v. subseq (incoming v) (incoming u)"])
    (auto intro: subseq_order.trans uart_putc_incoming)


section \<open>The device in the course of time\<close>

lemma hw_event_ies [simp]: "tx_ie (hw_event e u) = tx_ie u" "rx_ie (hw_event e u) = rx_ie u"
  by (cases e; auto split: list.splits)+

lemma fold_hw_event_ies [simp]: "tx_ie (fold hw_event es u) = tx_ie u" "rx_ie (fold hw_event es u) = rx_ie u"
  by (induction es arbitrary: u) simp_all

lemma tick_ies [simp]: "tx_ie (tick u) = tx_ie u" "rx_ie (tick u) = rx_ie u"
  by (simp_all add: tick_def split: list.splits)

text \<open>\<open>v\<close> is \<open>u\<close> later on, with the enables and, unless the FIFO was exceeded, all its input.\<close>

definition later :: "uart \<Rightarrow> uart \<Rightarrow> bool" where
  "later u v \<longleftrightarrow> tx_ie v = tx_ie u \<and> rx_ie v = rx_ie u \<and> subseq (incoming v) (incoming u)
     \<and> (length (incoming u) \<le> FIFO_DEPTH \<longrightarrow> incoming v = incoming u) \<and> (rx_ready u \<longrightarrow> rx_ready v)"

lemma later_refl [simp]: "later u u"
  by (simp add: later_def)

lemma later_trans: "later u v \<Longrightarrow> later v w \<Longrightarrow> later u w"
  by (auto simp: later_def intro: subseq_order.trans)

lemma later_tick [simp]: "later u (tick u)"
  by (simp add: later_def incoming_tick_subseq incoming_tick tick_rx_ready)

lemma later_tx [simp]: "later u (v\<lparr>tx_fifo := x\<rparr>) \<longleftrightarrow> later u v"
  by (simp add: later_def incoming_def rx_ready_def)

lemma later_write_txdata: "write_txdata w u = Some u' \<Longrightarrow> later u u'"
proof (induction w u rule: write_txdata.induct)
  case (1 w u)
  show ?case
  proof (cases "tx_ready (tick u)")
    case True
    then show ?thesis using 1(2) by (auto simp: write_txdata.simps [of w u])
  next
    case False
    then have "sched u \<noteq> []" "write_txdata w (tick u) = Some u'"
      using 1(2) by (auto simp: write_txdata.simps [of w u] split: if_splits)
    then show ?thesis using 1(1) [OF False] later_trans [OF later_tick] by blast
  qed
qed

lemma later_wait_status: "wait_status b u = Some u' \<Longrightarrow> later u u'"
  using wait_status_inv [of b u u' "later u", OF _ later_trans [OF _ later_tick]] by simp

lemma later_putc: "uart_putc c u = Some u' \<Longrightarrow> later u u'"
  by (auto simp: uart_putc_def bind_eq_Some_conv intro: later_trans dest!: later_wait_status later_write_txdata)

lemma later_each: "each uart_putc cs u = Some u' \<Longrightarrow> later u u'"
  by (rule each_invariant [where P = "later u"]) (auto intro: later_trans later_putc)

section \<open>The driver as a transition system\<close>

text \<open>A call of the driver with its argument or result, a write of the control register, or the hardware alone.\<close>

datatype driver_call = Alone | Put u8 | Put_paced u8 | Got u8 | Ctrl u32

inductive driver_step :: "uart \<Rightarrow> driver_call \<Rightarrow> uart \<Rightarrow> bool" where
  hardware: "driver_step u Alone (tick u)"
| putc: "uart_putc c u = Some u' \<Longrightarrow> driver_step u (Put c) u'"
| paced_putc: "uart_putc_paced c u = Some u' \<Longrightarrow> driver_step u (Put_paced c) u'"
| getc: "uart_getc u = Some (c, u') \<Longrightarrow> driver_step u (Got c) u'"
| ctrl: "driver_step u (Ctrl w) (write_ctrl w u)"

inductive_cases driver_stepE: "driver_step u l u'"

inductive driver_run :: "uart \<Rightarrow> driver_call list \<Rightarrow> uart \<Rightarrow> bool" where
  run_none: "driver_run u [] u"
| run_step: "driver_step u l v \<Longrightarrow> driver_run v ls u' \<Longrightarrow> driver_run u (l # ls) u'"

text \<open>What a run was given to send, what it handed to the program, and the enables it leaves.\<close>

fun given :: "driver_call \<Rightarrow> u8 list" where
  "given (Put c) = [c]" | "given (Put_paced c) = [c]" | "given l = []"

fun handed :: "driver_call \<Rightarrow> u8 list" where
  "handed (Got c) = [c]" | "handed l = []"

fun enables :: "driver_call \<Rightarrow> bool \<times> bool \<Rightarrow> bool \<times> bool" where
  "enables (Ctrl w) b = (bit w 0, bit w 1)" | "enables l b = b"

lemma funpow_tick_later: "later u ((tick ^^ n) u)"
  by (induction n) (auto intro: later_trans)

lemma later_paced: "uart_putc_paced c u = Some u' \<Longrightarrow> later u u'"
  unfolding uart_putc_paced_def by (rule later_trans [OF funpow_tick_later]) (rule later_write_txdata)

lemma uart_getc_keeps:
  assumes "uart_getc u = Some (c, u')"
  shows "fifo_ok u \<Longrightarrow> fifo_ok u'" and "tx_ie u' = tx_ie u" and "rx_ie u' = rx_ie u"
proof -
  from assms obtain u1 where u1: "wait_status UART_RX_READY_BIT u = Some u1" and r: "u' = snd (read_rxdata u1)"
    by (auto simp: uart_getc_def Option.bind_eq_Some_conv Let_def split_beta)
  show "fifo_ok u'" if "fifo_ok u"
    using tick_fifo_ok [OF wait_status_fifo_ok [OF u1 that]]
    by (auto simp: r read_rxdata_def Let_def fifo_ok_def split: list.splits)
  have "tx_ie u1 = tx_ie u" "rx_ie u1 = rx_ie u" using later_wait_status [OF u1] by (simp_all add: later_def)
  then show "tx_ie u' = tx_ie u" "rx_ie u' = rx_ie u"
    by (auto simp: r read_rxdata_def Let_def split: list.splits)
qed

lemma write_ctrl_frame [frame_eqs]:
  "sent (write_ctrl w u) = sent u" "incoming (write_ctrl w u) = incoming (tick u)" "fifo_ok u \<Longrightarrow> fifo_ok (write_ctrl w u)"
  using tick_sent [of u] tick_fifo_ok [of u] by (simp_all add: write_ctrl_def sent_def incoming_def fifo_ok_def Let_def)

text \<open>One step, in terms of what is sent, what is received and what is still to come.\<close>

definition accounts :: "uart \<Rightarrow> driver_call list \<Rightarrow> uart \<Rightarrow> bool" where
  "accounts u ls u' \<longleftrightarrow> (fifo_ok u \<longrightarrow> fifo_ok u') \<and> sent u' = sent u @ concat (map given ls)
     \<and> subseq (concat (map handed ls) @ incoming u') (incoming u)
     \<and> (length (incoming u) \<le> FIFO_DEPTH \<longrightarrow> incoming u = concat (map handed ls) @ incoming u')
     \<and> (tx_ie u', rx_ie u') = fold enables ls (tx_ie u, rx_ie u)"

lemma driver_step_accounts:
  assumes "driver_step u l u'"
  shows "accounts u [l] u'"
  using assms
proof cases
  case hardware
  then show ?thesis using later_tick [of u] by (simp add: accounts_def later_def tick_fifo_ok)
next
  case (putc c)
  then show ?thesis using later_putc [of c u u'] uart_putc_spec [of c u u'] by (simp add: accounts_def later_def)
next
  case (paced_putc c)
  then show ?thesis using later_paced [of c u u'] uart_putc_paced_spec [of c u u'] by (simp add: accounts_def later_def)
next
  case (getc c)
  then show ?thesis using uart_getc_keeps [of u c u'] uart_getc_subseq [of u c u'] uart_getc_lossless [of u c u']
    by (auto simp: accounts_def elim: uart_getc_obtain)
next
  case (ctrl w)
  then show ?thesis using later_tick [of u] by (simp add: accounts_def later_def frame_eqs) (simp add: write_ctrl_def Let_def)
qed

lemma accounts_step:
  assumes "accounts u [l] v" and "accounts v ls u'"
  shows "accounts u (l # ls) u'"
proof -
  have v: "subseq (handed l @ incoming v) (incoming u)" "length (incoming u) \<le> FIFO_DEPTH \<longrightarrow> incoming u = handed l @ incoming v"
    using assms(1) by (simp_all add: accounts_def)
  have "subseq (handed l @ concat (map handed ls) @ incoming u') (handed l @ incoming v)"
    using assms(2) by (simp add: accounts_def subseq_append')
  with v(1) have "subseq (handed l @ concat (map handed ls) @ incoming u') (incoming u)"
    by (rule subseq_order.trans [rotated])
  moreover have "incoming u = handed l @ concat (map handed ls) @ incoming u'" if "length (incoming u) \<le> FIFO_DEPTH"
    using v(2) that assms(2) by (auto simp: accounts_def)
  ultimately show ?thesis using assms by (simp add: accounts_def)
qed

lemma driver_run_accounts: "driver_run u ls u' \<Longrightarrow> accounts u ls u'"
  by (induction rule: driver_run.induct) (auto simp: accounts_def [of _ "[]"] intro: accounts_step driver_step_accounts)

lemma uart_putc_slot:
  assumes "uart_putc c u = Some w"
  shows "\<exists>j. tx_ready ((tick ^^ j) u) \<and> w = (tick ((tick ^^ j) u))\<lparr>tx_fifo := tx_fifo (tick ((tick ^^ j) u)) @ [c]\<rparr>"
proof -
  from uart_putc_never_held [OF assms] obtain v where v: "wait_status UART_TX_READY_BIT u = Some v" "tx_ready v"
    "w = (tick v)\<lparr>tx_fifo := tx_fifo (tick v) @ [c]\<rparr>" by blast
  have "\<exists>j. tick x = (tick ^^ j) u" if "\<exists>j. x = (tick ^^ j) u" for x using that by (auto intro: exI [of _ "Suc _"])
  moreover have "\<exists>j. u = (tick ^^ j) u" by (rule exI [of _ 0]) simp
  ultimately have "\<exists>j. v = (tick ^^ j) u" using wait_status_inv [OF v(1), of "\<lambda>x. \<exists>j. x = (tick ^^ j) u"] by blast
  with v(2,3) show ?thesis by blast
qed

section \<open>Properties\<close>

definition idle_uart :: uart where
  "idle_uart = \<lparr>tx_fifo = [], tx_line = [], rx_fifo = [], rx_stale = 0, rx_overrun = False,
     tx_ie = False, rx_ie = False, sched = []\<rparr>"

text \<open>With nothing going on and room in the FIFO, a byte goes straight into it.\<close>

lemma uart_putc_idle:
  assumes "sched u = []" and "tx_ready u"
  shows "uart_putc c u = Some (u\<lparr>tx_fifo := tx_fifo u @ [c]\<rparr>)"
proof -
  have "tick u = u" using assms(1) by (rule tick_idle)
  then show ?thesis
    using assms by (simp add: uart_putc_def wait_status_unfold [of _ u] status_tx write_txdata.simps [of _ u])
qed

lemma uart_getc_idle:
  assumes "sched u = []" and "rx_fifo u = b # bs"
  shows "uart_getc u = Some (b, u\<lparr>rx_fifo := bs, rx_overrun := False\<rparr>)"
proof -
  have t: "tick u = u" using assms(1) by (rule tick_idle)
  have "rx_ready u" using assms(2) by (simp add: rx_ready_def)
  then have "wait_status UART_RX_READY_BIT u = Some u"
    by (simp add: wait_status_unfold [of _ u] t status_rx)
  then show ?thesis
    using assms(2) by (simp add: uart_getc_def read_rxdata_def t Let_def)
qed

lemma idle_uart_simps [simp]: "sched idle_uart = []" "tx_ready idle_uart" "fifo_ok idle_uart" "sent idle_uart = []"
  by (simp_all add: idle_uart_def tx_ready_def fifo_ok_def sent_def FIFO_DEPTH_def)

text \<open>A call of \<open>uart_putc\<close> that returns has appended exactly its byte to what the device was
  given to send, whatever the hardware did meanwhile, and the two FIFOs stay within their 16 entries.\<close>

theorem uart_putc_appends:
  assumes "uart_putc c u = Some u'"
  shows "sent u' = sent u @ [c] \<and> (fifo_ok u \<longrightarrow> fifo_ok u')"
  by (rule uart_putc_spec [OF assms])

lemma uart_putc_appends_witness:
  "sent (idle_uart\<lparr>tx_fifo := [0x41]\<rparr>) = sent idle_uart @ [0x41]
    \<and> fifo_ok (idle_uart\<lparr>tx_fifo := [0x41]\<rparr>)"
proof -
  have "uart_putc 0x41 idle_uart = Some (idle_uart\<lparr>tx_fifo := [0x41]\<rparr>)"
    by (simp add: uart_putc_idle, simp add: idle_uart_def)
  from uart_putc_appends [OF this] show ?thesis
    by (simp add: idle_uart_def fifo_ok_def FIFO_DEPTH_def)
qed

text \<open>The data write of the polled \<open>uart_putc\<close> is never held by the device: the poll leaves it in
  a state with room in the transmit FIFO, and the write takes the next bus cycle.\<close>

theorem uart_putc_write_accepted:
  assumes "uart_putc c u = Some u'"
  shows "\<exists>u1. wait_status UART_TX_READY_BIT u = Some u1 \<and> tx_ready u1 \<and>
    u' = (tick u1)\<lparr>tx_fifo := tx_fifo (tick u1) @ [c]\<rparr>"
  by (rule uart_putc_never_held [OF assms])

lemma uart_putc_write_accepted_witness:
  "\<exists>u1. wait_status UART_TX_READY_BIT idle_uart = Some u1 \<and> tx_ready u1 \<and>
    idle_uart\<lparr>tx_fifo := [0x41]\<rparr> = (tick u1)\<lparr>tx_fifo := tx_fifo (tick u1) @ [0x41]\<rparr>"
  by (rule uart_putc_write_accepted) (simp add: uart_putc_idle, simp add: idle_uart_def)

text \<open>\<open>uart_puts\<close> terminates and prints the string up to its zero byte, whenever the hardware
  ships a byte at least once in every \<open>k\<close> accesses and the schedule is long enough for the string.\<close>

theorem uart_puts_terminates:
  assumes "0 \<notin> set s" and "fifo_ok u" and "length s \<le> tx_credit k u"
  shows "\<exists>u'. uart_puts (s @ [0]) u = Some u' \<and> sent u' = sent u @ s"
  using live.each_live [OF assms(2,3)] by (auto simp: uart_puts_each [OF assms(1)])

lemma uart_puts_terminates_witness:
  "\<exists>u'. uart_puts ([0x48, 0x69] @ [0]) (idle_uart\<lparr>sched := replicate 4 [Ship]\<rparr>) = Some u'
    \<and> sent u' = sent (idle_uart\<lparr>sched := replicate 4 [Ship]\<rparr>) @ [0x48, 0x69]"
proof (rule uart_puts_terminates)
  have "fair_sched 1 (replicate 4 [Ship])"
    unfolding fair_sched_def by (auto simp: numeral_eq_Suc drop_Cons')
  then show "length [0x48, 0x69 :: u8] \<le> tx_credit 1 (idle_uart\<lparr>sched := replicate 4 [Ship]\<rparr>)"
    by (simp add: tx_credit_def flip: numeral_2_eq_2)
qed (simp_all add: fifo_ok_def idle_uart_def FIFO_DEPTH_def)

text \<open>\<open>uart_getc\<close> waits for ever exactly when no byte is in the receive FIFO and none ever
  arrives.\<close>

theorem uart_getc_waits_iff: "uart_getc u = None \<longleftrightarrow> incoming u = []"
  by (rule uart_getc_blocks_iff)

text \<open>\<open>uart_getc\<close> delivers bytes in the order in which they arrive, and loses none as long as
  the bytes waiting and to come fit the receive FIFO.\<close>

theorem uart_getc_in_order:
  assumes "uart_getc u = Some (c, u')"
  shows "subseq (c # incoming u') (incoming u)
    \<and> (length (incoming u) \<le> FIFO_DEPTH \<longrightarrow> incoming u = c # incoming u')"
  using uart_getc_subseq [OF assms] uart_getc_lossless [OF assms] by blast

lemma uart_getc_in_order_witness:
  "subseq (0x41 # incoming (idle_uart\<lparr>rx_fifo := [0x42]\<rparr>)) (incoming (idle_uart\<lparr>rx_fifo := [0x41, 0x42]\<rparr>))
    \<and> incoming (idle_uart\<lparr>rx_fifo := [0x41, 0x42]\<rparr>) = 0x41 # incoming (idle_uart\<lparr>rx_fifo := [0x42]\<rparr>)"
proof -
  have "uart_getc (idle_uart\<lparr>rx_fifo := [0x41, 0x42]\<rparr>) = Some (0x41, idle_uart\<lparr>rx_fifo := [0x42]\<rparr>)"
    by (simp add: uart_getc_idle, simp add: idle_uart_def)
  from uart_getc_in_order [OF this] show ?thesis
    by (simp add: idle_uart_def incoming_def arrivals_def FIFO_DEPTH_def)
qed

text \<open>C29: In every run of driver calls, control writes and hardware activity, in any order: the FIFOs never exceed their 16
  entries; what the device was given to send is what it had, followed by the arguments of the calls of
  \<open>uart_putc\<close> in their order; the results of \<open>uart_getc\<close>, followed by what is still to come, are received
  characters in the order of their arrival, all of them as long as they fit the receive FIFO; the enables are those of
  the last control write; and the store of a polled \<open>uart_putc\<close> that comes next is issued in a time slot that begins
  with room in the transmit FIFO, so that the device never holds it.\<close>

theorem driver_runs:
  assumes "driver_run u ls u'" and "fifo_ok u"
  shows "fifo_ok u' \<and> sent u' = sent u @ concat (map given ls)
    \<and> subseq (concat (map handed ls) @ incoming u') (incoming u)
    \<and> (length (incoming u) \<le> FIFO_DEPTH \<longrightarrow> incoming u = concat (map handed ls) @ incoming u')
    \<and> (tx_ie u', rx_ie u') = fold enables ls (tx_ie u, rx_ie u)
    \<and> (uart_putc c u' = Some w \<longrightarrow> (\<exists>j. tx_ready ((tick ^^ j) u')
        \<and> w = (tick ((tick ^^ j) u'))\<lparr>tx_fifo := tx_fifo (tick ((tick ^^ j) u')) @ [c]\<rparr>))"
  using driver_run_accounts [OF assms(1)] assms(2) uart_putc_slot [of c u' w] by (simp add: accounts_def)

text \<open>A run: a byte comes in, is read and sent back, and the receive interrupt is enabled.\<close>

lemma driver_runs_witness:
  "(let u = idle_uart\<lparr>rx_fifo := [0x41]\<rparr>; u' = idle_uart\<lparr>tx_fifo := [0x41], rx_ie := True\<rparr> in
     fifo_ok u' \<and> sent u' = sent u @ [0x41] \<and> incoming u = [0x41] @ incoming u' \<and> (tx_ie u', rx_ie u') = (False, True))"
proof -
  let ?u = "idle_uart\<lparr>rx_fifo := [0x41]\<rparr>" and ?u' = "idle_uart\<lparr>tx_fifo := [0x41], rx_ie := True\<rparr>"
  have "uart_getc ?u = Some (0x41, idle_uart)" by (simp add: uart_getc_idle) (simp add: idle_uart_def)
  then have "driver_step ?u (Got 0x41) idle_uart" by (rule driver_step.getc)
  moreover have "uart_putc 0x41 idle_uart = Some (idle_uart\<lparr>tx_fifo := [0x41]\<rparr>)"
    by (simp add: uart_putc_idle) (simp add: idle_uart_def)
  then have "driver_step idle_uart (Put 0x41) (idle_uart\<lparr>tx_fifo := [0x41]\<rparr>)" by (rule driver_step.putc)
  moreover have "write_ctrl 2 (idle_uart\<lparr>tx_fifo := [0x41]\<rparr>) = ?u'" by (simp add: write_ctrl_def tick_idle) (simp add: idle_uart_def)
  with driver_step.ctrl have "driver_step (idle_uart\<lparr>tx_fifo := [0x41]\<rparr>) (Ctrl 2) ?u'" by metis
  ultimately have "driver_run ?u [Got 0x41, Put 0x41, Ctrl 2] ?u'" by (blast intro: driver_run.intros)
  moreover have "fifo_ok ?u" "length (incoming ?u) \<le> FIFO_DEPTH"
    by (simp_all add: idle_uart_def fifo_ok_def incoming_def arrivals_def FIFO_DEPTH_def)
  ultimately show ?thesis using driver_runs [of ?u "[Got 0x41, Put 0x41, Ctrl 2]" ?u']
    by (simp add: Let_def)
qed

end
