(* ===== verification/Printf.thy ===== *)
theory Printf
  imports Uart
begin

text \<open>
  The integer printf of \<open>sim/sw/common/ee_printf.c\<close>, over the polled UART driver.
  The variadic argument list is a list of tagged values; fetching an argument
  that is not there, or a string where a number was passed, is \<open>None\<close>, as is
  reading past the end of the format string or of a local buffer.
\<close>

section \<open>Characters and strings\<close>

definition put_char :: "u8 \<Rightarrow> uart \<Rightarrow> uart option" where
  "put_char c u = do {
     u1 \<leftarrow> (if c = 0x0A then uart_putc 0x0D u else Some u);
     uart_putc c u1 }"

fun put_str :: "u8 list \<Rightarrow> uart \<Rightarrow> uart option" where
  "put_str [] u = None"
| "put_str (c # s) u = (if c = 0 then Some u else do { u1 \<leftarrow> put_char c u; put_str s u1 })"

section \<open>Numbers\<close>

text \<open>
  A local buffer \<open>char buf[cap]\<close> with its fill index \<open>i\<close> is the list of the \<open>i\<close>
  bytes written so far; a write at \<open>i \<ge> cap\<close> is \<open>None\<close>.
\<close>

definition push_buf :: "nat \<Rightarrow> u8 \<Rightarrow> u8 list \<Rightarrow> u8 list option" where
  "push_buf cap c buf = (if length buf < cap then Some (buf @ [c]) else None)"

function dec_loop :: "u32 \<Rightarrow> u8 list \<Rightarrow> u8 list option" where
  "dec_loop v buf = do {
     buf1 \<leftarrow> push_buf 12 (ucast (0x30 + v mod 10)) buf;
     if v div 10 = 0 then Some buf1 else dec_loop (v div 10) buf1 }"
  by pat_completeness auto

lemma word_div_less:
  assumes "v div k \<noteq> 0" and "1 < unat k"
  shows "unat (v div k) < unat (v :: 'a::len word)"
proof -
  from assms(1) have "v \<noteq> 0" by auto
  then have "0 < unat v" by (simp add: unat_gt_0)
  with assms(2) show ?thesis by (simp add: unat_div)
qed

termination dec_loop
  by (relation "measure (\<lambda>(v, buf). unat v)") (auto intro!: word_div_less)

declare dec_loop.simps [simp del]

text \<open>\<open>while (i < width && i < sizeof(buf)) buf[i++] = '0';\<close>\<close>

function pad_loop :: "nat \<Rightarrow> nat \<Rightarrow> u8 list \<Rightarrow> u8 list" where
  "pad_loop cap width buf =
     (if length buf < width \<and> length buf < cap then pad_loop cap width (buf @ [0x30]) else buf)"
  by pat_completeness auto

termination pad_loop
  by (relation "measure (\<lambda>(cap, width, buf). cap - length buf)") auto

declare pad_loop.simps [simp del]

text \<open>\<open>while (i--) put_char(buf[i]);\<close>\<close>

primrec put_back :: "u8 list \<Rightarrow> nat \<Rightarrow> uart \<Rightarrow> uart option" where
  "put_back buf 0 u = Some u"
| "put_back buf (Suc i) u = do {
     c \<leftarrow> arr_get buf i;
     u1 \<leftarrow> put_char c u;
     put_back buf i u1 }"

text \<open>
  Negating the most negative \<open>long\<close> is the two's-complement negation the
  compiler emits.
\<close>

definition put_dec :: "u32 \<Rightarrow> bool \<Rightarrow> nat \<Rightarrow> uart \<Rightarrow> uart option" where
  "put_dec v is_signed width u = do {
     (v1, u1) \<leftarrow> (if is_signed \<and> sint v < 0
                 then do { u1 \<leftarrow> put_char 0x2D u; Some (- v, u1) } else Some (v, u));
     buf \<leftarrow> dec_loop v1 [];
     let buf1 = pad_loop 12 width buf;
     put_back buf1 (length buf1) u1 }"

definition hex_lower :: "u8 list" where
  "hex_lower = cstr ''0123456789abcdef''"

function hex_loop :: "u32 \<Rightarrow> u8 list \<Rightarrow> u8 list option" where
  "hex_loop v buf = do {
     c \<leftarrow> arr_get hex_lower (unat (v AND 0xF));
     buf1 \<leftarrow> push_buf 8 c buf;
     if drop_bit 4 v = 0 then Some buf1 else hex_loop (drop_bit 4 v) buf1 }"
  by pat_completeness auto

lemma drop_bit_4_div: "drop_bit 4 v = v div (16 :: 'a::len word)" if "4 < LENGTH('a)"
  using that by (simp add: drop_bit_eq_div)

termination hex_loop
proof (relation "measure (\<lambda>(v, buf). unat v)", goal_cases)
  case 1
  then show ?case by simp
next
  case (2 v buf c buf1)
  then show ?case using word_div_less [of v 16] by (simp add: drop_bit_4_div)
qed

declare hex_loop.simps [simp del]

definition put_hex :: "u32 \<Rightarrow> nat \<Rightarrow> uart \<Rightarrow> uart option" where
  "put_hex v width u = do {
     buf \<leftarrow> hex_loop v [];
     let buf1 = pad_loop 8 width buf;
     put_back buf1 (length buf1) u }"

section \<open>The format interpreter\<close>

datatype va_value = VNum u32 | VStr "u8 list"

fun va_num :: "va_value list \<Rightarrow> (u32 \<times> va_value list) option" where
  "va_num (VNum n # ap) = Some (n, ap)"
| "va_num _ = None"

fun va_str :: "va_value list \<Rightarrow> (u8 list \<times> va_value list) option" where
  "va_str (VStr s # ap) = Some (s, ap)"
| "va_str _ = None"

definition is_digit :: "u8 \<Rightarrow> bool" where
  "is_digit c \<longleftrightarrow> 0x30 \<le> c \<and> c \<le> 0x39"

text \<open>The width loop; a width beyond the \<open>int\<close> range is undefined.\<close>

fun scan_width :: "nat \<Rightarrow> u8 list \<Rightarrow> (nat \<times> u8 list) option" where
  "scan_width w [] = None"
| "scan_width w (c # s) =
     (if is_digit c then
        let w1 = w * 10 + unat (c - 0x30)
        in if w1 < 2 ^ 31 then scan_width w1 s else None
      else Some (w, c # s))"

fun skip_l :: "u8 list \<Rightarrow> u8 list option" where
  "skip_l [] = None"
| "skip_l (c # s) = (if c = 0x6C then skip_l s else Some (c # s))"

text \<open>The switch on the conversion character, after \<open>*fmt++\<close>.\<close>

definition conversion :: "u8 \<Rightarrow> nat \<Rightarrow> va_value list \<Rightarrow> uart \<Rightarrow> (va_value list \<times> uart) option" where
  "conversion c width ap u =
     (if c = of_char CHR ''d'' then do { (n, ap1) \<leftarrow> va_num ap; u1 \<leftarrow> put_dec n True width u; Some (ap1, u1) }
      else if c = of_char CHR ''u'' then do { (n, ap1) \<leftarrow> va_num ap; u1 \<leftarrow> put_dec n False width u; Some (ap1, u1) }
      else if c = of_char CHR ''x'' then do { (n, ap1) \<leftarrow> va_num ap; u1 \<leftarrow> put_hex n width u; Some (ap1, u1) }
      else if c = of_char CHR ''s'' then do { (s, ap1) \<leftarrow> va_str ap; u1 \<leftarrow> put_str s u; Some (ap1, u1) }
      else if c = of_char CHR ''c'' then do { (n, ap1) \<leftarrow> va_num ap; u1 \<leftarrow> put_char (ucast n) u; Some (ap1, u1) }
      else if c = of_char CHR ''%'' then do { u1 \<leftarrow> put_char (of_char CHR ''%'') u; Some (ap, u1) }
      else Some (ap, u))"

lemma scan_width_length: "scan_width w s = Some (w', s') \<Longrightarrow> length s' \<le> length s"
  by (induction w s rule: scan_width.induct) (auto simp: Let_def split: if_splits)

lemma skip_l_length: "skip_l s = Some s' \<Longrightarrow> length s' \<le> length s"
  by (induction s rule: skip_l.induct) (auto split: if_splits)

declare bind_option_cong [fundef_cong]

function printf :: "u8 list \<Rightarrow> va_value list \<Rightarrow> uart \<Rightarrow> uart option" where
  "printf [] ap u = None"
| "printf (c # fmt) ap u =
     (if c = 0 then Some u
      else if c \<noteq> of_char CHR ''%'' then do { u1 \<leftarrow> put_char c u; printf fmt ap u1 }
      else do {
        (width, fmt1) \<leftarrow> scan_width 0 fmt;
        fmt2 \<leftarrow> skip_l fmt1;
        (conv, fmt3) \<leftarrow> (case fmt2 of [] \<Rightarrow> None | k # r \<Rightarrow> Some (k, r));
        (ap1, u1) \<leftarrow> conversion conv width ap u;
        printf fmt3 ap1 u1 })"
  by pat_completeness auto

termination printf
  by (relation "measure (\<lambda>(fmt, ap, u). length fmt)")
    (auto split: list.splits dest!: scan_width_length skip_l_length)

declare printf.simps [simp del]

section \<open>What is printed: positional numerals\<close>

text \<open>The reference: most significant digit first, no leading zero.\<close>

fun radix_str :: "nat \<Rightarrow> (nat \<Rightarrow> u8) \<Rightarrow> nat \<Rightarrow> u8 list" where
  "radix_str b dig n =
     (if n < b \<or> b < 2 then [dig n] else radix_str b dig (n div b) @ [dig (n mod b)])"

declare radix_str.simps [simp del]

definition dec_digit :: "nat \<Rightarrow> u8" where
  "dec_digit d = 0x30 + of_nat d"

definition hex_digit :: "nat \<Rightarrow> u8" where
  "hex_digit d = hex_lower ! d"

definition zpad :: "nat \<Rightarrow> nat \<Rightarrow> u8 list \<Rightarrow> u8 list" where
  "zpad cap width s = replicate (min width cap - length s) 0x30 @ s"

definition radix_val :: "nat \<Rightarrow> (u8 \<Rightarrow> nat) \<Rightarrow> u8 list \<Rightarrow> nat" where
  "radix_val b undig s = foldl (\<lambda>a d. a * b + undig d) 0 s"

lemma radix_val_snoc [simp]: "radix_val b undig (s @ [d]) = radix_val b undig s * b + undig d"
  by (simp add: radix_val_def)

lemma radix_val_str:
  assumes "2 \<le> b" and "\<And>d. d < b \<Longrightarrow> undig (dig d) = d"
  shows "radix_val b undig (radix_str b dig n) = n"
  using assms
proof (induction b dig n rule: radix_str.induct)
  case (1 b dig n)
  show ?case
  proof (cases "n < b")
    case True
    with "1.prems" show ?thesis by (simp add: radix_str.simps [of b dig n] radix_val_def)
  next
    case False
    with 1 have "radix_val b undig (radix_str b dig (n div b)) = n div b" by simp
    with False "1.prems" show ?thesis by (simp add: radix_str.simps [of b dig n])
  qed
qed

lemma length_radix_str: "n < b ^ Suc k \<Longrightarrow> length (radix_str b dig n) \<le> Suc k"
proof (induction k arbitrary: n)
  case 0
  then show ?case by (simp add: radix_str.simps)
next
  case (Suc k)
  then show ?case
    by (subst radix_str.simps) (auto simp: div_less_iff_less_mult mult.commute)
qed

lemma radix_str_nonempty [simp]: "radix_str b dig n \<noteq> []"
  by (subst radix_str.simps) simp

lemma set_radix_str:
  assumes "2 \<le> b" shows "set (radix_str b dig n) \<subseteq> dig ` {..<b}"
  using assms
proof (induction b dig n rule: radix_str.induct)
  case (1 b dig n)
  then show ?case by (cases "n < b") (auto simp: radix_str.simps [of b dig n])
qed

section \<open>Loop results\<close>

lemma push_buf_Some [simp]: "length buf < cap \<Longrightarrow> push_buf cap c buf = Some (buf @ [c])"
  by (simp add: push_buf_def)

lemma ucast_dec_digit: "(ucast (0x30 + v mod 10 :: u32) :: u8) = dec_digit (unat v mod 10)"
proof -
  have "(of_nat (unat (v mod 10)) :: u32) = v mod 10" by simp
  then have "v mod 10 = of_nat (unat v mod 10)" by (simp add: unat_mod)
  then show ?thesis
    by (simp add: dec_digit_def unsigned_ucast_eq word_unat_eq_iff unat_word_ariths unat_of_nat
        take_bit_eq_mod mod_simps)
qed

lemma dec_loop_result:
  "length buf + length (radix_str 10 dec_digit (unat v)) \<le> 12 \<Longrightarrow>
     dec_loop v buf = Some (buf @ rev (radix_str 10 dec_digit (unat v)))"
proof (induction v buf rule: dec_loop.induct)
  case (1 v buf)
  have z: "v div 10 = 0 \<longleftrightarrow> unat v < 10"
    by (simp add: unat_eq_zero [symmetric] unat_div div_eq_0_iff del: unat_eq_zero)
  have len: "length buf < 12" using "1.prems" by (cases "radix_str 10 dec_digit (unat v)") auto
  show ?case
  proof (cases "unat v < 10")
    case True
    with z len show ?thesis
      by (simp add: dec_loop.simps [of v buf] radix_str.simps [of _ _ "unat v"] ucast_dec_digit)
  next
    case False
    with z len "1.prems" "1.IH" [of "buf @ [dec_digit (unat v mod 10)]"] show ?thesis
      by (simp add: dec_loop.simps [of v buf] radix_str.simps [of _ _ "unat v"] ucast_dec_digit unat_div)
  qed
qed

lemma hex_loop_result:
  "length buf + length (radix_str 16 hex_digit (unat v)) \<le> 8 \<Longrightarrow>
     hex_loop v buf = Some (buf @ rev (radix_str 16 hex_digit (unat v)))"
proof (induction v buf rule: hex_loop.induct)
  case (1 v buf)
  have d: "drop_bit 4 v = v div 16" by (simp add: drop_bit_4_div)
  have z: "v div 16 = 0 \<longleftrightarrow> unat v < 16"
    by (simp add: unat_eq_zero [symmetric] unat_div div_eq_0_iff del: unat_eq_zero)
  have m: "unat (v AND 0xF) = unat v mod 16"
    by (simp add: and_mask_take_bit unsigned_take_bit_eq take_bit_eq_mod unat_mod)
  have get: "arr_get hex_lower (unat (v AND 0xF)) = Some (hex_digit (unat v mod 16))"
    by (simp add: m hex_digit_def hex_lower_def cstr_def)
  have len: "length buf < 8" using "1.prems" by (cases "radix_str 16 hex_digit (unat v)") auto
  show ?case
  proof (cases "unat v < 16")
    case True
    with z len get show ?thesis
      by (simp add: hex_loop.simps [of v buf] radix_str.simps [of _ _ "unat v"] d)
  next
    case False
    with z len get d "1.prems" "1.IH" [of "hex_digit (unat v mod 16)" "buf @ [hex_digit (unat v mod 16)]"]
    show ?thesis
      by (simp add: hex_loop.simps [of v buf] radix_str.simps [of _ _ "unat v"] unat_div)
  qed
qed

lemma pad_loop_result: "pad_loop cap width buf = buf @ replicate (min width cap - length buf) 0x30"
proof (induction cap width buf rule: pad_loop.induct)
  case (1 cap width buf)
  show ?case
  proof (cases "length buf < width \<and> length buf < cap")
    case True
    then have "min width cap - length buf = Suc (min width cap - length (buf @ [0x30]))" by auto
    with True 1 show ?thesis by (simp add: pad_loop.simps [of cap width buf])
  next
    case False
    then have "min width cap - length buf = 0" by auto
    with False show ?thesis by (subst pad_loop.simps) auto
  qed
qed

lemma put_back_each: "n \<le> length buf \<Longrightarrow> put_back buf n u = each put_char (rev (take n buf)) u"
  by (induction n arbitrary: u) (auto simp: take_Suc_conv_app_nth cong: bind_option_cong)

section \<open>The number printers, as the bytes they write\<close>

definition crlf :: "u8 list \<Rightarrow> u8 list" where
  "crlf s = concat (map (\<lambda>c. if c = 0x0A then [0x0D, 0x0A] else [c]) s)"

lemma put_char_each: "put_char c u = each uart_putc (crlf [c]) u"
  by (simp add: put_char_def crlf_def)

lemma each_put_char [emit_eqs]: "each put_char s u = each uart_putc (crlf s) u"
proof -
  have eq: "put_char = (\<lambda>c. each uart_putc (if c = 0x0A then [0x0D, 0x0A] else [c]))"
    by (intro ext) (simp add: put_char_each crlf_def)
  show ?thesis unfolding crlf_def eq by (rule each_concat)
qed

lemma crlf_append [simp]: "crlf (s @ t) = crlf s @ crlf t"
  by (simp add: crlf_def)

lemma crlf_id: "0x0A \<notin> set s \<Longrightarrow> crlf s = s"
  by (induction s) (auto simp: crlf_def)

lemma put_str_each [emit_eqs]: "0 \<notin> set s \<Longrightarrow> put_str (s @ [0]) u = each put_char s u"
  by (induction s arbitrary: u) (auto cong: bind_option_cong)

text \<open>The text \<open>put_dec\<close> is to print: sign, then the zero-padded magnitude.\<close>

definition dec_text :: "u32 \<Rightarrow> bool \<Rightarrow> nat \<Rightarrow> u8 list" where
  "dec_text v is_signed width =
     (if is_signed \<and> sint v < 0
      then 0x2D # zpad 12 width (radix_str 10 dec_digit (nat (- sint v)))
      else zpad 12 width (radix_str 10 dec_digit (unat v)))"

definition hex_text :: "u32 \<Rightarrow> nat \<Rightarrow> u8 list" where
  "hex_text v width = zpad 8 width (radix_str 16 hex_digit (unat v))"

lemma unat_lt_u32: "unat (v :: u32) < 2 ^ 32"
  using unsigned_less [of v] by simp

lemma dec_str_length: "length (radix_str 10 dec_digit (unat (v :: u32))) \<le> 10"
  using length_radix_str [of "unat v" 10 9 dec_digit] unat_lt_u32 [of v] by simp

lemma hex_str_length: "length (radix_str 16 hex_digit (unat (v :: u32))) \<le> 8"
  using length_radix_str [of "unat v" 16 7 hex_digit] unat_lt_u32 [of v] by simp

lemma unat_minus_negative:
  assumes "sint (v :: u32) < 0" shows "unat (- v) = nat (- sint v)"
proof -
  have "uint v = sint v mod 2 ^ 32" by (simp add: uint_sint take_bit_eq_mod)
  then have "uint (- v) = (- sint v) mod 2 ^ 32" by (simp add: uint_word_ariths mod_minus_eq)
  moreover have "- (2 ^ 31) \<le> sint v" using sint_greater_eq [of v] by simp
  ultimately have "uint (- v) = - sint v" using assms by simp
  then show ?thesis by (metis nat_uint_eq)
qed

lemma put_back_pad: "put_back (pad_loop cap w (rev s)) (length (pad_loop cap w (rev s))) u = each put_char (zpad cap w s) u"
  by (simp add: put_back_each pad_loop_result zpad_def)

lemma put_dec_each [emit_eqs]: "put_dec v is_signed width u = each put_char (dec_text v is_signed width) u"
proof -
  have loop: "dec_loop x [] = Some (rev (radix_str 10 dec_digit (unat x)))" for x
    using dec_loop_result [of "[]" x] dec_str_length [of x] by simp
  show ?thesis
  proof (cases "is_signed \<and> sint v < 0")
    case True
    then show ?thesis
      by (simp add: put_dec_def dec_text_def loop put_back_pad unat_minus_negative cong: bind_option_cong)
  next
    case False
    then show ?thesis
      by (auto simp: put_dec_def dec_text_def loop put_back_pad)
  qed
qed

lemma put_hex_each [emit_eqs]: "put_hex v width u = each put_char (hex_text v width) u"
  using hex_loop_result [of "[]" v] hex_str_length [of v]
  by (simp add: put_hex_def hex_text_def put_back_pad)

section \<open>The format interpreter, as the bytes it writes\<close>

text \<open>
  The abstract syntax of a format string: literal characters and conversions.
  A conversion carries its width digits as written (a leading zero is one of
  them), the number of \<open>l\<close> modifiers and the conversion character.
\<close>

datatype conv_kind = CDec | CUns | CHex | CStr | CChr | CPct

datatype directive = Lit u8 | Conv "nat list" nat conv_kind

fun kind_char :: "conv_kind \<Rightarrow> u8" where
  "kind_char CDec = of_char CHR ''d''" | "kind_char CUns = of_char CHR ''u''"
| "kind_char CHex = of_char CHR ''x''" | "kind_char CStr = of_char CHR ''s''"
| "kind_char CChr = of_char CHR ''c''" | "kind_char CPct = of_char CHR ''%''"

definition width_of :: "nat list \<Rightarrow> nat" where
  "width_of ds = foldl (\<lambda>w d. w * 10 + d) 0 ds"

fun directive_ok :: "directive \<Rightarrow> bool" where
  "directive_ok (Lit c) \<longleftrightarrow> c \<noteq> 0 \<and> c \<noteq> of_char CHR ''%''"
| "directive_ok (Conv ds l k) \<longleftrightarrow> (\<forall>d \<in> set ds. d < 10) \<and> width_of ds < 2 ^ 31"

fun unparse1 :: "directive \<Rightarrow> u8 list" where
  "unparse1 (Lit c) = [c]"
| "unparse1 (Conv ds l k) =
     of_char CHR ''%'' # map dec_digit ds @ replicate l 0x6C @ [kind_char k]"

definition unparse :: "directive list \<Rightarrow> u8 list" where
  "unparse ds = concat (map unparse1 ds)"

fun render1 :: "conv_kind \<Rightarrow> nat \<Rightarrow> va_value list \<Rightarrow> (u8 list \<times> va_value list) option" where
  "render1 CDec w (VNum n # ap) = Some (dec_text n True w, ap)"
| "render1 CUns w (VNum n # ap) = Some (dec_text n False w, ap)"
| "render1 CHex w (VNum n # ap) = Some (hex_text n w, ap)"
| "render1 CChr w (VNum n # ap) = Some ([ucast n], ap)"
| "render1 CStr w (VStr s # ap) =
     (if 0 \<in> set s then Some (takeWhile (\<lambda>c. c \<noteq> 0) s, ap) else None)"
| "render1 CPct w ap = Some ([of_char CHR ''%''], ap)"
| "render1 _ _ _ = None"

fun render :: "directive list \<Rightarrow> va_value list \<Rightarrow> u8 list option" where
  "render [] ap = Some []"
| "render (Lit c # ds) ap = map_option ((#) c) (render ds ap)"
| "render (Conv w l k # ds) ap = do {
     (t, ap1) \<leftarrow> render1 k (width_of w) ap;
     r \<leftarrow> render ds ap1;
     Some (t @ r) }"

lemma is_digit_dec_digit: "d < 10 \<Longrightarrow> is_digit (dec_digit d)"
  by (simp add: is_digit_def dec_digit_def word_le_nat_alt unat_word_ariths unat_of_nat take_bit_eq_mod)

lemma unat_dec_digit: "d < 10 \<Longrightarrow> unat (dec_digit d - 0x30) = d"
  by (simp add: dec_digit_def unat_of_nat take_bit_eq_mod)

lemma foldl_width_mono: "w \<le> foldl (\<lambda>w d. w * 10 + d) w ds" for ds :: "nat list"
proof (induction ds arbitrary: w)
  case (Cons d ds)
  then have "w * 10 + d \<le> foldl (\<lambda>w d. w * 10 + d) w (d # ds)" by simp
  then show ?case by simp
qed simp

lemma scan_width_digits:
  assumes "\<forall>d \<in> set ds. d < 10" and "foldl (\<lambda>w d. w * 10 + d) w ds < 2 ^ 31" and "\<not> is_digit c"
  shows "scan_width w (map dec_digit ds @ c # s) = Some (foldl (\<lambda>w d. w * 10 + d) w ds, c # s)"
  using assms
proof (induction ds arbitrary: w)
  case Nil
  then show ?case by simp
next
  case (Cons d ds)
  have "w * 10 + d < 2 ^ 31"
    using foldl_width_mono [of "w * 10 + d" ds] Cons.prems(2) by simp
  with Cons show ?case by (simp add: is_digit_dec_digit unat_dec_digit)
qed

lemma skip_l_replicate: "c \<noteq> 0x6C \<Longrightarrow> skip_l (replicate l 0x6C @ c # s) = Some (c # s)"
  by (induction l) simp_all

lemma kind_char_facts [simp]: "\<not> is_digit (kind_char k)" "kind_char k \<noteq> 0x6C" "\<not> is_digit 0x6C"
  by (cases k; simp add: is_digit_def)+

lemma put_str_takeWhile:
  "put_str s u = (if 0 \<in> set s then each put_char (takeWhile (\<lambda>c. c \<noteq> 0) s) u else None)"
  by (induction s arbitrary: u) (auto cong: bind_option_cong simp: Option.bind_eq_None_conv)

lemma each_singleton: "each f [x] s = f x s"
  by simp

lemma conversion_render:
  "conversion (kind_char k) w ap u =
     do { (t, ap1) \<leftarrow> render1 k w ap; u1 \<leftarrow> each put_char t u; Some (ap1, u1) }"
proof (cases "\<exists>v ap1. ap = v # ap1")
  case True
  then obtain v ap1 where ap: "ap = v # ap1" by blast
  show ?thesis
    by (cases k; cases v) (simp_all add: ap conversion_def put_dec_each put_hex_each put_str_takeWhile
        each_singleton del: each.simps)
next
  case False
  then have "ap = []" by (cases ap) auto
  then show ?thesis by (cases k) (simp_all add: conversion_def)
qed

lemma printf_end: "printf [0] ap u = Some u"
  by (simp add: printf.simps)

lemma printf_lit: "c \<noteq> 0 \<Longrightarrow> c \<noteq> of_char CHR ''%'' \<Longrightarrow>
    printf (c # fmt) ap u = do { u1 \<leftarrow> put_char c u; printf fmt ap u1 }"
  by (subst printf.simps) simp

lemma unparse1_not_nil: "unparse1 d \<noteq> []"
  by (cases d) simp_all

lemma printf_conv:
  assumes "directive_ok (Conv w l k)"
  shows "printf (unparse1 (Conv w l k) @ rest) ap u = do {
     (t, ap1) \<leftarrow> render1 k (width_of w) ap;
     u1 \<leftarrow> each put_char t u;
     printf rest ap1 u1 }"
proof -
  define tail where "tail = replicate l 0x6C @ kind_char k # rest"
  have nd: "\<not> is_digit (hd tail)" and cons: "tail = hd tail # tl tail"
    by (cases l; simp add: tail_def)+
  have sw: "scan_width 0 (map dec_digit w @ tail) = Some (width_of w, tail)"
    using scan_width_digits [of w 0 "hd tail" "tl tail"] nd cons assms by (simp add: width_of_def)
  have sl: "skip_l tail = Some (kind_char k # rest)"
    by (simp add: tail_def skip_l_replicate)
  have "printf (unparse1 (Conv w l k) @ rest) ap u =
      do { (ap1, u1) \<leftarrow> conversion (kind_char k) (width_of w) ap u; printf rest ap1 u1 }"
    using sw sl by (simp add: printf.simps(2) tail_def)
  also have "\<dots> = do {
     (t, ap1) \<leftarrow> render1 k (width_of w) ap;
     u1 \<leftarrow> each put_char t u;
     printf rest ap1 u1 }"
    by (simp add: conversion_render Option.bind_assoc split_def)
  finally show ?thesis .
qed

lemma radix_val_dec: "radix_val 10 (\<lambda>c. unat c - 0x30) (replicate k 0x30 @ radix_str 10 dec_digit n) = n"
proof -
  have zeros: "foldl (\<lambda>a d. a * 10 + (unat d - 0x30)) 0 (replicate k (0x30 :: u8)) = 0"
    by (induction k) simp_all
  have "unat (dec_digit d) - 0x30 = d" if "d < 10" for d
    using that by (simp add: dec_digit_def unat_word_ariths unat_of_nat take_bit_eq_mod)
  then have "radix_val 10 (\<lambda>c. unat c - 0x30) (radix_str 10 dec_digit n) = n"
    by (intro radix_val_str) simp_all
  then show ?thesis by (simp add: radix_val_def zeros)
qed

lemma digits_dec: "list_all is_digit (replicate k 0x30 @ radix_str 10 dec_digit n)"
proof -
  have "c \<in> set (radix_str 10 dec_digit n) \<Longrightarrow> is_digit c" for c
    using set_radix_str [of 10 dec_digit n] is_digit_dec_digit by auto
  then show ?thesis by (auto simp: list_all_iff is_digit_def word_le_nat_alt)
qed

lemma printf_each:
  assumes "\<forall>d \<in> set ds. directive_ok d" and "render ds ap = Some out"
  shows "printf (unparse ds @ [0]) ap u = each uart_putc (crlf out) u"
proof -
  have "printf (unparse ds @ [0]) ap u = each put_char out u"
    using assms
  proof (induction ds arbitrary: ap out u)
    case Nil
    then show ?case by (simp add: unparse_def printf_end)
  next
    case (Cons d ds)
    have u: "unparse (d # ds) @ [0] = unparse1 d @ unparse ds @ [0]" by (simp add: unparse_def)
    show ?case
    proof (cases d)
      case (Lit c)
      with Cons.prems obtain r where r: "render ds ap = Some r" "out = c # r" by auto
      with Lit Cons show ?thesis
        by (simp add: u [unfolded Lit] printf_lit cong: bind_option_cong)
    next
      case (Conv w l k)
      with Cons.prems obtain t ap1 r where r: "render1 k (width_of w) ap = Some (t, ap1)"
          "render ds ap1 = Some r" "out = t @ r"
        by (auto simp: Option.bind_eq_Some_conv)
      have ok: "directive_ok (Conv w l k)" using Cons.prems Conv by simp
      have IH: "printf (unparse ds @ [0]) ap1 = each put_char r"
        using Cons.IH [OF _ r(2)] Cons.prems by (intro ext) simp
      show ?thesis
        unfolding u unfolding Conv printf_conv [OF ok] by (simp add: IH r each_append)
    qed
  qed
  then show ?thesis by (simp add: each_put_char)
qed

text \<open>A sequence of calls, and a format that ends in a newline.\<close>

definition nl :: "string \<Rightarrow> string" where
  "nl s = s @ [CHR 0x0A]"

definition printfs :: "(string \<times> va_value list) list \<Rightarrow> uart \<Rightarrow> uart option" where
  "printfs = each (\<lambda>(fmt, ap). printf (cstr fmt) ap)"

section \<open>Properties\<close>

text \<open>C23: \<open>printf\<close> on a format of literals and \<open>%d %u %x %s %c %%\<close> conversions, with any number
  of \<open>l\<close> modifiers and any width below 2147483648, prints exactly the text the directives call for,
  consumes one argument per conversion, and puts a carriage return before every line feed.\<close>

theorem printf_render:
  assumes "\<forall>d \<in> set ds. directive_ok d" and "render ds ap = Some out"
  shows "printf (unparse ds @ [0]) ap u = each uart_putc (crlf out) u"
  by (rule printf_each [OF assms])

lemma printf_render_witness:
  "printf (unparse [Lit 0x41, Conv [0, 2] 1 CUns, Lit 0x0A] @ [0]) [VNum 7] idle_uart
    = each uart_putc (crlf (0x41 # zpad 12 2 (radix_str 10 dec_digit 7) @ [0x0A])) idle_uart"
  by (rule printf_render) (simp_all add: width_of_def dec_text_def flip: numeral_2_eq_2)

text \<open>\<open>put_dec\<close> prints a minus sign exactly for a negative number of the signed conversion, the
  most negative one included, then decimal digits only, at least as many as the width (up to 12),
  whose value is the magnitude of the number.\<close>

theorem put_dec_value:
  "\<exists>ds. (\<forall>u. put_dec v is_signed width u
      = each put_char ((if is_signed \<and> sint v < 0 then [0x2D] else []) @ ds) u)
    \<and> list_all is_digit ds \<and> min width 12 \<le> length ds
    \<and> int (radix_val 10 (\<lambda>c. unat c - 0x30) ds) = (if is_signed \<and> sint v < 0 then - sint v else uint v)"
proof -
  define n where "n = (if is_signed \<and> sint v < 0 then nat (- sint v) else unat v)"
  let ?ds = "zpad 12 width (radix_str 10 dec_digit n)"
  have "put_dec v is_signed width u = each put_char ((if is_signed \<and> sint v < 0 then [0x2D] else []) @ ?ds) u" for u
    by (simp add: put_dec_each dec_text_def n_def)
  moreover have "list_all is_digit ?ds" unfolding zpad_def by (rule digits_dec)
  moreover have "radix_val 10 (\<lambda>c. unat c - 0x30) ?ds = n" unfolding zpad_def by (rule radix_val_dec)
  moreover have "min width 12 \<le> length ?ds" by (simp add: zpad_def)
  ultimately show ?thesis by (intro exI [of _ ?ds]) (simp add: n_def)
qed

text \<open>A format that ends in a lone percent sign makes \<open>printf\<close> step over the terminating zero
  byte and go on with whatever lies behind the string.\<close>

theorem printf_lone_percent: "printf (cstr ''%'' @ rest) ap u = printf rest ap u"
proof -
  have "conversion 0 width ap u = Some (ap, u)" for width by (simp add: conversion_def)
  then show ?thesis
    by (simp add: cstr_def bytes_def, subst printf.simps) (simp add: is_digit_def)
qed

end
