(* ===== verification/Quicksort.thy ===== *)
theory Quicksort
  imports Uart
begin

text \<open>
  The quicksort benchmark \<open>sim/sw/quicksort/main.c\<close>: a global array of \<open>int\<close>
  filled by a linear congruential generator, sorted in place by Lomuto
  partitioning, and checked. Indices are C \<open>int\<close>s that stay within -1 .. N, so
  they are HOL integers; an access outside the array is \<open>None\<close>.
\<close>

section \<open>The program\<close>

definition N :: nat where
  "N = 256"

text \<open>\<open>lxsw(arr, idx)\<close> and the store \<open>arr[idx] = v\<close>.\<close>

definition lxsw :: "s32 list \<Rightarrow> int \<Rightarrow> s32 option" where
  "lxsw arr idx = (if 0 \<le> idx then arr_get arr (nat idx) else None)"

definition store :: "s32 list \<Rightarrow> int \<Rightarrow> s32 \<Rightarrow> s32 list option" where
  "store arr idx v = (if 0 \<le> idx then arr_set arr (nat idx) v else None)"

function fill_from :: "nat \<Rightarrow> u32 \<Rightarrow> s32 list \<Rightarrow> s32 list option" where
  "fill_from i state arr =
     (if i < N then
        let state1 = state * 1664525 + 1013904223 in
        do { arr1 \<leftarrow> arr_set arr i ((drop_bit 16 state1 AND 0x1FF) - 256);
             fill_from (Suc i) state1 arr1 }
      else Some arr)"
  by pat_completeness auto

termination fill_from
  by (relation "measure (\<lambda>(i, st, arr). N - i)") auto

declare fill_from.simps [simp del]

definition fill_array :: "s32 list \<Rightarrow> s32 list option" where
  "fill_array arr = fill_from 0 0x12345678 arr"

function print_from :: "nat \<Rightarrow> s32 list \<Rightarrow> uart \<Rightarrow> uart option" where
  "print_from i arr u =
     (if i < N then do {
        u1 \<leftarrow> (if i mod 8 = 0 then uart_puts (cstr [CHR 0x0D, CHR 0x0A]) u else Some u);
        a \<leftarrow> arr_get arr i;
        u2 \<leftarrow> uart_put_hex32 a u1;
        u3 \<leftarrow> uart_putc 0x20 u2;
        print_from (Suc i) arr u3 }
      else Some u)"
  by pat_completeness auto

termination print_from
  by (relation "measure (\<lambda>(i, arr, u). N - i)") auto

declare print_from.simps [simp del]

definition print_array :: "u8 list \<Rightarrow> s32 list \<Rightarrow> uart \<Rightarrow> uart option" where
  "print_array label arr u = do {
     u1 \<leftarrow> uart_puts label u;
     u2 \<leftarrow> print_from 0 arr u1;
     uart_puts (cstr [CHR 0x0D, CHR 0x0A]) u2 }"

function part_loop :: "s32 \<Rightarrow> int \<Rightarrow> int \<Rightarrow> int \<Rightarrow> s32 list \<Rightarrow> (int \<times> s32 list) option" where
  "part_loop pivot j hi i arr =
     (if j < hi then do {
        aj \<leftarrow> lxsw arr j;
        if sint aj \<le> sint pivot then do {
          ai \<leftarrow> lxsw arr (i + 1);
          arr1 \<leftarrow> store arr (i + 1) aj;
          arr2 \<leftarrow> store arr1 j ai;
          part_loop pivot (j + 1) hi (i + 1) arr2 }
        else part_loop pivot (j + 1) hi i arr }
      else Some (i, arr))"
  by pat_completeness auto

termination part_loop
  by (relation "measure (\<lambda>(p, j, hi, i, arr). nat (hi - j))") auto

declare part_loop.simps [simp del]

definition partition_arr :: "int \<Rightarrow> int \<Rightarrow> s32 list \<Rightarrow> (int \<times> s32 list) option" where
  "partition_arr lo hi arr = do {
     pivot \<leftarrow> lxsw arr hi;
     (i, arr1) \<leftarrow> part_loop pivot lo hi (lo - 1) arr;
     lo_v \<leftarrow> lxsw arr1 (i + 1);
     hi_v \<leftarrow> lxsw arr1 hi;
     arr2 \<leftarrow> store arr1 (i + 1) hi_v;
     arr3 \<leftarrow> store arr2 hi lo_v;
     Some (i + 1, arr3) }"

text \<open>The returned index lies in the segment: this is why the recursion ends.\<close>

lemma part_loop_bounds:
  "part_loop pivot j hi i arr = Some (i', arr') \<Longrightarrow> i \<le> i' \<and> i' \<le> i + max 0 (hi - j)"
proof (induction pivot j hi i arr rule: part_loop.induct)
  case (1 pivot j hi i arr)
  show ?case
  proof (cases "j < hi")
    case True
    with "1.prems" obtain aj where aj: "lxsw arr j = Some aj"
      by (auto simp: part_loop.simps [of pivot j] Option.bind_eq_Some_conv)
    show ?thesis
    proof (cases "sint aj \<le> sint pivot")
      case le: True
      with True aj "1.prems" obtain ai arr1 arr2 where
          "lxsw arr (i + 1) = Some ai" "store arr (i + 1) aj = Some arr1" "store arr1 j ai = Some arr2"
          "part_loop pivot (j + 1) hi (i + 1) arr2 = Some (i', arr')"
        by (auto simp: part_loop.simps [of pivot j] Option.bind_eq_Some_conv)
      with "1.IH"(1) True aj le have "i + 1 \<le> i' \<and> i' \<le> i + 1 + max 0 (hi - (j + 1))" by blast
      with True show ?thesis by auto
    next
      case False
      with True aj "1.prems" have "part_loop pivot (j + 1) hi i arr = Some (i', arr')"
        by (auto simp: part_loop.simps [of pivot j])
      with "1.IH"(2) True aj False have "i \<le> i' \<and> i' \<le> i + max 0 (hi - (j + 1))" by blast
      with True show ?thesis by auto
    qed
  next
    case False
    with "1.prems" show ?thesis by (simp add: part_loop.simps [of pivot j])
  qed
qed

lemma partition_arr_bounds:
  "partition_arr lo hi arr = Some (p, arr') \<Longrightarrow> lo \<le> hi \<Longrightarrow> lo \<le> p \<and> p \<le> hi"
  by (auto simp: partition_arr_def Option.bind_eq_Some_conv dest!: part_loop_bounds)

declare bind_option_cong [fundef_cong]

function quicksort :: "int \<Rightarrow> int \<Rightarrow> s32 list \<Rightarrow> s32 list option" where
  "quicksort lo hi arr =
     (if lo < hi then do {
        (p, arr1) \<leftarrow> partition_arr lo hi arr;
        arr2 \<leftarrow> quicksort lo (p - 1) arr1;
        quicksort (p + 1) hi arr2 }
      else Some arr)"
  by pat_completeness auto

termination quicksort
  by (relation "measure (\<lambda>(lo, hi, arr). nat (hi - lo))") (auto dest!: partition_arr_bounds)

declare quicksort.simps [simp del]

text \<open>The final check of \<open>main\<close>.\<close>

function check_from :: "nat \<Rightarrow> s32 list \<Rightarrow> bool option" where
  "check_from i arr =
     (if i < N then do {
        a \<leftarrow> arr_get arr (i - 1);
        b \<leftarrow> arr_get arr i;
        if sint a > sint b then Some False else check_from (Suc i) arr }
      else Some True)"
  by pat_completeness auto

termination check_from
  by (relation "measure (\<lambda>(i, arr). N - i)") auto

declare check_from.simps [simp del]

text \<open>\<open>print\<close> is the build switch PRINT_ARRAY.\<close>

definition qs_main :: "bool \<Rightarrow> s32 list \<Rightarrow> uart \<Rightarrow> (u32 \<times> s32 list \<times> uart) option" where
  "qs_main print arr u = do {
     arr1 \<leftarrow> fill_array arr;
     u1 \<leftarrow> (if print then print_array (cstr ''before:'') arr1 u else Some u);
     arr2 \<leftarrow> quicksort 0 (int N - 1) arr1;
     u2 \<leftarrow> (if print then print_array (cstr ''after:'') arr2 u1 else Some u1);
     ok \<leftarrow> check_from 1 arr2;
     if ok then do { u3 \<leftarrow> uart_puts (cstr [CHR ''O'', CHR ''K'', CHR 0x0D, CHR 0x0A]) u2; Some (0x600D, arr2, u3) }
     else do { u3 \<leftarrow> uart_puts (cstr [CHR ''F'', CHR ''A'', CHR ''I'', CHR ''L'', CHR 0x0D, CHR 0x0A]) u2; Some (0x00000BAD, arr2, u3) } }"

section \<open>Segments and rearrangements\<close>

text \<open>\<open>b\<close> rearranges the half-open segment \<open>[lo, h)\<close> of \<open>a\<close> and nothing else.\<close>

definition perm_on :: "nat \<Rightarrow> nat \<Rightarrow> 'a list \<Rightarrow> 'a list \<Rightarrow> bool" where
  "perm_on lo h a b \<longleftrightarrow> mset a = mset b \<and> (\<forall>k < length a. k < lo \<or> h \<le> k \<longrightarrow> a ! k = b ! k)"

lemma perm_on_length: "perm_on lo h a b \<Longrightarrow> length a = length b"
  by (auto simp: perm_on_def dest: mset_eq_length)

lemma perm_on_refl [simp]: "perm_on lo h a a"
  by (simp add: perm_on_def)

lemma perm_on_trans: "perm_on lo h a b \<Longrightarrow> perm_on lo h b c \<Longrightarrow> perm_on lo h a c"
  using perm_on_length [of lo h a b] by (auto simp: perm_on_def)

lemma perm_on_wider: "perm_on lo h a b \<Longrightarrow> lo' \<le> lo \<Longrightarrow> h \<le> h' \<Longrightarrow> perm_on lo' h' a b"
  by (auto simp: perm_on_def)

lemma perm_on_segment:
  assumes "perm_on lo h a b" and "lo \<le> h" and "h \<le> length a"
  shows "mset (take (h - lo) (drop lo a)) = mset (take (h - lo) (drop lo b))"
proof -
  have len: "length b = length a" using assms(1) by (simp add: perm_on_length)
  have pre: "take lo a = take lo b"
    using assms by (intro nth_equalityI) (auto simp: perm_on_def len)
  have post: "drop h a = drop h b"
    using assms by (intro nth_equalityI) (auto simp: perm_on_def len)
  have split: "xs = take lo xs @ take (h - lo) (drop lo xs) @ drop h xs" for xs :: "'a list"
    using assms(2) by (metis append_take_drop_id drop_drop le_add_diff_inverse2)
  have "mset a = mset (take lo a) + mset (take (h - lo) (drop lo a)) + mset (drop h a)"
    by (subst split [of a]) (simp add: ac_simps)
  moreover have "mset b = mset (take lo b) + mset (take (h - lo) (drop lo b)) + mset (drop h b)"
    by (subst split [of b]) (simp add: ac_simps)
  ultimately show ?thesis using assms(1) pre post by (simp add: perm_on_def)
qed

text \<open>So what holds of every element of the segment still does.\<close>

lemma perm_on_all:
  assumes "perm_on lo h a b" and "lo \<le> h" and "h \<le> length a"
    and "\<forall>k. lo \<le> k \<and> k < h \<longrightarrow> P (a ! k)"
  shows "\<forall>k. lo \<le> k \<and> k < h \<longrightarrow> P (b ! k)"
proof (intro allI impI)
  fix k assume k: "lo \<le> k \<and> k < h"
  have seg: "set (take (h - lo) (drop lo xs)) = {xs ! k | k. lo \<le> k \<and> k < h}"
    if "length xs = length a" for xs
  proof -
    have "set (take (h - lo) (drop lo xs)) = (!) (drop lo xs) ` {0..<h - lo}"
      using assms(2,3) that by (subst nth_image) auto
    also have "\<dots> = (\<lambda>i. xs ! (lo + i)) ` {..<h - lo}"
      using assms(2,3) that by (intro image_cong) auto
    also have "\<dots> = {xs ! k | k. lo \<le> k \<and> k < h}"
      by (auto simp: image_iff) (metis le_add_diff_inverse diff_less_mono lessThan_iff)
    finally show ?thesis .
  qed
  have "set (take (h - lo) (drop lo a)) = set (take (h - lo) (drop lo b))"
    using perm_on_segment [OF assms(1-3)] by (metis set_mset_mset)
  with k seg [of a] seg [of b] perm_on_length [OF assms(1)]
  have "b ! k \<in> {a ! k | k. lo \<le> k \<and> k < h}" by auto
  with assms(4) show "P (b ! k)" by auto
qed

lemma perm_on_swap:
  assumes "lo \<le> i" "i < h" "lo \<le> j" "j < h" "h \<le> length a"
  shows "perm_on lo h a (a[i := a ! j, j := a ! i])"
proof -
  have "mset (a[i := a ! j, j := a ! i]) = mset a"
    using assms by (intro mset_swap) auto
  with assms show ?thesis by (auto simp: perm_on_def nth_list_update)
qed

lemma lxsw_nat [simp]: "k < length arr \<Longrightarrow> lxsw arr (int k) = Some (arr ! k)"
  by (simp add: lxsw_def)

lemma store_nat [simp]: "k < length arr \<Longrightarrow> store arr (int k) v = Some (arr[k := v])"
  by (simp add: store_def)

section \<open>The partition\<close>

text \<open>
  The loop invariant, with \<open>m\<close> the C variable \<open>i + 1\<close>: the first part is at most the
  pivot, the second above it.
\<close>

definition parted :: "s32 \<Rightarrow> nat \<Rightarrow> nat \<Rightarrow> nat \<Rightarrow> s32 list \<Rightarrow> bool" where
  "parted pivot lo m j arr \<longleftrightarrow>
     (\<forall>k. lo \<le> k \<and> k < m \<longrightarrow> sint (arr ! k) \<le> sint pivot) \<and>
     (\<forall>k. m \<le> k \<and> k < j \<longrightarrow> sint pivot < sint (arr ! k))"

lemma parted_swap:
  assumes "parted pivot lo m j arr" and "lo \<le> m" "m \<le> j" "j < length arr"
    and "sint (arr ! j) \<le> sint pivot"
  shows "parted pivot lo (Suc m) (Suc j) (arr[m := arr ! j, j := arr ! m])"
proof -
  from assms have "m = j \<or> sint pivot < sint (arr ! m)" by (auto simp: parted_def)
  with assms show ?thesis by (auto simp: parted_def nth_list_update less_Suc_eq)
qed

lemma part_loop_correct:
  assumes "lo \<le> m" "m \<le> j" "j \<le> h" "h < length arr" "parted pivot lo m j arr"
  shows "\<exists>m' arr'. part_loop pivot (int j) (int h) (int m - 1) arr = Some (int m' - 1, arr') \<and>
    m \<le> m' \<and> m' \<le> h \<and> perm_on lo h arr arr' \<and> parted pivot lo m' h arr'"
  using assms
proof (induction "h - j" arbitrary: j m arr)
  case 0
  then show ?case by (auto simp: part_loop.simps)
next
  case (Suc n)
  then have j: "j < h" "n = h - Suc j" by auto
  show ?case
  proof (cases "sint (arr ! j) \<le> sint pivot")
    case True
    define arr2 where "arr2 = arr[m := arr ! j, j := arr ! m]"
    have p2: "parted pivot lo (Suc m) (Suc j) arr2"
      using parted_swap Suc.prems j True by (simp add: arr2_def)
    have swap: "perm_on lo h arr arr2"
      using perm_on_swap [of lo m h j arr] Suc.prems j by (simp add: arr2_def)
    have "part_loop pivot (int j) (int h) (int m - 1) arr
        = part_loop pivot (int (Suc j)) (int h) (int (Suc m) - 1) arr2"
      using j Suc.prems True by (subst part_loop.simps) (simp add: arr2_def add.commute)
    moreover obtain m' arr' where
        "part_loop pivot (int (Suc j)) (int h) (int (Suc m) - 1) arr2 = Some (int m' - 1, arr')"
        "Suc m \<le> m'" "m' \<le> h" "perm_on lo h arr2 arr'" "parted pivot lo m' h arr'"
      using Suc.hyps(1) [of "Suc j" "Suc m" arr2] j Suc.prems p2 by (auto simp: arr2_def)
    ultimately show ?thesis using perm_on_trans [OF swap] by auto
  next
    case False
    then have "parted pivot lo m (Suc j) arr"
      using Suc.prems by (auto simp: parted_def less_Suc_eq)
    moreover have "part_loop pivot (int j) (int h) (int m - 1) arr
        = part_loop pivot (int (Suc j)) (int h) (int m - 1) arr"
      using j Suc.prems False by (subst part_loop.simps) (simp add: add.commute)
    ultimately show ?thesis using Suc.hyps(1) [of "Suc j" m arr] j Suc.prems by auto
  qed
qed

lemma partition_arr_correct:
  assumes "lo < h" "h \<le> length arr"
  shows "\<exists>p arr'. partition_arr (int lo) (int h - 1) arr = Some (int p, arr') \<and>
    lo \<le> p \<and> p < h \<and> perm_on lo h arr arr' \<and> arr' ! p = arr ! (h - 1) \<and>
    (\<forall>k. lo \<le> k \<and> k < p \<longrightarrow> sint (arr' ! k) \<le> sint (arr' ! p)) \<and>
    (\<forall>k. p < k \<and> k < h \<longrightarrow> sint (arr' ! p) < sint (arr' ! k))"
proof -
  define e where "e = h - 1"
  have e: "int h - 1 = int e" "lo \<le> e" "e < length arr" "h = Suc e" using assms by (auto simp: e_def)
  obtain m arr1 where m: "part_loop (arr ! e) (int lo) (int e) (int lo - 1) arr = Some (int m - 1, arr1)"
      "lo \<le> m" "m \<le> e" "perm_on lo e arr arr1" "parted (arr ! e) lo m e arr1"
    using part_loop_correct [of lo lo lo e arr "arr ! e"] e by (auto simp: parted_def)
  have len: "length arr1 = length arr" using m(4) by (simp add: perm_on_length)
  have pe: "arr1 ! e = arr ! e" using m(4) e by (auto simp: perm_on_def)
  define arr' where "arr' = arr1[m := arr1 ! e, e := arr1 ! m]"
  have "partition_arr (int lo) (int h - 1) arr = Some (int m, arr')"
    using e m len by (simp add: partition_arr_def arr'_def)
  moreover have "perm_on lo h arr arr'"
    using perm_on_trans [OF perm_on_wider [OF m(4), of lo h]] perm_on_swap [of lo m h e arr1] e m len
    by (simp add: arr'_def)
  moreover have "arr' ! m = arr ! e" using m e len pe by (auto simp: arr'_def nth_list_update)
  moreover have "\<forall>k. lo \<le> k \<and> k < m \<longrightarrow> sint (arr' ! k) \<le> sint (arr ! e)"
    using m e len by (auto simp: arr'_def nth_list_update parted_def)
  moreover have "\<forall>k. m < k \<and> k < h \<longrightarrow> sint (arr ! e) < sint (arr' ! k)"
    using m e len by (auto simp: arr'_def nth_list_update parted_def less_Suc_eq)
  ultimately show ?thesis using m(2,3) e(4) by (intro exI [of _ m] exI [of _ arr']) auto
qed

section \<open>The sort\<close>

definition sorted_seg :: "nat \<Rightarrow> nat \<Rightarrow> s32 list \<Rightarrow> bool" where
  "sorted_seg lo h arr \<longleftrightarrow> (\<forall>k l. lo \<le> k \<and> k \<le> l \<and> l < h \<longrightarrow> sint (arr ! k) \<le> sint (arr ! l))"

lemma sorted_seg_sorted: "sorted_seg 0 (length arr) arr \<longleftrightarrow> sorted (map sint arr)"
  by (auto simp: sorted_seg_def sorted_iff_nth_mono)

lemma sorted_seg_perm:
  assumes "sorted_seg lo h a" and "\<forall>k. lo \<le> k \<and> k < h \<longrightarrow> a ! k = b ! k"
  shows "sorted_seg lo h b"
  using assms by (auto simp: sorted_seg_def)

text \<open>Sorted parts on both sides of a pivot make a sorted whole.\<close>

lemma sorted_seg_join:
  assumes "sorted_seg lo p a" "sorted_seg (Suc p) h a"
    and "\<forall>k. lo \<le> k \<and> k < p \<longrightarrow> sint (a ! k) \<le> sint (a ! p)"
    and "\<forall>k. Suc p \<le> k \<and> k < h \<longrightarrow> sint (a ! p) \<le> sint (a ! k)"
  shows "sorted_seg lo h a"
  unfolding sorted_seg_def
proof (intro allI impI)
  fix k l assume kl: "lo \<le> k \<and> k \<le> l \<and> l < h"
  then consider "l < p" | "p < k" | "k = p" "l = p" | "k < p" "l = p" | "k = p" "p < l" | "k < p" "p < l"
    by linarith
  then show "sint (a ! k) \<le> sint (a ! l)"
  proof cases
    case 6
    with assms(3,4) kl have "sint (a ! k) \<le> sint (a ! p)" "sint (a ! p) \<le> sint (a ! l)" by auto
    then show ?thesis by simp
  qed (use assms kl in \<open>auto simp: sorted_seg_def\<close>)
qed

text \<open>The two recursive calls keep what the partition established about the pivot.\<close>

lemma sorted_seg_two_calls:
  assumes "lo \<le> p" "p < h" "h \<le> length a1"
    and left: "\<forall>k. lo \<le> k \<and> k < p \<longrightarrow> sint (a1 ! k) \<le> sint (a1 ! p)"
    and right: "\<forall>k. Suc p \<le> k \<and> k < h \<longrightarrow> sint (a1 ! p) \<le> sint (a1 ! k)"
    and a2: "perm_on lo p a1 a2" "sorted_seg lo p a2"
    and a3: "perm_on (Suc p) h a2 a3" "sorted_seg (Suc p) h a3"
  shows "sorted_seg lo h a3"
proof (rule sorted_seg_join [of lo p])
  note len = perm_on_length [OF a2(1)]
  have keep1: "a2 ! k = a1 ! k" if "p \<le> k" "k < h" for k
    using a2(1) that assms(3) by (auto simp: perm_on_def)
  have keep2: "a3 ! k = a2 ! k" if "k \<le> p" for k
    using a3(1) that assms(2,3) len by (auto simp: perm_on_def)
  show "sorted_seg lo p a3" using sorted_seg_perm [OF a2(2)] keep2 by simp
  show "sorted_seg (Suc p) h a3" by (rule a3(2))
  have "\<forall>k. lo \<le> k \<and> k < p \<longrightarrow> sint (a2 ! k) \<le> sint (a1 ! p)"
    using perm_on_all [OF a2(1) assms(1) _ left] assms by auto
  then show "\<forall>k. lo \<le> k \<and> k < p \<longrightarrow> sint (a3 ! k) \<le> sint (a3 ! p)"
    using keep1 keep2 assms(2) by simp
  have "\<forall>k. Suc p \<le> k \<and> k < h \<longrightarrow> sint (a1 ! p) \<le> sint (a2 ! k)"
    using right keep1 by simp
  then have "\<forall>k. Suc p \<le> k \<and> k < h \<longrightarrow> sint (a1 ! p) \<le> sint (a3 ! k)"
    using perm_on_all [OF a3(1), of "\<lambda>x. sint (a1 ! p) \<le> sint x"] assms len by auto
  then show "\<forall>k. Suc p \<le> k \<and> k < h \<longrightarrow> sint (a3 ! p) \<le> sint (a3 ! k)"
    using keep1 keep2 assms(2) by simp
qed

lemma quicksort_correct:
  "h \<le> length arr \<Longrightarrow>
     \<exists>arr'. quicksort (int lo) (int h - 1) arr = Some arr' \<and> perm_on lo h arr arr' \<and> sorted_seg lo h arr'"
proof (induction "h - lo" arbitrary: lo h arr rule: less_induct)
  case less
  show ?case
  proof (cases "int lo < int h - 1")
    case False
    have "sorted_seg lo h arr"
      unfolding sorted_seg_def
    proof (intro allI impI)
      fix k l assume "lo \<le> k \<and> k \<le> l \<and> l < h"
      with False have "k = l" by arith
      then show "sint (arr ! k) \<le> sint (arr ! l)" by simp
    qed
    with False show ?thesis by (auto simp: quicksort.simps [of "int lo"])
  next
    case True
    then have lh: "lo < h" by simp
    obtain p a1 where p: "partition_arr (int lo) (int h - 1) arr = Some (int p, a1)" "lo \<le> p" "p < h"
        "perm_on lo h arr a1" and left: "\<forall>k. lo \<le> k \<and> k < p \<longrightarrow> sint (a1 ! k) \<le> sint (a1 ! p)"
        and right: "\<forall>k. Suc p \<le> k \<and> k < h \<longrightarrow> sint (a1 ! p) \<le> sint (a1 ! k)"
      using partition_arr_correct [OF lh less.prems] by (metis Suc_le_eq less_imp_le)
    note len1 = perm_on_length [OF p(4)]
    have shrink: "p - lo < h - lo" "h - Suc p < h - lo" using p(2,3) by linarith+
    obtain a2 where a2: "quicksort (int lo) (int p - 1) a1 = Some a2" "perm_on lo p a1 a2" "sorted_seg lo p a2"
      using less.hyps [OF shrink(1), of a1] p less.prems len1 by auto
    note len2 = perm_on_length [OF a2(2)]
    obtain a3 where a3: "quicksort (int (Suc p)) (int h - 1) a2 = Some a3" "perm_on (Suc p) h a2 a3"
        "sorted_seg (Suc p) h a3"
      using less.hyps [OF shrink(2), of a2] p less.prems len1 len2 by auto
    have "quicksort (int lo) (int h - 1) arr = Some a3"
      using True p(1) a2(1) a3(1) by (simp add: quicksort.simps [of "int lo" "int h - 1"] add.commute)
    moreover have "perm_on lo h arr a3"
      using perm_on_trans [OF p(4)] perm_on_trans [OF perm_on_wider [OF a2(2), of lo h]]
        perm_on_wider [OF a3(2), of lo h] p(2,3) by auto
    moreover have "sorted_seg lo h a3"
      using sorted_seg_two_calls [OF p(2,3) _ left right a2(2,3) a3(2,3)] less.prems len1 by simp
    ultimately show ?thesis by blast
  qed
qed

section \<open>The whole program\<close>

lemma quicksort_all:
  assumes "arr \<noteq> []"
  shows "\<exists>arr'. quicksort 0 (int (length arr) - 1) arr = Some arr' \<and>
    mset arr' = mset arr \<and> sorted (map sint arr')"
proof -
  obtain arr' where "quicksort (int 0) (int (length arr) - 1) arr = Some arr'"
      "perm_on 0 (length arr) arr arr'" "sorted_seg 0 (length arr) arr'"
    using quicksort_correct [of "length arr" arr 0] by auto
  then show ?thesis
    using sorted_seg_sorted [of arr'] perm_on_length [of 0 "length arr" arr arr']
    by (auto simp: perm_on_def)
qed

lemma fill_from_length:
  "length arr = N \<Longrightarrow> \<exists>arr'. fill_from i state arr = Some arr' \<and> length arr' = N"
proof (induction i state arr rule: fill_from.induct)
  case (1 i state arr)
  show ?case
  proof (cases "i < N")
    case True
    with 1 show ?thesis by (subst fill_from.simps) (auto simp: Let_def)
  next
    case False
    with 1 show ?thesis by (subst fill_from.simps) auto
  qed
qed

lemma fill_array_length: "length arr = N \<Longrightarrow> \<exists>arr'. fill_array arr = Some arr' \<and> length arr' = N"
  unfolding fill_array_def by (rule fill_from_length)

lemma check_from_spec:
  "length arr = N \<Longrightarrow> 0 < i \<Longrightarrow>
     check_from i arr = Some (\<forall>k. i \<le> k \<and> k < N \<longrightarrow> sint (arr ! (k - 1)) \<le> sint (arr ! k))"
proof (induction i arr rule: check_from.induct)
  case (1 i arr)
  show ?case
  proof (cases "i < N")
    case True
    have range: "(\<forall>k. i \<le> k \<and> k < N \<longrightarrow> Q k) \<longleftrightarrow> Q i \<and> (\<forall>k. Suc i \<le> k \<and> k < N \<longrightarrow> Q k)" for Q
      using True by (metis Suc_le_eq le_neq_implies_less less_imp_le order_refl)
    from True 1 show ?thesis
      by (subst check_from.simps, subst range) (auto simp: not_less not_le)
  next
    case False
    then show ?thesis by (subst check_from.simps) auto
  qed
qed

lemma check_from_sorted: "length arr = N \<Longrightarrow> check_from 1 arr = Some (sorted (map sint arr))"
proof -
  assume len: "length arr = N"
  have "(\<forall>k. 1 \<le> k \<and> k < N \<longrightarrow> sint (arr ! (k - 1)) \<le> sint (arr ! k)) = sorted (map sint arr)"
    unfolding sorted_iff_nth_Suc
  proof (rule iffI; intro allI impI)
    fix i assume "\<forall>k. 1 \<le> k \<and> k < N \<longrightarrow> sint (arr ! (k - 1)) \<le> sint (arr ! k)"
      and "Suc i < length (map sint arr)"
    then show "map sint arr ! i \<le> map sint arr ! Suc i" using len by (auto dest: spec [of _ "Suc i"])
  next
    fix k assume "\<forall>i. Suc i < length (map sint arr) \<longrightarrow> map sint arr ! i \<le> map sint arr ! Suc i"
      and "1 \<le> k \<and> k < N"
    then show "sint (arr ! (k - 1)) \<le> sint (arr ! k)" using len by (auto dest: spec [of _ "k - 1"])
  qed
  with len show ?thesis by (simp add: check_from_spec)
qed

text \<open>The printed form of the array.\<close>

definition newline_text :: "u8 list" where
  "newline_text = [0x0D, 0x0A]"

definition array_text :: "nat \<Rightarrow> s32 list \<Rightarrow> u8 list" where
  "array_text i arr = concat (map (\<lambda>k. (if k mod 8 = 0 then newline_text else [])
     @ bytes ''0x'' @ hex_digits 8 (arr ! k) @ [0x20]) [i..<N])"

lemma puts_newline: "uart_puts (cstr [CHR 0x0D, CHR 0x0A]) u = each uart_putc newline_text u"
  by (subst uart_puts_cstr) (simp_all add: bytes_def newline_text_def)

lemma print_from_each: "length arr = N \<Longrightarrow> print_from i arr = each uart_putc (array_text i arr)"
proof (induction "N - i" arbitrary: i)
  case 0
  then show ?case by (intro ext, subst print_from.simps) (simp add: array_text_def)
next
  case (Suc n)
  then have i: "i < N" and IH: "print_from (Suc i) arr = each uart_putc (array_text (Suc i) arr)"
    by (auto simp: Suc_diff_Suc)
  have unfold_text: "array_text i arr = (if i mod 8 = 0 then newline_text else [])
     @ (bytes ''0x'' @ hex_digits 8 (arr ! i)) @ [0x20] @ array_text (Suc i) arr"
    using i by (simp add: array_text_def upt_rec [of i])
  show ?case
    using i Suc.prems
    by (intro ext, subst print_from.simps)
      (simp add: unfold_text puts_newline uart_put_hex32_each each_append IH Option.bind_assoc)
qed

lemma print_array_each:
  assumes "length arr = N" and "0 \<notin> set (bytes s)"
  shows "print_array (cstr s) arr = each uart_putc (bytes s @ array_text 0 arr @ newline_text)"
  using assms by (intro ext)
    (simp add: print_array_def uart_puts_cstr print_from_each puts_newline each_append cong: bind_option_cong)

definition qs_text :: "bool \<Rightarrow> s32 list \<Rightarrow> s32 list \<Rightarrow> u8 list" where
  "qs_text print before after =
     (if print then bytes ''before:'' @ array_text 0 before @ newline_text
        @ bytes ''after:'' @ array_text 0 after @ newline_text else [])
     @ bytes [CHR ''O'', CHR ''K'', CHR 0x0D, CHR 0x0A]"

text \<open>
  Whatever the array held at reset, the program sorts the generated values and
  takes the OK branch; only the console can keep it from returning.
\<close>

lemma qs_main_each:
  assumes "length arr = N"
  obtains before after where "fill_array arr = Some before" "mset after = mset before"
    "sorted (map sint after)" "length after = N"
    "\<And>u. qs_main print arr u =
       do { u1 \<leftarrow> each uart_putc (qs_text print before after) u; Some (0x600D, after, u1) }"
proof -
  obtain before where b: "fill_array arr = Some before" "length before = N"
    using fill_array_length assms by blast
  then have "before \<noteq> []" by (auto simp: N_def)
  then obtain after where a: "quicksort 0 (int N - 1) before = Some after" "mset after = mset before"
      "sorted (map sint after)"
    using quicksort_all b(2) by metis
  have len: "length after = N" using mset_eq_length [OF a(2)] b(2) by simp
  have chk: "check_from (Suc 0) after = Some True" using check_from_sorted [OF len] a(3) by simp
  have "qs_main print arr u =
       do { u1 \<leftarrow> each uart_putc (qs_text print before after) u; Some (0x600D, after, u1) }" for u
  proof -
    have lits: "0 \<notin> set (bytes ''before:'')" "0 \<notin> set (bytes ''after:'')"
      "0 \<notin> set (bytes [CHR ''O'', CHR ''K'', CHR 0x0D, CHR 0x0A])" by (simp_all add: bytes_def)
    show ?thesis
      by (cases print)
        (simp_all add: qs_main_def a(1) b chk qs_text_def each_append
          print_array_each [OF b(2) lits(1)] print_array_each [OF len lits(2)] uart_puts_cstr [OF lits(3)]
          Option.bind_assoc del: bytes_append)
  qed
  with a b(1) len show ?thesis using that by blast
qed


section \<open>Properties\<close>

text \<open>C2: \<open>quicksort\<close> on a non-empty array returns, accesses nothing outside it, and leaves the same
  values in non-decreasing signed order.\<close>

theorem quicksort_sorts:
  assumes "arr \<noteq> []"
  shows "\<exists>arr'. quicksort 0 (int (length arr) - 1) arr = Some arr' \<and>
    mset arr' = mset arr \<and> sorted (map sint arr')"
  by (rule quicksort_all [OF assms])

lemma quicksort_sorts_witness:
  "\<exists>arr'. quicksort 0 (int (length [3, -1, 2 :: s32]) - 1) [3, -1, 2] = Some arr' \<and>
    mset arr' = mset [3, -1, 2] \<and> sorted (map sint arr')"
  by (rule quicksort_sorts) simp

text \<open>\<open>quicksort\<close> on a segment sorts that segment and touches no cell outside it.\<close>

theorem quicksort_segment:
  assumes "h \<le> length arr"
  shows "\<exists>arr'. quicksort (int lo) (int h - 1) arr = Some arr' \<and> mset arr' = mset arr
    \<and> (\<forall>k<length arr. k < lo \<or> h \<le> k \<longrightarrow> arr' ! k = arr ! k)
    \<and> (\<forall>i j. lo \<le> i \<and> i \<le> j \<and> j < h \<longrightarrow> sint (arr' ! i) \<le> sint (arr' ! j))"
  using quicksort_correct [OF assms, of lo] by (auto simp: perm_on_def sorted_seg_def)

lemma quicksort_segment_witness:
  "\<exists>arr'. quicksort (int 1) (int 3 - 1) [9, 5, 4, 0] = Some arr' \<and> mset arr' = mset [9, 5, 4, 0 :: s32]
    \<and> (\<forall>k<length [9, 5, 4, 0 :: s32]. k < 1 \<or> 3 \<le> k \<longrightarrow> arr' ! k = [9, 5, 4, 0] ! k)
    \<and> (\<forall>i j. 1 \<le> i \<and> i \<le> j \<and> j < 3 \<longrightarrow> sint (arr' ! i) \<le> sint (arr' ! j))"
  by (rule quicksort_segment) simp

text \<open>\<open>partition\<close> returns a position inside the segment and rearranges only the segment, with the
  values up to that position at most the pivot it holds and those after it greater.\<close>

theorem partition_splits:
  assumes "lo < h" and "h \<le> length arr"
  shows "\<exists>p arr'. partition_arr (int lo) (int h - 1) arr = Some (int p, arr') \<and>
    lo \<le> p \<and> p < h \<and> perm_on lo h arr arr' \<and> arr' ! p = arr ! (h - 1) \<and>
    (\<forall>k. lo \<le> k \<and> k < p \<longrightarrow> sint (arr' ! k) \<le> sint (arr' ! p)) \<and>
    (\<forall>k. p < k \<and> k < h \<longrightarrow> sint (arr' ! p) < sint (arr' ! k))"
  by (rule partition_arr_correct [OF assms])

lemma partition_splits_witness:
  "\<exists>p arr'. partition_arr (int 0) (int 3 - 1) [7, 1, 5] = Some (int p, arr') \<and>
    0 \<le> p \<and> p < 3 \<and> perm_on 0 3 [7, 1, 5] arr' \<and> arr' ! p = [7, 1, 5 :: s32] ! (3 - 1) \<and>
    (\<forall>k. 0 \<le> k \<and> k < p \<longrightarrow> sint (arr' ! k) \<le> sint (arr' ! p)) \<and>
    (\<forall>k. p < k \<and> k < 3 \<longrightarrow> sint (arr' ! p) < sint (arr' ! k))"
  by (rule partition_splits) simp_all

text \<open>The program sorts the generated values, takes the OK branch and returns 0x600D, whatever the
  array held at reset; it prints \<open>OK\<close>, after the two dumps of the array when printing is built in,
  and only the console can keep it from returning.\<close>

theorem qs_main_ok:
  assumes "length arr = N"
  shows "\<exists>before after. fill_array arr = Some before \<and> mset after = mset before \<and> sorted (map sint after)
    \<and> (\<forall>u. qs_main print arr u =
       do { u1 \<leftarrow> each uart_putc (qs_text print before after) u; Some (0x600D, after, u1) })"
  using qs_main_each [OF assms, of print] by metis

lemma qs_main_ok_witness:
  "\<exists>before after. fill_array (replicate N 0) = Some before \<and> mset after = mset before \<and> sorted (map sint after)
    \<and> (\<forall>u. qs_main True (replicate N 0) u =
       do { u1 \<leftarrow> each uart_putc (qs_text True before after) u; Some (0x600D, after, u1) })"
  by (rule qs_main_ok) simp

end
