(* ===== verification/Sha256.thy ===== *)
theory Sha256
  imports Uart
begin

text \<open>
  The hash of \<open>sim/sw/sha256/sha256.c\<close>: the round functions, the compression of
  one block and the driver with its padding, then the UART line shell around it.
  Arrays filled in index order are the list of the cells written so far; reading
  a cell that was not written, or a byte outside the message, is \<open>None\<close>.
\<close>

section \<open>The six functions and the constants\<close>

definition rotr32 :: "u32 \<Rightarrow> nat \<Rightarrow> u32" where
  "rotr32 x n = drop_bit n x OR push_bit (32 - n) x"

definition ch :: "u32 \<Rightarrow> u32 \<Rightarrow> u32 \<Rightarrow> u32" where
  "ch x y z = (x AND y) XOR (NOT x AND z)"

definition maj :: "u32 \<Rightarrow> u32 \<Rightarrow> u32 \<Rightarrow> u32" where
  "maj x y z = (x AND y) XOR (x AND z) XOR (y AND z)"

definition big_sigma0 :: "u32 \<Rightarrow> u32" where
  "big_sigma0 x = rotr32 x 2 XOR rotr32 x 13 XOR rotr32 x 22"

definition big_sigma1 :: "u32 \<Rightarrow> u32" where
  "big_sigma1 x = rotr32 x 6 XOR rotr32 x 11 XOR rotr32 x 25"

definition small_sigma0 :: "u32 \<Rightarrow> u32" where
  "small_sigma0 x = rotr32 x 7 XOR rotr32 x 18 XOR drop_bit 3 x"

definition small_sigma1 :: "u32 \<Rightarrow> u32" where
  "small_sigma1 x = rotr32 x 17 XOR rotr32 x 19 XOR drop_bit 10 x"

definition K :: "u32 list" where
  "K = [
    0x428A2F98, 0x71374491, 0xB5C0FBCF, 0xE9B5DBA5,
    0x3956C25B, 0x59F111F1, 0x923F82A4, 0xAB1C5ED5,
    0xD807AA98, 0x12835B01, 0x243185BE, 0x550C7DC3,
    0x72BE5D74, 0x80DEB1FE, 0x9BDC06A7, 0xC19BF174,
    0xE49B69C1, 0xEFBE4786, 0x0FC19DC6, 0x240CA1CC,
    0x2DE92C6F, 0x4A7484AA, 0x5CB0A9DC, 0x76F988DA,
    0x983E5152, 0xA831C66D, 0xB00327C8, 0xBF597FC7,
    0xC6E00BF3, 0xD5A79147, 0x06CA6351, 0x14292967,
    0x27B70A85, 0x2E1B2138, 0x4D2C6DFC, 0x53380D13,
    0x650A7354, 0x766A0ABB, 0x81C2C92E, 0x92722C85,
    0xA2BFE8A1, 0xA81A664B, 0xC24B8B70, 0xC76C51A3,
    0xD192E819, 0xD6990624, 0xF40E3585, 0x106AA070,
    0x19A4C116, 0x1E376C08, 0x2748774C, 0x34B0BCB5,
    0x391C0CB3, 0x4ED8AA4A, 0x5B9CCA4F, 0x682E6FF3,
    0x748F82EE, 0x78A5636F, 0x84C87814, 0x8CC70208,
    0x90BEFFFA, 0xA4506CEB, 0xBEF9A3F7, 0xC67178F2]"

definition H_INIT :: "u32 list" where
  "H_INIT = [0x6A09E667, 0xBB67AE85, 0x3C6EF372, 0xA54FF53A,
             0x510E527F, 0x9B05688C, 0x1F83D9AB, 0x5BE0CD19]"

section \<open>One block\<close>

function load_words :: "nat \<Rightarrow> u8 list \<Rightarrow> u32 list \<Rightarrow> u32 list option" where
  "load_words i block W =
     (if i < 16 then do {
        b0 \<leftarrow> arr_get block (i * 4 + 0);
        b1 \<leftarrow> arr_get block (i * 4 + 1);
        b2 \<leftarrow> arr_get block (i * 4 + 2);
        b3 \<leftarrow> arr_get block (i * 4 + 3);
        load_words (Suc i) block
          (W @ [push_bit 24 (ucast b0) OR push_bit 16 (ucast b1) OR push_bit 8 (ucast b2) OR ucast b3]) }
      else Some W)"
  by pat_completeness auto

termination load_words
  by (relation "measure (\<lambda>(i, b, w). 16 - i)") auto

declare load_words.simps [simp del]

function extend_words :: "nat \<Rightarrow> u32 list \<Rightarrow> u32 list option" where
  "extend_words i W =
     (if i < 64 then do {
        w2 \<leftarrow> arr_get W (i - 2);
        w7 \<leftarrow> arr_get W (i - 7);
        w15 \<leftarrow> arr_get W (i - 15);
        w16 \<leftarrow> arr_get W (i - 16);
        extend_words (Suc i) (W @ [small_sigma1 w2 + w7 + small_sigma0 w15 + w16]) }
      else Some W)"
  by pat_completeness auto

termination extend_words
  by (relation "measure (\<lambda>(i, w). 64 - i)") auto

declare extend_words.simps [simp del]

record work =
  va :: u32
  vb :: u32
  vc :: u32
  vd :: u32
  ve :: u32
  vf :: u32
  vg :: u32
  vh :: u32

definition round_step :: "u32 \<Rightarrow> u32 \<Rightarrow> work \<Rightarrow> work" where
  "round_step k w s =
     (let T1 = vh s + big_sigma1 (ve s) + ch (ve s) (vf s) (vg s) + k + w;
          T2 = big_sigma0 (va s) + maj (va s) (vb s) (vc s)
      in \<lparr>va = T1 + T2, vb = va s, vc = vb s, vd = vc s,
          ve = vd s + T1, vf = ve s, vg = vf s, vh = vg s\<rparr>)"

function rounds :: "nat \<Rightarrow> u32 list \<Rightarrow> work \<Rightarrow> work option" where
  "rounds i W s =
     (if i < 64 then do {
        k \<leftarrow> arr_get K i;
        w \<leftarrow> arr_get W i;
        rounds (Suc i) W (round_step k w s) }
      else Some s)"
  by pat_completeness auto

termination rounds
  by (relation "measure (\<lambda>(i, w, s). 64 - i)") auto

declare rounds.simps [simp del]

text \<open>The eight chaining values \<open>H[0..7]\<close> as working variables, and back.\<close>

definition work_of :: "u32 list \<Rightarrow> work option" where
  "work_of H = do {
     a \<leftarrow> arr_get H 0; b \<leftarrow> arr_get H 1; c \<leftarrow> arr_get H 2; d \<leftarrow> arr_get H 3;
     e \<leftarrow> arr_get H 4; f \<leftarrow> arr_get H 5; g \<leftarrow> arr_get H 6; h \<leftarrow> arr_get H 7;
     Some \<lparr>va = a, vb = b, vc = c, vd = d, ve = e, vf = f, vg = g, vh = h\<rparr> }"

definition list_of_work :: "work \<Rightarrow> u32 list" where
  "list_of_work s = [va s, vb s, vc s, vd s, ve s, vf s, vg s, vh s]"

definition sha256_transform :: "u32 list \<Rightarrow> u8 list \<Rightarrow> u32 list option" where
  "sha256_transform H block = do {
     W16 \<leftarrow> load_words 0 block [];
     W \<leftarrow> extend_words 16 W16;
     s0 \<leftarrow> work_of H;
     s \<leftarrow> rounds 0 W s0;
     Some (map2 (+) H (list_of_work s)) }"

section \<open>The message\<close>

function full_blocks_loop :: "nat \<Rightarrow> nat \<Rightarrow> u8 list \<Rightarrow> u32 list \<Rightarrow> u32 list option" where
  "full_blocks_loop i n data H =
     (if i < n then do {
        H1 \<leftarrow> sha256_transform H (drop (i * 64) data);
        full_blocks_loop (Suc i) n data H1 }
      else Some H)"
  by pat_completeness auto

termination full_blocks_loop
  by (relation "measure (\<lambda>(i, n, d, h). n - i)") auto

declare full_blocks_loop.simps [simp del]

function copy_tail :: "nat \<Rightarrow> nat \<Rightarrow> nat \<Rightarrow> u8 list \<Rightarrow> u8 list \<Rightarrow> u8 list option" where
  "copy_tail j n off data block =
     (if j < n then do {
        b \<leftarrow> arr_get data (off + j);
        block1 \<leftarrow> arr_set block j b;
        copy_tail (Suc j) n off data block1 }
      else Some block)"
  by pat_completeness auto

termination copy_tail
  by (relation "measure (\<lambda>(j, n, off, d, b). n - j)") auto

declare copy_tail.simps [simp del]

definition store_length :: "u64 \<Rightarrow> u8 list \<Rightarrow> u8 list option" where
  "store_length bit_len block = do {
     b1 \<leftarrow> arr_set block 56 (ucast (drop_bit 56 bit_len));
     b2 \<leftarrow> arr_set b1 57 (ucast (drop_bit 48 bit_len));
     b3 \<leftarrow> arr_set b2 58 (ucast (drop_bit 40 bit_len));
     b4 \<leftarrow> arr_set b3 59 (ucast (drop_bit 32 bit_len));
     b5 \<leftarrow> arr_set b4 60 (ucast (drop_bit 24 bit_len));
     b6 \<leftarrow> arr_set b5 61 (ucast (drop_bit 16 bit_len));
     b7 \<leftarrow> arr_set b6 62 (ucast (drop_bit 8 bit_len));
     arr_set b7 63 (ucast bit_len) }"

definition sha256 :: "u8 list \<Rightarrow> u32 \<Rightarrow> u32 list option" where
  "sha256 data len = do {
     let full_blocks = unat (len div 64);
     H1 \<leftarrow> full_blocks_loop 0 full_blocks data H_INIT;
     let remainder = unat (len AND 63);
     block \<leftarrow> copy_tail 0 remainder (full_blocks * 64) data (replicate 64 0);
     block1 \<leftarrow> arr_set block remainder 0x80;
     (H2, block2) \<leftarrow> (if 56 \<le> remainder
        then do { H2 \<leftarrow> sha256_transform H1 block1; Some (H2, replicate 64 0) }
        else Some (H1, block1));
     block3 \<leftarrow> store_length (ucast len * 8) block2;
     sha256_transform H2 block3 }"

section \<open>The standard's definition\<close>

text \<open>Big-endian words and lengths.\<close>

definition be32 :: "u8 list \<Rightarrow> nat \<Rightarrow> u32" where
  "be32 block t = push_bit 24 (ucast (block ! (t * 4 + 0))) OR push_bit 16 (ucast (block ! (t * 4 + 1)))
     OR push_bit 8 (ucast (block ! (t * 4 + 2))) OR ucast (block ! (t * 4 + 3))"

definition be64 :: "u64 \<Rightarrow> u8 list" where
  "be64 w = map (\<lambda>i. ucast (drop_bit (56 - 8 * i) w)) [0..<8]"

text \<open>The message schedule as the recurrence the standard gives.\<close>

fun sched_word :: "u8 list \<Rightarrow> nat \<Rightarrow> u32" where
  "sched_word block t =
     (if t < 16 then be32 block t
      else small_sigma1 (sched_word block (t - 2)) + sched_word block (t - 7)
        + small_sigma0 (sched_word block (t - 15)) + sched_word block (t - 16))"

declare sched_word.simps [simp del]

definition work_of_chain :: "u32 list \<Rightarrow> work" where
  "work_of_chain H = \<lparr>va = H ! 0, vb = H ! 1, vc = H ! 2, vd = H ! 3,
     ve = H ! 4, vf = H ! 5, vg = H ! 6, vh = H ! 7\<rparr>"

definition compress :: "u32 list \<Rightarrow> u8 list \<Rightarrow> u32 list" where
  "compress H block = map2 (+) H (list_of_work
     (fold (\<lambda>t. round_step (K ! t) (sched_word block t)) [0..<64] (work_of_chain H)))"

text \<open>
  Padding: a one bit, the least number of zero bytes that leaves room for the
  64-bit length at the end of a block, the length in bits.
\<close>

definition sha_pad :: "u8 list \<Rightarrow> u8 list" where
  "sha_pad msg = msg @ [0x80] @ replicate ((119 - length msg mod 64) mod 64) 0
     @ be64 (of_nat (8 * length msg))"

definition blocks :: "u8 list \<Rightarrow> u8 list list" where
  "blocks xs = map (\<lambda>i. take 64 (drop (64 * i) xs)) [0..<length xs div 64]"

definition sha256_spec :: "u8 list \<Rightarrow> u32 list" where
  "sha256_spec msg = foldl compress H_INIT (blocks (sha_pad msg))"

section \<open>One block, as the standard defines it\<close>

lemma load_words_result:
  "i \<le> 16 \<Longrightarrow> 64 \<le> length block \<Longrightarrow>
     load_words i block (map (be32 block) [0..<i]) = Some (map (be32 block) [0..<16])"
proof (induction "16 - i" arbitrary: i)
  case 0
  then show ?case by (simp add: load_words.simps)
next
  case (Suc n)
  have "load_words (Suc i) block (map (be32 block) [0..<Suc i]) = Some (map (be32 block) [0..<16])"
    using Suc.hyps Suc.prems by (intro Suc.hyps(1)) simp_all
  with Suc.prems Suc.hyps(2) show ?case
    by (subst load_words.simps) (simp add: be32_def del: upt_rec_numeral)
qed

lemma extend_words_result:
  "16 \<le> i \<Longrightarrow> i \<le> 64 \<Longrightarrow>
     extend_words i (map (sched_word block) [0..<i]) = Some (map (sched_word block) [0..<64])"
proof (induction "64 - i" arbitrary: i)
  case 0
  then show ?case by (simp add: extend_words.simps)
next
  case (Suc n)
  have "extend_words (Suc i) (map (sched_word block) [0..<Suc i]) = Some (map (sched_word block) [0..<64])"
    using Suc.hyps Suc.prems by (intro Suc.hyps(1)) simp_all
  with Suc.prems Suc.hyps(2) show ?case
    by (subst extend_words.simps) (simp add: sched_word.simps [of block i] del: upt_rec_numeral)
qed

lemma schedule_result:
  assumes "64 \<le> length block"
  shows "do { W16 \<leftarrow> load_words 0 block []; extend_words 16 W16 } = Some (map (sched_word block) [0..<64])"
proof -
  have "map (be32 block) [0..<16] = map (sched_word block) [0..<16]"
    by (intro map_cong) (simp_all add: sched_word.simps del: upt_rec_numeral)
  then show ?thesis
    using load_words_result [of 0 block] extend_words_result [of 16 block] assms
    by (simp del: upt_rec_numeral map_eq_conv)
qed

lemma length_K [simp]: "length K = 64"
  by (simp add: K_def)

lemma rounds_result:
  "i \<le> 64 \<Longrightarrow> length W = 64 \<Longrightarrow>
     rounds i W s = Some (fold (\<lambda>t. round_step (K ! t) (W ! t)) [i..<64] s)"
proof (induction "64 - i" arbitrary: i s)
  case 0
  then show ?case by (simp add: rounds.simps)
next
  case (Suc n)
  then show ?case by (subst rounds.simps) (simp add: upt_conv_Cons)
qed

lemma sha256_transform_compress:
  assumes "64 \<le> length block" and "length H = 8"
  shows "sha256_transform H block = Some (compress H block)"
proof -
  have w: "work_of H = Some (work_of_chain H)"
    using assms(2) by (simp add: work_of_def work_of_chain_def)
  have f: "fold (\<lambda>t. round_step (K ! t) (map (sched_word block) [0..<64] ! t)) [0..<64] s
      = fold (\<lambda>t. round_step (K ! t) (sched_word block t)) [0..<64] s" for s
    by (rule fold_cong) simp_all
  have "sha256_transform H block = do {
      W \<leftarrow> do { W16 \<leftarrow> load_words 0 block []; extend_words 16 W16 };
      s0 \<leftarrow> work_of H; s \<leftarrow> rounds 0 W s0; Some (map2 (+) H (list_of_work s)) }"
    by (simp add: sha256_transform_def Option.bind_assoc)
  also have "\<dots> = Some (compress H block)"
    using assms by (simp add: schedule_result w rounds_result f compress_def)
  finally show ?thesis .
qed

lemma length_compress: "length H = 8 \<Longrightarrow> length (compress H block) = 8"
  by (simp add: compress_def list_of_work_def)

lemma length_foldl_compress: "length H = 8 \<Longrightarrow> length (foldl compress H bs) = 8"
  by (induction bs arbitrary: H) (simp_all add: length_compress)

text \<open>The compression reads the first 64 bytes only.\<close>

lemma sched_word_take: "t < 64 \<Longrightarrow> sched_word (take 64 block) t = sched_word block t"
proof (induction t rule: less_induct)
  case (less t)
  show ?case
  proof (cases "t < 16")
    case True
    then show ?thesis by (simp add: sched_word.simps [of _ t] be32_def)
  next
    case False
    with less show ?thesis by (simp add: sched_word.simps [of _ t])
  qed
qed

lemma compress_take: "compress H (take 64 block) = compress H block"
proof -
  have "fold (\<lambda>t. round_step (K ! t) (sched_word (take 64 block) t)) [0..<64] s
      = fold (\<lambda>t. round_step (K ! t) (sched_word block t)) [0..<64] s" for s
    by (rule fold_cong) (simp_all add: sched_word_take)
  then show ?thesis by (simp add: compress_def)
qed


section \<open>The message, as the standard defines it\<close>

lemma full_blocks_result:
  "i \<le> n \<Longrightarrow> 64 * n \<le> length data \<Longrightarrow> length H = 8 \<Longrightarrow>
     full_blocks_loop i n data H = Some (foldl compress H (map (\<lambda>i. take 64 (drop (64 * i) data)) [i..<n]))"
proof (induction i arbitrary: H rule: inc_induct)
  case base
  then show ?case by (simp add: full_blocks_loop.simps)
next
  case (step i)
  then have "sha256_transform H (drop (i * 64) data) = Some (compress H (take 64 (drop (64 * i) data)))"
    by (subst sha256_transform_compress) (auto simp: compress_take mult.commute)
  with step show ?case
    by (subst full_blocks_loop.simps) (simp add: upt_conv_Cons length_compress)
qed

lemma copy_tail_result:
  "j \<le> n \<Longrightarrow> n \<le> 64 \<Longrightarrow> off + n \<le> length data \<Longrightarrow>
     copy_tail j n off data (take j (drop off data) @ replicate (64 - j) 0)
       = Some (take n (drop off data) @ replicate (64 - n) 0)"
proof (induction j rule: inc_induct)
  case base
  then show ?case by (simp add: copy_tail.simps)
next
  case (step j)
  have "(take j (drop off data) @ replicate (64 - j) 0)[j := data ! (off + j)]
      = take (Suc j) (drop off data) @ replicate (64 - Suc j) 0"
  proof -
    have "replicate (64 - j) (0 :: u8) = 0 # replicate (64 - Suc j) 0"
      using step by (metis Suc_diff_Suc less_le_trans replicate_Suc)
    then show ?thesis using step
      by (simp add: list_update_append take_Suc_conv_app_nth)
  qed
  with step show ?case by (subst copy_tail.simps) simp
qed

lemma length_be64 [simp]: "length (be64 w) = 8"
  by (simp add: be64_def)

lemma store_length_result:
  assumes "length block = 64"
  shows "store_length w block = Some (take 56 block @ be64 w)"
proof -
  obtain a b c d e f g h where "drop 56 block = [a, b, c, d, e, f, g, h]"
    using assms by (auto simp: length_Suc_conv numeral_eq_Suc dest!: arg_cong [of _ _ length])
  then have "block = take 56 block @ [a, b, c, d, e, f, g, h]"
    by (metis append_take_drop_id)
  moreover have "length (take 56 block) = 56" using assms by simp
  ultimately obtain p where p: "block = p @ [a, b, c, d, e, f, g, h]" "length p = 56" by blast
  then show ?thesis
    by (simp add: store_length_def be64_def list_update_append upt_conv_Cons)
qed

lemma blocks_append:
  assumes "length xs = 64 * n"
  shows "blocks (xs @ ys) = blocks xs @ blocks ys"
proof -
  have "[0..<n + length ys div 64] = [0..<n] @ map ((+) n) [0..<length ys div 64]"
    by (rule nth_equalityI) (auto simp: nth_append)
  moreover have "take 64 (drop (64 * i) (xs @ ys)) = take 64 (drop (64 * i) xs)" if "i < n" for i
  proof -
    have "64 * i + 64 \<le> 64 * n" using that by simp
    then show ?thesis using assms by simp
  qed
  moreover have "drop (64 * (n + i)) (xs @ ys) = drop (64 * i) ys" for i
    using assms by (simp add: algebra_simps)
  ultimately show ?thesis using assms by (simp add: blocks_def)
qed

lemma blocks_one: "length b = 64 \<Longrightarrow> blocks b = [b]"
  by (simp add: blocks_def)

lemma blocks_take:
  assumes "64 * q \<le> length msg"
  shows "blocks (take (64 * q) msg) = map (\<lambda>i. take 64 (drop (64 * i) msg)) [0..<q]"
proof -
  have "take 64 (drop (64 * i) (take (64 * q) msg)) = take 64 (drop (64 * i) msg)" if "i < q" for i
  proof -
    have "64 * i + 64 \<le> 64 * q" using that by simp
    then show ?thesis by (simp add: take_drop min_def)
  qed
  with assms show ?thesis by (simp add: blocks_def min_def)
qed


lemma blocks_Cons: "length b = 64 \<Longrightarrow> blocks (b @ ys) = b # blocks ys"
  using blocks_append [of b 1 ys] by (simp add: blocks_one)

lemma blocks_pad_short:
  assumes "length msg = 64 * q + r" and "r < 56"
  shows "blocks (sha_pad msg) = map (\<lambda>i. take 64 (drop (64 * i) msg)) [0..<q]
    @ [drop (64 * q) msg @ [0x80] @ replicate (55 - r) 0 @ be64 (of_nat (8 * length msg))]"
proof -
  define L :: u64 where "L = of_nat (8 * length msg)"
  have "119 - r = 64 + (55 - r)" using assms(2) by simp
  then have "(119 - r) mod 64 = 55 - r" by (simp only: mod_add_self1) simp
  moreover have "length msg mod 64 = r" using assms by simp
  ultimately have "sha_pad msg = take (64 * q) msg
      @ (drop (64 * q) msg @ [0x80] @ replicate (55 - r) 0 @ be64 L)"
    unfolding sha_pad_def L_def [symmetric] by (metis append_assoc append_take_drop_id)
  moreover have "length (drop (64 * q) msg @ [0x80] @ replicate (55 - r) 0 @ be64 L) = 64"
    using assms by simp
  moreover have "length (take (64 * q) msg) = 64 * q" using assms by simp
  ultimately show ?thesis
    using assms(1) unfolding L_def [symmetric]
    by (simp only: blocks_append blocks_one blocks_take le_add1)
qed

lemma blocks_pad_long:
  assumes "length msg = 64 * q + r" and "56 \<le> r" and "r < 64"
  shows "blocks (sha_pad msg) = map (\<lambda>i. take 64 (drop (64 * i) msg)) [0..<q]
    @ [drop (64 * q) msg @ [0x80] @ replicate (63 - r) 0,
       replicate 56 0 @ be64 (of_nat (8 * length msg))]"
proof -
  define L :: u64 where "L = of_nat (8 * length msg)"
  let ?b1 = "drop (64 * q) msg @ [0x80] @ replicate (63 - r) 0" and ?b2 = "replicate 56 0 @ be64 L"
  have "(119 - r) mod 64 = (63 - r) + 56" and "length msg mod 64 = r" using assms by simp_all
  then have "sha_pad msg = take (64 * q) msg @ (?b1 @ ?b2)"
    unfolding sha_pad_def L_def [symmetric] replicate_add
    by (metis append_assoc append_take_drop_id replicate_add)
  moreover have "length ?b1 = 64" "length ?b2 = 64" "length (take (64 * q) msg) = 64 * q"
    using assms by simp_all
  ultimately show ?thesis
    using assms(1) unfolding L_def [symmetric]
    by (simp only: blocks_append blocks_Cons blocks_one blocks_take le_add1)
qed

lemma bit_length_of: "(ucast len :: u64) * 8 = of_nat (8 * unat (len :: u32))"
  by (simp add: mult.commute)

lemma unat_mod_64: "unat ((len :: u32) AND 63) = unat len mod 64"
proof -
  have "len AND 63 = take_bit 6 len" by (simp only: take_bit_eq_mask) (simp add: mask_eq_exp_minus_1)
  then have "unat (len AND 63) = take_bit 6 (unat len)" by (simp only: unsigned_take_bit_eq)
  then show ?thesis by (simp add: take_bit_eq_mod)
qed

lemma tail_set:
  assumes "length xs = 64 * q + r" and "r < 64"
  shows "(take r (drop (64 * q) (xs @ ys)) @ replicate (64 - r) 0)[r := 0x80]
    = drop (64 * q) xs @ [0x80] @ replicate (63 - r) (0 :: u8)"
proof -
  have "replicate (64 - r) (0 :: u8) = 0 # replicate (63 - r) 0"
    using assms(2) replicate_Suc [of "63 - r" "0 :: u8"] by (simp add: Suc_diff_Suc [symmetric] Suc_diff_le del: replicate_Suc)
  with assms show ?thesis by (simp add: list_update_append)
qed

lemma full_blocks_prefix:
  assumes "length msg = 64 * q + r"
  shows "full_blocks_loop 0 q (msg @ rest) H_INIT
    = Some (foldl compress H_INIT (map (\<lambda>i. take 64 (drop (64 * i) msg)) [0..<q]))"
proof -
  have "take 64 (drop (64 * i) (msg @ rest)) = take 64 (drop (64 * i) msg)" if "i < q" for i
  proof -
    have "64 * i + 64 \<le> length msg" using that assms by simp
    then show ?thesis by simp
  qed
  then have "map (\<lambda>i. take 64 (drop (64 * i) (msg @ rest))) [0..<q]
      = map (\<lambda>i. take 64 (drop (64 * i) msg)) [0..<q]" by (intro map_cong) auto
  moreover have "full_blocks_loop 0 q (msg @ rest) H_INIT
      = Some (foldl compress H_INIT (map (\<lambda>i. take 64 (drop (64 * i) (msg @ rest))) [0..<q]))"
    using assms by (intro full_blocks_result) (simp_all add: H_INIT_def)
  ultimately show ?thesis by (simp only:)
qed

lemma sha256_standard:
  assumes "unat len \<le> length data"
  shows "sha256 data len = Some (sha256_spec (take (unat len) data))"
proof -
  define msg where "msg = take (unat len) data"
  define q r where "q = unat len div 64" and "r = unat len mod 64"
  define L where "L = ucast len * (8 :: u64)"
  obtain rest where data: "data = msg @ rest" unfolding msg_def by (metis append_take_drop_id)
  have lm: "length msg = unat len" using assms by (simp add: msg_def)
  then have len: "length msg = 64 * q + r" "r < 64" "L = of_nat (8 * length msg)"
    by (simp_all only: q_def r_def L_def bit_length_of) simp_all
  have n: "unat (len div 64) = q" and m: "unat (len AND 63) = r"
    unfolding q_def r_def by (simp add: unat_div, rule unat_mod_64)
  define H1 where "H1 = foldl compress H_INIT (map (\<lambda>i. take 64 (drop (64 * i) msg)) [0..<q])"
  have H1: "length H1 = 8" unfolding H1_def by (rule length_foldl_compress) (simp add: H_INIT_def)
  define b where "b = drop (64 * q) msg @ [0x80] @ replicate (63 - r) 0"
  have lb: "length b = 64" using len by (simp add: b_def)
  have full: "full_blocks_loop 0 q data H_INIT = Some H1"
    unfolding data H1_def by (rule full_blocks_prefix) (rule len)
  have tail: "copy_tail 0 r (q * 64) data (replicate 64 0)
      = Some (take r (drop (64 * q) data) @ replicate (64 - r) 0)"
    using copy_tail_result [of 0 r "64 * q" data] len by (simp add: data mult.commute)
  have set: "arr_set (take r (drop (64 * q) data) @ replicate (64 - r) 0) r 0x80 = Some b"
    using tail_set [OF len(1,2), of rest] len by (simp add: b_def data)
  have run: "sha256 data len = do {
      (H2, block2) \<leftarrow> (if 56 \<le> r
        then do { H2 \<leftarrow> sha256_transform H1 b; Some (H2, replicate 64 0) } else Some (H1, b));
      block3 \<leftarrow> store_length L block2;
      sha256_transform H2 block3 }"
    unfolding sha256_def Let_def n m full tail set Option.bind.simps L_def
    by simp
  show ?thesis
  proof (cases "56 \<le> r")
    case True
    then show ?thesis
      using blocks_pad_long [OF len(1) True len(2)] lb H1
      by (simp add: run sha256_transform_compress length_compress store_length_result
          sha256_spec_def H1_def b_def len(3) msg_def [symmetric])
  next
    case False
    then have "take 56 b = drop (64 * q) msg @ [0x80] @ replicate (55 - r) 0"
      using len by (simp add: b_def take_Cons')
    moreover have "length (drop (64 * q) msg) = r" using len by simp
    ultimately show ?thesis
      using False blocks_pad_short [OF len(1)] lb H1
      by (simp add: run sha256_transform_compress length_compress store_length_result
          sha256_spec_def H1_def len(3) msg_def [symmetric])
  qed
qed


section \<open>The line shell\<close>

definition INPUT_MAX :: nat where "INPUT_MAX = 128"

definition sha_hex :: "u8 list" where
  "sha_hex = cstr ''0123456789abcdef''"

text \<open>The inner loop of \<open>print_digest\<close>: \<open>n\<close> is the number of nibbles left, the shift \<open>4 * (n - 1)\<close>.\<close>

primrec print_word :: "nat \<Rightarrow> u32 \<Rightarrow> uart \<Rightarrow> uart option" where
  "print_word 0 w u = Some u"
| "print_word (Suc n) w u = do {
     c \<leftarrow> arr_get sha_hex (unat (drop_bit (4 * n) w AND 0xF));
     u1 \<leftarrow> uart_putc c u;
     print_word n w u1 }"

function print_words :: "nat \<Rightarrow> u32 list \<Rightarrow> uart \<Rightarrow> uart option" where
  "print_words i digest u =
     (if i < 8 then do {
        w \<leftarrow> arr_get digest i;
        u1 \<leftarrow> print_word 8 w u;
        print_words (Suc i) digest u1 }
      else Some u)"
  by pat_completeness auto

termination print_words
  by (relation "measure (\<lambda>(i, d, u). 8 - i)") auto

declare print_words.simps [simp del]

definition print_digest :: "u32 list \<Rightarrow> uart \<Rightarrow> uart option" where
  "print_digest digest u = do {
     u1 \<leftarrow> print_words 0 digest u;
     u2 \<leftarrow> uart_putc 0x0D u1;
     uart_putc 0x0A u2 }"

record shell =
  input :: "u8 list"
  slen :: u32

definition shell_step :: "shell \<Rightarrow> uart \<Rightarrow> (shell \<times> uart) option" where
  "shell_step s u = do {
     (c, u1) \<leftarrow> uart_getc u;
     if c = 0x0D \<or> c = 0x0A then do {
       u2 \<leftarrow> uart_puts (cstr CRLF) u1;
       u3 \<leftarrow> (if slen s \<noteq> 0 then do {
           digest \<leftarrow> sha256 (input s) (slen s);
           v \<leftarrow> uart_puts (cstr ''SHA256: '') u2;
           print_digest digest v }
         else Some u2);
       u4 \<leftarrow> uart_puts (cstr ''> '') u3;
       Some (s\<lparr>slen := 0\<rparr>, u4) }
     else if c = 0x08 \<or> c = 127 then
       (if slen s > 0 then do {
          u2 \<leftarrow> uart_putc 0x08 u1;
          u3 \<leftarrow> uart_putc 0x20 u2;
          u4 \<leftarrow> uart_putc 0x08 u3;
          Some (s\<lparr>slen := slen s - 1\<rparr>, u4) }
        else Some (s, u1))
     else if 32 \<le> c \<and> c \<le> 126 then
       (if unat (slen s) < INPUT_MAX - 1 then do {
          input1 \<leftarrow> arr_set (input s) (unat (slen s)) c;
          u2 \<leftarrow> uart_putc c u1;
          Some (\<lparr>input = input1, slen = slen s + 1\<rparr>, u2) }
        else Some (s, u1))
     else Some (s, u1) }"

text \<open>
  \<open>main\<close> never returns: it is followed for \<open>n\<close> turns of its loop. The buffer
  holds whatever the stack held before.
\<close>

primrec shell_loop :: "nat \<Rightarrow> shell \<Rightarrow> uart \<Rightarrow> (shell \<times> uart) option" where
  "shell_loop 0 s u = Some (s, u)"
| "shell_loop (Suc n) s u = do { (s1, u1) \<leftarrow> shell_step s u; shell_loop n s1 u1 }"

definition sha_main :: "nat \<Rightarrow> u8 list \<Rightarrow> uart \<Rightarrow> (shell \<times> uart) option" where
  "sha_main n garbage u = do {
     u1 \<leftarrow> uart_puts (cstr CRLF) u;
     u2 \<leftarrow> uart_puts (cstr (''YARV32 SHA-256 monitor'' @ CRLF)) u1;
     u3 \<leftarrow> uart_puts (cstr ''> '') u2;
     shell_loop n \<lparr>input = garbage, slen = 0\<rparr> u3 }"

section \<open>What the shell promises\<close>

text \<open>The line typed so far, and the reaction to one more character.\<close>

definition line :: "shell \<Rightarrow> u8 list" where
  "line s = take (unat (slen s)) (input s)"

definition shell_ok :: "shell \<Rightarrow> bool" where
  "shell_ok s \<longleftrightarrow> length (input s) = INPUT_MAX \<and> unat (slen s) < INPUT_MAX"

definition digest_text :: "u32 list \<Rightarrow> u8 list" where
  "digest_text d = concat (map (\<lambda>w. map (\<lambda>i. sha_hex ! unat (drop_bit (4 * i) w AND 0xF)) (rev [0..<8])) d)"

definition react :: "u8 list \<Rightarrow> u8 \<Rightarrow> u8 list \<times> u8 list" where
  "react l c =
     (if c = 0x0D \<or> c = 0x0A then
        ([], bytes CRLF
           @ (if l = [] then [] else bytes ''SHA256: '' @ digest_text (sha256_spec l) @ bytes CRLF)
           @ bytes ''> '')
      else if c = 0x08 \<or> c = 127 then (butlast l, if l = [] then [] else [0x08, 0x20, 0x08])
      else if 32 \<le> c \<and> c \<le> 126 \<and> length l < 127 then (l @ [c], [c])
      else (l, []))"

primrec reacts :: "u8 list \<Rightarrow> u8 list \<Rightarrow> u8 list \<times> u8 list" where
  "reacts l [] = (l, [])"
| "reacts l (c # cs) = (let (l1, out1) = react l c; (l2, out2) = reacts l1 cs in (l2, out1 @ out2))"

lemma length_sha_hex: "length sha_hex = 17"
  by (simp add: sha_hex_def cstr_def)

lemma print_word_each:
  "print_word n w u = each uart_putc (map (\<lambda>i. sha_hex ! unat (drop_bit (4 * i) w AND 0xF)) (rev [0..<n])) u"
proof (induction n arbitrary: u)
  case (Suc n)
  have "arr_get sha_hex (unat (drop_bit (4 * n) w AND 0xF))
      = Some (sha_hex ! unat (drop_bit (4 * n) w AND 0xF))"
    using nibble_less [of "drop_bit (4 * n) w"] by (simp add: length_sha_hex)
  with Suc show ?case by (simp del: arr_get_Some cong: bind_option_cong)
qed simp

lemma print_words_each:
  "i \<le> 8 \<Longrightarrow> length d = 8 \<Longrightarrow> print_words i d u = each uart_putc (digest_text (drop i d)) u"
proof (induction i arbitrary: u rule: inc_induct)
  case base
  then show ?case by (simp add: print_words.simps digest_text_def)
next
  case (step i)
  then have "drop i d = d ! i # drop (Suc i) d" by (simp add: Cons_nth_drop_Suc)
  with step show ?case
    by (subst print_words.simps)
      (simp add: digest_text_def print_word_each each_append del: upt_rec_numeral cong: bind_option_cong)
qed

lemma print_digest_each:
  "length d = 8 \<Longrightarrow> print_digest d u = each uart_putc (digest_text d @ bytes CRLF) u"
  by (simp add: print_digest_def print_words_each each_append bytes_def CRLF_def)

lemma length_sha256_spec [simp]: "length (sha256_spec m) = 8"
  by (simp add: sha256_spec_def length_foldl_compress H_INIT_def)


lemma no_nul: "0 \<notin> set (bytes CRLF)" "0 \<notin> set (bytes ''SHA256: '')" "0 \<notin> set (bytes ''> '')"
    "0 \<notin> set (bytes (''YARV32 SHA-256 monitor'' @ CRLF))"
  by (simp_all add: bytes_def CRLF_def)

lemma length_line: "shell_ok s \<Longrightarrow> length (line s) = unat (slen s)"
  by (simp add: shell_ok_def line_def)

lemma line_Nil: "shell_ok s \<Longrightarrow> line s = [] \<longleftrightarrow> slen s = 0"
  by (metis length_0_conv length_line unat_eq_zero)

lemma line_erase:
  assumes "shell_ok s" and "slen s > 0"
  shows "line (s\<lparr>slen := slen s - 1\<rparr>) = butlast (line s) \<and> shell_ok (s\<lparr>slen := slen s - 1\<rparr>)"
proof -
  have "unat (slen s - 1) = unat (slen s) - 1"
    using assms(2) by (simp add: unat_minus_one word_neq_0_conv)
  with assms show ?thesis
    by (auto simp: line_def shell_ok_def butlast_take)
qed

lemma line_store:
  assumes "shell_ok s" and "unat (slen s) < 127"
  shows "line \<lparr>input = (input s)[unat (slen s) := c], slen = slen s + 1\<rparr> = line s @ [c]
    \<and> shell_ok \<lparr>input = (input s)[unat (slen s) := c], slen = slen s + 1\<rparr>"
proof -
  have "unat (slen s + 1) = Suc (unat (slen s))"
    using assms(2) by (simp add: unat_word_ariths)
  with assms show ?thesis
    by (simp add: line_def shell_ok_def INPUT_MAX_def take_Suc_conv_app_nth)
qed

text \<open>One turn of the loop: the reaction to the character read, and the new line.\<close>

lemma shell_step_react:
  assumes "shell_ok s"
  obtains f where "\<And>u. shell_step s u = do { (c, u1) \<leftarrow> uart_getc u;
      u2 \<leftarrow> each uart_putc (snd (react (line s) c)) u1; Some (f c, u2) }"
    and "\<And>c. line (f c) = fst (react (line s) c) \<and> shell_ok (f c)"
proof
  define f where "f c =
     (if c = 0x0D \<or> c = 0x0A then s\<lparr>slen := 0\<rparr>
      else if c = 0x08 \<or> c = 127 then (if slen s > 0 then s\<lparr>slen := slen s - 1\<rparr> else s)
      else if 32 \<le> c \<and> c \<le> 126 \<and> unat (slen s) < 127
        then \<lparr>input = (input s)[unat (slen s) := c], slen = slen s + 1\<rparr>
      else s)" for c
  have hash: "sha256 (input s) (slen s) = Some (sha256_spec (line s))"
    using assms by (simp add: sha256_standard shell_ok_def line_def)
  note len = length_line [OF assms] and nil = line_Nil [OF assms]
  have ok: "unat (slen s) < length (input s)" "input s \<noteq> []" using assms by (auto simp: shell_ok_def)
  show "shell_step s u = do { (c, u1) \<leftarrow> uart_getc u;
      u2 \<leftarrow> each uart_putc (snd (react (line s) c)) u1; Some (f c, u2) }" for u
    unfolding shell_step_def
    by (rule bind_option_cong [OF refl])
      (auto simp: react_def f_def hash uart_puts_cstr no_nul each_append print_digest_each nil len ok
        INPUT_MAX_def word_neq_0_conv Option.bind_assoc cong: bind_option_cong)
  show "line (f c) = fst (react (line s) c) \<and> shell_ok (f c)" for c
    using assms line_erase [OF assms] line_store [OF assms, of c]
    by (auto simp: f_def react_def len nil line_def shell_ok_def INPUT_MAX_def word_gt_0)
qed

lemma shell_step_ok:
  assumes "shell_step s u = Some (s', u')" and "shell_ok s"
  obtains c where "subseq (c # incoming u') (incoming u)" "sent u' = sent u @ snd (react (line s) c)"
    "line s' = fst (react (line s) c)" "shell_ok s'"
proof -
  obtain f where f: "\<And>u. shell_step s u = do { (c, u1) \<leftarrow> uart_getc u;
      u2 \<leftarrow> each uart_putc (snd (react (line s) c)) u1; Some (f c, u2) }"
    and line: "\<And>c. line (f c) = fst (react (line s) c) \<and> shell_ok (f c)"
    using shell_step_react [OF assms(2)] by blast
  from assms(1) f obtain c u1 where c: "uart_getc u = Some (c, u1)" "s' = f c"
      and out: "each uart_putc (snd (react (line s) c)) u1 = Some u'"
    by (auto simp: Option.bind_eq_Some_conv)
  have "sent u1 = sent u" using c(1) by (rule uart_getc_obtain)
  moreover have "subseq (c # incoming u') (incoming u)"
    using uart_getc_subseq [OF c(1)] each_putc_incoming [OF out]
    by (metis subseq_Cons2 subseq_order.trans)
  ultimately show thesis
    using that [of c] polled.each_log [OF out] line c(2) by simp
qed

lemma shell_loop_reacts:
  "shell_loop n s u = Some (s', u') \<Longrightarrow> shell_ok s \<Longrightarrow>
     \<exists>cs. length cs = n \<and> subseq (cs @ incoming u') (incoming u)
       \<and> sent u' = sent u @ snd (reacts (line s) cs)
       \<and> line s' = fst (reacts (line s) cs) \<and> shell_ok s'"
proof (induction n arbitrary: s u)
  case 0
  then show ?case by auto
next
  case (Suc n)
  then obtain s1 u1 where s1: "shell_step s u = Some (s1, u1)" "shell_loop n s1 u1 = Some (s', u')"
    by (auto simp: Option.bind_eq_Some_conv)
  obtain c where c: "subseq (c # incoming u1) (incoming u)" "sent u1 = sent u @ snd (react (line s) c)"
      "line s1 = fst (react (line s) c)" "shell_ok s1"
    using shell_step_ok [OF s1(1) Suc.prems(2)] by blast
  obtain cs where cs: "length cs = n" "subseq (cs @ incoming u') (incoming u1)"
      "sent u' = sent u1 @ snd (reacts (line s1) cs)" "line s' = fst (reacts (line s1) cs)" "shell_ok s'"
    using Suc.IH [OF s1(2) c(4)] by blast
  have "subseq ((c # cs) @ incoming u') (incoming u)"
    using cs(2) c(1) by (metis append_Cons subseq_Cons2 subseq_order.trans)
  with c cs show ?case
    by (intro exI [of _ "c # cs"]) (auto simp: split_beta)
qed


lemma reacts_append:
  "reacts l (cs @ ds) = (let (l1, out1) = reacts l cs; (l2, out2) = reacts l1 ds in (l2, out1 @ out2))"
  by (induction cs arbitrary: l) (auto simp: split_beta)

text \<open>Printable characters are echoed and kept while there is room.\<close>

lemma reacts_typing:
  "\<forall>c\<in>set cs. 32 \<le> c \<and> c \<le> 126 \<Longrightarrow> length l + length cs \<le> 127 \<Longrightarrow> reacts l cs = (l @ cs, cs)"
proof (induction cs arbitrary: l)
  case (Cons c cs)
  have "react l c = (l @ [c], [c])"
    using Cons.prems by (auto simp: react_def word_le_nat_alt)
  with Cons show ?case by simp
qed simp

section \<open>The round functions\<close>

lemma rotr32_word_rotr:
  assumes "0 < n" and "n < 32"
  shows "rotr32 x n = word_rotr n x"
proof (rule bit_word_eqI)
  fix k assume k: "k < LENGTH(32)"
  show "bit (rotr32 x n) k = bit (word_rotr n x) k"
  proof (cases "k + n < 32")
    case True
    then have "\<not> 32 - n \<le> k" by simp
    with True k assms show ?thesis
      by (simp add: rotr32_def bit_or_iff bit_push_bit_iff bit_drop_bit_eq bit_word_rotr_iff add.commute)
  next
    case False
    then have "(k + n) mod 32 = k - (32 - n)" using k assms by (simp add: mod_if)
    moreover have "\<not> bit x (n + k)" using False by (auto dest: bit_imp_le_length)
    moreover have "32 - n \<le> k" using False by simp
    ultimately show ?thesis using False k assms
      by (simp add: rotr32_def bit_or_iff bit_push_bit_iff bit_drop_bit_eq bit_word_rotr_iff)
  qed
qed

lemma bit_ch: "n < 32 \<Longrightarrow> bit (ch x y z) n = (if bit x n then bit y n else bit z n)"
  by (simp add: ch_def bit_simps)

lemma bit_maj:
  "bit (maj x y z) n \<longleftrightarrow> (bit x n \<and> bit y n) \<or> (bit x n \<and> bit z n) \<or> (bit y n \<and> bit z n)"
  by (auto simp: maj_def bit_simps)

lemma reacts_line:
  assumes "\<forall>c\<in>set m. 32 \<le> c \<and> c \<le> 126" and "length m \<le> 127" and "m \<noteq> []"
  shows "reacts [] (m @ [0x0D]) = ([], m @ bytes CRLF @ bytes ''SHA256: ''
    @ digest_text (sha256_spec m) @ bytes CRLF @ bytes ''> '')"
  using assms by (simp add: reacts_append reacts_typing react_def)


section \<open>Properties\<close>

text \<open>C1: \<open>sha256\<close> computes the standard's digest of the first \<open>len\<close> bytes of its buffer, for every
  length and every content, and reads nothing past them.\<close>

theorem sha256_correct:
  assumes "unat len \<le> length data"
  shows "sha256 data len = Some (sha256_spec (take (unat len) data))"
  by (rule sha256_standard [OF assms])

lemma sha256_correct_witness:
  "sha256 (bytes ''abcd'') 3 = Some (sha256_spec (take (unat (3 :: u32)) (bytes ''abcd'')))"
  by (rule sha256_correct) simp

text \<open>The bit functions of the hash are those of the standard: \<open>rotr32\<close> rotates for every amount
  the code uses, \<open>ch\<close> chooses bit by bit and \<open>maj\<close> takes the majority.\<close>

theorem round_functions:
  assumes "0 < n" and "n < 32" and "k < 32"
  shows "rotr32 x n = word_rotr n x
    \<and> bit (ch x y z) k = (if bit x k then bit y k else bit z k)
    \<and> bit (maj x y z) k = (bit x k \<and> bit y k \<or> bit x k \<and> bit z k \<or> bit y k \<and> bit z k)"
  by (intro conjI rotr32_word_rotr bit_ch bit_maj assms)

lemma round_functions_witness:
  "rotr32 1 7 = word_rotr 7 1
    \<and> bit (ch 1 2 4) 1 = (if bit (1 :: u32) 1 then bit (2 :: u32) 1 else bit (4 :: u32) 1)
    \<and> bit (maj 1 2 4) 1 = (bit (1 :: u32) 1 \<and> bit (2 :: u32) 1 \<or> bit (1 :: u32) 1 \<and> bit (4 :: u32) 1
      \<or> bit (2 :: u32) 1 \<and> bit (4 :: u32) 1)"
  by (rule round_functions) simp_all

text \<open>C33: The line shell refines its reaction to each character: every turn reads one character,
  prints exactly what \<open>react\<close> says and keeps the line \<open>react\<close> says, with the length below 128 and no
  access outside the buffer.\<close>

theorem shell_refines_react:
  assumes "shell_ok s"
  shows "\<exists>f. (\<forall>u. shell_step s u = do { (c, u1) \<leftarrow> uart_getc u;
      u2 \<leftarrow> each uart_putc (snd (react (line s) c)) u1; Some (f c, u2) })
    \<and> (\<forall>c. line (f c) = fst (react (line s) c) \<and> shell_ok (f c))"
proof (rule shell_step_react [OF assms])
  fix f
  assume "\<And>u. shell_step s u = do { (c, u1) \<leftarrow> uart_getc u;
      u2 \<leftarrow> each uart_putc (snd (react (line s) c)) u1; Some (f c, u2) }"
    and "\<And>c. line (f c) = fst (react (line s) c) \<and> shell_ok (f c)"
  then show ?thesis by (intro exI [of _ f] conjI allI) simp_all
qed

lemma shell_refines_react_witness:
  "\<exists>f. (\<forall>u. shell_step \<lparr>input = replicate 128 0x61, slen = 3\<rparr> u = do { (c, u1) \<leftarrow> uart_getc u;
      u2 \<leftarrow> each uart_putc (snd (react (line \<lparr>input = replicate 128 0x61, slen = 3\<rparr>) c)) u1; Some (f c, u2) })
    \<and> (\<forall>c. line (f c) = fst (react (line \<lparr>input = replicate 128 0x61, slen = 3\<rparr>) c) \<and> shell_ok (f c))"
  by (rule shell_refines_react) (simp add: shell_ok_def INPUT_MAX_def)

text \<open>After any number of turns the shell has consumed that many of the characters that arrived,
  in order, and its output and its line are those of the reactions to them.\<close>

theorem shell_session:
  assumes "shell_loop n s u = Some (s', u')" and "shell_ok s"
  shows "\<exists>cs. length cs = n \<and> subseq (cs @ incoming u') (incoming u)
       \<and> sent u' = sent u @ snd (reacts (line s) cs)
       \<and> line s' = fst (reacts (line s) cs) \<and> shell_ok s'"
  by (rule shell_loop_reacts [OF assms])

lemma shell_session_witness:
  "\<exists>cs. length cs = 1 \<and> subseq (cs @ incoming (idle_uart\<lparr>tx_fifo := [0x62]\<rparr>)) (incoming (idle_uart\<lparr>rx_fifo := [0x62]\<rparr>))
       \<and> sent (idle_uart\<lparr>tx_fifo := [0x62]\<rparr>) = sent (idle_uart\<lparr>rx_fifo := [0x62]\<rparr>)
           @ snd (reacts (line \<lparr>input = replicate 128 0x61, slen = 0\<rparr>) cs)
       \<and> line \<lparr>input = 0x62 # replicate 127 0x61, slen = 1\<rparr> = fst (reacts (line \<lparr>input = replicate 128 0x61, slen = 0\<rparr>) cs)
       \<and> shell_ok \<lparr>input = 0x62 # replicate 127 0x61, slen = 1\<rparr>"
proof (rule shell_session)
  have "uart_getc (idle_uart\<lparr>rx_fifo := [0x62]\<rparr>) = Some (0x62, idle_uart)"
    by (simp add: uart_getc_idle) (simp add: idle_uart_def)
  moreover have "uart_putc 0x62 idle_uart = Some (idle_uart\<lparr>tx_fifo := [0x62]\<rparr>)"
    by (simp add: uart_putc_idle) (simp add: idle_uart_def)
  moreover have "(replicate 128 0x61)[0 := 0x62] = (0x62 # replicate 127 0x61 :: u8 list)"
    by (rule nth_equalityI) (auto simp: nth_list_update nth_Cons')
  ultimately show "shell_loop 1 \<lparr>input = replicate 128 0x61, slen = 0\<rparr> (idle_uart\<lparr>rx_fifo := [0x62]\<rparr>)
      = Some (\<lparr>input = 0x62 # replicate 127 0x61, slen = 1\<rparr>, idle_uart\<lparr>tx_fifo := [0x62]\<rparr>)"
    by (simp add: shell_step_def INPUT_MAX_def)
qed (simp add: shell_ok_def INPUT_MAX_def)

text \<open>Typing a line of 1 to 127 printable characters and Enter makes the shell echo the line and
  print its SHA-256 digest in hexadecimal, then the prompt, and leaves the line empty.\<close>

theorem shell_hashes_line:
  assumes "\<forall>c\<in>set m. 32 \<le> c \<and> c \<le> 126" and "length m \<le> 127" and "m \<noteq> []"
  shows "reacts [] (m @ [0x0D]) = ([], m @ bytes CRLF @ bytes ''SHA256: ''
    @ digest_text (sha256_spec m) @ bytes CRLF @ bytes ''> '')"
  by (rule reacts_line [OF assms])

lemma shell_hashes_line_witness:
  "reacts [] (bytes ''hello'' @ [0x0D]) = ([], bytes ''hello'' @ bytes CRLF @ bytes ''SHA256: ''
    @ digest_text (sha256_spec (bytes ''hello'')) @ bytes CRLF @ bytes ''> '')"
  by (rule shell_hashes_line) (simp_all add: bytes_def)

end
