(* ===== verification/Crc.thy ===== *)
theory Crc
  imports Prelude
begin

text \<open>
  The 16-bit check sum of \<open>sim/sw/coremark/eembc/core_util.c\<close>: \<open>crcu8\<close> with its
  eight-step loop, and the wider entry points built on it. The reference is the
  reflected CRC with polynomial 0xA001, one bit at a time.
\<close>

section \<open>The code\<close>

text \<open>The loop of \<open>crcu8\<close>: \<open>n\<close> iterations are left.\<close>

primrec crcu8_loop :: "nat \<Rightarrow> u8 \<Rightarrow> u16 \<Rightarrow> u16" where
  "crcu8_loop 0 data crc = crc"
| "crcu8_loop (Suc n) data crc =
     (let x16 = (data AND 1) XOR (ucast crc AND 1);
          data1 = drop_bit 1 data;
          (crc1, carry) = (if x16 = 1 then (crc XOR 0x4002, True) else (crc, False));
          crc2 = drop_bit 1 crc1;
          crc3 = (if carry then crc2 OR 0x8000 else crc2 AND 0x7fff)
      in crcu8_loop n data1 crc3)"

definition crcu8 :: "u8 \<Rightarrow> u16 \<Rightarrow> u16" where
  "crcu8 data crc = crcu8_loop 8 data crc"

definition crcu16 :: "u16 \<Rightarrow> u16 \<Rightarrow> u16" where
  "crcu16 newval crc = (let crc1 = crcu8 (ucast newval) crc in crcu8 (ucast (drop_bit 8 newval)) crc1)"

definition crc16 :: "s16 \<Rightarrow> u16 \<Rightarrow> u16" where
  "crc16 newval crc = crcu16 newval crc"

definition crcu32 :: "u32 \<Rightarrow> u16 \<Rightarrow> u16" where
  "crcu32 newval crc = (let crc1 = crc16 (ucast newval) crc in crc16 (ucast (drop_bit 16 newval)) crc1)"

section \<open>The reference\<close>

text \<open>One step of the reflected shift register, and a message fed bit by bit.\<close>

definition lfsr :: "bool \<Rightarrow> u16 \<Rightarrow> u16" where
  "lfsr b crc = (if b \<noteq> bit crc 0 then drop_bit 1 crc XOR 0xA001 else drop_bit 1 crc)"

definition bits_of :: "nat \<Rightarrow> 'a::len word \<Rightarrow> bool list" where
  "bits_of n w = map (bit w) [0..<n]"

definition crc_bits :: "bool list \<Rightarrow> u16 \<Rightarrow> u16" where
  "crc_bits bs crc = fold lfsr bs crc"

lemma bits_of_Suc: "bits_of (Suc n) w = bit w 0 # bits_of n (drop_bit 1 w)"
  by (simp add: bits_of_def map_upt_Suc bit_drop_bit_eq o_def del: upt_Suc)

lemma bits_of_add: "bits_of (m + n) w = bits_of m w @ bits_of n (drop_bit m w)"
  by (induction m arbitrary: w) (simp_all add: bits_of_Suc bits_of_def [of 0])

lemma bits_of_ucast: "n \<le> LENGTH('b) \<Longrightarrow> bits_of n (ucast (w :: 'a::len word) :: 'b::len word) = bits_of n w"
  by (auto simp: bits_of_def bit_ucast_iff)

lemma nat_less_16:
  assumes "n < (16 :: nat)"
  obtains "n = 0" | "n = 1" | "n = 2" | "n = 3" | "n = 4" | "n = 5" | "n = 6" | "n = 7"
    | "n = 8" | "n = 9" | "n = 10" | "n = 11" | "n = 12" | "n = 13" | "n = 14" | "n = 15"
  using assms by (auto simp: less_Suc_eq numeral_eq_Suc)

lemma carry_in: "drop_bit (Suc 0) (crc XOR 0x4002) OR 0x8000 = drop_bit (Suc 0) crc XOR (0xA001 :: u16)"
proof (rule bit_word_eqI)
  fix n assume "n < LENGTH(16)"
  then have "n < 16" by simp
  then show "bit (drop_bit (Suc 0) (crc XOR 0x4002) OR 0x8000) n = bit (drop_bit (Suc 0) crc XOR (0xA001 :: u16)) n"
    by (cases n rule: nat_less_16) (auto simp: bit_simps bit_numeral_rec dest: bit_imp_le_length)
qed

lemma carry_out: "drop_bit 1 crc AND 0x7fff = drop_bit 1 (crc :: u16)"
proof (rule bit_word_eqI)
  fix n assume "n < LENGTH(16)"
  then have "n < 16" by simp
  then show "bit (drop_bit 1 crc AND 0x7fff) n = bit (drop_bit 1 crc) n"
    by (cases n rule: nat_less_16) (auto simp: bit_simps bit_numeral_rec dest: bit_imp_le_length)
qed

lemma low_bits_differ: "((data :: u8) AND 1) XOR (ucast (crc :: u16) AND 1) = 1 \<longleftrightarrow> bit data 0 \<noteq> bit crc 0"
proof -
  have "(data AND 1) = of_bool (bit data 0)" "(ucast crc AND (1 :: u8)) = of_bool (bit crc 0)"
    by (auto intro!: bit_word_eqI simp: bit_simps)
  then show ?thesis by auto
qed

lemma crcu8_loop_bits: "crcu8_loop n data crc = crc_bits (bits_of n data) crc"
proof (induction n arbitrary: data crc)
  case 0
  then show ?case by (simp add: crc_bits_def bits_of_def)
next
  case (Suc n)
  then show ?case
    by (simp add: crc_bits_def bits_of_Suc lfsr_def low_bits_differ Let_def
        carry_in carry_out [simplified] del: drop_bit_xor)
qed

section \<open>The check sum is the reflected CRC\<close>

lemma crcu8_bits: "crcu8 data crc = crc_bits (bits_of 8 data) crc"
  by (simp add: crcu8_def crcu8_loop_bits)

lemma crc_bits_append: "crc_bits (xs @ ys) crc = crc_bits ys (crc_bits xs crc)"
  by (simp add: crc_bits_def)

lemma crcu16_bits: "crcu16 v crc = crc_bits (bits_of 16 v) crc"
  using bits_of_add [of 8 8 v]
  by (simp add: crcu16_def crcu8_bits Let_def bits_of_ucast crc_bits_append)

lemma crc16_bits: "crc16 v crc = crc_bits (bits_of 16 v) crc"
  by (simp add: crc16_def crcu16_bits)

lemma crcu32_bits: "crcu32 v crc = crc_bits (bits_of 32 v) crc"
  using bits_of_add [of 16 16 v]
  by (simp add: crcu32_def crc16_bits Let_def bits_of_ucast crc_bits_append)

section \<open>Error detection\<close>

text \<open>Shifting data in is the same as adding it to the register first.\<close>

lemma lfsr_xor: "lfsr False (crc XOR v) = lfsr (bit v 0) crc XOR drop_bit 1 v"
  by (auto simp: lfsr_def bit_xor_iff xor.assoc xor.commute xor.left_commute)

lemma lfsr_run_xor: "(lfsr False ^^ n) (crc XOR v) = crc_bits (bits_of n v) crc XOR drop_bit n v"
proof (induction n arbitrary: crc v)
  case 0
  then show ?case by (simp add: crc_bits_def bits_of_def)
next
  case (Suc n)
  then show ?case
    by (simp add: funpow_Suc_right lfsr_xor crc_bits_def bits_of_Suc del: funpow.simps(2))
qed

lemma crc_bits_16: "crc_bits (bits_of 16 v) crc = (lfsr False ^^ 16) (crc XOR v)"
proof -
  have "drop_bit 16 v = 0" by (rule bit_word_eqI) (simp add: bit_simps)
  then show ?thesis by (simp add: lfsr_run_xor)
qed

lemma xor_cancel: "c XOR v = c XOR w \<longleftrightarrow> v = w" "v XOR c = w XOR c \<longleftrightarrow> v = w"
  for v w c :: "'a::len word"
  by (metis xor.assoc xor.commute xor.left_neutral xor_self_eq)+

lemma bit_15_lfsr: "bit (lfsr b crc) 15 \<longleftrightarrow> b \<noteq> bit crc 0"
  by (auto simp: lfsr_def bit_simps bit_numeral_rec dest: bit_imp_le_length)

lemma lfsr_inj: "lfsr b x = lfsr b y \<longleftrightarrow> x = y"
proof
  assume eq: "lfsr b x = lfsr b y"
  then have low: "bit x 0 = bit y 0" using bit_15_lfsr by metis
  with eq have "drop_bit 1 x = drop_bit 1 y" by (auto simp: lfsr_def xor_cancel split: if_splits)
  then have "bit x (Suc n) = bit y (Suc n)" for n by (metis bit_drop_bit_eq comp_apply plus_1_eq_Suc)
  with low show "x = y" by (intro bit_word_eqI) (metis not0_implies_Suc)
qed simp

lemma crc_bits_inj: "crc_bits bs x = crc_bits bs y \<longleftrightarrow> x = y"
  by (induction bs arbitrary: x y) (simp_all add: crc_bits_def lfsr_inj)

lemma lfsr_run_inj: "(lfsr False ^^ n) x = (lfsr False ^^ n) y \<longleftrightarrow> x = y"
  by (induction n) (simp_all add: lfsr_inj)

lemma crcu16_inj_data: "crcu16 v crc = crcu16 w crc \<longleftrightarrow> v = w"
  by (simp add: crcu16_bits crc_bits_16 lfsr_run_inj xor_cancel)

lemma crcu16_inj_state: "crcu16 v crc = crcu16 v crc' \<longleftrightarrow> crc = crc'"
  by (simp add: crcu16_bits crc_bits_inj)

lemma fold_crcu16_inj: "fold crcu16 vs crc = fold crcu16 vs crc' \<longleftrightarrow> crc = crc'"
  by (induction vs arbitrary: crc crc') (simp_all add: crcu16_inj_state)

lemma single_word_error:
  "fold crcu16 (xs @ v # ys) crc = fold crcu16 (xs @ w # ys) crc \<longleftrightarrow> v = w"
  by (simp add: fold_crcu16_inj crcu16_inj_data)


section \<open>Properties\<close>

text \<open>C32: \<open>crcu8\<close>, \<open>crcu16\<close> and \<open>crcu32\<close> compute the reflected CRC-16 with polynomial 0xA001 of
  the bits of their argument, lowest bit first.\<close>

theorem crc_is_reflected_crc16:
  "crcu8 b crc = crc_bits (bits_of 8 b) crc \<and> crcu16 h crc = crc_bits (bits_of 16 h) crc
    \<and> crc16 h crc = crc_bits (bits_of 16 h) crc \<and> crcu32 w crc = crc_bits (bits_of 32 w) crc"
  by (simp only: crcu8_bits crcu16_bits crc16_bits crcu32_bits)

text \<open>The check sum detects every error confined to one 16-bit value of a sequence: two sequences
  that differ in that value only never have the same check sum.\<close>

theorem crc_detects_word_error:
  "fold crcu16 (xs @ v # ys) crc = fold crcu16 (xs @ w # ys) crc \<longleftrightarrow> v = w"
  by (rule single_word_error)

end
