(* ===== verification/Yarvmon.thy ===== *)
theory Yarvmon
  imports Uart
begin

text \<open>
  The monitor of \<open>sim/sw/yarvmon/yarvmon.c\<close>. What a load, a store and a call of
  an arbitrary address do is decided by the bus and by the linked image, not by
  this file: they are the three functions of a \<open>bus\<close>, which act on the whole
  state since a store may hit the monitor's own variables. \<open>None\<close> is a wait that
  never ends, a call that never returns or an access outside \<open>in_buf\<close>.
\<close>

section \<open>State\<close>

definition IN_BUF_SIZE :: nat where "IN_BUF_SIZE = 132"

datatype mode = MODE_XAM | MODE_STOR | MODE_BLOCK

record 'm mon =
  in_buf :: "u8 list"
  xam :: u32
  st_addr :: u32
  con :: uart
  mem :: 'm

record 'm bus =
  load_byte :: "u32 \<Rightarrow> 'm mon \<Rightarrow> (u8 \<times> 'm mon) option"
  store_byte :: "u32 \<Rightarrow> u8 \<Rightarrow> 'm mon \<Rightarrow> 'm mon option"
  call_addr :: "u32 \<Rightarrow> 'm mon \<Rightarrow> 'm mon option"

section \<open>Output\<close>

definition putc :: "u8 \<Rightarrow> 'm mon \<Rightarrow> 'm mon option" where
  "putc c s = do { u \<leftarrow> uart_putc c (con s); Some (s\<lparr>con := u\<rparr>) }"

definition puts :: "u8 list \<Rightarrow> 'm mon \<Rightarrow> 'm mon option" where
  "puts cs s = do { u \<leftarrow> uart_puts cs (con s); Some (s\<lparr>con := u\<rparr>) }"

definition print_nibble :: "u32 \<Rightarrow> 'm mon \<Rightarrow> 'm mon option" where
  "print_nibble v s = do {
     c \<leftarrow> arr_get hex_upper (unat (v AND 0xF));
     putc c s }"

text \<open>The loop over \<open>i = 28, 24, \<dots>, 0\<close>: \<open>n\<close> nibbles are left.\<close>

primrec hex32_loop :: "nat \<Rightarrow> u32 \<Rightarrow> 'm mon \<Rightarrow> 'm mon option" where
  "hex32_loop 0 v s = Some s"
| "hex32_loop (Suc n) v s = do { s1 \<leftarrow> print_nibble (drop_bit (4 * n) v) s; hex32_loop n v s1 }"

definition print_hex32 :: "u32 \<Rightarrow> 'm mon \<Rightarrow> 'm mon option" where
  "print_hex32 v s = hex32_loop 8 v s"

definition print_hex8 :: "u8 \<Rightarrow> 'm mon \<Rightarrow> 'm mon option" where
  "print_hex8 v s = do {
     s1 \<leftarrow> print_nibble (drop_bit 4 (ucast v)) s;
     print_nibble (ucast v) s1 }"

definition newline :: "'m mon \<Rightarrow> 'm mon option" where
  "newline s = do { s1 \<leftarrow> putc 0x0D s; putc 0x0A s1 }"

definition print_addr_prefix :: "u32 \<Rightarrow> 'm mon \<Rightarrow> 'm mon option" where
  "print_addr_prefix addr s = do {
     s1 \<leftarrow> newline s;
     s2 \<leftarrow> print_hex32 addr s1;
     putc 0x3A s2 }"

section \<open>Input\<close>

definition is_hex_digit :: "u8 \<Rightarrow> u32 option" where
  "is_hex_digit c =
     (if 0x30 \<le> c \<and> c \<le> 0x39 then Some (ucast c - 0x30)
      else if 0x41 \<le> c \<and> c \<le> 0x46 then Some (ucast c - 0x41 + 10)
      else if 0x61 \<le> c \<and> c \<le> 0x66 then Some (ucast c - 0x61 + 10)
      else None)"

text \<open>
  One turn of \<open>get_line\<close> with \<open>idx\<close> characters kept: \<open>Inr\<close> is the length it
  returns, \<open>Inl\<close> the index of the next turn.
\<close>

definition get_line_step :: "nat \<Rightarrow> 'm mon \<Rightarrow> ((nat + nat) \<times> 'm mon) option" where
  "get_line_step idx s = do {
     (c, u) \<leftarrow> uart_getc (con s);
     let s1 = s\<lparr>con := u\<rparr>;
     if c = 0x0D \<or> c = 0x0A then do { s2 \<leftarrow> newline s1; Some (Inr idx, s2) }
     else if c = 0x5F \<or> c = 0x08 \<or> c = 0x7F then
       (if idx > 0 then do { s2 \<leftarrow> puts (cstr [CHR 0x08, CHR '' '', CHR 0x08]) s1; Some (Inl (idx - 1), s2) }
        else Some (Inl idx, s1))
     else if idx \<ge> IN_BUF_SIZE - 1 then Some (Inl idx, s1)
     else do {
       buf \<leftarrow> arr_set (in_buf s1) idx c;
       s2 \<leftarrow> putc c (s1\<lparr>in_buf := buf\<rparr>);
       Some (Inl (idx + 1), s2) } }"

partial_function (option) get_line_loop :: "nat \<Rightarrow> 'm mon \<Rightarrow> (nat \<times> 'm mon) option" where
  "get_line_loop idx s = Option.bind (get_line_step idx s)
     (\<lambda>(r, s1). case r of Inr n \<Rightarrow> Some (n, s1) | Inl idx1 \<Rightarrow> get_line_loop idx1 s1)"

definition get_line :: "'m mon \<Rightarrow> (nat \<times> 'm mon) option" where
  "get_line s = get_line_loop 0 s"

section \<open>One line of commands\<close>

text \<open>
  The inner loop over delimiters and mode characters. \<open>fn()\<close> may change
  \<open>in_buf\<close>, but the loop is left at once with \<open>y = len\<close>.
\<close>

function skip_delims :: "'m bus \<Rightarrow> nat \<Rightarrow> nat \<Rightarrow> mode \<Rightarrow> 'm mon \<Rightarrow> (nat \<times> mode \<times> 'm mon) option" where
  "skip_delims b len y mode s =
     (if y < len then do {
        c \<leftarrow> arr_get (in_buf s) y;
        if c = 0x2E then skip_delims b len (y + 1) MODE_BLOCK s
        else if c = 0x3A then skip_delims b len (y + 1) MODE_STOR s
        else if c = 0x20 then skip_delims b len (y + 1) mode s
        else if c = 0x52 \<or> c = 0x72 then do {
          s1 \<leftarrow> call_addr b (xam s) s;
          Some (len, mode, s1) }
        else Some (y, mode, s) }
      else Some (y, mode, s))"
  by pat_completeness auto

termination skip_delims
  by (relation "measure (\<lambda>(b, len, y, m, s). len - y)") auto

declare skip_delims.simps [simp del]

function scan_hex :: "u8 list \<Rightarrow> nat \<Rightarrow> nat \<Rightarrow> u32 \<Rightarrow> nat \<Rightarrow> (nat \<times> u32 \<times> nat) option" where
  "scan_hex buf len y hex_val digits =
     (if y < len then do {
        c \<leftarrow> arr_get buf y;
        case is_hex_digit c of
          Some v \<Rightarrow> scan_hex buf len (y + 1) (push_bit 4 hex_val OR v) (digits + 1)
        | None \<Rightarrow> Some (y, hex_val, digits) }
      else Some (y, hex_val, digits))"
  by pat_completeness auto

termination scan_hex
  by (relation "measure (\<lambda>(b, len, y, h, d). len - y)") auto

declare scan_hex.simps [simp del]

text \<open>
  The block dump. The loop runs while \<open>xam\<close> is not \<open>end\<close>; \<open>xam\<close> is a variable in
  memory, so a bus with side effects could keep it from getting there.
\<close>

partial_function (option) dump_loop :: "'m bus \<Rightarrow> u32 \<Rightarrow> 'm mon \<Rightarrow> 'm mon option" where
  "dump_loop b end s = do {
     (v, s1) \<leftarrow> load_byte b (xam s) s;
     s2 \<leftarrow> print_hex8 v s1;
     if xam s2 = end then Some s2
     else do {
       let s3 = s2\<lparr>xam := xam s2 + 1\<rparr>;
       s4 \<leftarrow> (if xam s3 AND 7 = 0 then print_addr_prefix (xam s3) s3 else putc 0x20 s3);
       dump_loop b end s4 } }"

definition examine :: "'m bus \<Rightarrow> u32 \<Rightarrow> 'm mon \<Rightarrow> 'm mon option" where
  "examine b hex_val s = do {
     let s1 = s\<lparr>xam := hex_val, st_addr := hex_val\<rparr>;
     s2 \<leftarrow> print_addr_prefix (xam s1) s1;
     s3 \<leftarrow> putc 0x20 s2;
     (v, s4) \<leftarrow> load_byte b (xam s3) s3;
     print_hex8 v s4 }"

definition deposit :: "'m bus \<Rightarrow> u32 \<Rightarrow> 'm mon \<Rightarrow> 'm mon option" where
  "deposit b hex_val s = do {
     s1 \<leftarrow> store_byte b (st_addr s) (ucast hex_val) s;
     Some (s1\<lparr>st_addr := st_addr s1 + 1\<rparr>) }"

definition block_dump :: "'m bus \<Rightarrow> u32 \<Rightarrow> 'm mon \<Rightarrow> 'm mon option" where
  "block_dump b end s = do {
     s1 \<leftarrow> print_addr_prefix (xam s) s;
     s2 \<leftarrow> putc 0x20 s1;
     dump_loop b end s2 }"

text \<open>One item of the line: \<open>None\<close> in the first component ends the line.\<close>

definition do_item :: "'m bus \<Rightarrow> nat \<Rightarrow> nat \<Rightarrow> mode \<Rightarrow> 'm mon \<Rightarrow> ((nat \<times> mode) option \<times> 'm mon) option" where
  "do_item b len y mode s = do {
     (y1, mode1, s1) \<leftarrow> skip_delims b len y mode s;
     if y1 \<ge> len then Some (None, s1)
     else do {
       (y2, hex_val, digits) \<leftarrow> scan_hex (in_buf s1) len y1 0 0;
       if digits = 0 then Some (None, s1)
       else (case mode1 of
          MODE_STOR \<Rightarrow> do { s2 \<leftarrow> deposit b hex_val s1; Some (Some (y2, mode1), s2) }
        | MODE_BLOCK \<Rightarrow> do { s2 \<leftarrow> block_dump b hex_val s1; Some (Some (y2, MODE_XAM), s2) }
        | MODE_XAM \<Rightarrow> do { s2 \<leftarrow> examine b hex_val s1; Some (Some (y2, mode1), s2) }) } }"

lemma bind_prod_cong [fundef_cong]:
  "x = y \<Longrightarrow> (\<And>a b. y = Some (a, b) \<Longrightarrow> f a b = g a b) \<Longrightarrow>
     Option.bind x (\<lambda>(a, b). f a b) = Option.bind y (\<lambda>(a, b). g a b)"
  by (cases y) auto

lemma skip_delims_le: "skip_delims b len y m s = Some (y1, m1, s1) \<Longrightarrow> y \<le> y1"
proof (induction b len y m s rule: skip_delims.induct)
  case (1 b len y m s)
  from "1.prems" show ?case
    by (subst (asm) skip_delims.simps)
      (auto simp: Option.bind_eq_Some_conv split: if_splits dest: "1.IH" Suc_leD)
qed

lemma scan_hex_le: "scan_hex buf len y h d = Some (y1, h1, d1) \<Longrightarrow> y1 + d = y + d1 \<and> y \<le> y1"
proof (induction buf len y h d rule: scan_hex.induct)
  case (1 buf len y h d)
  from "1.prems" show ?case
    by (subst (asm) scan_hex.simps)
      (auto simp: Option.bind_eq_Some_conv split: if_splits option.splits dest!: "1.IH")
qed

lemma do_item_progress:
  assumes "do_item b len y m s = Some (Some (y2, m2), s2)"
  shows "y < y2"
  using assms
  by (auto simp: do_item_def Option.bind_eq_Some_conv split: if_splits mode.splits
      dest!: skip_delims_le scan_hex_le) (use mode.exhaust in blast)

function exec_line :: "'m bus \<Rightarrow> nat \<Rightarrow> nat \<Rightarrow> mode \<Rightarrow> 'm mon \<Rightarrow> 'm mon option" where
  "exec_line b len y mode s =
     (if y < len then Option.bind (do_item b len y mode s)
        (\<lambda>(r, s1). case r of None \<Rightarrow> Some s1 | Some (y1, mode1) \<Rightarrow> exec_line b len y1 mode1 s1)
      else Some s)"
  by pat_completeness auto

termination exec_line
  by (relation "measure (\<lambda>(b, len, y, m, s). len - y)") (auto dest: do_item_progress)

declare exec_line.simps [simp del]

section \<open>The monitor\<close>

text \<open>One turn of the outer loop; it never ends, so it is followed for \<open>n\<close> turns.\<close>

definition turn :: "'m bus \<Rightarrow> 'm mon \<Rightarrow> 'm mon option" where
  "turn b s = do {
     s1 \<leftarrow> putc 0x5C s;
     s2 \<leftarrow> newline s1;
     (len, s3) \<leftarrow> get_line s2;
     exec_line b len 0 MODE_XAM s3 }"

primrec turns :: "'m bus \<Rightarrow> nat \<Rightarrow> 'm mon \<Rightarrow> 'm mon option" where
  "turns b 0 s = Some s"
| "turns b (Suc n) s = do { s1 \<leftarrow> turn b s; turns b n s1 }"

definition yarvmon :: "'m bus \<Rightarrow> nat \<Rightarrow> 'm mon \<Rightarrow> 'm mon option" where
  "yarvmon b n s = do {
     s1 \<leftarrow> puts (cstr (CRLF @ ''RV32 YARV-Mon'' @ CRLF)) s;
     turns b n s1 }"


section \<open>What the monitor prints\<close>

lemma each_putc: "each putc cs s = do { u \<leftarrow> each uart_putc cs (con s); Some (s\<lparr>con := u\<rparr>) }"
  by (induction cs arbitrary: s) (simp_all add: putc_def Option.bind_assoc)

interpretation mon: byte_sink putc "\<lambda>s. sent (con s)" "\<lambda>s. fifo_ok (con s)"
  by unfold_locales (auto simp: putc_def Option.bind_eq_Some_conv dest: uart_putc_spec)

lemma putc_each: "putc c = each putc [c]"
  by (rule ext) simp

lemma puts_cstr [emit_eqs]: "0 \<notin> set (bytes t) \<Longrightarrow> puts (cstr t) = each putc (bytes t)"
  by (rule ext) (simp add: puts_def each_putc uart_puts_cstr)

definition hex8_text :: "u8 \<Rightarrow> u8 list" where
  "hex8_text v = hex_digits 2 (ucast v)"

definition addr_text :: "u32 \<Rightarrow> u8 list" where
  "addr_text a = bytes CRLF @ hex_digits 8 a @ [0x3A]"

lemma print_nibble_each [emit_eqs]: "print_nibble v = each putc [hex_upper ! unat (v AND 0xF)]"
proof
  fix s :: "'a mon"
  have "arr_get hex_upper (unat (v AND 0xF)) = Some (hex_upper ! unat (v AND 0xF))"
    using nibble_less [of v] by (simp add: length_hex_upper)
  then show "print_nibble v s = each putc [hex_upper ! unat (v AND 0xF)] s"
    by (simp add: print_nibble_def del: arr_get_Some)
qed

lemma hex32_loop_each: "hex32_loop n v = each putc (hex_digits n v)"
proof (intro ext, induction n)
  case (Suc n s)
  then show ?case
    by (simp add: print_nibble_each hex_digits_def cong: bind_option_cong)
qed (simp add: hex_digits_def)

lemma print_hex32_each [emit_eqs]: "print_hex32 v = each putc (hex_digits 8 v)"
  by (intro ext) (simp add: print_hex32_def hex32_loop_each)

lemma print_hex8_each [emit_eqs]: "print_hex8 v = each putc (hex8_text v)"
  by (intro ext) (simp add: print_hex8_def print_nibble_each hex8_text_def hex_digits_def upt_conv_Cons)

lemma newline_each [emit_eqs]: "newline = each putc (bytes CRLF)"
  by (intro ext) (simp add: newline_def bytes_CRLF)

lemma print_addr_prefix_each [emit_eqs]: "print_addr_prefix a = each putc (addr_text a)"
  by (intro ext) (simp add: print_addr_prefix_def addr_text_def emit_eqs each_append del: puts_cstr)

lemma each_putc_state:
  assumes "each putc cs s = Some s'"
  shows "s' = s\<lparr>con := con s'\<rparr>"
  using assms by (auto simp: each_putc Option.bind_eq_Some_conv)

section \<open>Plain memory\<close>

text \<open>
  The bus restricted to addresses that behave as memory: a load returns the byte
  stored last and changes nothing, a store changes that byte only.
\<close>

definition ram_on :: "u32 set \<Rightarrow> (u32 \<Rightarrow> u8) bus \<Rightarrow> bool" where
  "ram_on R b \<longleftrightarrow> (\<forall>a\<in>R. \<forall>s v. load_byte b a s = Some (mem s a, s)
     \<and> store_byte b a v s = Some (s\<lparr>mem := (mem s)(a := v)\<rparr>))"

lemma ram_on_ops:
  "ram_on R b \<Longrightarrow> a \<in> R \<Longrightarrow> load_byte b a s = Some (mem s a, s)"
  "ram_on R b \<Longrightarrow> a \<in> R \<Longrightarrow> store_byte b a v s = Some (s\<lparr>mem := (mem s)(a := v)\<rparr>)"
  by (auto simp: ram_on_def)

lemma examine_ram:
  assumes "ram_on R b" and "a \<in> R"
  shows "examine b a s = each putc (addr_text a @ [0x20] @ hex8_text (mem s a)) (s\<lparr>xam := a, st_addr := a\<rparr>)"
  using assms
  by (simp add: examine_def emit_eqs putc_def each_append each_putc ram_on_ops
      Option.bind_assoc del: puts_cstr cong: bind_option_cong)

lemma deposit_ram:
  assumes "ram_on R b" and "st_addr s \<in> R"
  shows "deposit b v s = Some (s\<lparr>mem := (mem s)(st_addr s := ucast v), st_addr := st_addr s + 1\<rparr>)"
  using assms by (simp add: deposit_def ram_on_ops)

text \<open>The bytes of a dump: \<open>n\<close> more follow the one at \<open>a\<close>.\<close>

definition gap_text :: "u32 \<Rightarrow> u8 list" where
  "gap_text a = (if a AND 7 = 0 then addr_text a else [0x20])"

primrec dump_text :: "(u32 \<Rightarrow> u8) \<Rightarrow> u32 \<Rightarrow> nat \<Rightarrow> u8 list" where
  "dump_text m a 0 = hex8_text (m a)"
| "dump_text m a (Suc n) = hex8_text (m a) @ gap_text (a + 1) @ dump_text m (a + 1) n"

lemma con_xam: "s\<lparr>con := u, xam := x\<rparr> = s\<lparr>xam := x, con := u\<rparr>"
  by (cases s) simp

lemma gap_each: "(if a AND 7 = 0 then print_addr_prefix a s else putc 0x20 s) = each putc (gap_text a) s"
  by (simp add: gap_text_def print_addr_prefix_each)

lemma dump_step_ram:
  assumes "ram_on R b" and "xam s \<in> R"
  shows "dump_loop b end s = (if xam s = end then each putc (hex8_text (mem s (xam s))) s
    else do { u \<leftarrow> each uart_putc (hex8_text (mem s (xam s)) @ gap_text (xam s + 1)) (con s);
              dump_loop b end (s\<lparr>xam := xam s + 1, con := u\<rparr>) })"
  using assms
  by (subst dump_loop.simps)
    (simp add: ram_on_ops print_hex8_each gap_each each_append each_putc Option.bind_assoc cong: bind_option_cong)

lemma dump_loop_ram:
  assumes "ram_on R b"
  shows "unat (end - xam s) = n \<Longrightarrow> \<forall>i\<le>n. xam s + of_nat i \<in> R \<Longrightarrow>
    dump_loop b end s = each putc (dump_text (mem s) (xam s) n) (s\<lparr>xam := end\<rparr>)"
proof (induction n arbitrary: s)
  case 0
  then have "xam s = end" by (simp add: unat_eq_zero)
  moreover from 0 have "xam s \<in> R" by simp
  ultimately show ?case
    using dump_step_ram [OF assms, of s "end"] by (cases s) auto
next
  case (Suc n)
  have ne: "xam s \<noteq> end" using Suc.prems(1) by auto
  have left: "unat (end - (xam s + 1)) = n"
  proof -
    have "end - (xam s + 1) = (end - xam s) - 1" by simp
    then show ?thesis using Suc.prems(1) ne unat_minus_one [of "end - xam s"] by (simp only:) simp
  qed
  have range: "\<forall>i\<le>n. xam s + 1 + of_nat i \<in> R"
  proof (intro allI impI)
    fix i assume "i \<le> n"
    then show "xam s + 1 + of_nat i \<in> R" using Suc.prems(2) [rule_format, of "Suc i"] by (simp add: add.assoc)
  qed
  have IH: "dump_loop b end (s\<lparr>xam := xam s + 1, con := u\<rparr>)
      = each putc (dump_text (mem s) (xam s + 1) n) (s\<lparr>con := u, xam := end\<rparr>)" for u
    by (subst Suc.IH) (use left range in simp_all)
  have "xam s \<in> R" using Suc.prems(2) [rule_format, of 0] by simp
  then show ?case
    by (subst dump_step_ram [OF assms])
      (simp_all only: ne if_False IH dump_text.simps each_append each_putc con_xam Option.bind_assoc, simp)
qed

lemma block_dump_ram:
  assumes "ram_on R b" and "unat (end - xam s) = n" and "\<forall>i\<le>n. xam s + of_nat i \<in> R"
  shows "block_dump b end s = each putc (addr_text (xam s) @ [0x20] @ dump_text (mem s) (xam s) n) (s\<lparr>xam := end\<rparr>)"
proof -
  have "dump_loop b end (s\<lparr>con := u\<rparr>)
      = each putc (dump_text (mem s) (xam s) n) (s\<lparr>con := u, xam := end\<rparr>)" for u
    using dump_loop_ram [OF assms(1), of "end" "s\<lparr>con := u\<rparr>"] assms(2,3) by simp
  then have "dump_loop b end (s\<lparr>con := u\<rparr>)
      = each putc (dump_text (mem s) (xam s) n) (s\<lparr>xam := end, con := u\<rparr>)" for u
    by (simp only: con_xam)
  then show ?thesis
    by (simp add: block_dump_def print_addr_prefix_each putc_def each_append each_putc Option.bind_assoc
        cong: bind_option_cong)
qed


section \<open>A line of commands as a list of tokens\<close>

text \<open>
  A token is the delimiters before a number and the digits of the number. The
  delimiters set the mode; the number then examines, deposits or ends a block.
\<close>

definition is_delim :: "u8 \<Rightarrow> bool" where
  "is_delim c \<longleftrightarrow> c = 0x2E \<or> c = 0x3A \<or> c = 0x20"

definition delim_mode :: "u8 \<Rightarrow> mode \<Rightarrow> mode" where
  "delim_mode c m = (if c = 0x2E then MODE_BLOCK else if c = 0x3A then MODE_STOR else m)"

definition hex_val :: "u8 list \<Rightarrow> u32 \<Rightarrow> u32" where
  "hex_val ds h = foldl (\<lambda>h c. 16 * h + the (is_hex_digit c)) h ds"

definition is_hex :: "u8 \<Rightarrow> bool" where
  "is_hex c \<longleftrightarrow> is_hex_digit c \<noteq> None"

type_synonym token = "u8 list \<times> u8 list"

definition token_ok :: "token \<Rightarrow> bool" where
  "token_ok t \<longleftrightarrow> list_all is_delim (fst t) \<and> list_all is_hex (snd t) \<and> snd t \<noteq> []"

text \<open>Numbers are kept apart: every token but the first has a delimiter.\<close>

fun tokens_ok :: "token list \<Rightarrow> bool" where
  "tokens_ok [] \<longleftrightarrow> True"
| "tokens_ok (t # ts) \<longleftrightarrow> token_ok t \<and> list_all (\<lambda>u. fst u \<noteq> []) ts \<and> tokens_ok ts"

definition line_of :: "token list \<Rightarrow> u8 list" where
  "line_of ts = concat (map (\<lambda>(seps, ds). seps @ ds) ts)"

definition do_number :: "'m bus \<Rightarrow> mode \<Rightarrow> u32 \<Rightarrow> 'm mon \<Rightarrow> (mode \<times> 'm mon) option" where
  "do_number b m v s = (case m of
      MODE_STOR \<Rightarrow> do { s1 \<leftarrow> deposit b v s; Some (m, s1) }
    | MODE_BLOCK \<Rightarrow> do { s1 \<leftarrow> block_dump b v s; Some (MODE_XAM, s1) }
    | MODE_XAM \<Rightarrow> do { s1 \<leftarrow> examine b v s; Some (m, s1) })"

primrec run_tokens :: "'m bus \<Rightarrow> token list \<Rightarrow> mode \<Rightarrow> 'm mon \<Rightarrow> 'm mon option" where
  "run_tokens b [] m s = Some s"
| "run_tokens b (t # ts) m s = do {
     (m1, s1) \<leftarrow> do_number b (fold delim_mode (fst t) m) (hex_val (snd t) 0) s;
     run_tokens b ts m1 s1 }"

text \<open>A bus whose accesses leave the line buffer alone.\<close>

definition keeps_line :: "'m bus \<Rightarrow> bool" where
  "keeps_line b \<longleftrightarrow> (\<forall>a s v s'. load_byte b a s = Some (v, s') \<longrightarrow> in_buf s' = in_buf s)
     \<and> (\<forall>a v s s'. store_byte b a v s = Some s' \<longrightarrow> in_buf s' = in_buf s)"

lemma each_putc_in_buf: "each putc cs s = Some s' \<Longrightarrow> in_buf s' = in_buf s"
  by (auto simp: each_putc Option.bind_eq_Some_conv)

lemma print_in_buf [frame_eqs]:
  "print_hex8 v s = Some s' \<Longrightarrow> in_buf s' = in_buf s"
  "print_addr_prefix a s = Some s' \<Longrightarrow> in_buf s' = in_buf s"
  "putc c s = Some s' \<Longrightarrow> in_buf s' = in_buf s"
  by (auto simp: print_hex8_each print_addr_prefix_each putc_def Option.bind_eq_Some_conv
      dest: each_putc_in_buf)

lemma dump_loop_in_buf:
  "dump_loop b end s = Some s' \<Longrightarrow> keeps_line b \<longrightarrow> in_buf s' = in_buf s"
proof (erule dump_loop.raw_induct [rotated])
  fix loop :: "'a bus \<Rightarrow> u32 \<Rightarrow> 'a mon \<Rightarrow> 'a mon option" and b :: "'a bus" and "end" s s'
  assume IH: "\<And>b end s s'. loop b end s = Some s' \<Longrightarrow> keeps_line b \<longrightarrow> in_buf s' = in_buf s"
    and run: "do { (v, s1) \<leftarrow> load_byte b (xam s) s;
      s2 \<leftarrow> print_hex8 v s1;
      if xam s2 = end then Some s2
      else let s3 = s2\<lparr>xam := xam s2 + 1\<rparr>
           in (if xam s3 AND 7 = 0 then print_addr_prefix (xam s3) s3 else putc 0x20 s3) \<bind> loop b end } = Some s'"
  show "keeps_line b \<longrightarrow> in_buf s' = in_buf s"
  proof
    assume k: "keeps_line b"
    from run obtain v s1 s2 where s1: "load_byte b (xam s) s = Some (v, s1)" "print_hex8 v s1 = Some s2"
      by (auto simp: Option.bind_eq_Some_conv)
    then have "in_buf s2 = in_buf s" using k by (auto simp: keeps_line_def print_in_buf)
    then show "in_buf s' = in_buf s"
      using run s1 k by (auto simp: Let_def Option.bind_eq_Some_conv print_in_buf split: if_splits dest!: IH)
  qed
qed

lemma do_number_in_buf:
  assumes "keeps_line b" and "do_number b m v s = Some (m1, s1)"
  shows "in_buf s1 = in_buf s"
proof -
  have k: "load_byte b a s = Some (w, s') \<Longrightarrow> in_buf s' = in_buf s"
      "store_byte b a w s = Some s' \<Longrightarrow> in_buf s' = in_buf s" for a s w s'
    using assms(1) by (auto simp: keeps_line_def)
  show ?thesis
    using assms(2)
    by (cases m) (auto simp: do_number_def deposit_def examine_def block_dump_def Option.bind_eq_Some_conv
        print_in_buf dest!: k dump_loop_in_buf simp: assms(1))
qed

section \<open>Scanning a token\<close>

lemma hex_digit_less: "is_hex_digit c = Some v \<Longrightarrow> v < 16"
  by (auto simp: is_hex_digit_def word_less_nat_alt word_le_nat_alt unat_sub_if_size unat_word_ariths
      split: if_splits)

lemma scan_hex_token:
  "length pre + length ds = len \<or> (rest \<noteq> [] \<and> \<not> is_hex (hd rest)) \<Longrightarrow> list_all is_hex ds \<Longrightarrow>
     length pre + length ds \<le> len \<Longrightarrow> len \<le> length (pre @ ds @ rest) \<Longrightarrow>
     scan_hex (pre @ ds @ rest) len (length pre) h d
       = Some (length pre + length ds, hex_val ds h, d + length ds)"
proof (induction ds arbitrary: pre h d)
  case Nil
  then show ?case
    by (subst scan_hex.simps) (cases rest; auto simp: is_hex_def hex_val_def arr_get_def nth_append)
next
  case (Cons c ds)
  then obtain v where v: "is_hex_digit c = Some v" by (auto simp: is_hex_def)
  have "scan_hex ((pre @ [c]) @ ds @ rest) len (length (pre @ [c])) (push_bit 4 h OR v) (d + 1)
      = Some (length (pre @ [c]) + length ds, hex_val ds (push_bit 4 h OR v), d + 1 + length ds)"
    using Cons.prems by (intro Cons.IH) auto
  then show ?case
    using Cons.prems v by (subst scan_hex.simps) (simp add: hex_val_def shift_in_nibble [OF hex_digit_less [OF v]])
qed

lemma is_hex_not_delim: "is_hex c \<Longrightarrow> \<not> is_delim c \<and> c \<noteq> 0x52 \<and> c \<noteq> 0x72"
  by (auto simp: is_hex_def is_hex_digit_def is_delim_def)

lemma skip_delims_token:
  "in_buf s = pre @ seps @ c # rest \<Longrightarrow> list_all is_delim seps \<Longrightarrow> length pre + length seps < len \<Longrightarrow>
     is_hex c \<Longrightarrow>
     skip_delims b len (length pre) m s = Some (length pre + length seps, fold delim_mode seps m, s)"
proof (induction seps arbitrary: pre m)
  case Nil
  then show ?case
    using is_hex_not_delim [of c] by (subst skip_delims.simps) (auto simp: is_delim_def)
next
  case (Cons d seps)
  have "skip_delims b len (length (pre @ [d])) (delim_mode d m) s
      = Some (length (pre @ [d]) + length seps, fold delim_mode seps (delim_mode d m), s)"
    using Cons.prems by (intro Cons.IH) auto
  then show ?case
    using Cons.prems by (subst skip_delims.simps) (auto simp: is_delim_def delim_mode_def)
qed


lemma token_cases:
  assumes "token_ok (seps, ds)"
  obtains c cs where "ds = c # cs" "is_hex c" "list_all is_delim seps" "list_all is_hex ds"
  using assms by (cases ds) (auto simp: token_ok_def)

lemma do_item_token:
  assumes buf: "in_buf s = pre @ seps @ ds @ rest" and ok: "token_ok (seps, ds)"
    and len: "length pre + length seps + length ds \<le> len" "len \<le> length (in_buf s)"
    and stop: "length pre + length seps + length ds = len \<or> (rest \<noteq> [] \<and> \<not> is_hex (hd rest))"
  shows "do_item b len (length pre) m s = do {
    (m1, s1) \<leftarrow> do_number b (fold delim_mode seps m) (hex_val ds 0) s;
    Some (Some (length pre + length seps + length ds, m1), s1) }"
proof -
  from ok obtain c cs where c: "ds = c # cs" "is_hex c" and d: "list_all is_delim seps" "list_all is_hex ds"
    by (rule token_cases)
  have skip: "skip_delims b len (length pre) m s
      = Some (length pre + length seps, fold delim_mode seps m, s)"
    using buf c d len by (intro skip_delims_token [of _ _ _ c "cs @ rest"]) auto
  have scan: "scan_hex (in_buf s) len (length pre + length seps) 0 0
      = Some (length pre + length seps + length ds, hex_val ds 0, length ds)"
    using scan_hex_token [of "pre @ seps" ds len rest 0 0] stop d(2) len buf by (simp add: add.assoc)
  have "length pre + length seps < len" "ds \<noteq> []" using c len by auto
  then show ?thesis
    by (cases "fold delim_mode seps m")
      (simp_all add: do_item_def skip scan do_number_def Option.bind_assoc)
qed

lemma is_delim_not_hex: "is_delim c \<Longrightarrow> \<not> is_hex c"
  by (auto simp: is_hex_def is_hex_digit_def is_delim_def)

lemma line_of_Cons: "line_of ((seps, ds) # ts) = seps @ ds @ line_of ts"
  by (simp add: line_of_def)

lemma exec_line_tokens:
  assumes "keeps_line b"
  shows "tokens_ok ts \<Longrightarrow> in_buf s = pre @ line_of ts @ rest \<Longrightarrow>
    exec_line b (length pre + length (line_of ts)) (length pre) m s = run_tokens b ts m s"
proof (induction ts arbitrary: pre m s)
  case Nil
  then show ?case by (simp add: line_of_def exec_line.simps)
next
  case (Cons t ts)
  obtain seps ds where t: "t = (seps, ds)" by (cases t)
  define len where "len = length pre + length (line_of (t # ts))"
  let ?y = "length pre + length seps + length ds"
  have len_eq: "len = ?y + length (line_of ts)" by (simp add: len_def t line_of_Cons)
  have ok: "token_ok (seps, ds)" and ts: "list_all (\<lambda>u. fst u \<noteq> []) ts" "tokens_ok ts"
    using Cons.prems(1) by (simp_all add: t)
  have stop: "?y = len \<or> (line_of ts @ rest \<noteq> [] \<and> \<not> is_hex (hd (line_of ts @ rest)))"
  proof (cases ts)
    case Nil
    then show ?thesis by (simp add: len_eq line_of_def)
  next
    case (Cons u us)
    then obtain c cs es where "u = (c # cs, es)" "is_delim c"
      using ts by (cases u; cases "fst u") (auto simp: token_ok_def)
    with Cons show ?thesis by (simp add: line_of_Cons is_delim_not_hex)
  qed
  have item: "do_item b len (length pre) m s = do {
      (m1, s1) \<leftarrow> do_number b (fold delim_mode seps m) (hex_val ds 0) s; Some (Some (?y, m1), s1) }"
    using Cons.prems(2) ok stop by (intro do_item_token) (auto simp: t line_of_Cons len_eq)
  have next_token: "exec_line b len ?y m1 s1 = run_tokens b ts m1 s1"
    if "do_number b (fold delim_mode seps m) (hex_val ds 0) s = Some (m1, s1)" for m1 s1
  proof -
    have "in_buf s1 = (pre @ seps @ ds) @ line_of ts @ rest"
      using do_number_in_buf [OF assms that] Cons.prems(2) by (simp add: t line_of_Cons)
    from Cons.IH [OF ts(2) this] show ?thesis by (simp add: len_eq add.assoc)
  qed
  have "ds \<noteq> []" using ok by (simp add: token_ok_def)
  then have "length pre < len" by (simp add: len_eq)
  then have "exec_line b len (length pre) m s = run_tokens b (t # ts) m s"
    unfolding exec_line.simps [of b len "length pre"]
    by (auto simp: item next_token Option.bind_assoc t intro!: bind_option_cong)
  then show ?case by (simp only: len_def)
qed

section \<open>Numbers as the monitor prints them\<close>

lemma hex_upper_digit: "k < 16 \<Longrightarrow> is_hex_digit (hex_upper ! k) = Some (of_nat k)"
proof -
  have "\<forall>k\<in>{..<16}. is_hex_digit (hex_upper ! k) = Some (of_nat k)"
    by (simp add: lessThan_nat_numeral is_hex_digit_def hex_upper_def cstr_def bytes_def lessThan_Suc)
  then show "k < 16 \<Longrightarrow> ?thesis" by simp
qed

lemma nibble_digit:
  "is_hex_digit (hex_upper ! unat (v AND 0xF)) = Some (take_bit 4 (v :: u32))"
  using nibble_less [of v] by (simp add: hex_upper_digit and_mask_take_bit)

lemma hex_digits_is_hex: "list_all is_hex (hex_digits n v)"
  by (simp add: hex_digits_def list_all_iff is_hex_def nibble_digit)

lemma hex_val_digits: "hex_val (hex_digits n v) h = push_bit (4 * n) h + take_bit (4 * n) v"
proof (induction n arbitrary: h)
  case 0
  then show ?case by (simp add: hex_digits_def hex_val_def)
next
  case (Suc n)
  have "take_bit (4 * n + 4) v = push_bit (4 * n) (take_bit 4 (drop_bit (4 * n) v)) + take_bit (4 * n) v"
    using bits_ident [of "4 * n" "take_bit (4 * n + 4) v"]
    by (simp add: drop_bit_take_bit)
  with Suc show ?case
    by (simp add: hex_digits_def hex_val_def nibble_digit push_bit_add push_bit_eq_mult power_add algebra_simps)
qed

lemma hex_val_word: "hex_val (hex_digits 8 a) 0 = a"
  by (simp add: hex_val_digits take_bit_word_eq_self)

lemma hex_val_byte: "ucast (hex_val (hex8_text v) 0) = v"
proof -
  have "take_bit 8 (ucast v :: u32) = ucast v" by (rule bit_word_eqI) (auto simp: bit_simps dest: bit_imp_le_length)
  then show ?thesis by (simp add: hex8_text_def hex_val_digits)
qed


section \<open>Depositing, examining and dumping\<close>

primrec poke :: "(u32 \<Rightarrow> u8) \<Rightarrow> u32 \<Rightarrow> u8 list \<Rightarrow> u32 \<Rightarrow> u8" where
  "poke m a [] = m"
| "poke m a (v # vs) = poke (m(a := v)) (a + 1) vs"

lemma poke_outside: "\<forall>i<length vs. x \<noteq> a + of_nat i \<Longrightarrow> poke m a vs x = m x"
proof (induction vs arbitrary: m a)
  case (Cons v vs)
  have "\<forall>i<length vs. x \<noteq> a + 1 + of_nat i"
    using Cons.prems by (metis Suc_less_eq add.assoc length_Cons of_nat_Suc)
  moreover have "x \<noteq> a" using Cons.prems by force
  ultimately show ?case using Cons.IH by simp
qed simp

lemma poke_inside: "length vs \<le> 2 ^ 32 \<Longrightarrow> i < length vs \<Longrightarrow> poke m a vs (a + of_nat i) = vs ! i"
proof (induction vs arbitrary: m a i)
  case (Cons v vs)
  show ?case
  proof (cases i)
    case 0
    have "\<forall>k<length vs. a \<noteq> a + 1 + of_nat k"
    proof (intro allI impI notI)
      fix k assume k: "k < length vs" "a = a + 1 + of_nat k"
      then have "(of_nat (Suc k) :: u32) = 0" by (simp add: add.assoc)
      then have "unat (of_nat (Suc k) :: u32) = 0" by simp
      moreover have "unat (of_nat (Suc k) :: u32) = Suc k"
        using k(1) Cons.prems(1) by (simp add: unat_of_nat take_bit_nat_eq_self del: of_nat_Suc)
      ultimately show False by simp
    qed
    with 0 show ?thesis by (simp add: poke_outside)
  next
    case (Suc j)
    with Cons.IH [of j "m(a := v)" "a + 1"] Cons.prems show ?thesis by (simp add: add.assoc del: fun_upd_apply)
  qed
qed simp

text \<open>Byte tokens after the colon of a deposit line.\<close>

definition byte_tokens :: "u8 list \<Rightarrow> token list" where
  "byte_tokens vs = map (\<lambda>v. ([0x20], hex8_text v)) vs"

lemma run_byte_tokens:
  assumes "ram_on R b"
  shows "\<forall>i<length vs. st_addr s + of_nat i \<in> R \<Longrightarrow>
    run_tokens b (byte_tokens vs) MODE_STOR s
      = Some (s\<lparr>mem := poke (mem s) (st_addr s) vs, st_addr := st_addr s + of_nat (length vs)\<rparr>)"
proof (induction vs arbitrary: s)
  case Nil
  then show ?case by (simp add: byte_tokens_def)
next
  case (Cons v vs)
  let ?s1 = "s\<lparr>mem := (mem s)(st_addr s := v), st_addr := st_addr s + 1\<rparr>"
  have "st_addr s \<in> R" using Cons.prems [rule_format, of 0] by simp
  then have "deposit b (hex_val (hex8_text v) 0) s = Some ?s1"
    using deposit_ram [OF assms] by (simp add: hex_val_byte)
  moreover have "\<forall>i<length vs. st_addr ?s1 + of_nat i \<in> R"
  proof (intro allI impI)
    fix i assume "i < length vs"
    then show "st_addr ?s1 + of_nat i \<in> R"
      using Cons.prems [rule_format, of "Suc i"] by (simp add: add.assoc)
  qed
  ultimately show ?case
    using Cons.IH [of ?s1] by (simp add: byte_tokens_def do_number_def delim_mode_def add.assoc del: fun_upd_apply)
qed

lemma hex8_tokens: "list_all is_hex (hex8_text v)" "hex8_text v \<noteq> []"
  by (simp_all add: hex8_text_def hex_digits_is_hex) (simp add: hex_digits_def)

lemma hex_digits_8: "hex_digits 8 a \<noteq> []"
  by (simp add: hex_digits_def)

lemma tokens_ok_bytes: "tokens_ok (byte_tokens vs) \<and> list_all (\<lambda>u. fst u \<noteq> []) (byte_tokens vs)"
  by (induction vs) (simp_all add: byte_tokens_def token_ok_def hex8_tokens is_delim_def)

text \<open>\<open>AAAAAAAA: vv vv vv\<close> and \<open>AAAAAAAA.EEEEEEEE\<close>.\<close>

definition deposit_line :: "u32 \<Rightarrow> u8 list \<Rightarrow> token list" where
  "deposit_line a vs = (case vs of [] \<Rightarrow> [([], hex_digits 8 a)]
     | v # vs' \<Rightarrow> ([], hex_digits 8 a) # ([0x3A, 0x20], hex8_text v) # byte_tokens vs')"

definition dump_line :: "u32 \<Rightarrow> u32 \<Rightarrow> token list" where
  "dump_line a e = [([], hex_digits 8 a), ([0x2E], hex_digits 8 e)]"

lemma run_deposit_line:
  assumes "ram_on R b" and "\<forall>i<length vs. a + of_nat i \<in> R" and "vs \<noteq> []"
  shows "run_tokens b (deposit_line a vs) MODE_XAM s = do {
    s1 \<leftarrow> each putc (addr_text a @ [0x20] @ hex8_text (mem s a)) (s\<lparr>xam := a, st_addr := a\<rparr>);
    Some (s1\<lparr>mem := poke (mem s) a vs, st_addr := a + of_nat (length vs)\<rparr>) }"
proof -
  obtain v vs' where vs: "vs = v # vs'" using assms(3) by (cases vs) auto
  have "a \<in> R" using assms(2,3) by (auto dest!: spec [of _ 0])
  then have ex: "examine b a s = each putc (addr_text a @ [0x20] @ hex8_text (mem s a)) (s\<lparr>xam := a, st_addr := a\<rparr>)"
    by (rule examine_ram [OF assms(1)])
  have same: "run_tokens b (([0x3A, 0x20], hex8_text v) # byte_tokens vs') MODE_XAM s1
      = run_tokens b (byte_tokens vs) MODE_STOR s1" for s1
    by (simp add: vs byte_tokens_def do_number_def delim_mode_def)
  have tail: "run_tokens b (byte_tokens vs) MODE_STOR s1
      = Some (s1\<lparr>mem := poke (mem s1) a vs, st_addr := a + of_nat (length vs)\<rparr>)" if "st_addr s1 = a" for s1
    using run_byte_tokens [OF assms(1), of vs s1] assms(2) that by simp
  have "run_tokens b (deposit_line a vs) MODE_XAM s
      = do { s1 \<leftarrow> examine b a s; run_tokens b (byte_tokens vs) MODE_STOR s1 }"
    unfolding same [symmetric]
    by (simp add: deposit_line_def vs do_number_def hex_val_word Option.bind_assoc del: run_tokens.simps(2))
      (simp add: do_number_def hex_val_word Option.bind_assoc)
  then show ?thesis
    unfolding ex each_putc by (simp add: tail Option.bind_assoc del: each.simps)
qed


lemma run_dump_line:
  assumes "ram_on R b" and "unat (e - a) = n" and "\<forall>i\<le>n. a + of_nat i \<in> R"
  shows "run_tokens b (dump_line a e) MODE_XAM s =
    each putc (addr_text a @ [0x20] @ hex8_text (mem s a) @ addr_text a @ [0x20] @ dump_text (mem s) a n)
      (s\<lparr>xam := e, st_addr := a\<rparr>)"
proof -
  have "a \<in> R" using assms(3) [rule_format, of 0] by simp
  then have ex: "examine b a s = each putc (addr_text a @ [0x20] @ hex8_text (mem s a)) (s\<lparr>xam := a, st_addr := a\<rparr>)"
    by (rule examine_ram [OF assms(1)])
  have dump: "block_dump b e s1 = each putc (addr_text a @ [0x20] @ dump_text (mem s1) a n) (s1\<lparr>xam := e\<rparr>)"
    if "xam s1 = a" for s1
    using block_dump_ram [OF assms(1), of e s1 n] assms(2,3) that by simp
  have set: "s\<lparr>st_addr := a, xam := e, con := w\<rparr> = s\<lparr>xam := e, st_addr := a, con := w\<rparr>" for w
    by (cases s) simp
  show ?thesis
    unfolding dump_line_def run_tokens.simps do_number_def
    by (simp add: hex_val_word delim_mode_def ex each_putc putc_def dump each_append Option.bind_assoc set
        cong: bind_option_cong)
qed

section \<open>The line editor\<close>

definition is_enter :: "u8 \<Rightarrow> bool" where
  "is_enter c \<longleftrightarrow> c = 0x0D \<or> c = 0x0A"

definition edit :: "u8 list \<Rightarrow> u8 \<Rightarrow> u8 list \<times> u8 list" where
  "edit l c = (if c = 0x5F \<or> c = 0x08 \<or> c = 0x7F then (butlast l, if l = [] then [] else [0x08, 0x20, 0x08])
     else if length l < 131 then (l @ [c], [c]) else (l, []))"

primrec edits :: "u8 list \<Rightarrow> u8 list \<Rightarrow> u8 list \<times> u8 list" where
  "edits l [] = (l, [])"
| "edits l (c # cs) = (let (l1, out1) = edit l c; (l2, out2) = edits l1 cs in (l2, out1 @ out2))"

definition buf_ok :: "nat \<Rightarrow> 'm mon \<Rightarrow> bool" where
  "buf_ok idx s \<longleftrightarrow> length (in_buf s) = IN_BUF_SIZE \<and> idx < IN_BUF_SIZE"

text \<open>
  The editor on the console alone: it reads a character at a time, writes its answer, and ends with the line at
  Enter. It knows no buffer.
\<close>

partial_function (option) edit_session :: "u8 list \<Rightarrow> uart \<Rightarrow> (u8 list \<times> uart) option" where
  "edit_session l u = do {
     (c, u) \<leftarrow> uart_getc u;
     if is_enter c then do { u \<leftarrow> each uart_putc (bytes CRLF) u; Some (l, u) }
     else do { u \<leftarrow> each uart_putc (snd (edit l c)) u; edit_session (fst (edit l c)) u } }"

text \<open>A turn of \<open>get_line\<close> is a turn of that editor: no access leaves the buffer.\<close>

lemma rubout: "puts (cstr [CHR 0x08, CHR '' '', CHR 0x08]) = each putc [0x08, 0x20, 0x08]"
  using puts_cstr [of "[CHR 0x08, CHR '' '', CHR 0x08]"] by (simp add: bytes_def)

lemma same_buf: "s\<lparr>in_buf := in_buf s, con := u\<rparr> = s\<lparr>con := u\<rparr>"
  by (cases s) simp

lemma get_line_step_edit:
  assumes "buf_ok idx s"
  shows "get_line_step idx s = do {
     (c, u) \<leftarrow> uart_getc (con s);
     let l = fst (edit (take idx (in_buf s)) c);
     if is_enter c then do { u \<leftarrow> each uart_putc (bytes CRLF) u; Some (Inr idx, s\<lparr>con := u\<rparr>) }
     else do { u \<leftarrow> each uart_putc (snd (edit (take idx (in_buf s)) c)) u;
       Some (Inl (length l), s\<lparr>in_buf := l @ drop (length l) (in_buf s), con := u\<rparr>) } }"
proof (cases "uart_getc (con s)")
  case (Some cu)
  obtain c u where cu: "cu = (c, u)" by (cases cu)
  have len: "length (in_buf s) = 132" "idx < 132" using assms by (simp_all add: buf_ok_def IN_BUF_SIZE_def)
  consider (enter) "is_enter c" | (erase) j where "\<not> is_enter c" "c = 0x5F \<or> c = 0x08 \<or> c = 0x7F" "idx = Suc j"
    | (nothing) "\<not> is_enter c" "c = 0x5F \<or> c = 0x08 \<or> c = 0x7F" "idx = 0"
    | (full) "\<not> is_enter c" "\<not> (c = 0x5F \<or> c = 0x08 \<or> c = 0x7F)" "idx = 131"
    | (char) "\<not> is_enter c" "\<not> (c = 0x5F \<or> c = 0x08 \<or> c = 0x7F)" "idx < 131"
    using len(2) by (cases idx) fastforce+
  then show ?thesis
  proof cases
    case enter
    then show ?thesis by (auto simp: get_line_step_def Some cu is_enter_def newline_each each_putc Option.bind_assoc cong: bind_option_cong)
  next
    case erase
    then have "butlast (take idx (in_buf s)) = take j (in_buf s)" "take idx (in_buf s) \<noteq> []" using len by (auto simp: butlast_take)
    with erase len show ?thesis
      by (auto simp: get_line_step_def Some cu is_enter_def edit_def rubout each_putc same_buf Option.bind_assoc simp del: each.simps
          cong: bind_option_cong)
  next
    case nothing
    then show ?thesis by (auto simp: get_line_step_def Some cu is_enter_def edit_def same_buf)
  next
    case full
    then show ?thesis using len by (auto simp: get_line_step_def Some cu is_enter_def edit_def same_buf IN_BUF_SIZE_def)
  next
    case char
    then have "(in_buf s)[idx := c] = take idx (in_buf s) @ [c] @ drop (Suc idx) (in_buf s)" using len by (simp add: upd_conv_take_nth_drop)
    with char len show ?thesis
      by (auto simp: get_line_step_def Some cu is_enter_def edit_def IN_BUF_SIZE_def putc_def Option.bind_assoc cong: bind_option_cong)
  qed
qed (simp add: get_line_step_def)

text \<open>The state behind a call that returned the line \<open>l\<close> and left the console \<open>u\<close>.\<close>

definition holds_line :: "u8 list \<Rightarrow> uart \<Rightarrow> 'm mon \<Rightarrow> nat \<times> 'm mon \<Rightarrow> bool" where
  "holds_line l u s r \<longleftrightarrow> fst r = length l \<and> length l < IN_BUF_SIZE
     \<and> (\<exists>b. snd r = s\<lparr>in_buf := b, con := u\<rparr> \<and> length b = length (in_buf s) \<and> take (length l) b = l)"

lemma edit_length: "length l < 132 \<Longrightarrow> length (fst (edit l c)) < 132"
  by (auto simp: edit_def)

lemma edit_buf_ok:
  assumes "buf_ok idx s" and "l = fst (edit (take idx (in_buf s)) c)" and "s1 = s\<lparr>in_buf := l @ drop (length l) (in_buf s), con := u\<rparr>"
  shows "buf_ok (length l) s1" "take (length l) (in_buf s1) = l" "length (in_buf s1) = length (in_buf s)"
proof -
  have "length (take idx (in_buf s)) < 132" using assms(1) by (simp add: buf_ok_def IN_BUF_SIZE_def)
  then have "length l < 132" unfolding assms(2) by (rule edit_length)
  then show "buf_ok (length l) s1" "take (length l) (in_buf s1) = l" "length (in_buf s1) = length (in_buf s)"
    using assms(1) by (simp_all add: buf_ok_def IN_BUF_SIZE_def assms(3))
qed

lemma get_line_loop_session:
  "get_line_loop idx s = Some r \<Longrightarrow> buf_ok idx s \<longrightarrow>
     (\<exists>l u. edit_session (take idx (in_buf s)) (con s) = Some (l, u) \<and> holds_line l u s r)"
proof (erule get_line_loop.raw_induct [rotated])
  fix loop :: "nat \<Rightarrow> 'a mon \<Rightarrow> (nat \<times> 'a mon) option" and idx s r
  assume IH: "\<And>idx s r. loop idx s = Some r \<Longrightarrow> buf_ok idx s \<longrightarrow>
      (\<exists>l u. edit_session (take idx (in_buf s)) (con s) = Some (l, u) \<and> holds_line l u s r)"
    and run: "Option.bind (get_line_step idx s)
      (\<lambda>(r, s1). case r of Inl idx1 \<Rightarrow> loop idx1 s1 | Inr n \<Rightarrow> Some (n, s1)) = Some r"
  show "buf_ok idx s \<longrightarrow> (\<exists>l u. edit_session (take idx (in_buf s)) (con s) = Some (l, u) \<and> holds_line l u s r)"
  proof
    assume ok: "buf_ok idx s"
    let ?l = "take idx (in_buf s)"
    from run obtain c u where c: "uart_getc (con s) = Some (c, u)"
      unfolding get_line_step_edit [OF ok] by (auto simp: Option.bind_eq_Some_conv)
    show "\<exists>l u. edit_session ?l (con s) = Some (l, u) \<and> holds_line l u s r"
    proof (cases "is_enter c")
      case True
      with run c obtain w where w: "each uart_putc (bytes CRLF) u = Some w" "r = (idx, s\<lparr>con := w\<rparr>)"
        unfolding get_line_step_edit [OF ok] by (auto simp: Option.bind_eq_Some_conv Let_def)
      have "length ?l = idx" "idx < IN_BUF_SIZE" using ok by (simp_all add: buf_ok_def)
      then have "holds_line ?l w s r" unfolding holds_line_def w(2)
        using same_buf [of w s] by (intro conjI exI [of _ "in_buf s"]) simp_all
      moreover have "edit_session ?l (con s) = Some (?l, w)" using c True w(1) by (subst edit_session.simps) simp
      ultimately show ?thesis by blast
    next
      case False
      let ?e = "fst (edit ?l c)"
      from False run c obtain w where w: "each uart_putc (snd (edit ?l c)) u = Some w"
        and k: "loop (length ?e) (s\<lparr>in_buf := ?e @ drop (length ?e) (in_buf s), con := w\<rparr>) = Some r"
        unfolding get_line_step_edit [OF ok] by (auto simp: Option.bind_eq_Some_conv Let_def)
      note b = edit_buf_ok [OF ok refl refl, where c = c and u = w]
      from IH [OF k] b obtain l v where "edit_session ?e w = Some (l, v)"
        and h: "holds_line l v (s\<lparr>in_buf := ?e @ drop (length ?e) (in_buf s), con := w\<rparr>) r" by auto
      then have "edit_session ?l (con s) = Some (l, v)" using c w False by (subst edit_session.simps) simp
      moreover have "holds_line l v s r" using h b(3) by (auto simp: holds_line_def)
      ultimately show ?thesis by blast
    qed
  qed
qed

lemma session_get_line_loop:
  "edit_session l u = Some r \<Longrightarrow> \<forall>s :: 'm mon. con s = u \<longrightarrow> take (length l) (in_buf s) = l \<longrightarrow> buf_ok (length l) s
     \<longrightarrow> get_line_loop (length l) s \<noteq> None"
proof (erule edit_session.raw_induct [rotated])
  fix sess :: "u8 list \<Rightarrow> uart \<Rightarrow> (u8 list \<times> uart) option" and l u r
  assume IH: "\<And>l u r. sess l u = Some r \<Longrightarrow> \<forall>s :: 'm mon. con s = u \<longrightarrow> take (length l) (in_buf s) = l \<longrightarrow> buf_ok (length l) s
      \<longrightarrow> get_line_loop (length l) s \<noteq> None"
    and run: "do { (c, u) \<leftarrow> uart_getc u;
      if is_enter c then do { u \<leftarrow> each uart_putc (bytes CRLF) u; Some (l, u) }
      else do { u \<leftarrow> each uart_putc (snd (edit l c)) u; sess (fst (edit l c)) u } } = Some r"
  show "\<forall>s :: 'm mon. con s = u \<longrightarrow> take (length l) (in_buf s) = l \<longrightarrow> buf_ok (length l) s \<longrightarrow> get_line_loop (length l) s \<noteq> None"
  proof (intro allI impI)
    fix s :: "'m mon"
    assume s: "con s = u" "take (length l) (in_buf s) = l" and ok: "buf_ok (length l) s"
    from run obtain c v where c: "uart_getc u = Some (c, v)" by (auto simp: Option.bind_eq_Some_conv)
    show "get_line_loop (length l) s \<noteq> None"
    proof (cases "is_enter c")
      case True
      with run c obtain w where "each uart_putc (bytes CRLF) v = Some w" by (auto simp: Option.bind_eq_Some_conv)
      with True c s(1) show ?thesis by (subst get_line_loop.simps) (simp add: get_line_step_edit [OF ok] Let_def)
    next
      case False
      with run c obtain w where w: "each uart_putc (snd (edit l c)) v = Some w" "sess (fst (edit l c)) w = Some r"
        by (auto simp: Option.bind_eq_Some_conv)
      note b = edit_buf_ok [OF ok refl refl, where c = c and u = w, unfolded s(2)]
      from IH [OF w(2)] b have "get_line_loop (length (fst (edit l c)))
          (s\<lparr>in_buf := fst (edit l c) @ drop (length (fst (edit l c))) (in_buf s), con := w\<rparr>) \<noteq> None" by auto
      then show ?thesis using False c s w(1) by (subst get_line_loop.simps) (simp add: get_line_step_edit [OF ok] Let_def)
    qed
  qed
qed

text \<open>The characters of a session, and what they make of the line and of the console.\<close>

definition session_reads :: "u8 list \<Rightarrow> uart \<Rightarrow> u8 list \<times> uart \<Rightarrow> bool" where
  "session_reads l u r \<longleftrightarrow> (\<exists>cs e. list_all (\<lambda>c. \<not> is_enter c) cs \<and> is_enter e
     \<and> fst r = fst (edits l cs) \<and> sent (snd r) = sent u @ snd (edits l cs) @ bytes CRLF
     \<and> subseq (cs @ e # incoming (snd r)) (incoming u)
     \<and> (length (incoming u) \<le> FIFO_DEPTH \<longrightarrow> incoming u = cs @ e # incoming (snd r)))"

lemma getc_then_putc:
  assumes "uart_getc u = Some (c, v)" and "each uart_putc cs v = Some w"
  shows "sent w = sent u @ cs" and "subseq (c # incoming w) (incoming u)"
    and "length (incoming u) \<le> FIFO_DEPTH \<Longrightarrow> incoming u = c # incoming w"
proof -
  have l: "later v w" using assms(2) by (rule later_each)
  have "sent v = sent u" using assms(1) by (rule uart_getc_obtain)
  then show "sent w = sent u @ cs" using polled.each_log [OF assms(2)] by simp
  show "subseq (c # incoming w) (incoming u)"
  proof -
    have "subseq (c # incoming w) (c # incoming v)" using l by (simp add: later_def)
    then show ?thesis using uart_getc_subseq [OF assms(1)] by (rule subseq_order.trans)
  qed
  show "incoming u = c # incoming w" if "length (incoming u) \<le> FIFO_DEPTH"
    using uart_getc_lossless [OF assms(1) that] that l by (simp add: later_def)
qed

lemma edit_session_reads: "edit_session l u = Some r \<Longrightarrow> session_reads l u r"
proof (erule edit_session.raw_induct [rotated])
  fix sess :: "u8 list \<Rightarrow> uart \<Rightarrow> (u8 list \<times> uart) option" and l u r
  assume IH: "\<And>l u r. sess l u = Some r \<Longrightarrow> session_reads l u r"
    and run: "do { (c, u) \<leftarrow> uart_getc u;
      if is_enter c then do { u \<leftarrow> each uart_putc (bytes CRLF) u; Some (l, u) }
      else do { u \<leftarrow> each uart_putc (snd (edit l c)) u; sess (fst (edit l c)) u } } = Some r"
  from run obtain c v where c: "uart_getc u = Some (c, v)" by (auto simp: Option.bind_eq_Some_conv)
  show "session_reads l u r"
  proof (cases "is_enter c")
    case True
    with run c obtain w where "each uart_putc (bytes CRLF) v = Some w" "r = (l, w)" by (auto simp: Option.bind_eq_Some_conv)
    then show ?thesis using getc_then_putc [OF c] True unfolding session_reads_def by (intro exI [of _ "[]"] exI [of _ c]) simp
  next
    case False
    with run c obtain w where w: "each uart_putc (snd (edit l c)) v = Some w" "sess (fst (edit l c)) w = Some r"
      by (auto simp: Option.bind_eq_Some_conv)
    note g = getc_then_putc [OF c w(1)]
    from IH [OF w(2)] obtain cs e where cs: "list_all (\<lambda>c. \<not> is_enter c) cs" "is_enter e" "fst r = fst (edits (fst (edit l c)) cs)"
      "sent (snd r) = sent w @ snd (edits (fst (edit l c)) cs) @ bytes CRLF" "subseq (cs @ e # incoming (snd r)) (incoming w)"
      "length (incoming w) \<le> FIFO_DEPTH \<longrightarrow> incoming w = cs @ e # incoming (snd r)" unfolding session_reads_def by blast
    have "subseq ((c # cs) @ e # incoming (snd r)) (incoming u)"
    proof -
      have "subseq (c # cs @ e # incoming (snd r)) (c # incoming w)" using cs(5) by simp
      then show ?thesis using g(2) subseq_order.trans by simp blast
    qed
    moreover have "incoming u = (c # cs) @ e # incoming (snd r)" if "length (incoming u) \<le> FIFO_DEPTH"
    proof -
      have "incoming u = c # incoming w" using g(3) that .
      then show ?thesis using cs(6) that by simp
    qed
    ultimately show ?thesis using cs(1-4) g(1) False unfolding session_reads_def
      by (intro exI [of _ "c # cs"] exI [of _ e]) (simp add: split_beta)
  qed
qed

section \<open>Properties\<close>

text \<open>A bus that is plain memory everywhere, for concrete runs.\<close>

definition ram_bus :: "(u32 \<Rightarrow> u8) bus" where
  "ram_bus = \<lparr>load_byte = \<lambda>a s. Some (mem s a, s),
     store_byte = \<lambda>a v s. Some (s\<lparr>mem := (mem s)(a := v)\<rparr>), call_addr = \<lambda>a s. Some s\<rparr>"

lemma ram_bus_ok: "ram_on R ram_bus" "keeps_line ram_bus"
  by (simp_all add: ram_bus_def ram_on_def keeps_line_def)

definition fresh :: "u8 list \<Rightarrow> uart \<Rightarrow> (u32 \<Rightarrow> u8) mon" where
  "fresh buf u = \<lparr>in_buf = buf, xam = 0, st_addr = 0, con = u, mem = \<lambda>_. 0\<rparr>"

text \<open>C34: \<open>get_line\<close> is the line editor on the console, for every console and every input. If the editor waits for
  ever, because no more characters come or none are sent, \<open>get_line\<close> does; otherwise it returns, with the length of the editor's
  line, that line in its buffer, at most 131 characters, the console as the editor leaves it, and nothing else of
  the monitor changed: no access is outside the buffer, and no character is skipped. What the editor reads are the characters up to the
  first carriage return or line feed, in the order of their arrival, all of them as long as they fit the receive
  FIFO; the line and the echo are what editing them gives.\<close>

theorem get_line_edits:
  assumes "length (in_buf s) = IN_BUF_SIZE"
  shows "case edit_session [] (con s) of None \<Rightarrow> get_line s = None
    | Some (l, u) \<Rightarrow> (\<exists>r. get_line s = Some r \<and> holds_line l u s r) \<and> session_reads [] (con s) (l, u)"
proof (cases "edit_session [] (con s)")
  case None
  then show ?thesis using get_line_loop_session [of 0 s] assms
    by (cases "get_line_loop 0 s") (auto simp: get_line_def buf_ok_def IN_BUF_SIZE_def)
next
  case (Some r)
  have ok: "buf_ok 0 s" using assms by (simp add: buf_ok_def IN_BUF_SIZE_def)
  from session_get_line_loop [OF Some, rule_format, of s] ok obtain q where q: "get_line_loop 0 s = Some q" by auto
  with get_line_loop_session [OF q] ok Some show ?thesis using edit_session_reads [OF Some]
    by (auto simp: get_line_def)
qed

text \<open>A character, a backspace, another character and a line feed.\<close>

lemma get_line_edits_witness:
  "\<exists>b. get_line (fresh (replicate 132 0) (idle_uart\<lparr>rx_fifo := [0x41, 0x08, 0x42, 0x0A]\<rparr>))
     = Some (1, fresh b (idle_uart\<lparr>tx_fifo := [0x41, 0x08, 0x20, 0x08, 0x42, 0x0D, 0x0A]\<rparr>)) \<and> take 1 b = [0x42]"
proof -
  have get: "uart_getc (idle_uart\<lparr>rx_fifo := b # bs, tx_fifo := t\<rparr>) = Some (b, idle_uart\<lparr>rx_fifo := bs, tx_fifo := t\<rparr>)" for b bs t
    by (simp add: uart_getc_idle) (simp add: idle_uart_def)
  have put: "each uart_putc cs (idle_uart\<lparr>rx_fifo := bs, tx_fifo := t\<rparr>) = Some (idle_uart\<lparr>rx_fifo := bs, tx_fifo := t @ cs\<rparr>)"
    if "length t + length cs \<le> 16" for cs bs t
    using that
  proof (induction cs arbitrary: t)
    case (Cons c cs)
    then have "uart_putc c (idle_uart\<lparr>rx_fifo := bs, tx_fifo := t\<rparr>) = Some (idle_uart\<lparr>rx_fifo := bs, tx_fifo := t @ [c]\<rparr>)"
      by (subst uart_putc_idle) (simp_all add: idle_uart_def tx_ready_def FIFO_DEPTH_def)
    then show ?case using Cons.IH [of "t @ [c]"] Cons.prems by simp
  qed simp
  have turn: "edit_session l (idle_uart\<lparr>rx_fifo := b # bs, tx_fifo := t\<rparr>) =
      (if is_enter b then Some (l, idle_uart\<lparr>rx_fifo := bs, tx_fifo := t @ [0x0D, 0x0A]\<rparr>)
       else edit_session (fst (edit l b)) (idle_uart\<lparr>rx_fifo := bs, tx_fifo := t @ snd (edit l b)\<rparr>))"
    if "length t + 3 \<le> 16" for l b bs t
  proof -
    have "length (snd (edit l b)) \<le> 3" by (simp add: edit_def)
    then show ?thesis using that put [of t "[0x0D, 0x0A]" bs] put [of t "snd (edit l b)" bs]
      by (subst edit_session.simps) (simp add: get bytes_CRLF del: each.simps)
  qed
  have "edit_session [] (idle_uart\<lparr>rx_fifo := [0x41, 0x08, 0x42, 0x0A], tx_fifo := []\<rparr>)
      = Some ([0x42], idle_uart\<lparr>rx_fifo := [], tx_fifo := [0x41, 0x08, 0x20, 0x08, 0x42, 0x0D, 0x0A]\<rparr>)"
    by (simp add: turn is_enter_def edit_def)
  then have "edit_session [] (idle_uart\<lparr>rx_fifo := [0x41, 0x08, 0x42, 0x0A]\<rparr>)
      = Some ([0x42], idle_uart\<lparr>rx_fifo := [], tx_fifo := [0x41, 0x08, 0x20, 0x08, 0x42, 0x0D, 0x0A]\<rparr>)"
    by (simp add: idle_uart_def)
  moreover have "length (in_buf (fresh (replicate 132 0) (idle_uart\<lparr>rx_fifo := [0x41, 0x08, 0x42, 0x0A]\<rparr>))) = IN_BUF_SIZE"
    by (simp add: fresh_def IN_BUF_SIZE_def)
  from get_line_edits [OF this] calculation show ?thesis
    by (auto simp: holds_line_def fresh_def) (auto simp: idle_uart_def)
qed

text \<open>C3: The character loop over a line of commands does what the line says as a list of tokens:
  delimiters set the mode, and each number in turn examines, deposits or dumps, on any bus whose
  accesses leave the line buffer alone.\<close>

theorem exec_line_refines_tokens:
  assumes "keeps_line b" and "tokens_ok ts" and "in_buf s = line_of ts @ rest"
  shows "exec_line b (length (line_of ts)) 0 MODE_XAM s = run_tokens b ts MODE_XAM s"
  using exec_line_tokens [OF assms(1,2), of s "[]"] assms(3) by simp

lemma exec_line_refines_tokens_witness:
  "exec_line ram_bus (length (line_of [([], [0x32]), ([0x2E], [0x34])])) 0 MODE_XAM
      (fresh (line_of [([], [0x32]), ([0x2E], [0x34])] @ [0]) idle_uart)
    = run_tokens ram_bus [([], [0x32]), ([0x2E], [0x34])] MODE_XAM
      (fresh (line_of [([], [0x32]), ([0x2E], [0x34])] @ [0]) idle_uart)"
  by (rule exec_line_refines_tokens)
    (simp_all add: ram_bus_ok fresh_def token_ok_def is_delim_def is_hex_def is_hex_digit_def)

text \<open>The line \<open>AAAAAAAA: vv vv ...\<close> examines address A, then stores the bytes at A, A+1, ... and
  nowhere else, wherever those addresses are memory.\<close>

theorem deposit_line_stores:
  assumes "ram_on R b" and "keeps_line b" and "\<forall>i<length vs. a + of_nat i \<in> R" and "vs \<noteq> []"
    and "length vs \<le> 2 ^ 32" and "in_buf s = line_of (deposit_line a vs) @ rest"
  shows "\<exists>m. exec_line b (length (line_of (deposit_line a vs))) 0 MODE_XAM s = do {
      s1 \<leftarrow> each putc (addr_text a @ [0x20] @ hex8_text (mem s a)) (s\<lparr>xam := a, st_addr := a\<rparr>);
      Some (s1\<lparr>mem := m, st_addr := a + of_nat (length vs)\<rparr>) }
    \<and> (\<forall>i<length vs. m (a + of_nat i) = vs ! i)
    \<and> (\<forall>x. (\<forall>i<length vs. x \<noteq> a + of_nat i) \<longrightarrow> m x = mem s x)"
proof -
  have "tokens_ok (deposit_line a vs)"
    using tokens_ok_bytes hex8_tokens hex_digits_is_hex hex_digits_8 assms(4)
    by (cases vs) (simp_all add: deposit_line_def token_ok_def is_delim_def)
  from exec_line_tokens [OF assms(2) this, of s "[]"] assms(6)
  have "exec_line b (length (line_of (deposit_line a vs))) 0 MODE_XAM s = run_tokens b (deposit_line a vs) MODE_XAM s"
    by simp
  then show ?thesis
    using run_deposit_line [OF assms(1,3,4), of s] poke_inside [OF assms(5)] poke_outside [of vs]
    by (intro exI [of _ "poke (mem s) a vs"]) simp
qed

lemma deposit_line_stores_witness:
  "\<exists>m. exec_line ram_bus (length (line_of (deposit_line 0x2000 [1, 2]))) 0 MODE_XAM
        (fresh (line_of (deposit_line 0x2000 [1, 2]) @ []) idle_uart) = do {
      s1 \<leftarrow> each putc (addr_text 0x2000 @ [0x20] @ hex8_text (mem (fresh (line_of (deposit_line 0x2000 [1, 2]) @ []) idle_uart) 0x2000))
        (fresh (line_of (deposit_line 0x2000 [1, 2]) @ []) idle_uart\<lparr>xam := 0x2000, st_addr := 0x2000\<rparr>);
      Some (s1\<lparr>mem := m, st_addr := 0x2000 + of_nat (length [1, 2 :: u8])\<rparr>) }
    \<and> (\<forall>i<length [1, 2 :: u8]. m (0x2000 + of_nat i) = [1, 2] ! i)
    \<and> (\<forall>x. (\<forall>i<length [1, 2 :: u8]. x \<noteq> 0x2000 + of_nat i) \<longrightarrow>
        m x = mem (fresh (line_of (deposit_line 0x2000 [1, 2]) @ []) idle_uart) x)"
  by (rule deposit_line_stores [of UNIV]) (simp_all add: ram_bus_ok fresh_def)

text \<open>The line \<open>AAAAAAAA.EEEEEEEE\<close> prints the byte at every address from A to E, once and in
  order, wrapping at the top of the address space, with a new address prefix at every multiple of
  eight, terminates, changes no memory and leaves the examined address at E.\<close>

theorem dump_line_prints:
  assumes "ram_on R b" and "keeps_line b" and "\<forall>i\<le>unat (e - a). a + of_nat i \<in> R"
    and "in_buf s = line_of (dump_line a e) @ rest"
  shows "exec_line b (length (line_of (dump_line a e))) 0 MODE_XAM s =
    each putc (addr_text a @ [0x20] @ hex8_text (mem s a)
      @ addr_text a @ [0x20] @ dump_text (mem s) a (unat (e - a))) (s\<lparr>xam := e, st_addr := a\<rparr>)"
proof -
  have "tokens_ok (dump_line a e)"
    using hex_digits_is_hex hex_digits_8 by (simp add: dump_line_def token_ok_def is_delim_def)
  from exec_line_tokens [OF assms(2) this, of s "[]"] assms(4)
  show ?thesis using run_dump_line [OF assms(1) refl assms(3), of s] by simp
qed

lemma dump_line_prints_witness:
  "exec_line ram_bus (length (line_of (dump_line 0x2000 0x200A))) 0 MODE_XAM (fresh (line_of (dump_line 0x2000 0x200A) @ []) idle_uart) =
    each putc (addr_text 0x2000 @ [0x20] @ hex8_text (mem (fresh (line_of (dump_line 0x2000 0x200A) @ []) idle_uart) 0x2000)
      @ addr_text 0x2000 @ [0x20] @ dump_text (mem (fresh (line_of (dump_line 0x2000 0x200A) @ []) idle_uart)) 0x2000 (unat (0x200A - 0x2000 :: u32)))
      (fresh (line_of (dump_line 0x2000 0x200A) @ []) idle_uart\<lparr>xam := 0x200A, st_addr := 0x2000\<rparr>)"
  by (rule dump_line_prints [of UNIV]) (simp_all add: ram_bus_ok fresh_def)

text \<open>What \<open>print_hex32\<close> prints is read back by the monitor's own number scanner as the same
  32-bit value.\<close>

theorem hex32_round_trip:
  "\<exists>ds. (\<forall>s :: 'm mon. print_hex32 v s = each putc ds s) \<and> length ds = 8
    \<and> scan_hex ds (length ds) 0 0 0 = Some (length ds, v, length ds)"
proof -
  have "scan_hex (hex_digits 8 v) (length (hex_digits 8 v)) 0 0 0
      = Some (length (hex_digits 8 v), v, length (hex_digits 8 v))"
    using scan_hex_token [of "[]" "hex_digits 8 v" "length (hex_digits 8 v)" "[]" 0 0] hex_digits_is_hex [of 8 v]
    by (simp add: hex_val_word)
  moreover have "length (hex_digits 8 v) = 8" by (simp add: hex_digits_def)
  ultimately show ?thesis by (intro exI [of _ "hex_digits 8 v"]) (simp add: print_hex32_each)
qed

end
