(* ===== verification/Core_State.thy ===== *)
theory Core_State
  imports Crc
begin

text \<open>
  The state machine benchmark of \<open>sim/sw/coremark/eembc/core_state.c\<close>. Memory is the
  list of bytes from \<open>memblock\<close> on, which may go on after the block; a pointer is an
  index into it. An access outside the list, or a loop that never ends, is \<open>None\<close>.
\<close>

section \<open>States and counters\<close>

datatype core_state = CORE_START | CORE_INVALID | CORE_S1 | CORE_S2 | CORE_INT
  | CORE_FLOAT | CORE_EXPONENT | CORE_SCIENTIFIC

definition NUM_CORE_STATES :: nat where "NUM_CORE_STATES = 8"

text \<open>The enumerators in order; the arrays of counters are indexed by them.\<close>

definition core_states :: "core_state list" where
  "core_states = [CORE_START, CORE_INVALID, CORE_S1, CORE_S2, CORE_INT, CORE_FLOAT,
     CORE_EXPONENT, CORE_SCIENTIFIC]"

primrec enum_no :: "core_state \<Rightarrow> nat" where
  "enum_no CORE_START = 0" | "enum_no CORE_INVALID = 1" | "enum_no CORE_S1 = 2"
| "enum_no CORE_S2 = 3" | "enum_no CORE_INT = 4" | "enum_no CORE_FLOAT = 5"
| "enum_no CORE_EXPONENT = 6" | "enum_no CORE_SCIENTIFIC = 7"

lemma enum_no_inj: "enum_no s = enum_no t \<longleftrightarrow> s = t"
  by (cases s; cases t) simp_all

instantiation core_state :: linorder
begin

definition less_eq_core_state :: "core_state \<Rightarrow> core_state \<Rightarrow> bool" where
  "s \<le> t \<longleftrightarrow> enum_no s \<le> enum_no t"

definition less_core_state :: "core_state \<Rightarrow> core_state \<Rightarrow> bool" where
  "s < t \<longleftrightarrow> enum_no s < enum_no t"

instance
  by standard (auto simp: less_eq_core_state_def less_core_state_def enum_no_inj)

end

lemma core_states_enum:
  "length core_states = NUM_CORE_STATES" "sorted core_states" "distinct core_states"
  "i < NUM_CORE_STATES \<Longrightarrow> enum_no (core_states ! i) = i"
  by (simp_all add: core_states_def NUM_CORE_STATES_def less_eq_core_state_def less_Suc_eq numeral_eq_Suc)
    auto

type_synonym counters = "core_state \<Rightarrow> u32"

definition bump :: "core_state \<Rightarrow> counters \<Rightarrow> counters" where
  "bump s t = t(s := t s + 1)"

section \<open>The state machine\<close>

definition ee_isdigit :: "u8 \<Rightarrow> bool" where
  "ee_isdigit c \<longleftrightarrow> 0x30 \<le> c \<and> c \<le> 0x39"

text \<open>The \<open>switch\<close> on the state: the next state and the counters.\<close>

definition transition :: "core_state \<Rightarrow> u8 \<Rightarrow> counters \<Rightarrow> core_state \<times> counters" where
  "transition state NEXT_SYMBOL t = (case state of
     CORE_START \<Rightarrow>
       (let (state1, t1) =
          (if ee_isdigit NEXT_SYMBOL then (CORE_INT, t)
           else if NEXT_SYMBOL = 0x2B \<or> NEXT_SYMBOL = 0x2D then (CORE_S1, t)
           else if NEXT_SYMBOL = 0x2E then (CORE_FLOAT, t)
           else (CORE_INVALID, bump CORE_INVALID t))
        in (state1, bump CORE_START t1))
   | CORE_S1 \<Rightarrow>
       (if ee_isdigit NEXT_SYMBOL then (CORE_INT, bump CORE_S1 t)
        else if NEXT_SYMBOL = 0x2E then (CORE_FLOAT, bump CORE_S1 t)
        else (CORE_INVALID, bump CORE_S1 t))
   | CORE_INT \<Rightarrow>
       (if NEXT_SYMBOL = 0x2E then (CORE_FLOAT, bump CORE_INT t)
        else if \<not> ee_isdigit NEXT_SYMBOL then (CORE_INVALID, bump CORE_INT t)
        else (CORE_INT, t))
   | CORE_FLOAT \<Rightarrow>
       (if NEXT_SYMBOL = 0x45 \<or> NEXT_SYMBOL = 0x65 then (CORE_S2, bump CORE_FLOAT t)
        else if \<not> ee_isdigit NEXT_SYMBOL then (CORE_INVALID, bump CORE_FLOAT t)
        else (CORE_FLOAT, t))
   | CORE_S2 \<Rightarrow>
       (if NEXT_SYMBOL = 0x2B \<or> NEXT_SYMBOL = 0x2D then (CORE_EXPONENT, bump CORE_S2 t)
        else (CORE_INVALID, bump CORE_S2 t))
   | CORE_EXPONENT \<Rightarrow>
       (if ee_isdigit NEXT_SYMBOL then (CORE_SCIENTIFIC, bump CORE_EXPONENT t)
        else (CORE_INVALID, bump CORE_EXPONENT t))
   | CORE_SCIENTIFIC \<Rightarrow>
       (if \<not> ee_isdigit NEXT_SYMBOL then (CORE_INVALID, bump CORE_INVALID t)
        else (CORE_SCIENTIFIC, t))
   | CORE_INVALID \<Rightarrow> (state, t))"

function transition_loop :: "u8 list \<Rightarrow> nat \<Rightarrow> core_state \<Rightarrow> counters \<Rightarrow> (nat \<times> core_state \<times> counters) option" where
  "transition_loop m str state t = do {
     NEXT_SYMBOL \<leftarrow> arr_get m str;
     if NEXT_SYMBOL \<noteq> 0 \<and> state \<noteq> CORE_INVALID then
       if NEXT_SYMBOL = 0x2C then Some (str + 1, state, t)
       else let (state1, t1) = transition state NEXT_SYMBOL t
            in transition_loop m (str + 1) state1 t1
     else Some (str, state, t) }"
  by pat_completeness auto

termination transition_loop
  by (relation "measure (\<lambda>(m, str, s, t). length m - str)") (auto simp: arr_get_def split: if_splits)

declare transition_loop.simps [simp del]

text \<open>The pointer to go on from, the state reached and the counters.\<close>

definition core_state_transition :: "u8 list \<Rightarrow> nat \<Rightarrow> counters \<Rightarrow> (nat \<times> core_state \<times> counters) option" where
  "core_state_transition m instr t = transition_loop m instr CORE_START t"

lemma transition_loop_le: "transition_loop m str s t = Some (q, s1, t1) \<Longrightarrow> str \<le> q"
proof (induction m str s t rule: transition_loop.induct)
  case (1 m str s t)
  from "1.prems" show ?case
    by (subst (asm) transition_loop.simps)
      (auto simp: Option.bind_eq_Some_conv split: if_splits prod.splits dest: "1.IH" Suc_leD)
qed

lemma core_state_transition_progress:
  assumes "core_state_transition m p t = Some (q, s1, t1)" and "arr_get m p = Some c" and "c \<noteq> 0"
  shows "p < q"
  using assms unfolding core_state_transition_def
  by (subst (asm) transition_loop.simps)
    (auto split: if_splits prod.splits dest: transition_loop_le)

section \<open>The benchmark\<close>

function scan_loop :: "u8 list \<Rightarrow> nat \<Rightarrow> counters \<Rightarrow> counters \<Rightarrow> (counters \<times> counters) option" where
  "scan_loop m p final_counts track_counts =
     Option.bind (arr_get m p) (\<lambda>c.
       if c \<noteq> 0 then
         Option.bind (core_state_transition m p track_counts)
           (\<lambda>(q, fstate, track1). scan_loop m q (bump fstate final_counts) track1)
       else Some (final_counts, track_counts))"
  by pat_completeness auto

termination scan_loop
proof (relation "measure (\<lambda>(m, p, f, t). length m - p)")
qed (auto dest: core_state_transition_progress simp: arr_get_eq_Some)

declare scan_loop.simps [simp del]

text \<open>The corruption loop; \<open>p\<close> moves by the signed \<open>step\<close>.\<close>

partial_function (option) corrupt_loop :: "u32 \<Rightarrow> s16 \<Rightarrow> s16 \<Rightarrow> int \<Rightarrow> u8 list \<Rightarrow> u8 list option" where
  "corrupt_loop blksize seed step p m =
     (if p < uint blksize then
        if p < 0 then None
        else do {
          c \<leftarrow> arr_get m (nat p);
          m1 \<leftarrow> (if c \<noteq> 0x2C then arr_set m (nat p) (c XOR ucast seed) else Some m);
          corrupt_loop blksize seed step (p + sint step) m1 }
      else Some m)"

definition core_bench_state :: "u32 \<Rightarrow> u8 list \<Rightarrow> s16 \<Rightarrow> s16 \<Rightarrow> s16 \<Rightarrow> u16 \<Rightarrow> (u16 \<times> u8 list) option" where
  "core_bench_state blksize memblock seed1 seed2 step crc = do {
     (final1, track1) \<leftarrow> scan_loop memblock 0 (\<lambda>_. 0) (\<lambda>_. 0);
     m1 \<leftarrow> corrupt_loop blksize seed1 step 0 memblock;
     (final2, track2) \<leftarrow> scan_loop m1 0 final1 track1;
     m2 \<leftarrow> corrupt_loop blksize seed2 step 0 m1;
     Some (fold (\<lambda>s crc. crcu32 (track2 s) (crcu32 (final2 s) crc)) core_states crc, m2) }"

section \<open>Initial contents\<close>

definition intpat :: "u8 list list" where
  "intpat = [bytes ''5012'', bytes ''1234'', bytes ''-874'', bytes ''+122'']"

definition floatpat :: "u8 list list" where
  "floatpat = [bytes ''35.54400'', bytes ''.1234500'', bytes ''-110.700'', bytes ''+0.64400'']"

definition scipat :: "u8 list list" where
  "scipat = [bytes ''5.500e+3'', bytes ''-.123e-2'', bytes ''-87e+832'', bytes ''+0.6e-12'']"

definition errpat :: "u8 list list" where
  "errpat = [bytes ''T0.3e-1F'', bytes ''-T.T++Tq'', bytes ''1T3.4e4z'', bytes ''34.0e-T^'']"

text \<open>The \<open>switch\<close> on the seed: the pattern and its length \<open>next\<close>.\<close>

definition pick :: "s16 \<Rightarrow> u8 list \<times> u32" where
  "pick seed =
     (let k = seed AND 0x7; j = unat (drop_bit 3 seed AND 0x3)
      in if k \<le> 2 then (intpat ! j, 4)
         else if k \<le> 4 then (floatpat ! j, 8)
         else if k \<le> 6 then (scipat ! j, 8)
         else (errpat ! j, 8))"

function copy_pat :: "u32 \<Rightarrow> u32 \<Rightarrow> u8 list \<Rightarrow> u32 \<Rightarrow> u8 list \<Rightarrow> (u32 \<times> u8 list) option" where
  "copy_pat i next buf tot m =
     (if i < next then do {
        c \<leftarrow> arr_get buf (unat i);
        m1 \<leftarrow> arr_set m (unat tot + unat i) c;
        copy_pat (i + 1) next buf tot m1 }
      else Some (i, m))"
  by pat_completeness auto

termination copy_pat
proof (relation "measure (\<lambda>(i, next, b, t, m). unat (next - i))")
qed (auto intro: unat_count_down)

declare copy_pat.simps [simp del]

partial_function (option) init_loop :: "u32 \<Rightarrow> u32 \<Rightarrow> u32 \<Rightarrow> u8 list \<Rightarrow> s16 \<Rightarrow> u8 list \<Rightarrow> (u32 \<times> u8 list) option" where
  "init_loop sz1 tot next buf seed m =
     (if tot + next + 1 < sz1 then do {
        (tot1, m1) \<leftarrow> (if next > 0 then do {
            (i, m1) \<leftarrow> copy_pat 0 next buf tot m;
            m2 \<leftarrow> arr_set m1 (unat tot + unat i) 0x2C;
            Some (tot + (next + 1), m2) }
          else Some (tot, m));
        let seed1 = seed + 1;
        let (buf1, next1) = pick seed1;
        init_loop sz1 tot1 next1 buf1 seed1 m1 }
      else Some (tot, m))"

function zero_fill :: "u32 \<Rightarrow> u32 \<Rightarrow> u8 list \<Rightarrow> u8 list option" where
  "zero_fill tot sz m =
     (if tot < sz then do {
        m1 \<leftarrow> arr_set m (unat tot) 0;
        zero_fill (tot + 1) sz m1 }
      else Some m)"
  by pat_completeness auto

termination zero_fill
proof (relation "measure (\<lambda>(tot, sz, m). unat (sz - tot))")
qed (auto intro: unat_count_down)

declare zero_fill.simps [simp del]

definition core_init_state :: "u32 \<Rightarrow> s16 \<Rightarrow> u8 list \<Rightarrow> u8 list option" where
  "core_init_state sz seed m = do {
     let sz1 = sz - 1;
     (tot, m1) \<leftarrow> init_loop sz1 0 0 [] seed m;
     zero_fill tot (sz1 + 1) m1 }"


section \<open>What a token is classified as\<close>

text \<open>The machine without its counters, and its run over a token.\<close>

definition next_state :: "core_state \<Rightarrow> u8 \<Rightarrow> core_state" where
  "next_state s c = fst (transition s c (\<lambda>_. 0))"

lemma fst_transition: "fst (transition s c t) = next_state s c"
  by (cases s) (simp_all add: next_state_def transition_def)

text \<open>The state reached and the number of characters consumed.\<close>

fun scan :: "core_state \<Rightarrow> u8 list \<Rightarrow> core_state \<times> nat" where
  "scan s [] = (s, 0)"
| "scan s (c # cs) = (if s = CORE_INVALID then (s, 0)
     else let (s1, n) = scan (next_state s c) cs in (s1, Suc n))"

definition in_token :: "u8 \<Rightarrow> bool" where
  "in_token c \<longleftrightarrow> c \<noteq> 0 \<and> c \<noteq> 0x2C"

lemma transition_loop_scan:
  assumes "list_all in_token tok" and "d = 0 \<or> d = 0x2C"
  shows "\<exists>t1. transition_loop (pre @ tok @ d # rest) (length pre) s t =
    Some (length pre + snd (scan s tok)
        + (if fst (scan s tok) \<noteq> CORE_INVALID \<and> d = 0x2C then 1 else 0), fst (scan s tok), t1)"
  using assms(1)
proof (induction tok arbitrary: pre s t)
  case Nil
  then show ?case
    using assms(2) by (subst transition_loop.simps) (auto simp: nth_append)
next
  case (Cons c cs)
  show ?case
  proof (cases "s = CORE_INVALID")
    case True
    then show ?thesis by (subst transition_loop.simps) (simp add: nth_append)
  next
    case False
    obtain t1 where t1: "transition s c t = (next_state s c, t1)"
      using fst_transition [of s c t] by (cases "transition s c t") auto
    have "c \<noteq> 0" "c \<noteq> 0x2C" "list_all in_token cs" using Cons.prems by (simp_all add: in_token_def [of c])
    moreover obtain t2 where "transition_loop ((pre @ [c]) @ cs @ d # rest) (length (pre @ [c])) (next_state s c) t1
        = Some (length (pre @ [c]) + snd (scan (next_state s c) cs)
          + (if fst (scan (next_state s c) cs) \<noteq> CORE_INVALID \<and> d = 0x2C then 1 else 0),
          fst (scan (next_state s c) cs), t2)"
      using Cons.IH calculation(3) by blast
    ultimately show ?thesis
      using False t1
      by (subst transition_loop.simps) (auto simp: nth_append split_beta)
  qed
qed

definition digits :: "u8 list \<Rightarrow> bool" where
  "digits ds \<longleftrightarrow> list_all ee_isdigit ds"

definition opt_sign :: "u8 list set" where
  "opt_sign = {[], [0x2B], [0x2D]}"

definition int_lit :: "u8 list \<Rightarrow> bool" where
  "int_lit tok \<longleftrightarrow> (\<exists>sg\<in>opt_sign. \<exists>ds. tok = sg @ ds \<and> ds \<noteq> [] \<and> digits ds)"

definition float_lit :: "u8 list \<Rightarrow> bool" where
  "float_lit tok \<longleftrightarrow> (\<exists>sg\<in>opt_sign. \<exists>ds fs. tok = sg @ ds @ 0x2E # fs \<and> digits ds \<and> digits fs)"

definition exponent :: "u8 list \<Rightarrow> bool" where
  "exponent tok \<longleftrightarrow> (\<exists>e sg ds. tok = e # sg # ds \<and> (e = 0x45 \<or> e = 0x65)
     \<and> (sg = 0x2B \<or> sg = 0x2D) \<and> ds \<noteq> [] \<and> digits ds)"

definition sci_lit :: "u8 list \<Rightarrow> bool" where
  "sci_lit tok \<longleftrightarrow> (\<exists>f ex. tok = f @ ex \<and> float_lit f \<and> exponent ex)"

definition final :: "core_state \<Rightarrow> u8 list \<Rightarrow> core_state" where
  "final s tok = fst (scan s tok)"

lemma final_simps [simp]:
  "final s [] = s" "final CORE_INVALID tok = CORE_INVALID"
  "s \<noteq> CORE_INVALID \<Longrightarrow> final s (c # cs) = final (next_state s c) cs"
  by (auto simp: final_def split_beta) (cases tok; simp)

lemma digits_simps [simp]: "digits []" "digits (c # cs) \<longleftrightarrow> ee_isdigit c \<and> digits cs"
  by (simp_all add: digits_def)

lemma next_state_eqs:
  "next_state CORE_START c = (if ee_isdigit c then CORE_INT else if c = 0x2B \<or> c = 0x2D then CORE_S1
     else if c = 0x2E then CORE_FLOAT else CORE_INVALID)"
  "next_state CORE_S1 c = (if ee_isdigit c then CORE_INT else if c = 0x2E then CORE_FLOAT else CORE_INVALID)"
  "next_state CORE_INT c = (if c = 0x2E then CORE_FLOAT else if ee_isdigit c then CORE_INT else CORE_INVALID)"
  "next_state CORE_FLOAT c = (if c = 0x45 \<or> c = 0x65 then CORE_S2 else if ee_isdigit c then CORE_FLOAT
     else CORE_INVALID)"
  "next_state CORE_S2 c = (if c = 0x2B \<or> c = 0x2D then CORE_EXPONENT else CORE_INVALID)"
  "next_state CORE_EXPONENT c = (if ee_isdigit c then CORE_SCIENTIFIC else CORE_INVALID)"
  "next_state CORE_SCIENTIFIC c = (if ee_isdigit c then CORE_SCIENTIFIC else CORE_INVALID)"
  by (simp_all add: next_state_def transition_def)

lemma not_digit [simp]: "\<not> ee_isdigit 0x2B" "\<not> ee_isdigit 0x2D" "\<not> ee_isdigit 0x2E"
    "\<not> ee_isdigit 0x45" "\<not> ee_isdigit 0x65" "\<not> ee_isdigit 0x2C" "\<not> ee_isdigit 0"
  by (simp_all add: ee_isdigit_def)

lemma final_SCIENTIFIC: "final CORE_SCIENTIFIC tok = (if digits tok then CORE_SCIENTIFIC else CORE_INVALID)"
  by (induction tok) (auto simp: next_state_eqs)

lemma final_EXPONENT:
  "final CORE_EXPONENT tok = (case tok of [] \<Rightarrow> CORE_EXPONENT | _ \<Rightarrow> if digits tok then CORE_SCIENTIFIC else CORE_INVALID)"
  by (cases tok) (auto simp: next_state_eqs final_SCIENTIFIC)

lemma final_S2: "final CORE_S2 tok = CORE_SCIENTIFIC \<longleftrightarrow>
    (\<exists>sg ds. tok = sg # ds \<and> (sg = 0x2B \<or> sg = 0x2D) \<and> ds \<noteq> [] \<and> digits ds)"
  "final CORE_S2 tok \<notin> {CORE_INT, CORE_FLOAT}"
  by (cases tok; auto simp: next_state_eqs final_EXPONENT split: list.splits)+

lemma digits_prefix_Cons:
  "(\<exists>fs ex. c # cs = fs @ ex \<and> digits fs \<and> P ex) \<longleftrightarrow>
     P (c # cs) \<or> (ee_isdigit c \<and> (\<exists>fs ex. cs = fs @ ex \<and> digits fs \<and> P ex))" (is "?l \<longleftrightarrow> ?r")
proof
  assume ?l
  then obtain fs ex where "c # cs = fs @ ex" "digits fs" "P ex" by blast
  then show ?r by (cases fs) auto
next
  assume ?r
  then show ?l
  proof
    assume "P (c # cs)"
    then have "c # cs = [] @ c # cs \<and> digits [] \<and> P (c # cs)" by simp
    then show ?l by blast
  next
    assume "ee_isdigit c \<and> (\<exists>fs ex. cs = fs @ ex \<and> digits fs \<and> P ex)"
    then obtain fs ex where "ee_isdigit c" "cs = fs @ ex" "digits fs" "P ex" by blast
    then show ?l by (intro exI [of _ "c # fs"] exI [of _ ex]) simp
  qed
qed

lemma final_FLOAT:
  "final CORE_FLOAT tok = CORE_FLOAT \<longleftrightarrow> digits tok"
  "final CORE_FLOAT tok = CORE_SCIENTIFIC \<longleftrightarrow> (\<exists>fs ex. tok = fs @ ex \<and> digits fs \<and> exponent ex)"
  "final CORE_FLOAT tok \<noteq> CORE_INT"
proof (induction tok)
  case (Cons c cs)
  have split: "(\<exists>fs ex. c # cs = fs @ ex \<and> digits fs \<and> exponent ex) \<longleftrightarrow>
      exponent (c # cs) \<or> (ee_isdigit c \<and> (\<exists>fs ex. cs = fs @ ex \<and> digits fs \<and> exponent ex))"
    by (rule digits_prefix_Cons)
  {
    case 1 then show ?case using Cons.IH final_S2(2) by (auto simp: next_state_eqs)
  next
    case 2 then show ?case
      unfolding split using Cons.IH by (auto simp: next_state_eqs final_S2 exponent_def)
  next
    case 3 then show ?case using Cons.IH final_S2(2) by (auto simp: next_state_eqs)
  }
qed (auto simp: exponent_def)

lemma final_INT:
  "final CORE_INT tok = CORE_INT \<longleftrightarrow> digits tok"
  "final CORE_INT tok = CORE_FLOAT \<longleftrightarrow> (\<exists>ds fs. tok = ds @ fs \<and> digits ds \<and> fs \<noteq> [] \<and> hd fs = 0x2E \<and> digits (tl fs))"
  "final CORE_INT tok = CORE_SCIENTIFIC \<longleftrightarrow> (\<exists>ds fs. tok = ds @ fs \<and> digits ds
     \<and> (fs \<noteq> [] \<and> hd fs = 0x2E \<and> final CORE_FLOAT (tl fs) = CORE_SCIENTIFIC))"
proof (induction tok)
  case (Cons c cs)
  {
    case 1 then show ?case using Cons.IH final_FLOAT(3) by (auto simp: next_state_eqs)
  next
    case 2 then show ?case
      unfolding digits_prefix_Cons using Cons.IH by (auto simp: next_state_eqs final_FLOAT)
  next
    case 3 then show ?case
      unfolding digits_prefix_Cons using Cons.IH by (auto simp: next_state_eqs)
  }
qed auto

text \<open>After the sign, or without one, the machine is in the same state.\<close>

lemma final_S1:
  "final CORE_S1 tok = CORE_INT \<longleftrightarrow> tok \<noteq> [] \<and> digits tok"
  "final CORE_S1 tok = CORE_FLOAT \<longleftrightarrow> (\<exists>ds fs. tok = ds @ 0x2E # fs \<and> digits ds \<and> digits fs)"
  "final CORE_S1 tok = CORE_SCIENTIFIC \<longleftrightarrow>
     (\<exists>ds fs ex. tok = ds @ 0x2E # fs @ ex \<and> digits ds \<and> digits fs \<and> exponent ex)"
proof -
  have tail: "(\<exists>ds fs. tok = ds @ fs \<and> digits ds \<and> fs \<noteq> [] \<and> hd fs = 0x2E \<and> P (tl fs))
      \<longleftrightarrow> (\<exists>ds fs. tok = ds @ 0x2E # fs \<and> digits ds \<and> P fs)" for P
    by (metis list.exhaust_sel list.sel(1,3) list.distinct(1))
  show "final CORE_S1 tok = CORE_INT \<longleftrightarrow> tok \<noteq> [] \<and> digits tok"
    by (cases tok) (auto simp: next_state_eqs final_INT final_FLOAT)
  show "final CORE_S1 tok = CORE_FLOAT \<longleftrightarrow> (\<exists>ds fs. tok = ds @ 0x2E # fs \<and> digits ds \<and> digits fs)"
    unfolding tail [symmetric]
    by (cases tok) (simp_all add: next_state_eqs final_INT final_FLOAT digits_prefix_Cons)
  have "final CORE_S1 tok = CORE_SCIENTIFIC \<longleftrightarrow>
      (\<exists>ds fs. tok = ds @ 0x2E # fs \<and> digits ds \<and> final CORE_FLOAT fs = CORE_SCIENTIFIC)"
    unfolding tail [symmetric]
    by (cases tok) (simp_all add: next_state_eqs final_INT digits_prefix_Cons)
  then show "final CORE_S1 tok = CORE_SCIENTIFIC \<longleftrightarrow>
      (\<exists>ds fs ex. tok = ds @ 0x2E # fs @ ex \<and> digits ds \<and> digits fs \<and> exponent ex)"
    unfolding final_FLOAT by blast
qed

lemma final_START:
  assumes "x = CORE_INT \<or> x = CORE_FLOAT \<or> x = CORE_SCIENTIFIC"
  shows "final CORE_START tok = x \<longleftrightarrow> (\<exists>sg\<in>opt_sign. \<exists>b. tok = sg @ b \<and> final CORE_S1 b = x)"
proof (cases tok)
  case (Cons c cs)
  then show ?thesis
    using assms by (auto simp: opt_sign_def next_state_eqs)
qed (use assms in \<open>auto simp: opt_sign_def\<close>)

lemma sci_lit_alt:
  "sci_lit tok \<longleftrightarrow> (\<exists>sg\<in>opt_sign. \<exists>ds fs ex. tok = sg @ ds @ 0x2E # fs @ ex
     \<and> digits ds \<and> digits fs \<and> exponent ex)"
proof
  assume "sci_lit tok"
  then obtain sg ds fs ex where "tok = (sg @ ds @ 0x2E # fs) @ ex" "sg \<in> opt_sign" "digits ds" "digits fs" "exponent ex"
    by (auto simp: sci_lit_def float_lit_def)
  then show "\<exists>sg\<in>opt_sign. \<exists>ds fs ex. tok = sg @ ds @ 0x2E # fs @ ex \<and> digits ds \<and> digits fs \<and> exponent ex"
    by (metis append.assoc append_Cons)
next
  assume "\<exists>sg\<in>opt_sign. \<exists>ds fs ex. tok = sg @ ds @ 0x2E # fs @ ex \<and> digits ds \<and> digits fs \<and> exponent ex"
  then obtain sg ds fs ex where "tok = (sg @ ds @ 0x2E # fs) @ ex" "sg \<in> opt_sign" "digits ds" "digits fs" "exponent ex"
    by auto
  then show "sci_lit tok" unfolding sci_lit_def float_lit_def by blast
qed

text \<open>The three kinds of number, and nothing else, end in their state.\<close>

lemma classify:
  "final CORE_START tok = CORE_INT \<longleftrightarrow> int_lit tok"
  "final CORE_START tok = CORE_FLOAT \<longleftrightarrow> float_lit tok"
  "final CORE_START tok = CORE_SCIENTIFIC \<longleftrightarrow> sci_lit tok"
  unfolding sci_lit_alt by (simp_all add: final_START final_S1 int_lit_def float_lit_def) blast+


text \<open>Scientific notation, with or without a point, and what becomes of a number that has an exponent but no point.\<close>

definition sci_num :: "u8 list \<Rightarrow> bool" where
  "sci_num tok \<longleftrightarrow> (\<exists>f ex. tok = f @ ex \<and> (int_lit f \<or> float_lit f) \<and> exponent ex)"

lemma digits_point: "digits ds \<Longrightarrow> c \<in> set ds \<Longrightarrow> ee_isdigit c"
  by (simp add: digits_def list_all_iff)

lemma point_in_lit:
  "float_lit f \<Longrightarrow> 0x2E \<in> set f" "int_lit f \<Longrightarrow> 0x2E \<notin> set f" "exponent ex \<Longrightarrow> 0x2E \<notin> set ex"
  by (auto simp: float_lit_def int_lit_def exponent_def opt_sign_def dest: digits_point)

lemma sci_lit_point: "sci_lit tok \<longleftrightarrow> sci_num tok \<and> 0x2E \<in> set tok"
  unfolding sci_lit_def sci_num_def using point_in_lit by (metis UnE UnCI set_append)

lemma scan_digits: "digits ds \<Longrightarrow> scan CORE_INT (ds @ cs) = (fst (scan CORE_INT cs), length ds + snd (scan CORE_INT cs))"
  by (induction ds) (auto simp: next_state_eqs ee_isdigit_def split_beta)

lemma scan_pointless:
  assumes "sg \<in> opt_sign" and "ds \<noteq> []" and "digits ds" and "e = 0x45 \<or> e = 0x65"
  shows "scan CORE_START (sg @ ds @ e # cs) = (CORE_INVALID, Suc (length (sg @ ds)))"
proof -
  obtain d ds' where ds: "ds = d # ds'" using assms(2) by (cases ds) auto
  then have d: "ee_isdigit d" "digits ds'" using assms(3) by simp_all
  have "scan CORE_INT (e # cs) = (CORE_INVALID, 1)" using assms(4) by (cases cs) (auto simp: next_state_eqs)
  with scan_digits [OF d(2), of "e # cs"] have "scan CORE_INT (ds' @ e # cs) = (CORE_INVALID, Suc (length ds'))" by simp
  then show ?thesis using assms(1) d(1) by (auto simp: ds opt_sign_def next_state_eqs)
qed

text \<open>The length up to the letter of the exponent, inclusive.\<close>

definition through_e :: "u8 list \<Rightarrow> nat" where
  "through_e tok = Suc (length (takeWhile (\<lambda>c. c \<noteq> 0x45 \<and> c \<noteq> 0x65) tok))"

lemma pointless_scan:
  assumes "sci_num tok" and "0x2E \<notin> set tok"
  shows "scan CORE_START tok = (CORE_INVALID, through_e tok)"
proof -
  from assms obtain f ex where f: "tok = f @ ex" "int_lit f" "exponent ex" using point_in_lit(1) by (auto simp: sci_num_def)
  then obtain sg ds e cs where t: "f = sg @ ds" "sg \<in> opt_sign" "ds \<noteq> []" "digits ds" "ex = e # cs" "e = 0x45 \<or> e = 0x65"
    by (auto simp: int_lit_def exponent_def)
  have "c \<noteq> 0x45 \<and> c \<noteq> 0x65" if "c \<in> set f" for c
    using that t(2,4) by (auto simp: t(1) opt_sign_def digits_def list_all_iff ee_isdigit_def)
  then have "takeWhile (\<lambda>c. c \<noteq> 0x45 \<and> c \<noteq> 0x65) tok = f" using t(6) by (auto simp: f(1) t(5) takeWhile_append)
  then show ?thesis using scan_pointless [OF t(2,3,4,6), of cs] by (simp add: through_e_def f(1) t(1,5))
qed

section \<open>The initial contents\<close>

lemma copy_pat_result:
  "i \<le> next \<Longrightarrow> unat next \<le> length buf \<Longrightarrow> unat tot + unat next \<le> length m \<Longrightarrow>
     copy_pat i next buf tot m = Some (next, put_at m (unat tot + unat i) (drop (unat i) (take (unat next) buf)))"
proof (induction i "next" buf tot m rule: copy_pat.induct)
  case (1 i "next" buf tot m)
  show ?case
  proof (cases "i < next")
    case True
    have i: "unat i < unat next" "unat (i + 1) = Suc (unat i)" "i + 1 \<le> next"
      using True by (auto simp: word_less_nat_alt unat_count word_le_nat_alt)
    have d: "drop (unat i) (take (unat next) buf) = buf ! unat i # drop (Suc (unat i)) (take (unat next) buf)"
      using i(1) "1.prems" by (simp add: Cons_nth_drop_Suc [symmetric])
    have "copy_pat (i + 1) next buf tot (m[unat tot + unat i := buf ! unat i])
        = Some (next, put_at m (unat tot + unat i) (drop (unat i) (take (unat next) buf)))"
      using "1.IH" [OF True, of "buf ! unat i" "m[unat tot + unat i := buf ! unat i]"] "1.prems" i
      by (simp add: d put_at_update)
    then show ?thesis
      using True i "1.prems" by (subst copy_pat.simps) simp
  next
    case False
    with "1.prems" show ?thesis by (subst copy_pat.simps) simp
  qed
qed

lemma zero_fill_result:
  "tot \<le> sz \<Longrightarrow> unat sz \<le> length m \<Longrightarrow>
     zero_fill tot sz m = Some (put_at m (unat tot) (replicate (unat sz - unat tot) 0))"
proof (induction tot sz m rule: zero_fill.induct)
  case (1 tot sz m)
  show ?case
  proof (cases "tot < sz")
    case True
    have i: "unat tot < unat sz" "unat (tot + 1) = Suc (unat tot)" "tot + 1 \<le> sz"
      using True by (auto simp: word_less_nat_alt unat_count word_le_nat_alt)
    then have r: "replicate (unat sz - unat tot) (0 :: u8) = 0 # replicate (unat sz - Suc (unat tot)) 0"
      by (simp add: Suc_diff_Suc flip: replicate_Suc)
    have "zero_fill (tot + 1) sz (m[unat tot := 0])
        = Some (put_at m (unat tot) (replicate (unat sz - unat tot) 0))"
      using "1.IH" [OF True, of "m[unat tot := 0]"] "1.prems" i by (simp add: r put_at_update)
    then show ?thesis
      using True i "1.prems" by (subst zero_fill.simps) simp
  next
    case False
    with "1.prems" show ?thesis by (subst zero_fill.simps) simp
  qed
qed

text \<open>The patterns that fit below \<open>lim\<close>, each followed by a comma.\<close>

function state_text :: "nat \<Rightarrow> nat \<Rightarrow> s16 \<Rightarrow> u8 list" where
  "state_text lim n seed =
     (let w = fst (pick seed)
      in if n + length w + 1 < lim then w @ [0x2C] @ state_text lim (n + length w + 1) (seed + 1) else [])"
  by pat_completeness auto

termination state_text
  by (relation "measure (\<lambda>(lim, n, s). lim - n)") auto

declare state_text.simps [simp del]

lemma pick_length: "unat (snd (pick seed)) = length (fst (pick seed)) \<and> 0 < length (fst (pick seed))
    \<and> length (fst (pick seed)) \<le> 8"
proof -
  have "drop_bit 3 seed AND 0x3 \<le> 0x3" by (rule word_and_le1)
  then have j: "unat (drop_bit 3 seed AND 0x3) < 4" by (simp add: word_le_nat_alt)
  have "\<forall>j<4. \<forall>xs\<in>{intpat ! j, floatpat ! j, scipat ! j, errpat ! j}. xs \<noteq> []"
    "\<forall>j<4. length (intpat ! j) = 4 \<and> length (floatpat ! j) = 8 \<and> length (scipat ! j) = 8 \<and> length (errpat ! j) = 8"
    by (auto simp: less_Suc_eq numeral_eq_Suc intpat_def floatpat_def scipat_def errpat_def bytes_def)
  note this [rule_format, OF j]
  then show ?thesis by (simp add: pick_def Let_def)
qed

lemma length_state_text: "state_text lim n seed = [] \<or> n + length (state_text lim n seed) < lim"
proof (induction lim n seed rule: state_text.induct)
  case (1 lim n seed)
  then show ?case by (subst (1 2) state_text.simps) (auto simp: Let_def)
qed

lemma init_loop_result:
  assumes "unat lim + 10 < 2 ^ 32"
  shows "unat lim \<le> length m \<Longrightarrow> n = unat tot \<Longrightarrow> n \<le> unat lim \<Longrightarrow> pick seed = (buf, next) \<Longrightarrow>
    init_loop lim tot next buf seed m
      = Some (tot + of_nat (length (state_text (unat lim) n seed)), put_at m n (state_text (unat lim) n seed))"
proof (induction "unat lim" n seed arbitrary: m tot buf "next" rule: state_text.induct)
  case (1 n seed)
  have p: "unat next = length buf" "0 < length buf" "length buf \<le> 8"
    using pick_length [of seed] "1.prems"(4) by auto
  have sum: "unat (tot + next + 1) = n + length buf + 1" "unat (tot + (next + 1)) = n + length buf + 1"
    using assms p "1.prems"(2,3) by (simp_all add: unat_word_ariths)
  show ?case
  proof (cases "n + length buf + 1 < unat lim")
    case True
    have less: "tot + next + 1 < lim" using True sum by (simp add: word_less_nat_alt)
    have pos: "0 < next" using p by (simp add: word_less_nat_alt)
    have copy: "copy_pat 0 next buf tot m = Some (next, put_at m n buf)"
      using copy_pat_result [of 0 "next" buf tot m] p True "1.prems" by simp
    have comma: "arr_set (put_at m n buf) (unat tot + unat next) 0x2C = Some (put_at m n (buf @ [0x2C]))"
      using True p "1.prems" put_at_put_at [of n buf m "[0x2C]"]
      by (simp add: length_put_at) (simp add: put_at_def list_update_append min_def Cons_nth_drop_Suc [symmetric])
    obtain buf1 next1 where pick1: "pick (seed + 1) = (buf1, next1)" by fastforce
    have loop: "init_loop lim (tot + (next + 1)) next1 buf1 (seed + 1) (put_at m n (buf @ [0x2C]))
       = Some (tot + (next + 1) + of_nat (length (state_text (unat lim) (n + length buf + 1) (seed + 1))),
           put_at (put_at m n (buf @ [0x2C])) (n + length buf + 1) (state_text (unat lim) (n + length buf + 1) (seed + 1)))"
      using "1.prems" True pick1 sum
      by (intro "1.hyps") (simp_all add: length_put_at)
    have text_eq: "state_text (unat lim) n seed = (buf @ [0x2C]) @ state_text (unat lim) (n + length buf + 1) (seed + 1)"
      using True "1.prems"(4) by (subst state_text.simps) simp
    have "of_nat (length buf) = next" unfolding p(1) [symmetric] by simp
    then show ?thesis
      using less pos put_at_put_at [of n "buf @ [0x2C]" m] True "1.prems"(1)
      by (subst init_loop.simps) (simp add: copy comma pick1 loop text_eq add.assoc)
  next
    case False
    then have "state_text (unat lim) n seed = []" "\<not> tot + next + 1 < lim"
      using "1.prems"(4) sum by (auto simp: state_text.simps word_less_nat_alt)
    then show ?thesis by (subst init_loop.simps) simp
  qed
qed


text \<open>The block as \<open>core_init_state\<close> leaves it.\<close>

definition state_block :: "nat \<Rightarrow> s16 \<Rightarrow> u8 list" where
  "state_block sz seed = (let txt = state_text (sz - 1) 0 (seed + 1) in txt @ replicate (sz - length txt) 0)"

lemma length_state_block: "0 < sz \<Longrightarrow> length (state_block sz seed) = sz"
  using length_state_text [of "sz - 1" 0 "seed + 1"] by (auto simp: state_block_def Let_def)

lemma core_init_state_result:
  assumes "0 < sz" and "unat sz \<le> length m" and "unat sz + 10 < 2 ^ 32"
  shows "core_init_state sz seed m = Some (put_at m 0 (state_block (unat sz) seed))"
proof -
  define lim where "lim = sz - 1"
  have lim: "unat lim = unat sz - 1" "lim + 1 = sz"
    using assms(1) by (simp_all add: lim_def unat_minus_one word_gt_0)
  obtain buf "next" where p: "pick (seed + 1) = (buf, next)" by fastforce
  let ?txt = "state_text (unat lim) 0 (seed + 1)"
  have len: "?txt = [] \<or> length ?txt < unat lim" using length_state_text [of "unat lim" 0] by simp
  have loop: "init_loop lim 0 0 [] seed m = Some (of_nat (length ?txt), put_at m 0 ?txt)"
  proof (cases "1 < lim")
    case True
    then show ?thesis
      using init_loop_result [of lim m 0 0 "seed + 1" buf "next"] assms lim p
      by (subst init_loop.simps) simp
  next
    case False
    then have "unat lim \<le> 1" by (simp add: word_less_nat_alt)
    then have "?txt = []" by (subst state_text.simps) (simp add: Let_def)
    then show ?thesis using False by (subst init_loop.simps) simp
  qed
  have small: "length ?txt \<le> unat sz" "length ?txt < 2 ^ 32" using len lim assms(3) by auto
  then have nat: "unat (of_nat (length ?txt) :: u32) = length ?txt"
    by (simp add: unat_of_nat take_bit_nat_eq_self)
  have "zero_fill (of_nat (length ?txt)) sz (put_at m 0 ?txt)
      = Some (put_at (put_at m 0 ?txt) (length ?txt) (replicate (unat sz - length ?txt) 0))"
    using zero_fill_result [of "of_nat (length ?txt)" sz "put_at m 0 ?txt"] small assms(2)
    by (simp add: nat word_le_nat_alt length_put_at)
  then show ?thesis
    using put_at_put_at [of 0 ?txt m] small assms(2) lim
    by (simp add: core_init_state_def lim_def [symmetric] loop state_block_def Let_def)
qed


section \<open>The benchmark stays inside its block\<close>

text \<open>With a zero byte at \<open>k\<close>, nothing after \<open>k\<close> is read and the scan ends.\<close>

lemma transition_loop_stops:
  "k < length m \<Longrightarrow> m ! k = 0 \<Longrightarrow> str \<le> k \<Longrightarrow>
     \<exists>q s1 t1. transition_loop m str s t = Some (q, s1, t1) \<and> q \<le> k"
proof (induction m str s t rule: transition_loop.induct)
  case (1 m str s t)
  obtain s1 t1 where st: "transition s (m ! str) t = (s1, t1)" by fastforce
  show ?case
  proof (cases "m ! str \<noteq> 0 \<and> s \<noteq> CORE_INVALID \<and> m ! str \<noteq> 0x2C")
    case True
    then have "str < k" using "1.prems" by (metis le_neq_implies_less)
    then show ?thesis
      using "1.IH" [of "m ! str" "(s1, t1)" s1 t1] "1.prems" True st
      by (subst transition_loop.simps) simp
  next
    case False
    moreover have "m ! str = 0x2C \<Longrightarrow> str \<noteq> k" using "1.prems"(2) by auto
    ultimately show ?thesis
      using "1.prems" by (subst transition_loop.simps) (auto simp: Suc_le_eq le_neq_implies_less)
  qed
qed

lemma scan_loop_stops:
  "k < length m \<Longrightarrow> m ! k = 0 \<Longrightarrow> p \<le> k \<Longrightarrow> \<exists>f1 t1. scan_loop m p f t = Some (f1, t1)"
proof (induction m p f t rule: scan_loop.induct)
  case (1 m p f t)
  show ?case
  proof (cases "m ! p = 0")
    case True
    with "1.prems" show ?thesis by (subst scan_loop.simps) simp
  next
    case False
    obtain q s1 t1 where q: "core_state_transition m p t = Some (q, s1, t1)" "q \<le> k"
      unfolding core_state_transition_def using transition_loop_stops [OF "1.prems"] by blast
    then show ?thesis
      using "1.IH" [of "m ! p" "(q, s1, t1)" q "(s1, t1)" s1 t1] "1.prems" False
      by (subst scan_loop.simps) simp
  qed
qed

definition flip :: "s16 \<Rightarrow> u8 \<Rightarrow> u8" where
  "flip seed c = (if c = 0x2C then c else c XOR ucast seed)"

text \<open>The block after one pass: every \<open>st\<close>-th byte from \<open>p\<close> on is flipped.\<close>

definition corrupted :: "nat \<Rightarrow> s16 \<Rightarrow> nat \<Rightarrow> nat \<Rightarrow> u8 list \<Rightarrow> u8 list" where
  "corrupted n seed st p m = map (\<lambda>i. if p \<le> i \<and> i < n \<and> (i - p) mod st = 0 then flip seed (m ! i) else m ! i)
     [0..<length m]"

lemma corrupted_step:
  assumes "p < n" and "n \<le> length m" and "0 < st"
  shows "corrupted n seed st (p + st) (m[p := flip seed (m ! p)]) = corrupted n seed st p m"
proof (rule nth_equalityI)
  fix i assume i: "i < length (corrupted n seed st (p + st) (m[p := flip seed (m ! p)]))"
  consider "i = p" | "i < p" | "p < i" "i < p + st" | "p + st \<le> i" by linarith
  then show "corrupted n seed st (p + st) (m[p := flip seed (m ! p)]) ! i = corrupted n seed st p m ! i"
    using i assms by cases (simp_all add: corrupted_def le_mod_geq)
qed (simp add: corrupted_def)

lemma corrupt_loop_result:
  assumes "0 < sint step" and "unat blksize \<le> length m"
  shows "corrupt_loop blksize seed step (int p) m
    = Some (corrupted (unat blksize) seed (nat (sint step)) p m)"
  using assms(2)
proof (induction "unat blksize - p" arbitrary: p m rule: less_induct)
  case less
  let ?n = "unat blksize" and ?st = "nat (sint step)"
  have bound: "int p < uint blksize \<longleftrightarrow> p < ?n"
    by (metis of_nat_less_iff of_nat_unat)
  have same: "m ! p = 0x2C \<Longrightarrow> m[p := 0x2C] = m" by (metis list_update_id)
  show ?case
  proof (cases "p < ?n")
    case True
    have "corrupt_loop blksize seed step (int (p + ?st)) (m[p := flip seed (m ! p)])
        = Some (corrupted ?n seed ?st (p + ?st) (m[p := flip seed (m ! p)]))"
      using less.prems True assms(1) by (intro less.hyps) auto
    moreover have "int (p + ?st) = int p + sint step" using assms(1) by simp
    ultimately show ?thesis
      using True less.prems assms(1) corrupted_step [of p ?n m ?st seed]
      by (subst corrupt_loop.simps) (auto simp: flip_def bound same)
  next
    case False
    then have "corrupted ?n seed ?st p m = m" by (intro nth_equalityI) (auto simp: corrupted_def)
    with False show ?thesis by (subst corrupt_loop.simps) (simp add: bound)
  qed
qed

lemma corrupt_loop_0:
  "0 < sint step \<Longrightarrow> unat blksize \<le> length m \<Longrightarrow>
     corrupt_loop blksize seed step 0 m = Some (corrupted (unat blksize) seed (nat (sint step)) 0 m)"
  using corrupt_loop_result [of step blksize m seed 0] by simp

lemma length_corrupted [simp]: "length (corrupted n seed st p m) = length m"
  by (simp add: corrupted_def)

lemma nth_corrupted:
  "i < length m \<Longrightarrow> corrupted n seed st 0 m ! i = (if i < n \<and> i mod st = 0 then flip seed (m ! i) else m ! i)"
  by (simp add: corrupted_def)

text \<open>Two zero bytes side by side: a stride of two or more misses one of them.\<close>

lemma corrupted_keeps_zero:
  assumes "Suc k < length m" and "m ! k = 0" and "m ! Suc k = 0" and "2 \<le> st"
  obtains j where "j < length m" "corrupted n seed st 0 m ! j = 0"
proof (cases "k mod st = 0")
  case True
  then have "Suc k mod st \<noteq> 0" using assms(4) by (simp add: mod_Suc)
  then show thesis using that [of "Suc k"] assms by (simp add: nth_corrupted)
next
  case False
  then show thesis using that [of k] assms by (simp add: nth_corrupted)
qed

lemma core_bench_state_runs:
  assumes "Suc k < unat blksize" and "unat blksize \<le> length m" and "m ! k = 0" and "m ! Suc k = 0"
    and "2 \<le> sint step"
  shows "\<exists>crc'. core_bench_state blksize m seed1 seed2 step crc = Some (crc',
    corrupted (unat blksize) seed2 (nat (sint step)) 0 (corrupted (unat blksize) seed1 (nat (sint step)) 0 m))"
proof -
  let ?m1 = "corrupted (unat blksize) seed1 (nat (sint step)) 0 m"
  have st: "0 < sint step" "2 \<le> nat (sint step)" and k: "k < length m" "Suc k < length m" using assms by auto
  obtain f1 t1 where s1: "scan_loop m 0 (\<lambda>_. 0) (\<lambda>_. 0) = Some (f1, t1)"
    using scan_loop_stops [OF k(1) assms(3)] by blast
  obtain j where "j < length ?m1" "?m1 ! j = 0"
    using corrupted_keeps_zero [OF k(2) assms(3,4) st(2)] by (metis length_corrupted)
  then obtain f2 t2 where s2: "scan_loop ?m1 0 f1 t1 = Some (f2, t2)"
    using scan_loop_stops [of j ?m1 0] by blast
  show ?thesis
    using assms(2) by (simp add: core_bench_state_def s1 s2 corrupt_loop_0 [OF st(1)])
qed

lemma flip_flip: "flip s (flip s c) = c \<longleftrightarrow> c = 0x2C \<or> c XOR ucast s \<noteq> 0x2C"
  by (auto simp: flip_def xor.assoc)

lemma corrupted_twice:
  assumes "n \<le> length m"
  shows "corrupted n s st 0 (corrupted n s st 0 m) = m
    \<longleftrightarrow> (\<forall>i<n. i mod st = 0 \<longrightarrow> m ! i = 0x2C \<or> m ! i XOR ucast s \<noteq> 0x2C)"
  using assms by (auto simp: list_eq_iff_nth_eq nth_corrupted flip_flip)

lemma state_block_zeros:
  assumes "2 \<le> sz"
  shows "state_block sz seed ! (sz - 2) = 0 \<and> state_block sz seed ! (sz - 1) = 0"
  using assms length_state_text [of "sz - 1" 0 "seed + 1"]
  by (auto simp: state_block_def Let_def nth_append)


lemma scan_all: "fst (scan s tok) \<noteq> CORE_INVALID \<Longrightarrow> snd (scan s tok) = length tok"
  by (induction s tok rule: scan.induct) (auto simp: split_beta split: if_splits)

text \<open>The bytes of the initial block.\<close>

definition pattern_bytes :: "u8 list" where
  "pattern_bytes = concat (intpat @ floatpat @ scipat @ errpat) @ [0x2C, 0]"

lemma pick_bytes: "set (fst (pick seed)) \<subseteq> set pattern_bytes"
proof -
  have "drop_bit 3 seed AND 0x3 \<le> 0x3" by (rule word_and_le1)
  then have "unat (drop_bit 3 seed AND 0x3) < 4" by (simp add: word_le_nat_alt)
  then have "fst (pick seed) \<in> set (intpat @ floatpat @ scipat @ errpat)"
    by (auto simp: pick_def Let_def intpat_def floatpat_def scipat_def errpat_def less_Suc_eq numeral_eq_Suc)
  then show ?thesis by (auto simp: pattern_bytes_def)
qed

lemma state_text_bytes: "set (state_text lim n seed) \<subseteq> set pattern_bytes"
proof (induction lim n seed rule: state_text.induct)
  case (1 lim n seed)
  have "0x2C \<in> set pattern_bytes" by (simp add: pattern_bytes_def)
  with 1 pick_bytes [of seed] show ?case by (subst state_text.simps) (auto simp: Let_def)
qed

lemma state_block_bytes: "set (state_block sz seed) \<subseteq> set pattern_bytes"
  using state_text_bytes by (fastforce simp: state_block_def Let_def pattern_bytes_def)

section \<open>Properties\<close>

text \<open>C30: On a token that a comma or a zero byte ends, \<open>core_state_transition\<close> returns CORE_INT exactly for an integer,
  CORE_FLOAT exactly for a number with a point (which may stand alone), and CORE_SCIENTIFIC exactly for a number in
  scientific notation that has a point. A number in scientific notation without a point, such as the entry \<open>-87e+832\<close> of \<open>scipat\<close>,
  is not recognised: it is invalid, and the scan stops right behind the letter of its exponent. For every valid
  or unfinished token the pointer is left after the token and its comma.\<close>

theorem core_state_transition_classifies:
  assumes "list_all in_token tok" and "d = 0 \<or> d = 0x2C"
  shows "\<exists>q st t1. core_state_transition (pre @ tok @ d # rest) (length pre) t = Some (q, st, t1)
    \<and> (st = CORE_INT \<longleftrightarrow> int_lit tok) \<and> (st = CORE_FLOAT \<longleftrightarrow> float_lit tok)
    \<and> (st = CORE_SCIENTIFIC \<longleftrightarrow> sci_num tok \<and> 0x2E \<in> set tok)
    \<and> (sci_num tok \<and> 0x2E \<notin> set tok \<longrightarrow> st = CORE_INVALID \<and> q = length pre + through_e tok)
    \<and> (st = CORE_INVALID \<or> q = length pre + length tok + (if d = 0x2C then 1 else 0))"
proof -
  obtain t1 where "core_state_transition (pre @ tok @ d # rest) (length pre) t =
    Some (length pre + snd (scan CORE_START tok)
        + (if fst (scan CORE_START tok) \<noteq> CORE_INVALID \<and> d = 0x2C then 1 else 0), fst (scan CORE_START tok), t1)"
    unfolding core_state_transition_def using transition_loop_scan [OF assms] by blast
  then show ?thesis
    using scan_all [of CORE_START tok] classify [of tok, unfolded final_def sci_lit_point] pointless_scan [of tok] by auto
qed

text \<open>Two entries of \<open>scipat\<close>: \<open>5.500e+3\<close> is recognised, \<open>-87e+832\<close> is not, and the scan of it stops inside it.\<close>

lemma lit_intros:
  "sg \<in> opt_sign \<Longrightarrow> digits ds \<Longrightarrow> digits fs \<Longrightarrow> float_lit (sg @ ds @ 0x2E # fs)"
  "sg \<in> opt_sign \<Longrightarrow> ds \<noteq> [] \<Longrightarrow> digits ds \<Longrightarrow> int_lit (sg @ ds)"
  by (auto simp: float_lit_def int_lit_def)

lemma sci_examples:
  "sci_num (bytes ''5.500e+3'')" "sci_num (bytes ''-87e+832'')" "0x2E \<in> set (bytes ''5.500e+3'')" "0x2E \<notin> set (bytes ''-87e+832'')"
  "through_e (bytes ''-87e+832'') = 4"
proof -
  have "bytes ''5.500e+3'' = bytes ''5.500'' @ bytes ''e+3''" "bytes ''-87e+832'' = bytes ''-87'' @ bytes ''e+832''" by (simp_all add: bytes_def)
  moreover have "exponent (bytes ''e+3'')" "exponent (bytes ''e+832'')" by (simp_all add: bytes_def exponent_def ee_isdigit_def)
  moreover have "bytes ''5.500'' = [] @ [0x35] @ 0x2E # [0x35, 0x30, 0x30]" "bytes ''-87'' = [0x2D] @ [0x38, 0x37]"
    by (simp_all add: bytes_def)
  then have "float_lit (bytes ''5.500'')" "int_lit (bytes ''-87'')"
    using lit_intros(1) [of "[]" "[0x35]" "[0x35, 0x30, 0x30]"] lit_intros(2) [of "[0x2D]" "[0x38, 0x37]"]
    by (simp_all add: opt_sign_def ee_isdigit_def)
  ultimately show "sci_num (bytes ''5.500e+3'')" "sci_num (bytes ''-87e+832'')" unfolding sci_num_def by metis+
qed (simp_all add: bytes_def through_e_def)

lemma core_state_transition_classifies_witness:
  "(\<exists>q t1. core_state_transition ([] @ bytes ''5.500e+3'' @ 0x2C # []) (length ([] :: u8 list)) (\<lambda>_. 0) = Some (q, CORE_SCIENTIFIC, t1))
    \<and> (\<exists>t1. core_state_transition ([] @ bytes ''-87e+832'' @ 0x2C # []) (length ([] :: u8 list)) (\<lambda>_. 0) = Some (4, CORE_INVALID, t1))"
proof -
  have t: "list_all in_token (bytes ''5.500e+3'')" "list_all in_token (bytes ''-87e+832'')" by (simp_all add: bytes_def in_token_def)
  have c: "(0x2C :: u8) = 0 \<or> (0x2C :: u8) = 0x2C" by simp
  show ?thesis
    using core_state_transition_classifies [OF t(1) c, of "[]" "[]" "\<lambda>_. 0"] core_state_transition_classifies [OF t(2) c, of "[]" "[]" "\<lambda>_. 0"]
    by (auto simp: sci_examples)
qed

text \<open>A character that no number can start with makes \<open>core_state_transition\<close> stop right
  after that character, inside the token, whatever follows it.\<close>

theorem core_state_transition_invalid_start:
  assumes "next_state CORE_START c = CORE_INVALID" and "in_token c"
  shows "core_state_transition (pre @ c # d # rest) (length pre) t
    = Some (length pre + 1, CORE_INVALID, bump CORE_START (bump CORE_INVALID t))"
proof -
  have "transition CORE_START c t = (CORE_INVALID, bump CORE_START (bump CORE_INVALID t))"
    using assms(1) by (auto simp: transition_def next_state_eqs split: if_splits)
  then show ?thesis
    using assms(2) unfolding core_state_transition_def
    by (simp add: transition_loop.simps [of _ "length pre"] transition_loop.simps [of _ "Suc (length pre)"]
        in_token_def nth_append)
qed

lemma core_state_transition_invalid_start_witness:
  "core_state_transition (bytes ''T0.3e-1F,'' @ [0]) 0 (\<lambda>_. 0)
    = Some (1, CORE_INVALID, bump CORE_START (bump CORE_INVALID (\<lambda>_. 0)))"
  using core_state_transition_invalid_start [where c = "0x54" and pre = "[]" and d = "0x30"
    and rest = "bytes ''.3e-1F,'' @ [0]" and t = "\<lambda>_. 0"]
  by (simp add: bytes_def in_token_def next_state_eqs ee_isdigit_def)

text \<open>\<open>core_init_state\<close> writes exactly its block: the patterns that fit, each followed by a
  comma, then zero bytes to the end, and it ends in at least two zero bytes.\<close>

theorem core_init_state_block:
  assumes "2 \<le> sz" and "unat sz \<le> length m" and "unat sz + 10 < 2 ^ 32"
  shows "core_init_state sz seed m = Some (state_block (unat sz) seed @ drop (unat sz) m)
    \<and> length (state_block (unat sz) seed) = unat sz
    \<and> drop (unat sz - 2) (state_block (unat sz) seed) = [0, 0]"
proof -
  have pos: "0 < sz" "2 \<le> unat sz" using assms(1) by (auto simp: word_le_nat_alt word_less_nat_alt)
  let ?b = "state_block (unat sz) seed"
  have len: "length ?b = unat sz" using pos by (intro length_state_block) simp
  moreover have "drop (unat sz - 2) ?b = [0, 0]"
  proof (rule nth_equalityI)
    fix i assume "i < length (drop (unat sz - 2) ?b)"
    then have "i = 0 \<or> i = 1" using len pos by auto
    then show "drop (unat sz - 2) ?b ! i = [0, 0] ! i"
      using state_block_zeros [OF pos(2), of seed] len pos(2) by (auto simp: Suc_diff_Suc numeral_2_eq_2)
  qed (use len pos in simp)
  ultimately show ?thesis
    using core_init_state_result [OF pos(1) assms(2,3), of seed] by (simp add: put_at_def)
qed

lemma core_init_state_block_witness:
  "core_init_state 20 0 (replicate 32 7) = Some (state_block (unat (20 :: u32)) 0 @ drop (unat (20 :: u32)) (replicate 32 7))
    \<and> length (state_block (unat (20 :: u32)) 0) = unat (20 :: u32)
    \<and> drop (unat (20 :: u32) - 2) (state_block (unat (20 :: u32)) 0) = [0, 0]"
  by (rule core_init_state_block) simp_all

text \<open>On a block that \<open>core_init_state\<close> filled, with a stride of at least two,
  \<open>core_bench_state\<close> returns, reads and writes nothing outside the block, and changes no byte
  past it, for any two seeds.\<close>

theorem core_bench_state_safe:
  assumes "core_init_state sz seed m0 = Some m" and "2 \<le> sz" and "unat sz \<le> length m0"
    and "unat sz + 10 < 2 ^ 32" and "2 \<le> sint step"
  shows "\<exists>crc' m'. core_bench_state sz m seed1 seed2 step crc = Some (crc', m')
    \<and> length m' = length m \<and> drop (unat sz) m' = drop (unat sz) m0"
proof -
  have pos: "0 < sz" "2 \<le> unat sz" using assms(2) by (auto simp: word_le_nat_alt word_less_nat_alt)
  let ?b = "state_block (unat sz) seed"
  have m: "m = put_at m0 0 ?b" and len: "length ?b = unat sz"
    using core_init_state_result [OF pos(1) assms(3,4), of seed] assms(1) pos
    by (simp_all add: length_state_block)
  have lm: "length m = length m0" using m len assms(3) by (simp add: length_put_at)
  have k: "m ! (unat sz - 2) = 0" "m ! Suc (unat sz - 2) = 0"
    using state_block_zeros [OF pos(2), of seed] len pos(2) assms(3)
    by (simp_all add: m nth_put_at Suc_diff_Suc numeral_2_eq_2)
  have two: "Suc (unat sz - 2) < unat sz" using pos(2) by simp
  obtain crc' where run: "core_bench_state sz m seed1 seed2 step crc = Some (crc',
      corrupted (unat sz) seed2 (nat (sint step)) 0 (corrupted (unat sz) seed1 (nat (sint step)) 0 m))"
    using core_bench_state_runs [of "unat sz - 2" sz m step seed1 seed2 crc] k lm two assms(3,5) by auto
  have "drop (unat sz) m = drop (unat sz) m0" using m len by (simp add: put_at_def)
  then have rest: "i < length m0 \<Longrightarrow> \<not> i < unat sz \<Longrightarrow> m ! i = m0 ! i" for i
    using lm assms(3) by (metis le_add_diff_inverse not_less nth_drop)
  show ?thesis
  proof (intro exI conjI)
    show "core_bench_state sz m seed1 seed2 step crc = Some (crc',
        corrupted (unat sz) seed2 (nat (sint step)) 0 (corrupted (unat sz) seed1 (nat (sint step)) 0 m))"
      by (rule run)
  qed (auto simp: lm nth_corrupted rest intro!: nth_equalityI)
qed

lemma core_bench_state_safe_witness:
  "\<exists>crc' m'. core_bench_state 20 (state_block 20 0 @ replicate 12 7) 0x3415 0x3415 0x22 0 = Some (crc', m')
    \<and> length m' = length (state_block 20 0 @ replicate 12 7)
    \<and> drop (unat (20 :: u32)) m' = drop (unat (20 :: u32)) (replicate 32 7)"
proof (rule core_bench_state_safe)
  show "core_init_state 20 0 (replicate 32 7) = Some (state_block 20 0 @ replicate 12 7)"
    by (simp add: core_init_state_result put_at_def length_state_block)
qed simp_all

text \<open>The second pass of \<open>core_bench_state\<close> undoes the first one when the two seeds are
  equal and no byte it visits is turned into a comma by the first pass, and only then.\<close>

theorem core_bench_state_restores_iff:
  assumes "Suc k < unat blksize" and "unat blksize \<le> length m" and "m ! k = 0" and "m ! Suc k = 0"
    and "2 \<le> sint step"
  shows "(\<exists>crc'. core_bench_state blksize m seed seed step crc = Some (crc', m))
    \<longleftrightarrow> (\<forall>i<unat blksize. i mod nat (sint step) = 0 \<longrightarrow> m ! i = 0x2C \<or> m ! i XOR ucast seed \<noteq> 0x2C)"
  using core_bench_state_runs [OF assms, of seed seed crc] corrupted_twice [OF assms(2), of seed "nat (sint step)"]
  by auto

text \<open>A block that starts with 5 and the seed 0x19: the first byte becomes a comma and stays one.\<close>

lemma core_bench_state_restores_iff_witness:
  "(\<exists>crc'. core_bench_state 4 [0x35, 0x2C, 0, 0] 0x19 0x19 2 0 = Some (crc', [0x35, 0x2C, 0, 0]))
    \<longleftrightarrow> (\<forall>i<unat (4 :: u32). i mod nat (sint (2 :: s16)) = 0 \<longrightarrow>
      [0x35, 0x2C, 0, 0] ! i = (0x2C :: u8) \<or> [0x35, 0x2C, 0, 0] ! i XOR ucast (0x19 :: s16) \<noteq> (0x2C :: u8))"
  by (rule core_bench_state_restores_iff [of 2]) simp_all

text \<open>With any of the seeds of CoreMark's standard runs (0, 8 and 0x3415) the two passes of
  \<open>core_bench_state\<close> leave the block that \<open>core_init_state\<close> filled as it was.\<close>

theorem core_bench_state_standard_seeds:
  assumes "core_init_state sz seed m0 = Some m" and "2 \<le> sz" and "unat sz \<le> length m0"
    and "unat sz + 10 < 2 ^ 32" and "2 \<le> sint step" and "s \<in> {0, 8, 0x3415}"
  shows "\<exists>crc'. core_bench_state sz m s s step crc = Some (crc', m)"
proof -
  have pos: "0 < sz" "2 \<le> unat sz" "Suc (unat sz - 2) < unat sz"
    using assms(2) by (auto simp: word_le_nat_alt word_less_nat_alt)
  let ?b = "state_block (unat sz) seed"
  have m: "m = ?b @ drop (unat sz) m0" and len: "length ?b = unat sz"
    using core_init_state_result [OF pos(1) assms(3,4), of seed] assms(1) pos
    by (simp_all add: length_state_block put_at_def)
  have k: "m ! (unat sz - 2) = 0" "m ! Suc (unat sz - 2) = 0"
    using state_block_zeros [OF pos(2), of seed] len pos
    by (simp_all add: m nth_append Suc_diff_Suc numeral_2_eq_2)
  have ok: "\<forall>c\<in>set pattern_bytes. c = 0x2C \<or> c XOR ucast s \<noteq> 0x2C"
    using assms(6) by (auto simp: pattern_bytes_def intpat_def floatpat_def scipat_def errpat_def bytes_def)
  have "m ! i = 0x2C \<or> m ! i XOR ucast s \<noteq> 0x2C" if "i < unat sz" for i
  proof -
    have "m ! i \<in> set ?b" using that len by (simp add: m nth_append)
    then show ?thesis using ok state_block_bytes by blast
  qed
  then have "corrupted (unat sz) s (nat (sint step)) 0 (corrupted (unat sz) s (nat (sint step)) 0 m) = m"
    using len assms(3) by (subst corrupted_twice) (auto simp: m)
  then show ?thesis
    using core_bench_state_runs [OF pos(3) _ k assms(5), of s s crc] len m by auto
qed

lemma core_bench_state_standard_seeds_witness:
  "\<exists>crc'. core_bench_state 20 (state_block 20 0 @ replicate 12 7) 0x3415 0x3415 0x22 0
    = Some (crc', state_block 20 0 @ replicate 12 7)"
proof (rule core_bench_state_standard_seeds)
  show "core_init_state 20 0 (replicate 32 7) = Some (state_block 20 0 @ replicate 12 7)"
    by (simp add: core_init_state_result put_at_def length_state_block)
qed simp_all

end
