(* ===== verification/Core_Matrix.thy ===== *)
theory Core_Matrix
  imports Crc "HOL-Library.Signed_Division"
begin

text \<open>
  The matrix benchmark of \<open>sim/sw/coremark/eembc/core_matrix.c\<close>. The three matrices are
  arrays of 16-bit and 32-bit words. A \<open>for\<close> loop over \<open>[0, N)\<close> is \<open>each\<close> over
  \<open>[0..<N]\<close>; the dimension and the indices are natural numbers, since an array of
  \<open>N * N\<close> cells fits the address space and the 32-bit index never wraps. Sums and products
  wrap as the machine's do. An access outside an array is \<open>None\<close>.
\<close>

section \<open>The operations\<close>

definition matrix_clip :: "u32 \<Rightarrow> bool \<Rightarrow> s16" where
  "matrix_clip x y = ucast (if y then x AND 0x0ff else x AND 0x0ffff)"

definition matrix_big :: "s16 \<Rightarrow> s16" where
  "matrix_big x = ucast (0xf000 OR (scast x :: s32))"

definition bit_extract :: "s32 \<Rightarrow> nat \<Rightarrow> nat \<Rightarrow> u32" where
  "bit_extract x lo width = signed_drop_bit lo x AND NOT (push_bit width 0xffffffff)"

definition matrix_add_const :: "nat \<Rightarrow> s16 list \<Rightarrow> s16 \<Rightarrow> s16 list option" where
  "matrix_add_const N A val = each (\<lambda>i. each (\<lambda>j A. do {
     a \<leftarrow> arr_get A (i * N + j);
     arr_set A (i * N + j) (a + val) }) [0..<N]) [0..<N] A"

definition matrix_mul_const :: "nat \<Rightarrow> s32 list \<Rightarrow> s16 list \<Rightarrow> s16 \<Rightarrow> s32 list option" where
  "matrix_mul_const N C A val = each (\<lambda>i. each (\<lambda>j C. do {
     a \<leftarrow> arr_get A (i * N + j);
     arr_set C (i * N + j) (scast a * scast val) }) [0..<N]) [0..<N] C"

definition matrix_mul_vect :: "nat \<Rightarrow> s32 list \<Rightarrow> s16 list \<Rightarrow> s16 list \<Rightarrow> s32 list option" where
  "matrix_mul_vect N C A B = each (\<lambda>i C. do {
     C1 \<leftarrow> arr_set C i 0;
     each (\<lambda>j C. do {
       a \<leftarrow> arr_get A (i * N + j);
       b \<leftarrow> arr_get B j;
       c \<leftarrow> arr_get C i;
       arr_set C i (c + scast a * scast b) }) [0..<N] C1 }) [0..<N] C"

definition matrix_mul_matrix :: "nat \<Rightarrow> s32 list \<Rightarrow> s16 list \<Rightarrow> s16 list \<Rightarrow> s32 list option" where
  "matrix_mul_matrix N C A B = each (\<lambda>i. each (\<lambda>j C. do {
     C1 \<leftarrow> arr_set C (i * N + j) 0;
     each (\<lambda>k C. do {
       a \<leftarrow> arr_get A (i * N + k);
       b \<leftarrow> arr_get B (k * N + j);
       c \<leftarrow> arr_get C (i * N + j);
       arr_set C (i * N + j) (c + scast a * scast b) }) [0..<N] C1 }) [0..<N]) [0..<N] C"

definition matrix_mul_matrix_bitextract :: "nat \<Rightarrow> s32 list \<Rightarrow> s16 list \<Rightarrow> s16 list \<Rightarrow> s32 list option" where
  "matrix_mul_matrix_bitextract N C A B = each (\<lambda>i. each (\<lambda>j C. do {
     C1 \<leftarrow> arr_set C (i * N + j) 0;
     each (\<lambda>k C. do {
       a \<leftarrow> arr_get A (i * N + k);
       b \<leftarrow> arr_get B (k * N + j);
       let tmp = (scast a * scast b :: s32);
       c \<leftarrow> arr_get C (i * N + j);
       arr_set C (i * N + j) (c + bit_extract tmp 2 4 * bit_extract tmp 5 7) }) [0..<N] C1 })
     [0..<N]) [0..<N] C"

record sums =
  tmp :: s32
  prev :: s32
  ret :: s16

definition sum_step :: "s16 \<Rightarrow> s32 \<Rightarrow> sums \<Rightarrow> sums" where
  "sum_step clipval cur s =
     (let tmp1 = tmp s + cur
      in if sint tmp1 > sint clipval
         then \<lparr>tmp = 0, prev = cur, ret = ret s + 10\<rparr>
         else \<lparr>tmp = tmp1, prev = cur, ret = ret s + (if sint cur > sint (prev s) then 1 else 0)\<rparr>)"

definition matrix_sum :: "nat \<Rightarrow> s32 list \<Rightarrow> s16 \<Rightarrow> s16 option" where
  "matrix_sum N C clipval = do {
     s \<leftarrow> each (\<lambda>i. each (\<lambda>j s. do {
         cur \<leftarrow> arr_get C (i * N + j);
         Some (sum_step clipval cur s) }) [0..<N]) [0..<N] \<lparr>tmp = 0, prev = 0, ret = 0\<rparr>;
     Some (ret s) }"

text \<open>The result, and the matrices \<open>C\<close> and \<open>A\<close> afterwards; \<open>B\<close> is only read.\<close>

definition matrix_test :: "nat \<Rightarrow> s32 list \<Rightarrow> s16 list \<Rightarrow> s16 list \<Rightarrow> s16 \<Rightarrow> (s16 \<times> s32 list \<times> s16 list) option" where
  "matrix_test N C A B val = do {
     let clipval = matrix_big val;
     A1 \<leftarrow> matrix_add_const N A val;
     C1 \<leftarrow> matrix_mul_const N C A1 val;
     sum1 \<leftarrow> matrix_sum N C1 clipval;
     let crc1 = crc16 sum1 0;
     C2 \<leftarrow> matrix_mul_vect N C1 A1 B;
     sum2 \<leftarrow> matrix_sum N C2 clipval;
     let crc2 = crc16 sum2 crc1;
     C3 \<leftarrow> matrix_mul_matrix N C2 A1 B;
     sum3 \<leftarrow> matrix_sum N C3 clipval;
     let crc3 = crc16 sum3 crc2;
     C4 \<leftarrow> matrix_mul_matrix_bitextract N C3 A1 B;
     sum4 \<leftarrow> matrix_sum N C4 clipval;
     let crc4 = crc16 sum4 crc3;
     A2 \<leftarrow> matrix_add_const N A1 (- val);
     Some (crc4, C4, A2) }"

definition core_bench_matrix :: "nat \<Rightarrow> s32 list \<Rightarrow> s16 list \<Rightarrow> s16 list \<Rightarrow> s16 \<Rightarrow> u16 \<Rightarrow> (u16 \<times> s32 list \<times> s16 list) option" where
  "core_bench_matrix N C A B seed crc = do {
     (t, C1, A1) \<leftarrow> matrix_test N C A B seed;
     Some (crc16 t crc, C1, A1) }"

section \<open>Initialisation\<close>

text \<open>\<open>align_mem\<close> of \<open>core_portme.h\<close>.\<close>

definition align_mem :: "u32 \<Rightarrow> u32" where
  "align_mem x = 4 + ((x - 1) AND NOT 3)"

record mat_params =
  mN :: u32
  mA :: u32
  mB :: u32
  mC :: u32

text \<open>The search for the dimension: \<open>while (j < blksize)\<close>.\<close>

partial_function (option) dim_loop :: "u32 \<Rightarrow> u32 \<Rightarrow> u32 \<Rightarrow> u32 option" where
  "dim_loop blksize i j =
     (if j < blksize then let i1 = i + 1 in dim_loop blksize i1 (i1 * i1 * 2 * 4) else Some i)"

record fill =
  fseed :: s32
  order :: s32
  fA :: "s16 list"
  fB :: "s16 list"

definition fill_cell :: "nat \<Rightarrow> fill \<Rightarrow> fill option" where
  "fill_cell k s = do {
     let seed1 = (word_of_int (sint (order s * fseed s) smod 65536) :: s32);
     let val1 = matrix_clip (scast (ucast (seed1 + order s) :: s16)) False;
     B1 \<leftarrow> arr_set (fB s) k val1;
     let val2 = matrix_clip (scast (ucast (scast val1 + order s) :: s16)) True;
     A1 \<leftarrow> arr_set (fA s) k val2;
     Some \<lparr>fseed = seed1, order = order s + 1, fA = A1, fB = B1\<rparr> }"

text \<open>
  The dimension, the addresses and the two matrices, written over what their
  memory held before.
\<close>

definition core_init_matrix :: "u32 \<Rightarrow> u32 \<Rightarrow> s32 \<Rightarrow> s16 list \<Rightarrow> s16 list \<Rightarrow> (u32 \<times> mat_params \<times> s16 list \<times> s16 list) option" where
  "core_init_matrix blksize memblk seed A0 B0 = do {
     let seed1 = (if seed = 0 then 1 else seed);
     i \<leftarrow> dim_loop blksize 0 0;
     let N = i - 1;
     let A = align_mem memblk;
     let B = A + 2 * (N * N);
     s \<leftarrow> each (\<lambda>i. each (\<lambda>j. fill_cell (i * unat N + j)) [0..<unat N]) [0..<unat N]
       \<lparr>fseed = seed1, order = 1, fA = A0, fB = B0\<rparr>;
     Some (N, \<lparr>mN = N, mA = A, mB = B, mC = align_mem (B + 2 * (N * N))\<rparr>, fA s, fB s) }"

section \<open>Loops over a grid\<close>

lemma concat_grid: "concat (map (\<lambda>i. map (\<lambda>j. i * N + j) [0..<N]) [0..<M]) = [0..<M * N]"
proof (induction M)
  case (Suc M)
  have "map (\<lambda>j. M * N + j) [0..<N] = [M * N..<M * N + N]"
    using map_add_upt [of "M * N" N] by (simp add: add.commute)
  with Suc show ?case using upt_add_eq_append [of 0 "M * N" N] by (simp add: add.commute)
qed simp

lemma each_map: "each f (map g xs) = each (\<lambda>x. f (g x)) xs"
proof
  show "each f (map g xs) s = each (\<lambda>x. f (g x)) xs s" for s
    by (induction xs arbitrary: s) simp_all
qed

lemma each_grid: "each (\<lambda>i. each (\<lambda>j. f (i * N + j)) [0..<N]) [0..<N] s = each f [0..<N * N] s"
proof -
  have "each (\<lambda>i. each f (map (\<lambda>j. i * N + j) [0..<N])) [0..<N] s = each f [0..<N * N] s"
    unfolding each_concat concat_grid ..
  then show ?thesis by (simp add: each_map)
qed

text \<open>A loop that sets cell \<open>k\<close> from its old value, or from values outside the array.\<close>

lemma each_update:
  assumes "\<And>k ys. k < n \<Longrightarrow> length ys = length xs \<Longrightarrow> ys ! k = xs ! k \<Longrightarrow>
    f k ys = Some (ys[k := g k (xs ! k)])" and "n \<le> length xs"
  shows "each f [0..<n] xs = Some (put_at xs 0 (map (\<lambda>k. g k (xs ! k)) [0..<n]))"
  using assms
proof (induction n)
  case (Suc n)
  let ?ys = "put_at xs 0 (map (\<lambda>k. g k (xs ! k)) [0..<n])"
  have "f n ?ys = Some (?ys[n := g n (xs ! n)])"
    using Suc.prems by (simp add: length_put_at nth_put_at)
  moreover have "?ys[n := g n (xs ! n)] = put_at xs 0 (map (\<lambda>k. g k (xs ! k)) [0..<Suc n])"
    using Suc.prems(2) by (intro nth_equalityI) (auto simp: length_put_at nth_put_at nth_list_update nth_append less_Suc_eq)
  ultimately show ?case
    using Suc by (simp add: each_append)
qed simp

text \<open>A loop that accumulates into one cell.\<close>

lemma each_accumulate:
  fixes g :: "'a \<Rightarrow> 'b::len word"
  assumes "\<And>k ys. k \<in> set ks \<Longrightarrow> length ys = length xs \<Longrightarrow> f k ys = Some (ys[p := ys ! p + g k])"
    and "p < length xs"
  shows "each f ks xs = Some (xs[p := xs ! p + (\<Sum>k\<leftarrow>ks. g k)])"
  using assms
proof (induction ks arbitrary: xs)
  case (Cons k ks)
  then have "each f ks (xs[p := xs ! p + g k]) = Some (xs[p := xs ! p + g k + (\<Sum>k\<leftarrow>ks. g k)])"
    using Cons.IH [of "xs[p := xs ! p + g k]"] by simp
  with Cons.prems show ?case by (simp add: add.assoc)
qed simp


section \<open>What each operation computes\<close>

text \<open>A matrix computed cell by cell, over the first cells of an array.\<close>

definition with_cells :: "nat \<Rightarrow> (nat \<Rightarrow> 'a) \<Rightarrow> 'a list \<Rightarrow> 'a list" where
  "with_cells n g xs = put_at xs 0 (map g [0..<n])"

lemma length_with_cells [simp]: "n \<le> length xs \<Longrightarrow> length (with_cells n g xs) = length xs"
  by (simp add: with_cells_def length_put_at)

lemma nth_with_cells:
  "n \<le> length xs \<Longrightarrow> i < length xs \<Longrightarrow> with_cells n g xs ! i = (if i < n then g i else xs ! i)"
  by (simp add: with_cells_def nth_put_at)

lemma grid_div: "k < N * N \<Longrightarrow> k div N < N" "k < N * N \<Longrightarrow> k mod N < N" "(k div N) * N + k mod N = k"
  for k N :: nat
  by (auto simp: less_mult_imp_div_less) (cases N; simp)

lemma matrix_add_const_result:
  "N * N \<le> length A \<Longrightarrow> matrix_add_const N A val = Some (with_cells (N * N) (\<lambda>k. A ! k + val) A)"
  unfolding matrix_add_const_def
  by (subst each_grid [where f = "\<lambda>k A. do { a \<leftarrow> arr_get A k; arr_set A k (a + val) }"])
    (simp add: with_cells_def each_update [where g = "\<lambda>k a. a + val"])

lemma matrix_mul_const_result:
  assumes "N * N \<le> length A" and "N * N \<le> length C"
  shows "matrix_mul_const N C A val = Some (with_cells (N * N) (\<lambda>k. scast (A ! k) * scast val) C)"
  unfolding matrix_mul_const_def
  by (subst each_grid [where f = "\<lambda>k C. do { a \<leftarrow> arr_get A k; arr_set C k (scast a * scast val) }"])
    (use assms in \<open>simp add: with_cells_def each_update [where g = "\<lambda>k a. scast (A ! k) * scast val"]\<close>)

text \<open>One cell set to zero and then accumulated into.\<close>

lemma dot_cell:
  fixes h :: "'a \<Rightarrow> 'b \<Rightarrow> 'c::len word"
  assumes "p < length C" and "\<forall>k<N. ia k < length A \<and> ib k < length B"
  shows "do { C1 \<leftarrow> arr_set C p 0;
      each (\<lambda>k C. do {
        a \<leftarrow> arr_get A (ia k); b \<leftarrow> arr_get B (ib k); c \<leftarrow> arr_get C p;
        arr_set C p (c + h a b) }) [0..<N] C1 }
    = Some (C[p := \<Sum>k\<leftarrow>[0..<N]. h (A ! ia k) (B ! ib k)])"
proof -
  have "each (\<lambda>k C. do {
        a \<leftarrow> arr_get A (ia k); b \<leftarrow> arr_get B (ib k); c \<leftarrow> arr_get C p;
        arr_set C p (c + h a b) }) [0..<N] (C[p := 0])
      = Some (C[p := 0, p := C[p := 0] ! p + (\<Sum>k\<leftarrow>[0..<N]. h (A ! ia k) (B ! ib k))])"
    using assms by (intro each_accumulate) auto
  with assms(1) show ?thesis by simp
qed

lemma row_index: "i < N \<Longrightarrow> j < N \<Longrightarrow> i * N + j < N * N" for i j N :: nat
  by (metis add.commute add_less_cancel_left less_le_trans mult_Suc mult_le_mono1 Suc_leI)

lemma matrix_mul_vect_result:
  assumes "N * N \<le> length A" and "N \<le> length B" and "N \<le> length C"
  shows "matrix_mul_vect N C A B
    = Some (with_cells N (\<lambda>i. \<Sum>j\<leftarrow>[0..<N]. scast (A ! (i * N + j)) * scast (B ! j)) C)"
  unfolding matrix_mul_vect_def with_cells_def
proof (rule each_update)
  fix i and ys :: "s32 list" assume "i < N" "length ys = length C"
  then show "do { C1 \<leftarrow> arr_set ys i 0;
      each (\<lambda>j C. do {
        a \<leftarrow> arr_get A (i * N + j); b \<leftarrow> arr_get B j; c \<leftarrow> arr_get C i;
        arr_set C i (c + scast a * scast b) }) [0..<N] C1 }
    = Some (ys[i := \<Sum>j\<leftarrow>[0..<N]. scast (A ! (i * N + j)) * scast (B ! j)])"
    using assms row_index [of i N]
    by (intro dot_cell [where h = "\<lambda>a b. scast a * scast b"]) (auto intro: less_le_trans)
qed (use assms in simp)

text \<open>A product of matrices with any 32-bit product \<open>h\<close> of two cells.\<close>

definition mat_product :: "(s16 \<Rightarrow> s16 \<Rightarrow> s32) \<Rightarrow> nat \<Rightarrow> s16 list \<Rightarrow> s16 list \<Rightarrow> nat \<Rightarrow> s32" where
  "mat_product h N A B p = (\<Sum>k\<leftarrow>[0..<N]. h (A ! (p div N * N + k)) (B ! (k * N + p mod N)))"

lemma product_loop:
  assumes "N * N \<le> length A" and "N * N \<le> length B" and "N * N \<le> length C"
  shows "each (\<lambda>i. each (\<lambda>j C. do {
     C1 \<leftarrow> arr_set C (i * N + j) 0;
     each (\<lambda>k C. do {
       a \<leftarrow> arr_get A (i * N + k); b \<leftarrow> arr_get B (k * N + j); c \<leftarrow> arr_get C (i * N + j);
       arr_set C (i * N + j) (c + h a b) }) [0..<N] C1 }) [0..<N]) [0..<N] C
   = Some (with_cells (N * N) (mat_product h N A B) C)"
proof -
  let ?f = "\<lambda>p C. do {
     C1 \<leftarrow> arr_set C p 0;
     each (\<lambda>k C. do {
       a \<leftarrow> arr_get A (p div N * N + k); b \<leftarrow> arr_get B (k * N + p mod N); c \<leftarrow> arr_get C p;
       arr_set C p (c + h a b) }) [0..<N] C1 }"
  have eq: "each (\<lambda>j C. do {
     C1 \<leftarrow> arr_set C (i * N + j) 0;
     each (\<lambda>k C. do {
       a \<leftarrow> arr_get A (i * N + k); b \<leftarrow> arr_get B (k * N + j); c \<leftarrow> arr_get C (i * N + j);
       arr_set C (i * N + j) (c + h a b) }) [0..<N] C1 }) [0..<N] s
   = each (\<lambda>j. ?f (i * N + j)) [0..<N] s" for i s
    by (rule each_cong) simp
  have "each ?f [0..<N * N] C = Some (with_cells (N * N) (mat_product h N A B) C)"
    unfolding with_cells_def
  proof (rule each_update)
    fix p and ys :: "s32 list" assume p: "p < N * N" and ys: "length ys = length C"
    show "?f p ys = Some (ys[p := mat_product h N A B p])"
      unfolding mat_product_def
    proof (rule dot_cell)
      show "p < length ys" using p ys assms by simp
      show "\<forall>k<N. p div N * N + k < length A \<and> k * N + p mod N < length B"
      proof (intro allI impI)
        fix k assume "k < N"
        then show "p div N * N + k < length A \<and> k * N + p mod N < length B"
          using row_index [OF grid_div(1) [OF p], of k] row_index [OF _ grid_div(2) [OF p], of k] assms(1,2)
          by simp
      qed
    qed
  qed (use assms in simp)
  then show ?thesis unfolding each_grid [symmetric] eq .
qed

lemma matrix_mul_matrix_result:
  assumes "N * N \<le> length A" and "N * N \<le> length B" and "N * N \<le> length C"
  shows "matrix_mul_matrix N C A B
    = Some (with_cells (N * N) (mat_product (\<lambda>a b. scast a * scast b) N A B) C)"
  unfolding matrix_mul_matrix_def by (rule product_loop [OF assms])

definition extract_product :: "s16 \<Rightarrow> s16 \<Rightarrow> s32" where
  "extract_product a b = bit_extract (scast a * scast b) 2 4 * bit_extract (scast a * scast b) 5 7"

lemma matrix_mul_matrix_bitextract_result:
  assumes "N * N \<le> length A" and "N * N \<le> length B" and "N * N \<le> length C"
  shows "matrix_mul_matrix_bitextract N C A B
    = Some (with_cells (N * N) (mat_product extract_product N A B) C)"
  using product_loop [OF assms, of extract_product]
  unfolding matrix_mul_matrix_bitextract_def extract_product_def Let_def .

text \<open>\<open>matrix_sum\<close> goes through the cells in order.\<close>

definition sum_cells :: "s16 \<Rightarrow> s32 list \<Rightarrow> s16" where
  "sum_cells clipval cs = ret (fold (sum_step clipval) cs \<lparr>tmp = 0, prev = 0, ret = 0\<rparr>)"

lemma matrix_sum_result:
  assumes "N * N \<le> length C"
  shows "matrix_sum N C clipval = Some (sum_cells clipval (take (N * N) C))"
proof -
  have run: "n \<le> length C \<Longrightarrow> each (\<lambda>k s. do { cur \<leftarrow> arr_get C k; Some (sum_step clipval cur s) }) [0..<n] s
      = Some (fold (sum_step clipval) (take n C) s)" for n s
    by (induction n) (simp_all add: each_append take_Suc_conv_app_nth)
  show ?thesis
    unfolding matrix_sum_def
    by (subst each_grid [where f = "\<lambda>k s. do { cur \<leftarrow> arr_get C k; Some (sum_step clipval cur s) }"])
      (use assms in \<open>simp add: run sum_cells_def\<close>)
qed

lemma matrix_add_const_undo:
  fixes A :: "s16 list"
  assumes "N * N \<le> length A"
  shows "with_cells (N * N) (\<lambda>k. with_cells (N * N) (\<lambda>k. A ! k + val) A ! k + (- val))
    (with_cells (N * N) (\<lambda>k. A ! k + val) A) = A"
  using assms by (intro nth_equalityI) (auto simp: nth_with_cells add.assoc)

lemma take_with_cells: "n \<le> length xs \<Longrightarrow> take n (with_cells n g xs) = map g [0..<n]"
  by (simp add: with_cells_def put_at_def)

lemma with_cells_again: "n \<le> length xs \<Longrightarrow> m \<le> n \<Longrightarrow> with_cells n g (with_cells m f xs) = with_cells n g xs"
  by (intro nth_equalityI) (auto simp: nth_with_cells)

lemma take_with_fewer_cells:
  "n \<le> length xs \<Longrightarrow> m \<le> n \<Longrightarrow> take n (with_cells m f (with_cells n g xs)) = map f [0..<m] @ map g [m..<n]"
  by (rule nth_equalityI) (auto simp: nth_with_cells nth_append)

text \<open>The check sum of the four results.\<close>

definition matrix_crc :: "nat \<Rightarrow> s16 list \<Rightarrow> s16 list \<Rightarrow> s16 \<Rightarrow> s16" where
  "matrix_crc N A B val =
     (let A1 = map (\<lambda>k. A ! k + val) [0..<N * N];
          scaled = map (\<lambda>k. scast (A1 ! k) * scast val) [0..<N * N];
          vect = map (\<lambda>i. \<Sum>j\<leftarrow>[0..<N]. scast (A1 ! (i * N + j)) * scast (B ! j)) [0..<N] @ drop N scaled;
          prod = map (mat_product (\<lambda>a b. scast a * scast b) N A1 B) [0..<N * N];
          bits = map (mat_product extract_product N A1 B) [0..<N * N]
      in fold (\<lambda>cells crc. crc16 (sum_cells (matrix_big val) cells) crc) [scaled, vect, prod, bits] 0)"

lemma with_cells_prefix: "n \<le> length xs \<Longrightarrow> k < n \<Longrightarrow> with_cells n g xs ! k = map g [0..<n] ! k"
  by (simp add: nth_with_cells)

lemma mat_product_cong:
  assumes "\<And>k. k < N * N \<Longrightarrow> A ! k = A' ! k" and "p < N * N"
  shows "mat_product h N A B p = mat_product h N A' B p"
  unfolding mat_product_def
  using assms grid_div(1) [OF assms(2)] row_index by (intro arg_cong [of _ _ sum_list] map_cong) auto

lemma matrix_test_result:
  assumes "N * N \<le> length A" and "N * N \<le> length B" and "N * N \<le> length C"
  shows "matrix_test N C A B val = Some (matrix_crc N A B val,
    with_cells (N * N) (mat_product extract_product N (map (\<lambda>k. A ! k + val) [0..<N * N]) B) C, A)"
proof -
  let ?n = "N * N"
  define A1 where "A1 = with_cells ?n (\<lambda>k. A ! k + val) A"
  define M1 where "M1 = map (\<lambda>k. A ! k + val) [0..<?n]"
  have nn: "N \<le> ?n" by (cases N) simp_all
  have lA1: "length A1 = length A" and eq: "k < ?n \<Longrightarrow> A1 ! k = M1 ! k" for k
    using assms(1) by (simp_all add: A1_def M1_def nth_with_cells)
  have prod_eq: "with_cells ?n (mat_product h N A1 B) C' = with_cells ?n (mat_product h N M1 B) C'" for h C'
    unfolding with_cells_def
    by (intro arg_cong [of _ _ "put_at C' 0"] map_cong mat_product_cong) (simp_all add: eq)
  have vect_eq: "with_cells N (\<lambda>i. \<Sum>j\<leftarrow>[0..<N]. scast (A1 ! (i * N + j)) * scast (B ! j)) C'
      = with_cells N (\<lambda>i. \<Sum>j\<leftarrow>[0..<N]. scast (M1 ! (i * N + j)) * scast (B ! j)) C'" for C' :: "s32 list"
    unfolding with_cells_def
    by (intro arg_cong [of _ _ "put_at C' 0"] map_cong arg_cong [of _ _ sum_list]) (auto simp: eq row_index)
  have scaled_eq: "with_cells ?n (\<lambda>k. scast (A1 ! k) * scast val) C'
      = with_cells ?n (\<lambda>k. scast (M1 ! k) * scast val) C'" for C' :: "s32 list"
    unfolding with_cells_def by (intro arg_cong [of _ _ "put_at C' 0"] map_cong) (simp_all add: eq)
  have add: "matrix_add_const N A val = Some A1"
    using assms(1) by (simp add: matrix_add_const_result A1_def)
  have sub: "matrix_add_const N A1 (- val) = Some A"
    using matrix_add_const_undo [OF assms(1), of val] lA1 assms(1)
    by (simp add: matrix_add_const_result A1_def)
  show ?thesis
    using assms nn le_trans [OF nn assms(2)] le_trans [OF nn assms(3)] unfolding matrix_test_def Let_def add
    by (simp add: lA1 sub matrix_mul_const_result matrix_mul_vect_result matrix_mul_matrix_result
        matrix_mul_matrix_bitextract_result matrix_sum_result prod_eq vect_eq scaled_eq
        take_with_cells take_with_fewer_cells with_cells_again matrix_crc_def Let_def drop_map M1_def [symmetric])
qed


section \<open>The dimension and the addresses\<close>

lemma dim_loop_result:
  assumes "unat blksize \<le> 2 ^ 31"
  shows "unat i = n \<Longrightarrow> unat j = 8 * n * n \<Longrightarrow> n \<le> 16384 \<Longrightarrow>
    \<exists>i'. dim_loop blksize i j = Some i' \<and> unat blksize \<le> 8 * unat i' * unat i' \<and> n \<le> unat i' \<and> unat i' \<le> 16384
      \<and> (unat i' = n \<or> 8 * (unat i' - 1) * (unat i' - 1) < unat blksize)"
proof (induction "16384 - n" arbitrary: i j n rule: less_induct)
  case less
  show ?case
  proof (cases "j < blksize")
    case True
    then have small: "8 * n * n < unat blksize" using less.prems by (simp add: word_less_nat_alt)
    have n: "n < 16384"
    proof (rule ccontr)
      assume "\<not> n < 16384"
      then have "16384 * 16384 \<le> n * n" by (intro mult_le_mono) simp_all
      with small assms show False by simp
    qed
    define m where "m = Suc n * Suc n"
    have "Suc n * Suc n \<le> 16384 * 16384" using n by (intro mult_le_mono) simp_all
    then have sq: "m \<le> 268435456" by (simp add: m_def)
    have i1: "unat (i + 1) = Suc n" using less.prems(1) n by (simp add: unat_word_ariths)
    have "unat ((i + 1) * (i + 1)) = m"
      using sq unfolding unat_word_ariths(2) i1 m_def [symmetric] by simp
    then have "unat ((i + 1) * (i + 1) * 2 * 4) = m * 2 * 4"
      using sq by (simp add: unat_word_ariths(2))
    also have "m * 2 * 4 = 8 * Suc n * Suc n" by (simp add: m_def algebra_simps)
    finally have j1: "unat ((i + 1) * (i + 1) * 2 * 4) = 8 * Suc n * Suc n" .
    have closer: "16384 - Suc n < 16384 - n" using n by (intro diff_less_mono2) simp_all
    obtain i' where i': "dim_loop blksize (i + 1) ((i + 1) * (i + 1) * 2 * 4) = Some i'"
        "unat blksize \<le> 8 * unat i' * unat i'" "Suc n \<le> unat i'" "unat i' \<le> 16384"
        "unat i' = Suc n \<or> 8 * (unat i' - 1) * (unat i' - 1) < unat blksize"
      using less.hyps [OF closer i1 j1] n by auto
    then show ?thesis
      using True small by (subst dim_loop.simps) auto
  next
    case False
    then have "dim_loop blksize i j = Some i" by (subst dim_loop.simps) simp
    then show ?thesis using False less.prems by (auto simp: word_less_nat_alt)
  qed
qed

lemma round_down: "unat (z AND NOT 3) = unat z - unat z mod 4" for z :: u32
proof -
  have "z AND NOT 3 = push_bit 2 (drop_bit 2 z)"
  proof (rule bit_word_eqI)
    fix n assume "n < LENGTH(32)"
    have three: "bit (3 :: u32) n \<longleftrightarrow> n < 2" by (cases n; cases "n - 1") (auto simp: bit_numeral_rec)
    show "bit (z AND NOT 3) n = bit (push_bit 2 (drop_bit 2 z)) n"
    proof (cases "n < 2")
      case False
      then obtain k where "n = 2 + k" using le_Suc_ex [of 2 n] by auto
      then show ?thesis using \<open>n < LENGTH(32)\<close> three by (simp add: bit_simps)
    qed (use three in \<open>simp add: bit_simps\<close>)
  qed
  then have "z AND NOT 3 = z - take_bit 2 z"
    using bits_ident [of 2 z] by (metis add_diff_cancel_right')
  moreover have "unat (take_bit 2 z) = unat z mod 4"
    by (simp add: unsigned_take_bit_eq) (simp add: take_bit_eq_mod)
  ultimately show ?thesis
    by (simp add: unat_sub word_le_nat_alt)
qed

text \<open>Aligned addresses stay, others move up to the next multiple of four.\<close>

lemma align_mem_bounds:
  assumes "0 < x" and "unat x + 4 \<le> 2 ^ 32 - 1"
  shows "4 dvd unat (align_mem x) \<and> unat x \<le> unat (align_mem x) \<and> unat (align_mem x) < unat x + 4"
proof -
  let ?y = "unat x - 1"
  have y: "unat (x - 1) = ?y" using assms(1) by (simp add: unat_minus_one word_gt_0)
  have "0 < unat x" using assms(1) by (simp add: word_less_nat_alt)
  have "unat (align_mem x) = (4 + (?y - ?y mod 4)) mod 2 ^ 32"
    unfolding align_mem_def unat_word_ariths(1) round_down y by simp
  also have "\<dots> = 4 + (?y - ?y mod 4)" using assms(2) by simp
  finally have eq: "unat (align_mem x) = 4 + (?y - ?y mod 4)" .
  have "4 dvd ?y - ?y mod 4" by (rule dvd_minus_mod)
  then have "4 dvd unat (align_mem x)" unfolding eq by (intro dvd_add) simp_all
  moreover have "?y mod 4 \<le> 3" "?y mod 4 \<le> ?y" by (simp_all add: Suc_leI less_Suc_eq_le [symmetric])
  ultimately show ?thesis using eq \<open>0 < unat x\<close> by linarith
qed

lemma align_mem_aligned:
  assumes "0 < x" and "unat x + 4 \<le> 2 ^ 32 - 1" and "4 dvd unat x"
  shows "align_mem x = x"
proof -
  obtain a b where "unat (align_mem x) = 4 * a" "unat x = 4 * b"
    using align_mem_bounds [OF assms(1,2)] assms(3) by (auto elim!: dvdE)
  then have "unat (align_mem x) = unat x"
    using align_mem_bounds [OF assms(1,2)] by auto
  then show ?thesis by (simp add: word_unat_eq_iff)
qed

section \<open>The initial matrices\<close>

primrec seed_at :: "s32 \<Rightarrow> nat \<Rightarrow> s32" where
  "seed_at s 0 = s"
| "seed_at s (Suc k) = word_of_int (sint ((of_nat k + 1) * seed_at s k) smod 65536)"

definition b_at :: "s32 \<Rightarrow> nat \<Rightarrow> s16" where
  "b_at s k = matrix_clip (scast (ucast (seed_at s (Suc k) + (of_nat k + 1)) :: s16)) False"

definition a_at :: "s32 \<Rightarrow> nat \<Rightarrow> s16" where
  "a_at s k = matrix_clip (scast (ucast (scast (b_at s k) + (of_nat k + 1) :: s32) :: s16)) True"

lemma with_cells_Suc:
  "n < length xs \<Longrightarrow> (with_cells n g xs)[n := g n] = with_cells (Suc n) g xs"
  by (intro nth_equalityI) (auto simp: nth_with_cells nth_list_update less_Suc_eq)

lemma fill_result:
  "n \<le> length A0 \<Longrightarrow> n \<le> length B0 \<Longrightarrow>
    each fill_cell [0..<n] \<lparr>fseed = s, order = 1, fA = A0, fB = B0\<rparr>
      = Some \<lparr>fseed = seed_at s n, order = of_nat n + 1, fA = with_cells n (a_at s) A0, fB = with_cells n (b_at s) B0\<rparr>"
proof (induction n)
  case 0
  then show ?case by (simp add: with_cells_def)
next
  case (Suc n)
  have "fill_cell n \<lparr>fseed = seed_at s n, order = of_nat n + 1, fA = with_cells n (a_at s) A0, fB = with_cells n (b_at s) B0\<rparr>
      = Some \<lparr>fseed = seed_at s (Suc n), order = of_nat (Suc n) + 1,
          fA = with_cells (Suc n) (a_at s) A0, fB = with_cells (Suc n) (b_at s) B0\<rparr>"
    using Suc.prems by (simp add: fill_cell_def a_at_def b_at_def Let_def with_cells_Suc [symmetric])
  with Suc show ?case by (simp add: each_append)
qed

lemma clip_byte: "unat (matrix_clip x True) \<le> 255"
proof -
  have "unat (ucast (x AND 0xff) :: s16) \<le> unat (x AND 0xff)"
    by (simp add: unsigned_ucast_eq take_bit_nat_less_eq_self)
  also have "\<dots> \<le> unat (0xff :: u32)"
    using word_and_le1 [of x "0xff"] by (simp only: word_le_nat_alt)
  finally show ?thesis by (simp add: matrix_clip_def)
qed

lemma a_at_small: "unat (a_at s k) \<le> 255"
  by (simp add: a_at_def clip_byte)

lemma grid_fill:
  "each (\<lambda>i. each (\<lambda>j. fill_cell (i * N + j)) [0..<N]) [0..<N] s = each fill_cell [0..<N * N] s"
  by (rule each_grid)

lemma core_init_matrix_result:
  assumes "0 < blksize" and "unat blksize \<le> 2 ^ 31" and "unat blksize \<le> 8 * length A0" "unat blksize \<le> 8 * length B0"
  obtains N where "8 * unat N * unat N < unat blksize" "unat blksize \<le> 8 * (unat N + 1) * (unat N + 1)"
    "core_init_matrix blksize memblk seed A0 B0 = (let s = (if seed = 0 then 1 else seed); n = unat N * unat N; A = align_mem memblk
       in Some (N, \<lparr>mN = N, mA = A, mB = A + 2 * (N * N), mC = align_mem (A + 2 * (N * N) + 2 * (N * N))\<rparr>,
         with_cells n (a_at s) A0, with_cells n (b_at s) B0))"
proof -
  obtain i where i: "dim_loop blksize 0 0 = Some i" "unat blksize \<le> 8 * unat i * unat i"
      "unat i = 0 \<or> 8 * (unat i - 1) * (unat i - 1) < unat blksize"
    using dim_loop_result [OF assms(2), of 0 0 0] by auto
  have "unat i \<noteq> 0"
  proof
    assume "unat i = 0"
    with i(2) have "unat blksize = 0" by simp
    with assms(1) show False by (simp add: word_less_nat_alt)
  qed
  then have N: "unat (i - 1) = unat i - 1" by (simp add: unat_minus_one word_unat_eq_iff)
  let ?n = "unat (i - 1) * unat (i - 1)" and ?s = "if seed = 0 then 1 else seed"
  have less: "8 * unat (i - 1) * unat (i - 1) < unat blksize"
    using i(3) N \<open>unat i \<noteq> 0\<close> by simp
  then have "8 * ?n < unat blksize" by (simp only: mult.assoc)
  then have "?n \<le> length A0" "?n \<le> length B0" using assms(3,4) by simp_all
  note fill = fill_result [OF this, of ?s]
  show thesis
  proof (rule that [OF less])
    show "unat blksize \<le> 8 * (unat (i - 1) + 1) * (unat (i - 1) + 1)"
      using i(2) N \<open>unat i \<noteq> 0\<close> by simp
    show "core_init_matrix blksize memblk seed A0 B0 = (let s = (if seed = 0 then 1 else seed); n = ?n; A = align_mem memblk
       in Some (i - 1, \<lparr>mN = i - 1, mA = A, mB = A + 2 * ((i - 1) * (i - 1)),
           mC = align_mem (A + 2 * ((i - 1) * (i - 1)) + 2 * ((i - 1) * (i - 1)))\<rparr>,
         with_cells n (a_at s) A0, with_cells n (b_at s) B0))"
      using fill by (simp only: core_init_matrix_def i(1) Let_def Option.bind.simps grid_fill)
        (simp only: Option.bind.simps fill.simps)
  qed
qed

text \<open>With all the cells of \<open>A\<close> small, the 32-bit sums of products are the exact ones.\<close>

lemma sint_of_int_small: "\<bar>z\<bar> < 2 ^ 31 \<Longrightarrow> sint (of_int z :: s32) = z"
  by (simp add: signed_of_int signed_take_bit_int_eq_self)

lemma sum_list_abs_le:
  fixes f :: "nat \<Rightarrow> int"
  shows "(\<And>k. k \<in> set ks \<Longrightarrow> \<bar>f k\<bar> \<le> M) \<Longrightarrow> \<bar>\<Sum>k\<leftarrow>ks. f k\<bar> \<le> int (length ks) * M"
proof (induction ks)
  case (Cons k ks)
  then have "\<bar>f k\<bar> \<le> M" "\<bar>\<Sum>k\<leftarrow>ks. f k\<bar> \<le> int (length ks) * M" by auto
  then have "\<bar>f k + (\<Sum>k\<leftarrow>ks. f k)\<bar> \<le> M + int (length ks) * M" by linarith
  then show ?case by (simp add: algebra_simps)
qed simp

lemma of_int_sum_list: "(\<Sum>k\<leftarrow>ks. of_int (f k)) = (of_int (\<Sum>k\<leftarrow>ks. f k) :: s32)"
  by (induction ks) simp_all

lemma scast_product: "(scast (a :: s16) :: s32) * scast (b :: s16) = of_int (sint a * sint b)"
  by simp

lemma sint_s16_bounds: "\<bar>sint (b :: s16)\<bar> \<le> 32768"
  using sint_ge [of b] sint_lt [of b] by simp

lemma mat_product_exact:
  assumes small: "\<And>k. k < N * N \<Longrightarrow> \<bar>sint (A ! k)\<bar> \<le> 255" and "N \<le> 256" and p: "p < N * N"
  shows "sint (mat_product (\<lambda>a b. scast a * scast b) N A B p)
    = (\<Sum>k\<leftarrow>[0..<N]. sint (A ! (p div N * N + k)) * sint (B ! (k * N + p mod N)))"
proof -
  let ?f = "\<lambda>k. sint (A ! (p div N * N + k)) * sint (B ! (k * N + p mod N))"
  have "\<bar>?f k\<bar> \<le> 255 * 32768" if "k \<in> set [0..<N]" for k
    unfolding abs_mult using that grid_div(1) [OF p] row_index
    by (intro mult_mono small sint_s16_bounds) auto
  then have "\<bar>\<Sum>k\<leftarrow>[0..<N]. ?f k\<bar> \<le> int (length [0..<N]) * (255 * 32768)" by (rule sum_list_abs_le)
  also have "\<dots> \<le> 256 * (255 * 32768)" using \<open>N \<le> 256\<close> by simp
  finally have "\<bar>\<Sum>k\<leftarrow>[0..<N]. ?f k\<bar> < 2 ^ 31" by simp
  then show ?thesis
    unfolding mat_product_def scast_product of_int_sum_list by (rule sint_of_int_small)
qed


section \<open>Properties\<close>

lemma sint_small:
  assumes "unat (x :: s16) \<le> 255"
  shows "0 \<le> sint x \<and> sint x \<le> 255"
proof -
  have "int (unat x) \<le> 255" using assms by linarith
  then have small: "uint x \<le> 255" by simp
  have "sint x = signed_take_bit 15 (uint x)" by (simp add: sint_uint)
  also have "\<dots> = uint x"
  proof (rule signed_take_bit_int_eq_self)
    show "- (2 ^ 15) \<le> uint x" by (rule order_trans [of _ 0]) simp_all
  qed (use small in simp)
  finally show ?thesis using small by simp
qed

text \<open>C31: \<open>matrix_test\<close> computes the four results on the matrix with \<open>val\<close> added, returns the
  check sum of their \<open>matrix_sum\<close> values in order, leaves the bit-extract product in \<open>C\<close> and
  gives \<open>A\<close> back its original contents.\<close>

theorem matrix_test_restores:
  assumes "N * N \<le> length A" and "N * N \<le> length B" and "N * N \<le> length C"
  shows "matrix_test N C A B val = Some (matrix_crc N A B val,
    with_cells (N * N) (mat_product extract_product N (map (\<lambda>k. A ! k + val) [0..<N * N]) B) C, A)"
  by (rule matrix_test_result [OF assms])

lemma matrix_test_restores_witness:
  "matrix_test 2 (replicate 4 0) [1, 2, 3, 4] [5, 6, 7, 8] (-3) = Some (matrix_crc 2 [1, 2, 3, 4] [5, 6, 7, 8] (-3),
    with_cells (2 * 2) (mat_product extract_product 2 (map (\<lambda>k. [1, 2, 3, 4] ! k + - 3) [0..<2 * 2]) [5, 6, 7, 8])
      (replicate 4 0), [1, 2, 3, 4])"
  by (rule matrix_test_restores) simp_all

text \<open>\<open>core_init_matrix\<close> takes the largest dimension \<open>N\<close> with 8 N N below the block
  size; on an aligned block the three matrices lie one after the other inside it, and every cell
  of \<open>A\<close> is between 0 and 255.\<close>

theorem core_init_matrix_layout:
  assumes "0 < blksize" and "unat blksize \<le> 2 ^ 31"
    and "unat blksize \<le> 8 * length A0" and "unat blksize \<le> 8 * length B0"
    and "0 < memblk" and "4 dvd unat memblk" and "unat memblk + unat blksize + 4 < 2 ^ 32"
  shows "\<exists>N p A B. core_init_matrix blksize memblk seed A0 B0 = Some (N, p, A, B)
    \<and> 8 * unat N * unat N < unat blksize \<and> unat blksize \<le> 8 * (unat N + 1) * (unat N + 1)
    \<and> mN p = N \<and> mA p = memblk \<and> unat (mB p) = unat memblk + 2 * (unat N * unat N)
    \<and> unat (mC p) = unat memblk + 4 * (unat N * unat N)
    \<and> unat (mC p) + 4 * (unat N * unat N) < unat memblk + unat blksize
    \<and> (\<forall>k<unat N * unat N. 0 \<le> sint (A ! k) \<and> sint (A ! k) \<le> 255)"
proof -
  obtain N where N: "8 * unat N * unat N < unat blksize" "unat blksize \<le> 8 * (unat N + 1) * (unat N + 1)"
    and run: "core_init_matrix blksize memblk seed A0 B0 = (let s = (if seed = 0 then 1 else seed); n = unat N * unat N; A = align_mem memblk
       in Some (N, \<lparr>mN = N, mA = A, mB = A + 2 * (N * N), mC = align_mem (A + 2 * (N * N) + 2 * (N * N))\<rparr>,
         with_cells n (a_at s) A0, with_cells n (b_at s) B0))"
    using core_init_matrix_result [OF assms(1-4)] by blast
  define n where "n = unat N * unat N"
  have small: "8 * n < unat blksize" using N(1) by (simp add: n_def)
  have lim: "unat memblk + 8 * n + 4 < 2 ^ 32" using small assms(7) by simp
  have nn: "unat (N * N) = n" using lim unfolding unat_word_ariths(2) n_def [symmetric] by simp
  have two: "unat (2 * (N * N)) = 2 * n" using lim by (simp add: unat_word_ariths(2) [of 2] nn)
  have A: "align_mem memblk = memblk" using assms(5-7) by (intro align_mem_aligned) simp_all
  have B: "unat (memblk + 2 * (N * N)) = unat memblk + 2 * n"
    using lim by (simp add: unat_word_ariths(1) two)
  have C: "unat (memblk + 2 * (N * N) + 2 * (N * N)) = unat memblk + 4 * n"
    using lim unfolding unat_word_ariths(1) [of "memblk + 2 * (N * N)"] B two by simp
  have "0 < memblk + 2 * (N * N) + 2 * (N * N)" using C assms(5) by (simp only: word_less_nat_alt)
  moreover have "4 dvd unat (memblk + 2 * (N * N) + 2 * (N * N))" unfolding C using assms(6) by simp
  ultimately have AC: "align_mem (memblk + 2 * (N * N) + 2 * (N * N)) = memblk + 2 * (N * N) + 2 * (N * N)"
    using C lim by (intro align_mem_aligned) simp_all
  let ?s = "if seed = 0 then 1 else seed"
  have cells: "0 \<le> sint (with_cells n (a_at ?s) A0 ! k) \<and> sint (with_cells n (a_at ?s) A0 ! k) \<le> 255"
    if "k < n" for k
  proof -
    have "with_cells n (a_at ?s) A0 ! k = a_at ?s k" using that small assms(3) by (simp add: nth_with_cells)
    then show ?thesis using sint_small [OF a_at_small [of ?s k]] by simp
  qed
  show ?thesis
    unfolding run Let_def n_def [symmetric] A AC
    using N B C small cells by (simp add: n_def [symmetric])
qed

lemma core_init_matrix_layout_witness:
  "\<exists>N p A B. core_init_matrix 666 0x1000 0 (replicate 84 0) (replicate 84 0) = Some (N, p, A, B)
    \<and> 8 * unat N * unat N < unat (666 :: u32) \<and> unat (666 :: u32) \<le> 8 * (unat N + 1) * (unat N + 1)
    \<and> mN p = N \<and> mA p = 0x1000 \<and> unat (mB p) = unat (0x1000 :: u32) + 2 * (unat N * unat N)
    \<and> unat (mC p) = unat (0x1000 :: u32) + 4 * (unat N * unat N)
    \<and> unat (mC p) + 4 * (unat N * unat N) < unat (0x1000 :: u32) + unat (666 :: u32)
    \<and> (\<forall>k<unat N * unat N. 0 \<le> sint (A ! k) \<and> sint (A ! k) \<le> 255)"
  by (rule core_init_matrix_layout) (simp_all add: dvd_def)

text \<open>\<open>matrix_mul_matrix\<close> leaves in cell (i, j) of \<open>C\<close> the exact integer product of row i and
  column j, with no wrap-around, when the cells of \<open>A\<close> are at most 255 in size and the dimension at
  most 256, and changes nothing after the matrix.\<close>

theorem matrix_mul_matrix_exact:
  assumes "N * N \<le> length A" and "N * N \<le> length B" and "N * N \<le> length C" and "N \<le> 256"
    and "\<forall>k<N * N. \<bar>sint (A ! k)\<bar> \<le> 255" and "i < N" and "j < N"
  shows "\<exists>C1. matrix_mul_matrix N C A B = Some C1
    \<and> sint (C1 ! (i * N + j)) = (\<Sum>k\<leftarrow>[0..<N]. sint (A ! (i * N + k)) * sint (B ! (k * N + j)))
    \<and> drop (N * N) C1 = drop (N * N) C"
proof -
  let ?p = "i * N + j"
  have p: "?p < N * N" "?p div N = i" "?p mod N = j" using assms(6,7) row_index by auto
  have "with_cells (N * N) (mat_product (\<lambda>a b. scast a * scast b) N A B) C ! ?p
      = mat_product (\<lambda>a b. scast a * scast b) N A B ?p"
    using p(1) assms(3) by (simp add: nth_with_cells)
  moreover have "drop (N * N) (with_cells (N * N) g C) = drop (N * N) C" for g
    by (simp add: with_cells_def put_at_def)
  ultimately show ?thesis
    using matrix_mul_matrix_result [OF assms(1-3)] mat_product_exact [of N A ?p B] assms(4,5) p by simp
qed

lemma matrix_mul_matrix_exact_witness:
  "\<exists>C1. matrix_mul_matrix 2 (replicate 5 9) [1, 2, 3, 4] [5, -6, 7, 8] = Some C1
    \<and> sint (C1 ! (1 * 2 + 0)) = (\<Sum>k\<leftarrow>[0..<2]. sint ([1, 2, 3, 4 :: s16] ! (1 * 2 + k)) * sint ([5, -6, 7, 8 :: s16] ! (k * 2 + 0)))
    \<and> drop (2 * 2) C1 = drop (2 * 2) (replicate 5 9)"
  by (rule matrix_mul_matrix_exact) (auto simp: less_Suc_eq numeral_eq_Suc)

end
