(* ===== verification/Core_List.thy ===== *)
theory Core_List
  imports Core_State Core_Matrix "HOL-Library.Multiset"
begin

text \<open>
  The linked-list benchmark of \<open>sim/sw/coremark/eembc/core_list_join.c\<close>. The heap has one map
  per field: \<open>nxt\<close> and \<open>inf\<close> of the list cells, \<open>dat\<close> and \<open>idx\<close> of the data items, all by
  address; address 0 is NULL, and an access through it is \<open>None\<close>, as is a loop that never ends.
  Step counts and run lengths of the merge sort are natural numbers: the 32-bit address space holds
  fewer cells than the 32-bit counters can count. The state block and the matrices, which the
  comparison function \<open>cmp_complex\<close> works on, are memory blocks of their own.
\<close>

section \<open>Heap, results and the state of the benchmark\<close>

record heap =
  nxt :: "u32 \<Rightarrow> u32"
  inf :: "u32 \<Rightarrow> u32"
  dat :: "u32 \<Rightarrow> s16"
  idx :: "u32 \<Rightarrow> s16"

record list_data =
  data16 :: s16
  didx :: s16

text \<open>The part of \<open>core_results\<close> the list benchmark works on.\<close>

record core_results =
  seed1 :: s16
  seed2 :: s16
  seed3 :: s16
  rsize :: u32
  statemem :: "u8 list"
  dim :: nat
  matA :: "s16 list"
  matB :: "s16 list"
  matC :: "s32 list"
  crc :: u16
  crcmatrix :: u16
  crcstate :: u16

record world =
  hp :: heap
  res :: core_results

definition get_next :: "heap \<Rightarrow> u32 \<Rightarrow> u32 option" where
  "get_next h p = (if p = 0 then None else Some (nxt h p))"

definition get_info :: "heap \<Rightarrow> u32 \<Rightarrow> u32 option" where
  "get_info h p = (if p = 0 then None else Some (inf h p))"

definition get_data :: "heap \<Rightarrow> u32 \<Rightarrow> s16 option" where
  "get_data h d = (if d = 0 then None else Some (dat h d))"

definition get_idx :: "heap \<Rightarrow> u32 \<Rightarrow> s16 option" where
  "get_idx h d = (if d = 0 then None else Some (idx h d))"

definition set_next :: "u32 \<Rightarrow> u32 \<Rightarrow> heap \<Rightarrow> heap option" where
  "set_next p q h = (if p = 0 then None else Some (h\<lparr>nxt := (nxt h)(p := q)\<rparr>))"

definition set_info :: "u32 \<Rightarrow> u32 \<Rightarrow> heap \<Rightarrow> heap option" where
  "set_info p d h = (if p = 0 then None else Some (h\<lparr>inf := (inf h)(p := d)\<rparr>))"

definition set_data :: "u32 \<Rightarrow> s16 \<Rightarrow> heap \<Rightarrow> heap option" where
  "set_data d v h = (if d = 0 then None else Some (h\<lparr>dat := (dat h)(d := v)\<rparr>))"

definition set_idx :: "u32 \<Rightarrow> s16 \<Rightarrow> heap \<Rightarrow> heap option" where
  "set_idx d v h = (if d = 0 then None else Some (h\<lparr>idx := (idx h)(d := v)\<rparr>))"

lemma field_access [simp]:
  "p \<noteq> 0 \<Longrightarrow> get_next h p = Some (nxt h p)" "p \<noteq> 0 \<Longrightarrow> get_info h p = Some (inf h p)"
  "p \<noteq> 0 \<Longrightarrow> get_data h p = Some (dat h p)" "p \<noteq> 0 \<Longrightarrow> get_idx h p = Some (idx h p)"
  "p \<noteq> 0 \<Longrightarrow> set_next p q h = Some (h\<lparr>nxt := (nxt h)(p := q)\<rparr>)"
  "p \<noteq> 0 \<Longrightarrow> set_info p q h = Some (h\<lparr>inf := (inf h)(p := q)\<rparr>)"
  "p \<noteq> 0 \<Longrightarrow> set_data p v h = Some (h\<lparr>dat := (dat h)(p := v)\<rparr>)"
  "p \<noteq> 0 \<Longrightarrow> set_idx p v h = Some (h\<lparr>idx := (idx h)(p := v)\<rparr>)"
  by (simp_all add: get_next_def get_info_def get_data_def get_idx_def
      set_next_def set_info_def set_data_def set_idx_def)

section \<open>Find, reverse, insert, remove\<close>

partial_function (option) find_by_idx :: "heap \<Rightarrow> s16 \<Rightarrow> u32 \<Rightarrow> u32 option" where
  "find_by_idx h k list =
     (if list \<noteq> 0 then do {
        d \<leftarrow> get_info h list;
        i \<leftarrow> get_idx h d;
        if i \<noteq> k then do { n \<leftarrow> get_next h list; find_by_idx h k n } else Some list }
      else Some list)"

partial_function (option) find_by_data :: "heap \<Rightarrow> s16 \<Rightarrow> u32 \<Rightarrow> u32 option" where
  "find_by_data h k list =
     (if list \<noteq> 0 then do {
        d \<leftarrow> get_info h list;
        v \<leftarrow> get_data h d;
        if (scast v AND 0xff :: s32) \<noteq> scast k then do { n \<leftarrow> get_next h list; find_by_data h k n } else Some list }
      else Some list)"

definition core_list_find :: "heap \<Rightarrow> u32 \<Rightarrow> list_data \<Rightarrow> u32 option" where
  "core_list_find h list info =
     (if sint (didx info) \<ge> 0 then find_by_idx h (didx info) list else find_by_data h (data16 info) list)"

partial_function (option) reverse_loop :: "u32 \<Rightarrow> u32 \<Rightarrow> heap \<Rightarrow> (u32 \<times> heap) option" where
  "reverse_loop list next h =
     (if list \<noteq> 0 then do {
        tmp \<leftarrow> get_next h list;
        h1 \<leftarrow> set_next list next h;
        reverse_loop tmp list h1 }
      else Some (next, h))"

definition core_list_reverse :: "u32 \<Rightarrow> heap \<Rightarrow> (u32 \<times> heap) option" where
  "core_list_reverse list h = reverse_loop list 0 h"

text \<open>The caller copies from a local structure to a data item of the heap.\<close>

definition copy_info :: "u32 \<Rightarrow> list_data \<Rightarrow> heap \<Rightarrow> heap option" where
  "copy_info to from h = do {
     h1 \<leftarrow> set_data to (data16 from) h;
     set_idx to (didx from) h1 }"

text \<open>A cell takes 8 bytes and a data item 4. The result is the new cell, or NULL, and the two
  allocation pointers.\<close>

definition core_list_insert_new :: "u32 \<Rightarrow> list_data \<Rightarrow> u32 \<Rightarrow> u32 \<Rightarrow> u32 \<Rightarrow> u32 \<Rightarrow> heap \<Rightarrow> (u32 \<times> u32 \<times> u32 \<times> heap) option" where
  "core_list_insert_new insert_point info memblock datablock memblock_end datablock_end h =
     (if memblock + 8 \<ge> memblock_end then Some (0, memblock, datablock, h)
      else if datablock + 4 \<ge> datablock_end then Some (0, memblock, datablock, h)
      else do {
        let newitem = memblock;
        n \<leftarrow> get_next h insert_point;
        h1 \<leftarrow> set_next newitem n h;
        h2 \<leftarrow> set_next insert_point newitem h1;
        h3 \<leftarrow> set_info newitem datablock h2;
        h4 \<leftarrow> copy_info datablock info h3;
        Some (newitem, memblock + 8, datablock + 4, h4) })"

definition core_list_remove :: "u32 \<Rightarrow> heap \<Rightarrow> (u32 \<times> heap) option" where
  "core_list_remove item h = do {
     ret \<leftarrow> get_next h item;
     tmp \<leftarrow> get_info h item;
     ri \<leftarrow> get_info h ret;
     h1 \<leftarrow> set_info item ri h;
     h2 \<leftarrow> set_info ret tmp h1;
     n \<leftarrow> get_next h2 item;
     nn \<leftarrow> get_next h2 n;
     h3 \<leftarrow> set_next item nn h2;
     h4 \<leftarrow> set_next ret 0 h3;
     Some (ret, h4) }"

definition core_list_undo_remove :: "u32 \<Rightarrow> u32 \<Rightarrow> heap \<Rightarrow> (u32 \<times> heap) option" where
  "core_list_undo_remove item_removed item_modified h = do {
     tmp \<leftarrow> get_info h item_removed;
     mi \<leftarrow> get_info h item_modified;
     h1 \<leftarrow> set_info item_removed mi h;
     h2 \<leftarrow> set_info item_modified tmp h1;
     n \<leftarrow> get_next h2 item_modified;
     h3 \<leftarrow> set_next item_removed n h2;
     h4 \<leftarrow> set_next item_modified item_removed h3;
     Some (item_removed, h4) }"

section \<open>Comparison functions\<close>

text \<open>The operand of an operation, bits 3 to 6 of the data doubled to eight bits, and the operation
  that bits 0 to 2 select.\<close>

definition op_dtype :: "s16 \<Rightarrow> s16" where
  "op_dtype data = (let dtype = drop_bit 3 data AND 0xf in dtype OR push_bit 4 dtype)"

definition calc_op :: "s16 \<Rightarrow> core_results \<Rightarrow> (s16 \<times> core_results) option" where
  "calc_op data r = (let flag = data AND 0x7; dtype = op_dtype data in
     if flag = 0 then do {
       let step = (if sint dtype < 0x22 then 0x22 else dtype);
       (v, m1) \<leftarrow> core_bench_state (rsize r) (statemem r) (seed1 r) (seed2 r) step (crc r);
       let r1 = r\<lparr>statemem := m1\<rparr>;
       Some (v, if crcstate r1 = 0 then r1\<lparr>crcstate := v\<rparr> else r1) }
     else if flag = 1 then do {
       (v, C1, A1) \<leftarrow> core_bench_matrix (dim r) (matC r) (matA r) (matB r) dtype (crc r);
       let r1 = r\<lparr>matC := C1, matA := A1\<rparr>;
       Some (v, if crcmatrix r1 = 0 then r1\<lparr>crcmatrix := v\<rparr> else r1) }
     else Some (data, r))"

text \<open>\<open>calc_func\<close> on the data item at \<open>d\<close>: the cached value, or the result of the operation, cached.\<close>

definition calc_func :: "u32 \<Rightarrow> world \<Rightarrow> (s16 \<times> world) option" where
  "calc_func d w = do {
     data \<leftarrow> get_data (hp w) d;
     if bit data 7 then Some (data AND 0x007f, w)
     else do {
       (retval, r1) \<leftarrow> calc_op data (res w);
       let r2 = r1\<lparr>crc := crcu16 retval (crc r1)\<rparr>;
       let retval1 = retval AND 0x007f;
       h1 \<leftarrow> set_data d ((data AND 0xff00) OR 0x0080 OR retval1) (hp w);
       Some (retval1, w\<lparr>hp := h1, res := r2\<rparr>) } }"

definition cmp_complex :: "u32 \<Rightarrow> u32 \<Rightarrow> world \<Rightarrow> (s32 \<times> world) option" where
  "cmp_complex a b w = do {
     (val1, w1) \<leftarrow> calc_func a w;
     (val2, w2) \<leftarrow> calc_func b w1;
     Some (scast val1 - scast val2, w2) }"

text \<open>Rebuild a data item from its backup byte.\<close>

definition regen :: "u32 \<Rightarrow> heap \<Rightarrow> heap option" where
  "regen d h = do {
     v \<leftarrow> get_data h d;
     set_data d ((v AND 0xff00) OR (0x00ff AND signed_drop_bit 8 v)) h }"

text \<open>\<open>res_null\<close> says whether the third argument is NULL.\<close>

definition cmp_idx :: "bool \<Rightarrow> u32 \<Rightarrow> u32 \<Rightarrow> world \<Rightarrow> (s32 \<times> world) option" where
  "cmp_idx res_null a b w = do {
     w1 \<leftarrow> (if res_null then do {
         h1 \<leftarrow> regen a (hp w);
         h2 \<leftarrow> regen b h1;
         Some (w\<lparr>hp := h2\<rparr>) }
       else Some w);
     i \<leftarrow> get_idx (hp w1) a;
     j \<leftarrow> get_idx (hp w1) b;
     Some (scast i - scast j, w1) }"

section \<open>Merge sort\<close>

text \<open>Step at most \<open>n\<close> cells along from \<open>q\<close>, stopping at NULL; the number of steps made counts.\<close>

primrec walk :: "heap \<Rightarrow> nat \<Rightarrow> u32 \<Rightarrow> nat \<Rightarrow> (u32 \<times> nat) option" where
  "walk h 0 q psize = Some (q, psize)"
| "walk h (Suc n) q psize = do {
     q1 \<leftarrow> get_next h q;
     if q1 = 0 then Some (q1, psize + 1) else walk h n q1 (psize + 1) }"

type_synonym cmp_fun = "u32 \<Rightarrow> u32 \<Rightarrow> world \<Rightarrow> (s32 \<times> world) option"

text \<open>The cell the merge takes next, and the two runs without it.\<close>

definition take_next :: "cmp_fun \<Rightarrow> u32 \<Rightarrow> nat \<Rightarrow> u32 \<Rightarrow> nat \<Rightarrow> world \<Rightarrow> (u32 \<times> u32 \<times> nat \<times> u32 \<times> nat \<times> world) option" where
  "take_next cmp p psize q qsize w =
     (if psize = 0 then do { n \<leftarrow> get_next (hp w) q; Some (q, p, psize, n, qsize - 1, w) }
      else if qsize = 0 \<or> q = 0 then do { n \<leftarrow> get_next (hp w) p; Some (p, n, psize - 1, q, qsize, w) }
      else do {
        a \<leftarrow> get_info (hp w) p;
        b \<leftarrow> get_info (hp w) q;
        (c, w1) \<leftarrow> cmp a b w;
        if sint c \<le> 0 then do { n \<leftarrow> get_next (hp w1) p; Some (p, n, psize - 1, q, qsize, w1) }
        else do { n \<leftarrow> get_next (hp w1) q; Some (q, p, psize, n, qsize - 1, w1) } })"

text \<open>Add a cell to the merged list, given by its head and its last cell.\<close>

definition append_cell :: "u32 \<Rightarrow> u32 \<Rightarrow> u32 \<Rightarrow> world \<Rightarrow> (u32 \<times> world) option" where
  "append_cell e list tail w =
     (if tail \<noteq> 0 then do { h \<leftarrow> set_next tail e (hp w); Some (list, w\<lparr>hp := h\<rparr>) }
      else Some (e, w))"

lemma take_next_decreases:
  assumes "take_next cmp p psize q qsize w = Some (e, p1, psize1, q1, qsize1, w1)"
    and "0 < psize \<or> 0 < qsize \<and> q \<noteq> 0"
  shows "psize1 + qsize1 < psize + qsize"
  using assms by (auto simp: take_next_def bind_eq_Some_conv split: if_splits)

lemma bind_six_cong [fundef_cong]:
  assumes "x = x'" and "\<And>a b c d e f. x' = Some (a, b, c, d, e, f) \<Longrightarrow> k a b c d e f = k' a b c d e f"
  shows "Option.bind x (\<lambda>(a, b, c, d, e, f). k a b c d e f) = Option.bind x' (\<lambda>(a, b, c, d, e, f). k' a b c d e f)"
  using assms by (cases x') auto

function merge_loop :: "cmp_fun \<Rightarrow> u32 \<Rightarrow> nat \<Rightarrow> u32 \<Rightarrow> nat \<Rightarrow> u32 \<Rightarrow> u32 \<Rightarrow> world \<Rightarrow> (u32 \<times> u32 \<times> u32 \<times> world) option" where
  "merge_loop cmp p psize q qsize list tail w =
     (if 0 < psize \<or> 0 < qsize \<and> q \<noteq> 0 then do {
        (e, p1, psize1, q1, qsize1, w1) \<leftarrow> take_next cmp p psize q qsize w;
        (list1, w2) \<leftarrow> append_cell e list tail w1;
        merge_loop cmp p1 psize1 q1 qsize1 list1 e w2 }
      else Some (q, list, tail, w))"
  by pat_completeness auto
termination
  by (relation "measure (\<lambda>(cmp, p, psize, q, qsize, list, tail, w). psize + qsize)")
    (auto dest: take_next_decreases)

declare merge_loop.simps [simp del]

text \<open>One pass: merge the runs of length \<open>insize\<close> pairwise, counting the merges.\<close>

partial_function (option) pass_loop :: "cmp_fun \<Rightarrow> nat \<Rightarrow> u32 \<Rightarrow> nat \<Rightarrow> u32 \<Rightarrow> u32 \<Rightarrow> world \<Rightarrow> (nat \<times> u32 \<times> u32 \<times> world) option" where
  "pass_loop cmp insize p nmerges list tail w =
     (if p \<noteq> 0 then do {
        (q, psize) \<leftarrow> walk (hp w) insize p 0;
        (q1, list1, tail1, w1) \<leftarrow> merge_loop cmp p psize q insize list tail w;
        pass_loop cmp insize q1 (nmerges + 1) list1 tail1 w1 }
      else Some (nmerges, list, tail, w))"

partial_function (option) sort_loop :: "cmp_fun \<Rightarrow> nat \<Rightarrow> u32 \<Rightarrow> world \<Rightarrow> (u32 \<times> world) option" where
  "sort_loop cmp insize list w = do {
     (nmerges, list1, tail, w1) \<leftarrow> pass_loop cmp insize list 0 0 0 w;
     h \<leftarrow> set_next tail 0 (hp w1);
     let w2 = w1\<lparr>hp := h\<rparr>;
     if nmerges \<le> 1 then Some (list1, w2) else sort_loop cmp (insize * 2) list1 w2 }"

definition core_list_mergesort :: "u32 \<Rightarrow> cmp_fun \<Rightarrow> world \<Rightarrow> (u32 \<times> world) option" where
  "core_list_mergesort list cmp w = sort_loop cmp 1 list w"


section \<open>Building the list\<close>

text \<open>The data of item \<open>i\<close>: a pattern from the seed and the algorithm number, in both bytes.\<close>

definition item_data :: "s16 \<Rightarrow> u32 \<Rightarrow> s16" where
  "item_data seed i =
     (let datpat = (seed XOR ucast i) AND 0xf;
          dat = push_bit 3 datpat OR (ucast i AND 0x7)
      in push_bit 8 dat OR dat)"

function insert_items :: "u32 \<Rightarrow> u32 \<Rightarrow> s16 \<Rightarrow> u32 \<Rightarrow> u32 \<Rightarrow> u32 \<Rightarrow> u32 \<Rightarrow> u32 \<Rightarrow> heap \<Rightarrow> heap option" where
  "insert_items i sz seed list memblock datablock memblock_end datablock_end h =
     (if i < sz then do {
        (_, memblock1, datablock1, h1) \<leftarrow>
          core_list_insert_new list \<lparr>data16 = item_data seed i, didx = 0x7fff\<rparr> memblock datablock memblock_end datablock_end h;
        insert_items (i + 1) sz seed list memblock1 datablock1 memblock_end datablock_end h1 }
      else Some h)"
  by pat_completeness auto
termination
  by (relation "measure (\<lambda>(i, sz, _). unat sz - unat i)")
    (auto simp: unat_count word_less_nat_alt)

declare insert_items.simps [simp del]

text \<open>The index of cell \<open>i\<close>; \<open>i\<close> is already incremented where the pattern reads it again.\<close>

definition item_idx :: "u32 \<Rightarrow> u32 \<Rightarrow> s16 \<Rightarrow> s16" where
  "item_idx i sz seed =
     (if i < sz div 5 then ucast i
      else (let pat = ucast i XOR seed in
        0x3fff AND (push_bit 8 (ucast (i + 1) AND 0x07) OR pat)))"

partial_function (option) index_loop :: "u32 \<Rightarrow> u32 \<Rightarrow> u32 \<Rightarrow> s16 \<Rightarrow> heap \<Rightarrow> heap option" where
  "index_loop finder i sz seed h = do {
     n \<leftarrow> get_next h finder;
     if n \<noteq> 0 then do {
       d \<leftarrow> get_info h finder;
       h1 \<leftarrow> set_idx d (item_idx i sz seed) h;
       n1 \<leftarrow> get_next h1 finder;
       index_loop n1 (i + 1) sz seed h1 }
     else Some h }"

definition core_list_init :: "u32 \<Rightarrow> u32 \<Rightarrow> s16 \<Rightarrow> world \<Rightarrow> (u32 \<times> world) option" where
  "core_list_init blksize memblock seed w = do {
     let per_item = 16 + 4;
     let sz = blksize div per_item - 2;
     let memblock_end = memblock + 8 * sz;
     let datablock = memblock_end;
     let datablock_end = datablock + 4 * sz;
     let list = memblock;
     h1 \<leftarrow> set_next list 0 (hp w);
     h2 \<leftarrow> set_info list datablock h1;
     d \<leftarrow> get_info h2 list;
     h3 \<leftarrow> set_idx d 0x0000 h2;
     h4 \<leftarrow> set_data d 0x8080 h3;
     (_, memblock2, datablock2, h5) \<leftarrow>
       core_list_insert_new list \<lparr>data16 = 0xffff, didx = 0x7fff\<rparr> (memblock + 8) (datablock + 4) memblock_end datablock_end h4;
     h6 \<leftarrow> insert_items 0 sz seed list memblock2 datablock2 memblock_end datablock_end h5;
     finder \<leftarrow> get_next h6 list;
     h7 \<leftarrow> index_loop finder 1 sz seed h6;
     core_list_mergesort list (cmp_idx True) (w\<lparr>hp := h7\<rparr>) }"

section \<open>The benchmark\<close>

record finds =
  flist :: u32
  fret :: u16
  found :: u16
  missed :: u16
  finfo :: list_data

text \<open>One search: find, reverse, and move the cell after the found one to the second place.\<close>

definition find_step :: "s16 \<Rightarrow> finds \<Rightarrow> heap \<Rightarrow> (finds \<times> heap) option" where
  "find_step i b h = do {
     let info = (finfo b)\<lparr>data16 := i AND 0xff\<rparr>;
     this_find \<leftarrow> core_list_find h (flist b) info;
     (list, h1) \<leftarrow> core_list_reverse (flist b) h;
     (b1, h2) \<leftarrow>
       (if this_find = 0 then do {
          n \<leftarrow> get_next h1 list;
          d \<leftarrow> get_info h1 n;
          v \<leftarrow> get_data h1 d;
          Some (b\<lparr>missed := missed b + 1, fret := fret b + (signed_drop_bit 8 v AND 1)\<rparr>, h1) }
        else do {
          d \<leftarrow> get_info h1 this_find;
          v \<leftarrow> get_data h1 d;
          let ret = (if v AND 1 \<noteq> 0 then fret b + (signed_drop_bit 9 v AND 1) else fret b);
          finder \<leftarrow> get_next h1 this_find;
          h2 \<leftarrow> (if finder \<noteq> 0 then do {
              fn \<leftarrow> get_next h1 finder;
              ha \<leftarrow> set_next this_find fn h1;
              ln \<leftarrow> get_next ha list;
              hb \<leftarrow> set_next finder ln ha;
              set_next list finder hb }
            else Some h1);
          Some (b\<lparr>found := found b + 1, fret := ret\<rparr>, h2) });
     Some (b1\<lparr>flist := list,
       finfo := (if sint (didx info) \<ge> 0 then info\<lparr>didx := didx info + 1\<rparr> else info)\<rparr>, h2) }"

lemma sint_inc:
  fixes i j :: s16
  assumes "sint i < sint j"
  shows "sint (i + 1) = sint i + 1"
proof -
  have "sint i + 1 < 2 ^ (LENGTH(16) - 1)" and "- (2 ^ (LENGTH(16) - 1)) \<le> sint i"
    using assms sint_lt [of j] sint_ge [of i] by simp_all
  then show ?thesis
    by (simp add: sint_word_ariths signed_take_bit_int_eq_self)
qed

function find_loop :: "s16 \<Rightarrow> s16 \<Rightarrow> finds \<Rightarrow> heap \<Rightarrow> (finds \<times> heap) option" where
  "find_loop i find_num b h =
     (if sint i < sint find_num then do {
        (b1, h1) \<leftarrow> find_step i b h;
        find_loop (i + 1) find_num b1 h1 }
      else Some (b, h))"
  by pat_completeness auto
termination
  by (relation "measure (\<lambda>(i, find_num, b, h). nat (sint find_num - sint i))")
    (auto simp: sint_inc)

declare find_loop.simps [simp del]

text \<open>Add the data of the head to the check sum once for every cell from \<open>finder\<close> on.\<close>

partial_function (option) crc_walk :: "u32 \<Rightarrow> u32 \<Rightarrow> heap \<Rightarrow> u16 \<Rightarrow> u16 option" where
  "crc_walk list finder h retval =
     (if finder \<noteq> 0 then do {
        d \<leftarrow> get_info h list;
        v \<leftarrow> get_data h d;
        n \<leftarrow> get_next h finder;
        crc_walk list n h (crc16 v retval) }
      else Some retval)"

definition core_bench_list :: "u32 \<Rightarrow> s16 \<Rightarrow> world \<Rightarrow> (u16 \<times> u32 \<times> world) option" where
  "core_bench_list list0 finder_idx w = do {
     (b, h1) \<leftarrow> find_loop 0 (seed3 (res w))
       \<lparr>flist = list0, fret = 0, found = 0, missed = 0, finfo = \<lparr>data16 = 0, didx = finder_idx\<rparr>\<rparr> (hp w);
     let retval = fret b + (found b * 4 - missed b);
     let w1 = w\<lparr>hp := h1\<rparr>;
     (list, w2) \<leftarrow> (if sint finder_idx > 0 then core_list_mergesort (flist b) cmp_complex w1
                    else Some (flist b, w1));
     item \<leftarrow> get_next (hp w2) list;
     (remover, h3) \<leftarrow> core_list_remove item (hp w2);
     finder \<leftarrow> core_list_find h3 list (finfo b);
     finder1 \<leftarrow> (if finder = 0 then get_next h3 list else Some finder);
     retval1 \<leftarrow> crc_walk list finder1 h3 retval;
     item1 \<leftarrow> get_next h3 list;
     (_, h4) \<leftarrow> core_list_undo_remove remover item1 h3;
     (list1, w5) \<leftarrow> core_list_mergesort list (cmp_idx True) (w2\<lparr>hp := h4\<rparr>);
     finder2 \<leftarrow> get_next (hp w5) list1;
     retval2 \<leftarrow> crc_walk list1 finder2 (hp w5) retval1;
     Some (retval2, list1, w5) }"


section \<open>Lists in the heap\<close>

text \<open>\<open>path f p as q\<close>: from \<open>p\<close>, the links \<open>f\<close> lead through the cells \<open>as\<close> to \<open>q\<close>.\<close>

primrec path :: "(u32 \<Rightarrow> u32) \<Rightarrow> u32 \<Rightarrow> u32 list \<Rightarrow> u32 \<Rightarrow> bool" where
  "path f p [] q \<longleftrightarrow> p = q"
| "path f p (a # as) q \<longleftrightarrow> p = a \<and> a \<noteq> 0 \<and> path f (f a) as q"

abbreviation list_at :: "(u32 \<Rightarrow> u32) \<Rightarrow> u32 \<Rightarrow> u32 list \<Rightarrow> bool" where
  "list_at f p as \<equiv> path f p as 0"

lemma path_append [simp]: "path f p (as @ bs) q \<longleftrightarrow> (\<exists>r. path f p as r \<and> path f r bs q)"
  by (induction as arbitrary: p) auto

lemma path_upd [simp]: "a \<notin> set as \<Longrightarrow> path (f(a := b)) p as q = path f p as q"
  by (induction as arbitrary: p) auto

lemma path_cong: "(\<And>a. a \<in> set as \<Longrightarrow> f a = g a) \<Longrightarrow> path f p as q = path g p as q"
  by (induction as arbitrary: p) auto

lemma path_not_null: "path f p as q \<Longrightarrow> 0 \<notin> set as"
  by (induction as arbitrary: p) auto

lemma list_at_null [simp]: "list_at f 0 as \<longleftrightarrow> as = []"
  by (cases as) auto

lemma list_at_not_null: "p \<noteq> 0 \<Longrightarrow> list_at f p as \<longleftrightarrow> (\<exists>bs. as = p # bs \<and> list_at f (f p) bs)"
  by (cases as) auto

lemma list_at_unique: "list_at f p as \<Longrightarrow> list_at f p bs \<Longrightarrow> as = bs"
  by (induction as arbitrary: p bs) (auto simp: list_at_not_null)

lemma list_at_distinct: "list_at f p as \<Longrightarrow> distinct as"
proof (induction as arbitrary: p)
  case (Cons a as)
  then have tl: "list_at f (f a) as" and a: "a \<noteq> 0" by auto
  have "a \<notin> set as"
  proof
    assume "a \<in> set as"
    then obtain bs cs where as: "as = bs @ a # cs" by (meson split_list)
    with tl have "list_at f (f a) cs" by auto
    with tl have "as = cs" by (rule list_at_unique)
    with as show False by (metis append_Cons length_append length_Cons add_Suc_right less_add_Suc2 less_irrefl)
  qed
  with Cons tl show ?case by auto
qed simp

lemma path_last: "path f p (as @ [a]) q \<longleftrightarrow> path f p as a \<and> a \<noteq> 0 \<and> f a = q"
  by auto

section \<open>Find and reverse\<close>

definition idx_matches :: "heap \<Rightarrow> list_data \<Rightarrow> u32 \<Rightarrow> bool" where
  "idx_matches h info c \<longleftrightarrow> (if sint (didx info) \<ge> 0 then idx h (inf h c) = didx info
     else (scast (dat h (inf h c)) AND 0xff :: s32) = scast (data16 info))"

text \<open>All cells have a data item.\<close>

definition has_info :: "heap \<Rightarrow> u32 list \<Rightarrow> bool" where
  "has_info h xs \<longleftrightarrow> (\<forall>c\<in>set xs. inf h c \<noteq> 0)"

lemma has_info_simps [simp]:
  "has_info h []" "has_info h (c # xs) \<longleftrightarrow> inf h c \<noteq> 0 \<and> has_info h xs"
  "has_info h (xs @ ys) \<longleftrightarrow> has_info h xs \<and> has_info h ys"
  by (auto simp: has_info_def)

lemma find_by_idx_result:
  "list_at (nxt h) p xs \<Longrightarrow> has_info h xs \<Longrightarrow>
    find_by_idx h k p = Some (case dropWhile (\<lambda>c. idx h (inf h c) \<noteq> k) xs of [] \<Rightarrow> 0 | c # _ \<Rightarrow> c)"
  by (induction xs arbitrary: p) (auto simp: find_by_idx.simps)

lemma find_by_data_result:
  "list_at (nxt h) p xs \<Longrightarrow> has_info h xs \<Longrightarrow>
    find_by_data h k p = Some (case dropWhile (\<lambda>c. (scast (dat h (inf h c)) AND 0xff :: s32) \<noteq> scast k) xs of
      [] \<Rightarrow> 0 | c # _ \<Rightarrow> c)"
  by (induction xs arbitrary: p) (auto simp: find_by_data.simps)

lemma core_list_find_result:
  "list_at (nxt h) p xs \<Longrightarrow> has_info h xs \<Longrightarrow>
    core_list_find h p info = Some (case dropWhile (\<lambda>c. \<not> idx_matches h info c) xs of [] \<Rightarrow> 0 | c # _ \<Rightarrow> c)"
  unfolding core_list_find_def idx_matches_def
  by (cases "sint (didx info) \<ge> 0") (simp_all add: find_by_idx_result find_by_data_result)

lemma reverse_loop_result:
  assumes "list_at (nxt h) p as" and "list_at (nxt h) q bs" and "set as \<inter> set bs = {}"
  shows "\<exists>f. reverse_loop p q h = Some (case rev as @ bs of [] \<Rightarrow> 0 | c # _ \<Rightarrow> c, h\<lparr>nxt := f\<rparr>)
    \<and> list_at f (case rev as @ bs of [] \<Rightarrow> 0 | c # _ \<Rightarrow> c) (rev as @ bs)
    \<and> (\<forall>x. x \<notin> set as \<longrightarrow> f x = nxt h x)"
  using assms
proof (induction as arbitrary: p q bs h)
  case Nil
  then have "q = (case bs of [] \<Rightarrow> 0 | c # _ \<Rightarrow> c)" by (cases bs) auto
  with Nil show ?case
    by (intro exI [of _ "nxt h"]) (simp add: reverse_loop.simps [of 0])
next
  case (Cons a as)
  let ?h = "h\<lparr>nxt := (nxt h)(a := q)\<rparr>"
  have a: "p = a" "a \<noteq> 0" "list_at (nxt h) (nxt h a) as" and notin: "a \<notin> set as" "a \<notin> set bs"
    using Cons.prems list_at_distinct [OF Cons.prems(1)] by auto
  have 1: "list_at (nxt ?h) (nxt h a) as" and 2: "list_at (nxt ?h) a (a # bs)"
    and 3: "set as \<inter> set (a # bs) = {}"
    using Cons.prems a notin by auto
  from Cons.IH [OF 1 2 3] obtain f where
    f: "reverse_loop (nxt h a) a ?h = Some (case rev as @ a # bs of [] \<Rightarrow> 0 | c # _ \<Rightarrow> c, ?h\<lparr>nxt := f\<rparr>)"
      "list_at f (case rev as @ a # bs of [] \<Rightarrow> 0 | c # _ \<Rightarrow> c) (rev as @ a # bs)"
      "\<forall>x. x \<notin> set as \<longrightarrow> f x = nxt ?h x"
    by (elim exE conjE)
  show ?case
    by (rule exI [of _ f]) (use f a notin in \<open>auto simp: reverse_loop.simps [of a]\<close>)
qed


lemma hd_eq_case: "list_at f p xs \<Longrightarrow> p = (case xs of [] \<Rightarrow> 0 | c # _ \<Rightarrow> c)"
  by (cases xs) auto

lemma core_list_reverse_result:
  assumes "list_at (nxt h) p xs"
  obtains q f where "core_list_reverse p h = Some (q, h\<lparr>nxt := f\<rparr>)" and "list_at f q (rev xs)"
    and "\<And>x. x \<notin> set xs \<Longrightarrow> f x = nxt h x"
proof -
  have "list_at (nxt h) 0 []" "set xs \<inter> set [] = {}" by simp_all
  from reverse_loop_result [OF assms this] obtain f
    where "reverse_loop p 0 h = Some (case rev xs @ [] of [] \<Rightarrow> 0 | c # _ \<Rightarrow> c, h\<lparr>nxt := f\<rparr>)"
      and "list_at f (case rev xs @ [] of [] \<Rightarrow> 0 | c # _ \<Rightarrow> c) (rev xs @ [])"
      and "\<forall>x. x \<notin> set xs \<longrightarrow> f x = nxt h x"
    by (elim exE conjE)
  then show thesis
    using that [of "case rev xs of [] \<Rightarrow> 0 | c # _ \<Rightarrow> c" f] by (simp add: core_list_reverse_def)
qed

section \<open>Remove and undo\<close>

text \<open>The heap after the cell behind \<open>item\<close> has been taken out: \<open>item\<close> has its data item.\<close>

definition unlinked :: "u32 \<Rightarrow> u32 \<Rightarrow> heap \<Rightarrow> heap" where
  "unlinked item rcell h = h\<lparr>nxt := (nxt h)(item := nxt h rcell, rcell := 0),
     inf := (inf h)(item := inf h rcell, rcell := inf h item)\<rparr>"

lemma core_list_remove_result:
  assumes "item \<noteq> 0" and "nxt h item = rcell" and "rcell \<noteq> 0"
  shows "core_list_remove item h = Some (rcell, unlinked item rcell h)"
  using assms by (simp add: core_list_remove_def unlinked_def)

lemma core_list_undo_remove_result:
  assumes "item \<noteq> 0" and "nxt h item = rcell" and "rcell \<noteq> 0" and "item \<noteq> rcell"
  shows "core_list_undo_remove rcell item (unlinked item rcell h) = Some (rcell, h)"
proof -
  have "h\<lparr>nxt := nxt h, inf := inf h\<rparr> = h" by simp
  moreover have "(nxt h)(item := nxt h rcell, rcell := nxt h rcell, item := rcell) = nxt h"
    and "(inf h)(item := inf h rcell, rcell := inf h rcell, item := inf h item) = inf h"
    using assms by (auto simp: fun_eq_iff)
  ultimately show ?thesis
    using assms by (simp add: core_list_undo_remove_def unlinked_def)
qed

lemma unlinked_list:
  assumes "list_at (nxt h) item (item # rcell # xs)"
  shows "list_at (nxt (unlinked item rcell h)) item (item # xs)"
    and "map (inf (unlinked item rcell h)) (item # xs) = map (inf h) (rcell # xs)"
proof -
  have "distinct (item # rcell # xs)" by (rule list_at_distinct [OF assms])
  with assms show "list_at (nxt (unlinked item rcell h)) item (item # xs)"
    and "map (inf (unlinked item rcell h)) (item # xs) = map (inf h) (rcell # xs)"
    by (auto simp: unlinked_def)
qed

lemma first_match:
  "(case dropWhile (\<lambda>c. \<not> P c) xs of [] \<Rightarrow> d | c # _ \<Rightarrow> c) = (case List.find P xs of None \<Rightarrow> d | Some c \<Rightarrow> c)"
  by (induction xs) auto

section \<open>Properties\<close>

text \<open>\<open>core_list_find\<close> returns the first cell whose index (for a negative index, whose data byte)
  is the wanted one, and NULL when the list has none.\<close>

theorem core_list_find_first:
  assumes "list_at (nxt h) p xs" and "has_info h xs"
  shows "core_list_find h p info = Some (case List.find (idx_matches h info) xs of None \<Rightarrow> 0 | Some c \<Rightarrow> c)"
  using core_list_find_result [OF assms, of info]
  by (simp add: first_match)

lemma core_list_find_first_witness:
  "core_list_find \<lparr>nxt = (\<lambda>_. 0)(8 := 16), inf = (\<lambda>c. c + 100), dat = (\<lambda>_. 5), idx = (\<lambda>d. if d = 116 then 2 else 1)\<rparr>
    8 \<lparr>data16 = 0, didx = 2\<rparr> = Some 16"
proof -
  let ?h = "\<lparr>nxt = (\<lambda>_. 0)(8 := 16), inf = (\<lambda>c. c + 100), dat = (\<lambda>_. 5), idx = (\<lambda>d. if d = 116 then 2 else 1)\<rparr>"
  have "list_at (nxt ?h) 8 [8, 16]" and "has_info ?h [8, 16]" by simp_all
  from core_list_find_first [OF this, of "\<lparr>data16 = 0, didx = 2\<rparr>"] show ?thesis
    by (simp add: idx_matches_def)
qed

text \<open>\<open>core_list_reverse\<close> reverses the list in place: the links of its cells change so that they
  lead through the cells in the opposite order, and nothing else of the heap changes.\<close>

theorem core_list_reverse_reverses:
  assumes "list_at (nxt h) p xs"
  shows "\<exists>f. core_list_reverse p h = Some (if xs = [] then 0 else last xs, h\<lparr>nxt := f\<rparr>)
    \<and> list_at f (if xs = [] then 0 else last xs) (rev xs) \<and> (\<forall>x. x \<notin> set xs \<longrightarrow> f x = nxt h x)"
proof -
  from core_list_reverse_result [OF assms] obtain q f where f: "core_list_reverse p h = Some (q, h\<lparr>nxt := f\<rparr>)"
    "list_at f q (rev xs)" "\<And>x. x \<notin> set xs \<Longrightarrow> f x = nxt h x" by metis
  have "q = (if xs = [] then 0 else last xs)"
    using hd_eq_case [OF f(2)] by (cases xs rule: rev_cases) auto
  with f show ?thesis by auto
qed

lemma core_list_reverse_reverses_witness:
  "\<exists>f. core_list_reverse 8 \<lparr>nxt = (\<lambda>_. 0)(8 := 16, 16 := 24), inf = (\<lambda>c. 0), dat = (\<lambda>_. 5), idx = (\<lambda>d. 0)\<rparr>
      = Some (24, \<lparr>nxt = f, inf = (\<lambda>c. 0), dat = (\<lambda>_. 5), idx = (\<lambda>d. 0)\<rparr>)
    \<and> list_at f 24 [24, 16, 8] \<and> f 32 = 0"
  using core_list_reverse_reverses [of "\<lparr>nxt = (\<lambda>_. 0)(8 := 16, 16 := 24), inf = (\<lambda>c. 0), dat = (\<lambda>_. 5), idx = (\<lambda>d. 0)\<rparr>"
      8 "[8, 16, 24]"] by auto

text \<open>\<open>core_list_remove\<close> drops the first data item of the list that starts at its argument, keeping
  the cell, and \<open>core_list_undo_remove\<close> puts the heap back exactly as it was.\<close>

theorem core_list_remove_undo:
  assumes "list_at (nxt h) item (item # rcell # xs)"
  shows "\<exists>h1. core_list_remove item h = Some (rcell, h1) \<and> list_at (nxt h1) item (item # xs)
    \<and> map (inf h1) (item # xs) = map (inf h) (rcell # xs) \<and> core_list_undo_remove rcell item h1 = Some (rcell, h)"
proof (intro exI conjI)
  have "item \<noteq> 0" "nxt h item = rcell" "rcell \<noteq> 0" "item \<noteq> rcell"
    using assms list_at_distinct [OF assms] by auto
  then show "core_list_remove item h = Some (rcell, unlinked item rcell h)"
    and "core_list_undo_remove rcell item (unlinked item rcell h) = Some (rcell, h)"
    by (simp_all add: core_list_remove_result core_list_undo_remove_result)
qed (use unlinked_list [OF assms] in simp_all)

lemma core_list_remove_undo_witness:
  "\<exists>h1. core_list_remove 8 \<lparr>nxt = (\<lambda>_. 0)(8 := 16, 16 := 24), inf = (\<lambda>c. c + 100), dat = (\<lambda>_. 5), idx = (\<lambda>d. 0)\<rparr> = Some (16, h1)
    \<and> list_at (nxt h1) 8 [8, 24] \<and> map (inf h1) [8, 24] = [116, 124]
    \<and> core_list_undo_remove 16 8 h1
      = Some (16, \<lparr>nxt = (\<lambda>_. 0)(8 := 16, 16 := 24), inf = (\<lambda>c. c + 100), dat = (\<lambda>_. 5), idx = (\<lambda>d. 0)\<rparr>)"
  using core_list_remove_undo [of "\<lparr>nxt = (\<lambda>_. 0)(8 := 16, 16 := 24), inf = (\<lambda>c. c + 100), dat = (\<lambda>_. 5), idx = (\<lambda>d. 0)\<rparr>"
      8 16 "[24]"] by simp

end
