(* ===== verification/Core_Sort.thy ===== *)
theory Core_Sort
  imports Core_List
begin

text \<open>
  The merge sort of the list benchmark. The locale \<open>stable_order\<close> states what the sort relies on
  in its comparison function; inside it, the sort is shown to return a stable sorted rearrangement of
  the cells. The comparison by index and the comparison by cached results interpret it.
\<close>

section \<open>The contract of a comparison function\<close>

text \<open>\<open>ok D w\<close>: the data items \<open>D\<close> can be compared in \<open>w\<close>; \<open>ext D w w'\<close>: what comparisons of \<open>D\<close>, and
  relinking the cells, may change; \<open>le\<close> and \<open>lt\<close>: the order of two data items that have been compared.\<close>

locale stable_order =
  fixes cmp :: cmp_fun
    and ok :: "u32 set \<Rightarrow> world \<Rightarrow> bool"
    and ext :: "u32 set \<Rightarrow> world \<Rightarrow> world \<Rightarrow> bool"
    and le :: "world \<Rightarrow> u32 \<Rightarrow> u32 \<Rightarrow> bool"
    and lt :: "world \<Rightarrow> u32 \<Rightarrow> u32 \<Rightarrow> bool"
  assumes cmp_total: "ok D w \<Longrightarrow> a \<in> D \<Longrightarrow> b \<in> D \<Longrightarrow> \<exists>c w'. cmp a b w = Some (c, w') \<and> ok D w' \<and> ext D w w'
      \<and> nxt (hp w') = nxt (hp w) \<and> (if sint c \<le> 0 then le w' a b else lt w' b a)"
    and ok_links: "ok D w \<Longrightarrow> ok D (w\<lparr>hp := (hp w)\<lparr>nxt := f\<rparr>\<rparr>)"
    and ext_links: "ext D w (w\<lparr>hp := (hp w)\<lparr>nxt := f\<rparr>\<rparr>)"
    and ext_refl: "ext D w w"
    and ext_trans: "ext D w w' \<Longrightarrow> ext D w' w'' \<Longrightarrow> ext D w w''"
    and ext_inf: "ext D w w' \<Longrightarrow> inf (hp w') = inf (hp w)"
    and le_ext: "ext D w w' \<Longrightarrow> a \<in> D \<Longrightarrow> b \<in> D \<Longrightarrow> le w a b \<Longrightarrow> le w' a b"
    and lt_ext: "ext D w w' \<Longrightarrow> a \<in> D \<Longrightarrow> b \<in> D \<Longrightarrow> lt w a b \<Longrightarrow> lt w' a b"
    and le_trans: "le w a b \<Longrightarrow> le w b c \<Longrightarrow> le w a c"
    and lt_le: "lt w a b \<Longrightarrow> le w a b"
    and lt_le_trans: "lt w a b \<Longrightarrow> le w b c \<Longrightarrow> lt w a c"
    and le_lt_trans: "le w a b \<Longrightarrow> lt w b c \<Longrightarrow> lt w a c"

text \<open>Cell \<open>a\<close> comes before cell \<open>b\<close> in the sorted list: a smaller item, or one that is not greater
  and stood before it.\<close>

definition ranked :: "(world \<Rightarrow> u32 \<Rightarrow> u32 \<Rightarrow> bool) \<Rightarrow> (world \<Rightarrow> u32 \<Rightarrow> u32 \<Rightarrow> bool) \<Rightarrow> (u32 \<Rightarrow> nat) \<Rightarrow> world \<Rightarrow> u32 \<Rightarrow> u32 \<Rightarrow> bool" where
  "ranked le lt pos w a b \<longleftrightarrow> lt w (inf (hp w) a) (inf (hp w) b)
     \<or> le w (inf (hp w) a) (inf (hp w) b) \<and> pos a < pos b"

text \<open>The cells merged so far: linked from \<open>list\<close> to \<open>tail\<close>, whose own link is still open.\<close>

definition merged :: "(u32 \<Rightarrow> u32) \<Rightarrow> u32 \<Rightarrow> u32 \<Rightarrow> u32 list \<Rightarrow> bool" where
  "merged f list tail out \<longleftrightarrow>
     (if out = [] then list = 0 \<and> tail = 0
      else tail = last out \<and> tail \<noteq> 0 \<and> path f list (butlast out) tail)"

lemma append_cell_merged:
  assumes "merged (nxt (hp w)) list tail out" and "e \<noteq> 0" and "distinct out"
  shows "\<exists>list1 f. append_cell e list tail w = Some (list1, w\<lparr>hp := (hp w)\<lparr>nxt := f\<rparr>\<rparr>)
    \<and> merged f list1 e (out @ [e]) \<and> (\<forall>x. x \<notin> set out \<longrightarrow> f x = nxt (hp w) x)"
proof (cases "out = []")
  case True
  then show ?thesis
    using assms by (intro exI [of _ e] exI [of _ "nxt (hp w)"]) (simp add: append_cell_def merged_def)
next
  case False
  then obtain bs where out: "out = bs @ [tail]" and path: "path (nxt (hp w)) list bs tail" and t: "tail \<noteq> 0"
    using assms by (cases out rule: rev_cases) (auto simp: merged_def)
  then show ?thesis
    using assms by (intro exI [of _ list] exI [of _ "(nxt (hp w))(tail := e)"]) (auto simp: append_cell_def merged_def butlast_append)
qed


context stable_order begin

lemma ranked_ext:
  assumes "ext D w w'" and "inf (hp w) ` {a, b} \<subseteq> D" and "ranked le lt pos w a b"
  shows "ranked le lt pos w' a b"
  using assms ext_inf [OF assms(1)] le_ext [OF assms(1)] lt_ext [OF assms(1)] by (auto simp: ranked_def)

lemma ranked_trans: "ranked le lt pos w a b \<Longrightarrow> ranked le lt pos w b c \<Longrightarrow> ranked le lt pos w a c"
  unfolding ranked_def by (meson le_trans lt_le_trans le_lt_trans lt_le less_trans)

lemma ranked_Cons: "ranked le lt pos w a b \<Longrightarrow> sorted_wrt (ranked le lt pos w) (b # bs) \<Longrightarrow> \<forall>c\<in>set (b # bs). ranked le lt pos w a c"
  using ranked_trans by auto

lemma sorted_ext:
  assumes "ext D w w'" and "inf (hp w) ` set xs \<subseteq> D" and "sorted_wrt (ranked le lt pos w) xs"
  shows "sorted_wrt (ranked le lt pos w') xs"
  using assms(3,2) by (induction xs) (auto intro: ranked_ext [OF assms(1)])

lemma take_next_result:
  assumes p: "path (nxt (hp w)) p ps r" and q: "list_at (nxt (hp w)) q qs"
    and more: "ps \<noteq> [] \<or> 0 < qsize \<and> qs \<noteq> []"
    and D: "ok D w" "inf (hp w) ` set (ps @ qs) \<subseteq> D"
    and sorted: "sorted_wrt (ranked le lt pos w) ps" "sorted_wrt (ranked le lt pos w) (take qsize qs)"
    and pos: "\<forall>a\<in>set ps. \<forall>b\<in>set (take qsize qs). pos a < pos b"
  shows "\<exists>e p' ps' q' qs' qsize' w'. take_next cmp p (length ps) q qsize w = Some (e, p', length ps', q', qsize', w')
    \<and> (ps = e # ps' \<and> qs' = qs \<and> qsize' = qsize \<or> ps' = ps \<and> qs = e # qs' \<and> qsize = Suc qsize')
    \<and> path (nxt (hp w)) p' ps' r \<and> list_at (nxt (hp w)) q' qs'
    \<and> ok D w' \<and> ext D w w' \<and> nxt (hp w') = nxt (hp w)
    \<and> (\<forall>b\<in>set ps' \<union> set (take qsize' qs'). ranked le lt pos w' e b)"
proof -
  consider (q) "ps = []" | (p) "ps \<noteq> []" "qsize = 0 \<or> qs = []" | (both) "ps \<noteq> []" "qsize \<noteq> 0" "qs \<noteq> []"
    by blast
  then show ?thesis
  proof cases
    case q
    then obtain e qs' qsize' where qs: "qs = e # qs'" "qsize = Suc qsize'"
      using more by (cases qs; cases qsize) auto
    then show ?thesis
      using q assms ext_refl by (intro exI [of _ e] exI [of _ p]) (auto simp: take_next_def)
  next
    case p
    then obtain e ps' where ps: "ps = e # ps'" by (cases ps) auto
    have q0: "qsize = 0 \<or> q = 0" using p(2) assms(2) by auto
    show ?thesis
      using p ps q0 assms ext_refl by (intro exI [of _ e] exI [of _ "nxt (hp w) e"]) (auto simp: take_next_def)
  next
    case both
    then obtain a ps' b qs' qsize' where
      ps: "ps = a # ps'" and qs: "qs = b # qs'" and qsize: "qsize = Suc qsize'"
      by (cases ps; cases qs; cases qsize) auto
    have ab: "p = a" "a \<noteq> 0" "q = b" "b \<noteq> 0" using p q ps qs by auto
    have "inf (hp w) a \<in> D" "inf (hp w) b \<in> D" using D(2) ps qs by auto
    from cmp_total [OF D(1) this] obtain c w' where c:
      "cmp (inf (hp w) a) (inf (hp w) b) w = Some (c, w')" "ok D w'" "ext D w w'" "nxt (hp w') = nxt (hp w)"
      "if sint c \<le> 0 then le w' (inf (hp w) a) (inf (hp w) b) else lt w' (inf (hp w) b) (inf (hp w) a)" by auto
    have inf: "inf (hp w') = inf (hp w)" by (rule ext_inf [OF c(3)])
    have sp: "sorted_wrt (ranked le lt pos w') ps"
      by (rule sorted_ext [OF c(3) _ sorted(1)]) (use D(2) in auto)
    have sq: "sorted_wrt (ranked le lt pos w') (take qsize qs)"
      by (rule sorted_ext [OF c(3) _ sorted(2)]) (use D(2) set_take_subset [of qsize qs] in auto)
    show ?thesis
    proof (cases "sint c \<le> 0")
      case True
      then have "ranked le lt pos w' a b" using c(5) pos inf ps qs qsize by (simp add: ranked_def)
      then have "\<forall>x\<in>set ps' \<union> set (take qsize qs). ranked le lt pos w' a x"
        using sp sq ps qs qsize ranked_Cons [of pos w' a b] by auto
      then show ?thesis
        using True ps qs ab c p q qsize by (intro exI [of _ a] exI [of _ "nxt (hp w) a"]) (auto simp: take_next_def)
    next
      case False
      then have "ranked le lt pos w' b a" using c(5) inf by (simp add: ranked_def)
      then have "\<forall>x\<in>set ps \<union> set (take qsize' qs'). ranked le lt pos w' b x"
        using sp sq ps qs qsize ranked_Cons [of pos w' b a] by auto
      then show ?thesis
        using False ps qs ab c p q qsize by (intro exI [of _ b] exI [of _ p]) (auto simp: take_next_def)
    qed
  qed
qed


text \<open>Merging the rest of two sorted runs, with \<open>out\<close> of these runs already behind \<open>out0\<close>.\<close>

lemma merge_loop_result:
  assumes "path (nxt (hp w)) p ps r" and "list_at (nxt (hp w)) q qs"
    and "merged (nxt (hp w)) list tail (out0 @ out)" and "distinct (out0 @ out @ ps @ qs)"
    and "ok D w" and "inf (hp w) ` set (out @ ps @ qs) \<subseteq> D"
    and "sorted_wrt (ranked le lt pos w) (out @ ps)" and "sorted_wrt (ranked le lt pos w) (out @ take qsize qs)"
    and "\<forall>a\<in>set ps. \<forall>b\<in>set (take qsize qs). pos a < pos b"
  shows "\<exists>q' list' tail' w' out'. merge_loop cmp p (length ps) q qsize list tail w = Some (q', list', tail', w')
    \<and> list_at (nxt (hp w')) q' (drop qsize qs) \<and> merged (nxt (hp w')) list' tail' (out0 @ out')
    \<and> mset out' = mset (out @ ps @ take qsize qs) \<and> sorted_wrt (ranked le lt pos w') out'
    \<and> ok D w' \<and> ext D w w' \<and> (\<forall>x. x \<notin> set (out0 @ out @ ps @ qs) \<longrightarrow> nxt (hp w') x = nxt (hp w) x)"
  using assms
proof (induction "length ps + qsize" arbitrary: p ps q qs qsize list tail out w rule: less_induct)
  case less
  show ?case
  proof (cases "ps \<noteq> [] \<or> 0 < qsize \<and> qs \<noteq> []")
    case False
    then have "ps = []" "take qsize qs = []" "drop qsize qs = qs" "\<not> (0 < length ps \<or> 0 < qsize \<and> q \<noteq> 0)"
      using less.prems(2) by auto
    then show ?thesis
      using less.prems ext_refl by (subst merge_loop.simps) auto
  next
    case True
    have Dpq: "inf (hp w) ` set (ps @ qs) \<subseteq> D" using less.prems(6) by auto
    have "sorted_wrt (ranked le lt pos w) ps" "sorted_wrt (ranked le lt pos w) (take qsize qs)"
      using less.prems(7,8) by (simp_all add: sorted_wrt_append)
    from take_next_result [OF less.prems(1,2) True less.prems(5) Dpq this less.prems(9)]
    obtain e p' ps' q' qs' qsize' w1 where
      step: "take_next cmp p (length ps) q qsize w = Some (e, p', length ps', q', qsize', w1)"
      and e: "ps = e # ps' \<and> qs' = qs \<and> qsize' = qsize \<or> ps' = ps \<and> qs = e # qs' \<and> qsize = Suc qsize'"
      and p': "path (nxt (hp w)) p' ps' r" and q': "list_at (nxt (hp w)) q' qs'"
      and w1: "ok D w1" "ext D w w1" "nxt (hp w1) = nxt (hp w)"
      and least: "\<forall>b\<in>set ps' \<union> set (take qsize' qs'). ranked le lt pos w1 e b" by blast
    have inf: "inf (hp w1) = inf (hp w)" by (rule ext_inf [OF w1(2)])
    have "e \<noteq> 0" using e less.prems(1,2) by auto
    moreover have "merged (nxt (hp w1)) list tail (out0 @ out)" "distinct (out0 @ out)"
      using less.prems(3,4) w1(3) by auto
    ultimately obtain list1 f where app: "append_cell e list tail w1 = Some (list1, w1\<lparr>hp := (hp w1)\<lparr>nxt := f\<rparr>\<rparr>)"
      and merged: "merged f list1 e ((out0 @ out) @ [e])" and f: "\<forall>x. x \<notin> set (out0 @ out) \<longrightarrow> f x = nxt (hp w1) x"
      using append_cell_merged [of w1 list tail "out0 @ out" e] by blast
    define w2 where "w2 = w1\<lparr>hp := (hp w1)\<lparr>nxt := f\<rparr>\<rparr>"
    have w2: "nxt (hp w2) = f" "inf (hp w2) = inf (hp w)" "ok D w2"
      using inf ok_links [OF w1(1)] by (simp_all add: w2_def)
    have ext1: "ext D w1 w2" unfolding w2_def by (rule ext_links)
    have ext: "ext D w w2" by (rule ext_trans [OF w1(2) ext1])
    have fresh: "\<And>x. x \<in> set (ps @ qs) \<Longrightarrow> nxt (hp w) x = f x"
      using f w1(3) less.prems(4) by auto
    have sub: "set ps' \<subseteq> set ps" "set qs' \<subseteq> set qs" "set (take qsize' qs') \<subseteq> set (take qsize qs)" using e by auto
    have Dall: "inf (hp w) ` set (out @ ps @ qs) \<subseteq> D" by (rule less.prems(6))
    have tk: "set (take qsize qs) \<subseteq> set qs" by (rule set_take_subset)
    have P1: "path (nxt (hp w2)) p' ps' r"
      unfolding w2 using p' by (rule iffD1 [OF path_cong, rotated]) (use fresh sub(1) in auto)
    have P2: "list_at (nxt (hp w2)) q' qs'"
      unfolding w2 using q' by (rule iffD1 [OF path_cong, rotated]) (use fresh sub(2) in auto)
    have P3: "merged (nxt (hp w2)) list1 e (out0 @ (out @ [e]))" using merged by (simp add: w2)
    have P4: "distinct (out0 @ (out @ [e]) @ ps' @ qs')" using less.prems(4) e by auto
    have P6: "inf (hp w2) ` set ((out @ [e]) @ ps' @ qs') \<subseteq> D" using Dall e by (auto simp: w2)
    have s1: "sorted_wrt (ranked le lt pos w2) (out @ ps)"
      by (rule sorted_ext [OF ext _ less.prems(7)]) (use Dall in auto)
    have s2: "sorted_wrt (ranked le lt pos w2) (out @ take qsize qs)"
      by (rule sorted_ext [OF ext _ less.prems(8)]) (use Dall tk in auto)
    have least2: "ranked le lt pos w2 e b" if "b \<in> set ps' \<union> set (take qsize' qs')" for b
    proof (rule ranked_ext [OF ext1])
      have "b \<in> set (ps @ qs)" "e \<in> set (ps @ qs)" using that sub(1,3) tk e by auto
      then have "inf (hp w) b \<in> D" "inf (hp w) e \<in> D" using Dall by auto
      then show "inf (hp w1) ` {e, b} \<subseteq> D" by (simp add: inf)
      show "ranked le lt pos w1 e b" using that least by blast
    qed
    have P7: "sorted_wrt (ranked le lt pos w2) ((out @ [e]) @ ps')"
      using s1 s2 least2 e by (auto simp: sorted_wrt_append)
    have P8: "sorted_wrt (ranked le lt pos w2) ((out @ [e]) @ take qsize' qs')"
      using s1 s2 least2 e by (auto simp: sorted_wrt_append)
    have P9: "\<forall>a\<in>set ps'. \<forall>b\<in>set (take qsize' qs'). pos a < pos b"
      using sub less.prems(9) by blast
    have "length ps' + qsize' < length ps + qsize" using e by auto
    from less.hyps [OF this P1 P2 P3 P4 w2(3) P6 P7 P8 P9] obtain q'' list' tail' w' out' where
      r: "merge_loop cmp p' (length ps') q' qsize' list1 e w2 = Some (q'', list', tail', w')"
        "list_at (nxt (hp w')) q'' (drop qsize' qs')" "merged (nxt (hp w')) list' tail' (out0 @ out')"
        "mset out' = mset ((out @ [e]) @ ps' @ take qsize' qs')" "sorted_wrt (ranked le lt pos w') out'"
        "ok D w'" "ext D w2 w'"
        "\<forall>x. x \<notin> set (out0 @ (out @ [e]) @ ps' @ qs') \<longrightarrow> nxt (hp w') x = nxt (hp w2) x"
      by (elim exE conjE)
    have guard: "0 < length ps \<or> 0 < qsize \<and> q \<noteq> 0" using True less.prems(2) by auto
    have run: "merge_loop cmp p (length ps) q qsize list tail w = Some (q'', list', tail', w')"
      using guard step app r(1) by (subst merge_loop.simps) (simp add: w2_def)
    have frame: "\<forall>x. x \<notin> set (out0 @ out @ ps @ qs) \<longrightarrow> nxt (hp w') x = nxt (hp w) x"
      using r(8) f w1(3) e sub by (auto simp: w2)
    show ?thesis
      by (intro exI conjI, rule run)
        (use r(2-6) ext_trans [OF ext r(7)] frame e in auto)
  qed
qed

end


section \<open>Passes\<close>

lemma walk_result:
  "list_at (nxt h) p xs \<Longrightarrow> xs \<noteq> [] \<Longrightarrow> \<exists>q. walk h n p k = Some (q, k + length (take n xs))
    \<and> list_at (nxt h) q (drop n xs) \<and> path (nxt h) p (take n xs) q"
proof (induction n arbitrary: p xs k)
  case (Suc n)
  then obtain ys where xs: "xs = p # ys" "p \<noteq> 0" "list_at (nxt h) (nxt h p) ys" by (cases xs) auto
  show ?case
  proof (cases "ys = []")
    case False
    with xs have "nxt h p \<noteq> 0" by auto
    with xs Suc.IH [OF xs(3) False, of "k + 1"] show ?thesis by auto
  qed (use xs in auto)
qed simp

text \<open>The list is a sequence of sorted runs of length \<open>n\<close>, each of cells that stood before the cells
  of the runs after it.\<close>

function runs_ok :: "(u32 \<Rightarrow> u32 \<Rightarrow> bool) \<Rightarrow> (u32 \<Rightarrow> nat) \<Rightarrow> nat \<Rightarrow> u32 list \<Rightarrow> bool" where
  "runs_ok R pos n xs =
     (if xs = [] \<or> n = 0 then True
      else sorted_wrt R (take n xs) \<and> (\<forall>a\<in>set (take n xs). \<forall>b\<in>set (drop n xs). pos a < pos b)
        \<and> runs_ok R pos n (drop n xs))"
  by pat_completeness auto
termination
  by (relation "measure (\<lambda>(R, pos, n, xs). length xs)") auto

declare runs_ok.simps [simp del]

lemma runs_ok_Nil [simp]: "runs_ok R pos n []"
  by (subst runs_ok.simps) simp

lemma runs_ok_mono:
  assumes "\<And>a b. a \<in> set xs \<Longrightarrow> b \<in> set xs \<Longrightarrow> R a b \<Longrightarrow> S a b" and "runs_ok R pos n xs"
  shows "runs_ok S pos n xs"
  using assms
proof (induction R pos n xs rule: runs_ok.induct)
  case (1 R pos n xs)
  have "runs_ok R pos n (drop n xs) \<Longrightarrow> runs_ok S pos n (drop n xs)" if "\<not> (xs = [] \<or> n = 0)"
    using 1(1) [OF that] 1(2) by (meson in_set_dropD)
  moreover have "sorted_wrt R (take n xs) \<Longrightarrow> sorted_wrt S (take n xs)"
    by (erule sorted_wrt_mono_rel [rotated]) (use 1(2) in \<open>blast dest: in_set_takeD\<close>)
  ultimately show ?case
    using 1(3) by (subst runs_ok.simps) (subst (asm) runs_ok.simps, auto)
qed

lemma runs_ok_one: "sorted_wrt (\<lambda>a b. pos a < pos b) xs \<Longrightarrow> runs_ok R pos 1 xs"
  by (induction xs) (auto simp: runs_ok.simps [of _ _ _ "_ # _"])

lemma runs_ok_sorted: "runs_ok R pos n xs \<Longrightarrow> 0 < n \<Longrightarrow> length xs \<le> n \<Longrightarrow> sorted_wrt R xs"
  by (auto simp: runs_ok.simps [of _ _ _ xs] split: if_splits)

lemma runs_ok_drop: "runs_ok R pos n xs \<Longrightarrow> 0 < n \<Longrightarrow> runs_ok R pos n (drop n xs)"
  by (cases "xs = []") (auto simp: runs_ok.simps [of _ _ _ xs])

text \<open>Two merged runs form one run of twice the length in front of the runs made from the rest.\<close>

lemma runs_ok_join:
  assumes n: "0 < n" and runs: "runs_ok R pos n xs" and xs: "xs \<noteq> []"
    and out: "mset out = mset (take (n + n) xs)" "sorted_wrt S out"
    and rest: "mset ys = mset (drop (n + n) xs)" "runs_ok S pos (n + n) ys"
  shows "runs_ok S pos (n + n) (out @ ys)"
proof -
  have len: "length out = length (take (n + n) xs)" "length ys = length (drop (n + n) xs)"
    using out(1) rest(1) by (metis size_mset)+
  then have cut: "take (n + n) (out @ ys) = out" "drop (n + n) (out @ ys) = ys"
    by (auto simp: min_def split: if_splits)
  have "pos a < pos b" if "a \<in> set out" "b \<in> set ys" for a b
  proof -
    have a: "a \<in> set (take n xs) \<or> a \<in> set (take n (drop n xs))"
      using that(1) mset_eq_setD [OF out(1)] by (auto simp: take_add)
    have b: "b \<in> set (drop n (drop n xs))"
      using that(2) mset_eq_setD [OF rest(1)] by (simp add: add.commute)
    have "\<forall>a\<in>set (take n xs). \<forall>b\<in>set (drop n xs). pos a < pos b"
      and "\<forall>a\<in>set (take n (drop n xs)). \<forall>b\<in>set (drop n (drop n xs)). pos a < pos b"
      using runs runs_ok_drop [OF runs n] xs n b
      by (auto simp: runs_ok.simps [of _ _ _ xs] runs_ok.simps [of _ _ _ "drop n xs"] split: if_splits)
    then show ?thesis using a b in_set_dropD [OF b] by blast
  qed
  moreover have "out @ ys \<noteq> []" using xs n len by (auto simp: min_def split: if_splits)
  ultimately show ?thesis
    using n out(2) rest(2) cut by (auto simp: runs_ok.simps [of _ _ _ "out @ ys"])
qed

lemma merged_close:
  assumes "merged f list tail out" and "out \<noteq> []" and "distinct out"
  shows "tail \<noteq> 0" and "list_at (f(tail := 0)) list out" and "tail \<in> set out"
proof -
  obtain bs where out: "out = bs @ [tail]" using assms by (cases out rule: rev_cases) (auto simp: merged_def)
  with assms show "tail \<noteq> 0" and "list_at (f(tail := 0)) list out" and "tail \<in> set out"
    by (auto simp: merged_def)
qed


context stable_order begin

lemma runs_ext:
  assumes "ext D w w'" and "inf (hp w) ` set xs \<subseteq> D" and "runs_ok (ranked le lt pos w) pos n xs"
  shows "runs_ok (ranked le lt pos w') pos n xs"
  by (rule runs_ok_mono [OF _ assms(3)]) (use assms(2) in \<open>auto intro!: ranked_ext [OF assms(1)]\<close>)

lemma pass_loop_result:
  assumes "0 < n" and "list_at (nxt (hp w)) p xs" and "merged (nxt (hp w)) list tail out0"
    and "distinct (out0 @ xs)" and "ok D w" and "inf (hp w) ` set xs \<subseteq> D"
    and "runs_ok (ranked le lt pos w) pos n xs"
  shows "\<exists>nm list' tail' w' ys. pass_loop cmp n p k list tail w = Some (k + nm, list', tail', w')
    \<and> merged (nxt (hp w')) list' tail' (out0 @ ys) \<and> mset ys = mset xs
    \<and> runs_ok (ranked le lt pos w') pos (n + n) ys \<and> (nm = 0 \<longleftrightarrow> xs = []) \<and> (nm \<le> 1 \<longleftrightarrow> length xs \<le> n + n)
    \<and> ok D w' \<and> ext D w w' \<and> (\<forall>x. x \<notin> set (out0 @ xs) \<longrightarrow> nxt (hp w') x = nxt (hp w) x)"
  using assms
proof (induction "length xs" arbitrary: xs p k list tail out0 w rule: less_induct)
  case less
  show ?case
  proof (cases "xs = []")
    case True
    then show ?thesis
      using less.prems ext_refl
      by (intro exI [of _ 0] exI [of _ list] exI [of _ tail] exI [of _ w] exI [of _ "[]"])
        (simp add: pass_loop.simps [of _ _ 0])
  next
    case False
    let ?ps = "take n xs" and ?qs = "drop n xs"
    have p: "p \<noteq> 0" using False less.prems(2) by auto
    have split: "?ps @ ?qs = xs" by simp
    obtain q where walk: "walk (hp w) n p 0 = Some (q, length ?ps)" and q: "list_at (nxt (hp w)) q ?qs"
      and path: "path (nxt (hp w)) p ?ps q"
      using walk_result [OF less.prems(2) False, of n 0] by auto
    have runs: "sorted_wrt (ranked le lt pos w) ?ps" "\<forall>a\<in>set ?ps. \<forall>b\<in>set ?qs. pos a < pos b"
        "runs_ok (ranked le lt pos w) pos n ?qs"
      using less.prems(1,7) False by (auto simp: runs_ok.simps [of _ _ _ xs] split: if_splits)
    have sorted_q: "sorted_wrt (ranked le lt pos w) (take n ?qs)"
      using runs(3) less.prems(1) by (cases "?qs = []") (auto simp: runs_ok.simps [of _ _ _ ?qs] split: if_splits)
    have set_xs: "set ?ps \<union> set ?qs = set xs" by (metis append_take_drop_id set_append)
    have pos_pq: "\<forall>a\<in>set ?ps. \<forall>b\<in>set (take n ?qs). pos a < pos b" using runs(2) by (blast dest: in_set_takeD)
    have m0: "merged (nxt (hp w)) list tail (out0 @ [])" using less.prems(3) by simp
    have d0: "distinct (out0 @ [] @ ?ps @ ?qs)" using less.prems(4) by (simp del: distinct_append)
    have D0: "inf (hp w) ` set ([] @ ?ps @ ?qs) \<subseteq> D" using less.prems(6) by (simp del: set_append)
    have s0: "sorted_wrt (ranked le lt pos w) ([] @ ?ps)" "sorted_wrt (ranked le lt pos w) ([] @ take n ?qs)"
      using runs(1) sorted_q by simp_all
    from merge_loop_result [OF path q m0 d0 less.prems(5) D0 s0 pos_pq]
    obtain q' list1 tail1 w1 out' where
      merge: "merge_loop cmp p (length ?ps) q n list tail w = Some (q', list1, tail1, w1)"
      and q': "list_at (nxt (hp w1)) q' (drop n ?qs)" and m1: "merged (nxt (hp w1)) list1 tail1 (out0 @ out')"
      and out': "mset out' = mset ([] @ ?ps @ take n ?qs)" "sorted_wrt (ranked le lt pos w1) out'"
      and w1: "ok D w1" "ext D w w1" "\<forall>x. x \<notin> set (out0 @ [] @ ?ps @ ?qs) \<longrightarrow> nxt (hp w1) x = nxt (hp w) x"
      by (elim exE conjE)
    have inf: "inf (hp w1) = inf (hp w)" by (rule ext_inf [OF w1(2)])
    let ?rest = "drop n ?qs"
    have rest: "?rest = drop (n + n) xs" by simp
    have two: "[] @ ?ps @ take n ?qs = take (n + n) xs" by (simp add: take_add)
    have out_m: "mset out' = mset (take (n + n) xs)" using out'(1) unfolding two .
    have msplit: "mset xs = mset out' + mset ?rest"
      unfolding out_m rest by (simp flip: mset_append)
    have set: "set xs = set out' \<union> set ?rest"
      using arg_cong [OF msplit, of set_mset] by simp
    have less_len: "length ?rest < length xs" using less.prems(1) False by (cases xs) auto
    have dist: "distinct ((out0 @ out') @ ?rest)"
    proof -
      have "mset (out' @ ?rest) = mset xs" using msplit by simp
      then have "distinct (out' @ ?rest) = distinct xs" "set (out' @ ?rest) = set xs"
        by (rule mset_eq_imp_distinct_iff, rule mset_eq_setD)
      then show ?thesis using less.prems(4) by auto
    qed
    have rest_ok: "runs_ok (ranked le lt pos w1) pos n ?rest"
      by (rule runs_ext [OF w1(2)])
        (use less.prems(6) set runs_ok_drop [OF runs(3) less.prems(1)] in auto)
    have rest_D: "inf (hp w1) ` set ?rest \<subseteq> D" using less.prems(6) set inf by auto
    from less.hyps [OF less_len less.prems(1) q' m1 dist w1(1) rest_D rest_ok, of "k + 1"]
    obtain nm list' tail' w' ys where
      r: "pass_loop cmp n q' (k + 1) list1 tail1 w1 = Some (k + 1 + nm, list', tail', w')"
        "merged (nxt (hp w')) list' tail' ((out0 @ out') @ ys)" "mset ys = mset ?rest"
        "runs_ok (ranked le lt pos w') pos (n + n) ys" "nm = 0 \<longleftrightarrow> ?rest = []" "ok D w'" "ext D w1 w'"
        "\<forall>x. x \<notin> set ((out0 @ out') @ ?rest) \<longrightarrow> nxt (hp w') x = nxt (hp w1) x"
      by (elim exE conjE)
    have run: "pass_loop cmp n p k list tail w = Some (k + Suc nm, list', tail', w')"
      using p walk merge r(1) by (subst pass_loop.simps) simp
    have sorted': "sorted_wrt (ranked le lt pos w') out'"
      by (rule sorted_ext [OF r(7) _ out'(2)]) (use less.prems(6) set inf in auto)
    have joined: "runs_ok (ranked le lt pos w') pos (n + n) (out' @ ys)"
      by (rule runs_ok_join [OF less.prems(1,7) False _ sorted'])
        (use out_m r(3,4) rest in simp_all)
    have count: "Suc nm \<le> 1 \<longleftrightarrow> length xs \<le> n + n" using r(5) rest by simp
    show ?thesis
    proof (intro exI conjI)
      show "pass_loop cmp n p k list tail w = Some (k + Suc nm, list', tail', w')" by (rule run)
      show "merged (nxt (hp w')) list' tail' (out0 @ (out' @ ys))" using r(2) by simp
      show "mset (out' @ ys) = mset xs" using msplit r(3) by simp
      show "ext D w w'" by (rule ext_trans [OF w1(2) r(7)])
      show "\<forall>x. x \<notin> set (out0 @ xs) \<longrightarrow> nxt (hp w') x = nxt (hp w) x"
        using w1(3) r(8) set set_xs by auto
    qed (use joined count r(6) False in auto)
  qed
qed

lemma sort_loop_result:
  assumes "0 < n" and "list_at (nxt (hp w)) list xs" and "xs \<noteq> []" and "ok D w" and "inf (hp w) ` set xs \<subseteq> D"
    and "runs_ok (ranked le lt pos w) pos n xs"
  shows "\<exists>list' w' ys. sort_loop cmp n list w = Some (list', w') \<and> list_at (nxt (hp w')) list' ys
    \<and> mset ys = mset xs \<and> sorted_wrt (ranked le lt pos w') ys \<and> ok D w' \<and> ext D w w'
    \<and> (\<forall>x. x \<notin> set xs \<longrightarrow> nxt (hp w') x = nxt (hp w) x)"
  using assms
proof (induction "length xs - n" arbitrary: n list xs w rule: less_induct)
  case less
  have "merged (nxt (hp w)) 0 0 []" by (simp add: merged_def)
  moreover have "distinct ([] @ xs)" using list_at_distinct [OF less.prems(2)] by simp
  ultimately obtain nm list1 tail1 w1 ys where
    pass: "pass_loop cmp n list 0 0 0 w = Some (0 + nm, list1, tail1, w1)"
    and m: "merged (nxt (hp w1)) list1 tail1 ([] @ ys)" and ys: "mset ys = mset xs"
    and runs: "runs_ok (ranked le lt pos w1) pos (n + n) ys" and count: "nm \<le> 1 \<longleftrightarrow> length xs \<le> n + n"
    and w1: "ok D w1" "ext D w w1" "\<forall>x. x \<notin> set ([] @ xs) \<longrightarrow> nxt (hp w1) x = nxt (hp w) x"
    using pass_loop_result [OF less.prems(1,2) _ _ less.prems(4,5,6), of 0 0 "[]" 0] by blast
  have ne: "ys \<noteq> []" using ys less.prems(3) by auto
  have dist: "distinct ys" using mset_eq_imp_distinct_iff [OF ys] list_at_distinct [OF less.prems(2)] by simp
  have set: "set ys = set xs" by (rule mset_eq_setD [OF ys])
  define w2 where "w2 = w1\<lparr>hp := (hp w1)\<lparr>nxt := (nxt (hp w1))(tail1 := 0)\<rparr>\<rparr>"
  note close = merged_close [OF m [simplified] ne dist]
  have w2: "ok D w2" "ext D w1 w2" unfolding w2_def by (rule ok_links [OF w1(1)], rule ext_links)
  have ext: "ext D w w2" by (rule ext_trans [OF w1(2) w2(2)])
  have l2: "list_at (nxt (hp w2)) list1 ys" using close(2) by (simp add: w2_def)
  have inf: "inf (hp w2) = inf (hp w)" "inf (hp w1) = inf (hp w)"
    by (rule ext_inf [OF ext], rule ext_inf [OF w1(2)])
  have D2: "inf (hp w2) ` set ys \<subseteq> D" "inf (hp w1) ` set ys \<subseteq> D" using less.prems(5) set inf by simp_all
  have runs2: "runs_ok (ranked le lt pos w2) pos (n + n) ys" by (rule runs_ext [OF w2(2) D2(2) runs])
  have frame: "\<forall>x. x \<notin> set xs \<longrightarrow> nxt (hp w2) x = nxt (hp w) x"
    using w1(3) close(3) set by (auto simp: w2_def)
  have step: "sort_loop cmp n list w = (if nm \<le> 1 then Some (list1, w2) else sort_loop cmp (n + n) list1 w2)"
    using pass close(1) by (subst sort_loop.simps) (simp add: w2_def mult_2_right)
  show ?case
  proof (cases "nm \<le> 1")
    case True
    then have "sorted_wrt (ranked le lt pos w2) ys"
      using runs_ok_sorted [OF runs2] count ys less.prems(1) by (metis size_mset add_pos_pos)
    then show ?thesis using True step l2 ys w2(1) ext frame by auto
  next
    case False
    then have "length xs > n + n" using count by simp
    moreover have "length ys = length xs" using ys by (metis size_mset)
    ultimately have "length ys - (n + n) < length xs - n" "0 < n + n" using less.prems(1) by simp_all
    from less.hyps [OF this l2 ne w2(1) D2(1) runs2]
    show ?thesis
      using False step ys ext_trans [OF ext] frame set by auto
  qed
qed

lemma mergesort_result:
  assumes "list_at (nxt (hp w)) list xs" and "xs \<noteq> []" and "ok D w" and "inf (hp w) ` set xs \<subseteq> D"
    and "sorted_wrt (\<lambda>a b. pos a < pos b) xs"
  shows "\<exists>list' w' ys. core_list_mergesort list cmp w = Some (list', w') \<and> list_at (nxt (hp w')) list' ys
    \<and> mset ys = mset xs \<and> sorted_wrt (ranked le lt pos w') ys \<and> ok D w' \<and> ext D w w'
    \<and> (\<forall>x. x \<notin> set xs \<longrightarrow> nxt (hp w') x = nxt (hp w) x)"
  unfolding core_list_mergesort_def
  by (rule sort_loop_result [OF _ assms(1-4) runs_ok_one [OF assms(5)]]) simp

end


section \<open>A stably sorted rearrangement is unique\<close>

fun pos_in :: "u32 list \<Rightarrow> u32 \<Rightarrow> nat" where
  "pos_in [] c = 0"
| "pos_in (x # xs) c = (if c = x then 0 else Suc (pos_in xs c))"

lemma pos_in_sorted: "distinct xs \<Longrightarrow> sorted_wrt (\<lambda>a b. pos_in xs a < pos_in xs b) xs"
proof (induction xs)
  case (Cons x xs)
  have "sorted_wrt (\<lambda>a b. pos_in (x # xs) a < pos_in (x # xs) b) xs"
    by (rule sorted_wrt_mono_rel [of xs "\<lambda>a b. pos_in xs a < pos_in xs b"]) (use Cons in auto)
  with Cons show ?case by auto
qed simp

lemma pos_in_inj: "inj_on (pos_in xs) (set xs)"
  by (induction xs) (auto simp: inj_on_def)

lemma increasing_unique:
  assumes "sorted_wrt (\<lambda>a b. pos a < pos b) us" and "sorted_wrt (\<lambda>a b. pos a < (pos b :: nat)) vs"
    and "set us = set vs" and "inj_on pos (set vs)"
  shows "us = vs"
proof -
  have "map pos us = map pos vs"
    using assms by (intro strict_sorted_equal) (simp_all add: sorted_wrt_map)
  then show ?thesis using assms(3,4) by (simp add: map_inj_on)
qed

lemma sorted_stable_unique:
  fixes f :: "u32 \<Rightarrow> int"
  assumes "distinct xs" and "mset ys = mset xs"
    and "sorted_wrt (\<lambda>a b. f a < f b \<or> f a \<le> f b \<and> pos_in xs a < pos_in xs b) ys"
  shows "sort_key f xs = ys"
proof (rule properties_for_sort_key)
  have set: "set ys = set xs" by (rule mset_eq_setD [OF assms(2)])
  show "mset ys = mset xs" by (rule assms(2))
  show "sorted (map f ys)"
    unfolding sorted_map by (rule sorted_wrt_mono_rel [OF _ assms(3)]) auto
  fix k assume "k \<in> set ys"
  show "filter (\<lambda>x. f k = f x) ys = filter (\<lambda>x. f k = f x) xs"
  proof (rule increasing_unique)
    have "sorted_wrt (\<lambda>a b. f a < f b \<or> f a \<le> f b \<and> pos_in xs a < pos_in xs b) (filter (\<lambda>x. f k = f x) ys)"
      by (rule sorted_wrt_filter [OF assms(3)])
    then show "sorted_wrt (\<lambda>a b. pos_in xs a < pos_in xs b) (filter (\<lambda>x. f k = f x) ys)"
      by (rule sorted_wrt_mono_rel [rotated]) auto
    show "sorted_wrt (\<lambda>a b. pos_in xs a < pos_in xs b) (filter (\<lambda>x. f k = f x) xs)"
      by (rule sorted_wrt_filter [OF pos_in_sorted [OF assms(1)]])
  qed (use set in \<open>auto intro: inj_on_subset [OF pos_in_inj]\<close>)
qed

section \<open>Comparison by index\<close>

text \<open>What \<open>cmp_idx\<close> without results does to the data of an item: its high byte overwrites the low one.\<close>

definition regenv :: "s16 \<Rightarrow> s16" where
  "regenv v = (v AND 0xff00) OR (0x00ff AND signed_drop_bit 8 v)"

lemma bit_regenv: "bit (regenv v) n \<longleftrightarrow> n < 16 \<and> bit v (if n < 8 then n + 8 else n)"
proof (cases "n < 16")
  case True
  then show ?thesis
    by (rule nat_less_16) (simp_all add: regenv_def bit_simps)
qed (auto simp: bit_simps dest: bit_imp_le_length)

lemma regenv_idem [simp]: "regenv (regenv v) = regenv v"
  by (rule bit_word_eqI) (auto simp: bit_regenv)

lemma regen_result: "d \<noteq> 0 \<Longrightarrow> regen d h = Some (h\<lparr>dat := (dat h)(d := regenv (dat h d))\<rparr>)"
  by (simp add: regen_def regenv_def)

definition renewed :: "world \<Rightarrow> u32 \<Rightarrow> bool" where
  "renewed w d \<longleftrightarrow> regenv (dat (hp w) d) = dat (hp w) d"

definition idx_ok :: "u32 set \<Rightarrow> world \<Rightarrow> bool" where
  "idx_ok D w \<longleftrightarrow> 0 \<notin> D"

definition idx_ext :: "u32 set \<Rightarrow> world \<Rightarrow> world \<Rightarrow> bool" where
  "idx_ext D w w' \<longleftrightarrow> inf (hp w') = inf (hp w) \<and> idx (hp w') = idx (hp w) \<and> res w' = res w
     \<and> (\<forall>d. dat (hp w') d = dat (hp w) d \<or> d \<in> D \<and> dat (hp w') d = regenv (dat (hp w) d))"

definition idx_key :: "world \<Rightarrow> u32 \<Rightarrow> int" where
  "idx_key w d = sint (idx (hp w) d)"

definition idx_le :: "world \<Rightarrow> u32 \<Rightarrow> u32 \<Rightarrow> bool" where
  "idx_le w a b \<longleftrightarrow> renewed w a \<and> renewed w b \<and> idx_key w a \<le> idx_key w b"

definition idx_lt :: "world \<Rightarrow> u32 \<Rightarrow> u32 \<Rightarrow> bool" where
  "idx_lt w a b \<longleftrightarrow> renewed w a \<and> renewed w b \<and> idx_key w a < idx_key w b"

lemma sint_diff_s16:
  fixes i j :: s16
  shows "sint (scast i - scast j :: s32) = sint i - sint j"
proof -
  have "\<bar>sint i\<bar> \<le> 2 ^ 15" "\<bar>sint j\<bar> \<le> 2 ^ 15"
    using sint_ge [of i] sint_lt [of i] sint_ge [of j] sint_lt [of j] by (simp_all add: abs_le_iff)
  then show ?thesis
    by (simp add: sint_word_ariths sint_up_scast is_up signed_take_bit_int_eq_self)
qed

lemma cmp_idx_result:
  assumes "a \<noteq> 0" and "b \<noteq> 0"
  shows "\<exists>c w'. cmp_idx True a b w = Some (c, w') \<and> idx_ext {a, b} w w' \<and> nxt (hp w') = nxt (hp w)
    \<and> renewed w' a \<and> renewed w' b \<and> sint c = idx_key w' a - idx_key w' b"
proof -
  let ?h = "(hp w)\<lparr>dat := (dat (hp w))(a := regenv (dat (hp w) a))\<rparr>"
  let ?h2 = "?h\<lparr>dat := (dat ?h)(b := regenv (dat ?h b))\<rparr>"
  show ?thesis
  proof (intro exI conjI)
    show "cmp_idx True a b w = Some (scast (idx (hp w) a) - scast (idx (hp w) b), w\<lparr>hp := ?h2\<rparr>)"
      using assms by (simp add: cmp_idx_def regen_result)
    show "idx_ext {a, b} w (w\<lparr>hp := ?h2\<rparr>)" by (auto simp: idx_ext_def)
  qed (auto simp: renewed_def idx_key_def sint_diff_s16)
qed

lemma idx_ext_mono: "idx_ext A w w' \<Longrightarrow> A \<subseteq> B \<Longrightarrow> idx_ext B w w'"
  by (auto simp: idx_ext_def)

lemma idx_ext_renewed: "idx_ext D w w' \<Longrightarrow> renewed w a \<Longrightarrow> renewed w' a"
  unfolding idx_ext_def renewed_def by (metis regenv_idem)

lemma idx_ext_trans: "idx_ext D w w' \<Longrightarrow> idx_ext D w' w'' \<Longrightarrow> idx_ext D w w''"
  unfolding idx_ext_def by (metis regenv_idem)

interpretation by_idx: stable_order "cmp_idx True" idx_ok idx_ext idx_le idx_lt
proof
  fix D w a b assume "idx_ok D w" "a \<in> D" "b \<in> D"
  then have "a \<noteq> 0" "b \<noteq> 0" "{a, b} \<subseteq> D" "0 \<notin> D" by (auto simp: idx_ok_def)
  moreover from cmp_idx_result [OF this(1,2), of w] obtain c w' where "cmp_idx True a b w = Some (c, w')"
    "idx_ext {a, b} w w'" "nxt (hp w') = nxt (hp w)" "renewed w' a" "renewed w' b" "sint c = idx_key w' a - idx_key w' b"
    by (elim exE conjE)
  ultimately show "\<exists>c w'. cmp_idx True a b w = Some (c, w') \<and> idx_ok D w' \<and> idx_ext D w w' \<and> nxt (hp w') = nxt (hp w)
      \<and> (if sint c \<le> 0 then idx_le w' a b else idx_lt w' b a)"
    by (intro exI [of _ c] exI [of _ w']) (auto simp: idx_ok_def idx_le_def idx_lt_def intro: idx_ext_mono)
next
  fix D w w' a b assume "idx_ext D w w'"
  then show "idx_le w a b \<Longrightarrow> idx_le w' a b" and "idx_lt w a b \<Longrightarrow> idx_lt w' a b"
    using idx_ext_renewed [of D w w'] by (auto simp: idx_le_def idx_lt_def idx_key_def idx_ext_def)
next
  fix D w w' w'' assume "idx_ext D w w'" "idx_ext D w' w''"
  then show "idx_ext D w w''" by (rule idx_ext_trans)
qed (auto simp: idx_ok_def idx_ext_def idx_le_def idx_lt_def)


lemma sorted_wrt_partner:
  assumes "sorted_wrt R ys" and "2 \<le> length ys" and "c \<in> set ys"
  shows "\<exists>d. R c d \<or> R d c"
proof -
  obtain us vs where ys: "ys = us @ c # vs" using assms(3) by (meson split_list)
  with assms(1,2) show ?thesis by (cases us; cases vs) (auto simp: sorted_wrt_append)
qed

lemma mergesort_idx_result:
  assumes "list_at (nxt (hp w)) list xs" and "xs \<noteq> []" and "has_info (hp w) xs"
  shows "\<exists>list' w'. core_list_mergesort list (cmp_idx True) w = Some (list', w')
    \<and> list_at (nxt (hp w')) list' (sort_key (\<lambda>c. idx_key w (inf (hp w) c)) xs)
    \<and> idx_ext (inf (hp w) ` set xs) w w' \<and> (\<forall>x. x \<notin> set xs \<longrightarrow> nxt (hp w') x = nxt (hp w) x)
    \<and> (2 \<le> length xs \<longrightarrow> (\<forall>c\<in>set xs. renewed w' (inf (hp w) c)))"
proof -
  let ?D = "inf (hp w) ` set xs"
  have ok: "idx_ok ?D w" using assms(3) by (auto simp: idx_ok_def has_info_def)
  note dist = list_at_distinct [OF assms(1)]
  from by_idx.mergesort_result [OF assms(1,2) ok subset_refl pos_in_sorted [OF dist]]
  obtain list' w' ys where r: "core_list_mergesort list (cmp_idx True) w = Some (list', w')"
    "list_at (nxt (hp w')) list' ys" "mset ys = mset xs" "sorted_wrt (ranked idx_le idx_lt (pos_in xs) w') ys"
    "idx_ext ?D w w'" "\<forall>x. x \<notin> set xs \<longrightarrow> nxt (hp w') x = nxt (hp w) x" by blast
  have set: "set ys = set xs" by (rule mset_eq_setD [OF r(3)])
  have same: "inf (hp w') = inf (hp w)" "idx (hp w') = idx (hp w)" using r(5) by (simp_all add: idx_ext_def)
  let ?f = "\<lambda>c. idx_key w (inf (hp w) c)"
  have "sorted_wrt (\<lambda>a b. ?f a < ?f b \<or> ?f a \<le> ?f b \<and> pos_in xs a < pos_in xs b) ys"
    by (rule sorted_wrt_mono_rel [OF _ r(4)]) (auto simp: ranked_def idx_le_def idx_lt_def idx_key_def same)
  then have ys: "sort_key ?f xs = ys" by (rule sorted_stable_unique [OF dist r(3)])
  have "renewed w' (inf (hp w) c)" if "2 \<le> length xs" "c \<in> set xs" for c
    using sorted_wrt_partner [OF r(4), of c] that set arg_cong [OF r(3), of size] same(1)
    by (auto simp: ranked_def idx_le_def idx_lt_def)
  with r ys show ?thesis by blast
qed

section \<open>Comparison by cached results\<close>

text \<open>The state block and the matrices serve every operation again: both passes of the state benchmark
  cancel each other, and the matrices have room for their dimension.\<close>

definition bench_ok :: "core_results \<Rightarrow> bool" where
  "bench_ok r \<longleftrightarrow> (\<exists>k. Suc k < unat (rsize r) \<and> statemem r ! k = 0 \<and> statemem r ! Suc k = 0)
     \<and> unat (rsize r) \<le> length (statemem r) \<and> seed2 r = seed1 r
     \<and> (\<forall>i<unat (rsize r). statemem r ! i = 0x2C \<or> statemem r ! i XOR ucast (seed1 r) \<noteq> 0x2C)
     \<and> dim r * dim r \<le> length (matA r) \<and> dim r * dim r \<le> length (matB r) \<and> dim r * dim r \<le> length (matC r)"

text \<open>What the operations read and must leave as it was.\<close>

definition inputs :: "core_results \<Rightarrow> s16 \<times> s16 \<times> s16 \<times> u32 \<times> u8 list \<times> nat \<times> s16 list \<times> s16 list \<times> nat" where
  "inputs r = (seed1 r, seed2 r, seed3 r, rsize r, statemem r, dim r, matA r, matB r, length (matC r))"

definition cached :: "world \<Rightarrow> u32 \<Rightarrow> bool" where
  "cached w d \<longleftrightarrow> bit (dat (hp w) d) 7"

definition res_key :: "world \<Rightarrow> u32 \<Rightarrow> int" where
  "res_key w d = sint (dat (hp w) d AND 0x007f)"

definition res_ok :: "u32 set \<Rightarrow> world \<Rightarrow> bool" where
  "res_ok D w \<longleftrightarrow> 0 \<notin> D \<and> bench_ok (res w)"

definition res_ext :: "u32 set \<Rightarrow> world \<Rightarrow> world \<Rightarrow> bool" where
  "res_ext D w w' \<longleftrightarrow> inf (hp w') = inf (hp w) \<and> idx (hp w') = idx (hp w) \<and> inputs (res w') = inputs (res w)
     \<and> (\<forall>d. dat (hp w') d AND 0xff00 = dat (hp w) d AND 0xff00 \<and> (cached w d \<or> d \<notin> D \<longrightarrow> dat (hp w') d = dat (hp w) d))"

lemma cache_bits:
  fixes v r :: s16
  shows "(v AND 0xff00 OR 0x0080 OR r AND 0x007f) AND 0xff00 = v AND 0xff00"
    and "(v AND 0xff00 OR 0x0080 OR r AND 0x007f) AND 0x007f = r AND 0x007f"
    and "bit (v AND 0xff00 OR 0x0080 OR r AND 0x007f) 7"
proof -
  show "(v AND 0xff00 OR 0x0080 OR r AND 0x007f) AND 0xff00 = v AND 0xff00"
  proof (rule bit_word_eqI)
    fix n assume "n < LENGTH(16)"
    then have "n < 16" by simp
    then show "bit ((v AND 0xff00 OR 0x0080 OR r AND 0x007f) AND 0xff00) n = bit (v AND 0xff00) n"
      by (rule nat_less_16) (simp_all add: bit_simps)
  qed
  show "(v AND 0xff00 OR 0x0080 OR r AND 0x007f) AND 0x007f = r AND 0x007f"
  proof (rule bit_word_eqI)
    fix n assume "n < LENGTH(16)"
    then have "n < 16" by simp
    then show "bit ((v AND 0xff00 OR 0x0080 OR r AND 0x007f) AND 0x007f) n = bit (r AND 0x007f) n"
      by (rule nat_less_16) (simp_all add: bit_simps)
  qed
qed (simp add: bit_simps)

lemma bench_ok_inputs:
  assumes "inputs r' = inputs r" and "bench_ok r"
  shows "bench_ok r'"
  using assms by (simp add: inputs_def bench_ok_def)

lemma state_op:
  assumes "bench_ok r" and "2 \<le> sint step"
  shows "\<exists>v. core_bench_state (rsize r) (statemem r) (seed1 r) (seed2 r) step c = Some (v, statemem r)"
proof -
  obtain k where "Suc k < unat (rsize r)" "unat (rsize r) \<le> length (statemem r)" "statemem r ! k = 0" "statemem r ! Suc k = 0"
    using assms(1) by (auto simp: bench_ok_def)
  from core_bench_state_runs [OF this assms(2), of "seed1 r" "seed2 r" c] show ?thesis
    using assms(1) corrupted_twice [of "unat (rsize r)" "statemem r" "seed1 r" "nat (sint step)"]
    by (auto simp: bench_ok_def)
qed

lemma matrix_op:
  assumes "bench_ok r"
  shows "\<exists>v C1. core_bench_matrix (dim r) (matC r) (matA r) (matB r) v0 c = Some (v, C1, matA r)
    \<and> length C1 = length (matC r)"
  using matrix_test_result [of "dim r" "matA r" "matB r" "matC r" v0] assms
  by (simp add: bench_ok_def core_bench_matrix_def length_with_cells)


lemma calc_op_result:
  assumes ok: "bench_ok r"
  shows "\<exists>v r1. calc_op data r = Some (v, r1) \<and> inputs r1 = inputs r"
proof -
  have "2 \<le> sint (if sint (op_dtype data) < 0x22 then 0x22 else op_dtype data)" by simp
  from state_op [OF ok this] obtain v0 where v0: "core_bench_state (rsize r) (statemem r) (seed1 r) (seed2 r)
      (if sint (op_dtype data) < 0x22 then 0x22 else op_dtype data) (crc r) = Some (v0, statemem r)" by blast
  from matrix_op [OF ok] obtain v1 C1 where
    "core_bench_matrix (dim r) (matC r) (matA r) (matB r) (op_dtype data) (crc r) = Some (v1, C1, matA r)"
    "length C1 = length (matC r)" by blast
  with v0 show ?thesis by (auto simp: calc_op_def inputs_def Let_def)
qed

lemma calc_func_result:
  assumes "d \<noteq> 0" and ok: "bench_ok (res w)"
  shows "\<exists>v w'. calc_func d w = Some (v, w') \<and> bench_ok (res w') \<and> res_ext {d} w w'
    \<and> nxt (hp w') = nxt (hp w) \<and> cached w' d \<and> sint v = res_key w' d"
proof (cases "cached w d")
  case True
  with assms show ?thesis
    by (intro exI [of _ "dat (hp w) d AND 0x007f"] exI [of _ w])
      (auto simp: calc_func_def cached_def res_ext_def res_key_def)
next
  case False
  define data where "data = dat (hp w) d"
  obtain v r1 where op: "calc_op data (res w) = Some (v, r1)" "inputs r1 = inputs (res w)" using calc_op_result [OF ok] by blast
  let ?r = "r1\<lparr>crc := crcu16 v (crc r1)\<rparr>"
  have r: "inputs ?r = inputs (res w)"
    using op(2) by (simp add: inputs_def)
  let ?w = "w\<lparr>hp := (hp w)\<lparr>dat := (dat (hp w))(d := (data AND 0xff00) OR 0x0080 OR (v AND 0x007f))\<rparr>, res := ?r\<rparr>"
  show ?thesis
  proof (intro exI conjI)
    show "calc_func d w = Some (v AND 0x007f, ?w)"
      using False assms(1) op(1) by (simp add: calc_func_def cached_def data_def Let_def)
  qed (use bench_ok_inputs [OF r ok] r False in
    \<open>auto simp: res_ext_def cached_def res_key_def cache_bits data_def\<close>)
qed

lemma res_ext_mono: "res_ext A w w' \<Longrightarrow> A \<subseteq> B \<Longrightarrow> res_ext B w w'"
  by (auto simp: res_ext_def)

lemma res_ext_cached: "res_ext D w w' \<Longrightarrow> cached w a \<Longrightarrow> cached w' a \<and> res_key w' a = res_key w a"
  by (simp add: res_ext_def cached_def res_key_def)

lemma res_ext_trans: "res_ext D w w' \<Longrightarrow> res_ext D w' w'' \<Longrightarrow> res_ext D w w''"
  by (auto simp: res_ext_def cached_def)

lemma cmp_complex_result:
  assumes "a \<noteq> 0" and "b \<noteq> 0" and "bench_ok (res w)"
  shows "\<exists>c w'. cmp_complex a b w = Some (c, w') \<and> bench_ok (res w') \<and> res_ext {a, b} w w'
    \<and> nxt (hp w') = nxt (hp w) \<and> cached w' a \<and> cached w' b \<and> sint c = res_key w' a - res_key w' b"
proof -
  from calc_func_result [OF assms(1,3)] obtain v1 w1 where
    1: "calc_func a w = Some (v1, w1)" "bench_ok (res w1)" "res_ext {a} w w1" "nxt (hp w1) = nxt (hp w)"
      "cached w1 a" "sint v1 = res_key w1 a" by (elim exE conjE)
  from calc_func_result [OF assms(2) 1(2)] obtain v2 w2 where
    2: "calc_func b w1 = Some (v2, w2)" "bench_ok (res w2)" "res_ext {b} w1 w2" "nxt (hp w2) = nxt (hp w1)"
      "cached w2 b" "sint v2 = res_key w2 b" by (elim exE conjE)
  have ext: "res_ext {a, b} w w2"
    by (rule res_ext_trans [OF res_ext_mono [OF 1(3)] res_ext_mono [OF 2(3)]]) auto
  have a: "cached w2 a" "res_key w2 a = res_key w1 a" using res_ext_cached [OF 2(3) 1(5)] by simp_all
  show ?thesis
    by (intro exI conjI, simp add: cmp_complex_def 1(1) 2(1)) (use 1 2 ext a in \<open>simp_all add: sint_diff_s16\<close>)
qed

definition res_le :: "world \<Rightarrow> u32 \<Rightarrow> u32 \<Rightarrow> bool" where
  "res_le w a b \<longleftrightarrow> cached w a \<and> cached w b \<and> res_key w a \<le> res_key w b"

definition res_lt :: "world \<Rightarrow> u32 \<Rightarrow> u32 \<Rightarrow> bool" where
  "res_lt w a b \<longleftrightarrow> cached w a \<and> cached w b \<and> res_key w a < res_key w b"

interpretation by_result: stable_order cmp_complex res_ok res_ext res_le res_lt
proof
  fix D w a b assume "res_ok D w" "a \<in> D" "b \<in> D"
  then have "a \<noteq> 0" "b \<noteq> 0" "bench_ok (res w)" "{a, b} \<subseteq> D" "0 \<notin> D" by (auto simp: res_ok_def)
  moreover from cmp_complex_result [OF this(1-3)] obtain c w' where "cmp_complex a b w = Some (c, w')"
    "bench_ok (res w')" "res_ext {a, b} w w'" "nxt (hp w') = nxt (hp w)" "cached w' a" "cached w' b"
    "sint c = res_key w' a - res_key w' b" by (elim exE conjE)
  ultimately show "\<exists>c w'. cmp_complex a b w = Some (c, w') \<and> res_ok D w' \<and> res_ext D w w' \<and> nxt (hp w') = nxt (hp w)
      \<and> (if sint c \<le> 0 then res_le w' a b else res_lt w' b a)"
    by (intro exI [of _ c] exI [of _ w']) (auto simp: res_ok_def res_le_def res_lt_def intro: res_ext_mono)
next
  fix D w w' a b assume "res_ext D w w'"
  then show "res_le w a b \<Longrightarrow> res_le w' a b" and "res_lt w a b \<Longrightarrow> res_lt w' a b"
    using res_ext_cached [of D w w'] by (auto simp: res_le_def res_lt_def)
next
  fix D w w' w'' assume "res_ext D w w'" "res_ext D w' w''"
  then show "res_ext D w w''" by (rule res_ext_trans)
qed (auto simp: res_ok_def res_ext_def res_le_def res_lt_def cached_def)


lemma mergesort_res_result:
  assumes "list_at (nxt (hp w)) list xs" and "xs \<noteq> []" and "has_info (hp w) xs" and "bench_ok (res w)"
  shows "\<exists>list' w'. core_list_mergesort list cmp_complex w = Some (list', w')
    \<and> list_at (nxt (hp w')) list' (sort_key (\<lambda>c. res_key w' (inf (hp w) c)) xs)
    \<and> res_ext (inf (hp w) ` set xs) w w' \<and> bench_ok (res w') \<and> (\<forall>x. x \<notin> set xs \<longrightarrow> nxt (hp w') x = nxt (hp w) x)
    \<and> (2 \<le> length xs \<longrightarrow> (\<forall>c\<in>set xs. cached w' (inf (hp w) c)))"
proof -
  let ?D = "inf (hp w) ` set xs"
  have ok: "res_ok ?D w" using assms(3,4) by (auto simp: res_ok_def has_info_def)
  note dist = list_at_distinct [OF assms(1)]
  from by_result.mergesort_result [OF assms(1,2) ok subset_refl pos_in_sorted [OF dist]]
  obtain list' w' ys where r: "core_list_mergesort list cmp_complex w = Some (list', w')"
    "list_at (nxt (hp w')) list' ys" "mset ys = mset xs" "sorted_wrt (ranked res_le res_lt (pos_in xs) w') ys"
    "res_ok ?D w'" "res_ext ?D w w'" "\<forall>x. x \<notin> set xs \<longrightarrow> nxt (hp w') x = nxt (hp w) x" by blast
  have set: "set ys = set xs" by (rule mset_eq_setD [OF r(3)])
  have same: "inf (hp w') = inf (hp w)" using r(6) by (simp add: res_ext_def)
  let ?f = "\<lambda>c. res_key w' (inf (hp w) c)"
  have "sorted_wrt (\<lambda>a b. ?f a < ?f b \<or> ?f a \<le> ?f b \<and> pos_in xs a < pos_in xs b) ys"
    by (rule sorted_wrt_mono_rel [OF _ r(4)]) (auto simp: ranked_def res_le_def res_lt_def same)
  then have ys: "sort_key ?f xs = ys" by (rule sorted_stable_unique [OF dist r(3)])
  have "cached w' (inf (hp w) c)" if "2 \<le> length xs" "c \<in> set xs" for c
    using sorted_wrt_partner [OF r(4), of c] that set arg_cong [OF r(3), of size] same
    by (auto simp: ranked_def res_le_def res_lt_def)
  with r ys show ?thesis by (auto simp: res_ok_def)
qed

text \<open>A list of three cells, for the applications of the properties.\<close>

definition demo :: "s16 \<Rightarrow> s16 \<Rightarrow> s16 \<Rightarrow> s16 \<Rightarrow> world" where
  "demo v i j k = \<lparr>hp = \<lparr>nxt = (\<lambda>_. 0)(8 := 16, 16 := 24), inf = (\<lambda>c. c + 100), dat = (\<lambda>_. v),
      idx = (\<lambda>d. if d = 108 then i else if d = 116 then j else k)\<rparr>,
    res = \<lparr>seed1 = 0, seed2 = 0, seed3 = 0, rsize = 2, statemem = [0, 0], dim = 0, matA = [], matB = [], matC = [],
      crc = 0, crcmatrix = 0, crcstate = 0\<rparr>\<rparr>"

lemma demo_list: "list_at (nxt (hp (demo v i j k))) 8 [8, 16, 24]"
  and demo_info: "has_info (hp (demo v i j k)) [8, 16, 24]"
  and demo_cells: "[8, 16, 24 :: u32] \<noteq> []"
  and demo_fields: "inf (hp (demo v i j k)) = (\<lambda>c. c + 100)" "dat (hp (demo v i j k)) = (\<lambda>_. v)"
    "nxt (hp (demo v i j k)) = (\<lambda>_. 0)(8 := 16, 16 := 24)"
  by (simp_all add: demo_def)

lemma demo_sorted: "sort_key (\<lambda>c. idx_key (demo 0x0580 2 0 1) (inf (hp (demo 0x0580 2 0 1)) c)) [8, 16, 24] = [16, 24, 8]"
  by (simp add: demo_def idx_key_def)

section \<open>Properties\<close>

text \<open>C20: Sorting by index with no results (the comparison \<open>cmp_idx\<close>, NULL) always returns; it relinks
  the cells into the stable sort of the list by index, renews the data of every item from its high
  byte (when there are two cells to compare), and changes nothing else.\<close>

theorem core_list_mergesort_by_idx:
  assumes "list_at (nxt (hp w)) list xs" and "xs \<noteq> []" and "has_info (hp w) xs"
  shows "\<exists>list' f d. core_list_mergesort list (cmp_idx True) w = Some (list', w\<lparr>hp := (hp w)\<lparr>nxt := f, dat := d\<rparr>\<rparr>)
    \<and> list_at f list' (sort_key (\<lambda>c. idx_key w (inf (hp w) c)) xs)
    \<and> (\<forall>x. x \<notin> set xs \<longrightarrow> f x = nxt (hp w) x) \<and> (\<forall>y. y \<notin> inf (hp w) ` set xs \<longrightarrow> d y = dat (hp w) y)
    \<and> (2 \<le> length xs \<longrightarrow> (\<forall>c\<in>set xs. d (inf (hp w) c) = regenv (dat (hp w) (inf (hp w) c))))"
proof -
  from mergesort_idx_result [OF assms] obtain list' w' where
    r: "core_list_mergesort list (cmp_idx True) w = Some (list', w')"
      "list_at (nxt (hp w')) list' (sort_key (\<lambda>c. idx_key w (inf (hp w) c)) xs)"
      "idx_ext (inf (hp w) ` set xs) w w'" "\<forall>x. x \<notin> set xs \<longrightarrow> nxt (hp w') x = nxt (hp w) x"
      "2 \<le> length xs \<longrightarrow> (\<forall>c\<in>set xs. renewed w' (inf (hp w) c))" by blast
  have w': "w' = w\<lparr>hp := (hp w)\<lparr>nxt := nxt (hp w'), dat := dat (hp w')\<rparr>\<rparr>"
    using r(3) by (cases w; cases w'; cases "hp w"; cases "hp w'") (auto simp: idx_ext_def)
  have d: "dat (hp w') y = dat (hp w) y \<or> y \<in> inf (hp w) ` set xs \<and> dat (hp w') y = regenv (dat (hp w) y)" for y
    using r(3) by (simp add: idx_ext_def)
  show ?thesis
  proof (intro exI conjI)
    show "core_list_mergesort list (cmp_idx True) w = Some (list', w\<lparr>hp := (hp w)\<lparr>nxt := nxt (hp w'), dat := dat (hp w')\<rparr>\<rparr>)"
      using r(1) w' by simp
    show "\<forall>y. y \<notin> inf (hp w) ` set xs \<longrightarrow> dat (hp w') y = dat (hp w) y" using d by blast
    show "2 \<le> length xs \<longrightarrow> (\<forall>c\<in>set xs. dat (hp w') (inf (hp w) c) = regenv (dat (hp w) (inf (hp w) c)))"
      using r(5) d by (metis renewed_def)
  qed (use r in auto)
qed

lemma core_list_mergesort_by_idx_witness:
  "\<exists>list' f d. core_list_mergesort 8 (cmp_idx True) (demo 0x0580 2 0 1)
      = Some (list', (demo 0x0580 2 0 1)\<lparr>hp := (hp (demo 0x0580 2 0 1))\<lparr>nxt := f, dat := d\<rparr>\<rparr>)
    \<and> list_at f list' [16, 24, 8] \<and> f 32 = 0 \<and> d 108 = regenv 0x0580 \<and> d 132 = 0x0580"
proof -
  from core_list_mergesort_by_idx [OF demo_list [of "0x0580" 2 0 1] demo_cells demo_info] obtain list' f d where
    "core_list_mergesort 8 (cmp_idx True) (demo 0x0580 2 0 1)
      = Some (list', (demo 0x0580 2 0 1)\<lparr>hp := (hp (demo 0x0580 2 0 1))\<lparr>nxt := f, dat := d\<rparr>\<rparr>)"
    "list_at f list' [16, 24, 8]" "\<forall>x. x \<notin> set [8, 16, 24] \<longrightarrow> f x = nxt (hp (demo 0x0580 2 0 1)) x"
    "\<forall>y. y \<notin> inf (hp (demo 0x0580 2 0 1)) ` set [8, 16, 24] \<longrightarrow> d y = dat (hp (demo 0x0580 2 0 1)) y"
    "\<forall>c\<in>set [8, 16, 24]. d (inf (hp (demo 0x0580 2 0 1)) c) = regenv (dat (hp (demo 0x0580 2 0 1)) (inf (hp (demo 0x0580 2 0 1)) c))"
    unfolding demo_sorted by auto
  then show ?thesis
    by (intro exI [of _ list'] exI [of _ f] exI [of _ d]) (simp add: demo_fields)
qed

text \<open>Sorting by data (the comparison \<open>cmp_complex\<close>) always returns when the operations it runs
  can serve every operation again; it caches the result of every item, relinks the cells into the
  stable sort of the list by these results, and leaves the items' high bytes, their indices and
  the inputs of the operations as they were.\<close>

theorem core_list_mergesort_by_result:
  assumes "list_at (nxt (hp w)) list xs" and "xs \<noteq> []" and "has_info (hp w) xs" and "bench_ok (res w)"
  shows "\<exists>list' w'. core_list_mergesort list cmp_complex w = Some (list', w')
    \<and> list_at (nxt (hp w')) list' (sort_key (\<lambda>c. res_key w' (inf (hp w) c)) xs)
    \<and> (2 \<le> length xs \<longrightarrow> (\<forall>c\<in>set xs. cached w' (inf (hp w) c)))
    \<and> (\<forall>x. x \<notin> set xs \<longrightarrow> nxt (hp w') x = nxt (hp w) x) \<and> inf (hp w') = inf (hp w) \<and> idx (hp w') = idx (hp w)
    \<and> (\<forall>d. dat (hp w') d AND 0xff00 = dat (hp w) d AND 0xff00) \<and> inputs (res w') = inputs (res w)"
  using mergesort_res_result [OF assms] unfolding res_ext_def by blast

lemma core_list_mergesort_by_result_witness:
  "\<exists>list' w'. core_list_mergesort 8 cmp_complex (demo 0x0580 2 0 1) = Some (list', w')
    \<and> list_at (nxt (hp w')) list' (sort_key (\<lambda>c. res_key w' (inf (hp (demo 0x0580 2 0 1)) c)) [8, 16, 24])
    \<and> cached w' 108 \<and> idx (hp w') = idx (hp (demo 0x0580 2 0 1))"
proof -
  have "bench_ok (res (demo 0x0580 2 0 1))" by (auto simp: demo_def bench_ok_def)
  from core_list_mergesort_by_result [OF demo_list demo_cells demo_info this] obtain list' w' where
    "core_list_mergesort 8 cmp_complex (demo 0x0580 2 0 1) = Some (list', w')"
    "list_at (nxt (hp w')) list' (sort_key (\<lambda>c. res_key w' (inf (hp (demo 0x0580 2 0 1)) c)) [8, 16, 24])"
    "2 \<le> length [8, 16, 24 :: u32] \<longrightarrow> (\<forall>c\<in>set [8, 16, 24]. cached w' (inf (hp (demo 0x0580 2 0 1)) c))"
    "idx (hp w') = idx (hp (demo 0x0580 2 0 1))" by (elim exE conjE)
  then show ?thesis
    by (intro exI [of _ list'] exI [of _ w']) (simp add: demo_fields)
qed

text \<open>The sort needs a cell: on an empty list it follows the NULL tail pointer.\<close>

theorem core_list_mergesort_null: "core_list_mergesort 0 cmp w = None"
  by (simp add: core_list_mergesort_def sort_loop.simps [of cmp] pass_loop.simps [of cmp _ 0] set_next_def)

end
