(* ===== verification/Core_Bench.thy ===== *)
theory Core_Bench
  imports Core_Sort
begin

text \<open>
  The list benchmark itself, \<open>core_bench_list\<close>, and the initial list, \<open>core_list_init\<close>: the searches
  keep a list of the same cells, and the two sorts around a remove and its undo bring the heap back to
  what it was.
\<close>

section \<open>The searches\<close>

lemma path_determines: "path f p xs q \<Longrightarrow> path g p' xs q \<Longrightarrow> c \<in> set xs \<Longrightarrow> f c = g c"
proof (induction xs arbitrary: p p')
  case (Cons x xs)
  then have "path f (f x) xs q" "path g (g x) xs q" by auto
  moreover from this have "f x = g x" by (cases xs) auto
  ultimately show ?case using Cons by auto
qed simp

lemma has_info_cong: "inf h' = inf h \<Longrightarrow> mset ys = mset xs \<Longrightarrow> has_info h' ys = has_info h xs"
  using mset_eq_setD [of ys xs] by (simp add: has_info_def)

lemma first_member: "(case List.find P xs of None \<Rightarrow> 0 | Some c \<Rightarrow> c) = (t :: u32) \<Longrightarrow> t \<noteq> 0 \<Longrightarrow> t \<in> set xs"
  by (auto simp: find_Some_iff split: option.splits)

lemma find_member:
  assumes "list_at (nxt h) p xs" and "has_info h xs"
  obtains t where "core_list_find h p info = Some t" and "t \<noteq> 0 \<Longrightarrow> t \<in> set xs"
proof -
  have "core_list_find h p info = Some (case List.find (idx_matches h info) xs of None \<Rightarrow> 0 | Some c \<Rightarrow> c)"
    using core_list_find_result [OF assms] by (simp add: first_match)
  then show thesis using that first_member by blast
qed

text \<open>Moving the cell behind \<open>t\<close> to the second place.\<close>

lemma move_cell:
  assumes l: "list_at g q ys" and t: "t \<in> set ys" and n: "g t \<noteq> 0"
    and f: "f = (g(t := g (g t)))(g t := (g(t := g (g t))) q, q := g t)"
  shows "\<exists>zs. list_at f q zs \<and> mset zs = mset ys \<and> (\<forall>x. x \<notin> set ys \<longrightarrow> f x = g x)"
proof -
  obtain us vs0 where "ys = us @ t # vs0" using t by (meson split_list)
  moreover from this l n obtain c vs where "vs0 = c # vs" "g t = c" by (cases vs0) auto
  ultimately have ys: "ys = us @ t # c # vs" and c: "g t = c" by simp_all
  have dist: "distinct ys" by (rule list_at_distinct [OF l])
  show ?thesis
  proof (cases us)
    case Nil
    then have "q = t" using l ys by auto
    then have "f = g" using f c by auto
    then show ?thesis using l by auto
  next
    case (Cons a us')
    then have q: "q = a" "q \<noteq> 0" and p: "path g (g q) us' t" and v: "list_at g (g c) vs"
      using l ys c by auto
    have d: "q \<noteq> t" "q \<noteq> c" "t \<noteq> c" "{q, t, c} \<inter> set us' = {}" "{q, t, c} \<inter> set vs = {}" "c \<noteq> 0" "t \<noteq> 0"
      using dist ys Cons q l by auto
    have fx: "f t = g c" "f c = g q" "f q = c" "\<And>x. x \<notin> {q, t, c} \<Longrightarrow> f x = g x"
      using f c d by auto
    have "path f (g q) us' t" "list_at f (g c) vs"
      using p v path_cong [of us' f g] path_cong [of vs f g] fx(4) d by blast+
    then have "list_at f q (q # c # us' @ t # vs)" using fx q d by auto
    moreover have "mset (q # c # us' @ t # vs) = mset ys" using ys Cons q by simp
    ultimately show ?thesis using fx(4) ys Cons q by (intro exI [of _ "q # c # us' @ t # vs"]) auto
  qed
qed

lemma find_step_result:
  assumes l: "list_at (nxt h) (flist b) xs" and len: "2 \<le> length xs" and info: "has_info h xs"
  shows "\<exists>b' f ys. find_step i b h = Some (b', h\<lparr>nxt := f\<rparr>) \<and> list_at f (flist b') ys \<and> mset ys = mset xs
    \<and> (\<forall>x. x \<notin> set xs \<longrightarrow> f x = nxt h x)"
proof -
  obtain t where t: "core_list_find h (flist b) ((finfo b)\<lparr>data16 := i AND 0xff\<rparr>) = Some t" "t \<noteq> 0 \<Longrightarrow> t \<in> set xs"
    using find_member [OF l info] by metis
  obtain q g where g: "core_list_reverse (flist b) h = Some (q, h\<lparr>nxt := g\<rparr>)" "list_at g q (rev xs)"
    "\<And>x. x \<notin> set xs \<Longrightarrow> g x = nxt h x" using core_list_reverse_result [OF l] by metis
  have "Suc (Suc 0) \<le> length (rev xs)" using len by simp
  then obtain c1 c2 cs where rev: "rev xs = c1 # c2 # cs" unfolding Suc_le_length_iff by blast
  have in_rev: "set (rev xs) = set xs" by simp
  have cells: "q = c1" "q \<noteq> 0" "g q = c2" "g q \<noteq> 0" "inf h (g q) \<noteq> 0"
    using g(2) rev info in_rev by (auto simp: has_info_def)
  show ?thesis
  proof (cases "t \<noteq> 0 \<and> g t \<noteq> 0")
    case False
    have "\<exists>b'. find_step i b h = Some (b', h\<lparr>nxt := g\<rparr>) \<and> flist b' = q"
    proof (cases "t = 0")
      case True
      then show ?thesis using t g cells by (simp add: find_step_def Let_def)
    next
      case t0: False
      then have "inf h t \<noteq> 0" "g t = 0" using t(2) info False by (auto simp: has_info_def)
      then show ?thesis using t g cells t0 by (simp add: find_step_def Let_def)
    qed
    then obtain b' where "find_step i b h = Some (b', h\<lparr>nxt := g\<rparr>)" "flist b' = q" by blast
    with g show ?thesis by (intro exI [of _ b'] exI [of _ g] exI [of _ "rev xs"]) simp
  next
    case True
    then have info_t: "inf h t \<noteq> 0" and tr: "t \<in> set (rev xs)" using t(2) info by (auto simp: has_info_def)
    define f where "f = (g(t := g (g t)))(g t := (g(t := g (g t))) q, q := g t)"
    from move_cell [OF g(2) tr _ f_def] True obtain zs where
      zs: "list_at f q zs" "mset zs = mset (rev xs)" "\<forall>x. x \<notin> set (rev xs) \<longrightarrow> f x = g x" by blast
    have "\<exists>b'. find_step i b h = Some (b', h\<lparr>nxt := f\<rparr>) \<and> flist b' = q"
      using t(1) g(1) True info_t cells(2) unfolding f_def by (simp add: find_step_def Let_def)
    then show ?thesis using zs g(3) by auto
  qed
qed

lemma find_loop_result:
  assumes "list_at (nxt h) (flist b) xs" and "2 \<le> length xs" and "has_info h xs"
  shows "\<exists>b' f ys. find_loop i n b h = Some (b', h\<lparr>nxt := f\<rparr>) \<and> list_at f (flist b') ys \<and> mset ys = mset xs
    \<and> (\<forall>x. x \<notin> set xs \<longrightarrow> f x = nxt h x)"
  using assms
proof (induction i n b h arbitrary: xs rule: find_loop.induct)
  case (1 i n b h)
  show ?case
  proof (cases "sint i < sint n")
    case False
    then show ?thesis using 1(2) by (subst find_loop.simps) (auto intro!: exI [of _ "nxt h"])
  next
    case True
    from find_step_result [OF 1(2-4), of i] obtain b1 f ys where
      s: "find_step i b h = Some (b1, h\<lparr>nxt := f\<rparr>)" "list_at f (flist b1) ys" "mset ys = mset xs"
        "\<forall>x. x \<notin> set xs \<longrightarrow> f x = nxt h x" by (elim exE conjE)
    have "list_at (nxt (h\<lparr>nxt := f\<rparr>)) (flist b1) ys" "2 \<le> length ys" "has_info (h\<lparr>nxt := f\<rparr>) ys"
      using s(2) 1(3,4) arg_cong [OF s(3), of size] has_info_cong [OF _ s(3), of "h\<lparr>nxt := f\<rparr>" h] by simp_all
    from 1(1) [OF True s(1) refl this] obtain b2 f2 zs where
      "find_loop (i + 1) n b1 (h\<lparr>nxt := f\<rparr>) = Some (b2, h\<lparr>nxt := f2\<rparr>)" "list_at f2 (flist b2) zs"
      "mset zs = mset ys" "\<forall>x. x \<notin> set ys \<longrightarrow> f2 x = f x" by (elim exE conjE) simp
    then show ?thesis
      using True s(1,3,4) mset_eq_setD [OF s(3)]
      by (intro exI [of _ b2] exI [of _ f2] exI [of _ zs]) (subst find_loop.simps, simp)
  qed
qed


section \<open>The benchmark restores the list\<close>

lemma crc_walk_result:
  "list_at (nxt h) finder zs \<Longrightarrow> list \<noteq> 0 \<Longrightarrow> inf h list \<noteq> 0 \<Longrightarrow>
    crc_walk list finder h r = Some ((crc16 (dat h (inf h list)) ^^ length zs) r)"
proof (induction zs arbitrary: finder r)
  case (Cons z zs)
  then show ?case by (simp add: crc_walk.simps [of _ z] funpow_swap1)
qed (simp add: crc_walk.simps [of _ 0])

lemma list_at_suffix:
  assumes "list_at f p xs" and "t \<in> set xs"
  obtains zs where "list_at f t zs"
proof -
  obtain us vs where "xs = us @ t # vs" using assms(2) by (meson split_list)
  with assms(1) show thesis using that [of "t # vs"] by auto
qed

lemma regenv_high: "v AND 0xff00 = u AND 0xff00 \<Longrightarrow> regenv v = regenv u"
proof (rule bit_word_eqI)
  fix n assume eq: "v AND 0xff00 = u AND 0xff00" and "n < LENGTH(16)"
  have "bit (v AND 0xff00) (if n < 8 then n + 8 else n) = bit (u AND 0xff00) (if n < 8 then n + 8 else n)"
    by (simp add: eq)
  moreover from \<open>n < LENGTH(16)\<close> have "n < 16" by simp
  then have "bit (0xff00 :: s16) (if n < 8 then n + 8 else n)" by (rule nat_less_16) simp_all
  ultimately show "bit (regenv v) n = bit (regenv u) n"
    by (simp add: bit_regenv bit_and_iff split del: if_split)
qed

text \<open>The first part: the searches and, for a positive index, the sort by data.\<close>

lemma searched_and_sorted:
  assumes l: "list_at (nxt (hp w)) list0 xs" and len: "3 \<le> length xs" and info: "has_info (hp w) xs"
    and ok: "0 < sint finder_idx \<longrightarrow> bench_ok (res w)"
  shows "\<exists>b h1 list w2 ys. find_loop 0 (seed3 (res w))
       \<lparr>flist = list0, fret = 0, found = 0, missed = 0, finfo = \<lparr>data16 = 0, didx = finder_idx\<rparr>\<rparr> (hp w) = Some (b, h1)
    \<and> (if sint finder_idx > 0 then core_list_mergesort (flist b) cmp_complex (w\<lparr>hp := h1\<rparr>)
       else Some (flist b, w\<lparr>hp := h1\<rparr>)) = Some (list, w2)
    \<and> list_at (nxt (hp w2)) list ys \<and> mset ys = mset xs \<and> res_ext (inf (hp w) ` set xs) w w2
    \<and> (\<forall>x. x \<notin> set xs \<longrightarrow> nxt (hp w2) x = nxt (hp w) x)"
proof -
  let ?b = "\<lparr>flist = list0, fret = 0, found = 0, missed = 0, finfo = \<lparr>data16 = 0, didx = finder_idx\<rparr>\<rparr>"
  from find_loop_result [of "hp w" ?b xs 0 "seed3 (res w)"] l len info obtain b f zs where
    f: "find_loop 0 (seed3 (res w)) ?b (hp w) = Some (b, (hp w)\<lparr>nxt := f\<rparr>)" "list_at f (flist b) zs"
      "mset zs = mset xs" "\<forall>x. x \<notin> set xs \<longrightarrow> f x = nxt (hp w) x" by auto
  define w1 where "w1 = w\<lparr>hp := (hp w)\<lparr>nxt := f\<rparr>\<rparr>"
  have set: "set zs = set xs" by (rule mset_eq_setD [OF f(3)])
  have w1: "list_at (nxt (hp w1)) (flist b) zs" "zs \<noteq> []" "has_info (hp w1) zs" "inf (hp w1) = inf (hp w)"
    "res w1 = res w" "res_ext (inf (hp w) ` set xs) w w1"
    using f(2,3) len info has_info_cong [of "hp w1" "hp w" zs xs] by (auto simp: w1_def res_ext_def)
  show ?thesis
  proof (cases "sint finder_idx > 0")
    case False
    then show ?thesis
      using f w1 by (intro exI [of _ b] exI [of _ "(hp w)\<lparr>nxt := f\<rparr>"] exI [of _ "flist b"] exI [of _ w1] exI [of _ zs])
        (simp add: w1_def)
  next
    case True
    then have "bench_ok (res w1)" using ok w1(5) by simp
    from mergesort_res_result [OF w1(1-3) this] obtain list w2 where
      s: "core_list_mergesort (flist b) cmp_complex w1 = Some (list, w2)"
        "list_at (nxt (hp w2)) list (sort_key (\<lambda>c. res_key w2 (inf (hp w1) c)) zs)"
        "res_ext (inf (hp w1) ` set zs) w1 w2" "\<forall>x. x \<notin> set zs \<longrightarrow> nxt (hp w2) x = nxt (hp w1) x"
      by blast
    have "res_ext (inf (hp w) ` set xs) w w2"
      using res_ext_trans [OF w1(6)] s(3) w1(4) set by simp
    then show ?thesis
      using f s True set
      by (intro exI [of _ b] exI [of _ "(hp w)\<lparr>nxt := f\<rparr>"] exI [of _ list] exI [of _ w2]
          exI [of _ "sort_key (\<lambda>c. res_key w2 (inf (hp w1) c)) zs"]) (auto simp: w1_def)
  qed
qed

text \<open>The second part: remove, walk and undo leave the heap as it was.\<close>

lemma remove_walk_undo:
  assumes l: "list_at (nxt h) list (list # item # rcell # ys)" and info: "has_info h (list # item # rcell # ys)"
  shows "\<exists>finder finder1 r1. core_list_remove item h = Some (rcell, unlinked item rcell h)
    \<and> core_list_find (unlinked item rcell h) list fi = Some finder
    \<and> (if finder = 0 then get_next (unlinked item rcell h) list else Some finder) = Some finder1
    \<and> crc_walk list finder1 (unlinked item rcell h) r = Some r1
    \<and> get_next (unlinked item rcell h) list = Some item
    \<and> core_list_undo_remove rcell item (unlinked item rcell h) = Some (rcell, h)"
proof -
  let ?u = "unlinked item rcell h"
  have tail: "list_at (nxt h) item (item # rcell # ys)" and ll: "list \<noteq> 0" "nxt h list = item" using l by auto
  have d: "distinct (list # item # rcell # ys)" by (rule list_at_distinct [OF l])
  have i: "item \<noteq> 0" "nxt h item = rcell" "rcell \<noteq> 0" "item \<noteq> rcell" using l d by auto
  have u: "list_at (nxt ?u) list (list # item # ys)" "nxt ?u list = item" "inf ?u list = inf h list"
    using unlinked_list(1) [OF tail] ll d by (auto simp: unlinked_def)
  have ui: "has_info ?u (list # item # ys)"
    using info d by (auto simp: unlinked_def has_info_def)
  obtain t where t: "core_list_find ?u list fi = Some t" "t \<noteq> 0 \<Longrightarrow> t \<in> set (list # item # ys)"
    using find_member [OF u(1) ui] by metis
  obtain finder1 zs where fnd: "(if t = 0 then get_next ?u list else Some t) = Some finder1" "list_at (nxt ?u) finder1 zs"
  proof (cases "t = 0")
    case True
    then show thesis using that [of item "item # ys"] u(1,2) ll by auto
  next
    case False
    obtain zs where "list_at (nxt ?u) t zs" using list_at_suffix [OF u(1) t(2) [OF False]] by metis
    then show thesis using that [of t zs] False by simp
  qed
  have "inf ?u list \<noteq> 0" using ui by simp
  from crc_walk_result [OF fnd(2) ll(1) this, of r] show ?thesis
    using core_list_remove_result [OF i(1-3)] core_list_undo_remove_result [OF i] t(1) fnd(1) u(2) ll
    by (intro exI conjI) simp_all
qed

text \<open>A list in the state the benchmark expects: in strict order of the indices, and the low byte of
  every data a copy of the high one.\<close>

definition fresh_list :: "world \<Rightarrow> u32 list \<Rightarrow> bool" where
  "fresh_list w xs \<longleftrightarrow> sorted_wrt (<) (map (\<lambda>c. idx_key w (inf (hp w) c)) xs)
     \<and> (\<forall>c\<in>set xs. renewed w (inf (hp w) c))"

text \<open>The third part: the sort by index undoes every change of order and of cached data.\<close>

lemma sorted_back:
  assumes l: "list_at (nxt (hp w)) list0 xs" and len: "2 \<le> length xs" and info: "has_info (hp w) xs" and fresh: "fresh_list w xs"
    and y: "list_at (nxt (hp w2)) list ys" "mset ys = mset xs" and ext: "res_ext (inf (hp w) ` set xs) w w2"
    and frame: "\<forall>x. x \<notin> set xs \<longrightarrow> nxt (hp w2) x = nxt (hp w) x"
  shows "\<exists>w5. core_list_mergesort list (cmp_idx True) w2 = Some (list0, w5) \<and> hp w5 = hp w \<and> res w5 = res w2"
proof -
  have inf: "inf (hp w2) = inf (hp w)" and idx: "idx (hp w2) = idx (hp w)" using ext by (simp_all add: res_ext_def)
  have set: "set ys = set xs" by (rule mset_eq_setD [OF y(2)])
  have "ys \<noteq> []" "has_info (hp w2) ys" using y(2) len info has_info_cong [OF inf y(2)] by auto
  from mergesort_idx_result [OF y(1) this] obtain list1 w5 where
    s: "core_list_mergesort list (cmp_idx True) w2 = Some (list1, w5)"
      "list_at (nxt (hp w5)) list1 (sort_key (\<lambda>c. idx_key w2 (inf (hp w2) c)) ys)"
      "idx_ext (inf (hp w2) ` set ys) w2 w5" "\<forall>x. x \<notin> set ys \<longrightarrow> nxt (hp w5) x = nxt (hp w2) x"
      "2 \<le> length ys \<longrightarrow> (\<forall>c\<in>set ys. renewed w5 (inf (hp w2) c))" by blast
  let ?f = "\<lambda>c. idx_key w (inf (hp w) c)"
  have key: "(\<lambda>c. idx_key w2 (inf (hp w2) c)) = ?f" by (simp add: idx_key_def inf idx)
  have strict: "sorted_wrt (<) (map ?f xs)" using fresh by (simp add: fresh_list_def)
  then have "distinct (map ?f xs)" "sorted (map ?f xs)" by (simp_all add: strict_sorted_iff)
  then have "sort_key ?f ys = xs"
    using y(2) set by (intro sort_key_inj_key_eq) (auto simp: distinct_map)
  then have restored: "list_at (nxt (hp w5)) list1 xs" using s(2) key by simp
  have "list1 = list0" using hd_eq_case [OF restored] hd_eq_case [OF l] by simp
  moreover have "nxt (hp w5) x = nxt (hp w) x" for x
    using path_determines [OF restored l, of x] s(4) frame set by (cases "x \<in> set xs") auto
  moreover have "inf (hp w5) = inf (hp w)" "idx (hp w5) = idx (hp w)" "res w5 = res w2"
    using s(3) inf idx by (simp_all add: idx_ext_def)
  moreover have "dat (hp w5) d = dat (hp w) d" for d
  proof (cases "d \<in> inf (hp w) ` set xs")
    case True
    have "regenv (dat (hp w5) d) = dat (hp w5) d" "regenv (dat (hp w) d) = dat (hp w) d"
      using True s(5) len y(2) set inf fresh mset_eq_length [OF y(2)] by (auto simp: renewed_def fresh_list_def)
    moreover have "dat (hp w5) d = dat (hp w2) d \<or> dat (hp w5) d = regenv (dat (hp w2) d)"
      using s(3) by (auto simp: idx_ext_def)
    moreover have "regenv (dat (hp w2) d) = regenv (dat (hp w) d)"
      using ext by (intro regenv_high) (simp add: res_ext_def)
    ultimately show ?thesis by auto
  next
    case False
    then have "dat (hp w5) d = dat (hp w2) d" using s(3) inf set by (auto simp: idx_ext_def)
    with False show ?thesis using ext by (auto simp: res_ext_def)
  qed
  ultimately show ?thesis using s(1)
    by (cases "hp w5"; cases "hp w") (auto simp: fun_eq_iff)
qed

lemma core_bench_list_result:
  assumes l: "list_at (nxt (hp w)) list0 xs" and len: "3 \<le> length xs" and info: "has_info (hp w) xs"
    and fresh: "fresh_list w xs" and ok: "0 < sint finder_idx \<longrightarrow> bench_ok (res w)"
  shows "\<exists>c w'. core_bench_list list0 finder_idx w = Some (c, list0, w') \<and> hp w' = hp w \<and> inputs (res w') = inputs (res w)"
proof -
  from searched_and_sorted [OF l len info ok] obtain b h1 list w2 ys where
    1: "find_loop 0 (seed3 (res w))
       \<lparr>flist = list0, fret = 0, found = 0, missed = 0, finfo = \<lparr>data16 = 0, didx = finder_idx\<rparr>\<rparr> (hp w) = Some (b, h1)"
      "(if sint finder_idx > 0 then core_list_mergesort (flist b) cmp_complex (w\<lparr>hp := h1\<rparr>)
       else Some (flist b, w\<lparr>hp := h1\<rparr>)) = Some (list, w2)"
      "list_at (nxt (hp w2)) list ys" "mset ys = mset xs" "res_ext (inf (hp w) ` set xs) w w2"
      "\<forall>x. x \<notin> set xs \<longrightarrow> nxt (hp w2) x = nxt (hp w) x" by (elim exE conjE)
  have "Suc (Suc (Suc 0)) \<le> length ys" using len arg_cong [OF 1(4), of size] by simp
  then obtain c0 item rcell zs where ys: "ys = c0 # item # rcell # zs" unfolding Suc_le_length_iff by blast
  have ll: "list = c0" "list \<noteq> 0" "nxt (hp w2) list = item" using 1(3) ys by auto
  have l2: "list_at (nxt (hp w2)) list (list # item # rcell # zs)" using 1(3) ys ll by simp
  have "has_info (hp w2) ys"
    using info has_info_cong [OF _ 1(4), of "hp w2" "hp w"] 1(5) by (simp add: res_ext_def)
  then have i2: "has_info (hp w2) (list # item # rcell # zs)" using ys ll by simp
  let ?r = "fret b + (found b * 4 - missed b)"
  from remove_walk_undo [OF l2 i2, of "finfo b" ?r] obtain finder finder1 r1 where
    2: "core_list_remove item (hp w2) = Some (rcell, unlinked item rcell (hp w2))"
      "core_list_find (unlinked item rcell (hp w2)) list (finfo b) = Some finder"
      "(if finder = 0 then get_next (unlinked item rcell (hp w2)) list else Some finder) = Some finder1"
      "crc_walk list finder1 (unlinked item rcell (hp w2)) ?r = Some r1"
      "get_next (unlinked item rcell (hp w2)) list = Some item"
      "core_list_undo_remove rcell item (unlinked item rcell (hp w2)) = Some (rcell, hp w2)" by (elim exE conjE)
  have len2: "2 \<le> length xs" using len by simp
  from sorted_back [OF l len2 info fresh 1(3-6)] obtain w5 where
    5: "core_list_mergesort list (cmp_idx True) w2 = Some (list0, w5)" "hp w5 = hp w" "res w5 = res w2" by blast
  have list0: "list0 \<noteq> 0" "inf (hp w) list0 \<noteq> 0" and rest: "list_at (nxt (hp w)) (nxt (hp w) list0) (tl xs)"
    using l len info by (cases xs; auto)+
  from crc_walk_result [OF rest list0, of r1] obtain r2 where
    6: "crc_walk list0 (nxt (hp w) list0) (hp w) r1 = Some r2" by blast
  have "core_bench_list list0 finder_idx w = Some (r2, list0, w5)"
    using 1(1) 2(1,2,4-6) 5 6 ll(2,3) list0 unfolding core_bench_list_def Let_def
    by (simp add: 1(2) 2(3) split del: if_split)
  then show ?thesis using 5(2,3) 1(5) by (auto simp: res_ext_def)
qed


section \<open>Properties\<close>

text \<open>C10: \<open>core_bench_list\<close> always returns, and at its end the list is back in its original state: on a
  list in strict order of its indices whose data carry their own backup, the whole heap (links, data
  pointers, data and indices) is what it was, whatever was searched, moved, sorted, cached, removed
  and put back in between; so are the seeds, the state block and the matrices.\<close>

theorem core_bench_list_restores:
  assumes "list_at (nxt (hp w)) list0 xs" and "3 \<le> length xs" and "has_info (hp w) xs"
    and "fresh_list w xs" and "0 < sint finder_idx \<longrightarrow> bench_ok (res w)"
  shows "\<exists>c w'. core_bench_list list0 finder_idx w = Some (c, list0, w') \<and> hp w' = hp w \<and> inputs (res w') = inputs (res w)"
  by (rule core_bench_list_result [OF assms])

lemma core_bench_list_restores_witness:
  "\<exists>c w'. core_bench_list 8 1 (demo 0x0505 0 1 2) = Some (c, 8, w') \<and> hp w' = hp (demo 0x0505 0 1 2)
    \<and> inputs (res w') = inputs (res (demo 0x0505 0 1 2))"
proof (rule core_bench_list_restores [OF demo_list _ demo_info])
  show "fresh_list (demo 0x0505 0 1 2) [8, 16, 24]"
    by (simp add: fresh_list_def renewed_def idx_key_def demo_def regenv_def)
qed (auto simp: demo_def bench_ok_def)

text \<open>The searches of the benchmark only permute the cells: whatever is looked for and however often,
  what is left is a list of the same cells, with the same data pointers, data and indices.\<close>

theorem find_loop_permutes:
  assumes "list_at (nxt h) (flist b) xs" and "2 \<le> length xs" and "has_info h xs"
  shows "\<exists>b' f ys. find_loop i n b h = Some (b', h\<lparr>nxt := f\<rparr>) \<and> list_at f (flist b') ys \<and> mset ys = mset xs
    \<and> (\<forall>x. x \<notin> set xs \<longrightarrow> f x = nxt h x)"
  by (rule find_loop_result [OF assms])

lemma find_loop_permutes_witness:
  "\<exists>b' f ys. find_loop 0 100 \<lparr>flist = 8, fret = 0, found = 0, missed = 0, finfo = \<lparr>data16 = 0, didx = 1\<rparr>\<rparr> (hp (demo 0x0505 0 1 2))
      = Some (b', (hp (demo 0x0505 0 1 2))\<lparr>nxt := f\<rparr>)
    \<and> list_at f (flist b') ys \<and> mset ys = mset [8, 16, 24] \<and> f 32 = 0"
  using find_loop_permutes [of "hp (demo 0x0505 0 1 2)"
      "\<lparr>flist = 8, fret = 0, found = 0, missed = 0, finfo = \<lparr>data16 = 0, didx = 1\<rparr>\<rparr>" "[8, 16, 24]" 0 100]
  by (fastforce simp: demo_fields demo_info)

end
