(* ===== verification/Core_Init.thy ===== *)
theory Core_Init
  imports Core_Bench
begin

text \<open>
  The initial list of the list benchmark: \<open>core_list_init\<close> lays the cells and the data items out in
  its block without overlap, and returns a list that is in the order of its indices and whose data
  carry their own backup.
\<close>

section \<open>The block\<close>

definition cell_at :: "u32 \<Rightarrow> nat \<Rightarrow> u32" where
  "cell_at mb j = mb + 8 * of_nat j"

definition item_at :: "u32 \<Rightarrow> nat \<Rightarrow> nat \<Rightarrow> u32" where
  "item_at mb n j = mb + 8 * of_nat n + 4 * of_nat j"

text \<open>A block of \<open>n\<close> cells and \<open>n\<close> items that does not wrap around the address space.\<close>

definition block :: "u32 \<Rightarrow> nat \<Rightarrow> bool" where
  "block mb n \<longleftrightarrow> mb \<noteq> 0 \<and> unat mb + 12 * n < 2 ^ 32"

lemma unat_block:
  assumes "block mb n" and "j \<le> n"
  shows "unat (cell_at mb j) = unat mb + 8 * j" and "unat (item_at mb n j) = unat mb + 8 * n + 4 * j"
proof -
  have "cell_at mb j = of_nat (unat mb + 8 * j)" and "item_at mb n j = of_nat (unat mb + 8 * n + 4 * j)"
    by (simp_all add: cell_at_def item_at_def)
  then show "unat (cell_at mb j) = unat mb + 8 * j" and "unat (item_at mb n j) = unat mb + 8 * n + 4 * j"
    using assms by (simp_all add: block_def unat_of_nat del: of_nat_add of_nat_mult)
qed

lemma block_inj:
  assumes "block mb n" and "i \<le> n" and "j \<le> n"
  shows "cell_at mb i = cell_at mb j \<longleftrightarrow> i = j" and "item_at mb n i = item_at mb n j \<longleftrightarrow> i = j"
  using unat_block [OF assms(1,2)] unat_block [OF assms(1,3)] by (auto simp add: word_unat_eq_iff)

lemma block_not_null:
  assumes "block mb n" and "j \<le> n"
  shows "cell_at mb j \<noteq> 0" and "item_at mb n j \<noteq> 0"
  using unat_block [OF assms] assms(1) by (auto simp: block_def unat_eq_0)

lemma next_cell: "cell_at mb j + 8 = cell_at mb (Suc j)" "item_at mb n j + 4 = item_at mb n (Suc j)"
  by (simp_all add: cell_at_def item_at_def algebra_simps)

lemma block_ends: "cell_at mb 0 = mb" "mb + 8 * of_nat n = cell_at mb n" "cell_at mb n = item_at mb n 0"
  "item_at mb n 0 + 4 * of_nat n = item_at mb n n"
  by (simp_all add: cell_at_def item_at_def)

section \<open>Inserting the items\<close>

text \<open>The heap with cells 0 to \<open>m\<close> in use: the head, then the items from the last one inserted to the
  first one, which is the tail.\<close>

definition built :: "u32 \<Rightarrow> nat \<Rightarrow> nat \<Rightarrow> heap \<Rightarrow> bool" where
  "built mb n m h \<longleftrightarrow> list_at (nxt h) mb (map (cell_at mb) (0 # rev [1..<Suc m]))
     \<and> (\<forall>j\<le>m. inf h (cell_at mb j) = item_at mb n j \<and> regenv (dat h (item_at mb n j)) = dat h (item_at mb n j))
     \<and> idx h (item_at mb n 0) = 0 \<and> (1 \<le> m \<longrightarrow> idx h (item_at mb n 1) = 0x7fff)"

lemma insert_new_full:
  assumes "block mb n" and "n \<le> m + 2" and "Suc (Suc m) \<le> n"
  shows "core_list_insert_new list info (cell_at mb (Suc m)) (item_at mb n (Suc m)) (cell_at mb n) (item_at mb n n) h
    = Some (0, cell_at mb (Suc m), item_at mb n (Suc m), h)"
proof -
  have "n = Suc (Suc m)" using assms by simp
  then show ?thesis by (simp add: core_list_insert_new_def copy_info_def next_cell)
qed

lemma insert_new_built:
  assumes bl: "block mb n" and m: "m + 2 < n" and built: "built mb n m h"
    and info: "regenv (data16 info) = data16 info" "didx info = 0x7fff"
  shows "\<exists>h'. core_list_insert_new mb info (cell_at mb (Suc m)) (item_at mb n (Suc m)) (cell_at mb n) (item_at mb n n) h
      = Some (cell_at mb (Suc m), cell_at mb (Suc (Suc m)), item_at mb n (Suc (Suc m)), h') \<and> built mb n (Suc m) h'"
proof -
  define new where "new = cell_at mb (Suc m)"
  define d where "d = item_at mb n (Suc m)"
  have le: "Suc (Suc m) \<le> n" "Suc m \<le> n" "0 \<le> n" using m by simp_all
  have room: "\<not> cell_at mb n \<le> cell_at mb (Suc (Suc m))" "\<not> item_at mb n n \<le> item_at mb n (Suc (Suc m))"
    using unat_block [OF bl le(1)] unat_block [OF bl, of n] m by (simp_all add: word_le_nat_alt)
  have nz: "new \<noteq> 0" "d \<noteq> 0" "mb \<noteq> 0"
    using block_not_null [OF bl le(2)] bl by (simp_all add: new_def d_def block_def)
  let ?h = "h\<lparr>nxt := (nxt h)(new := nxt h mb, mb := new), inf := (inf h)(new := d),
    dat := (dat h)(d := data16 info), idx := (idx h)(d := didx info)\<rparr>"
  have "core_list_insert_new mb info (cell_at mb (Suc m)) (item_at mb n (Suc m)) (cell_at mb n) (item_at mb n n) h
      = Some (cell_at mb (Suc m), cell_at mb (Suc (Suc m)), item_at mb n (Suc (Suc m)), ?h)"
    using nz room by (simp add: core_list_insert_new_def copy_info_def next_cell new_def d_def Let_def)
  moreover have "built mb n (Suc m) ?h"
  proof -
    let ?ys = "map (cell_at mb) (rev [1..<Suc m])"
    have fresh: "cell_at mb j \<noteq> new" "item_at mb n j \<noteq> d" if "j \<le> m" for j
      using that le block_inj [OF bl, of j "Suc m"] by (simp_all add: new_def d_def)
    have "new \<notin> set ?ys"
    proof
      assume "new \<in> set ?ys"
      then obtain j where "j \<in> set [1..<Suc m]" "new = cell_at mb j" unfolding set_map set_rev by blast
      then show False using fresh(1) [of j] by (auto split: if_splits)
    qed
    moreover have "mb \<notin> set ?ys" using block_inj(1) [OF bl, of 0] le by (auto simp: block_ends(1))
    moreover have "mb \<noteq> new" using fresh(1) [of 0] by (simp add: block_ends(1))
    moreover have "list_at (nxt h) (nxt h mb) ?ys" using built by (simp add: built_def block_ends(1))
    ultimately have l: "list_at (nxt ?h) mb (mb # new # ?ys)" using nz by simp
    then have "list_at (nxt ?h) mb (map (cell_at mb) (0 # rev [1..<Suc (Suc m)]))"
      by (simp add: block_ends(1) new_def)
    moreover have "\<forall>j\<le>Suc m. inf ?h (cell_at mb j) = item_at mb n j \<and> regenv (dat ?h (item_at mb n j)) = dat ?h (item_at mb n j)"
      using built fresh info(1) by (auto simp: built_def le_Suc_eq new_def d_def)
    moreover have "idx ?h (item_at mb n 0) = 0" using built fresh(2) [of 0] by (simp add: built_def)
    moreover have "idx ?h (item_at mb n 1) = 0x7fff"
      using built fresh(2) [of 1] info(2) by (cases "m = 0") (auto simp: built_def d_def)
    ultimately show ?thesis unfolding built_def by blast
  qed
  ultimately show ?thesis by blast
qed

lemma regenv_item_data: "regenv (item_data seed i) = item_data seed i"
proof (rule bit_word_eqI)
  fix k assume "k < LENGTH(16)"
  then have "k < 16" by simp
  then show "bit (regenv (item_data seed i)) k = bit (item_data seed i) k"
    unfolding bit_regenv by (rule nat_less_16) (simp_all add: item_data_def Let_def bit_simps)
qed

lemma insert_items_built:
  assumes "block mb n" and "n = unat sz" and "built mb n m h" and "m + 2 \<le> n" and "n \<le> m + 2 + (n - unat i)"
  shows "\<exists>h'. insert_items i sz seed mb (cell_at mb (Suc m)) (item_at mb n (Suc m)) (cell_at mb n) (item_at mb n n) h = Some h'
    \<and> built mb n (n - 2) h'"
  using assms(3-5)
proof (induction "n - unat i" arbitrary: i m h)
  case 0
  then have "\<not> i < sz" "m = n - 2" using assms(2) by (simp_all add: word_less_nat_alt)
  then show ?case using 0 by (subst insert_items.simps) simp
next
  case (Suc k)
  then have i: "i < sz" using assms(2) by (simp add: word_less_nat_alt)
  have u: "unat (i + 1) = Suc (unat i)" by (rule unat_count [OF i])
  have k: "k = n - unat (i + 1)" using Suc(2) u by simp
  let ?info = "\<lparr>data16 = item_data seed i, didx = 0x7fff\<rparr>"
  show ?case
  proof (cases "m + 2 < n")
    case True
    from insert_new_built [OF assms(1) True Suc(3), of ?info] obtain h' where
      h': "core_list_insert_new mb ?info (cell_at mb (Suc m)) (item_at mb n (Suc m)) (cell_at mb n) (item_at mb n n) h
      = Some (cell_at mb (Suc m), cell_at mb (Suc (Suc m)), item_at mb n (Suc (Suc m)), h')" "built mb n (Suc m) h'"
      by (auto simp: regenv_item_data)
    have "Suc m + 2 \<le> n" "n \<le> Suc m + 2 + (n - unat (i + 1))" using True Suc u by auto
    from Suc(1) [OF k h'(2) this] show ?thesis
      using h'(1) i by (subst insert_items.simps) simp
  next
    case False
    have "n \<le> m + 2 + (n - unat (i + 1))" using False by simp
    from Suc(1) [OF k Suc(3,4) this] show ?thesis
      using insert_new_full [OF assms(1), of m mb ?info h] False Suc(4) i by (subst insert_items.simps) simp
  qed
qed


section \<open>Indexing the items\<close>

lemma sint_nonneg_s16:
  fixes v :: s16
  assumes "unat v \<le> n" and "n \<le> 0x7fff"
  shows "0 \<le> sint v \<and> sint v \<le> int n"
proof -
  have "uint v = int (unat v)" by simp
  then have small: "uint v \<le> int n" "uint v \<le> 0x7fff" using assms by linarith+
  have "sint v = signed_take_bit 15 (uint v)" by (simp add: sint_uint)
  also have "\<dots> = uint v"
  proof (rule signed_take_bit_int_eq_self)
    show "- (2 ^ 15) \<le> uint v" by (rule order_trans [of _ 0]) simp_all
  qed (use small(2) in simp)
  finally show ?thesis using small(1) by simp
qed

lemma sint_small_s16: "v AND 0x3fff = v \<Longrightarrow> 0 \<le> sint v \<and> sint v \<le> 0x3fff" for v :: s16
proof -
  assume v: "v AND 0x3fff = v"
  have "v AND 0x3fff \<le> 0x3fff" by (rule word_and_le1)
  then have "unat v \<le> 0x3fff" using v by (simp add: word_le_nat_alt)
  then show ?thesis using sint_nonneg_s16 [of v "0x3fff"] by simp
qed

lemma item_idx_range:
  assumes "unat sz div 5 \<le> 0x3fff"
  shows "0 \<le> sint (item_idx i sz seed) \<and> sint (item_idx i sz seed) \<le> 0x3fff"
proof (cases "i < sz div 5")
  case True
  then have "unat i \<le> 0x3fff" using assms by (simp add: word_less_nat_alt unat_div)
  moreover from this have "unat (ucast i :: s16) = unat i"
    by (simp add: unsigned_ucast_eq take_bit_nat_eq_self)
  ultimately show ?thesis using True sint_nonneg_s16 [of "ucast i" "0x3fff"] by (simp add: item_idx_def)
next
  case False
  have "(0x3fff AND w) AND 0x3fff = 0x3fff AND w" for w :: s16
    by (simp add: and.assoc and.commute and.left_commute)
  then show ?thesis using False unfolding item_idx_def Let_def by (simp add: sint_small_s16)
qed

lemma index_loop_result:
  assumes "list_at (nxt h) p (ys @ [z])" and "has_info h (ys @ [z])" and "distinct (map (inf h) (ys @ [z]))"
  shows "\<exists>g. index_loop p i sz seed h = Some (h\<lparr>idx := g\<rparr>) \<and> (\<forall>d. d \<notin> inf h ` set ys \<longrightarrow> g d = idx h d)
    \<and> map (\<lambda>c. g (inf h c)) ys = map (\<lambda>k. item_idx (i + of_nat k) sz seed) [0..<length ys]"
  using assms
proof (induction ys arbitrary: p i h)
  case Nil
  then show ?case by (auto simp: index_loop.simps [of z] intro!: exI [of _ "idx h"])
next
  case (Cons y ys)
  let ?h = "h\<lparr>idx := (idx h)(inf h y := item_idx i sz seed)\<rparr>"
  have y: "p = y" "y \<noteq> 0" "inf h y \<noteq> 0" and tl: "list_at (nxt ?h) (nxt h y) (ys @ [z])"
    "has_info ?h (ys @ [z])" "distinct (map (inf ?h) (ys @ [z]))" and fresh: "inf h y \<notin> inf h ` set (ys @ [z])"
    using Cons.prems by (auto simp: has_info_def)
  have ne: "nxt h y \<noteq> 0" using tl(1) by (cases ys) auto
  from Cons.IH [OF tl, of "i + 1"] obtain g where
    g: "index_loop (nxt h y) (i + 1) sz seed ?h = Some (?h\<lparr>idx := g\<rparr>)"
      "\<forall>d. d \<notin> inf ?h ` set ys \<longrightarrow> g d = idx ?h d"
      "map (\<lambda>c. g (inf ?h c)) ys = map (\<lambda>k. item_idx (i + 1 + of_nat k) sz seed) [0..<length ys]"
    by (elim exE conjE)
  show ?case
  proof (intro exI conjI)
    show "index_loop p i sz seed h = Some (h\<lparr>idx := g\<rparr>)"
      using y ne g(1) by (simp add: index_loop.simps [of y])
    show "\<forall>d. d \<notin> inf h ` set (y # ys) \<longrightarrow> g d = idx h d" using g(2) by auto
    have "[0..<length (y # ys)] = 0 # map Suc [0..<length ys]" by (simp add: upt_conv_Cons map_Suc_upt del: upt_Suc)
    moreover have "g (inf h y) = item_idx i sz seed" using g(2) fresh by auto
    ultimately show "map (\<lambda>c. g (inf h c)) (y # ys) = map (\<lambda>k. item_idx (i + of_nat k) sz seed) [0..<length (y # ys)]"
      using g(3) by (simp add: ac_simps del: upt_Suc)
  qed
qed

section \<open>The sorted list\<close>

lemma sort_key_first:
  fixes f :: "'a \<Rightarrow> int"
  assumes "\<And>y. y \<in> set ys \<Longrightarrow> f a \<le> f y"
  shows "sort_key f (a # ys) = a # sort_key f ys"
  using assms by (simp add: insort_is_Cons)

lemma insort_key_last: "f x \<le> f z \<Longrightarrow> insort_key f x (ys @ [z]) = insort_key f x ys @ [z]"
  for f :: "'a \<Rightarrow> int"
  by (induction ys) auto

lemma sort_key_last:
  fixes f :: "'a \<Rightarrow> int"
  assumes "\<And>y. y \<in> set ys \<Longrightarrow> f y \<le> f z"
  shows "sort_key f (ys @ [z]) = sort_key f ys @ [z]"
  using assms by (induction ys) (auto simp: insort_key_last)


section \<open>The initial list\<close>

lemma regenv_sentinels: "regenv 0x8080 = 0x8080" "regenv 0xffff = 0xffff"
  by (simp_all add: regenv_def)

text \<open>The heap with the head and the tail, and after all insertions.\<close>

lemma init_built:
  assumes bl: "block mb n" and n: "n = unat sz" "3 \<le> n"
  shows "\<exists>h5 h6. core_list_insert_new mb \<lparr>data16 = 0xffff, didx = 0x7fff\<rparr> (mb + 8) (mb + 8 * sz + 4) (mb + 8 * sz) (mb + 8 * sz + 4 * sz)
      (h\<lparr>nxt := (nxt h)(mb := 0), inf := (inf h)(mb := mb + 8 * sz), idx := (idx h)(mb + 8 * sz := 0),
         dat := (dat h)(mb + 8 * sz := 0x8080)\<rparr>) = Some (cell_at mb 1, cell_at mb 2, item_at mb n 2, h5)
    \<and> insert_items 0 sz seed mb (cell_at mb 2) (item_at mb n 2) (mb + 8 * sz) (mb + 8 * sz + 4 * sz) h5 = Some h6
    \<and> built mb n (n - 2) h6"
proof -
  let ?h = "h\<lparr>nxt := (nxt h)(mb := 0), inf := (inf h)(mb := mb + 8 * sz), idx := (idx h)(mb + 8 * sz := 0),
         dat := (dat h)(mb + 8 * sz := 0x8080)\<rparr>"
  have sz: "of_nat n = sz" using n(1) by simp
  have ends: "mb + 8 = cell_at mb (Suc 0)" "mb + 8 * sz + 4 = item_at mb n (Suc 0)" "mb + 8 * sz = cell_at mb n"
    "mb + 8 * sz + 4 * sz = item_at mb n n" "mb + 8 * sz = item_at mb n 0"
    by (simp_all add: cell_at_def item_at_def sz)
  have "mb \<noteq> 0" using bl by (simp add: block_def)
  then have "built mb n 0 ?h"
    by (simp add: built_def block_ends(1) ends(5) regenv_sentinels)
  from insert_new_built [OF bl _ this, of "\<lparr>data16 = 0xffff, didx = 0x7fff\<rparr>"] n(2) obtain h5 where
    h5: "core_list_insert_new mb \<lparr>data16 = 0xffff, didx = 0x7fff\<rparr> (cell_at mb (Suc 0)) (item_at mb n (Suc 0)) (cell_at mb n) (item_at mb n n) ?h
      = Some (cell_at mb (Suc 0), cell_at mb (Suc (Suc 0)), item_at mb n (Suc (Suc 0)), h5)" "built mb n (Suc 0) h5"
    by (auto simp: regenv_sentinels)
  have "Suc 0 + 2 \<le> n" "n \<le> Suc 0 + 2 + (n - unat (0 :: u32))" using n(2) by simp_all
  from insert_items_built [OF bl n(1) h5(2) this, of seed] obtain h6 where
    "insert_items 0 sz seed mb (cell_at mb (Suc (Suc 0))) (item_at mb n (Suc (Suc 0))) (cell_at mb n) (item_at mb n n) h5 = Some h6"
    "built mb n (n - 2) h6" by blast
  with h5(1) have "core_list_insert_new mb \<lparr>data16 = 0xffff, didx = 0x7fff\<rparr> (mb + 8) (mb + 8 * sz + 4) (mb + 8 * sz) (mb + 8 * sz + 4 * sz)
      ?h = Some (cell_at mb 1, cell_at mb 2, item_at mb n 2, h5)
    \<and> insert_items 0 sz seed mb (cell_at mb 2) (item_at mb n 2) (mb + 8 * sz) (mb + 8 * sz + 4 * sz) h5 = Some h6
    \<and> built mb n (n - 2) h6"
    unfolding ends(4) unfolding ends(2) unfolding ends(1) unfolding ends(3)
    by (simp add: numeral_2_eq_2)
  then show ?thesis by - (rule exI, rule exI)
qed

lemma core_list_init_steps:
  assumes "blksize div 20 - 2 = sz" and "mb \<noteq> 0" and "mb + 8 * sz = db" and "db \<noteq> 0" and "db + 4 * sz = de"
    and "core_list_insert_new mb \<lparr>data16 = 0xffff, didx = 0x7fff\<rparr> (mb + 8) (db + 4) db de
      ((hp w)\<lparr>nxt := (nxt (hp w))(mb := 0), inf := (inf (hp w))(mb := db), idx := (idx (hp w))(db := 0),
         dat := (dat (hp w))(db := 0x8080)\<rparr>) = Some (c, m2, d2, h5)"
    and "insert_items 0 sz seed mb m2 d2 db de h5 = Some h6"
    and "index_loop (nxt h6 mb) 1 sz seed h6 = Some h7"
  shows "core_list_init blksize mb seed w = core_list_mergesort mb (cmp_idx True) (w\<lparr>hp := h7\<rparr>)"
  using assms(2,4,6-8) unfolding core_list_init_def Let_def
  by (simp add: assms(1,3,5))

text \<open>The indices of the cells between the head and the tail.\<close>

definition mid_idx :: "nat \<Rightarrow> s16 \<Rightarrow> int list" where
  "mid_idx n seed = map (\<lambda>k. sint (item_idx (1 + of_nat k) (of_nat n) seed)) [0..<n - 3]"

lemma core_list_init_result:
  assumes size: "100 \<le> unat blksize" "unat blksize < 0x10000" and n: "n = unat blksize div 20 - 2" and bl: "block mb n"
  shows "\<exists>w' mid. core_list_init blksize mb seed w = Some (mb, w') \<and> list_at (nxt (hp w')) mb (mb # mid @ [cell_at mb 1])
    \<and> mset mid = mset (map (cell_at mb) [2..<n - 1]) \<and> (\<forall>j<n - 1. inf (hp w') (cell_at mb j) = item_at mb n j)
    \<and> sorted (map (\<lambda>c. idx_key w' (inf (hp w') c)) (mb # mid @ [cell_at mb 1]))
    \<and> (\<forall>c\<in>set (mb # mid @ [cell_at mb 1]). renewed w' (inf (hp w') c)) \<and> res w' = res w
    \<and> map (\<lambda>c. idx_key w' (inf (hp w') c)) (mb # mid @ [cell_at mb 1]) = 0 # sort (mid_idx n seed) @ [0x7fff]"
proof -
  define sz where "sz = blksize div 20 - 2"
  have "unat (blksize div 20) = unat blksize div 20" by (simp add: unat_div)
  then have "2 \<le> blksize div 20" using size by (simp add: word_le_nat_alt)
  then have usz: "n = unat sz" using n by (simp add: sz_def unat_sub unat_div)
  have n3: "3 \<le> n" "n < 0x10000" using n size by auto
  let ?h0 = "(hp w)\<lparr>nxt := (nxt (hp w))(mb := 0), inf := (inf (hp w))(mb := mb + 8 * sz),
     idx := (idx (hp w))(mb + 8 * sz := 0),
     dat := (dat (hp w))(mb + 8 * sz := 0x8080)\<rparr>"
  from init_built [OF bl usz n3(1), of "hp w" seed] obtain h5 h6 where
    h5: "core_list_insert_new mb \<lparr>data16 = 0xffff, didx = 0x7fff\<rparr> (mb + 8) (mb + 8 * sz + 4) (mb + 8 * sz) (mb + 8 * sz + 4 * sz) ?h0
      = Some (cell_at mb 1, cell_at mb 2, item_at mb n 2, h5)"
    and h6: "insert_items 0 sz seed mb (cell_at mb 2) (item_at mb n 2) (mb + 8 * sz) (mb + 8 * sz + 4 * sz) h5 = Some h6"
      "built mb n (n - 2) h6" by blast
  define z where "z = cell_at mb 1"
  define ys where "ys = map (cell_at mb) (rev [2..<n - 1])"
  have "Suc (n - 2) = n - 1" using n3 by simp
  then have up: "[1..<Suc (n - 2)] = 1 # [2..<n - 1]"
    by (simp only:, subst upt_conv_Cons) (use n3 in \<open>simp_all add: numeral_2_eq_2\<close>)
  have cells: "map (cell_at mb) (0 # rev [1..<Suc (n - 2)]) = mb # ys @ [z]"
    unfolding up ys_def z_def by (simp add: block_ends(1) del: upt_Suc)
  have inf6: "inf h6 (cell_at mb j) = item_at mb n j" "regenv (dat h6 (item_at mb n j)) = dat h6 (item_at mb n j)" if "j < n - 1" for j
    using h6(2) that by (auto simp: built_def)
  have l6: "list_at (nxt h6) mb (mb # ys @ [z])" using h6(2) unfolding built_def cells by blast
  have infs: "map (inf h6) (mb # ys @ [z]) = map (item_at mb n) (0 # rev [1..<Suc (n - 2)])"
    unfolding cells [symmetric] map_map using inf6(1) n3 by (intro map_cong) auto
  have dist: "distinct (map (inf h6) (mb # ys @ [z]))"
    unfolding infs using n3 block_inj(2) [OF bl] by (auto simp: distinct_map inj_on_def)
  have nz: "\<forall>d\<in>set (map (inf h6) (mb # ys @ [z])). d \<noteq> 0"
    unfolding infs using n3 block_not_null(2) [OF bl] by auto
  have info6: "has_info h6 (mb # ys @ [z])" using nz by (simp add: has_info_def)
  have tl: "list_at (nxt h6) (nxt h6 mb) (ys @ [z])" "has_info h6 (ys @ [z])" "distinct (map (inf h6) (ys @ [z]))"
    using l6 info6 dist by auto
  from index_loop_result [OF tl, of 1 sz seed] obtain g where
    g: "index_loop (nxt h6 mb) 1 sz seed h6 = Some (h6\<lparr>idx := g\<rparr>)" "\<forall>d. d \<notin> inf h6 ` set ys \<longrightarrow> g d = idx h6 d"
      "map (\<lambda>c. g (inf h6 c)) ys = map (\<lambda>k. item_idx (1 + of_nat k) sz seed) [0..<length ys]" by (elim exE conjE)
  define w7 where "w7 = w\<lparr>hp := h6\<lparr>idx := g\<rparr>\<rparr>"
  have w7: "list_at (nxt (hp w7)) mb (mb # ys @ [z])" "has_info (hp w7) (mb # ys @ [z])" "inf (hp w7) = inf h6" "res w7 = res w"
    using l6 info6 by (auto simp: w7_def has_info_def)
  from mergesort_idx_result [OF w7(1) _ w7(2)] obtain list' w' where
    s: "core_list_mergesort mb (cmp_idx True) w7 = Some (list', w')"
      "list_at (nxt (hp w')) list' (sort_key (\<lambda>c. idx_key w7 (inf (hp w7) c)) (mb # ys @ [z]))"
      "idx_ext (inf (hp w7) ` set (mb # ys @ [z])) w7 w'"
      "\<forall>c\<in>set (mb # ys @ [z]). renewed w' (inf (hp w7) c)" by auto
  have run: "core_list_init blksize mb seed w = Some (list', w')"
  proof -
    have "mb \<noteq> 0" "mb + 8 * sz \<noteq> 0"
      using bl block_not_null(2) [OF bl, of 0] by (simp_all add: block_def item_at_def usz)
    from core_list_init_steps [OF sz_def [symmetric] this(1) refl this(2) refl h5 h6(1) g(1)] show ?thesis
      using s(1) by (simp add: w7_def)
  qed
  let ?f = "\<lambda>c. idx_key w7 (inf h6 c)"
  have keys: "?f mb = 0" "?f z = 0x7fff" "\<And>c. c \<in> set ys \<Longrightarrow> 0 \<le> ?f c \<and> ?f c \<le> 0x3fff"
  proof -
    have "inf h6 mb = item_at mb n 0" "inf h6 z = item_at mb n 1"
      using inf6(1) [of 0] inf6(1) [of 1] n3 by (simp_all add: block_ends(1) z_def)
    moreover have "inf h6 mb \<notin> inf h6 ` set ys" "inf h6 z \<notin> inf h6 ` set ys" using dist by auto
    ultimately show "?f mb = 0" "?f z = 0x7fff"
      using g(2) h6(2) n3 by (simp_all add: idx_key_def w7_def built_def)
    have small: "unat sz div 5 \<le> 0x3fff" using usz n3(2) by simp
    have "g (inf h6 c) \<in> set (map (\<lambda>c. g (inf h6 c)) ys)" if "c \<in> set ys" for c using that by simp
    then show "\<And>c. c \<in> set ys \<Longrightarrow> 0 \<le> ?f c \<and> ?f c \<le> 0x3fff"
      unfolding g(3) using item_idx_range [OF small] by (fastforce simp: idx_key_def w7_def)
  qed
  define mid where "mid = sort_key ?f ys"
  have "sort_key ?f (mb # (ys @ [z])) = mb # sort_key ?f (ys @ [z])"
    by (rule sort_key_first) (use keys in auto)
  moreover have "sort_key ?f (ys @ [z]) = mid @ [z]"
    unfolding mid_def by (rule sort_key_last) (use keys in fastforce)
  ultimately have sorted: "sort_key ?f (mb # ys @ [z]) = mb # mid @ [z]" by simp
  have "length ys = n - 3" by (simp add: ys_def)
  then have midx: "map ?f ys = mid_idx n seed"
    using arg_cong [OF g(3), of "map sint"] by (simp add: mid_idx_def idx_key_def w7_def usz o_def)
  have same: "inf (hp w') = inf h6" "idx (hp w') = idx (hp w7)" "res w' = res w"
    using s(3) w7(3,4) by (simp_all add: idx_ext_def)
  have l': "list_at (nxt (hp w')) list' (mb # mid @ [z])" using s(2) sorted w7(3) by simp
  have "sorted (map ?f (sort_key ?f (mb # ys @ [z])))" by (rule sorted_sort_key)
  then have ordered: "sorted (map (\<lambda>c. idx_key w' (inf (hp w') c)) (mb # mid @ [z]))"
    unfolding sorted by (simp add: idx_key_def same)
  have "map ?f mid = sort (mid_idx n seed)"
    unfolding midx [symmetric] by (rule properties_for_sort [symmetric]) (simp_all add: mid_def)
  then have idxs: "map (\<lambda>c. idx_key w' (inf (hp w') c)) (mb # mid @ [z]) = 0 # sort (mid_idx n seed) @ [0x7fff]"
    using keys(1,2) by (simp add: idx_key_def same)
  have "set mid = set ys" by (simp add: mid_def)
  then have fresh: "\<forall>c\<in>set (mb # mid @ [z]). renewed w' (inf (hp w') c)" using s(4) w7(3) same(1) by simp
  have "mset mid = mset (map (cell_at mb) [2..<n - 1])" by (simp add: mid_def ys_def rev_map [symmetric])
  moreover have "\<forall>j<n - 1. inf (hp w') (cell_at mb j) = item_at mb n j" using inf6(1) same(1) by simp
  moreover have "list' = mb" using l' by simp
  ultimately show ?thesis
    using run l' ordered fresh same(3) idxs unfolding z_def by (intro exI [of _ w'] exI [of _ mid] conjI) (simp_all only:)
qed


section \<open>Properties\<close>

text \<open>\<open>core_list_init\<close> returns for every size of 100 to 65535 bytes: the list holds one cell less than
  the block has room for, each with its own data item in the block, the head first and the sentinel
  with the largest index last; it is in the order of the indices, and every data item carries its
  backup. The seeds, the state block and the matrices are not touched.\<close>

theorem core_list_init_sorted:
  assumes "100 \<le> unat blksize" and "unat blksize < 0x10000" and "n = unat blksize div 20 - 2" and "block mb n"
  shows "\<exists>w' mid. core_list_init blksize mb seed w = Some (mb, w') \<and> list_at (nxt (hp w')) mb (mb # mid @ [cell_at mb 1])
    \<and> mset mid = mset (map (cell_at mb) [2..<n - 1]) \<and> (\<forall>j<n - 1. inf (hp w') (cell_at mb j) = item_at mb n j)
    \<and> sorted (map (\<lambda>c. idx_key w' (inf (hp w') c)) (mb # mid @ [cell_at mb 1]))
    \<and> (\<forall>c\<in>set (mb # mid @ [cell_at mb 1]). renewed w' (inf (hp w') c)) \<and> res w' = res w"
  using core_list_init_result [OF assms, of seed w] by blast

lemma core_list_init_sorted_witness:
  "\<exists>w' mid. core_list_init 666 0x1000 7 (demo 0 0 0 0) = Some (0x1000, w')
    \<and> list_at (nxt (hp w')) 0x1000 (0x1000 # mid @ [0x1008])
    \<and> mset mid = mset (map (cell_at 0x1000) [2..<30]) \<and> res w' = res (demo 0 0 0 0)"
proof -
  have "cell_at 0x1000 1 = 0x1008" by (simp add: cell_at_def)
  moreover have "block 0x1000 31" by (simp add: block_def)
  moreover have "(30 :: nat) = 31 - 1" by simp
  ultimately show ?thesis
    using core_list_init_sorted [of 666 31 "0x1000" 7 "demo 0 0 0 0"] by fastforce
qed

end
