(* ===== verification/Dhry_Port.thy ===== *)
theory Dhry_Port
  imports Printf
begin

text \<open>
  The port layer of Dhrystone, \<open>sim/sw/dhrystone/dhry_portme.c\<close>: the two-allocation heap, the clock,
  the string and memory routines and the report. \<open>strcpy\<close>, \<open>memcpy\<close> and \<open>memset\<close> work on a byte
  memory, a total function on the 32-bit address space; a word access whose address is not a multiple
  of four traps, which is \<open>None\<close>, as is a loop that never ends.
\<close>

section \<open>Byte memory\<close>

type_synonym mem = "u32 \<Rightarrow> u8"

definition le_word :: "u8 \<Rightarrow> u8 \<Rightarrow> u8 \<Rightarrow> u8 \<Rightarrow> u32" where
  "le_word b0 b1 b2 b3 = ucast b0 OR push_bit 8 (ucast b1) OR push_bit 16 (ucast b2) OR push_bit 24 (ucast b3)"

definition load_word :: "mem \<Rightarrow> u32 \<Rightarrow> u32 option" where
  "load_word m a = (if a AND 3 = 0 then Some (le_word (m a) (m (a + 1)) (m (a + 2)) (m (a + 3))) else None)"

definition store_word :: "mem \<Rightarrow> u32 \<Rightarrow> u32 \<Rightarrow> mem option" where
  "store_word m a w =
     (if a AND 3 = 0 then
        Some (m(a := ucast w, a + 1 := ucast (drop_bit 8 w), a + 2 := ucast (drop_bit 16 w), a + 3 := ucast (drop_bit 24 w)))
      else None)"

section \<open>String and memory routines\<close>

definition HAS_ZERO_BYTE :: "u32 \<Rightarrow> bool" where
  "HAS_ZERO_BYTE w \<longleftrightarrow> (w - 0x01010101) AND NOT w AND 0x80808080 \<noteq> 0"

text \<open>Copy bytes up to a word boundary of the source. The flag says that the terminator was copied.\<close>

partial_function (option) align_loop :: "mem \<Rightarrow> u32 \<Rightarrow> u32 \<Rightarrow> (bool \<times> u32 \<times> u32 \<times> mem) option" where
  "align_loop m d src =
     (if src AND 3 \<noteq> 0 then
        (let m1 = m(d := m src) in
         if m src = 0 then Some (True, d + 1, src + 1, m1) else align_loop m1 (d + 1) (src + 1))
      else Some (False, d, src, m))"

text \<open>Copy words until one holds a zero byte.\<close>

partial_function (option) word_loop :: "mem \<Rightarrow> u32 \<Rightarrow> u32 \<Rightarrow> (u32 \<times> u32 \<times> mem) option" where
  "word_loop m wd ws = do {
     w \<leftarrow> load_word m ws;
     if HAS_ZERO_BYTE w then Some (wd, ws, m)
     else do { m1 \<leftarrow> store_word m wd w; word_loop m1 (wd + 4) (ws + 4) } }"

partial_function (option) byte_loop :: "mem \<Rightarrow> u32 \<Rightarrow> u32 \<Rightarrow> mem option" where
  "byte_loop m d src =
     (let m1 = m(d := m src) in if m src \<noteq> 0 then byte_loop m1 (d + 1) (src + 1) else Some m1)"

definition strcpy :: "mem \<Rightarrow> u32 \<Rightarrow> u32 \<Rightarrow> (u32 \<times> mem) option" where
  "strcpy m dst src =
     (if (dst XOR src) AND 3 = 0 then do {
        (done, d, s, m1) \<leftarrow> align_loop m dst src;
        if done then Some (dst, m1)
        else do {
          (d1, s1, m2) \<leftarrow> word_loop m1 d s;
          m3 \<leftarrow> byte_loop m2 d1 s1;
          Some (dst, m3) } }
      else do { m1 \<leftarrow> byte_loop m dst src; Some (dst, m1) })"

primrec memcpy_loop :: "nat \<Rightarrow> mem \<Rightarrow> u32 \<Rightarrow> u32 \<Rightarrow> mem" where
  "memcpy_loop 0 m d s = m"
| "memcpy_loop (Suc n) m d s = memcpy_loop n (m(d := m s)) (d + 1) (s + 1)"

definition memcpy :: "mem \<Rightarrow> u32 \<Rightarrow> u32 \<Rightarrow> u32 \<Rightarrow> u32 \<times> mem" where
  "memcpy m dst src n = (dst, memcpy_loop (unat n) m dst src)"

primrec memset_loop :: "nat \<Rightarrow> mem \<Rightarrow> u32 \<Rightarrow> u8 \<Rightarrow> mem" where
  "memset_loop 0 m d c = m"
| "memset_loop (Suc n) m d c = memset_loop n (m(d := c)) (d + 1) c"

definition memset :: "mem \<Rightarrow> u32 \<Rightarrow> s32 \<Rightarrow> u32 \<Rightarrow> u32 \<times> mem" where
  "memset m dst c n = (dst, memset_loop (unat n) m dst (ucast c))"

section \<open>Bytes of a word\<close>

lemma bytes_of_le_word:
  "ucast (le_word b0 b1 b2 b3) = b0" "ucast (drop_bit 8 (le_word b0 b1 b2 b3)) = b1"
  "ucast (drop_bit 16 (le_word b0 b1 b2 b3)) = b2" "ucast (drop_bit 24 (le_word b0 b1 b2 b3)) = b3"
  by (rule bit_word_eqI; auto simp: le_word_def bit_simps dest: bit_imp_le_length)+


lemma shift_in_byte: "ucast (b :: u8) OR push_bit 8 h = 256 * h + (ucast b :: u32)"
proof -
  have "\<not> bit (push_bit 8 h) n \<or> \<not> bit (ucast b :: u32) n" for n
    by (auto simp: bit_simps dest: bit_imp_le_length)
  then have "push_bit 8 h + (ucast b :: u32) = push_bit 8 h OR ucast b" by (rule disjunctive_add)
  then show ?thesis by (simp add: push_bit_eq_mult mult.commute or.commute)
qed

lemma le_word_nested:
  "le_word b0 b1 b2 b3 = 256 * (256 * (256 * ucast b3 + ucast b2) + ucast b1) + ucast b0"
proof -
  have "le_word b0 b1 b2 b3 = ucast b0 OR push_bit 8 (ucast b1 OR push_bit 8 (ucast b2 OR push_bit 8 (ucast b3)))"
    by (simp add: le_word_def push_bit_or or.assoc)
  then show ?thesis by (simp only: shift_in_byte)
qed

lemma ucast_of_nat_unat: "(ucast (b :: u8) :: u32) = of_nat (unat b)"
  using unat_lt_256 [of b] by (simp add: word_unat_eq_iff unat_of_nat)

lemma unat_le_word: "unat (le_word b0 b1 b2 b3) = unat b0 + 256 * unat b1 + 65536 * unat b2 + 16777216 * unat b3"
proof -
  have small: "unat b0 < 256" "unat b1 < 256" "unat b2 < 256" "unat b3 < 256" by (rule unat_lt_256)+
  have "le_word b0 b1 b2 b3 = of_nat (unat b0 + 256 * unat b1 + 65536 * unat b2 + 16777216 * unat b3)"
  proof -
    have flat: "256 * (256 * (256 * d + c) + b) + a = a + 256 * b + 65536 * c + 16777216 * d" for a b c d :: u32
      by (simp add: algebra_simps)
    show ?thesis unfolding le_word_nested flat ucast_of_nat_unat
      by (simp only: of_nat_add of_nat_mult of_nat_numeral)
  qed
  moreover have "unat b0 + 256 * unat b1 + 65536 * unat b2 + 16777216 * unat b3 < 2 ^ LENGTH(32)" using small by simp
  ultimately show ?thesis by (simp only: unat_of_nat take_bit_nat_eq_self mod_less)
qed

text \<open>The top bit of byte \<open>k\<close> of a word.\<close>

lemma bit_mod: "bit (w :: u32) n \<longleftrightarrow> 2 ^ n \<le> unat w mod 2 ^ Suc n" if "n < 32"
proof -
  have "bit w n = bit (unat w) n" using that by (simp add: bit_unsigned_iff)
  also have "\<dots> \<longleftrightarrow> unat w div 2 ^ n mod 2 = 1" by (simp add: bit_iff_odd odd_iff_mod_2_eq_one)
  also have "\<dots> \<longleftrightarrow> 2 ^ n \<le> unat w mod (2 ^ n * 2)"
  proof -
    have eq: "unat w mod (2 ^ n * 2) = 2 ^ n * (unat w div 2 ^ n mod 2) + unat w mod 2 ^ n" by (rule mod_mult2_eq)
    have "\<not> 2 ^ n \<le> unat w mod 2 ^ n" by (simp add: not_le)
    then show ?thesis unfolding eq by (cases "unat w div 2 ^ n mod 2 = 1") (simp_all add: not_mod_2_eq_1_eq_0)
  qed
  finally show ?thesis by (simp add: mult.commute)
qed

lemma HAS_ZERO_BYTE_bits:
  "HAS_ZERO_BYTE w \<longleftrightarrow> (\<exists>k \<in> {7, 15, 23, 31}. bit (w - 0x01010101) k \<and> \<not> bit w k)"
proof -
  have mask: "bit (0x80808080 :: u32) k \<longleftrightarrow> k = 7 \<or> k = 15 \<or> k = 23 \<or> k = 31" for k
  proof -
    have "(0x80808080 :: u32) = push_bit 7 1 OR push_bit 15 1 OR push_bit 23 1 OR push_bit 31 1" by simp
    then show ?thesis by (simp only: bit_simps) auto
  qed
  have "x AND y AND z \<noteq> 0 \<longleftrightarrow> (\<exists>n. bit x n \<and> bit y n \<and> bit z n)" for x y z :: u32
    by (auto simp: bit_eq_iff [of _ "0 :: u32"] bit_and_iff) (use bit_imp_le_length [where 'a = 32] in fastforce)
  then have "HAS_ZERO_BYTE w \<longleftrightarrow> (\<exists>n. bit (w - 0x01010101) n \<and> bit (NOT w) n \<and> bit (0x80808080 :: u32) n)"
    unfolding HAS_ZERO_BYTE_def and.assoc .
  then show ?thesis unfolding mask by (auto simp: bit_simps)
qed

text \<open>The four tests of the bit trick, on the bytes as integers.\<close>

definition borrow_bits :: "int \<Rightarrow> int \<Rightarrow> int \<Rightarrow> int \<Rightarrow> bool" where
  "borrow_bits a b c d \<longleftrightarrow> (let w = a + 256 * b + 65536 * c + 16777216 * d; v = w - 0x01010101 in
     128 \<le> v mod 256 \<and> \<not> 128 \<le> w mod 256 \<or> 32768 \<le> v mod 65536 \<and> \<not> 32768 \<le> w mod 65536
     \<or> 8388608 \<le> v mod 16777216 \<and> \<not> 8388608 \<le> w mod 16777216
     \<or> 2147483648 \<le> v mod 4294967296 \<and> \<not> 2147483648 \<le> w mod 4294967296)"

lemma borrow_bits_iff:
  assumes "0 \<le> a" "a < 256" "0 \<le> b" "b < 256" "0 \<le> c" "c < 256" "0 \<le> d" "d < 256"
  shows "borrow_bits a b c d \<longleftrightarrow> a = 0 \<or> b = 0 \<or> c = 0 \<or> d = 0"
proof -
  define w where "w = a + 256 * b + 65536 * c + 16777216 * d"
  define v where "v = w - 0x01010101"
  have peel: "x = r + m * k \<Longrightarrow> x mod m = r mod m" for x r m k :: int by simp
  have "w mod 256 = a mod 256" "w mod 65536 = (a + 256 * b) mod 65536" "w mod 16777216 = (a + 256 * b + 65536 * c) mod 16777216"
    by (rule peel [of _ _ _ "b + 256 * c + 65536 * d"], simp add: w_def)
      (rule peel [of _ _ _ "c + 256 * d"], simp add: w_def, rule peel [of _ _ _ d], simp add: w_def)
  then have w: "w mod 256 = a" "w mod 65536 = a + 256 * b" "w mod 16777216 = a + 256 * b + 65536 * c" "w mod 4294967296 = w"
    using assms by (simp_all add: w_def)
  have v: "v mod 256 = (a - 1) mod 256" "v mod 65536 = (a - 1 + 256 * (b - 1)) mod 65536"
    "v mod 16777216 = (a - 1 + 256 * (b - 1) + 65536 * (c - 1)) mod 16777216"
    by (rule peel [of _ _ _ "b - 1 + 256 * (c - 1) + 65536 * (d - 1)"], simp add: v_def w_def)
      (rule peel [of _ _ _ "c - 1 + 256 * (d - 1)"], simp add: v_def w_def, rule peel [of _ _ _ "d - 1"], simp add: v_def w_def)
  have wrap: "x mod m = x + m" if "x < 0" "0 \<le> x + m" for x m :: int
    using that mod_pos_pos_trivial [of "x + m" m] by simp
  show ?thesis
  proof (cases "a = 0 \<or> b = 0 \<or> c = 0 \<or> d = 0")
    case False
    then have "v mod 256 = a - 1" "v mod 65536 = a - 1 + 256 * (b - 1)"
      "v mod 16777216 = a - 1 + 256 * (b - 1) + 65536 * (c - 1)" "v mod 4294967296 = v"
      using assms by (simp_all add: v) (simp add: v_def w_def)
    then show ?thesis using False assms unfolding borrow_bits_def Let_def w_def [symmetric] v_def [symmetric]
      by (simp add: w) (simp add: v_def w_def)
  next
    case True
    then consider "a = 0" | "1 \<le> a" "b = 0" | "1 \<le> a" "1 \<le> b" "c = 0" | "1 \<le> a" "1 \<le> b" "1 \<le> c" "d = 0"
      using assms by linarith
    then have "borrow_bits a b c d"
    proof cases
      case 1
      then show ?thesis unfolding borrow_bits_def Let_def w_def [symmetric] v_def [symmetric] by (simp add: w v)
    next
      case 2
      then show ?thesis unfolding borrow_bits_def Let_def w_def [symmetric] v_def [symmetric]
        using assms by (simp add: w v wrap)
    next
      case 3
      then show ?thesis unfolding borrow_bits_def Let_def w_def [symmetric] v_def [symmetric]
        using assms by (simp add: w v wrap)
    next
      case 4
      then have "v mod 4294967296 = v + 4294967296" using assms by (intro wrap) (simp_all add: v_def w_def)
      then show ?thesis unfolding borrow_bits_def Let_def w_def [symmetric] v_def [symmetric]
        using assms 4 by (simp add: w) (simp add: v_def w_def)
    qed
    then show ?thesis using True by simp
  qed
qed

text \<open>The bit trick is exact: the flagged words are those with a zero byte.\<close>

lemma HAS_ZERO_BYTE_iff: "HAS_ZERO_BYTE (le_word b0 b1 b2 b3) \<longleftrightarrow> b0 = 0 \<or> b1 = 0 \<or> b2 = 0 \<or> b3 = 0"
proof -
  define a b c d where "a = int (unat b0)" and "b = int (unat b1)" and "c = int (unat b2)" and "d = int (unat b3)"
  have small: "0 \<le> a" "a < 256" "0 \<le> b" "b < 256" "0 \<le> c" "c < 256" "0 \<le> d" "d < 256"
    using uint_bounded [of b0] uint_bounded [of b1] uint_bounded [of b2] uint_bounded [of b3]
    by (simp_all add: a_def b_def c_def d_def)
  define w where "w = le_word b0 b1 b2 b3"
  have w: "uint w = a + 256 * b + 65536 * c + 16777216 * d"
    using arg_cong [OF unat_le_word [of b0 b1 b2 b3], of int] unfolding w_def a_def b_def c_def d_def by simp
  have sub: "uint (w - 0x01010101) = (a + 256 * b + 65536 * c + 16777216 * d - 0x01010101) mod 2 ^ 32"
    by (simp add: uint_word_ariths w)
  have bits: "bit (x :: u32) n \<longleftrightarrow> 2 ^ n \<le> uint x mod 2 ^ Suc n" if "n < 32" for x n
    using bit_mod [OF that, of x] of_nat_le_iff [where 'a = int, of "2 ^ n" "unat x mod 2 ^ Suc n"]
    by (simp add: of_nat_mod)
  have zero: "b0 = 0 \<longleftrightarrow> a = 0" "b1 = 0 \<longleftrightarrow> b = 0" "b2 = 0 \<longleftrightarrow> c = 0" "b3 = 0 \<longleftrightarrow> d = 0"
    unfolding a_def b_def c_def d_def of_nat_eq_0_iff unat_eq_0 by (rule refl)+
  have "HAS_ZERO_BYTE w \<longleftrightarrow> borrow_bits a b c d"
    unfolding HAS_ZERO_BYTE_bits borrow_bits_def by (simp add: bits w sub mod_mod_cancel Let_def)
  then show ?thesis using borrow_bits_iff [OF small] by (simp add: w_def zero)
qed

section \<open>Copying\<close>

text \<open>Memory \<open>m\<close> after the first \<open>k\<close> bytes at \<open>s\<close> were copied to \<open>d\<close>.\<close>

definition copied :: "mem \<Rightarrow> u32 \<Rightarrow> u32 \<Rightarrow> nat \<Rightarrow> mem" where
  "copied m d s k = (\<lambda>a. if unat (a - d) < k then m (s + (a - d)) else m a)"

text \<open>The \<open>k\<close> bytes from \<open>d\<close> and the \<open>k\<close> bytes from \<open>s\<close> do not meet, around the address space too.\<close>

definition apart :: "u32 \<Rightarrow> u32 \<Rightarrow> nat \<Rightarrow> bool" where
  "apart d s k \<longleftrightarrow> k \<le> unat (s - d) \<and> k \<le> unat (d - s)"

definition string_at :: "mem \<Rightarrow> u32 \<Rightarrow> nat \<Rightarrow> bool" where
  "string_at m s n \<longleftrightarrow> (\<forall>i<n. m (s + of_nat i) \<noteq> 0) \<and> m (s + of_nat n) = 0"

lemma copied_0 [simp]: "copied m d s 0 = m"
  by (simp add: copied_def)

lemma apart_less: "apart d s k \<Longrightarrow> k < 2 ^ 32"
  unfolding apart_def using unat_lt_u32 [of "s - d"] by simp

lemma unat_small: "i < 2 ^ 32 \<Longrightarrow> unat (of_nat i :: u32) = i"
  by (simp add: unat_of_nat)

lemma unat_uminus: "x \<noteq> 0 \<Longrightarrow> unat (- x) = 2 ^ 32 - unat x" for x :: u32
proof -
  assume "x \<noteq> 0"
  have "(unat (- x) + unat x) mod 2 ^ 32 = 0" using unat_word_ariths(1) [of "- x" x] by simp
  then obtain k where k: "unat (- x) + unat x = 2 ^ 32 * k" by (auto simp: mod_eq_0_iff_dvd elim: dvdE)
  moreover have "0 < unat x" using \<open>x \<noteq> 0\<close> by (simp add: unat_gt_0)
  moreover note unat_lt_u32 [of x] unat_lt_u32 [of "- x"]
  ultimately have "0 < k" "k < 2" by (auto intro!: gr0I) 
  then have "k = 1" by simp
  then show ?thesis using k by simp
qed

lemma unat_pred: "x \<noteq> 0 \<Longrightarrow> unat x = Suc (unat (x - 1))" for x :: u32
  using unat_sub [of 1 x] by (simp add: word_le_nat_alt unat_gt_0 Suc_le_eq)

lemma copied_source:
  assumes "apart d s k" and "i \<le> k" and "j < k"
  shows "copied m d s i (s + of_nat j) = m (s + of_nat j)"
proof -
  have "k \<le> unat (s - d)" "k \<le> unat (d - s)" using assms(1) by (simp_all add: apart_def)
  moreover from this have "unat (d - s) = 2 ^ 32 - unat (s - d)"
    using unat_uminus [of "s - d"] assms by (cases "s = d") auto
  ultimately have "unat (s - d) + j < 2 ^ 32" "i \<le> unat (s - d) + j"
    using assms unat_lt_u32 [of "d - s"] by simp_all
  then have "i \<le> unat (s - d + of_nat j)"
    using apart_less [OF assms(1)] assms by (simp add: unat_word_ariths unat_small)
  then show ?thesis by (simp add: copied_def algebra_simps)
qed

lemma copied_Suc:
  assumes "i < 2 ^ 32"
  shows "(copied m d s i)(d + of_nat i := m (s + of_nat i)) = copied m d s (Suc i)"
proof (rule ext)
  fix a
  have "a = d + of_nat i \<longleftrightarrow> unat (a - d) = i"
    using unat_small [OF assms] word_unat_eq_iff [of "a - d" "of_nat i"] by (simp add: diff_eq_eq add.commute)
  then show "((copied m d s i)(d + of_nat i := m (s + of_nat i))) a = copied m d s (Suc i) a"
    by (auto simp: copied_def less_Suc_eq)
qed

lemma copy_step:
  assumes "apart d s k" and "i < k"
  shows "(copied m d s i)(d + of_nat i := copied m d s i (s + of_nat i)) = copied m d s (Suc i)"
  using assms apart_less [OF assms(1)] by (simp add: copied_source copied_Suc)

lemma memcpy_loop_copied:
  assumes "apart d s k"
  shows "i + n \<le> k \<Longrightarrow> memcpy_loop n (copied m d s i) (d + of_nat i) (s + of_nat i) = copied m d s (i + n)"
proof (induction n arbitrary: i)
  case (Suc n)
  then show ?case using copy_step [OF assms, of i m] Suc.IH [of "Suc i"] by (simp add: algebra_simps)
qed simp

lemma memset_loop_at: "n < 2 ^ 32 \<Longrightarrow> memset_loop n m d c = (\<lambda>a. if unat (a - d) < n then c else m a)"
proof (induction n arbitrary: m d)
  case (Suc n)
  have "unat (a - d) < Suc n \<longleftrightarrow> a = d \<or> unat (a - (d + 1)) < n" for a
  proof (cases "a = d")
    case False
    then have "unat (a - d) = Suc (unat (a - d - 1))"
      by (intro unat_pred) simp
    then show ?thesis using False by (simp add: diff_diff_eq)
  qed simp
  then show ?case using Suc by (auto simp: fun_eq_iff)
qed simp

lemma byte_loop_copied:
  assumes "apart d s (Suc n)" and "string_at m s n"
  shows "i \<le> n \<Longrightarrow> byte_loop (copied m d s i) (d + of_nat i) (s + of_nat i) = Some (copied m d s (Suc n))"
proof (induction "n - i" arbitrary: i)
  case 0
  then show ?case using assms copy_step [OF assms(1), of i m]
    by (subst byte_loop.simps) (simp add: Let_def copied_source string_at_def)
next
  case (Suc l)
  then have "i < n" by simp
  then show ?case using assms copy_step [OF assms(1), of i m] Suc.hyps(1) [of "Suc i"] Suc.hyps(2)
    by (subst byte_loop.simps) (simp add: Let_def copied_source string_at_def algebra_simps)
qed


section \<open>strcpy\<close>

lemma aligned_iff: "a AND 3 = 0 \<longleftrightarrow> unat (a :: u32) mod 4 = 0"
proof -
  have "a AND 3 = take_bit 2 a" by (simp add: take_bit_eq_mask mask_eq_exp_minus_1)
  then have "unat (a AND 3) = take_bit 2 (unat a)" by (simp only: unsigned_take_bit_eq)
  then have "unat (a AND 3) = unat a mod 4" by (simp only: take_bit_eq_mod) simp
  then show ?thesis by (metis unat_eq_0)
qed

lemma same_phase_iff: "(a XOR b) AND 3 = 0 \<longleftrightarrow> unat a mod 4 = unat (b :: u32) mod 4"
proof -
  have "(a XOR b) AND 3 = take_bit 2 a XOR take_bit 2 b" by (rule bit_word_eqI) (auto simp: bit_simps numeral_2_eq_2 less_Suc_eq bit_1_iff bit_numeral_rec split: nat.splits)
  also have "\<dots> = 0 \<longleftrightarrow> take_bit 2 a = take_bit 2 b" by (auto simp: bit_eq_iff [where 'a = u32] bit_simps)
  also have "\<dots> \<longleftrightarrow> take_bit 2 (unat a) = take_bit 2 (unat b)" by (simp only: word_unat_eq_iff unsigned_take_bit_eq)
  finally show ?thesis by (simp only: take_bit_eq_mod) simp
qed

lemma phase_add: "unat (a + of_nat i :: u32) mod 4 = (unat a + i) mod 4"
proof -
  have "unat (a + of_nat i) = (unat a + i) mod 2 ^ 32" by (simp add: unat_word_ariths unat_of_nat mod_add_right_eq take_bit_eq_mod)
  then show ?thesis by (simp add: mod_mod_cancel)
qed

lemma copy_word:
  assumes "apart d s k" and "i + 4 \<le> k"
  shows "(copied m d s i)(d + of_nat i := m (s + of_nat i), d + of_nat i + 1 := m (s + of_nat i + 1),
    d + of_nat i + 2 := m (s + of_nat i + 2), d + of_nat i + 3 := m (s + of_nat i + 3)) = copied m d s (i + 4)"
proof -
  have lt: "i + 3 < 2 ^ 32" using assms apart_less [of d s k] by simp
  have nx: "a + of_nat i + 1 = a + of_nat (i + 1)" "a + of_nat i + 2 = a + of_nat (i + 2)" "a + of_nat i + 3 = a + of_nat (i + 3)" for a :: u32
    by simp_all
  have sum: "Suc i = i + 1" "Suc (i + 1) = i + 2" "Suc (i + 2) = i + 3" "Suc (i + 3) = i + 4" by simp_all
  note copied_Suc [of i m d s] copied_Suc [of "i + 1" m d s] copied_Suc [of "i + 2" m d s] copied_Suc [of "i + 3" m d s]
  then show ?thesis using lt unfolding nx sum by simp
qed

lemma word_loop_copied:
  assumes ap: "apart d s (Suc n)" and str: "string_at m s n" and "unat d mod 4 = unat s mod 4"
  shows "i \<le> n \<Longrightarrow> unat (s + of_nat i) mod 4 = 0 \<Longrightarrow>
    \<exists>j. i \<le> j \<and> j \<le> n \<and> word_loop (copied m d s i) (d + of_nat i) (s + of_nat i) = Some (d + of_nat j, s + of_nat j, copied m d s j)"
proof (induction "n - i" arbitrary: i rule: less_induct)
  case less
  let ?b = "\<lambda>j. copied m d s i (s + of_nat i + j)"
  have al: "(s + of_nat i) AND 3 = 0" "(d + of_nat i) AND 3 = 0"
  proof -
    have "(unat d + i) mod 4 = (unat s + i) mod 4" using assms(3) by (rule mod_add_cong) simp
    then show "(s + of_nat i) AND 3 = 0" "(d + of_nat i) AND 3 = 0"
      using less.prems(2) unfolding aligned_iff phase_add by simp_all
  qed
  have ld: "load_word (copied m d s i) (s + of_nat i) = Some (le_word (copied m d s i (s + of_nat i)) (?b 1) (?b 2) (?b 3))"
    by (simp add: load_word_def al)
  have src: "copied m d s i (s + of_nat (i + j)) = m (s + of_nat (i + j))" if "i + j \<le> n" for j
    using copied_source [OF ap, of i "i + j" m] that less.prems by simp
  show ?case
  proof (cases "i + 4 \<le> n")
    case False
    then consider "n = i" | "n = i + 1" | "n = i + 2" | "n = i + 3" using less.prems by linarith
    then have "?b 0 = 0 \<or> ?b 1 = 0 \<or> ?b 2 = 0 \<or> ?b 3 = 0"
      using src [of 0] src [of 1] src [of 2] src [of 3] str
      by cases (simp_all add: string_at_def ac_simps)
    then have "word_loop (copied m d s i) (d + of_nat i) (s + of_nat i) = Some (d + of_nat i, s + of_nat i, copied m d s i)"
      by (subst word_loop.simps) (simp add: ld HAS_ZERO_BYTE_iff)
    then show ?thesis using less.prems(1) by blast
  next
    case True
    have b: "?b 0 = m (s + of_nat i)" "?b 1 = m (s + of_nat i + 1)" "?b 2 = m (s + of_nat i + 2)" "?b 3 = m (s + of_nat i + 3)"
      using src [of 0] src [of 1] src [of 2] src [of 3] True by (simp_all add: ac_simps)
    have "m (s + of_nat (i + j)) \<noteq> 0" if "j < 4" for j
    proof -
      have "i + j < n" using True that by simp
      then show ?thesis using str unfolding string_at_def by blast
    qed
    from this [of 0] this [of 1] this [of 2] this [of 3]
    have nz: "?b 0 \<noteq> 0" "?b 1 \<noteq> 0" "?b 2 \<noteq> 0" "?b 3 \<noteq> 0" unfolding b by (simp_all add: ac_simps)
    have st: "store_word (copied m d s i) (d + of_nat i) (le_word (copied m d s i (s + of_nat i)) (?b 1) (?b 2) (?b 3)) = Some (copied m d s (i + 4))"
      using copy_word [OF ap, of i m] True al(2) unfolding b using b(1) by (simp add: store_word_def bytes_of_le_word)
    have ph: "unat (s + of_nat (i + 4)) mod 4 = 0" using less.prems(2) unfolding phase_add by presburger
    have dec: "n - (i + 4) < n - i" using True by simp
    from less.hyps [OF dec True ph] obtain j where
      "i + 4 \<le> j" "j \<le> n" "word_loop (copied m d s (i + 4)) (d + of_nat (i + 4)) (s + of_nat (i + 4)) = Some (d + of_nat j, s + of_nat j, copied m d s j)"
      by (elim exE conjE)
    then have "word_loop (copied m d s (i + 4)) (d + of_nat i + 4) (s + of_nat i + 4) = Some (d + of_nat j, s + of_nat j, copied m d s j)"
      by (simp add: add.assoc)
    then have "word_loop (copied m d s i) (d + of_nat i) (s + of_nat i) = Some (d + of_nat j, s + of_nat j, copied m d s j)"
      using nz by (subst word_loop.simps) (simp add: ld st HAS_ZERO_BYTE_iff)
    then show ?thesis using \<open>i + 4 \<le> j\<close> \<open>j \<le> n\<close> by (intro exI [of _ j]) simp
  qed
qed

text \<open>Either the terminator is met before the boundary, or the boundary is.\<close>

lemma align_loop_copied:
  assumes ap: "apart d s (Suc n)" and str: "string_at m s n"
  shows "i \<le> n \<Longrightarrow> (\<exists>d' s'. align_loop (copied m d s i) (d + of_nat i) (s + of_nat i) = Some (True, d', s', copied m d s (Suc n)))
    \<or> (\<exists>j. i \<le> j \<and> j \<le> n \<and> unat (s + of_nat j) mod 4 = 0
        \<and> align_loop (copied m d s i) (d + of_nat i) (s + of_nat i) = Some (False, d + of_nat j, s + of_nat j, copied m d s j))"
proof (induction "n - i" arbitrary: i rule: less_induct)
  case less
  have src: "copied m d s i (s + of_nat i) = m (s + of_nat i)"
    using copied_source [OF ap, of i i m] less.prems by simp
  have st: "(copied m d s i)(d + of_nat i := m (s + of_nat i)) = copied m d s (Suc i)"
    using copy_step [OF ap, of i m] less.prems src by simp
  show ?case
  proof (cases "(s + of_nat i) AND 3 = 0")
    case True
    then have "align_loop (copied m d s i) (d + of_nat i) (s + of_nat i) = Some (False, d + of_nat i, s + of_nat i, copied m d s i)"
      by (subst align_loop.simps) simp
    then show ?thesis using True less.prems unfolding aligned_iff by (intro disjI2 exI [of _ i]) simp
  next
    case unaligned: False
    show ?thesis
    proof (cases "i = n")
      case True
      then show ?thesis using str unaligned st src
        by (subst align_loop.simps) (simp add: Let_def string_at_def)
    next
      case False
      then have "m (s + of_nat i) \<noteq> 0" "i < n" using str less.prems by (simp_all add: string_at_def)
      then have "align_loop (copied m d s i) (d + of_nat i) (s + of_nat i)
          = align_loop (copied m d s (Suc i)) (d + of_nat (Suc i)) (s + of_nat (Suc i))"
        using unaligned st src by (subst align_loop.simps) (simp add: Let_def algebra_simps)
      moreover have "n - Suc i < n - i" "Suc i \<le> n" using \<open>i < n\<close> by simp_all
      ultimately show ?thesis using less.hyps [of "Suc i"] by (metis Suc_leD)
    qed
  qed
qed

lemma strcpy_copied:
  assumes ap: "apart d s (Suc n)" and str: "string_at m s n"
  shows "strcpy m d s = Some (d, copied m d s (Suc n))"
proof (cases "(d XOR s) AND 3 = 0")
  case False
  then show ?thesis using byte_loop_copied [OF ap str, of 0] by (simp add: strcpy_def)
next
  case True
  then have ph: "unat d mod 4 = unat s mod 4" by (simp add: same_phase_iff)
  from align_loop_copied [OF ap str le0] show ?thesis
  proof (elim disjE exE conjE)
    fix d' s'
    assume "align_loop (copied m d s 0) (d + of_nat 0) (s + of_nat 0) = Some (True, d', s', copied m d s (Suc n))"
    then show ?thesis by (simp add: strcpy_def True)
  next
    fix j
    assume j: "j \<le> n" "unat (s + of_nat j) mod 4 = 0"
      and a: "align_loop (copied m d s 0) (d + of_nat 0) (s + of_nat 0) = Some (False, d + of_nat j, s + of_nat j, copied m d s j)"
    from word_loop_copied [OF ap str ph j] obtain k where k: "k \<le> n"
      "word_loop (copied m d s j) (d + of_nat j) (s + of_nat j) = Some (d + of_nat k, s + of_nat k, copied m d s k)" by blast
    then show ?thesis using a byte_loop_copied [OF ap str k(1)] by (simp add: strcpy_def True)
  qed
qed


section \<open>Heap\<close>

text \<open>The state of the port: bytes of the pool in use, the two recorded cycle counts and the number of
  calls of \<open>time\<close>, and the number of readings of the cycle counter so far. The counter is a parameter
  \<open>mcycle\<close>, its value at each reading.\<close>

record port =
  heap_used :: u32
  t_begin_cycles :: u32
  t_end_cycles :: u32
  t_calls :: s32
  readings :: nat

definition HEAP_BYTES :: u32 where
  "HEAP_BYTES = 256"

definition malloc :: "u32 \<Rightarrow> u32 \<Rightarrow> port \<Rightarrow> u32 \<times> port" where
  "malloc heap n p =
     (let n1 = (n + 3) AND NOT 3 in
      if heap_used p + n1 > HEAP_BYTES then (0, p)
      else (heap + heap_used p, p\<lparr>heap_used := heap_used p + n1\<rparr>))"

section \<open>Clock\<close>

definition rdcycle :: "(nat \<Rightarrow> u32) \<Rightarrow> port \<Rightarrow> u32 \<times> port" where
  "rdcycle mcycle p = (mcycle (readings p), p\<lparr>readings := readings p + 1\<rparr>)"

text \<open>Division by zero is undefined.\<close>

definition c_udiv :: "u32 \<Rightarrow> u32 \<Rightarrow> u32 option" where
  "c_udiv a b = (if b = 0 then None else Some (a div b))"

definition c_umod :: "u32 \<Rightarrow> u32 \<Rightarrow> u32 option" where
  "c_umod a b = (if b = 0 then None else Some (a mod b))"

definition time :: "u32 \<Rightarrow> (nat \<Rightarrow> u32) \<Rightarrow> port \<Rightarrow> (s32 \<times> port) option" where
  "time CLK_HZ mcycle p = do {
     let (c, p1) = rdcycle mcycle p;
     let first = (t_calls p1 = 0);
     let p2 = p1\<lparr>t_calls := t_calls p1 + 1\<rparr>;
     let p3 = (if first then p2\<lparr>t_begin_cycles := c\<rparr> else p2\<lparr>t_end_cycles := c\<rparr>);
     s \<leftarrow> c_udiv c CLK_HZ;
     Some (s, p3) }"

section \<open>Report\<close>

definition print_x100 :: "u32 \<Rightarrow> u32 \<Rightarrow> uart \<Rightarrow> uart option" where
  "print_x100 whole hundredths u = printf (cstr ''%u.%02u'') [VNum whole, VNum hundredths] u"

definition VAX_DHRY_PER_SEC :: u32 where
  "VAX_DHRY_PER_SEC = 1757"

text \<open>Seconds and hundredths of a second of a cycle count.\<close>

definition secs_x100 :: "u32 \<Rightarrow> u32 \<Rightarrow> (u32 \<times> u32) option" where
  "secs_x100 CLK_HZ ticks = do {
     whole \<leftarrow> c_udiv ticks CLK_HZ;
     r \<leftarrow> c_umod ticks CLK_HZ;
     h \<leftarrow> c_udiv r (CLK_HZ div 100);
     Some (whole, h) }"

definition report_port_summary :: "u32 \<Rightarrow> u32 \<Rightarrow> port \<Rightarrow> uart \<Rightarrow> uart option" where
  "report_port_summary CLK_HZ DHRY_ITERS p u = do {
     let ticks = t_end_cycles p - t_begin_cycles p;
     let iters = DHRY_ITERS;
     u1 \<leftarrow> printfs [(nl '''', []), (nl ''  Ticks (core cycles) : %u'', [VNum ticks])] u;
     if ticks = 0 \<or> iters = 0 then Some u1
     else do {
       let per_iter = ticks div iters;
       u2 \<leftarrow> printfs [(nl ''  Cycles / iteration  : %u'', [VNum per_iter]), (''  Total time (secs)   : '', [])] u1;
       (whole, h) \<leftarrow> secs_x100 CLK_HZ ticks;
       u3 \<leftarrow> print_x100 whole h u2;
       u4 \<leftarrow> printfs [(nl '''', [])] u3;
       if per_iter = 0 then Some u4
       else do {
         let dhry_per_sec = CLK_HZ div per_iter;
         u5 \<leftarrow> printfs [(nl ''  Dhrystones / sec    : %u'', [VNum dhry_per_sec])] u4;
         let dmips100 = (dhry_per_sec * 100) div VAX_DHRY_PER_SEC;
         u6 \<leftarrow> printfs [(''  DMIPS               : '', [])] u5;
         u7 \<leftarrow> print_x100 (dmips100 div 100) (dmips100 mod 100) u6;
         u8 \<leftarrow> printfs [(nl '''', [])] u7;
         dmips_mhz100 \<leftarrow> c_udiv 100000000 (per_iter * VAX_DHRY_PER_SEC);
         u9 \<leftarrow> printfs [(''  DMIPS / MHz         : '', [])] u8;
         u10 \<leftarrow> print_x100 (dmips_mhz100 div 100) (dmips_mhz100 mod 100) u9;
         printfs [(nl '''', [])] u10 } } }"


section \<open>The heap and the report\<close>

lemma malloc_records:
  assumes "heap_used p = 0"
  shows "malloc heap 48 p = (heap, p\<lparr>heap_used := 48\<rparr>)"
    and "malloc heap 48 (p\<lparr>heap_used := 48\<rparr>) = (heap + 48, p\<lparr>heap_used := 96\<rparr>)"
proof -
  have "(0x33 :: u32) AND 0xFFFFFFFC = 0x30" by simp
  then show "malloc heap 48 p = (heap, p\<lparr>heap_used := 48\<rparr>)"
    and "malloc heap 48 (p\<lparr>heap_used := 48\<rparr>) = (heap + 48, p\<lparr>heap_used := 96\<rparr>)"
    using assms by (simp_all add: malloc_def HEAP_BYTES_def)
qed

text \<open>A request within four of 2^32, or one that wraps around on top of the bytes in use, is not
  refused: the sum wraps, and the pool counter moves backwards.\<close>

lemma malloc_wraps: "heap_used p = 48 \<Longrightarrow> malloc heap 0xffffffd0 p = (heap + 48, p\<lparr>heap_used := 0\<rparr>)"
  by (simp add: malloc_def HEAP_BYTES_def)

lemma c_udiv_nz [simp]: "b \<noteq> 0 \<Longrightarrow> c_udiv a b = Some (a div b)" "b \<noteq> 0 \<Longrightarrow> c_umod a b = Some (a mod b)"
  by (simp_all add: c_udiv_def c_umod_def)

lemma secs_x100_result:
  assumes "100 dvd unat CLK_HZ" and "CLK_HZ \<noteq> 0"
  shows "\<exists>whole h. secs_x100 CLK_HZ ticks = Some (whole, h) \<and> unat h < 100
    \<and> unat whole * 100 + unat h = unat ticks * 100 div unat CLK_HZ"
proof -
  from assms(1) obtain c where c: "unat CLK_HZ = 100 * c" by (auto elim: dvdE)
  have pos: "0 < c" using assms(2) c by (metis gr0I mult_0_right unat_eq_0)
  have hundredth: "unat (CLK_HZ div 100) = c" using c by (simp add: unat_div)
  then have nz: "CLK_HZ div 100 \<noteq> 0" using pos by (metis unat_eq_0 less_irrefl)
  let ?w = "ticks div CLK_HZ" and ?h = "ticks mod CLK_HZ div (CLK_HZ div 100)"
  have w: "unat ?w = unat ticks div (100 * c)" and h: "unat ?h = unat ticks mod (100 * c) div c"
    by (simp_all add: unat_div unat_mod c hundredth)
  have "unat ticks mod (100 * c) < 100 * c" using pos by simp
  then have "unat ?h < 100" unfolding h using pos by (simp add: less_mult_imp_div_less)
  moreover have "unat ?w * 100 + unat ?h = unat ticks * 100 div unat CLK_HZ"
  proof -
    have "unat ticks * 100 div (100 * c) = unat ticks div c" by simp
    moreover have "unat ticks div c = unat ticks div (100 * c) * 100 + unat ticks mod (100 * c) div c"
    proof -
      define q r where "q = unat ticks div (100 * c)" and "r = unat ticks mod (100 * c)"
      have "unat ticks = q * (100 * c) + r" by (simp only: q_def r_def div_mult_mod_eq)
      then have "unat ticks = r + c * (q * 100)" by (simp add: algebra_simps)
      then have "unat ticks div c = q * 100 + r div c" using pos by simp
      then show ?thesis by (simp add: q_def r_def)
    qed
    ultimately show ?thesis by (simp add: w h c)
  qed
  moreover have "secs_x100 CLK_HZ ticks = Some (?w, ?h)" using assms(2) nz by (simp add: secs_x100_def)
  ultimately show ?thesis by blast
qed

text \<open>\<open>print_x100\<close> prints a decimal point and two digits.\<close>

lemma print_x100_each:
  "print_x100 whole h u = each uart_putc (radix_str 10 dec_digit (unat whole) @ [0x2E] @ zpad 12 2 (radix_str 10 dec_digit (unat h))) u"
proof -
  have fmt: "cstr ''%u.%02u'' = unparse [Conv [] 0 CUns, Lit 0x2E, Conv [0, 2] 0 CUns] @ [0]"
    by (simp add: cstr_def bytes_def unparse_def dec_digit_def)
  have no: "0x0A \<notin> set (radix_str 10 dec_digit k)" for k
  proof
    assume "0x0A \<in> set (radix_str 10 dec_digit k)"
    then obtain d where "d < 10" "0x0A = dec_digit d" using set_radix_str [of 10 dec_digit k] by auto
    then have "is_digit 0x0A" using is_digit_dec_digit [of d] by simp
    then show False by (simp add: is_digit_def)
  qed
  let ?ds = "[Conv [] 0 CUns, Lit 0x2E, Conv [0, 2] 0 CUns]"
  let ?out = "radix_str 10 dec_digit (unat whole) @ [0x2E] @ zpad 12 2 (radix_str 10 dec_digit (unat h))"
  have "printf (unparse ?ds @ [0]) [VNum whole, VNum h] u = each uart_putc (crlf ?out) u"
    by (rule printf_each) (simp_all add: width_of_def dec_text_def, simp add: zpad_def)
  moreover have "crlf ?out = ?out" using no by (intro crlf_id) (auto simp: zpad_def)
  ultimately show ?thesis unfolding print_x100_def fmt by (simp only:)
qed

section \<open>Arrays in memory\<close>

definition array_at :: "mem \<Rightarrow> u32 \<Rightarrow> nat \<Rightarrow> u8 list" where
  "array_at m a n = map (\<lambda>i. m (a + of_nat i)) [0..<n]"

lemma array_at_copied:
  assumes "apart d s n" and "k \<le> n"
  shows "array_at (copied m d s k) d n = take k (array_at m s n) @ drop k (array_at m d n)"
proof (rule nth_equalityI)
  fix i assume "i < length (array_at (copied m d s k) d n)"
  then have "i < n" by (simp add: array_at_def)
  moreover from this have "unat (of_nat i :: u32) = i" using apart_less [OF assms(1)] by (intro unat_small) simp
  ultimately show "array_at (copied m d s k) d n ! i = (take k (array_at m s n) @ drop k (array_at m d n)) ! i"
    using assms(2) by (auto simp: array_at_def copied_def nth_append min_def)
qed (use assms(2) in \<open>simp add: array_at_def\<close>)


section \<open>Properties\<close>

text \<open>The bit trick of the word loop is exact: \<open>HAS_ZERO_BYTE\<close> holds of a word exactly when one of
  its four bytes is zero, so the loop neither runs past the terminator nor stops early.\<close>

theorem HAS_ZERO_BYTE_exact: "HAS_ZERO_BYTE w \<longleftrightarrow> (\<exists>k \<in> {0, 8, 16, 24}. ucast (drop_bit k w) = (0 :: u8))"
proof -
  have "w = le_word (ucast w) (ucast (drop_bit 8 w)) (ucast (drop_bit 16 w)) (ucast (drop_bit 24 w))" (is "w = ?w")
  proof (rule bit_word_eqI)
    fix n assume "n < LENGTH(32)"
    then consider "n < 8" | "8 \<le> n" "n < 16" | "16 \<le> n" "n < 24" | "24 \<le> n" "n < 32" by fastforce
    then show "bit w n \<longleftrightarrow> bit ?w n" by cases (auto simp: le_word_def bit_simps less_diff_conv2)
  qed
  then have "HAS_ZERO_BYTE w \<longleftrightarrow> HAS_ZERO_BYTE ?w" by (rule arg_cong)
  then show ?thesis unfolding HAS_ZERO_BYTE_iff by simp
qed

text \<open>\<open>strcpy\<close> returns for every alignment of its pointers, without a misaligned access, and does
  what copying a string means: the destination array is overwritten by the string with its
  terminator, and no byte outside the string's length is written, in the array or elsewhere.\<close>

theorem strcpy_copies:
  assumes "string_at m s n" and "apart d s (Suc n)"
  shows "\<exists>m'. strcpy m d s = Some (d, m') \<and> (\<forall>i\<le>n. m' (d + of_nat i) = m (s + of_nat i))
    \<and> (\<forall>a. n < unat (a - d) \<longrightarrow> m' a = m a)"
proof -
  have "unat (of_nat i :: u32) = i" if "i \<le> n" for i
    using that apart_less [OF assms(2)] by (intro unat_small) simp
  then show ?thesis using strcpy_copied [OF assms(2,1)] by (auto simp: copied_def)
qed

lemma strcpy_copies_witness:
  "\<exists>m'. strcpy ((\<lambda>_. 7)(0x105 := 0)) 0x201 0x101 = Some (0x201, m') \<and> m' 0x205 = 0 \<and> m' 0x206 = 7"
proof -
  let ?m = "((\<lambda>_. 7)(0x105 := 0)) :: mem"
  have "string_at ?m 0x101 4"
  proof -
    have "i < 4 \<longleftrightarrow> i = 0 \<or> i = 1 \<or> i = 2 \<or> i = 3" for i :: nat by linarith
    then show ?thesis by (auto simp: string_at_def)
  qed
  moreover have "apart 0x201 0x101 (Suc 4)" by (simp add: apart_def)
  ultimately obtain m' where m': "strcpy ?m 0x201 0x101 = Some (0x201, m')"
    "\<forall>i\<le>4. m' (0x201 + of_nat i) = ?m (0x101 + of_nat i)" "\<forall>a. 4 < unat (a - 0x201) \<longrightarrow> m' a = ?m a"
    by (blast dest: strcpy_copies)
  have "m' 0x205 = 0" using m'(2) by (auto dest: spec [of _ 4])
  moreover have "m' 0x206 = 7" using m'(3) by (auto dest: spec [of _ "0x206"])
  ultimately show ?thesis using m'(1) by blast
qed

text \<open>The seconds of the report are exact to the hundredth, rounded down: whole seconds and
  hundredths together are a hundred times the cycle count over the clock, and the hundredths never
  reach 100, for every clock rate that is a multiple of 100.\<close>

theorem secs_x100_exact:
  assumes "100 dvd unat CLK_HZ" and "CLK_HZ \<noteq> 0"
  shows "\<exists>whole h. secs_x100 CLK_HZ ticks = Some (whole, h) \<and> unat h < 100
    \<and> unat whole * 100 + unat h = unat ticks * 100 div unat CLK_HZ"
  by (rule secs_x100_result [OF assms])

lemma secs_x100_exact_witness:
  "\<exists>whole h. secs_x100 50000000 1511500000 = Some (whole, h) \<and> unat h < 100 \<and> unat whole * 100 + unat h = 3023"
  using secs_x100_exact [of 50000000 1511500000] by simp

text \<open>For a clock rate that is not a multiple of 100 the hundredths of the report can reach 100 and
  more, up to 198 for a rate of 199.\<close>

theorem secs_x100_carry_lost: "secs_x100 199 198 = Some (0, 198)"
  by (simp add: secs_x100_def)

text \<open>\<open>malloc\<close> gives the two records of the benchmark disjoint blocks of 48 bytes, but it does not
  refuse every request that exceeds the pool: a size whose sum with the bytes in use wraps around is
  granted, and the pool counter moves backwards over live blocks.\<close>

theorem malloc_wraps_around:
  "heap_used p = 0 \<longrightarrow> (\<exists>p1 p2. malloc heap 48 p = (heap, p1) \<and> malloc heap 48 p1 = (heap + 48, p2)
    \<and> malloc heap 0xffffffa0 p2 = (heap + 96, p2\<lparr>heap_used := 0\<rparr>))"
  using malloc_records [of p heap] by (simp add: malloc_def [of heap "0xffffffa0"] HEAP_BYTES_def)

lemma malloc_wraps_around_witness:
  "\<exists>p1 p2. malloc 0x4000 48 \<lparr>heap_used = 0, t_begin_cycles = 0, t_end_cycles = 0, t_calls = 0, readings = 0\<rparr> = (0x4000, p1)
    \<and> malloc 0x4000 48 p1 = (0x4030, p2) \<and> malloc 0x4000 0xffffffa0 p2 = (0x4060, p2\<lparr>heap_used := 0\<rparr>)"
  using malloc_wraps_around [of "\<lparr>heap_used = 0, t_begin_cycles = 0, t_end_cycles = 0, t_calls = 0, readings = 0\<rparr>" "0x4000"]
  by simp

end
