(* ===== verification/Core_Port.thy ===== *)
theory Core_Port
  imports Core_Init Dhry_Port
begin

text \<open>
  The CoreMark port \<open>sim/sw/coremark/core_portme.c\<close>, with \<open>get_seed_32\<close> and \<open>check_data_types\<close> of
  \<open>eembc/core_util.c\<close>: the constants of the build, seeds, clock, banner, trap report and final report.
  Functions that \<open>dhry_portme.c\<close> also has carry the prefix \<open>cm\<close>. The readings of the cycle counter
  are a parameter, as in the Dhrystone port.
\<close>

section \<open>The build\<close>

datatype run_type = VALIDATION_RUN | PROFILE_RUN | PERFORMANCE_RUN

text \<open>What the Makefile (iterations and cycles per iteration as non-negative numbers) and the compiler define, and the addresses of the memory block and of the trap
  reporter in the image.\<close>

record build =
  RUN_TYPE :: run_type
  ITERATIONS :: s32
  CLK_HZ :: u32
  TOTAL_DATA_SIZE :: u32
  CYCLES_PER_ITER :: s32
  COSIM :: bool
  COMPILER_VERSION :: string
  COMPILER_FLAGS :: string
  static_memblk :: u32
  trap_report :: u32

fun RUN_NAME :: "run_type \<Rightarrow> string" where
  "RUN_NAME VALIDATION_RUN = ''validation''"
| "RUN_NAME PROFILE_RUN = ''profile''"
| "RUN_NAME PERFORMANCE_RUN = ''performance''"

fun seed_volatile :: "run_type \<Rightarrow> s32 \<times> s32 \<times> s32" where
  "seed_volatile VALIDATION_RUN = (0x3415, 0x3415, 0x66)"
| "seed_volatile PERFORMANCE_RUN = (0x0, 0x0, 0x66)"
| "seed_volatile PROFILE_RUN = (0x8, 0x8, 0x8)"

definition get_seed_32 :: "build \<Rightarrow> nat \<Rightarrow> s32" where
  "get_seed_32 b i = (let (seed1_volatile, seed2_volatile, seed3_volatile) = seed_volatile (RUN_TYPE b) in
     if i = 1 then seed1_volatile
     else if i = 2 then seed2_volatile
     else if i = 3 then seed3_volatile
     else if i = 4 then ITERATIONS b
     else if i = 5 then 0
     else 0)"

section \<open>The clock\<close>

record cm_port =
  portable_id :: u8
  start_ticks :: u32
  stop_ticks :: u32
  reads :: nat
  mtvec_csr :: u32

definition cm_rdcycle :: "build \<Rightarrow> (nat \<Rightarrow> u32) \<Rightarrow> cm_port \<Rightarrow> u32 \<times> cm_port" where
  "cm_rdcycle b mcycle p = (if COSIM b then (0, p) else (mcycle (reads p), p\<lparr>reads := reads p + 1\<rparr>))"

definition start_time :: "build \<Rightarrow> (nat \<Rightarrow> u32) \<Rightarrow> cm_port \<Rightarrow> cm_port" where
  "start_time b mcycle p = (let (v, p1) = cm_rdcycle b mcycle p in p1\<lparr>start_ticks := v\<rparr>)"

definition stop_time :: "build \<Rightarrow> (nat \<Rightarrow> u32) \<Rightarrow> cm_port \<Rightarrow> cm_port" where
  "stop_time b mcycle p = (let (v, p1) = cm_rdcycle b mcycle p in p1\<lparr>stop_ticks := v\<rparr>)"

definition get_time :: "cm_port \<Rightarrow> u32" where
  "get_time p = stop_ticks p - start_ticks p"

definition time_in_secs :: "build \<Rightarrow> u32 \<Rightarrow> u32 option" where
  "time_in_secs b ticks = c_udiv ticks (CLK_HZ b)"

section \<open>Trap report, start and end\<close>

text \<open>Up to the final loop.\<close>

definition trap_report_c :: "u32 \<Rightarrow> u32 \<Rightarrow> u32 \<Rightarrow> uart \<Rightarrow> uart option" where
  "trap_report_c mcause mepc mtval u = printfs
     [(CHR 0x0A # nl ''  *** TRAP  mcause=0x%08x mepc=0x%08x mtval=0x%08x'', [VNum mcause, VNum mepc, VNum mtval]),
      (nl ''  (4/6 = load/store misaligned, 2 = illegal, 1 = instr access, 5/7 = load/store access)'', []),
      (nl ''  parked.'', [])] u"

text \<open>The expected run time, in 64-bit arithmetic.\<close>

definition expected_secs :: "build \<Rightarrow> u32 option" where
  "expected_secs b = (let clk = (ucast (CLK_HZ b) :: u64) in
     if clk = 0 then None else Some (ucast ((ucast (ITERATIONS b) * ucast (CYCLES_PER_ITER b)) div clk)))"

definition portable_init :: "build \<Rightarrow> cm_port \<Rightarrow> uart \<Rightarrow> (cm_port \<times> uart) option" where
  "portable_init b p u = do {
     let p = p\<lparr>portable_id := 1\<rparr>;
     if COSIM b then Some (p, u)
     else do {
       let p = p\<lparr>mtvec_csr := trap_report b\<rparr>;
       secs \<leftarrow> expected_secs b;
       u \<leftarrow> printfs
         [(nl '''', []),
          (nl ''  YARV32-uC  --  RV32IMAC Zicsr Zifencei'', []),
          (nl ''  %s  --  %u-byte %s run'', [VStr (cstr ''CoreMark 1.0''), VNum (TOTAL_DATA_SIZE b), VStr (cstr (RUN_NAME (RUN_TYPE b)))]),
          (nl ''  ------------------------------------------'', []),
          (nl ''  Core clock : %u Hz'', [VNum (CLK_HZ b)]),
          (nl ''  Iterations : %u'', [VNum (ITERATIONS b)]),
          (nl ''  Expected   : ~%u s'', [VNum secs]),
          (CHR 0x0A # nl (nl ''  running...''), [])] u;
       Some (p, u) } }"

definition cm_print_x100 :: "u32 \<Rightarrow> u32 \<Rightarrow> uart \<Rightarrow> uart option" where
  "cm_print_x100 whole hundredths u = printf (cstr ''%u.%02u'') [VNum whole, VNum hundredths] u"

text \<open>The time and the rate, whole and hundredths.\<close>

definition cm_secs_x100 :: "build \<Rightarrow> u32 \<Rightarrow> (u32 \<times> u32) option" where
  "cm_secs_x100 b ticks = do {
     whole \<leftarrow> c_udiv ticks (CLK_HZ b);
     r \<leftarrow> c_umod ticks (CLK_HZ b);
     h \<leftarrow> c_udiv r (CLK_HZ b div 100);
     Some (whole, h) }"

definition rate_x100 :: "u32 \<Rightarrow> u32 \<Rightarrow> u32 \<times> u32" where
  "rate_x100 clk per_iter = (clk div per_iter, ((clk mod per_iter) * 100) div per_iter)"

definition cm_report_port_summary :: "build \<Rightarrow> cm_port \<Rightarrow> uart \<Rightarrow> uart option" where
  "cm_report_port_summary b p u = do {
     let ticks = get_time p;
     let iters = ITERATIONS b;
     u \<leftarrow> printfs [(nl '''', []), (nl ''  Ticks (core cycles) : %u'', [VNum ticks])] u;
     if ticks = 0 \<or> iters = 0 then Some u
     else do {
       let per_iter = ticks div iters;
       u \<leftarrow> printfs [(nl ''  Cycles / iteration  : %u'', [VNum per_iter]), (''  Total time (secs)   : '', [])] u;
       (whole, h) \<leftarrow> cm_secs_x100 b ticks;
       u \<leftarrow> cm_print_x100 whole h u;
       u \<leftarrow> printfs [(nl '''', [])] u;
       u \<leftarrow> (if per_iter \<noteq> 0 then do {
           u \<leftarrow> printfs [(''  Iterations / sec    : '', [])] u;
           let (rate, rate_h) = rate_x100 (CLK_HZ b) per_iter;
           u \<leftarrow> cm_print_x100 rate rate_h u;
           u \<leftarrow> printfs [(nl '''', [])] u;
           let score100 = 100000000 div per_iter;
           u \<leftarrow> printfs [(''  CoreMark / MHz      : '', [])] u;
           u \<leftarrow> cm_print_x100 (score100 div 100) (score100 mod 100) u;
           printfs [(nl '''', [])] u }
         else Some u);
       secs \<leftarrow> c_udiv ticks (CLK_HZ b);
       if secs < 10 then printfs [(nl ''  (short run: not a reportable score -- raise ITERATIONS)'', [])] u
       else Some u } }"

definition portable_fini :: "build \<Rightarrow> cm_port \<Rightarrow> uart \<Rightarrow> (cm_port \<times> uart) option" where
  "portable_fini b p u = do {
     let p = p\<lparr>portable_id := 0\<rparr>;
     u \<leftarrow> (if COSIM b then Some u else cm_report_port_summary b p u);
     Some (p, u) }"

text \<open>The copy loops are those of the Dhrystone port.\<close>

definition cm_memcpy :: "mem \<Rightarrow> u32 \<Rightarrow> u32 \<Rightarrow> u32 \<Rightarrow> u32 \<times> mem" where
  "cm_memcpy m dst src n = (dst, memcpy_loop (unat n) m dst src)"

definition cm_memset :: "mem \<Rightarrow> u32 \<Rightarrow> s32 \<Rightarrow> u32 \<Rightarrow> u32 \<times> mem" where
  "cm_memset m dst c n = (dst, memset_loop (unat n) m dst (ucast c))"

section \<open>The check of the types\<close>

text \<open>The sizes of the types that \<open>core_portme.h\<close> defines.\<close>

record c_sizes =
  sizeof_u8 :: nat
  sizeof_u16 :: nat
  sizeof_s16 :: nat
  sizeof_s32 :: nat
  sizeof_u32 :: nat
  sizeof_ptr_int :: nat
  sizeof_int_ptr :: nat

definition portme_sizes :: c_sizes where
  "portme_sizes = \<lparr>sizeof_u8 = 1, sizeof_u16 = 2, sizeof_s16 = 2, sizeof_s32 = 4, sizeof_u32 = 4,
     sizeof_ptr_int = 4, sizeof_int_ptr = 4\<rparr>"

definition complain :: "bool \<Rightarrow> string \<Rightarrow> u8 \<times> uart \<Rightarrow> (u8 \<times> uart) option" where
  "complain bad msg s = (if bad then do { u \<leftarrow> printfs [(nl msg, [])] (snd s); Some (fst s + 1, u) } else Some s)"

definition check_data_types :: "c_sizes \<Rightarrow> uart \<Rightarrow> (u8 \<times> uart) option" where
  "check_data_types z u = do {
     s \<leftarrow> complain (sizeof_u8 z \<noteq> 1) ''ERROR: ee_u8 is not an 8b datatype!'' (0, u);
     s \<leftarrow> complain (sizeof_u16 z \<noteq> 2) ''ERROR: ee_u16 is not a 16b datatype!'' s;
     s \<leftarrow> complain (sizeof_s16 z \<noteq> 2) ''ERROR: ee_s16 is not a 16b datatype!'' s;
     s \<leftarrow> complain (sizeof_s32 z \<noteq> 4) ''ERROR: ee_s32 is not a 32b datatype!'' s;
     s \<leftarrow> complain (sizeof_u32 z \<noteq> 4) ''ERROR: ee_u32 is not a 32b datatype!'' s;
     (retval, u) \<leftarrow> complain (sizeof_ptr_int z \<noteq> sizeof_int_ptr z) ''ERROR: ee_ptr_int is not a datatype that holds an int pointer!'' s;
     if retval > 0 then do { u \<leftarrow> printfs [(nl ''ERROR: Please modify the datatypes in core_portme.h!'', [])] u; Some (retval, u) }
     else Some (retval, u) }"


lemma check_data_types_portme: "check_data_types portme_sizes u = Some (0, u)"
  by (simp add: check_data_types_def complain_def portme_sizes_def)

section \<open>Properties\<close>

text \<open>The rate of the report is exact: whole and hundredths together are the hundredths of iterations
  per second rounded down, and the hundredths have two digits, as long as an iteration takes at most
  42949672 cycles.\<close>

theorem rate_x100_exact:
  assumes "rate_x100 clk per_iter = (whole, h)" and "0 < per_iter" and "unat per_iter \<le> 42949672"
  shows "unat whole * 100 + unat h = unat clk * 100 div unat per_iter \<and> unat h < 100"
proof -
  define p where "p = unat per_iter"
  have p: "0 < p" "p \<le> 42949672" using assms(2,3) by (simp_all add: p_def word_less_nat_alt)
  define q r where "q = unat clk div p" and "r = unat clk mod p"
  have r: "r < p" using p by (simp add: r_def)
  have "unat ((clk mod per_iter) * 100) = r * 100"
    using r p by (subst unat_mult_lem [THEN iffD1]) (simp_all add: unat_mod r_def p_def)
  then have h: "unat h = r * 100 div p" and w: "unat whole = q"
    using assms(1) by (auto simp: rate_x100_def unat_div q_def p_def)
  have "unat clk = q * p + r" by (simp only: q_def r_def div_mult_mod_eq)
  then have "unat clk * 100 = r * 100 + p * (q * 100)" by (simp add: algebra_simps)
  then have "unat clk * 100 div p = q * 100 + r * 100 div p" using p by simp
  moreover have "r * 100 div p < 100" using r by (simp add: less_mult_imp_div_less)
  ultimately show ?thesis by (simp add: h w p_def)
qed

lemma rate_x100_exact_witness:
  "unat (82 :: u32) * 100 + unat (68 :: u32) = unat (50000000 :: u32) * 100 div unat (604704 :: u32) \<and> unat (68 :: u32) < 100"
  by (rule rate_x100_exact) (simp_all add: rate_x100_def)

text \<open>Beyond that the product wraps around: at 50 MHz and 60 million cycles for an iteration, 0.83
  iterations per second are reported as 0.11.\<close>

theorem rate_x100_wraps_around:
  "rate_x100 50000000 60000000 = (0, 11)" "50000000 * 100 div 60000000 = (83 :: nat)"
  by (simp_all add: rate_x100_def)

end
