(* ===== verification/Core_Seed.thy ===== *)
theory Core_Seed
  imports Printf
begin

text \<open>
  The two ways to get the seeds of CoreMark that \<open>coremark/eembc/core_util.c\<close> has beside the variables of the port
  (theory \<open>Core_Port\<close>): from the command line, and from functions of the system, which are a parameter. A C string is
  the list of its characters without the terminating zero. Numbers wrap around at 32 bits.
\<close>

section \<open>Numbers on the command line\<close>

definition hex_char :: "u8 \<Rightarrow> bool" where
  "hex_char c \<longleftrightarrow> 0x30 \<le> c \<and> c \<le> 0x39 \<or> 0x61 \<le> c \<and> c \<le> 0x66"

definition hex_digit_of :: "u8 \<Rightarrow> s32" where
  "hex_digit_of c = (let digit = ucast c - 0x30 in if 9 <s digit then 10 + ucast c - 0x61 else digit)"

primrec hex_digits_loop :: "s32 \<Rightarrow> u8 list \<Rightarrow> s32 \<times> u8 list" where
  "hex_digits_loop retval [] = (retval, [])"
| "hex_digits_loop retval (c # s) = (if hex_char c then hex_digits_loop (retval * 16 + hex_digit_of c) s else (retval, c # s))"

primrec dec_digits_loop :: "s32 \<Rightarrow> u8 list \<Rightarrow> s32 \<times> u8 list" where
  "dec_digits_loop retval [] = (retval, [])"
| "dec_digits_loop retval (c # s) =
     (if 0x30 \<le> c \<and> c \<le> 0x39 then dec_digits_loop (retval * 10 + (ucast c - 0x30)) s else (retval, c # s))"

text \<open>The character at the front, zero at the end of the string.\<close>

definition front :: "u8 list \<Rightarrow> u8" where
  "front s = (case s of [] \<Rightarrow> 0 | c # _ \<Rightarrow> c)"

definition parseval :: "u8 list \<Rightarrow> s32" where
  "parseval valstring = (let
     (neg, valstring) = (if front valstring = 0x2D then (-1, tl valstring) else (1, valstring));
     hexmode = (front valstring = 0x30 \<and> front (tl valstring) = 0x78);
     (retval, valstring) = (if hexmode then hex_digits_loop 0 (drop 2 valstring) else dec_digits_loop 0 valstring);
     retval = (if front valstring = 0x4B then retval * 1024 else retval);
     retval = (if front valstring = 0x4D then retval * (1024 * 1024) else retval)
   in retval * neg)"

definition get_seed_args :: "nat \<Rightarrow> u8 list list \<Rightarrow> s32" where
  "get_seed_args i argv = (if i < length argv then parseval (argv ! i) else 0)"

text \<open>Seeds from the functions \<open>portme_sys1\<close> to \<open>portme_sys5\<close>.\<close>

definition get_seed_func :: "(nat \<Rightarrow> s32) \<Rightarrow> nat \<Rightarrow> s32" where
  "get_seed_func portme_sys i = (if i = 1 then portme_sys 1 else if i = 2 then portme_sys 2 else if i = 3 then portme_sys 3
     else if i = 4 then portme_sys 4 else if i = 5 then portme_sys 5 else 0)"

section \<open>What the digits mean\<close>

definition dec_undig :: "u8 \<Rightarrow> nat" where
  "dec_undig c = unat c - 0x30"

definition hex_undig :: "u8 \<Rightarrow> nat" where
  "hex_undig c = (if c \<le> 0x39 then unat c - 0x30 else unat c - 0x57)"

lemma radix_fold: "foldl (\<lambda>a d. a * b + undig d) n s = n * b ^ length s + radix_val b undig s"
  by (induction s rule: rev_induct) (simp_all add: radix_val_def algebra_simps)

lemma radix_val_Cons: "radix_val b undig (d # s) = undig d * b ^ length s + radix_val b undig s"
  using radix_fold [of b undig "undig d" s] by (simp add: radix_val_def)

lemma dec_digit_value: "0x30 \<le> c \<Longrightarrow> (ucast (c :: u8) - 0x30 :: s32) = of_nat (dec_undig c)"
proof -
  assume "0x30 \<le> c"
  then have "0x30 \<le> unat c" by (simp add: word_le_nat_alt)
  moreover have "(ucast c :: s32) = of_nat (unat c)" by simp
  ultimately show ?thesis unfolding dec_undig_def by (simp only: of_nat_diff of_nat_numeral)
qed

lemma hex_chars: "hex_char c \<Longrightarrow> c \<in> set (map of_nat ([48..<58] @ [97..<103]))"
proof -
  assume "hex_char c"
  then have "unat c \<in> set ([48..<58] @ [97..<103])" unfolding set_append set_upt hex_char_def word_le_nat_alt by auto
  then have "of_nat (unat c) \<in> set (map of_nat ([48..<58] @ [97..<103]) :: u8 list)" unfolding set_map by (rule imageI)
  then show ?thesis by simp
qed

lemma hex_digit_value: "hex_char c \<Longrightarrow> hex_digit_of c = of_nat (hex_undig c)"
proof -
  have "list_all (\<lambda>c. hex_digit_of c = of_nat (hex_undig c)) (map of_nat ([48..<58] @ [97..<103]))" by code_simp
  then show "hex_char c \<Longrightarrow> hex_digit_of c = of_nat (hex_undig c)" unfolding list_all_iff using hex_chars by blast
qed

lemma dec_digits_loop_reads:
  "\<forall>c\<in>set ds. 0x30 \<le> c \<and> c \<le> 0x39 \<Longrightarrow> \<not> (0x30 \<le> front s \<and> front s \<le> 0x39) \<Longrightarrow>
    dec_digits_loop r (ds @ s) = (r * 10 ^ length ds + of_nat (radix_val 10 dec_undig ds), s)"
proof (induction ds arbitrary: r)
  case Nil
  then show ?case by (cases s) (auto simp: front_def radix_val_def)
next
  case (Cons c ds)
  then show ?case by (simp add: dec_digit_value radix_val_Cons algebra_simps)
qed

lemma hex_digits_loop_reads:
  "\<forall>c\<in>set ds. hex_char c \<Longrightarrow> \<not> hex_char (front s) \<Longrightarrow>
    hex_digits_loop r (ds @ s) = (r * 16 ^ length ds + of_nat (radix_val 16 hex_undig ds), s)"
proof (induction ds arbitrary: r)
  case Nil
  then show ?case by (cases s) (auto simp: front_def radix_val_def)
next
  case (Cons c ds)
  then show ?case by (simp add: hex_digit_value radix_val_Cons algebra_simps)
qed

text \<open>What may follow the digits: nothing, or one of the two factors.\<close>

datatype unit_suffix = No_Suffix | K | M

primrec suffix_text :: "unit_suffix \<Rightarrow> u8 list" where
  "suffix_text No_Suffix = []"
| "suffix_text K = [0x4B]"
| "suffix_text M = [0x4D]"

primrec factor :: "unit_suffix \<Rightarrow> s32" where
  "factor No_Suffix = 1"
| "factor K = 1024"
| "factor M = 1024 * 1024"

definition sign_text :: "bool \<Rightarrow> u8 list" where
  "sign_text sg = (if sg then [0x2D] else [])"

lemma suffix_front: "front (suffix_text u) \<in> {0, 0x4B, 0x4D}"
  by (cases u) (simp_all add: front_def)

lemma parse_tail: "(let r = (if front (suffix_text u) = 0x4B then r * 1024 else r);
    r = (if front (suffix_text u) = 0x4D then r * (1024 * 1024) else r) in r * neg) = r * factor u * neg"
  by (cases u) (simp_all add: front_def)

lemma parseval_dec:
  assumes "ds \<noteq> []" and "\<forall>c\<in>set ds. 0x30 \<le> c \<and> c \<le> 0x39"
  shows "parseval (sign_text sg @ ds @ suffix_text u)
    = (if sg then -1 else 1) * of_nat (radix_val 10 dec_undig ds) * factor u"
proof -
  obtain c cs where ds: "ds = c # cs" using assms(1) by (cases ds) auto
  have "c \<noteq> 0x2D" using assms(2) ds by auto
  have s: "\<not> (0x30 \<le> front (suffix_text u) \<and> front (suffix_text u) \<le> 0x39)" by (cases u) (simp_all add: front_def)
  have "front (tl (ds @ suffix_text u)) \<noteq> 0x78" using assms(2) ds by (cases cs; cases u) (auto simp: front_def)
  then have "parseval (sign_text sg @ ds @ suffix_text u) = (let r = snd (0 :: nat, fst (dec_digits_loop 0 (ds @ suffix_text u)));
      t = snd (dec_digits_loop 0 (ds @ suffix_text u)); r = (if front t = 0x4B then r * 1024 else r);
      r = (if front t = 0x4D then r * (1024 * 1024) else r) in r * (if sg then -1 else 1))"
    using \<open>c \<noteq> 0x2D\<close> ds by (simp add: parseval_def sign_text_def front_def case_prod_unfold Let_def)
  then show ?thesis using dec_digits_loop_reads [OF assms(2) s, of 0] parse_tail [of u] by (simp add: ac_simps)
qed

lemma parseval_hex:
  assumes "\<forall>c\<in>set ds. hex_char c"
  shows "parseval (sign_text sg @ 0x30 # 0x78 # ds @ suffix_text u)
    = (if sg then -1 else 1) * of_nat (radix_val 16 hex_undig ds) * factor u"
proof -
  have s: "\<not> hex_char (front (suffix_text u))" by (cases u) (simp_all add: front_def hex_char_def)
  have "parseval (sign_text sg @ 0x30 # 0x78 # ds @ suffix_text u) = (let r = fst (hex_digits_loop 0 (ds @ suffix_text u));
      t = snd (hex_digits_loop 0 (ds @ suffix_text u)); r = (if front t = 0x4B then r * 1024 else r);
      r = (if front t = 0x4D then r * (1024 * 1024) else r) in r * (if sg then -1 else 1))"
    by (simp add: parseval_def sign_text_def front_def case_prod_unfold Let_def)
  then show ?thesis using hex_digits_loop_reads [OF assms s, of 0] parse_tail [of u] by (simp add: ac_simps)
qed

section \<open>Properties\<close>

text \<open>a number on the command line is read by its notation: a minus sign, decimal digits or \<open>0x\<close> and lower-case
  hexadecimal digits, and the factor 1024 or 1024 times 1024 for a letter K or M behind them; modulo the 32 bits.\<close>

theorem parseval_value:
  assumes "\<forall>c\<in>set ds. 0x30 \<le> c \<and> c \<le> 0x39" and "ds \<noteq> []" and "\<forall>c\<in>set hs. hex_char c"
  shows "parseval (sign_text sg @ ds @ suffix_text u) = (if sg then -1 else 1) * of_nat (radix_val 10 dec_undig ds) * factor u
    \<and> parseval (sign_text sg @ 0x30 # 0x78 # hs @ suffix_text u) = (if sg then -1 else 1) * of_nat (radix_val 16 hex_undig hs) * factor u"
  using parseval_dec [OF assms(2,1)] parseval_hex [OF assms(3)] by blast

theorem parseval_value_witness:
  "parseval (sign_text True @ [0x33, 0x32] @ suffix_text K) = (if True then -1 else 1) * of_nat (radix_val 10 dec_undig [0x33, 0x32]) * factor K
    \<and> parseval (sign_text True @ 0x30 # 0x78 # [0x66] @ suffix_text K) = (if True then -1 else 1) * of_nat (radix_val 16 hex_undig [0x66]) * factor K"
  by (rule parseval_value) (simp_all add: hex_char_def)

lemma dec_digits_of: "d < 10 \<Longrightarrow> 0x30 \<le> dec_digit d \<and> dec_digit d \<le> 0x39" "d < 10 \<Longrightarrow> dec_undig (dec_digit d) = d"
proof -
  have "list_all (\<lambda>d. 0x30 \<le> dec_digit d \<and> dec_digit d \<le> 0x39 \<and> dec_undig (dec_digit d) = d) [0..<10]" by code_simp
  then show "d < 10 \<Longrightarrow> 0x30 \<le> dec_digit d \<and> dec_digit d \<le> 0x39" "d < 10 \<Longrightarrow> dec_undig (dec_digit d) = d" by (simp_all add: list_all_iff)
qed

lemma hex_digits_of: "d < 16 \<Longrightarrow> hex_char (hex_digit d)" "d < 16 \<Longrightarrow> hex_undig (hex_digit d) = d"
proof -
  have "list_all (\<lambda>d. hex_char (hex_digit d) \<and> hex_undig (hex_digit d) = d) [0..<16]" by code_simp
  then show "d < 16 \<Longrightarrow> hex_char (hex_digit d)" "d < 16 \<Longrightarrow> hex_undig (hex_digit d) = d" by (simp_all add: list_all_iff)
qed

lemma zpad_value: "undig 0x30 = 0 \<Longrightarrow> radix_val b undig (zpad cap w s) = radix_val b undig s"
proof -
  assume z: "undig 0x30 = 0"
  have "radix_val b undig (replicate k 0x30 @ s) = radix_val b undig s" for k
    by (induction k) (simp_all add: radix_val_Cons z)
  then show ?thesis by (simp add: zpad_def)
qed

lemma dec_numeral:
  "\<forall>c\<in>set (zpad 12 w (radix_str 10 dec_digit n)). 0x30 \<le> c \<and> c \<le> 0x39" "zpad 12 w (radix_str 10 dec_digit n) \<noteq> []"
  "radix_val 10 dec_undig (zpad 12 w (radix_str 10 dec_digit n)) = n"
proof -
  have "set (radix_str 10 dec_digit n) \<subseteq> dec_digit ` {..<10}" by (rule set_radix_str) simp
  then show "\<forall>c\<in>set (zpad 12 w (radix_str 10 dec_digit n)). 0x30 \<le> c \<and> c \<le> 0x39" using dec_digits_of(1) by (auto simp: zpad_def)
  show "zpad 12 w (radix_str 10 dec_digit n) \<noteq> []" by (simp add: zpad_def)
  have "radix_val 10 dec_undig (radix_str 10 dec_digit n) = n" by (rule radix_val_str) (simp_all add: dec_digits_of)
  then show "radix_val 10 dec_undig (zpad 12 w (radix_str 10 dec_digit n)) = n" by (simp add: zpad_value dec_undig_def)
qed

text \<open>C39: what the \<open>printf\<close> of the programs prints for a number, signed or not, with any width padded by zeros, the command
  line reads back, and likewise in hexadecimal behind \<open>0x\<close>: for all 32-bit values.\<close>

theorem parseval_reads_printf: "parseval (dec_text v is_signed width) = v \<and> parseval (0x30 # 0x78 # hex_text v width) = v"
proof
  show "parseval (dec_text v is_signed width) = v"
  proof (cases "is_signed \<and> sint v < 0")
    case True
    have "parseval (sign_text True @ zpad 12 width (radix_str 10 dec_digit (nat (- sint v))) @ suffix_text No_Suffix) = - (of_nat (nat (- sint v)) :: s32)"
      by (subst parseval_dec [OF dec_numeral(2,1)]) (simp add: dec_numeral(3))
    also have "of_nat (nat (- sint v)) = (of_int (- sint v) :: s32)" by (rule of_nat_nat) (use True in simp)
    also have "- (of_int (- sint v) :: s32) = v" by (simp only: of_int_minus minus_minus) simp
    finally show ?thesis using True by (simp add: dec_text_def sign_text_def)
  next
    case False
    have "parseval (sign_text False @ zpad 12 width (radix_str 10 dec_digit (unat v)) @ suffix_text No_Suffix) = of_nat (unat v)"
      by (subst parseval_dec [OF dec_numeral(2,1)]) (simp add: dec_numeral(3))
    moreover have "dec_text v is_signed width = zpad 12 width (radix_str 10 dec_digit (unat v))" using False by (simp only: dec_text_def if_False)
    ultimately show ?thesis by (simp add: sign_text_def)
  qed
  have "set (radix_str 16 hex_digit (unat v)) \<subseteq> hex_digit ` {..<16}" by (rule set_radix_str) simp
  moreover have "hex_char 0x30" by (simp add: hex_char_def)
  ultimately have c: "\<forall>c\<in>set (hex_text v width). hex_char c" unfolding hex_text_def zpad_def set_append using hex_digits_of(1) by fastforce
  have "radix_val 16 hex_undig (radix_str 16 hex_digit (unat v)) = unat v" by (rule radix_val_str) (simp_all add: hex_digits_of)
  then have "radix_val 16 hex_undig (hex_text v width) = unat v" by (simp add: hex_text_def zpad_value hex_undig_def)
  then show "parseval (0x30 # 0x78 # hex_text v width) = v"
    using parseval_hex [OF c, of False No_Suffix] by (simp add: sign_text_def)
qed

end
