(* ===== verification/Core_Main.thy ===== *)
theory Core_Main
  imports Core_Port
begin

text \<open>
  The frame of CoreMark, \<open>sim/sw/coremark/eembc/core_main.c\<close>: seeds, division of the memory block,
  initialisation, timed run, check of the results and report, as the port builds it: static memory,
  one context, seeds from variables, no floating point. \<open>None\<close> is a console that blocks for ever, an
  undefined division, an access outside an array, or a loop that never ends.
\<close>

section \<open>Results\<close>

text \<open>\<open>core_results\<close>: the seeds, the size, the blocks of the benchmarks and the three check sums they
  touch are in \<open>wd\<close>, with the heap of the list; here are the other fields.\<close>

record results =
  execs :: u32
  iterations :: u32
  memblock :: "u32 list"
  list_ptr :: u32
  mat :: mat_params
  crclist :: u16
  err :: s16
  wd :: world

definition ID_LIST :: u32 where "ID_LIST = 1"
definition ID_MATRIX :: u32 where "ID_MATRIX = 2"
definition ID_STATE :: u32 where "ID_STATE = 4"
definition ALL_ALGORITHMS_MASK :: u32 where "ALL_ALGORITHMS_MASK = ID_LIST OR ID_MATRIX OR ID_STATE"
definition NUM_ALGORITHMS :: nat where "NUM_ALGORITHMS = 3"

lemmas algorithm_ids = ID_LIST_def ID_MATRIX_def ID_STATE_def ALL_ALGORITHMS_MASK_def NUM_ALGORITHMS_def

definition list_known_crc :: "u16 list" where
  "list_known_crc = [0xd4b0, 0x3340, 0x6a79, 0xe714, 0xe3c1]"

definition matrix_known_crc :: "u16 list" where
  "matrix_known_crc = [0xbe52, 0x1199, 0x5608, 0x1fd7, 0x0747]"

definition state_known_crc :: "u16 list" where
  "state_known_crc = [0x5e47, 0x39bf, 0xe5a4, 0x8e3a, 0x8d84]"

lemmas known_crcs = list_known_crc_def matrix_known_crc_def state_known_crc_def

definition on_res :: "(core_results \<Rightarrow> core_results) \<Rightarrow> results \<Rightarrow> results" where
  "on_res f r = r\<lparr>wd := (wd r)\<lparr>res := f (res (wd r))\<rparr>\<rparr>"

section \<open>iterate\<close>

definition bench_once :: "s16 \<Rightarrow> results \<Rightarrow> results option" where
  "bench_once finder_idx r = do {
     (v, _, w) \<leftarrow> core_bench_list (list_ptr r) finder_idx (wd r);
     Some (on_res (\<lambda>c. c\<lparr>crc := crcu16 v (crc c)\<rparr>) (r\<lparr>wd := w\<rparr>)) }"

definition iterate_step :: "u32 \<Rightarrow> results \<Rightarrow> results option" where
  "iterate_step i r = do {
     r \<leftarrow> bench_once 1 r;
     r \<leftarrow> bench_once (-1) r;
     Some (if i = 0 then r\<lparr>crclist := crc (res (wd r))\<rparr> else r) }"

function iterate_loop :: "u32 \<Rightarrow> u32 \<Rightarrow> results \<Rightarrow> results option" where
  "iterate_loop i n r =
     (if i < n then do { r \<leftarrow> iterate_step i r; iterate_loop (i + 1) n r } else Some r)"
  by pat_completeness auto
termination
  by (relation "measure (\<lambda>(i, n, r). unat n - unat i)") (auto simp: unat_count word_less_nat_alt)

declare iterate_loop.simps [simp del]

definition iterate :: "results \<Rightarrow> results option" where
  "iterate r = iterate_loop 0 (iterations r)
     (on_res (\<lambda>c. c\<lparr>crc := 0, crcmatrix := 0, crcstate := 0\<rparr>) (r\<lparr>crclist := 0\<rparr>))"

section \<open>Setting up\<close>

definition choose_seeds :: "s16 \<times> s16 \<times> s16 \<Rightarrow> s16 \<times> s16 \<times> s16" where
  "choose_seeds = (\<lambda>(s1, s2, s3).
     let (s1, s2, s3) = (if s1 = 0 \<and> s2 = 0 \<and> s3 = 0 then (0, 0, 0x66) else (s1, s2, s3))
     in if s1 = 1 \<and> s2 = 0 \<and> s3 = 0 then (0x3415, 0x3415, 0x66) else (s1, s2, s3))"

definition num_algorithms :: "u32 \<Rightarrow> u16" where
  "num_algorithms sel = fold (\<lambda>i n. if push_bit i 1 AND sel \<noteq> 0 then n + 1 else n) [0..<NUM_ALGORITHMS] 0"

definition assign_pointers :: "u32 \<Rightarrow> u32 \<Rightarrow> u32 list \<Rightarrow> u32 list \<times> u16" where
  "assign_pointers sel sz blocks = fold (\<lambda>i (blocks, j).
     if push_bit i 1 AND sel \<noteq> 0 then (blocks[i + 1 := blocks ! 0 + sz * ucast j], j + 1) else (blocks, j))
     [0..<NUM_ALGORITHMS] (blocks, 0)"

definition init_list :: "results \<Rightarrow> results option" where
  "init_list r =
     (if execs r AND ID_LIST \<noteq> 0 then do {
        (p, w) \<leftarrow> core_list_init (rsize (res (wd r))) (memblock r ! 1) (seed1 (res (wd r))) (wd r);
        Some (r\<lparr>list_ptr := p, wd := w\<rparr>) }
      else Some r)"

definition init_matrix :: "results \<Rightarrow> results option" where
  "init_matrix r =
     (if execs r AND ID_MATRIX \<noteq> 0 then do {
        let c = res (wd r);
        (N, p, A, B) \<leftarrow> core_init_matrix (rsize c) (memblock r ! 2)
          (scast (seed1 c) OR push_bit 16 (scast (seed2 c))) (matA c) (matB c);
        Some (on_res (\<lambda>c. c\<lparr>dim := unat N, matA := A, matB := B\<rparr>) (r\<lparr>mat := p\<rparr>)) }
      else Some r)"

definition init_state :: "results \<Rightarrow> results option" where
  "init_state r =
     (if execs r AND ID_STATE \<noteq> 0 then do {
        let c = res (wd r);
        m \<leftarrow> core_init_state (rsize c) (seed1 c) (statemem c);
        Some (on_res (\<lambda>c. c\<lparr>statemem := m\<rparr>) r) }
      else Some r)"

text \<open>\<open>w\<close> holds what the memory blocks contain before.\<close>

definition set_up :: "build \<Rightarrow> world \<Rightarrow> results option" where
  "set_up b w = do {
     let (s1, s2, s3) = choose_seeds (ucast (get_seed_32 b 1), ucast (get_seed_32 b 2), ucast (get_seed_32 b 3));
     let sel = (if get_seed_32 b 5 = 0 then ALL_ALGORITHMS_MASK else get_seed_32 b 5);
     sz \<leftarrow> c_udiv (TOTAL_DATA_SIZE b) (ucast (num_algorithms sel));
     let (blocks, _) = assign_pointers sel sz [static_memblk b, 0, 0, 0];
     let r = \<lparr>execs = sel, iterations = get_seed_32 b 4, memblock = blocks, list_ptr = 0,
       mat = \<lparr>mN = 0, mA = 0, mB = 0, mC = 0\<rparr>, crclist = 0, err = 0,
       wd = w\<lparr>res := (res w)\<lparr>seed1 := s1, seed2 := s2, seed3 := s3, rsize := sz\<rparr>\<rparr>\<rparr>;
     r \<leftarrow> init_list r;
     r \<leftarrow> init_matrix r;
     init_state r }"

section \<open>Running\<close>

partial_function (option) auto_loop :: "build \<Rightarrow> (nat \<Rightarrow> u32) \<Rightarrow> results \<Rightarrow> cm_port \<Rightarrow> (u32 \<times> results \<times> cm_port) option" where
  "auto_loop b mcycle r p = do {
     let r = r\<lparr>iterations := iterations r * 10\<rparr>;
     let p = start_time b mcycle p;
     r \<leftarrow> iterate r;
     let p = stop_time b mcycle p;
     secs_passed \<leftarrow> time_in_secs b (get_time p);
     if secs_passed < 1 then auto_loop b mcycle r p else Some (secs_passed, r, p) }"

definition auto_iterations :: "build \<Rightarrow> (nat \<Rightarrow> u32) \<Rightarrow> results \<Rightarrow> cm_port \<Rightarrow> (results \<times> cm_port) option" where
  "auto_iterations b mcycle r p =
     (if iterations r = 0 then do {
        (secs_passed, r, p) \<leftarrow> auto_loop b mcycle (r\<lparr>iterations := 1\<rparr>) p;
        let divisor = (if secs_passed = 0 then 1 else secs_passed);
        Some (r\<lparr>iterations := iterations r * (1 + 10 div divisor)\<rparr>, p) }
      else Some (r, p))"

definition timed_run :: "build \<Rightarrow> (nat \<Rightarrow> u32) \<Rightarrow> results \<Rightarrow> cm_port \<Rightarrow> (results \<times> cm_port) option" where
  "timed_run b mcycle r p = do {
     let p = start_time b mcycle p;
     r \<leftarrow> iterate r;
     Some (r, stop_time b mcycle p) }"

section \<open>Checking the results\<close>

definition seed_crc :: "core_results \<Rightarrow> u16" where
  "seed_crc c = crc16 (ucast (rsize c)) (crc16 (seed3 c) (crc16 (seed2 c) (crc16 (seed1 c) 0)))"

definition known_run :: "u16 \<Rightarrow> (nat \<times> string) option" where
  "known_run seedcrc =
     (if seedcrc = 0x8a02 then Some (0, ''6k performance run parameters for coremark.'')
      else if seedcrc = 0x7b05 then Some (1, ''6k validation run parameters for coremark.'')
      else if seedcrc = 0x4eaf then Some (2, ''Profile generation run parameters for coremark.'')
      else if seedcrc = 0xe9f5 then Some (3, ''2K performance run parameters for coremark.'')
      else if seedcrc = 0x18f2 then Some (4, ''2K validation run parameters for coremark.'')
      else None)"

definition crc_check :: "u32 \<Rightarrow> string \<Rightarrow> u16 \<Rightarrow> u16 \<Rightarrow> results \<times> uart \<Rightarrow> (results \<times> uart) option" where
  "crc_check algorithm fmt got want = (\<lambda>(r, u).
     if execs r AND algorithm \<noteq> 0 \<and> got \<noteq> want then do {
       u \<leftarrow> printfs [(nl fmt, [VNum 0, VNum (ucast got), VNum (ucast want)])] u;
       Some (r\<lparr>err := err r + 1\<rparr>, u) }
     else Some (r, u))"

text \<open>For the one context, number 0.\<close>

definition check_crcs :: "nat \<Rightarrow> results \<Rightarrow> uart \<Rightarrow> (results \<times> uart) option" where
  "check_crcs k r u = do {
     (r, u) \<leftarrow> crc_check ID_LIST ''[%u]ERROR! list crc 0x%04x - should be 0x%04x'' (crclist r) (list_known_crc ! k) (r\<lparr>err := 0\<rparr>, u);
     (r, u) \<leftarrow> crc_check ID_MATRIX ''[%u]ERROR! matrix crc 0x%04x - should be 0x%04x'' (crcmatrix (res (wd r))) (matrix_known_crc ! k) (r, u);
     crc_check ID_STATE ''[%u]ERROR! state crc 0x%04x - should be 0x%04x'' (crcstate (res (wd r))) (state_known_crc ! k) (r, u) }"

definition judge :: "u16 \<Rightarrow> results \<Rightarrow> uart \<Rightarrow> (s16 \<times> results \<times> uart) option" where
  "judge seedcrc r u = (case known_run seedcrc of
      None \<Rightarrow> Some (-1, r, u)
    | Some (k, msg) \<Rightarrow> do {
        u \<leftarrow> printfs [(nl msg, [])] u;
        (r, u) \<leftarrow> check_crcs k r u;
        Some (err r, r, u) })"

section \<open>The report\<close>

definition time_lines :: "u32 \<Rightarrow> u32 \<Rightarrow> results \<Rightarrow> (string \<times> va_value list) list" where
  "time_lines total_time secs r =
     [(nl ''CoreMark Size    : %lu'', [VNum (rsize (res (wd r)))]),
      (nl ''Total ticks      : %lu'', [VNum total_time]),
      (nl ''Total time (secs): %d'', [VNum secs])] @
     (if secs > 0 then [(nl ''Iterations/Sec   : %d'', [VNum (iterations r div secs)])] else []) @
     (if secs < 10 then [(nl ''ERROR! Must execute for at least 10 secs for a valid result!'', [])] else [])"

definition result_lines :: "build \<Rightarrow> u16 \<Rightarrow> results \<Rightarrow> (string \<times> va_value list) list" where
  "result_lines b seedcrc r = (let c = res (wd r) in
     [(nl ''Iterations       : %lu'', [VNum (iterations r)]),
      (nl ''Compiler version : %s'', [VStr (cstr (COMPILER_VERSION b))]),
      (nl ''Compiler flags   : %s'', [VStr (cstr (COMPILER_FLAGS b))]),
      (nl ''Memory location  : %s'', [VStr (cstr ''BSRAM'')]),
      (nl ''seedcrc          : 0x%04x'', [VNum (ucast seedcrc)])] @
     (if execs r AND ID_LIST \<noteq> 0 then [(nl ''[%d]crclist       : 0x%04x'', [VNum 0, VNum (ucast (crclist r))])] else []) @
     (if execs r AND ID_MATRIX \<noteq> 0 then [(nl ''[%d]crcmatrix     : 0x%04x'', [VNum 0, VNum (ucast (crcmatrix c))])] else []) @
     (if execs r AND ID_STATE \<noteq> 0 then [(nl ''[%d]crcstate      : 0x%04x'', [VNum 0, VNum (ucast (crcstate c))])] else []) @
     [(nl ''[%d]crcfinal      : 0x%04x'', [VNum 0, VNum (ucast (crc c))])])"

definition verdict_lines :: "s16 \<Rightarrow> (string \<times> va_value list) list" where
  "verdict_lines total_errors =
     (if total_errors = 0 then [(nl ''Correct operation validated. See README.md for run and reporting rules.'', [])] else []) @
     (if sint total_errors > 0 then [(nl ''Errors detected'', [])] else []) @
     (if sint total_errors < 0 then
       [(nl ''Cannot validate operation for these seed values, please compare with results on a known platform.'', [])] else [])"

text \<open>From the end of the timed run to the verdict.\<close>

definition core_report :: "build \<Rightarrow> u32 \<Rightarrow> results \<Rightarrow> uart \<Rightarrow> (s16 \<times> results \<times> uart) option" where
  "core_report b total_time r u = do {
     let seedcrc = seed_crc (res (wd r));
     (total_errors, r, u) \<leftarrow> judge seedcrc r u;
     (n, u) \<leftarrow> check_data_types portme_sizes u;
     let total_errors = total_errors + ucast n;
     secs \<leftarrow> time_in_secs b total_time;
     u \<leftarrow> printfs (time_lines total_time secs r) u;
     let total_errors = (if secs < 10 then total_errors + 1 else total_errors);
     u \<leftarrow> printfs (result_lines b seedcrc r) u;
     u \<leftarrow> printfs (verdict_lines total_errors) u;
     Some (total_errors, r, u) }"

definition core_main :: "build \<Rightarrow> (nat \<Rightarrow> u32) \<Rightarrow> world \<Rightarrow> cm_port \<Rightarrow> uart \<Rightarrow> (s16 \<times> results \<times> cm_port \<times> uart) option" where
  "core_main b mcycle w p u = do {
     (p, u) \<leftarrow> portable_init b p u;
     r \<leftarrow> set_up b w;
     (r, p) \<leftarrow> auto_iterations b mcycle r p;
     (r, p) \<leftarrow> timed_run b mcycle r p;
     (total_errors, r, u) \<leftarrow> core_report b (get_time p) r u;
     (p, u) \<leftarrow> portable_fini b p u;
     Some (total_errors, r, p, u) }"


section \<open>Iterations\<close>

text \<open>Everything the benchmarks need: a list in its initial state and inputs that survive every operation.\<close>

definition ready :: "results \<Rightarrow> u32 list \<Rightarrow> bool" where
  "ready r xs \<longleftrightarrow> list_at (nxt (hp (wd r))) (list_ptr r) xs \<and> 3 \<le> length xs \<and> has_info (hp (wd r)) xs
     \<and> fresh_list (wd r) xs \<and> bench_ok (res (wd r))"

text \<open>Only check sums and the contents of the result matrix have changed.\<close>

definition kept :: "results \<Rightarrow> results \<Rightarrow> bool" where
  "kept r r' \<longleftrightarrow> hp (wd r') = hp (wd r) \<and> inputs (res (wd r')) = inputs (res (wd r))
     \<and> r' = r\<lparr>crclist := crclist r', wd := wd r'\<rparr>"

lemma kept_fields:
  assumes "kept r r'"
  shows "execs r' = execs r" "iterations r' = iterations r" "list_ptr r' = list_ptr r" "memblock r' = memblock r"
    "mat r' = mat r" "err r' = err r" "hp (wd r') = hp (wd r)" "inputs (res (wd r')) = inputs (res (wd r))"
proof -
  have r': "r' = r\<lparr>crclist := crclist r', wd := wd r'\<rparr>" using assms by (simp add: kept_def)
  show "execs r' = execs r" "iterations r' = iterations r" "list_ptr r' = list_ptr r" "memblock r' = memblock r"
    "mat r' = mat r" "err r' = err r" by (subst r', simp)+
qed (use assms in \<open>simp_all add: kept_def\<close>)

lemma kept_refl [simp]: "kept r r"
  by (simp add: kept_def)

lemma kept_trans: "kept r r' \<Longrightarrow> kept r' r'' \<Longrightarrow> kept r r''"
  by (cases r; cases r'; cases r'') (simp add: kept_def)

lemma kept_ready: "kept r r' \<Longrightarrow> ready r xs \<Longrightarrow> ready r' xs"
  using kept_fields(3,7,8) [of r r'] bench_ok_inputs [of "res (wd r')" "res (wd r)"]
  by (auto simp: ready_def fresh_list_def idx_key_def renewed_def)

lemma bench_once_result:
  assumes "ready r xs"
  shows "\<exists>r'. bench_once f r = Some r' \<and> kept r r' \<and> crclist r' = crclist r"
proof -
  have "0 < sint f \<longrightarrow> bench_ok (res (wd r))" using assms by (simp add: ready_def)
  from core_bench_list_result [OF _ _ _ _ this] assms obtain c w where
    w: "core_bench_list (list_ptr r) f (wd r) = Some (c, list_ptr r, w)" "hp w = hp (wd r)" "inputs (res w) = inputs (res (wd r))"
    unfolding ready_def by blast
  then show ?thesis by (simp add: bench_once_def kept_def on_res_def inputs_def)
qed

lemma iterate_step_result:
  assumes "ready r xs"
  shows "\<exists>r'. iterate_step i r = Some r' \<and> kept r r' \<and> (i \<noteq> 0 \<longrightarrow> crclist r' = crclist r)"
proof -
  from bench_once_result [OF assms] obtain r1 where
    1: "bench_once 1 r = Some r1" "kept r r1" "crclist r1 = crclist r" by blast
  from bench_once_result [OF kept_ready [OF 1(2) assms]] obtain r2 where
    2: "bench_once (-1) r1 = Some r2" "kept r1 r2" "crclist r2 = crclist r1" by blast
  have "kept r r2" by (rule kept_trans [OF 1(2) 2(2)])
  moreover from this have "kept r (r2\<lparr>crclist := x\<rparr>)" for x by (cases r; cases r2) (simp add: kept_def)
  ultimately show ?thesis using 1 2 by (auto simp: iterate_step_def)
qed

lemma iterate_loop_result:
  "ready r xs \<Longrightarrow> \<exists>r'. iterate_loop i n r = Some r' \<and> kept r r' \<and> (i \<noteq> 0 \<longrightarrow> crclist r' = crclist r)"
proof (induction i n r rule: iterate_loop.induct)
  case (1 i n r)
  show ?case
  proof (cases "i < n")
    case False
    then show ?thesis by (subst iterate_loop.simps) simp
  next
    case True
    from iterate_step_result [OF 1(2)] obtain r1 where
      r1: "iterate_step i r = Some r1" "kept r r1" "i \<noteq> 0 \<longrightarrow> crclist r1 = crclist r" by blast
    have "i + 1 \<noteq> 0" using unat_count [OF True] by auto
    moreover have "r1 \<in> set_option (iterate_step i r)" using r1(1) by simp
    from 1(1) [OF True this kept_ready [OF r1(2) 1(2)]] obtain r2' where
      "iterate_loop (i + 1) n r1 = Some r2'" "kept r1 r2'" "i + 1 \<noteq> 0 \<longrightarrow> crclist r2' = crclist r1" by blast
    ultimately obtain r2 where
      "iterate_loop (i + 1) n r1 = Some r2" "kept r1 r2" "crclist r2 = crclist r1" by blast
    with r1 True show ?thesis by (subst iterate_loop.simps) (auto intro: kept_trans)
  qed
qed

definition cleared :: "results \<Rightarrow> results" where
  "cleared r = on_res (\<lambda>c. c\<lparr>crc := 0, crcmatrix := 0, crcstate := 0\<rparr>) (r\<lparr>crclist := 0\<rparr>)"

lemma cleared_kept: "kept r (cleared r)"
  by (cases r) (simp add: kept_def cleared_def on_res_def inputs_def)

lemma iterate_result:
  assumes "ready r xs"
  shows "\<exists>r'. iterate r = Some r' \<and> kept r r'"
  using iterate_loop_result [OF kept_ready [OF cleared_kept assms], of 0 "iterations r"] kept_trans [OF cleared_kept]
  by (auto simp: iterate_def cleared_def)

text \<open>The check sum of the list is that of the first iteration, whatever comes after.\<close>

lemma iterate_first:
  assumes "ready r xs" and "0 < iterations r"
  shows "\<exists>r' r1. iterate r = Some r' \<and> iterate (r\<lparr>iterations := 1\<rparr>) = Some r1 \<and> kept r r' \<and> crclist r' = crclist r1"
proof -
  have c: "ready (cleared r) xs" by (rule kept_ready [OF cleared_kept assms(1)])
  from iterate_step_result [OF c, of 0] obtain r1 where r1: "iterate_step 0 (cleared r) = Some r1" "kept (cleared r) r1" by blast
  from iterate_loop_result [OF kept_ready [OF r1(2) c], of 1 "iterations r"] obtain r' where
    r': "iterate_loop 1 (iterations r) r1 = Some r'" "kept r1 r'" "crclist r' = crclist r1" by auto
  have "iterate r = Some r'"
    using r1(1) r'(1) assms(2) by (simp add: iterate_def cleared_def iterate_loop.simps [of 0])
  moreover have "\<exists>s. iterate_step 0 (cleared (r\<lparr>iterations := 1\<rparr>)) = Some s \<and> crclist s = crclist r1"
  proof -
    have "bench_once f (x\<lparr>iterations := 1\<rparr>) = map_option (\<lambda>y. y\<lparr>iterations := 1\<rparr>) (bench_once f x)" for f x
      by (cases "core_bench_list (list_ptr x) f (wd x)") (auto simp: bench_once_def on_res_def)
    then have "iterate_step 0 (x\<lparr>iterations := 1\<rparr>) = map_option (\<lambda>y. y\<lparr>iterations := 1\<rparr>) (iterate_step 0 x)" for x
      by (cases "bench_once 1 x"; cases "bench_once (-1) (the (bench_once 1 x))") (auto simp: iterate_step_def)
    moreover have "cleared (r\<lparr>iterations := 1\<rparr>) = (cleared r)\<lparr>iterations := 1\<rparr>"
      by (simp add: cleared_def on_res_def)
    ultimately show ?thesis using r1(1) by simp
  qed
  then obtain s where "iterate (r\<lparr>iterations := 1\<rparr>) = Some s" "crclist s = crclist r1"
    by (auto simp: iterate_def cleared_def iterate_loop.simps [of 0] iterate_loop.simps [of 1])
  moreover have "kept r r'" by (rule kept_trans [OF kept_trans [OF cleared_kept r1(2)] r'(2)])
  ultimately show ?thesis using r'(3) by auto
qed


section \<open>The standard runs\<close>

text \<open>The indices of the cells of a list of 666 bytes are different from each other and from those of
  the head and the tail.\<close>

lemma mid_idx_standard:
  assumes "s = 0 \<or> s = 0x3415"
  shows "sorted_wrt (<) (0 # sort (mid_idx 31 s) @ [0x7fff])"
proof -
  have d: "distinct (mid_idx 31 s) \<and> (\<forall>x\<in>set (mid_idx 31 s). 0 < x \<and> x < 0x7fff)"
    using assms by (elim disjE) (simp_all add: mid_idx_def item_idx_def upt_rec Let_def)
  have "sorted_wrt (<) (sort (mid_idx 31 s))" using d by (simp add: strict_sorted_iff)
  then show ?thesis using d by (auto simp: sorted_wrt_append)
qed

text \<open>Enough memory for the blocks, at an aligned address.\<close>

definition mem_ok :: "build \<Rightarrow> world \<Rightarrow> bool" where
  "mem_ok b w \<longleftrightarrow> static_memblk b \<noteq> 0 \<and> unat (static_memblk b) + 2004 < 2 ^ 32
     \<and> 84 \<le> length (matA (res w)) \<and> 84 \<le> length (matB (res w)) \<and> 84 \<le> length (matC (res w))
     \<and> 666 \<le> length (statemem (res w))"

lemma seeds_standard:
  assumes "RUN_TYPE b \<noteq> PROFILE_RUN"
  defines "s \<equiv> (if RUN_TYPE b = VALIDATION_RUN then 0x3415 else 0)"
  shows "choose_seeds (ucast (get_seed_32 b 1), ucast (get_seed_32 b 2), ucast (get_seed_32 b 3)) = (s, s, 0x66)"
  using assms(1) unfolding s_def by (cases "RUN_TYPE b") (simp_all add: get_seed_32_def choose_seeds_def)

lemma blocks_standard:
  "num_algorithms 7 = 3" "assign_pointers 7 666 [m, 0, 0, 0] = ([m, m, m + 666, m + 1332], 3)"
proof -
  have three: "[0..<3] = [0, 1, 2 :: nat]" by (simp add: upt_rec)
  show "num_algorithms 7 = 3" "assign_pointers 7 666 [m, 0, 0, 0] = ([m, m, m + 666, m + 1332], 3)"
    by (simp_all add: num_algorithms_def assign_pointers_def NUM_ALGORITHMS_def three)
qed

lemma standard_list:
  assumes "block m 31" and "s = 0 \<or> s = 0x3415"
  shows "\<exists>w1 xs. core_list_init 666 m s w0 = Some (m, w1) \<and> res w1 = res w0 \<and> list_at (nxt (hp w1)) m xs
    \<and> length xs = 30 \<and> has_info (hp w1) xs \<and> fresh_list w1 xs"
proof -
  have n31: "100 \<le> unat (666 :: u32)" "unat (666 :: u32) < 0x10000" "31 = unat (666 :: u32) div 20 - 2" by simp_all
  from core_list_init_result [OF n31 assms(1), of s w0] obtain w1 mid where
    w1: "core_list_init 666 m s w0 = Some (m, w1)" "res w1 = res w0"
      "list_at (nxt (hp w1)) m (m # mid @ [cell_at m 1])" "mset mid = mset (map (cell_at m) [2..<31 - 1])"
      "\<forall>j<31 - 1. inf (hp w1) (cell_at m j) = item_at m 31 j"
      "\<forall>c\<in>set (m # mid @ [cell_at m 1]). renewed w1 (inf (hp w1) c)"
      "map (\<lambda>c. idx_key w1 (inf (hp w1) c)) (m # mid @ [cell_at m 1]) = 0 # sort (mid_idx 31 s) @ [0x7fff]" by (elim exE conjE) (rule that)
  define xs where "xs = m # mid @ [cell_at m 1]"
  have len: "length xs = 30" using arg_cong [OF w1(4), of size] by (simp add: xs_def)
  have cells: "\<exists>j<30. c = cell_at m j" if "c \<in> set xs" for c
  proof -
    have mid: "set mid = cell_at m ` {2..<31 - 1}"
      using mset_eq_setD [OF w1(4)] by (simp only: set_map set_upt)
    from that consider "c = cell_at m 0" | "c = cell_at m 1" | "c \<in> set mid"
      by (auto simp: xs_def block_ends(1))
    then show ?thesis
    proof cases
      case 3
      then show ?thesis unfolding mid by auto
    qed (auto intro: exI [of _ 0] exI [of _ 1])
  qed
  have info: "has_info (hp w1) xs"
    using cells w1(5) block_not_null(2) [OF assms(1)] by (fastforce simp: has_info_def)
  have fresh: "fresh_list w1 xs"
    unfolding fresh_list_def xs_def w1(7) using mid_idx_standard [OF assms(2)] w1(6) by blast
  show ?thesis
    using w1(1-3) len info fresh unfolding xs_def [symmetric] by blast
qed

lemma standard_matrix:
  assumes "84 \<le> length A0" and "84 \<le> length B0"
  shows "\<exists>N p A B. core_init_matrix 666 m seed A0 B0 = Some (N, p, A, B) \<and> unat N = 9
    \<and> length A = length A0 \<and> length B = length B0"
proof -
  obtain N p A B where N: "core_init_matrix 666 m seed A0 B0 = Some (N, p, A, B)"
    "length A = length A0" "length B = length B0"
    "8 * unat N * unat N < 666" "666 \<le> 8 * (unat N + 1) * (unat N + 1)"
  proof (rule core_init_matrix_result [of 666 A0 B0 m seed])
    fix N
    assume N: "8 * unat N * unat N < unat (666 :: u32)" "unat (666 :: u32) \<le> 8 * (unat N + 1) * (unat N + 1)"
      and run: "core_init_matrix 666 m seed A0 B0 =
       (let s = if seed = 0 then 1 else seed; n = unat N * unat N; A = align_mem m
        in Some (N, \<lparr>mN = N, mA = A, mB = A + 2 * (N * N), mC = align_mem (A + 2 * (N * N) + 2 * (N * N))\<rparr>,
            with_cells n (a_at s) A0, with_cells n (b_at s) B0))"
    have "unat N * unat N \<le> 83" using N(1) by simp
    then show thesis using assms N by (intro that [OF run [unfolded Let_def]]) simp_all
  qed (use assms in simp_all)
  have "unat N < 10" using N(4) by (rule contrapos_pp) (use mult_le_mono [of 10 "unat N" 10 "unat N"] in simp)
  moreover have "8 < unat N"
  proof (rule ccontr)
    define a where "a = unat N + 1"
    assume "\<not> 8 < unat N"
    then have "a * a \<le> 9 * 9" unfolding a_def by (intro mult_le_mono) simp_all
    moreover have "666 \<le> 8 * (a * a)" using N(5) by (simp only: a_def mult.assoc)
    ultimately show False by simp
  qed
  ultimately have dim: "unat N = 9" by simp
  with N(1-3) show ?thesis by blast
qed

lemma standard_state:
  assumes "666 \<le> length m" and "s = 0 \<or> s = 0x3415"
  defines "m1 \<equiv> put_at m 0 (state_block 666 s)"
  shows "core_init_state 666 s m = Some m1" and "length m1 = length m"
    and "\<exists>k. Suc k < 666 \<and> m1 ! k = 0 \<and> m1 ! Suc k = 0"
    and "\<forall>i<666. m1 ! i = 0x2C \<or> m1 ! i XOR ucast s \<noteq> 0x2C"
proof -
  let ?b = "state_block 666 s"
  have blk: "length ?b = 666" "?b ! 664 = 0" "?b ! 665 = 0"
    using length_state_block [of 666 s] state_block_zeros [of 666 s] by simp_all
  then have st: "m1 ! i = ?b ! i" if "i < 666" for i
    using that assms(1) by (simp add: nth_put_at m1_def)
  show "core_init_state 666 s m = Some m1"
    using core_init_state_result [of 666 m s] assms(1) by (simp add: m1_def)
  show "length m1 = length m" using blk assms(1) by (simp add: m1_def length_put_at)
  show "\<exists>k. Suc k < 666 \<and> m1 ! k = 0 \<and> m1 ! Suc k = 0"
    using blk st by (intro exI [of _ 664]) simp
  have flip: "\<forall>c\<in>set pattern_bytes. c = 0x2C \<or> c XOR ucast s \<noteq> 0x2C"
    using assms(2) by (auto simp: pattern_bytes_def intpat_def floatpat_def scipat_def errpat_def bytes_def)
  have "?b ! i = 0x2C \<or> ?b ! i XOR ucast s \<noteq> 0x2C" if "i < 666" for i
  proof -
    have "?b ! i \<in> set ?b" using that blk(1) by simp
    then show ?thesis using flip state_block_bytes by blast
  qed
  then show "\<forall>i<666. m1 ! i = 0x2C \<or> m1 ! i XOR ucast s \<noteq> 0x2C" using st by simp
qed

lemma set_up_standard:
  assumes "RUN_TYPE b \<noteq> PROFILE_RUN" and "TOTAL_DATA_SIZE b = 2000" and "mem_ok b w"
  defines "s \<equiv> (if RUN_TYPE b = VALIDATION_RUN then 0x3415 else 0)"
  shows "\<exists>r xs. set_up b w = Some r \<and> ready r xs \<and> length xs = 30 \<and> execs r = ALL_ALGORITHMS_MASK \<and> iterations r = ITERATIONS b
    \<and> rsize (res (wd r)) = 666 \<and> dim (res (wd r)) = 9
    \<and> seed1 (res (wd r)) = s \<and> seed2 (res (wd r)) = s \<and> seed3 (res (wd r)) = 0x66"
proof -
  let ?m = "static_memblk b"
  have s: "s = 0 \<or> s = 0x3415" by (simp add: s_def)
  define w0 where "w0 = w\<lparr>res := (res w)\<lparr>seed1 := s, seed2 := s, seed3 := 0x66, rsize := 666\<rparr>\<rparr>"
  have mem: "84 \<le> length (matA (res w))" "84 \<le> length (matB (res w))" "666 \<le> length (statemem (res w))"
    "84 \<le> length (matC (res w))" "block ?m 31" using assms(3) by (simp_all add: mem_ok_def block_def)
  from standard_list [OF mem(5) s] obtain w1 xs where
    w1: "core_list_init 666 ?m s w0 = Some (?m, w1)" "res w1 = res w0" "list_at (nxt (hp w1)) ?m xs"
      "length xs = 30" "has_info (hp w1) xs" "fresh_list w1 xs" by blast
  define seed :: s32 where "seed = (scast s OR push_bit 16 (scast s))"
  from standard_matrix [OF mem(1,2), of "?m + 666" seed] obtain N p A B where
    N: "core_init_matrix 666 (?m + 666) seed (matA (res w)) (matB (res w)) = Some (N, p, A, B)" "unat N = 9"
      "length A = length (matA (res w))" "length B = length (matB (res w))" by blast
  define m1 where "m1 = put_at (statemem (res w)) 0 (state_block 666 s)"
  note st = standard_state [OF mem(3) s, folded m1_def]
  define r where "r = \<lparr>execs = 7, iterations = ITERATIONS b, memblock = [?m, ?m, ?m + 666, ?m + 1332], list_ptr = ?m, mat = p,
    crclist = 0, err = 0, wd = w1\<lparr>res := (res w0)\<lparr>dim := 9, matA := A, matB := B, statemem := m1\<rparr>\<rparr>\<rparr>"
  have seed: "get_seed_32 b 4 = ITERATIONS b" "get_seed_32 b 5 = 0"
    by (simp_all add: get_seed_32_def split: prod.split)
  have ids: "ALL_ALGORITHMS_MASK = 7" by (simp add: algorithm_ids)
  have "set_up b w = Some r"
    using seeds_standard [OF assms(1), folded s_def] w1(1,2) N(1,2) st(1) assms(2)
    by (simp add: set_up_def seed ids blocks_standard init_list_def init_matrix_def init_state_def
        algorithm_ids on_res_def r_def w0_def seed_def Let_def)
  moreover have "bench_ok (res (wd r))"
    using st(2-4) mem N(3,4) by (simp add: bench_ok_def r_def w0_def)
  moreover have "fresh_list (wd r) xs" using w1(6) by (simp add: r_def fresh_list_def idx_key_def renewed_def)
  ultimately show ?thesis
    using w1(3-5) by (intro exI [of _ r] exI [of _ xs]) (simp add: ready_def r_def w0_def ids)
qed


section \<open>The verdict\<close>

lemma crcu8_8: "crcu8 d c = crcu8_loop (Suc (Suc (Suc (Suc (Suc (Suc (Suc (Suc 0)))))))) d c"
proof -
  have "8 = Suc (Suc (Suc (Suc (Suc (Suc (Suc (Suc 0)))))))" by simp
  then show ?thesis by (simp only: crcu8_def)
qed

lemma seed_crc_standard:
  "crc16 666 (crc16 0x66 (crc16 0 (crc16 0 0))) = 0xe9f5"
  "crc16 666 (crc16 0x66 (crc16 0x3415 (crc16 0x3415 0))) = 0x18f2"
  by (simp_all add: crc16_def crcu16_def crcu8_8 Let_def)

lemma printfs_append: "printfs (xs @ ys) u = do { u \<leftarrow> printfs xs u; printfs ys u }"
  by (simp add: printfs_def each_append)

lemma printfs_Nil [simp]: "printfs [] u = Some u"
  by (simp add: printfs_def)

text \<open>One line for every check sum that is not the known one.\<close>

definition complaint :: "results \<Rightarrow> u32 \<Rightarrow> string \<Rightarrow> u16 \<Rightarrow> u16 \<Rightarrow> (string \<times> va_value list) list" where
  "complaint r algorithm fmt got want =
     (if execs r AND algorithm \<noteq> 0 \<and> got \<noteq> want then [(nl fmt, [VNum 0, VNum (ucast got), VNum (ucast want)])] else [])"

definition complaints :: "nat \<Rightarrow> results \<Rightarrow> (string \<times> va_value list) list" where
  "complaints k r =
     complaint r ID_LIST ''[%u]ERROR! list crc 0x%04x - should be 0x%04x'' (crclist r) (list_known_crc ! k) @
     complaint r ID_MATRIX ''[%u]ERROR! matrix crc 0x%04x - should be 0x%04x'' (crcmatrix (res (wd r))) (matrix_known_crc ! k) @
     complaint r ID_STATE ''[%u]ERROR! state crc 0x%04x - should be 0x%04x'' (crcstate (res (wd r))) (state_known_crc ! k)"

lemma length_complaints: "length (complaints k r) \<le> 3"
  by (simp add: complaints_def complaint_def)

lemma complaints_none:
  "execs r = ALL_ALGORITHMS_MASK \<Longrightarrow> complaints k r = [] \<longleftrightarrow>
     crclist r = list_known_crc ! k \<and> crcmatrix (res (wd r)) = matrix_known_crc ! k \<and> crcstate (res (wd r)) = state_known_crc ! k"
  by (auto simp: complaints_def complaint_def algorithm_ids)

lemma check_crcs_result:
  "check_crcs k r u = do { u \<leftarrow> printfs (complaints k r) u; Some (r\<lparr>err := of_nat (length (complaints k r))\<rparr>, u) }"
proof -
  have step: "crc_check a fmt got want (q, v) = do {
      v \<leftarrow> printfs (complaint q a fmt got want) v; Some (q\<lparr>err := err q + of_nat (length (complaint q a fmt got want))\<rparr>, v) }"
    for a fmt got want q v by (simp add: crc_check_def complaint_def)
  have inv: "complaint (q\<lparr>err := x\<rparr>) = complaint q" for q x by (intro ext) (simp add: complaint_def)
  show ?thesis
    unfolding check_crcs_def step by (simp add: inv complaints_def printfs_append add.assoc [symmetric])
qed

text \<open>The count of errors at the end: the check sums that are wrong, or -1 when the parameters are not
  known, and one more for a run of less than ten seconds.\<close>

definition errors_of :: "u16 \<Rightarrow> results \<Rightarrow> u32 \<Rightarrow> int" where
  "errors_of seedcrc r secs =
     (case known_run seedcrc of None \<Rightarrow> -1 | Some (k, _) \<Rightarrow> int (length (complaints k r))) + (if secs < 10 then 1 else 0)"

definition judged :: "u16 \<Rightarrow> results \<Rightarrow> results" where
  "judged seedcrc r = (case known_run seedcrc of None \<Rightarrow> r | Some (k, _) \<Rightarrow> r\<lparr>err := of_nat (length (complaints k r))\<rparr>)"

definition judge_lines :: "u16 \<Rightarrow> results \<Rightarrow> (string \<times> va_value list) list" where
  "judge_lines seedcrc r = (case known_run seedcrc of None \<Rightarrow> [] | Some (k, msg) \<Rightarrow> (nl msg, []) # complaints k r)"

lemma printfs_Cons: "printfs (x # xs) u = do { u \<leftarrow> printfs [x] u; printfs xs u }"
  using printfs_append [of "[x]" xs] by simp

lemma core_report_result:
  fixes t r
  defines "seedcrc \<equiv> seed_crc (res (wd r))"
  assumes "CLK_HZ b \<noteq> 0"
  shows "core_report b t r u = do {
     u \<leftarrow> printfs (judge_lines seedcrc r) u;
     u \<leftarrow> printfs (time_lines t (t div CLK_HZ b) r) u;
     u \<leftarrow> printfs (result_lines b seedcrc r) u;
     u \<leftarrow> printfs (verdict_lines (of_int (errors_of seedcrc r (t div CLK_HZ b)))) u;
     Some (of_int (errors_of seedcrc r (t div CLK_HZ b)), judged seedcrc r, u) }"
proof -
  have same: "time_lines t s (r\<lparr>err := x\<rparr>) = time_lines t s r" "result_lines b c (r\<lparr>err := x\<rparr>) = result_lines b c r" for s c x
    by (simp_all add: time_lines_def result_lines_def)
  show ?thesis
    unfolding core_report_def seedcrc_def [symmetric] Let_def
    using assms(2)
    by (simp add: judge_def judge_lines_def judged_def errors_of_def check_crcs_result time_in_secs_def
        check_data_types_portme same printfs_Cons [of _ "complaints _ _"] split: option.split)
qed

lemma verdict_lines_small:
  assumes "- 1 \<le> e" and "e \<le> 4"
  shows "verdict_lines (of_int e) = [(nl
     (if e = 0 then ''Correct operation validated. See README.md for run and reporting rules.''
      else if 0 < e then ''Errors detected''
      else ''Cannot validate operation for these seed values, please compare with results on a known platform.''), [])]"
proof -
  have "e \<in> {-1, 0, 1, 2, 3, 4}" using assms by auto
  then show ?thesis by (auto simp: verdict_lines_def)
qed


section \<open>The whole program\<close>

lemma portable_init_started:
  "portable_init b p u = Some (q, u') \<Longrightarrow> q = (if COSIM b then p\<lparr>portable_id := 1\<rparr> else p\<lparr>portable_id := 1, mtvec_csr := trap_report b\<rparr>)"
  by (auto simp: portable_init_def Let_def bind_eq_Some_conv split: if_splits)

text \<open>The clock is read just before and just after the run; the co-simulation build does not read it.\<close>

lemma run_ticks:
  "get_time (stop_time b mcycle (start_time b mcycle p)) = (if COSIM b then 0 else mcycle (reads p + 1) - mcycle (reads p))"
  by (simp add: get_time_def stop_time_def start_time_def cm_rdcycle_def)

lemma core_main_result:
  assumes "set_up b w = Some r0" and "iterate r0 = Some r" and "iterations r0 \<noteq> 0"
  shows "\<exists>p1. get_time p1 = (if COSIM b then 0 else mcycle (reads p + 1) - mcycle (reads p)) \<and>
    (\<forall>u. core_main b mcycle w p u = do {
       (_, u) \<leftarrow> portable_init b p u;
       (total_errors, r, u) \<leftarrow> core_report b (get_time p1) r u;
       (p2, u) \<leftarrow> portable_fini b p1 u;
       Some (total_errors, r, p2, u) })"
proof -
  let ?q = "if COSIM b then p\<lparr>portable_id := 1\<rparr> else p\<lparr>portable_id := 1, mtvec_csr := trap_report b\<rparr>"
  let ?p1 = "stop_time b mcycle (start_time b mcycle ?q)"
  have "reads ?q = reads p" by simp
  then have t: "get_time ?p1 = (if COSIM b then 0 else mcycle (reads p + 1) - mcycle (reads p))"
    unfolding run_ticks by presburger
  have "core_main b mcycle w p u = do {
       (_, u) \<leftarrow> portable_init b p u;
       (total_errors, r, u) \<leftarrow> core_report b (get_time ?p1) r u;
       (p2, u) \<leftarrow> portable_fini b ?p1 u;
       Some (total_errors, r, p2, u) }" for u
  proof (cases "portable_init b p u")
    case (Some s)
    then have "portable_init b p u = Some (?q, snd s)" using portable_init_started [of b p u] by (cases s) simp
    then show ?thesis
      using assms by (simp add: core_main_def auto_iterations_def timed_run_def Let_def)
  qed (simp add: core_main_def)
  with t show ?thesis by blast
qed


section \<open>Properties\<close>

text \<open>C12: \<open>iterate\<close> returns for every number of iterations and leaves the list, the seeds, the state
  block and the matrices as they were. The check sum of the list in the report is that of the first
  iteration, so that it does not depend on the number of iterations.\<close>

theorem iterate_restores:
  assumes "ready r xs" and "0 < iterations r"
  shows "\<exists>r' r1. iterate r = Some r' \<and> iterate (r\<lparr>iterations := 1\<rparr>) = Some r1 \<and> crclist r' = crclist r1
    \<and> hp (wd r') = hp (wd r) \<and> inputs (res (wd r')) = inputs (res (wd r))"
  using iterate_first [OF assms] by (auto simp: kept_def)

definition demo_results :: "u32 \<Rightarrow> results" where
  "demo_results n = \<lparr>execs = 7, iterations = n, memblock = [], list_ptr = 8, mat = \<lparr>mN = 0, mA = 0, mB = 0, mC = 0\<rparr>,
     crclist = 0, err = 0, wd = demo 0x0505 0 1 2\<rparr>"

lemma iterate_restores_witness:
  "\<exists>r' r1. iterate (demo_results 1000) = Some r' \<and> iterate ((demo_results 1000)\<lparr>iterations := 1\<rparr>) = Some r1
    \<and> crclist r' = crclist r1 \<and> hp (wd r') = hp (demo 0x0505 0 1 2)
    \<and> inputs (res (wd r')) = inputs (res (demo 0x0505 0 1 2))"
proof -
  have "ready (demo_results 1000) [8, 16, 24]"
    using demo_list demo_info [of "0x0505" 0 1 2]
    by (auto simp: ready_def demo_results_def fresh_list_def renewed_def idx_key_def demo_def regenv_def bench_ok_def)
  moreover have "wd (demo_results 1000) = demo 0x0505 0 1 2" "0 < iterations (demo_results 1000)"
    by (simp_all add: demo_results_def)
  ultimately show ?thesis using iterate_restores [of "demo_results 1000" "[8, 16, 24]"] by (simp only:)
qed

text \<open>C19: For the 2K performance and validation runs the set-up divides the memory block between the three
  benchmarks, and everything they rely on holds at its end: a list of 30 cells in strict order of its
  indices, each with its own data and their backup, a state block in which corruption undoes itself, and
  matrices of dimension 9 within their arrays.\<close>

theorem set_up_ready:
  assumes "RUN_TYPE b \<noteq> PROFILE_RUN" and "TOTAL_DATA_SIZE b = 2000" and "mem_ok b w"
  shows "\<exists>r xs. set_up b w = Some r \<and> ready r xs \<and> length xs = 30 \<and> execs r = ALL_ALGORITHMS_MASK
    \<and> iterations r = ITERATIONS b \<and> rsize (res (wd r)) = 666 \<and> dim (res (wd r)) = 9"
  using set_up_standard [OF assms] by blast

definition demo_build :: "run_type \<Rightarrow> u32 \<Rightarrow> build" where
  "demo_build run n = \<lparr>RUN_TYPE = run, ITERATIONS = n, CLK_HZ = 50000000, TOTAL_DATA_SIZE = 2000, CYCLES_PER_ITER = 604704,
     COSIM = False, COMPILER_VERSION = ''GCC14.3.0'', COMPILER_FLAGS = ''-O3'', static_memblk = 0x2000, trap_report = 0x1c0\<rparr>"

definition demo_memory :: world where
  "demo_memory = \<lparr>hp = \<lparr>nxt = (\<lambda>_. 0), inf = (\<lambda>_. 0), dat = (\<lambda>_. 0), idx = (\<lambda>_. 0)\<rparr>,
     res = \<lparr>seed1 = 0, seed2 = 0, seed3 = 0, rsize = 0, statemem = replicate 666 0, dim = 0,
       matA = replicate 84 0, matB = replicate 84 0, matC = replicate 84 0, crc = 0, crcmatrix = 0, crcstate = 0\<rparr>\<rparr>"

lemma demo_mem_ok: "mem_ok (demo_build run n) demo_memory"
  by (simp add: mem_ok_def demo_build_def demo_memory_def)

lemma set_up_ready_witness:
  "\<exists>r xs. set_up (demo_build VALIDATION_RUN 1) demo_memory = Some r \<and> ready r xs \<and> length xs = 30
    \<and> execs r = ALL_ALGORITHMS_MASK \<and> iterations r = 1 \<and> rsize (res (wd r)) = 666 \<and> dim (res (wd r)) = 9"
  using set_up_ready [OF _ _ demo_mem_ok, of VALIDATION_RUN 1] by (simp add: demo_build_def)

text \<open>C11: A 2K performance or validation run of any number of iterations returns as soon as the console has
  taken its output. It recognises its parameters by their check sum, prints one complaint for every
  check sum of the run that is not the published one, and validates the run exactly when all three are
  and it took at least ten seconds by the two readings of the clock around it.\<close>

theorem core_main_standard_run:
  fixes mcycle :: "nat \<Rightarrow> u32" and p :: cm_port
  assumes "RUN_TYPE b \<noteq> PROFILE_RUN" and "TOTAL_DATA_SIZE b = 2000" and "mem_ok b w"
    and "ITERATIONS b \<noteq> 0" and "CLK_HZ b \<noteq> 0"
  defines "k \<equiv> (if RUN_TYPE b = VALIDATION_RUN then 4 else 3)"
    and "seedcrc \<equiv> (if RUN_TYPE b = VALIDATION_RUN then 0x18f2 else 0xe9f5)"
    and "t \<equiv> (if COSIM b then 0 else mcycle (reads p + 1) - mcycle (reads p))"
  shows "\<exists>r0 r p1 e. set_up b w = Some r0 \<and> iterate r0 = Some r \<and> get_time p1 = t
    \<and> (e = (0 :: int) \<longleftrightarrow> crclist r = list_known_crc ! k \<and> crcmatrix (res (wd r)) = matrix_known_crc ! k
        \<and> crcstate (res (wd r)) = state_known_crc ! k \<and> 10 \<le> t div CLK_HZ b)
    \<and> (\<forall>u. core_main b mcycle w p u = do {
         (_, u) \<leftarrow> portable_init b p u;
         u \<leftarrow> printfs [(nl (if RUN_TYPE b = VALIDATION_RUN then ''2K validation run parameters for coremark.''
                 else ''2K performance run parameters for coremark.''), [])] u;
         u \<leftarrow> printfs (complaints k r) u;
         u \<leftarrow> printfs (time_lines t (t div CLK_HZ b) r) u;
         u \<leftarrow> printfs (result_lines b seedcrc r) u;
         u \<leftarrow> printfs [(nl (if e = 0 then ''Correct operation validated. See README.md for run and reporting rules.''
                 else ''Errors detected''), [])] u;
         (p2, u) \<leftarrow> portable_fini b p1 u;
         Some (of_int e, r\<lparr>err := of_nat (length (complaints k r))\<rparr>, p2, u) })"
proof -
  from set_up_standard [OF assms(1-3)] obtain r0 xs where
    r0: "set_up b w = Some r0" "ready r0 xs" "execs r0 = ALL_ALGORITHMS_MASK" "iterations r0 = ITERATIONS b"
    and s0: "rsize (res (wd r0)) = 666" "seed3 (res (wd r0)) = 0x66"
      "seed1 (res (wd r0)) = (if RUN_TYPE b = VALIDATION_RUN then 0x3415 else 0)"
      "seed2 (res (wd r0)) = (if RUN_TYPE b = VALIDATION_RUN then 0x3415 else 0)" by blast
  from iterate_result [OF r0(2)] obtain r where r: "iterate r0 = Some r" "kept r0 r" by blast
  have ex: "execs r = ALL_ALGORITHMS_MASK" using kept_fields(1) [OF r(2)] r0(3) by simp
  have sc: "seed_crc (res (wd r)) = seedcrc"
    using kept_fields(8) [OF r(2)] s0 seed_crc_standard by (simp add: inputs_def seed_crc_def seedcrc_def)
  have kn: "known_run seedcrc = Some (k, if RUN_TYPE b = VALIDATION_RUN then ''2K validation run parameters for coremark.''
      else ''2K performance run parameters for coremark.'')"
    by (simp add: known_run_def seedcrc_def k_def)
  define e where "e = int (length (complaints k r)) + (if t div CLK_HZ b < 10 then 1 else 0)"
  have e: "errors_of seedcrc r (t div CLK_HZ b) = e" by (simp add: errors_of_def kn e_def)
  have range: "0 \<le> e" "e \<le> 4" using length_complaints [of k r] by (simp_all add: e_def)
  then have verdict: "verdict_lines (of_int e) = [(nl (if e = 0 then ''Correct operation validated. See README.md for run and reporting rules.''
                 else ''Errors detected''), [])]" using verdict_lines_small [of e] by simp
  have zero: "e = 0 \<longleftrightarrow> crclist r = list_known_crc ! k \<and> crcmatrix (res (wd r)) = matrix_known_crc ! k
        \<and> crcstate (res (wd r)) = state_known_crc ! k \<and> 10 \<le> t div CLK_HZ b"
    using complaints_none [OF ex, of k] by (auto simp: e_def)
  have report: "core_report b t r u = do {
         u \<leftarrow> printfs [(nl (if RUN_TYPE b = VALIDATION_RUN then ''2K validation run parameters for coremark.''
                 else ''2K performance run parameters for coremark.''), [])] u;
         u \<leftarrow> printfs (complaints k r) u;
         u \<leftarrow> printfs (time_lines t (t div CLK_HZ b) r) u;
         u \<leftarrow> printfs (result_lines b seedcrc r) u;
         u \<leftarrow> printfs [(nl (if e = 0 then ''Correct operation validated. See README.md for run and reporting rules.''
                 else ''Errors detected''), [])] u;
         Some (of_int e, r\<lparr>err := of_nat (length (complaints k r))\<rparr>, u) }" for u
    unfolding core_report_result [OF assms(5)] sc e verdict
    by (simp add: judge_lines_def judged_def kn printfs_Cons [of _ "complaints _ _"])
  have "iterations r0 \<noteq> 0" using r0(4) assms(4) by simp
  from core_main_result [OF r0(1) r(1) this, of mcycle p] obtain p1 where
    p1: "get_time p1 = t" "\<forall>u. core_main b mcycle w p u = do {
       (_, u) \<leftarrow> portable_init b p u;
       (total_errors, r, u) \<leftarrow> core_report b (get_time p1) r u;
       (p2, u) \<leftarrow> portable_fini b p1 u;
       Some (total_errors, r, p2, u) }" unfolding t_def by blast
  show ?thesis
    using r0(1) r(1) p1(1) zero p1(2) [unfolded p1(1) report]
    by (intro exI [of _ r0] exI [of _ r] exI [of _ p1] exI [of _ e] conjI) (simp_all add: split_beta)
qed


lemma core_main_standard_run_witness:
  "\<exists>r0 r p1 e. set_up (demo_build PERFORMANCE_RUN 1000) demo_memory = Some r0 \<and> iterate r0 = Some r
    \<and> (e = (0 :: int) \<longleftrightarrow> crclist r = 0xe714 \<and> crcmatrix (res (wd r)) = 0x1fd7 \<and> crcstate (res (wd r)) = 0x8e3a)
    \<and> (\<forall>u. core_main (demo_build PERFORMANCE_RUN 1000) (\<lambda>n. if n = 0 then 1000 else 604705000) demo_memory
        \<lparr>portable_id = 0, start_ticks = 0, stop_ticks = 0, reads = 0, mtvec_csr = 0\<rparr> u = do {
         (_, u) \<leftarrow> portable_init (demo_build PERFORMANCE_RUN 1000)
           \<lparr>portable_id = 0, start_ticks = 0, stop_ticks = 0, reads = 0, mtvec_csr = 0\<rparr> u;
         u \<leftarrow> printfs [(nl ''2K performance run parameters for coremark.'', [])] u;
         u \<leftarrow> printfs (complaints 3 r) u;
         u \<leftarrow> printfs (time_lines 604704000 12 r) u;
         u \<leftarrow> printfs (result_lines (demo_build PERFORMANCE_RUN 1000) 0xe9f5 r) u;
         u \<leftarrow> printfs [(nl (if e = 0 then ''Correct operation validated. See README.md for run and reporting rules.''
                 else ''Errors detected''), [])] u;
         (p2, u) \<leftarrow> portable_fini (demo_build PERFORMANCE_RUN 1000) p1 u;
         Some (of_int e, r\<lparr>err := of_nat (length (complaints 3 r))\<rparr>, p2, u) })"
proof -
  let ?b = "demo_build PERFORMANCE_RUN 1000"
  have b: "RUN_TYPE ?b = PERFORMANCE_RUN" "TOTAL_DATA_SIZE ?b = 2000" "ITERATIONS ?b = 1000" "CLK_HZ ?b = 50000000" "\<not> COSIM ?b"
    by (simp_all add: demo_build_def)
  have known: "list_known_crc ! 3 = 0xe714" "matrix_known_crc ! 3 = 0x1fd7" "state_known_crc ! 3 = 0x8e3a"
    by (simp_all add: known_crcs)
  note run = core_main_standard_run [of ?b, OF _ b(2) demo_mem_ok, of "\<lambda>n. if n = 0 then 1000 else 604705000"
      "\<lparr>portable_id = 0, start_ticks = 0, stop_ticks = 0, reads = 0, mtvec_csr = 0\<rparr>"]
  have "(604704000 :: u32) div 50000000 = 12" by simp
  then show ?thesis
    using run by (simp add: b known split del: if_split) (elim exE conjE, intro exI conjI; assumption)
qed

text \<open>With parameters that are not one of the five known runs there is nothing to compare with, and the
  report says so after a run of ten seconds or more. After a shorter one it prints the error of the run
  time and then that the correct operation has been validated: the error brings the count that marks
  the unknown parameters, -1, to 0.\<close>

theorem core_report_unknown:
  assumes "known_run (seed_crc (res (wd r))) = None" and "CLK_HZ b \<noteq> 0"
  shows "core_report b t r u = do {
     u \<leftarrow> printfs (time_lines t (t div CLK_HZ b) r) u;
     u \<leftarrow> printfs (result_lines b (seed_crc (res (wd r))) r) u;
     u \<leftarrow> printfs [(nl (if t div CLK_HZ b < 10 then ''Correct operation validated. See README.md for run and reporting rules.''
             else ''Cannot validate operation for these seed values, please compare with results on a known platform.''), [])] u;
     Some (if t div CLK_HZ b < 10 then 0 else -1, r, u) }"
  unfolding core_report_result [OF assms(2)] using assms(1)
  by (simp add: judge_lines_def judged_def errors_of_def verdict_lines_def)

text \<open>A run on 4000 bytes that takes half a second.\<close>

lemma core_report_unknown_witness:
  "core_report (demo_build PERFORMANCE_RUN 1) 25000000
      (on_res (\<lambda>c. c\<lparr>seed1 := 0, seed2 := 0, seed3 := 0x66, rsize := 1333\<rparr>) (demo_results 1)) idle_uart = do {
     u \<leftarrow> printfs (time_lines 25000000 0 (on_res (\<lambda>c. c\<lparr>seed1 := 0, seed2 := 0, seed3 := 0x66, rsize := 1333\<rparr>) (demo_results 1))) idle_uart;
     u \<leftarrow> printfs (result_lines (demo_build PERFORMANCE_RUN 1) (crc16 1333 (crc16 0x66 (crc16 0 (crc16 0 0))))
         (on_res (\<lambda>c. c\<lparr>seed1 := 0, seed2 := 0, seed3 := 0x66, rsize := 1333\<rparr>) (demo_results 1))) u;
     u \<leftarrow> printfs [(nl ''Correct operation validated. See README.md for run and reporting rules.'', [])] u;
     Some (0, on_res (\<lambda>c. c\<lparr>seed1 := 0, seed2 := 0, seed3 := 0x66, rsize := 1333\<rparr>) (demo_results 1), u) }"
proof -
  let ?r = "on_res (\<lambda>c. c\<lparr>seed1 := 0, seed2 := 0, seed3 := 0x66, rsize := 1333\<rparr>) (demo_results 1)"
  have sc: "seed_crc (res (wd ?r)) = crc16 1333 (crc16 0x66 (crc16 0 (crc16 0 0)))" by (simp add: seed_crc_def on_res_def)
  have unknown: "known_run (seed_crc (res (wd ?r))) = None"
    unfolding sc by (simp add: crc16_def crcu16_def crcu8_8 Let_def known_run_def)
  have b: "CLK_HZ (demo_build PERFORMANCE_RUN 1) = 50000000" by (simp add: demo_build_def)
  show ?thesis using core_report_unknown [OF unknown, of "demo_build PERFORMANCE_RUN 1" 25000000 idle_uart] unfolding sc b by simp
qed

end
