(* ===== verification/Dhrystone.thy ===== *)
theory Dhrystone
  imports Dhry_Port "HOL-Library.Signed_Division"
begin

text \<open>
  The Dhrystone benchmark, \<open>sim/sw/dhrystone/sifive/dhry_1.c\<close> and \<open>dhry_2.c\<close>, as the Makefile builds
  it: NOENUM (enumerations are \<open>int\<close>), TIME, \<open>float\<close> replaced by \<open>long\<close>, without REG. The records live
  in a map from addresses, the other globals and the locals of \<open>main\<close> in records. A reference
  parameter that only its own routine writes through is a returned value; \<open>Proc_3\<close> gets the address
  of the record whose pointer component it assigns. \<open>None\<close> is undefined behaviour (NULL, an
  index outside an array, an unterminated string, an uninitialised variable, division by zero) or a
  loop that never ends. Signed arithmetic is taken modulo 2^32.
\<close>

section \<open>Data\<close>

definition Ident_1 :: s32 where "Ident_1 = 0"
definition Ident_2 :: s32 where "Ident_2 = 1"
definition Ident_3 :: s32 where "Ident_3 = 2"
definition Ident_4 :: s32 where "Ident_4 = 3"
definition Ident_5 :: s32 where "Ident_5 = 4"

lemmas idents = Ident_1_def Ident_2_def Ident_3_def Ident_4_def Ident_5_def

text \<open>\<open>Rec_Type\<close>; of the union only the first variant is ever used.\<close>

record rec_type =
  Ptr_Comp :: u32
  Discr :: s32
  Enum_Comp :: s32
  Int_Comp :: s32
  Str_Comp :: "u8 list"

record globals =
  Ptr_Glob :: u32
  Next_Ptr_Glob :: u32
  Int_Glob :: s32
  Bool_Glob :: s32
  Ch_1_Glob :: u8
  Ch_2_Glob :: u8
  Arr_1_Glob :: "s32 list"
  Arr_2_Glob :: "s32 list list"
  store :: "u32 \<Rightarrow> rec_type"

record locals =
  Int_1_Loc :: s32
  Int_2_Loc :: s32
  Int_3_Loc :: s32
  Enum_Loc :: s32
  Str_1_Loc :: "u8 list"
  Str_2_Loc :: "u8 list"

definition fetch :: "globals \<Rightarrow> u32 \<Rightarrow> rec_type option" where
  "fetch g p = (if p = 0 then None else Some (store g p))"

definition assign :: "u32 \<Rightarrow> (rec_type \<Rightarrow> rec_type) \<Rightarrow> globals \<Rightarrow> globals option" where
  "assign p f g = (if p = 0 then None else Some (g\<lparr>store := (store g)(p := f (store g p))\<rparr>))"

definition truth :: "bool \<Rightarrow> s32" where
  "truth b = (if b then 1 else 0)"

section \<open>The string routines of the library\<close>

text \<open>The string in an array, with its terminator.\<close>

fun c_string :: "u8 list \<Rightarrow> u8 list option" where
  "c_string [] = None"
| "c_string (c # cs) = (if c = 0 then Some [0] else map_option ((#) c) (c_string cs))"

definition str_assign :: "u8 list \<Rightarrow> u8 list \<Rightarrow> u8 list option" where
  "str_assign dst src = do {
     s \<leftarrow> c_string src;
     if length s \<le> length dst then Some (put_at dst 0 s) else None }"

text \<open>\<open>strcmp (a, b) > 0\<close>.\<close>

fun strcmp_pos :: "u8 list \<Rightarrow> u8 list \<Rightarrow> bool option" where
  "strcmp_pos (a # as) (b # bs) = (if a \<noteq> b then Some (a > b) else if a = 0 then Some False else strcmp_pos as bs)"
| "strcmp_pos _ _ = None"

section \<open>dhry\_2.c\<close>

definition Func_3 :: "s32 \<Rightarrow> bool" where
  "Func_3 Enum_Par_Val \<longleftrightarrow> Enum_Par_Val = Ident_3"

definition Proc_6 :: "s32 \<Rightarrow> globals \<Rightarrow> s32" where
  "Proc_6 Enum_Val_Par g =
     (let ref = Enum_Val_Par;
          ref = (if \<not> Func_3 Enum_Val_Par then Ident_4 else ref)
      in if Enum_Val_Par = Ident_1 then Ident_1
         else if Enum_Val_Par = Ident_2 then (if sint (Int_Glob g) > 100 then Ident_1 else Ident_4)
         else if Enum_Val_Par = Ident_3 then Ident_2
         else if Enum_Val_Par = Ident_4 then ref
         else if Enum_Val_Par = Ident_5 then Ident_3
         else ref)"

definition Proc_7 :: "s32 \<Rightarrow> s32 \<Rightarrow> s32" where
  "Proc_7 Int_1_Par_Val Int_2_Par_Val = (let Int_Loc = Int_1_Par_Val + 2 in Int_2_Par_Val + Int_Loc)"

text \<open>Array accesses with a signed index.\<close>

definition a_get :: "'a list \<Rightarrow> s32 \<Rightarrow> 'a option" where
  "a_get xs i = (if 0 \<le> sint i then arr_get xs (nat (sint i)) else None)"

definition a_set :: "'a list \<Rightarrow> s32 \<Rightarrow> 'a \<Rightarrow> 'a list option" where
  "a_set xs i v = (if 0 \<le> sint i then arr_set xs (nat (sint i)) v else None)"

definition a2_get :: "s32 list list \<Rightarrow> s32 \<Rightarrow> s32 \<Rightarrow> s32 option" where
  "a2_get xss i j = do { r \<leftarrow> a_get xss i; a_get r j }"

definition a2_set :: "s32 list list \<Rightarrow> s32 \<Rightarrow> s32 \<Rightarrow> s32 \<Rightarrow> s32 list list option" where
  "a2_set xss i j v = do { r \<leftarrow> a_get xss i; r1 \<leftarrow> a_set r j v; a_set xss i r1 }"

text \<open>\<open>for (Int_Index = Int_Loc; Int_Index <= Int_Loc+1; ++Int_Index)\<close>\<close>

partial_function (option) fill_loop :: "s32 \<Rightarrow> s32 \<Rightarrow> s32 list list \<Rightarrow> s32 list list option" where
  "fill_loop Int_Index Int_Loc arr2 =
     (if sint Int_Index \<le> sint (Int_Loc + 1) then do {
        arr2 \<leftarrow> a2_set arr2 Int_Loc Int_Index Int_Loc;
        fill_loop (Int_Index + 1) Int_Loc arr2 }
      else Some arr2)"

definition Proc_8 :: "s32 list \<Rightarrow> s32 list list \<Rightarrow> s32 \<Rightarrow> s32 \<Rightarrow> globals \<Rightarrow> (s32 list \<times> s32 list list \<times> globals) option" where
  "Proc_8 arr1 arr2 Int_1_Par_Val Int_2_Par_Val g = do {
     let Int_Loc = Int_1_Par_Val + 5;
     arr1 \<leftarrow> a_set arr1 Int_Loc Int_2_Par_Val;
     v \<leftarrow> a_get arr1 Int_Loc;
     arr1 \<leftarrow> a_set arr1 (Int_Loc + 1) v;
     arr1 \<leftarrow> a_set arr1 (Int_Loc + 30) Int_Loc;
     arr2 \<leftarrow> fill_loop Int_Loc Int_Loc arr2;
     x \<leftarrow> a2_get arr2 Int_Loc (Int_Loc - 1);
     arr2 \<leftarrow> a2_set arr2 Int_Loc (Int_Loc - 1) (x + 1);
     v \<leftarrow> a_get arr1 Int_Loc;
     arr2 \<leftarrow> a2_set arr2 (Int_Loc + 20) Int_Loc v;
     Some (arr1, arr2, g\<lparr>Int_Glob := 5\<rparr>) }"

definition Func_1 :: "u8 \<Rightarrow> u8 \<Rightarrow> globals \<Rightarrow> s32 \<times> globals" where
  "Func_1 Ch_1_Par_Val Ch_2_Par_Val g =
     (let Ch_1_Loc = Ch_1_Par_Val; Ch_2_Loc = Ch_1_Loc in
      if Ch_2_Loc \<noteq> Ch_2_Par_Val then (Ident_1, g) else (Ident_2, g\<lparr>Ch_1_Glob := Ch_1_Loc\<rparr>))"

text \<open>The loop of \<open>Func_2\<close>; \<open>Ch_Loc\<close> is uninitialised before its first assignment.\<close>

partial_function (option) func_2_loop :: "u8 list \<Rightarrow> u8 list \<Rightarrow> s32 \<Rightarrow> u8 option \<Rightarrow> globals \<Rightarrow> (s32 \<times> u8 option \<times> globals) option" where
  "func_2_loop str1 str2 Int_Loc Ch_Loc g =
     (if sint Int_Loc \<le> 2 then do {
        a \<leftarrow> a_get str1 Int_Loc;
        b \<leftarrow> a_get str2 (Int_Loc + 1);
        (e, g) \<leftarrow> Some (Func_1 a b g);
        if e = Ident_1 then func_2_loop str1 str2 (Int_Loc + 1) (Some 0x41) g
        else func_2_loop str1 str2 Int_Loc Ch_Loc g }
      else Some (Int_Loc, Ch_Loc, g))"

definition Func_2 :: "u8 list \<Rightarrow> u8 list \<Rightarrow> globals \<Rightarrow> (bool \<times> globals) option" where
  "Func_2 str1 str2 g = do {
     (Int_Loc, ch, g) \<leftarrow> func_2_loop str1 str2 2 None g;
     Ch_Loc \<leftarrow> ch;
     let Int_Loc = (if 0x57 \<le> Ch_Loc \<and> Ch_Loc < 0x5A then 7 else Int_Loc);
     if Ch_Loc = 0x52 then Some (True, g)
     else do {
       c \<leftarrow> strcmp_pos str1 str2;
       if c then Some (True, g\<lparr>Int_Glob := Int_Loc + 7\<rparr>) else Some (False, g) } }"

section \<open>The procedures of dhry\_1.c\<close>

definition Proc_3 :: "u32 \<Rightarrow> globals \<Rightarrow> globals option" where
  "Proc_3 ref_record g = do {
     g \<leftarrow> (if Ptr_Glob g \<noteq> 0 then do {
         r \<leftarrow> fetch g (Ptr_Glob g);
         assign ref_record (\<lambda>x. x\<lparr>Ptr_Comp := Ptr_Comp r\<rparr>) g }
       else Some g);
     assign (Ptr_Glob g) (\<lambda>x. x\<lparr>Int_Comp := Proc_7 10 (Int_Glob g)\<rparr>) g }"

definition Proc_1 :: "u32 \<Rightarrow> globals \<Rightarrow> globals option" where
  "Proc_1 Ptr_Val_Par g = do {
     v \<leftarrow> fetch g Ptr_Val_Par;
     let Next_Record = Ptr_Comp v;
     r \<leftarrow> fetch g (Ptr_Glob g);
     g \<leftarrow> assign (Ptr_Comp v) (\<lambda>_. r) g;
     g \<leftarrow> assign Ptr_Val_Par (\<lambda>x. x\<lparr>Int_Comp := 5\<rparr>) g;
     v \<leftarrow> fetch g Ptr_Val_Par;
     g \<leftarrow> assign Next_Record (\<lambda>x. x\<lparr>Int_Comp := Int_Comp v\<rparr>) g;
     v \<leftarrow> fetch g Ptr_Val_Par;
     g \<leftarrow> assign Next_Record (\<lambda>x. x\<lparr>Ptr_Comp := Ptr_Comp v\<rparr>) g;
     g \<leftarrow> Proc_3 Next_Record g;
     n \<leftarrow> fetch g Next_Record;
     if Discr n = Ident_1 then do {
       g \<leftarrow> assign Next_Record (\<lambda>x. x\<lparr>Int_Comp := 6\<rparr>) g;
       v \<leftarrow> fetch g Ptr_Val_Par;
       g \<leftarrow> assign Next_Record (\<lambda>x. x\<lparr>Enum_Comp := Proc_6 (Enum_Comp v) g\<rparr>) g;
       r \<leftarrow> fetch g (Ptr_Glob g);
       g \<leftarrow> assign Next_Record (\<lambda>x. x\<lparr>Ptr_Comp := Ptr_Comp r\<rparr>) g;
       n \<leftarrow> fetch g Next_Record;
       assign Next_Record (\<lambda>x. x\<lparr>Int_Comp := Proc_7 (Int_Comp n) 10\<rparr>) g }
     else do {
       v \<leftarrow> fetch g Ptr_Val_Par;
       c \<leftarrow> fetch g (Ptr_Comp v);
       assign Ptr_Val_Par (\<lambda>_. c) g } }"

text \<open>The do-while loop of \<open>Proc_2\<close>; its condition reads \<open>Enum_Loc\<close>, which starts uninitialised.\<close>

partial_function (option) proc_2_loop :: "s32 \<Rightarrow> s32 option \<Rightarrow> s32 \<Rightarrow> globals \<Rightarrow> s32 option" where
  "proc_2_loop Int_Loc enum_loc int_ref g = do {
     let (Int_Loc, int_ref, enum_loc) =
       (if Ch_1_Glob g = 0x41 then (Int_Loc - 1, Int_Loc - 1 - Int_Glob g, Some Ident_1) else (Int_Loc, int_ref, enum_loc));
     e \<leftarrow> enum_loc;
     if e \<noteq> Ident_1 then proc_2_loop Int_Loc enum_loc int_ref g else Some int_ref }"

definition Proc_2 :: "s32 \<Rightarrow> globals \<Rightarrow> s32 option" where
  "Proc_2 int_ref g = proc_2_loop (int_ref + 10) None int_ref g"

definition Proc_4 :: "globals \<Rightarrow> globals" where
  "Proc_4 g = (let Bool_Loc = truth (Ch_1_Glob g = 0x41) in g\<lparr>Bool_Glob := Bool_Loc OR Bool_Glob g, Ch_2_Glob := 0x42\<rparr>)"

definition Proc_5 :: "globals \<Rightarrow> globals" where
  "Proc_5 g = g\<lparr>Ch_1_Glob := 0x41, Bool_Glob := 0\<rparr>"


section \<open>main\<close>

definition SOME_STRING :: string where "SOME_STRING = ''DHRYSTONE PROGRAM, SOME STRING''"
definition FIRST_STRING :: string where "FIRST_STRING = ''DHRYSTONE PROGRAM, 1'' @ [CHR 0x27] @ ''ST STRING''"
definition SECOND_STRING :: string where "SECOND_STRING = ''DHRYSTONE PROGRAM, 2'' @ [CHR 0x27] @ ''ND STRING''"
definition THIRD_STRING :: string where "THIRD_STRING = ''DHRYSTONE PROGRAM, 3'' @ [CHR 0x27] @ ''RD STRING''"

lemmas strings = SOME_STRING_def FIRST_STRING_def SECOND_STRING_def THIRD_STRING_def

definition c_div :: "s32 \<Rightarrow> s32 \<Rightarrow> s32 option" where
  "c_div a b = (if b = 0 then None else Some (word_of_int (sint a sdiv sint b)))"

partial_function (option) while_loop :: "locals \<Rightarrow> locals option" where
  "while_loop l =
     (if sint (Int_1_Loc l) < sint (Int_2_Loc l) then do {
        let l = l\<lparr>Int_3_Loc := 5 * Int_1_Loc l - Int_2_Loc l\<rparr>;
        let l = l\<lparr>Int_3_Loc := Proc_7 (Int_1_Loc l) (Int_2_Loc l)\<rparr>;
        while_loop (l\<lparr>Int_1_Loc := Int_1_Loc l + 1\<rparr>) }
      else Some l)"

partial_function (option) ch_loop :: "s32 \<Rightarrow> u8 \<Rightarrow> locals \<Rightarrow> globals \<Rightarrow> (locals \<times> globals) option" where
  "ch_loop Run_Index Ch_Index l g =
     (if Ch_Index \<le> Ch_2_Glob g then do {
        (e, g) \<leftarrow> Some (Func_1 Ch_Index 0x43 g);
        (l, g) \<leftarrow> (if Enum_Loc l = e then do {
            s \<leftarrow> str_assign (Str_2_Loc l) (cstr THIRD_STRING);
            Some (l\<lparr>Enum_Loc := Proc_6 Ident_1 g, Str_2_Loc := s, Int_2_Loc := Run_Index\<rparr>, g\<lparr>Int_Glob := Run_Index\<rparr>) }
          else Some (l, g));
        ch_loop Run_Index (Ch_Index + 1) l g }
      else Some (l, g))"

text \<open>One run through the benchmark.\<close>

definition run_body :: "s32 \<Rightarrow> locals \<Rightarrow> globals \<Rightarrow> (locals \<times> globals) option" where
  "run_body Run_Index l g = do {
     let g = Proc_4 (Proc_5 g);
     s \<leftarrow> str_assign (Str_2_Loc l) (cstr SECOND_STRING);
     let l = l\<lparr>Int_1_Loc := 2, Int_2_Loc := 3, Str_2_Loc := s, Enum_Loc := Ident_2\<rparr>;
     (b, g) \<leftarrow> Func_2 (Str_1_Loc l) (Str_2_Loc l) g;
     let g = g\<lparr>Bool_Glob := truth (\<not> b)\<rparr>;
     l \<leftarrow> while_loop l;
     (arr1, arr2, g) \<leftarrow> Proc_8 (Arr_1_Glob g) (Arr_2_Glob g) (Int_1_Loc l) (Int_3_Loc l) g;
     let g = g\<lparr>Arr_1_Glob := arr1, Arr_2_Glob := arr2\<rparr>;
     g \<leftarrow> Proc_1 (Ptr_Glob g) g;
     (l, g) \<leftarrow> ch_loop Run_Index 0x41 l g;
     let l = l\<lparr>Int_2_Loc := Int_2_Loc l * Int_1_Loc l\<rparr>;
     q \<leftarrow> c_div (Int_2_Loc l) (Int_3_Loc l);
     let l = l\<lparr>Int_1_Loc := q\<rparr>;
     let l = l\<lparr>Int_2_Loc := 7 * (Int_2_Loc l - Int_3_Loc l) - Int_1_Loc l\<rparr>;
     i \<leftarrow> Proc_2 (Int_1_Loc l) g;
     Some (l\<lparr>Int_1_Loc := i\<rparr>, g) }"

partial_function (option) run_loop :: "s32 \<Rightarrow> s32 \<Rightarrow> locals \<Rightarrow> globals \<Rightarrow> (locals \<times> globals) option" where
  "run_loop Run_Index Number_Of_Runs l g =
     (if sint Run_Index \<le> sint Number_Of_Runs then do {
        (l, g) \<leftarrow> run_body Run_Index l g;
        run_loop (Run_Index + 1) Number_Of_Runs l g }
      else Some (l, g))"

text \<open>The initializations: two records, the strings and one array element.\<close>

definition initialize :: "u32 \<Rightarrow> locals \<Rightarrow> globals \<Rightarrow> port \<Rightarrow> (locals \<times> globals \<times> port) option" where
  "initialize heap l g p = do {
     let (a, p) = malloc heap 48 p;
     let g = g\<lparr>Next_Ptr_Glob := a\<rparr>;
     let (a, p) = malloc heap 48 p;
     let g = g\<lparr>Ptr_Glob := a\<rparr>;
     g \<leftarrow> assign (Ptr_Glob g) (\<lambda>x. x\<lparr>Ptr_Comp := Next_Ptr_Glob g\<rparr>) g;
     g \<leftarrow> assign (Ptr_Glob g) (\<lambda>x. x\<lparr>Discr := Ident_1\<rparr>) g;
     g \<leftarrow> assign (Ptr_Glob g) (\<lambda>x. x\<lparr>Enum_Comp := Ident_3\<rparr>) g;
     g \<leftarrow> assign (Ptr_Glob g) (\<lambda>x. x\<lparr>Int_Comp := 40\<rparr>) g;
     r \<leftarrow> fetch g (Ptr_Glob g);
     s \<leftarrow> str_assign (Str_Comp r) (cstr SOME_STRING);
     g \<leftarrow> assign (Ptr_Glob g) (\<lambda>x. x\<lparr>Str_Comp := s\<rparr>) g;
     s \<leftarrow> str_assign (Str_1_Loc l) (cstr FIRST_STRING);
     let l = l\<lparr>Str_1_Loc := s\<rparr>;
     arr2 \<leftarrow> a2_set (Arr_2_Glob g) 8 7 10;
     Some (l, g\<lparr>Arr_2_Glob := arr2\<rparr>, p) }"

definition banner :: "s32 \<Rightarrow> (string \<times> va_value list) list" where
  "banner Number_Of_Runs =
    [(nl '''', []), (nl ''Dhrystone Benchmark, Version 2.1 (Language: C)'', []), (nl '''', []),
     (nl (''Program compiled without '' @ [CHR 0x27] @ ''register'' @ [CHR 0x27] @ '' attribute''), []), (nl '''', []),
     (nl ''Execution starts, %d runs through Dhrystone'', [VNum Number_Of_Runs])]"

text \<open>The lines of the final report: what is printed and what is expected.\<close>

definition final_report :: "locals \<Rightarrow> globals \<Rightarrow> rec_type \<Rightarrow> rec_type \<Rightarrow> s32 \<Rightarrow> s32 \<Rightarrow> (string \<times> va_value list) list" where
  "final_report l g r n a1 a2 =
    [(nl ''Execution ends'', []), (nl '''', []),
     (nl ''Final values of the variables used in the benchmark:'', []), (nl '''', []),
     (nl ''Int_Glob:            %d'', [VNum (Int_Glob g)]), (nl ''        should be:   %d'', [VNum 5]),
     (nl ''Bool_Glob:           %d'', [VNum (Bool_Glob g)]), (nl ''        should be:   %d'', [VNum 1]),
     (nl ''Ch_1_Glob:           %c'', [VNum (ucast (Ch_1_Glob g))]), (nl ''        should be:   %c'', [VNum 0x41]),
     (nl ''Ch_2_Glob:           %c'', [VNum (ucast (Ch_2_Glob g))]), (nl ''        should be:   %c'', [VNum 0x42]),
     (nl ''Arr_1_Glob[8]:       %d'', [VNum a1]), (nl ''        should be:   %d'', [VNum 7]),
     (nl ''Arr_2_Glob[8][7]:    %d'', [VNum a2]), (nl ''        should be:   Number_Of_Runs + 10'', []),
     (nl ''Ptr_Glob->'', []),
     (nl ''  Ptr_Comp:          %d'', [VNum (Ptr_Comp r)]), (nl ''        should be:   (implementation-dependent)'', []),
     (nl ''  Discr:             %d'', [VNum (Discr r)]), (nl ''        should be:   %d'', [VNum 0]),
     (nl ''  Enum_Comp:         %d'', [VNum (Enum_Comp r)]), (nl ''        should be:   %d'', [VNum 2]),
     (nl ''  Int_Comp:          %d'', [VNum (Int_Comp r)]), (nl ''        should be:   %d'', [VNum 17]),
     (nl ''  Str_Comp:          %s'', [VStr (Str_Comp r)]), (nl ''        should be:   DHRYSTONE PROGRAM, SOME STRING'', []),
     (nl ''Next_Ptr_Glob->'', []),
     (nl ''  Ptr_Comp:          %d'', [VNum (Ptr_Comp n)]), (nl ''        should be:   (implementation-dependent), same as above'', []),
     (nl ''  Discr:             %d'', [VNum (Discr n)]), (nl ''        should be:   %d'', [VNum 0]),
     (nl ''  Enum_Comp:         %d'', [VNum (Enum_Comp n)]), (nl ''        should be:   %d'', [VNum 1]),
     (nl ''  Int_Comp:          %d'', [VNum (Int_Comp n)]), (nl ''        should be:   %d'', [VNum 18]),
     (nl ''  Str_Comp:          %s'', [VStr (Str_Comp n)]), (nl ''        should be:   DHRYSTONE PROGRAM, SOME STRING'', []),
     (nl ''Int_1_Loc:           %d'', [VNum (Int_1_Loc l)]), (nl ''        should be:   %d'', [VNum 5]),
     (nl ''Int_2_Loc:           %d'', [VNum (Int_2_Loc l)]), (nl ''        should be:   %d'', [VNum 13]),
     (nl ''Int_3_Loc:           %d'', [VNum (Int_3_Loc l)]), (nl ''        should be:   %d'', [VNum 7]),
     (nl ''Enum_Loc:            %d'', [VNum (Enum_Loc l)]), (nl ''        should be:   %d'', [VNum 1]),
     (nl ''Str_1_Loc:           %s'', [VStr (Str_1_Loc l)]),
     (nl (''        should be:   '' @ FIRST_STRING), []),
     (nl ''Str_2_Loc:           %s'', [VStr (Str_2_Loc l)]),
     (nl (''        should be:   '' @ SECOND_STRING), []),
     (nl '''', [])]"

definition rate_report :: "s32 \<Rightarrow> s32 \<Rightarrow> uart \<Rightarrow> uart option" where
  "rate_report User_Time Number_Of_Runs u =
     (if sint User_Time < 2 then
        printfs [(nl ''Measured time too small to obtain meaningful results'', []),
          (nl ''Please increase number of runs'', []), (nl '''', [])] u
      else do {
        Microseconds \<leftarrow> c_div (User_Time * 1000000) Number_Of_Runs;
        Dhrystones_Per_Second \<leftarrow> c_div Number_Of_Runs User_Time;
        printfs [(''Microseconds for one run through Dhrystone: '', []), (nl ''%d '', [VNum Microseconds]),
          (''Dhrystones per Second:                      '', []), (nl ''%d '', [VNum Dhrystones_Per_Second]),
          (nl '''', [])] u })"

definition dhry_main :: "u32 \<Rightarrow> u32 \<Rightarrow> (nat \<Rightarrow> u32) \<Rightarrow> s32 \<Rightarrow> locals \<Rightarrow> globals \<Rightarrow> port \<Rightarrow> uart \<Rightarrow> (locals \<times> globals \<times> port \<times> uart) option" where
  "dhry_main heap CLK_HZ mcycle Number_Of_Runs l g p u = do {
     (l, g, p) \<leftarrow> initialize heap l g p;
     u \<leftarrow> printfs (banner Number_Of_Runs) u;
     (Begin_Time, p) \<leftarrow> time CLK_HZ mcycle p;
     (l, g) \<leftarrow> run_loop 1 Number_Of_Runs l g;
     (End_Time, p) \<leftarrow> time CLK_HZ mcycle p;
     a1 \<leftarrow> a_get (Arr_1_Glob g) 8;
     a2 \<leftarrow> a2_get (Arr_2_Glob g) 8 7;
     r \<leftarrow> fetch g (Ptr_Glob g);
     n \<leftarrow> fetch g (Next_Ptr_Glob g);
     u \<leftarrow> printfs (final_report l g r n a1 a2) u;
     u \<leftarrow> rate_report (End_Time - Begin_Time) Number_Of_Runs u;
     Some (l, g, p, u) }"

text \<open>The \<open>main\<close> of the port, around the benchmark; \<open>CYCLES_PER_ITER\<close> is defined by the build or not.\<close>

definition port_main :: "u32 \<Rightarrow> u32 \<Rightarrow> u32 option \<Rightarrow> (nat \<Rightarrow> u32) \<Rightarrow> u32 \<Rightarrow> locals \<Rightarrow> globals \<Rightarrow> uart \<Rightarrow> (locals \<times> globals \<times> port \<times> uart) option" where
  "port_main heap CLK_HZ CYCLES_PER_ITER mcycle DHRY_ITERS l g u = do {
     u \<leftarrow> printfs [(nl '''', []), (nl ''  YARV32-uC  --  RV32IMAC Zicsr Zifencei'', []),
       (nl ''  Dhrystone 2.1  --  %u runs'', [VNum DHRY_ITERS]),
       (nl ''  ------------------------------------------'', []),
       (nl ''  Core clock : %u Hz'', [VNum CLK_HZ])] u;
     u \<leftarrow> (case CYCLES_PER_ITER of None \<Rightarrow> Some u
       | Some c \<Rightarrow> do {
           expect_s \<leftarrow> (if CLK_HZ = 0 then None
             else Some (ucast ((ucast DHRY_ITERS * ucast c :: u64) div ucast CLK_HZ) :: u32));
           if expect_s \<noteq> 0 then printfs [(nl ''  Expected   : ~%u s'', [VNum expect_s])] u
           else printfs [(nl ''  Expected   : under 1 s (short run: Dhrystone wants 2 s)'', [])] u });
     u \<leftarrow> printfs [(nl '''', []), (nl ''  running...'', [])] u;
     (l, g, p, u) \<leftarrow> dhry_main heap CLK_HZ mcycle DHRY_ITERS l g
       \<lparr>heap_used = 0, t_begin_cycles = 0, t_end_cycles = 0, t_calls = 0, readings = 0\<rparr> u;
     u \<leftarrow> report_port_summary CLK_HZ DHRY_ITERS p u;
     Some (l, g, p, u) }"


section \<open>One run\<close>

lemma str_assign_full: "c_string src = Some s \<Longrightarrow> length dst = length s \<Longrightarrow> str_assign dst src = Some s"
  by (simp add: str_assign_def put_at_def)

lemma c_string_cstr: "0 \<notin> set (bytes s) \<Longrightarrow> c_string (cstr s) = Some (cstr s)"
proof -
  have "0 \<notin> set xs \<Longrightarrow> c_string (xs @ [0]) = Some (xs @ [0])" for xs by (induction xs) auto
  then show "0 \<notin> set (bytes s) \<Longrightarrow> c_string (cstr s) = Some (cstr s)" by (simp add: cstr_def)
qed

lemma string_bytes: "cstr SOME_STRING = cstr SOME_STRING" "length (cstr SOME_STRING) = 31" "length (cstr FIRST_STRING) = 31"
  "length (cstr SECOND_STRING) = 31" "0 \<notin> set (bytes SOME_STRING)" "0 \<notin> set (bytes FIRST_STRING)" "0 \<notin> set (bytes SECOND_STRING)"
  by (simp_all add: strings bytes_def cstr_def)

lemma Func_2_strings: "Func_2 (cstr FIRST_STRING) (cstr SECOND_STRING) g = Some (False, g)"
proof -
  have "cstr FIRST_STRING ! 2 = 0x52" "cstr SECOND_STRING ! 3 = 0x59"
    by (simp_all add: strings cstr_def bytes_def)
  then have "func_2_loop (cstr FIRST_STRING) (cstr SECOND_STRING) 2 None g = Some (3, Some 0x41, g)"
    by (subst func_2_loop.simps, subst func_2_loop.simps)
      (simp add: a_get_def string_bytes Func_1_def)
  moreover have "strcmp_pos (cstr FIRST_STRING) (cstr SECOND_STRING) = Some False"
    by (simp add: strings cstr_def bytes_def)
  ultimately show ?thesis by (simp add: Func_2_def)
qed

lemma while_loop_once:
  assumes "Int_1_Loc l = 2" and "Int_2_Loc l = 3"
  shows "while_loop l = Some (l\<lparr>Int_3_Loc := 7, Int_1_Loc := 3\<rparr>)"
  using assms by (subst while_loop.simps, subst while_loop.simps) (simp add: Proc_7_def)

lemma ch_loop_twice:
  assumes "Ch_2_Glob g = 0x42" and "Enum_Loc l = Ident_2"
  shows "ch_loop i 0x41 l g = Some (l, g)"
proof -
  have "ch_loop i 0x41 l g = ch_loop i 0x42 l g" using assms by (subst ch_loop.simps) (simp add: Func_1_def idents)
  also have "\<dots> = ch_loop i 0x43 l g" using assms by (subst ch_loop.simps) (simp add: Func_1_def idents)
  also have "\<dots> = Some (l, g)" using assms by (subst ch_loop.simps) simp
  finally show ?thesis .
qed

lemma Proc_2_result:
  assumes "Ch_1_Glob g = 0x41" and "Int_Glob g = 5"
  shows "Proc_2 1 g = Some 5"
  using assms unfolding Proc_2_def by (subst proc_2_loop.simps) simp

lemma c_div_9_7: "c_div 9 7 = Some 1"
  by (simp add: c_div_def signed_divide_int_def)

lemma Proc_1_result:
  assumes "Ptr_Glob g = p" and "p \<noteq> 0" and "q \<noteq> 0" and "p \<noteq> q" and "Int_Glob g = 5"
    and "store g p = \<lparr>Ptr_Comp = q, Discr = Ident_1, Enum_Comp = Ident_3, Int_Comp = i, Str_Comp = s\<rparr>"
  shows "Proc_1 p g = Some (g\<lparr>store := (store g)(p := \<lparr>Ptr_Comp = q, Discr = Ident_1, Enum_Comp = Ident_3, Int_Comp = 17, Str_Comp = s\<rparr>,
     q := \<lparr>Ptr_Comp = q, Discr = Ident_1, Enum_Comp = Ident_2, Int_Comp = 18, Str_Comp = s\<rparr>)\<rparr>)"
  using assms
  by (simp add: Proc_1_def Proc_3_def fetch_def assign_def Proc_6_def Proc_7_def Func_3_def idents fun_upd_twist)

section \<open>The arrays of Proc\_8\<close>

lemma sint_nat: "j < 2 ^ 31 \<Longrightarrow> sint (of_nat j :: s32) = int j"
  by (simp add: signed_of_nat signed_take_bit_int_eq_self)

lemma a_nat: "j < 2 ^ 31 \<Longrightarrow> a_get xs (of_nat j) = arr_get xs j" "j < 2 ^ 31 \<Longrightarrow> a_set ys (of_nat j) v = arr_set ys j v"
  by (simp_all add: a_get_def a_set_def sint_nat)

definition square :: "s32 list list \<Rightarrow> bool" where
  "square arr2 \<longleftrightarrow> length arr2 = 50 \<and> (\<forall>r \<in> set arr2. length r = 50)"

lemma square_nth: "square arr2 \<Longrightarrow> i < 50 \<Longrightarrow> length (arr2 ! i) = 50"
  by (simp add: square_def)

lemma a2_square:
  assumes "square arr2" and "i < 50" and "j < 50"
  shows "a2_get arr2 (of_nat i) (of_nat j) = Some (arr2 ! i ! j)"
    and "a2_set arr2 (of_nat i) (of_nat j) v = Some (arr2[i := (arr2 ! i)[j := v]])"
    and "square (arr2[i := (arr2 ! i)[j := v]])"
proof -
  have len: "length arr2 = 50" "length (arr2 ! i) = 50" using assms by (simp_all add: square_def)
  then show "a2_get arr2 (of_nat i) (of_nat j) = Some (arr2 ! i ! j)"
    and "a2_set arr2 (of_nat i) (of_nat j) v = Some (arr2[i := (arr2 ! i)[j := v]])"
    using assms by (simp_all add: a2_get_def a2_set_def a_nat)
  show "square (arr2[i := (arr2 ! i)[j := v]])"
    using assms len by (auto simp: square_def dest: subsetD [OF set_update_subset_insert])
qed

lemma fill_loop_result:
  assumes sq: "square arr2" and k: "k < 49"
  shows "fill_loop (of_nat k) (of_nat k) arr2 = Some (arr2[k := (arr2 ! k)[k := of_nat k, Suc k := of_nat k]])"
proof -
  have s: "of_nat k + 1 = (of_nat (Suc k) :: s32)" "of_nat (Suc k) + 1 = (of_nat (Suc (Suc k)) :: s32)" by simp_all
  have lt: "sint (of_nat k :: s32) \<le> sint (of_nat (Suc k) :: s32)" "sint (of_nat (Suc k) :: s32) \<le> sint (of_nat (Suc k) :: s32)"
    "\<not> sint (of_nat (Suc (Suc k)) :: s32) \<le> sint (of_nat (Suc k) :: s32)"
    using k by (simp_all add: sint_nat del: of_nat_Suc)
  let ?a = "arr2[k := (arr2 ! k)[k := of_nat k]]"
  have sq1: "square ?a" using a2_square(3) [OF sq] k by simp
  have set: "a2_set arr2 (of_nat k) (of_nat k) (of_nat k) = Some ?a"
    "a2_set ?a (of_nat k) (of_nat (Suc k)) (of_nat k) = Some (?a[k := (?a ! k)[Suc k := of_nat k]])"
    using a2_square(2) [OF sq, of k k] a2_square(2) [OF sq1, of k "Suc k"] k by simp_all
  have "k < length arr2" using sq k by (simp add: square_def)
  have "fill_loop (of_nat k) (of_nat k) arr2 = fill_loop (of_nat (Suc k)) (of_nat k) ?a"
    using lt set by (subst fill_loop.simps) (simp add: s del: of_nat_Suc)
  also have "\<dots> = fill_loop (of_nat (Suc (Suc k))) (of_nat k) (?a[k := (?a ! k)[Suc k := of_nat k]])"
    using lt set by (subst fill_loop.simps) (simp add: s del: of_nat_Suc)
  also have "\<dots> = Some (?a[k := (?a ! k)[Suc k := of_nat k]])"
    using lt by (subst fill_loop.simps) (simp add: s del: of_nat_Suc)
  finally show ?thesis using \<open>k < length arr2\<close> by simp
qed

lemma Proc_8_result:
  assumes "length arr1 = 50" and sq: "square arr2" and k: "1 \<le> k" "k \<le> 19" and i: "Int_1_Par_Val + 5 = of_nat k"
  shows "Proc_8 arr1 arr2 Int_1_Par_Val v g = Some (arr1[k := v, Suc k := v, k + 30 := of_nat k],
    arr2[k := (arr2 ! k)[k := of_nat k, Suc k := of_nat k, k - 1 := arr2 ! k ! (k - 1) + 1],
         k + 20 := (arr2 ! (k + 20))[k := v]], g\<lparr>Int_Glob := 5\<rparr>)"
proof -
  have n: "of_nat k + 1 = (of_nat (Suc k) :: s32)" "of_nat k + 30 = (of_nat (k + 30) :: s32)" "of_nat k + 20 = (of_nat (k + 20) :: s32)"
    "of_nat k - 1 = (of_nat (k - 1) :: s32)" using k by (simp_all add: of_nat_diff)
  define a where "a = arr2[k := (arr2 ! k)[k := of_nat k, Suc k := of_nat k]]"
  have fill: "fill_loop (of_nat k) (of_nat k) arr2 = Some a" "square a"
    using fill_loop_result [OF sq, of k] k a2_square(3) [OF a2_square(3) [OF sq, of k k "of_nat k"], of k "Suc k" "of_nat k"] sq
    by (simp_all add: a_def square_def)
  let ?b = "a[k := (a ! k)[k - 1 := a ! k ! (k - 1) + 1]]"
  have dec: "a2_get a (of_nat k) (of_nat (k - 1)) = Some (a ! k ! (k - 1))"
    "a2_set a (of_nat k) (of_nat (k - 1)) (a ! k ! (k - 1) + 1) = Some ?b" "square ?b"
    using a2_square(1,2,3) [OF fill(2), of k "k - 1"] k by simp_all
  have last: "a2_set ?b (of_nat (k + 20)) (of_nat k) v = Some (?b[k + 20 := (?b ! (k + 20))[k := v]])"
    using a2_square(2) [OF dec(3), of "k + 20" k] k by simp
  have len: "length arr2 = 50" using sq by (simp add: square_def)
  have cell: "a ! k ! (k - 1) = arr2 ! k ! (k - 1)" using k len by (simp add: a_def)
  show ?thesis
    using assms(1) k fill(1) dec(1,2) last len cell unfolding Proc_8_def Let_def i n
    by (simp add: a_nat a_def del: of_nat_Suc of_nat_add)
qed

lemma Proc_8_outside:
  assumes "length arr1 = 50" and "square arr2" and "\<not> (1 \<le> sint (Int_1_Par_Val + 5) \<and> sint (Int_1_Par_Val + 5) \<le> 19)"
  shows "Proc_8 arr1 arr2 Int_1_Par_Val v g = None"
proof -
  define L where "L = Int_1_Par_Val + 5"
  show ?thesis
  proof (cases "0 \<le> sint L \<and> sint L < 50")
    case False
    then have "a_set arr1 L v = None" using assms(1) by (auto simp: a_set_def arr_set_def)
    then show ?thesis by (simp add: Proc_8_def L_def)
  next
    case True
    define k where "k = nat (sint L)"
    have L: "L = of_nat k" using True by (simp add: k_def)
    have k: "k < 50" "k = 0 \<or> 20 \<le> k" using True assms(3) by (auto simp: k_def L_def)
    have n: "of_nat k + 1 = (of_nat (Suc k) :: s32)" "of_nat k + 30 = (of_nat (k + 30) :: s32)" by simp_all
    show ?thesis
    proof (cases "k = 0")
      case False
      then have "\<not> k + 30 < 50" using k by simp
      then show ?thesis using k assms(1) unfolding Proc_8_def Let_def L_def [symmetric] L n
        by (simp add: a_nat arr_set_def del: of_nat_Suc of_nat_add split: bind_splits)
    next
      case True
      have "a2_get x 0 (- 1) = None" for x by (simp add: a2_get_def a_get_def split: bind_splits)
      then show ?thesis using assms(1) True unfolding Proc_8_def Let_def L_def [symmetric] L n
        by (simp add: split: bind_splits)
    qed
  qed
qed


section \<open>The loop of runs\<close>

text \<open>The state between runs, after \<open>k\<close> of them.\<close>

definition ready :: "u32 \<Rightarrow> u32 \<Rightarrow> nat \<Rightarrow> locals \<Rightarrow> globals \<Rightarrow> bool" where
  "ready p q k l g \<longleftrightarrow> p \<noteq> 0 \<and> q \<noteq> 0 \<and> p \<noteq> q \<and> Ptr_Glob g = p \<and> Next_Ptr_Glob g = q
     \<and> length (Arr_1_Glob g) = 50 \<and> square (Arr_2_Glob g) \<and> Arr_2_Glob g ! 8 ! 7 = of_nat k + 10
     \<and> Str_1_Loc l = cstr FIRST_STRING \<and> length (Str_2_Loc l) = 31
     \<and> (\<exists>i. store g p = \<lparr>Ptr_Comp = q, Discr = Ident_1, Enum_Comp = Ident_3, Int_Comp = i, Str_Comp = cstr SOME_STRING\<rparr>)"

text \<open>The values the program announces for the end of a run.\<close>

definition as_announced :: "locals \<Rightarrow> globals \<Rightarrow> bool" where
  "as_announced l g \<longleftrightarrow> Int_Glob g = 5 \<and> Bool_Glob g = 1 \<and> Ch_1_Glob g = 0x41 \<and> Ch_2_Glob g = 0x42 \<and> Arr_1_Glob g ! 8 = 7
     \<and> Discr (store g (Ptr_Glob g)) = 0 \<and> Enum_Comp (store g (Ptr_Glob g)) = 2 \<and> Int_Comp (store g (Ptr_Glob g)) = 17
     \<and> Str_Comp (store g (Ptr_Glob g)) = cstr SOME_STRING
     \<and> Ptr_Comp (store g (Next_Ptr_Glob g)) = Ptr_Comp (store g (Ptr_Glob g))
     \<and> Discr (store g (Next_Ptr_Glob g)) = 0 \<and> Enum_Comp (store g (Next_Ptr_Glob g)) = 1
     \<and> Int_Comp (store g (Next_Ptr_Glob g)) = 18 \<and> Str_Comp (store g (Next_Ptr_Glob g)) = cstr SOME_STRING
     \<and> Int_1_Loc l = 5 \<and> Int_2_Loc l = 13 \<and> Int_3_Loc l = 7 \<and> Enum_Loc l = 1
     \<and> Str_1_Loc l = cstr FIRST_STRING \<and> Str_2_Loc l = cstr SECOND_STRING"

lemma run_body_result:
  assumes "ready p q k l g"
  shows "\<exists>l' g'. run_body i l g = Some (l', g') \<and> ready p q (Suc k) l' g' \<and> as_announced l' g'"
proof -
  from assms obtain i0 where r: "p \<noteq> 0" "q \<noteq> 0" "p \<noteq> q" "Ptr_Glob g = p" "Next_Ptr_Glob g = q"
    "length (Arr_1_Glob g) = 50" "square (Arr_2_Glob g)" "Arr_2_Glob g ! 8 ! 7 = of_nat k + 10"
    "Str_1_Loc l = cstr FIRST_STRING" "length (Str_2_Loc l) = 31"
    "store g p = \<lparr>Ptr_Comp = q, Discr = Ident_1, Enum_Comp = Ident_3, Int_Comp = i0, Str_Comp = cstr SOME_STRING\<rparr>"
    unfolding ready_def by blast
  have s: "str_assign (Str_2_Loc l) (cstr SECOND_STRING) = Some (cstr SECOND_STRING)"
    using str_assign_full [OF c_string_cstr] string_bytes r(10) by simp
  define arr1 where "arr1 = (Arr_1_Glob g)[8 := 7, 9 := 7, 38 := 8 :: s32]"
  define arr2 where "arr2 = (Arr_2_Glob g)[8 := (Arr_2_Glob g ! 8)[8 := 8, 9 := 8, 7 := of_nat k + 11], 28 := (Arr_2_Glob g ! 28)[8 := 7 :: s32]]"
  have eight: "Proc_8 (Arr_1_Glob g) (Arr_2_Glob g) 3 7 g' = Some (arr1, arr2, g'\<lparr>Int_Glob := 5\<rparr>)" for g'
    using Proc_8_result [OF r(6,7), of 8 3 7 g'] r(8) by (simp add: arr1_def arr2_def add.commute)
  have arrs: "length arr1 = 50" "square arr2" "arr1 ! 8 = 7" "arr2 ! 8 ! 7 = of_nat (Suc k) + 10"
    using r(6,7) square_nth [OF r(7), of 8] square_nth [OF r(7), of 28]
    by (auto simp: arr1_def arr2_def square_def dest!: subsetD [OF set_update_subset_insert])
  let ?g1 = "(Proc_4 (Proc_5 g))\<lparr>Bool_Glob := 1, Int_Glob := 5, Arr_1_Glob := arr1, Arr_2_Glob := arr2\<rparr>"
  let ?n = "\<lparr>Ptr_Comp = q, Discr = Ident_1, Enum_Comp = Ident_3, Int_Comp = 17, Str_Comp = cstr SOME_STRING\<rparr>"
  let ?g2 = "?g1\<lparr>store := (store g)(p := ?n, q := ?n\<lparr>Enum_Comp := Ident_2, Int_Comp := 18\<rparr>)\<rparr>"
  let ?l = "l\<lparr>Int_1_Loc := 3, Int_2_Loc := 3, Int_3_Loc := 7, Enum_Loc := Ident_2, Str_2_Loc := cstr SECOND_STRING\<rparr>"
  have one: "Proc_1 p ?g1 = Some ?g2"
    using Proc_1_result [of ?g1 p q i0 "cstr SOME_STRING"] r by (simp add: Proc_4_def Proc_5_def)
  have ch: "ch_loop i 0x41 ?l ?g2 = Some (?l, ?g2)"
    by (rule ch_loop_twice) (simp_all add: Proc_4_def)
  have two: "Proc_2 1 ?g2 = Some 5" by (rule Proc_2_result) (simp_all add: Proc_4_def Proc_5_def)
  have body: "run_body i l g = Some (?l\<lparr>Int_1_Loc := 5, Int_2_Loc := 13\<rparr>, ?g2)"
  proof -
    have w: "while_loop (l\<lparr>Int_1_Loc := 2, Int_2_Loc := 3, Str_2_Loc := cstr SECOND_STRING, Enum_Loc := Ident_2\<rparr>) = Some ?l"
      by (subst while_loop_once) simp_all
    show ?thesis
      using s r(4,9) eight one ch two c_div_9_7 unfolding run_body_def Let_def
      by (simp add: Func_2_strings w Proc_4_def Proc_5_def truth_def)
  qed
  have "ready p q (Suc k) (?l\<lparr>Int_1_Loc := 5, Int_2_Loc := 13\<rparr>) ?g2"
    using r arrs string_bytes by (simp add: ready_def Proc_4_def Proc_5_def)
  moreover have "as_announced (?l\<lparr>Int_1_Loc := 5, Int_2_Loc := 13\<rparr>) ?g2"
    using r arrs by (simp add: as_announced_def Proc_4_def Proc_5_def idents)
  ultimately show ?thesis using body by blast
qed

lemma run_loop_result:
  assumes "unat n < 2 ^ 31 - 1"
  shows "ready p q k l g \<Longrightarrow> k < unat n \<Longrightarrow>
    \<exists>l' g'. run_loop (of_nat (Suc k)) n l g = Some (l', g') \<and> ready p q (unat n) l' g' \<and> as_announced l' g'"
proof (induction "unat n - k" arbitrary: k l g)
  case (Suc d)
  from run_body_result [OF Suc.prems(1), of "of_nat (Suc k)"] obtain l1 g1 where
    1: "run_body (of_nat (Suc k)) l g = Some (l1, g1)" "ready p q (Suc k) l1 g1" "as_announced l1 g1" by blast
  have n: "sint n = int (unat n)" using sint_nat [of "unat n"] assms by simp
  have "int (Suc k) \<le> int (unat n)" using Suc.prems(2) by (simp only: of_nat_le_iff Suc_le_eq)
  then have le: "int (Suc k) \<le> uint n" by simp
  have go: "run_loop (of_nat (Suc k)) n l g = run_loop (of_nat (Suc (Suc k))) n l1 g1"
    using Suc.prems(2) assms 1(1) le by (subst run_loop.simps) (simp add: n sint_nat add.commute [of _ 1] del: of_nat_Suc flip: of_nat_Suc)
  show ?case
  proof (cases "Suc k < unat n")
    case True
    then show ?thesis using Suc.hyps(1) [OF _ 1(2)] Suc.hyps(2) unfolding go by simp
  next
    case False
    then have k: "unat n = Suc k" using Suc.prems(2) by simp
    have "run_loop (of_nat (Suc (Suc k))) n l1 g1 = Some (l1, g1)"
      using k assms by (subst run_loop.simps) (simp add: n sint_nat del: of_nat_Suc)
    then show ?thesis using 1 k unfolding go by simp
  qed
qed simp


section \<open>The whole program\<close>

definition fresh_port :: "port \<Rightarrow> bool" where
  "fresh_port p \<longleftrightarrow> heap_used p = 0 \<and> t_calls p = 0"

text \<open>The sizes of the objects that the program declares.\<close>

definition sized :: "locals \<Rightarrow> globals \<Rightarrow> bool" where
  "sized l g \<longleftrightarrow> length (Str_1_Loc l) = 31 \<and> length (Str_2_Loc l) = 31 \<and> length (Arr_1_Glob g) = 50 \<and> square (Arr_2_Glob g)
     \<and> (\<forall>a. length (Str_Comp (store g a)) = 31)"

lemma rec_type_full:
  "x\<lparr>Ptr_Comp := a, Discr := b, Enum_Comp := c, Int_Comp := d, Str_Comp := e\<rparr>
    = \<lparr>Ptr_Comp = a, Discr = b, Enum_Comp = c, Int_Comp = d, Str_Comp = e\<rparr>" for x :: rec_type
  by (cases x) simp

lemma initialize_result:
  assumes "sized l g" and "heap_used p = 0" and "heap \<noteq> 0" and "heap + 48 \<noteq> 0"
  shows "\<exists>l' g'. initialize heap l g p = Some (l', g', p\<lparr>heap_used := 96\<rparr>) \<and> ready (heap + 48) heap 0 l' g'"
proof -
  have al: "(0x33 :: u32) AND 0xFFFFFFFC = 0x30" by simp
  have str: "str_assign dst (cstr SOME_STRING) = Some (cstr SOME_STRING)" "str_assign dst (cstr FIRST_STRING) = Some (cstr FIRST_STRING)"
    if "length dst = 31" for dst
    using str_assign_full [OF c_string_cstr, of _ dst] string_bytes that by simp_all
  have arr: "a2_set (Arr_2_Glob g) 8 7 10 = Some ((Arr_2_Glob g)[8 := (Arr_2_Glob g ! 8)[7 := 10]])"
    "square ((Arr_2_Glob g)[8 := (Arr_2_Glob g ! 8)[7 := 10]])" "length (Arr_2_Glob g) = 50" "length (Arr_2_Glob g ! 8) = 50"
    using a2_square(2,3) [of "Arr_2_Glob g" 8 7 10] assms(1) by (simp_all add: sized_def square_def)
  show ?thesis
    using assms str arr unfolding initialize_def
    by (simp add: malloc_def HEAP_BYTES_def al fetch_def assign_def sized_def ready_def Let_def rec_type_full)
qed

lemma dhry_main_result:
  assumes "sized l g" and "fresh_port p" and "heap \<noteq> 0" and "heap + 48 \<noteq> 0" and "CLK_HZ \<noteq> 0"
    and "0 < unat n" and "unat n < 2 ^ 31 - 1"
  shows "\<exists>l2 g2 p2. as_announced l2 g2 \<and> Arr_2_Glob g2 ! 8 ! 7 = n + 10
    \<and> Ptr_Glob g2 = heap + 48 \<and> Next_Ptr_Glob g2 = heap
    \<and> t_begin_cycles p2 = mcycle (readings p) \<and> t_end_cycles p2 = mcycle (readings p + 1)
    \<and> (\<forall>u. dhry_main heap CLK_HZ mcycle n l g p u = do {
         u \<leftarrow> printfs (banner n) u;
         u \<leftarrow> printfs (final_report l2 g2 (store g2 (heap + 48)) (store g2 heap) 7 (n + 10)) u;
         u \<leftarrow> rate_report (mcycle (readings p + 1) div CLK_HZ - mcycle (readings p) div CLK_HZ) n u;
         Some (l2, g2, p2, u) })"
proof -
  have p0: "heap_used p = 0" "t_calls p = 0" using assms(2) by (simp_all add: fresh_port_def)
  from initialize_result [OF assms(1) p0(1) assms(3,4)] obtain l1 g1 where
    1: "initialize heap l g p = Some (l1, g1, p\<lparr>heap_used := 96\<rparr>)" "ready (heap + 48) heap 0 l1 g1" by blast
  from run_loop_result [OF assms(7) 1(2) assms(6)] obtain l2 g2 where
    2: "run_loop 1 n l1 g1 = Some (l2, g2)" "ready (heap + 48) heap (unat n) l2 g2" "as_announced l2 g2" by auto
  have r: "length (Arr_1_Glob g2) = 50" "square (Arr_2_Glob g2)" "Arr_2_Glob g2 ! 8 ! 7 = n + 10"
    "Ptr_Glob g2 = heap + 48" "Next_Ptr_Glob g2 = heap" using 2(2) by (simp_all add: ready_def)
  have a1: "a_get (Arr_1_Glob g2) 8 = Some 7" using a_nat(1) [of 8 "Arr_1_Glob g2"] r(1) 2(3) by (simp add: as_announced_def)
  have a2: "a2_get (Arr_2_Glob g2) 8 7 = Some (n + 10)" using a2_square(1) [OF r(2), of 8 7] r(3) by simp
  show ?thesis
    apply (rule exI [of _ l2], rule exI [of _ g2])
    apply (rule exI [of _ "p\<lparr>heap_used := 96, t_begin_cycles := mcycle (readings p), readings := Suc (Suc (readings p)), t_calls := 2, t_end_cycles := mcycle (Suc (readings p))\<rparr>"])
    using 1(1) 2(1,3) r(3-5) a1 a2 p0(2) assms(3-5)
    by (simp add: dhry_main_def time_def rdcycle_def Let_def c_udiv_def fetch_def)
qed


section \<open>The string routine of the port\<close>

lemma c_string_take:
  "c_string xs = Some s \<Longrightarrow> \<exists>k<length xs. s = take (Suc k) xs \<and> xs ! k = 0 \<and> (\<forall>i<k. xs ! i \<noteq> 0)"
proof (induction xs arbitrary: s)
  case (Cons x xs)
  show ?case
  proof (cases "x = 0")
    case True
    then show ?thesis using Cons.prems by (intro exI [of _ 0]) simp
  next
    case False
    then obtain t where t: "c_string xs = Some t" "s = x # t" using Cons.prems by auto
    from Cons.IH [OF t(1)] obtain k where "k < length xs" "t = take (Suc k) xs" "xs ! k = 0" "\<forall>i<k. xs ! i \<noteq> 0" by blast
    then show ?thesis using False t(2) by (intro exI [of _ "Suc k"]) (auto simp: nth_Cons split: nat.splits)
  qed
qed simp

lemma apart_shorter: "apart d s n \<Longrightarrow> k \<le> n \<Longrightarrow> apart d s k"
  by (auto simp: apart_def)

section \<open>Properties\<close>

text \<open>C21: For every positive number of runs below the largest \<open>int\<close>, the benchmark returns as soon as
  the console has taken its output, and every variable it reports has the value that the report
  announces next to it: \<open>Arr_2_Glob[8][7]\<close> is the number of runs plus 10, all the others are the
  same after any number of runs. The clock is read just before the first run and just after the
  last.\<close>

theorem dhry_main_as_announced:
  assumes "sized l g" and "fresh_port p" and "heap \<noteq> 0" and "heap + 48 \<noteq> 0" and "CLK_HZ \<noteq> 0"
    and "0 < unat n" and "unat n < 2 ^ 31 - 1"
  shows "\<exists>l2 g2 p2. as_announced l2 g2 \<and> Arr_2_Glob g2 ! 8 ! 7 = n + 10
    \<and> Ptr_Glob g2 = heap + 48 \<and> Next_Ptr_Glob g2 = heap
    \<and> t_begin_cycles p2 = mcycle (readings p) \<and> t_end_cycles p2 = mcycle (readings p + 1)
    \<and> (\<forall>u. dhry_main heap CLK_HZ mcycle n l g p u = do {
         u \<leftarrow> printfs (banner n) u;
         u \<leftarrow> printfs (final_report l2 g2 (store g2 (heap + 48)) (store g2 heap) 7 (n + 10)) u;
         u \<leftarrow> rate_report (mcycle (readings p + 1) div CLK_HZ - mcycle (readings p) div CLK_HZ) n u;
         Some (l2, g2, p2, u) })"
  by (rule dhry_main_result [OF assms])

lemma dhry_main_as_announced_witness:
  "\<exists>l2 g2 p2. as_announced l2 g2 \<and> Arr_2_Glob g2 ! 8 ! 7 = 2010
    \<and> t_begin_cycles p2 = 1000 \<and> t_end_cycles p2 = 1373000
    \<and> dhry_main 0x2000 50000000 (\<lambda>k. if k = 0 then 1000 else 1373000) 2000
        \<lparr>Int_1_Loc = 0, Int_2_Loc = 0, Int_3_Loc = 0, Enum_Loc = 0, Str_1_Loc = replicate 31 0, Str_2_Loc = replicate 31 0\<rparr>
        \<lparr>Ptr_Glob = 0, Next_Ptr_Glob = 0, Int_Glob = 0, Bool_Glob = 0, Ch_1_Glob = 0, Ch_2_Glob = 0,
          Arr_1_Glob = replicate 50 0, Arr_2_Glob = replicate 50 (replicate 50 0),
          store = (\<lambda>_. \<lparr>Ptr_Comp = 0, Discr = 0, Enum_Comp = 0, Int_Comp = 0, Str_Comp = replicate 31 0\<rparr>)\<rparr>
        \<lparr>heap_used = 0, t_begin_cycles = 0, t_end_cycles = 0, t_calls = 0, readings = 0\<rparr> idle_uart
      = do {
         u \<leftarrow> printfs (banner 2000) idle_uart;
         u \<leftarrow> printfs (final_report l2 g2 (store g2 0x2030) (store g2 0x2000) 7 2010) u;
         u \<leftarrow> rate_report 0 2000 u;
         Some (l2, g2, p2, u) }"
proof -
  let ?l = "\<lparr>Int_1_Loc = 0, Int_2_Loc = 0, Int_3_Loc = 0, Enum_Loc = 0, Str_1_Loc = replicate 31 0, Str_2_Loc = replicate 31 0\<rparr>"
  let ?g = "\<lparr>Ptr_Glob = 0, Next_Ptr_Glob = 0, Int_Glob = 0, Bool_Glob = 0, Ch_1_Glob = 0, Ch_2_Glob = 0,
    Arr_1_Glob = replicate 50 0, Arr_2_Glob = replicate 50 (replicate 50 0),
    store = (\<lambda>_. \<lparr>Ptr_Comp = 0, Discr = 0, Enum_Comp = 0, Int_Comp = 0, Str_Comp = replicate 31 0\<rparr>)\<rparr>"
  let ?p = "\<lparr>heap_used = 0, t_begin_cycles = 0, t_end_cycles = 0, t_calls = 0, readings = 0\<rparr>"
  have "sized ?l ?g" "fresh_port ?p" by (simp_all add: sized_def square_def fresh_port_def)
  from dhry_main_as_announced [OF this, of "0x2000" 50000000 2000 "\<lambda>k. if k = 0 then 1000 else 1373000"]
  show ?thesis by fastforce
qed

text \<open>\<open>Proc_8\<close> stays inside its two arrays exactly when its third argument is between -4 and 14; the
  benchmark calls it with 3.\<close>

theorem Proc_8_in_bounds:
  assumes "length arr1 = 50" and "square arr2"
  shows "Proc_8 arr1 arr2 i v g \<noteq> None \<longleftrightarrow> 1 \<le> sint (i + 5) \<and> sint (i + 5) \<le> 19"
proof (cases "1 \<le> sint (i + 5) \<and> sint (i + 5) \<le> 19")
  case True
  then have "1 \<le> nat (sint (i + 5))" "nat (sint (i + 5)) \<le> 19" "i + 5 = of_nat (nat (sint (i + 5)))" by (simp_all, linarith+)
  from Proc_8_result [OF assms this] True show ?thesis by blast
next
  case False
  then show ?thesis using Proc_8_outside [OF assms] by simp
qed

lemma Proc_8_in_bounds_witness:
  "Proc_8 (replicate 50 0) (replicate 50 (replicate 50 0)) 14 7
     \<lparr>Ptr_Glob = 0, Next_Ptr_Glob = 0, Int_Glob = 0, Bool_Glob = 0, Ch_1_Glob = 0, Ch_2_Glob = 0, Arr_1_Glob = [], Arr_2_Glob = [],
       store = (\<lambda>_. \<lparr>Ptr_Comp = 0, Discr = 0, Enum_Comp = 0, Int_Comp = 0, Str_Comp = []\<rparr>)\<rparr> \<noteq> None"
  by (subst Proc_8_in_bounds) (simp_all add: square_def)

text \<open>C22: The word-at-a-time \<open>strcpy\<close> of the port implements the string assignment that the benchmark
  is verified against: on two arrays of the same size that do not overlap it returns whenever the
  assignment is defined, leaves its result in the destination array and changes nothing else.\<close>

theorem strcpy_refines_str_assign:
  assumes "str_assign (array_at m d n) (array_at m s n) = Some r" and "apart d s n"
  shows "\<exists>m'. strcpy m d s = Some (d, m') \<and> array_at m' d n = r \<and> (\<forall>a. n \<le> unat (a - d) \<longrightarrow> m' a = m a)"
proof -
  from assms(1) obtain t where t: "c_string (array_at m s n) = Some t" "r = put_at (array_at m d n) 0 t"
    by (auto simp: str_assign_def bind_eq_Some_conv split: if_splits)
  from c_string_take [OF t(1)] obtain k where k: "k < n" "t = take (Suc k) (array_at m s n)"
    "array_at m s n ! k = 0" "\<forall>i<k. array_at m s n ! i \<noteq> 0" by (auto simp: array_at_def)
  then have str: "string_at m s k" by (simp add: string_at_def array_at_def)
  have "strcpy m d s = Some (d, copied m d s (Suc k))"
    using k(1) by (intro strcpy_copied [OF apart_shorter [OF assms(2)] str]) simp
  moreover have "array_at (copied m d s (Suc k)) d n = r"
    using array_at_copied [OF assms(2), of "Suc k" m] k(1,2) t(2) by (simp add: put_at_def array_at_def)
  ultimately show ?thesis using k(1) by (auto simp: copied_def)
qed

lemma strcpy_refines_str_assign_witness:
  "\<exists>m'. strcpy (\<lambda>a. if a = 0x101 then 0 else 9) 0x200 0x100 = Some (0x200, m') \<and> array_at m' 0x200 3 = [9, 0, 9]"
proof -
  have "[0..<3] = [0, 1, 2 :: nat]" by (simp add: upt_rec)
  then have a: "array_at (\<lambda>a. if a = 0x101 then 0 else 9) 0x200 3 = [9, 9, 9]"
    "array_at (\<lambda>a. if a = 0x101 then 0 else 9) 0x100 3 = [9, 0, 9]" by (simp_all add: array_at_def)
  have "str_assign [9, 9, 9] [9, 0, 9] = Some [9, 0, 9]" by (simp add: str_assign_def put_at_def)
  moreover have "apart 0x200 0x100 3" by (simp add: apart_def)
  ultimately show ?thesis
    using strcpy_refines_str_assign [of "\<lambda>a. if a = 0x101 then 0 else 9" "0x200" 3 "0x100"] unfolding a by blast
qed

end
