(* ===== verification/Isa_Probe.thy ===== *)
theory Isa_Probe
  imports Dhry_Port
begin

text \<open>
  The instruction probe \<open>sim/sw/isa/isa_probe/isa_probe.c\<close>. The instructions it tests are parameters: a
  record with a function for each of them, so that the model says what the program prints on a core that
  executes some of them wrongly. The additions, comparisons and loops it does not test are the usual ones.
  Every access to a table or word is taken to be the load or store the source writes.
\<close>

section \<open>The core under test and the image\<close>

text \<open>\<open>c_insn enc x\<close> is register a5 after the compressed instruction \<open>enc\<close>, with \<open>x\<close> in it before.\<close>

record core =
  c_insn :: "u16 \<Rightarrow> u32 \<Rightarrow> u32"
  andi :: "u32 \<Rightarrow> u32 \<Rightarrow> u32"
  srl_r :: "u32 \<Rightarrow> nat \<Rightarrow> u32"
  srli :: "u32 \<Rightarrow> nat \<Rightarrow> u32"
  slli :: "u32 \<Rightarrow> nat \<Rightarrow> u32"
  and_r :: "u32 \<Rightarrow> u32 \<Rightarrow> u32"
  or_r :: "u32 \<Rightarrow> u32 \<Rightarrow> u32"
  lw :: "mem \<Rightarrow> u32 \<Rightarrow> u32"
  lbu_i :: "mem \<Rightarrow> u32 \<Rightarrow> nat \<Rightarrow> u32"
  lbu_r :: "mem \<Rightarrow> u32 \<Rightarrow> u32"
  lhu_i :: "mem \<Rightarrow> u32 \<Rightarrow> nat \<Rightarrow> u32"
  sb_i :: "mem \<Rightarrow> u32 \<Rightarrow> nat \<Rightarrow> u8 \<Rightarrow> mem"

text \<open>Where the tables and words are; \<open>hex_lit\<close> is the literal that \<open>ro_tab\<close> is compared with.\<close>

record probe_image =
  lanes :: u32
  ro_tab :: u32
  rw_tab :: u32
  hex_lit :: u32
  ro_word :: u32
  rw_word :: u32

section \<open>Reporting\<close>

primrec bin_loop :: "core \<Rightarrow> nat \<Rightarrow> u32 \<Rightarrow> u32 \<Rightarrow> uart \<Rightarrow> uart option" where
  "bin_loop c 0 v m u = Some u"
| "bin_loop c (Suc n) v m u = do {
     u \<leftarrow> uart_putc (if and_r c v m \<noteq> 0 then 0x31 else 0x30) u;
     bin_loop c n v (m + m) u }"

definition put_bin32_lsb :: "core \<Rightarrow> u32 \<Rightarrow> uart \<Rightarrow> uart option" where
  "put_bin32_lsb c v u = bin_loop c 32 v 1 u"

definition report :: "core \<Rightarrow> string \<Rightarrow> u32 \<Rightarrow> u32 \<Rightarrow> uart \<Rightarrow> uart option" where
  "report c name got want u = do {
     u \<leftarrow> uart_puts (cstr name) u;
     if got = want then uart_puts (cstr ('' OK'' @ CRLF)) u
     else do {
       u \<leftarrow> uart_puts (cstr '' BAD got='') u;
       u \<leftarrow> put_bin32_lsb c got u;
       u \<leftarrow> uart_puts (cstr '' want='') u;
       u \<leftarrow> put_bin32_lsb c want u;
       uart_puts (cstr CRLF) u } }"

section \<open>main\<close>

definition C_ANDI :: "core \<Rightarrow> u16 \<Rightarrow> u32" where
  "C_ANDI c enc = c_insn c enc 0xFFFFFFFF"

definition probe_andi :: "core \<Rightarrow> uart \<Rightarrow> uart option" where
  "probe_andi c u = do {
     u \<leftarrow> report c ''c.andi15'' (C_ANDI c 0x8BBD) 15 u;
     u \<leftarrow> report c ''c.andi7 '' (C_ANDI c 0x8B9D) 7 u;
     u \<leftarrow> report c ''c.andi3 '' (C_ANDI c 0x8B8D) 3 u;
     u \<leftarrow> report c ''c.andi1 '' (C_ANDI c 0x8B85) 1 u;
     u \<leftarrow> report c ''andi15  '' (andi c 0xFFFFFFFF 15) 15 u;
     report c ''andi3   '' (andi c 0xFFFFFFFF 3) 3 u }"

definition probe_shifts :: "core \<Rightarrow> uart \<Rightarrow> uart option" where
  "probe_shifts c u = do {
     let v = 0xFFFFFFFF;
     u \<leftarrow> report c ''srl8    '' (srl_r c v 8) 0x00FFFFFF u;
     u \<leftarrow> report c ''srl1    '' (srl_r c v 1) 0x7FFFFFFF u;
     u \<leftarrow> report c ''srli4   '' (srli c v 4) 0x0FFFFFFF u;
     u \<leftarrow> report c ''srli1   '' (srli c v 1) 0x7FFFFFFF u;
     report c ''slli1   '' (slli c v 1) 0xFFFFFFFE u }"

definition probe_logic :: "core \<Rightarrow> uart \<Rightarrow> uart option" where
  "probe_logic c u = do {
     let a = 0xF0F0F0F0;
     let b = 0x3333CCCC;
     u \<leftarrow> report c ''and.rr  '' (and_r c a b) 0x3030C0C0 u;
     report c ''or.rr   '' (or_r c a b) 0xF3F3FCFC u }"

definition double8 :: "u32 \<Rightarrow> u32" where
  "double8 got = ((\<lambda>g. g + g) ^^ 8) got"

definition lanes_word :: "core \<Rightarrow> probe_image \<Rightarrow> mem \<Rightarrow> u32" where
  "lanes_word c im m = fold (\<lambda>i got. double8 got + lbu_r c m (lanes im + of_nat i)) [3, 2, 1, 0] 0"

definition probe_lanes :: "core \<Rightarrow> probe_image \<Rightarrow> mem \<Rightarrow> uart \<Rightarrow> uart option" where
  "probe_lanes c im m u = report c ''lbu.lane'' (lanes_word c im m) 0x44332211 u"

definition probe_tables :: "core \<Rightarrow> probe_image \<Rightarrow> mem \<Rightarrow> uart \<Rightarrow> uart option" where
  "probe_tables c im m u = do {
     u \<leftarrow> uart_puts (cstr ''rodata  '') u;
     u \<leftarrow> each (\<lambda>i. uart_putc (if lbu_r c m (ro_tab im + of_nat i) = lbu_r c m (hex_lit im + of_nat i) then 0x2E else 0x58)) [0..<16] u;
     u \<leftarrow> uart_puts (cstr CRLF) u;
     u \<leftarrow> uart_puts (cstr ''rodata2 '') u;
     u \<leftarrow> each (\<lambda>i. uart_putc (ucast (lbu_r c m (ro_tab im + of_nat i)))) [0..<16] u;
     u \<leftarrow> uart_puts (cstr CRLF) u;
     u \<leftarrow> uart_puts (cstr ''data    '') u;
     u \<leftarrow> each (\<lambda>i. uart_putc (ucast (lbu_r c m (rw_tab im + of_nat i)))) [0..<16] u;
     uart_puts (cstr CRLF) u }"

definition store_lanes :: "core \<Rightarrow> probe_image \<Rightarrow> mem \<Rightarrow> mem" where
  "store_lanes c im m = fold (\<lambda>(k, v) m. sb_i c m (rw_word im) k v) [(0, 0xAA), (1, 0xBB), (2, 0xCC), (3, 0xDD)] m"

definition probe_ro_word :: "core \<Rightarrow> probe_image \<Rightarrow> mem \<Rightarrow> uart \<Rightarrow> uart option" where
  "probe_ro_word c im m u = do {
     let rb = ro_word im;
     u \<leftarrow> report c ''lw      '' (lw c m rb) 0x44332211 u;
     u \<leftarrow> report c ''lbu.i0  '' (lbu_i c m rb 0) 0x11 u;
     u \<leftarrow> report c ''lbu.i1  '' (lbu_i c m rb 1) 0x22 u;
     u \<leftarrow> report c ''lbu.i2  '' (lbu_i c m rb 2) 0x33 u;
     u \<leftarrow> report c ''lbu.i3  '' (lbu_i c m rb 3) 0x44 u;
     u \<leftarrow> report c ''lbu.r0  '' (lbu_r c m (rb + 0)) 0x11 u;
     u \<leftarrow> report c ''lbu.r1  '' (lbu_r c m (rb + 1)) 0x22 u;
     u \<leftarrow> report c ''lbu.r2  '' (lbu_r c m (rb + 2)) 0x33 u;
     u \<leftarrow> report c ''lbu.r3  '' (lbu_r c m (rb + 3)) 0x44 u;
     u \<leftarrow> report c ''lhu.i0  '' (lhu_i c m rb 0) 0x2211 u;
     report c ''lhu.i2  '' (lhu_i c m rb 2) 0x4433 u }"

definition probe_rw_word :: "core \<Rightarrow> probe_image \<Rightarrow> mem \<Rightarrow> uart \<Rightarrow> uart option" where
  "probe_rw_word c im m u = do {
     let wb = rw_word im;
     u \<leftarrow> report c ''Dlw     '' (lw c m wb) 0x44332211 u;
     u \<leftarrow> report c ''Dlbu.i1 '' (lbu_i c m wb 1) 0x22 u;
     u \<leftarrow> report c ''Dlbu.i3 '' (lbu_i c m wb 3) 0x44 u;
     u \<leftarrow> report c ''Dlbu.r1 '' (lbu_r c m (wb + 1)) 0x22 u;
     u \<leftarrow> report c ''Dlbu.r3 '' (lbu_r c m (wb + 3)) 0x44 u;
     let m = store_lanes c im m;
     u \<leftarrow> report c ''sb.word '' (lw c m wb) 0xDDCCBBAA u;
     report c ''sb.r2   '' (lbu_r c m (wb + 2)) 0xCC u }"

definition probe_words :: "core \<Rightarrow> probe_image \<Rightarrow> mem \<Rightarrow> uart \<Rightarrow> uart option" where
  "probe_words c im m u = do {
     u \<leftarrow> uart_puts (cstr (''-- .rodata word --'' @ CRLF)) u;
     u \<leftarrow> probe_ro_word c im m u;
     u \<leftarrow> uart_puts (cstr (''-- .data word --'' @ CRLF)) u;
     probe_rw_word c im m u }"

text \<open>\<open>main\<close> up to its final loop.\<close>

definition probe_main :: "core \<Rightarrow> probe_image \<Rightarrow> mem \<Rightarrow> uart \<Rightarrow> uart option" where
  "probe_main c im m u = do {
     u \<leftarrow> uart_puts (cstr (CRLF @ ''ISA PROBE'' @ CRLF)) u;
     u \<leftarrow> probe_andi c u;
     u \<leftarrow> probe_shifts c u;
     u \<leftarrow> probe_logic c u;
     u \<leftarrow> probe_lanes c im m u;
     u \<leftarrow> probe_tables c im m u;
     u \<leftarrow> probe_words c im m u;
     uart_puts (cstr (''PROBE END'' @ CRLF)) u }"

section \<open>What is printed\<close>

text \<open>The output as one list of bytes.\<close>

definition bin_text :: "core \<Rightarrow> u32 \<Rightarrow> u8 list" where
  "bin_text c v = map (\<lambda>i. if and_r c v (2 ^ i) \<noteq> 0 then 0x31 else 0x30) [0..<32]"

definition line :: "core \<Rightarrow> string \<times> u32 \<times> u32 \<Rightarrow> u8 list" where
  "line c = (\<lambda>(name, got, want). bytes name @
     (if got = want then bytes ('' OK'' @ CRLF)
      else bytes '' BAD got='' @ bin_text c got @ bytes '' want='' @ bin_text c want @ bytes CRLF))"

definition checks_andi :: "core \<Rightarrow> (string \<times> u32 \<times> u32) list" where
  "checks_andi c =
     [(''c.andi15'', C_ANDI c 0x8BBD, 15), (''c.andi7 '', C_ANDI c 0x8B9D, 7), (''c.andi3 '', C_ANDI c 0x8B8D, 3),
      (''c.andi1 '', C_ANDI c 0x8B85, 1), (''andi15  '', andi c 0xFFFFFFFF 15, 15), (''andi3   '', andi c 0xFFFFFFFF 3, 3)]"

definition checks_shifts :: "core \<Rightarrow> (string \<times> u32 \<times> u32) list" where
  "checks_shifts c =
     [(''srl8    '', srl_r c 0xFFFFFFFF 8, 0x00FFFFFF), (''srl1    '', srl_r c 0xFFFFFFFF 1, 0x7FFFFFFF),
      (''srli4   '', srli c 0xFFFFFFFF 4, 0x0FFFFFFF), (''srli1   '', srli c 0xFFFFFFFF 1, 0x7FFFFFFF),
      (''slli1   '', slli c 0xFFFFFFFF 1, 0xFFFFFFFE)]"

definition checks_logic :: "core \<Rightarrow> (string \<times> u32 \<times> u32) list" where
  "checks_logic c =
     [(''and.rr  '', and_r c 0xF0F0F0F0 0x3333CCCC, 0x3030C0C0), (''or.rr   '', or_r c 0xF0F0F0F0 0x3333CCCC, 0xF3F3FCFC)]"

definition checks1 :: "core \<Rightarrow> probe_image \<Rightarrow> mem \<Rightarrow> (string \<times> u32 \<times> u32) list" where
  "checks1 c im m = checks_andi c @ checks_shifts c @ checks_logic c @ [(''lbu.lane'', lanes_word c im m, 0x44332211)]"

definition checks2 :: "core \<Rightarrow> probe_image \<Rightarrow> mem \<Rightarrow> (string \<times> u32 \<times> u32) list" where
  "checks2 c im m = (let rb = ro_word im in
     [(''lw      '', lw c m rb, 0x44332211), (''lbu.i0  '', lbu_i c m rb 0, 0x11), (''lbu.i1  '', lbu_i c m rb 1, 0x22),
      (''lbu.i2  '', lbu_i c m rb 2, 0x33), (''lbu.i3  '', lbu_i c m rb 3, 0x44), (''lbu.r0  '', lbu_r c m (rb + 0), 0x11),
      (''lbu.r1  '', lbu_r c m (rb + 1), 0x22), (''lbu.r2  '', lbu_r c m (rb + 2), 0x33), (''lbu.r3  '', lbu_r c m (rb + 3), 0x44),
      (''lhu.i0  '', lhu_i c m rb 0, 0x2211), (''lhu.i2  '', lhu_i c m rb 2, 0x4433)])"

definition checks3 :: "core \<Rightarrow> probe_image \<Rightarrow> mem \<Rightarrow> (string \<times> u32 \<times> u32) list" where
  "checks3 c im m = (let wb = rw_word im; m2 = store_lanes c im m in
     [(''Dlw     '', lw c m wb, 0x44332211), (''Dlbu.i1 '', lbu_i c m wb 1, 0x22), (''Dlbu.i3 '', lbu_i c m wb 3, 0x44),
      (''Dlbu.r1 '', lbu_r c m (wb + 1), 0x22), (''Dlbu.r3 '', lbu_r c m (wb + 3), 0x44),
      (''sb.word '', lw c m2 wb, 0xDDCCBBAA), (''sb.r2   '', lbu_r c m2 (wb + 2), 0xCC)])"

definition table :: "core \<Rightarrow> mem \<Rightarrow> u32 \<Rightarrow> u8 list" where
  "table c m a = map (\<lambda>i. ucast (lbu_r c m (a + of_nat i))) [0..<16]"

definition table_map :: "core \<Rightarrow> probe_image \<Rightarrow> mem \<Rightarrow> u8 list" where
  "table_map c im m = map (\<lambda>i. if lbu_r c m (ro_tab im + of_nat i) = lbu_r c m (hex_lit im + of_nat i) then 0x2E else 0x58) [0..<16]"

definition tables_text :: "core \<Rightarrow> probe_image \<Rightarrow> mem \<Rightarrow> u8 list" where
  "tables_text c im m =
     bytes ''rodata  '' @ table_map c im m @ bytes CRLF @
     bytes ''rodata2 '' @ table c m (ro_tab im) @ bytes CRLF @
     bytes ''data    '' @ table c m (rw_tab im) @ bytes CRLF"

definition probe_text :: "core \<Rightarrow> probe_image \<Rightarrow> mem \<Rightarrow> u8 list" where
  "probe_text c im m =
     bytes (CRLF @ ''ISA PROBE'' @ CRLF) @ concat (map (line c) (checks1 c im m)) @
     tables_text c im m @
     bytes (''-- .rodata word --'' @ CRLF) @ concat (map (line c) (checks2 c im m)) @
     bytes (''-- .data word --'' @ CRLF) @ concat (map (line c) (checks3 c im m)) @
     bytes (''PROBE END'' @ CRLF)"

lemma bin_loop_each:
  "bin_loop c n v (2 ^ k) u = each uart_putc (map (\<lambda>i. if and_r c v (2 ^ i) \<noteq> 0 then 0x31 else 0x30) [k..<k + n]) u"
proof (induction n arbitrary: k u)
  case (Suc n)
  have "(2 ^ k + 2 ^ k :: u32) = 2 ^ Suc k" by simp
  moreover have "[k..<k + Suc n] = k # [Suc k..<Suc k + n]" by (simp add: upt_conv_Cons)
  ultimately show ?case using Suc [of "Suc k"] by simp
qed simp

lemma put_bin32_lsb_each: "put_bin32_lsb c v u = each uart_putc (bin_text c v) u"
  using bin_loop_each [of c 32 v 0 u] by (simp add: put_bin32_lsb_def bin_text_def)


lemma of_char_zero: "(of_char c :: u8) = 0 \<Longrightarrow> c = CHR 0x00"
proof -
  assume "(of_char c :: u8) = 0"
  then have "(of_nat (of_char c) :: u8) = 0" by (simp add: of_nat_of_char)
  then have "unat (of_nat (of_char c) :: u8) = 0" by simp
  moreover have "unat (of_nat (of_char c) :: u8) = of_char c"
    using nat_of_char_less_256 [of c] by (simp add: unat_of_nat take_bit_nat_eq_self)
  ultimately have "of_char c = (of_char CHR 0x00 :: nat)" by simp
  then show ?thesis by (rule of_char_eqI)
qed

lemma no_zero_byte: "CHR 0x00 \<notin> set s \<Longrightarrow> 0 \<notin> set (bytes s)"
  by (auto simp: bytes_def dest: of_char_zero sym)

lemma puts_each: "CHR 0x00 \<notin> set s \<Longrightarrow> uart_puts (cstr s) = each uart_putc (bytes s)"
  by (rule ext) (rule uart_puts_cstr [OF no_zero_byte])

lemma crlf_no_zero [simp]: "CHR 0x00 \<notin> set CRLF"
  by (simp add: CRLF_def)

lemma report_each:
  assumes "CHR 0x00 \<notin> set name"
  shows "report c name got want = each uart_putc (line c (name, got, want))"
  using assms by (intro ext) (simp add: report_def line_def puts_each put_bin32_lsb_each each_append)

definition rep :: "core \<Rightarrow> string \<times> u32 \<times> u32 \<Rightarrow> uart \<Rightarrow> uart option" where
  "rep c = (\<lambda>(name, got, want). report c name got want)"

lemma each_lines:
  assumes "\<forall>x\<in>set xs. CHR 0x00 \<notin> set (fst x)"
  shows "each (rep c) xs u = each uart_putc (concat (map (line c) xs)) u"
  using assms by (induction xs arbitrary: u) (auto simp: rep_def report_each each_append)

text \<open>The program prints that text.\<close>

lemma rep_last: "report c n g w u = each (rep c) [(n, g, w)] u"
  by (simp add: rep_def)

lemma rep_step: "(\<And>v. R v = each (rep c) xs v) \<Longrightarrow> Option.bind (report c n g w u) R = each (rep c) ((n, g, w) # xs) u"
  by (cases "report c n g w u") (simp_all add: rep_def)

lemma andi_each: "probe_andi c u = each (rep c) (checks_andi c) u"
  unfolding probe_andi_def checks_andi_def by (intro rep_step rep_last)

lemma shifts_each: "probe_shifts c u = each (rep c) (checks_shifts c) u"
  unfolding probe_shifts_def checks_shifts_def Let_def by (intro rep_step rep_last)

lemma logic_each: "probe_logic c u = each (rep c) (checks_logic c) u"
  unfolding probe_logic_def checks_logic_def Let_def by (intro rep_step rep_last)

lemma lanes_each: "probe_lanes c im m u = each (rep c) [(''lbu.lane'', lanes_word c im m, 0x44332211)] u"
  unfolding probe_lanes_def by (rule rep_last)

lemma ro_word_each: "probe_ro_word c im m u = each (rep c) (checks2 c im m) u"
  unfolding probe_ro_word_def checks2_def Let_def by (intro rep_step rep_last)

lemma rw_word_each: "probe_rw_word c im m u = each (rep c) (checks3 c im m) u"
  unfolding probe_rw_word_def checks3_def Let_def by (intro rep_step rep_last)

lemmas blocks_each = andi_each shifts_each logic_each lanes_each ro_word_each rw_word_each

lemma out_step: "(\<And>v. R v = each f ys v) \<Longrightarrow> Option.bind (each f xs u) R = each f (xs @ ys) u"
  by (cases "each f xs u") (simp_all add: each_append)

lemma puts_step:
  "\<lbrakk>CHR 0x00 \<notin> set s; \<And>v. R v = each uart_putc ys v\<rbrakk> \<Longrightarrow>
     Option.bind (uart_puts (cstr s) u) R = each uart_putc (bytes s @ ys) u"
  by (simp add: puts_each out_step)

lemma puts_last: "CHR 0x00 \<notin> set s \<Longrightarrow> uart_puts (cstr s) u = each uart_putc (bytes s) u"
  by (simp add: puts_each)

lemma map_step:
  "(\<And>v. R v = each uart_putc ys v) \<Longrightarrow>
     Option.bind (each (\<lambda>i. uart_putc (f i)) xs u) R = each uart_putc (map f xs @ ys) u"
proof -
  have "each (\<lambda>i. uart_putc (f i)) xs u = each uart_putc (map f xs) u"
    by (induction xs arbitrary: u) simp_all
  then show "(\<And>v. R v = each uart_putc ys v) \<Longrightarrow> ?thesis" by (simp add: out_step)
qed

lemma tables_each: "probe_tables c im m u = each uart_putc (tables_text c im m) u"
  unfolding probe_tables_def tables_text_def table_map_def table_def
  by (intro puts_step map_step puts_last crlf_no_zero) simp_all

lemma names_printable:
  "\<forall>x\<in>set (checks1 c im m). CHR 0x00 \<notin> set (fst x)"
  "\<forall>x\<in>set (checks2 c im m). CHR 0x00 \<notin> set (fst x)"
  "\<forall>x\<in>set (checks3 c im m). CHR 0x00 \<notin> set (fst x)"
  by (simp_all add: checks1_def checks_andi_def checks_shifts_def checks_logic_def checks2_def checks3_def Let_def)

lemma probe_main_each: "probe_main c im m u = each uart_putc (probe_text c im m) u"
proof -
  have "probe_main c im m u = do {
     u \<leftarrow> uart_puts (cstr (CRLF @ ''ISA PROBE'' @ CRLF)) u;
     u \<leftarrow> each (rep c) (checks1 c im m) u;
     u \<leftarrow> probe_tables c im m u;
     u \<leftarrow> uart_puts (cstr (''-- .rodata word --'' @ CRLF)) u;
     u \<leftarrow> each (rep c) (checks2 c im m) u;
     u \<leftarrow> uart_puts (cstr (''-- .data word --'' @ CRLF)) u;
     u \<leftarrow> each (rep c) (checks3 c im m) u;
     uart_puts (cstr (''PROBE END'' @ CRLF)) u }"
    unfolding probe_main_def probe_words_def blocks_each checks1_def each_append Option.bind_assoc ..
  also have "\<dots> = each uart_putc (probe_text c im m) u"
    unfolding tables_each each_lines [OF names_printable(1)] each_lines [OF names_printable(2)]
      each_lines [OF names_printable(3)] probe_text_def
    by (intro puts_step out_step puts_last) simp_all
  finally show ?thesis .
qed


section \<open>The architecture\<close>

text \<open>The instructions as the RISC-V manual defines them; \<open>c.andi\<close> has its immediate in bits 12 and 6 to 2.\<close>

definition c_imm :: "u16 \<Rightarrow> u32" where
  "c_imm enc = signed_take_bit 5 (ucast (push_bit 5 (drop_bit 12 enc AND 1) OR (drop_bit 2 enc AND 0x1F)))"

definition arch :: core where
  "arch = \<lparr>c_insn = (\<lambda>enc x. x AND c_imm enc), andi = (AND), srl_r = (\<lambda>x n. drop_bit n x), srli = (\<lambda>x n. drop_bit n x),
     slli = (\<lambda>x n. push_bit n x), and_r = (AND), or_r = (OR),
     lw = (\<lambda>m a. le_word (m a) (m (a + 1)) (m (a + 2)) (m (a + 3))), lbu_i = (\<lambda>m a k. ucast (m (a + of_nat k))), lbu_r = (\<lambda>m a. ucast (m a)),
     lhu_i = (\<lambda>m a k. ucast (m (a + of_nat k)) OR push_bit 8 (ucast (m (a + of_nat k + 1)))),
     sb_i = (\<lambda>m a k b. m(a + of_nat k := b))\<rparr>"

text \<open>The loaded image: the tables and words hold what the source gives them.\<close>

definition hex_table :: "u8 list" where
  "hex_table = bytes ''0123456789ABCDEF''"

definition holds :: "mem \<Rightarrow> u32 \<Rightarrow> u8 list \<Rightarrow> bool" where
  "holds m a bs \<longleftrightarrow> map (\<lambda>i. m (a + of_nat i)) [0..<length bs] = bs"

definition image_ok :: "probe_image \<Rightarrow> mem \<Rightarrow> bool" where
  "image_ok im m \<longleftrightarrow> holds m (lanes im) [0x11, 0x22, 0x33, 0x44] \<and> holds m (ro_tab im) hex_table
     \<and> holds m (rw_tab im) hex_table \<and> holds m (hex_lit im) hex_table
     \<and> holds m (ro_word im) [0x11, 0x22, 0x33, 0x44] \<and> holds m (rw_word im) [0x11, 0x22, 0x33, 0x44]"

text \<open>Everything the program prints when each check passes.\<close>

definition all_ok :: "string list \<Rightarrow> u8 list" where
  "all_ok names = concat (map (\<lambda>n. bytes n @ bytes ('' OK'' @ CRLF)) names)"

definition failing :: "(string \<times> u32 \<times> u32) list \<Rightarrow> string list" where
  "failing cs = [n. (n, got, want) \<leftarrow> cs, got \<noteq> want]"

lemma failing_simps [simp]:
  "failing [] = []" "failing ((n, got, want) # cs) = (if got = want then failing cs else n # failing cs)"
  "failing (cs @ ds) = failing cs @ failing ds"
  by (simp_all add: failing_def)

definition failures :: "core \<Rightarrow> probe_image \<Rightarrow> mem \<Rightarrow> string list" where
  "failures c im m = failing (checks1 c im m) @ failing (checks2 c im m) @ failing (checks3 c im m)"

text \<open>The two faults the program was written to tell apart.\<close>

definition andi_fault :: core where
  "andi_fault = arch\<lparr>c_insn := \<lambda>enc x. x AND (c_imm enc AND NOT 3)\<rparr>"

definition srl_fault :: core where
  "srl_fault = arch\<lparr>srl_r := \<lambda>x n. drop_bit n x AND NOT 3\<rparr>"

text \<open>A digit of \<open>uart_put_hex32\<close>, \<open>hex[(v >> i) & 0xF]\<close>, as compiled for the board.\<close>

definition hex_digit :: "core \<Rightarrow> u32 \<Rightarrow> nat \<Rightarrow> u8" where
  "hex_digit c v i = hex_table ! unat (c_insn c 0x8BBD (srl_r c v i))"


lemma imm_values [simp]:
  "c_imm 0x8BBD = 15" "c_imm 0x8B9D = 7" "c_imm 0x8B8D = 3" "c_imm 0x8B85 = 1"
  by (simp_all add: c_imm_def)

lemma all_ones [simp]: "0xFFFFFFFF AND x = x" for x :: u32
proof -
  have "(0xFFFFFFFF :: u32) = - 1" by simp
  then show ?thesis by (metis and.left_neutral)
qed

lemma double8: "double8 g = 256 * g"
proof -
  have "(8 :: nat) = Suc (Suc (Suc (Suc (Suc (Suc (Suc (Suc 0)))))))" by simp
  then show ?thesis by (simp only: double8_def funpow.simps) simp
qed

lemma arch_simps [simp]:
  "C_ANDI arch enc = c_imm enc" "andi arch = (AND)" "srl_r arch = (\<lambda>x n. drop_bit n x)" "srli arch = (\<lambda>x n. drop_bit n x)"
  "slli arch = (\<lambda>x n. push_bit n x)" "and_r arch = (AND)" "or_r arch = (OR)"
  "lw arch m a = le_word (m a) (m (a + 1)) (m (a + 2)) (m (a + 3))" "lbu_i arch m a k = ucast (m (a + of_nat k))"
  "lbu_r arch m a = ucast (m a)"
  "lhu_i arch m a k = ucast (m (a + of_nat k)) OR push_bit 8 (ucast (m (a + of_nat k + 1)))"
  "sb_i arch m a k b = m(a + of_nat k := b)"
  by (simp_all add: arch_def C_ANDI_def)

lemma holds4: "holds m a [b0, b1, b2, b3] \<longleftrightarrow> m a = b0 \<and> m (a + 1) = b1 \<and> m (a + 2) = b2 \<and> m (a + 3) = b3"
  by (simp add: holds_def upt_conv_Cons numeral_eq_Suc)

lemma arch_blocks:
  "failing (checks_andi arch) = []" "failing (checks_shifts arch) = []" "failing (checks_logic arch) = []"
  by (simp_all add: checks_andi_def checks_shifts_def checks_logic_def)

lemma arch_lanes: "holds m (lanes im) [0x11, 0x22, 0x33, 0x44] \<Longrightarrow> lanes_word arch im m = 0x44332211"
  by (simp add: holds4 lanes_word_def double8)

lemma arch_ro: "holds m (ro_word im) [0x11, 0x22, 0x33, 0x44] \<Longrightarrow> failing (checks2 arch im m) = []"
  by (simp add: holds4 checks2_def Let_def le_word_def add.assoc)

lemma arch_rw: "holds m (rw_word im) [0x11, 0x22, 0x33, 0x44] \<Longrightarrow> failing (checks3 arch im m) = []"
  by (simp add: holds4 checks3_def Let_def le_word_def store_lanes_def)

definition word_aligned :: "u32 \<Rightarrow> bool" where
  "word_aligned a \<longleftrightarrow> a AND 3 = 0"

text \<open>The image of the third fault: byte 0 of each word in all four lanes.\<close>

definition byte0_image :: "mem \<Rightarrow> mem" where
  "byte0_image m = (\<lambda>a. m (a - (a AND 3)))"

definition check_names :: "string list list" where
  "check_names =
     [[''c.andi15'', ''c.andi7 '', ''c.andi3 '', ''c.andi1 '', ''andi15  '', ''andi3   '', ''srl8    '', ''srl1    '',
       ''srli4   '', ''srli1   '', ''slli1   '', ''and.rr  '', ''or.rr   '', ''lbu.lane''],
      [''lw      '', ''lbu.i0  '', ''lbu.i1  '', ''lbu.i2  '', ''lbu.i3  '', ''lbu.r0  '', ''lbu.r1  '', ''lbu.r2  '',
       ''lbu.r3  '', ''lhu.i0  '', ''lhu.i2  ''],
      [''Dlw     '', ''Dlbu.i1 '', ''Dlbu.i3 '', ''Dlbu.r1 '', ''Dlbu.r3 '', ''sb.word '', ''sb.r2   '']]"

definition passing_text :: "u8 list" where
  "passing_text =
     bytes (CRLF @ ''ISA PROBE'' @ CRLF) @ all_ok (check_names ! 0) @
     bytes (''rodata  '' @ ''................'' @ CRLF @ ''rodata2 '' @ ''0123456789ABCDEF'' @ CRLF @
       ''data    '' @ ''0123456789ABCDEF'' @ CRLF) @
     bytes (''-- .rodata word --'' @ CRLF) @ all_ok (check_names ! 1) @
     bytes (''-- .data word --'' @ CRLF) @ all_ok (check_names ! 2) @ bytes (''PROBE END'' @ CRLF)"

lemma names_checks:
  "map fst (checks1 c im m) = check_names ! 0" "map fst (checks2 c im m) = check_names ! 1"
  "map fst (checks3 c im m) = check_names ! 2"
  by (simp_all add: check_names_def checks1_def checks_andi_def checks_shifts_def checks_logic_def checks2_def checks3_def Let_def)

lemma failing_empty: "failing cs = [] \<Longrightarrow> concat (map (line c) cs) = all_ok (map fst cs)"
  by (induction cs) (auto simp: all_ok_def line_def split: if_splits)

lemma arch_passes:
  assumes "image_ok im m"
  shows "failing (checks1 arch im m) = []" "failing (checks2 arch im m) = []" "failing (checks3 arch im m) = []"
  using assms by (simp_all add: image_ok_def checks1_def arch_blocks arch_lanes arch_ro arch_rw)

lemma length_hex_table: "length hex_table = 16"
  by (simp add: hex_table_def)

lemma table_holds: "holds m a hex_table \<Longrightarrow> map (\<lambda>i. m (a + of_nat i)) [0..<16] = hex_table"
  by (simp only: holds_def length_hex_table)

lemma table_arch: "holds m a hex_table \<Longrightarrow> table arch m a = hex_table"
  using table_holds [of m a] by (simp add: table_def)

lemma table_map_arch:
  assumes "\<And>i. i < 16 \<Longrightarrow> m (ro_tab im + of_nat i) = m (hex_lit im + of_nat i)"
  shows "table_map arch im m = bytes ''................''"
proof -
  have "table_map arch im m = map (\<lambda>_. 0x2E) [0..<16]"
    unfolding table_map_def using assms by (auto intro!: map_cong)
  then show ?thesis by (simp add: upt_conv_Cons bytes_def)
qed

lemma holds_nth: "holds m a bs \<Longrightarrow> i < length bs \<Longrightarrow> m (a + of_nat i) = bs ! i"
  unfolding holds_def by (metis (no_types, lifting) add.left_neutral diff_zero length_upt nth_map nth_upt)

lemma tables_arch:
  assumes "image_ok im m"
  shows "tables_text arch im m = bytes (''rodata  '' @ ''................'' @ CRLF @ ''rodata2 '' @ ''0123456789ABCDEF'' @ CRLF @
       ''data    '' @ ''0123456789ABCDEF'' @ CRLF)"
proof -
  have "table_map arch im m = bytes ''................''"
  proof (rule table_map_arch)
    fix i :: nat assume "i < 16"
    then show "m (ro_tab im + of_nat i) = m (hex_lit im + of_nat i)"
      using assms holds_nth [of m _ hex_table i] by (simp add: image_ok_def hex_table_def)
  qed
  then show ?thesis using assms
    by (simp only: tables_text_def table_arch image_ok_def) (simp only: hex_table_def bytes_append append_assoc)
qed

lemma line_arch_text:
  assumes "image_ok im m" shows "probe_text arch im m = passing_text"
  using assms unfolding probe_text_def passing_text_def
  by (simp only: tables_arch failing_empty arch_passes names_checks)

lemma table_of_bytes: "table arch m a = map (\<lambda>i. m (a + of_nat i)) [0..<16]"
  by (simp add: table_def)

lemma lane_of:
  assumes "word_aligned a" and "k < 4"
  shows "(a + 4 * j + k) AND 3 = k"
proof -
  have three: "x AND 3 = take_bit 2 x" for x :: u32
    by (simp add: take_bit_eq_mask mask_eq_exp_minus_1)
  have low: "unat (x AND 3) = unat x mod 4" for x :: u32
    unfolding three unsigned_take_bit_eq by (simp add: take_bit_eq_mod)
  have a: "unat a mod 4 = 0" using assms(1) low [of a] by (simp add: word_aligned_def)
  have "unat (a + 4 * j + k) = (unat a + 4 * unat j + unat k) mod (4 * 2 ^ 30)"
    by (simp add: unat_word_ariths mod_simps)
  then have "unat (a + 4 * j + k) mod 4 = (unat a + 4 * unat j + unat k) mod 4"
    by (simp only: mod_mod_cancel [OF dvd_triv_left])
  also have "\<dots> = unat k"
    using a assms(2) by (simp add: mod_add_eq [symmetric] word_less_nat_alt)
  finally show ?thesis by (simp add: word_unat_eq_iff low)
qed

lemma byte0_lane: "word_aligned a \<Longrightarrow> k < 4 \<Longrightarrow> byte0_image m (a + 4 * j + k) = m (a + 4 * j)"
  unfolding byte0_image_def by (simp only: lane_of) simp

lemma byte0_table:
  assumes "word_aligned a"
  shows "map (\<lambda>i. byte0_image m (a + of_nat i)) [0..<16]
    = concat (map (\<lambda>j. replicate 4 (m (a + 4 * of_nat j))) [0..<4])"
proof -
  have "byte0_image m (a + of_nat i) = m (a + 4 * of_nat (i div 4))" if "i < 16" for i
  proof -
    have "i = 4 * (i div 4) + i mod 4" by simp
    then have "(of_nat i :: u32) = of_nat (4 * (i div 4) + i mod 4)" by (rule arg_cong)
    then have i: "(of_nat i :: u32) = 4 * of_nat (i div 4) + of_nat (i mod 4)"
      unfolding of_nat_add of_nat_mult by simp
    have "i mod 4 < 4" by simp
    then have "unat (of_nat (i mod 4) :: u32) < 4" by (simp add: unat_of_nat take_bit_nat_eq_self del: mod_less_divisor)
    then have "(of_nat (i mod 4) :: u32) < 4" by (simp add: word_less_nat_alt)
    from byte0_lane [OF assms this] show ?thesis unfolding i by (simp add: add.assoc)
  qed
  then have "map (\<lambda>i. byte0_image m (a + of_nat i)) [0..<16] = map (\<lambda>j. m (a + 4 * of_nat j)) (map (\<lambda>i. i div 4) [0..<16])"
    by simp
  also have "map (\<lambda>i. i div 4) [0..<16] = concat (map (replicate 4) [0..<4 :: nat])"
    by code_simp
  finally show ?thesis by (simp add: map_concat comp_def)
qed

text \<open>The output is the report of each check in the order of the source, with the three tables between them:
  whatever the instructions compute, the text is fixed and printed completely.
\<close>

theorem probe_prints: "probe_main c im m u = each uart_putc (probe_text c im m) u"
  by (rule probe_main_each)

text \<open>On a core that executes these instructions as the architecture defines them, with the image loaded as the
  source gives it, every check passes and the tables read back whole.
\<close>

theorem probe_passes: "image_ok im m \<Longrightarrow> probe_main arch im m u = each uart_putc passing_text u"
  by (simp add: probe_main_each line_arch_text)

definition sample_bytes :: "u8 list" where
  "sample_bytes = [0x11, 0x22, 0x33, 0x44] @ hex_table @ hex_table @ hex_table @ [0x11, 0x22, 0x33, 0x44] @ [0x11, 0x22, 0x33, 0x44]"

definition sample_mem :: mem where
  "sample_mem a = (if unat a < length sample_bytes then sample_bytes ! unat a else 0)"

definition sample_image :: probe_image where
  "sample_image = \<lparr>lanes = 0, ro_tab = 4, rw_tab = 20, hex_lit = 36, ro_word = 52, rw_word = 56\<rparr>"

lemma holds_slice:
  assumes "sample_bytes = pre @ bs @ post" and "unat a = length pre"
  shows "holds sample_mem a bs"
proof -
  have len: "length sample_bytes = 60" by (simp add: sample_bytes_def length_hex_table)
  have "sample_mem (a + of_nat i) = bs ! i" if "i < length bs" for i
  proof -
    have small: "length pre + i < 60" using that len unfolding assms(1) by simp
    then have "unat (a + of_nat i) = length pre + i"
      by (simp add: unat_word_ariths unat_of_nat assms(2))
    moreover have "sample_bytes ! (length pre + i) = bs ! i" unfolding assms(1) using that by (simp add: nth_append)
    ultimately show ?thesis using small len by (simp only: sample_mem_def if_True)
  qed
  then have "map (\<lambda>i. sample_mem (a + of_nat i)) [0..<length bs] = map ((!) bs) [0..<length bs]" by simp
  then show ?thesis by (simp only: holds_def map_nth)
qed

lemma sample_ok: "image_ok sample_image sample_mem"
proof -
  have h: "length hex_table = 16" by (rule length_hex_table)
  have "holds sample_mem 0 [0x11, 0x22, 0x33, 0x44]"
    by (rule holds_slice [of "[]"]) (simp_all add: sample_bytes_def)
  moreover have "holds sample_mem 4 hex_table"
    by (rule holds_slice [of "[0x11, 0x22, 0x33, 0x44]"]) (simp_all add: sample_bytes_def)
  moreover have "holds sample_mem 20 hex_table"
    by (rule holds_slice [of "[0x11, 0x22, 0x33, 0x44] @ hex_table"]) (simp_all add: sample_bytes_def h)
  moreover have "holds sample_mem 36 hex_table"
    by (rule holds_slice [of "[0x11, 0x22, 0x33, 0x44] @ hex_table @ hex_table"]) (simp_all add: sample_bytes_def h)
  moreover have "holds sample_mem 52 [0x11, 0x22, 0x33, 0x44]"
    by (rule holds_slice [of "[0x11, 0x22, 0x33, 0x44] @ hex_table @ hex_table @ hex_table"])
      (simp_all add: sample_bytes_def h)
  moreover have "holds sample_mem 56 [0x11, 0x22, 0x33, 0x44]"
    by (rule holds_slice [of "[0x11, 0x22, 0x33, 0x44] @ hex_table @ hex_table @ hex_table @ [0x11, 0x22, 0x33, 0x44]" _ "[]"])
      (simp_all add: sample_bytes_def h)
  ultimately show ?thesis by (simp add: image_ok_def sample_image_def)
qed

lemma probe_passes_witness: "probe_main arch sample_image sample_mem = each uart_putc passing_text"
  by (rule ext) (rule probe_passes [OF sample_ok])


text \<open>Each fault changes one instruction, so only the checks of that instruction see it.\<close>

lemma fault_simps:
  "C_ANDI andi_fault enc = c_imm enc AND NOT 3" "srl_r andi_fault = srl_r arch" "andi andi_fault = andi arch"
  "C_ANDI srl_fault enc = C_ANDI arch enc" "srl_r srl_fault x n = drop_bit n x AND NOT 3" "andi srl_fault = andi arch"
  by (simp_all add: andi_fault_def srl_fault_def C_ANDI_def arch_def)

lemma fault_andi:
  "failing (checks_andi andi_fault) = [''c.andi15'', ''c.andi7 '', ''c.andi3 '', ''c.andi1 '']"
  "failing (checks_andi srl_fault) = []"
  by (simp_all add: checks_andi_def fault_simps)

lemma fault_shifts:
  "failing (checks_shifts andi_fault) = []"
  "failing (checks_shifts srl_fault) = [''srl8    '', ''srl1    '']"
  by (simp_all add: checks_shifts_def fault_simps) (simp_all add: andi_fault_def srl_fault_def arch_def)

lemma fault_rest:
  assumes "c \<in> {andi_fault, srl_fault}"
  shows "checks_logic c = checks_logic arch" "lanes_word c im m = lanes_word arch im m"
    "checks2 c im m = checks2 arch im m" "checks3 c im m = checks3 arch im m"
  using assms by (auto simp: andi_fault_def srl_fault_def arch_def checks_logic_def lanes_word_def checks2_def checks3_def
      store_lanes_def Let_def)

lemma same_digit: "hex_digit andi_fault v i = hex_digit srl_fault v i"
  by (simp add: hex_digit_def andi_fault_def srl_fault_def arch_def and.assoc and.left_commute and.commute)

lemma board_output: "map (hex_digit andi_fault 0x0123ABCD) [28, 24, 20, 16, 12, 8, 4, 0] = bytes ''000088CC''"
  by (simp add: hex_digit_def andi_fault_def arch_def hex_table_def bytes_def)

text \<open>The two faults that explain the corrupted hex output give the same digit for every word and shift
  (\<open>000088CC\<close> for \<open>0123ABCD\<close>, as on the board), and the program tells them apart: the first fails the four compressed checks and no other, the second the two variable
  right shifts and no other.
\<close>

theorem probe_separates:
  assumes "image_ok im m"
  shows "(\<forall>v i. hex_digit andi_fault v i = hex_digit srl_fault v i)
    \<and> map (hex_digit andi_fault 0x0123ABCD) [28, 24, 20, 16, 12, 8, 4, 0] = bytes ''000088CC''
    \<and> failures andi_fault im m = [''c.andi15'', ''c.andi7 '', ''c.andi3 '', ''c.andi1 '']
    \<and> failures srl_fault im m = [''srl8    '', ''srl1    '']"
  using assms by (intro conjI allI same_digit board_output) (simp_all add: failures_def checks1_def fault_andi fault_shifts fault_rest arch_blocks arch_passes
      image_ok_def arch_lanes)

lemma probe_separates_witness:
  "failures andi_fault sample_image sample_mem = [''c.andi15'', ''c.andi7 '', ''c.andi3 '', ''c.andi1 '']
    \<and> failures srl_fault sample_image sample_mem = [''srl8    '', ''srl1    '']"
  using probe_separates [OF sample_ok] by simp

text \<open>The third fault the program looks for, an image with byte 0 of each word in all four lanes, shows in the printed
  table as \<open>000044448888CCCC\<close>, but the map in front of it has no \<open>X\<close>: the literal it is compared with is corrupted alike.
\<close>

theorem table_map_blind:
  assumes "image_ok im m" and "word_aligned (ro_tab im)" and "word_aligned (hex_lit im)"
  shows "table arch (byte0_image m) (ro_tab im) = bytes ''000044448888CCCC''
    \<and> table_map arch im (byte0_image m) = bytes ''................''"
proof -
  have t: "map (\<lambda>i. byte0_image m (a + of_nat i)) [0..<16] = bytes ''000044448888CCCC''"
    if "holds m a hex_table" and "word_aligned a" for a
  proof -
    have "m (a + 4 * of_nat j) = hex_table ! (4 * j)" if "j < 4" for j
      using holds_nth [OF \<open>holds m a hex_table\<close>, of "4 * j"] that by (simp add: length_hex_table)
    then have "map (\<lambda>i. byte0_image m (a + of_nat i)) [0..<16] = concat (map (\<lambda>j. replicate 4 (hex_table ! (4 * j))) [0..<4])"
      unfolding byte0_table [OF that(2)] by (auto intro!: arg_cong [of _ _ concat] map_cong)
    also have "\<dots> = bytes ''000044448888CCCC''" by code_simp
    finally show ?thesis .
  qed
  have ro: "map (\<lambda>i. byte0_image m (ro_tab im + of_nat i)) [0..<16] = bytes ''000044448888CCCC''"
    and lit: "map (\<lambda>i. byte0_image m (hex_lit im + of_nat i)) [0..<16] = bytes ''000044448888CCCC''"
    using assms by (auto simp only: image_ok_def t)
  have "table_map arch im (byte0_image m) = bytes ''................''"
  proof (rule table_map_arch)
    fix i :: nat assume "i < 16"
    then show "byte0_image m (ro_tab im + of_nat i) = byte0_image m (hex_lit im + of_nat i)"
      using ro [folded lit] by (simp only: map_eq_conv set_upt) simp
  qed
  with ro show ?thesis by (simp only: table_of_bytes)
qed

lemma table_map_blind_witness:
  "table arch (byte0_image sample_mem) 4 = bytes ''000044448888CCCC''
    \<and> table_map arch sample_image (byte0_image sample_mem) = bytes ''................''"
  using table_map_blind [OF sample_ok] by (simp add: sample_image_def word_aligned_def)

end
