(* ===== verification/Echo.thy ===== *)
theory Echo
  imports Uart
begin

text \<open>
  The UART echo and interrupt test \<open>sim/sw/peri/uart_echo/uart_echo.c\<close>. The machine state holds the
  device, the CSRs of the core and the variables of the program. Trap entry, \<open>mret\<close>, the pending
  and cause logic and the wake-up of \<open>wfi\<close> are those of \<open>src/rtl/core/trap_unit.sv\<close> and
  \<open>execute_stage.sv\<close>. An interrupt can come at every boundary between two accesses of \<open>main\<close> to
  the device, to a CSR or to a variable the handler writes; each of them takes one time slot of the
  device, and at most one interrupt is taken at a boundary. \<open>None\<close> stands for a program that goes
  on for ever, waiting for the device, asleep, or parked by the handler, or for one that a trap sends anywhere but to the
  handler.
\<close>

section \<open>The machine\<close>

record machine =
  dev :: uart
  mstatus :: u32
  mie :: u32
  mtvec :: u32
  mscratch :: u32
  mcause :: u32
  mepc :: u32
  mtval :: u32
  mtip :: bool
  msip :: u32
  irq_chars :: u32
  sync_traps :: u32
  msi_count :: u32
  bad_cause :: u32
  bad_traps :: u32
  marker :: "u32 option"

text \<open>Addresses in the program: the handler, the ecall, and an interrupted instruction.\<close>

record image =
  handler_addr :: u32
  ecall_addr :: u32
  int_addr :: u32

definition CTRL_RX_IE :: u32 where "CTRL_RX_IE = 0x2"
definition MSTATUS_MIE :: u32 where "MSTATUS_MIE = 0x8"
definition MIE_MEIE :: u32 where "MIE_MEIE = 0x800"
definition MIP_MEIP :: u32 where "MIP_MEIP = 0x800"
definition MCAUSE_MEI :: u32 where "MCAUSE_MEI = 0x8000000B"
definition MCAUSE_ECALL_M :: u32 where "MCAUSE_ECALL_M = 11"
definition MCAUSE_MSI :: u32 where "MCAUSE_MSI = 0x80000003"
definition MCAUSE_MTI :: u32 where "MCAUSE_MTI = 0x80000007"
definition MIE_MSIE :: u32 where "MIE_MSIE = 0x8"
definition PHASE_CHARS :: nat where "PHASE_CHARS = 4"
definition MSI_SPIN_LIMIT :: u32 where "MSI_SPIN_LIMIT = 200000"

lemmas causes = MCAUSE_MEI_def MCAUSE_ECALL_M_def MCAUSE_MSI_def MCAUSE_MTI_def

definition mip :: "machine \<Rightarrow> u32" where
  "mip m = (if uart_irq (dev m) then MIP_MEIP else 0) OR (if mtip m then 0x80 else 0) OR (if bit (msip m) 0 then 0x8 else 0)"

definition int_pending :: "machine \<Rightarrow> bool" where
  "int_pending m \<longleftrightarrow> bit (mstatus m) 3 \<and> mip m AND mie m AND 0x888 \<noteq> 0"

definition int_cause :: "machine \<Rightarrow> u32" where
  "int_cause m = (if bit (mip m AND mie m) 11 then MCAUSE_MEI else if bit (mip m AND mie m) 3 then MCAUSE_MSI else MCAUSE_MTI)"

text \<open>\<open>mstatus\<close> on entry to a trap and on \<open>mret\<close>.\<close>

definition entry_status :: "u32 \<Rightarrow> u32" where
  "entry_status s = (s AND NOT 0x88) OR (if bit s 3 then 0x80 else 0) OR 0x1800"

definition mret_status :: "u32 \<Rightarrow> u32" where
  "mret_status s = (s AND NOT 0x8) OR (if bit s 7 then 0x8 else 0) OR 0x1880"

definition enter :: "u32 \<Rightarrow> u32 \<Rightarrow> machine \<Rightarrow> machine" where
  "enter cause pc m = m\<lparr>mepc := pc, mcause := cause, mtval := 0, mstatus := entry_status (mstatus m)\<rparr>"

section \<open>The trap handler\<close>

definition on_dev :: "(uart \<Rightarrow> uart option) \<Rightarrow> machine \<Rightarrow> machine option" where
  "on_dev f m = do { u \<leftarrow> f (dev m); Some (m\<lparr>dev := u\<rparr>) }"

lemma write_txdata_progress:
  "write_txdata w u = Some u' \<Longrightarrow> length (sched u') \<le> length (sched u) \<and> (sched u = [] \<longrightarrow> rx_fifo u' = rx_fifo u)"
  by (induction w u rule: write_txdata.induct)
    (auto simp: write_txdata.simps tick_idle sched_tick split: if_splits)

lemma wait_status_progress:
  assumes "wait_status b u = Some u'"
  shows "length (sched u') \<le> length (sched u) \<and> (sched u = [] \<longrightarrow> rx_fifo u' = rx_fifo u)"
proof -
  let ?P = "\<lambda>v. length (sched v) \<le> length (sched u) \<and> (sched u = [] \<longrightarrow> sched v = [] \<and> rx_fifo v = rx_fifo u)"
  have "?P (tick v)" if "?P v" for v using that by (auto simp: sched_tick tick_idle)
  from wait_status_inv [OF assms, of ?P, OF this] show ?thesis by simp
qed

lemma putc_progress:
  assumes "uart_putc c u = Some u'"
  shows "length (sched u') \<le> length (sched u)" and "sched u = [] \<Longrightarrow> rx_fifo u' = rx_fifo u"
  using assms by (auto simp: uart_putc_def bind_eq_Some_conv dest!: wait_status_progress write_txdata_progress)

lemma status_rx_read: "fst (read_status u) AND UART_RX_READY_BIT \<noteq> 0 \<longleftrightarrow> rx_ready (snd (read_status u))"
  using status_rx [of "tick u"] by (simp add: read_status_def Let_def)

text \<open>\<open>while (UART_STATUS & UART_RX_READY_BIT)\<close>\<close>

function drain :: "machine \<Rightarrow> machine option" where
  "drain m =
     (let (st, u1) = read_status (dev m) in
      if st AND UART_RX_READY_BIT \<noteq> 0 then
        let (d, u2) = read_rxdata u1 in
        do { u3 \<leftarrow> uart_putc (ucast (d AND 0xFF)) u2;
             drain (m\<lparr>dev := u3, irq_chars := irq_chars m + 1\<rparr>) }
      else Some (m\<lparr>dev := u1\<rparr>))"
  by pat_completeness auto
termination
proof (relation "measures [\<lambda>m. length (sched (dev m)), \<lambda>m. length (rx_fifo (dev m))]", goal_cases)
  case (2 m rs st u1 rr d u2 u3)
  have "rx_ready (snd (read_status (dev m)))"
    using 2(1-3) status_rx_read [of "dev m"] by (metis fst_conv)
  then have u1: "u1 = tick (dev m)" "rx_ready u1" using 2(1,2) by (simp_all add: read_status_def Let_def)
  have u2: "u2 = snd (read_rxdata u1)" using 2(4,5) by (metis snd_conv)
  have len: "length (sched u2) = length (sched (tick u1))" "rx_fifo u2 = tl (rx_fifo (tick u1))"
    by (auto simp: u2 read_rxdata_def Let_def split: list.splits)
  note p = putc_progress [OF 2(6)]
  show ?case
  proof (cases "sched (dev m) = []")
    case True
    then have "u1 = dev m" "tick u1 = dev m" using u1(1) tick_idle [of "dev m"] by simp_all
    then show ?thesis using p len u1(2) True by (auto simp: rx_ready_def)
  next
    case False
    then have "length (sched (tick u1)) < length (sched (dev m))"
      using u1 by (auto simp: sched_tick neq_Nil_conv)
    then show ?thesis using p(1) len(1) by simp
  qed
qed simp

declare drain.simps [simp del]

text \<open>The handler from its entry to its \<open>mret\<close>, exclusive.\<close>

definition trap_handler :: "machine \<Rightarrow> machine option" where
  "trap_handler m = do {
     let cause = mcause m;
     m \<leftarrow> on_dev (uart_putc 0x48) m;
     m \<leftarrow> on_dev (uart_put_hex32 cause) m;
     m \<leftarrow> on_dev (uart_putc 0x40) m;
     m \<leftarrow> on_dev (uart_put_hex32 (mepc m)) m;
     m \<leftarrow> on_dev (uart_putc 0x20) m;
     if cause = MCAUSE_MSI then do {
       let m = m\<lparr>msip := 0\<rparr>;
       let m = m\<lparr>msi_count := msi_count m + 1\<rparr>;
       on_dev (uart_putc 0x58) m }
     else if cause = MCAUSE_ECALL_M then do {
       let epc = mepc m;
       let m = m\<lparr>mepc := epc + 4\<rparr>;
       let m = m\<lparr>sync_traps := sync_traps m + 1\<rparr>;
       on_dev (uart_putc 0x58) m }
     else if cause \<noteq> MCAUSE_MEI then do {
       let m = m\<lparr>bad_cause := cause\<rparr>;
       let m = m\<lparr>mstatus := mstatus m AND NOT MSTATUS_MIE\<rparr>;
       let m = m\<lparr>bad_traps := bad_traps m + 1\<rparr>;
       if bad_traps m \<ge> 4 then do { _ \<leftarrow> on_dev (uart_puts (cstr (''PARK'' @ CRLF))) m; None }
       else on_dev (uart_putc 0x58) m }
     else do { m \<leftarrow> drain m; on_dev (uart_putc 0x58) m } }"

text \<open>Where a trap goes: to the base in \<open>mtvec\<close>, and an interrupt in vectored mode to its own slot.\<close>

definition trap_target :: "u32 \<Rightarrow> machine \<Rightarrow> u32" where
  "trap_target cause m = (let base = mtvec m AND NOT 3 in
     if bit cause 31 \<and> mtvec m AND 3 = 1 then base + 4 * (cause AND 0x3F) else base)"

text \<open>A trap that goes anywhere but to the handler is not followed.\<close>

definition take_trap :: "image \<Rightarrow> u32 \<Rightarrow> u32 \<Rightarrow> machine \<Rightarrow> machine option" where
  "take_trap img cause pc m = (if trap_target cause m = handler_addr img then do {
     m \<leftarrow> trap_handler (enter cause pc m);
     Some (m\<lparr>mstatus := mret_status (mstatus m)\<rparr>) } else None)"

section \<open>main\<close>

text \<open>A boundary between two accesses, and a boundary after a time slot without an access.\<close>

definition boundary :: "image \<Rightarrow> machine \<Rightarrow> machine option" where
  "boundary img m = (if int_pending m then take_trap img (int_cause m) (int_addr img) m else Some m)"

definition pass :: "image \<Rightarrow> machine \<Rightarrow> machine option" where
  "pass img m = boundary img (m\<lparr>dev := tick (dev m)\<rparr>)"

partial_function (option) m_putc :: "image \<Rightarrow> u8 \<Rightarrow> machine \<Rightarrow> machine option" where
  "m_putc img c m = do {
     let (st, u) = read_status (dev m);
     m \<leftarrow> boundary img (m\<lparr>dev := u\<rparr>);
     if st AND UART_TX_READY_BIT \<noteq> 0 then do {
       u \<leftarrow> write_txdata (ucast c) (dev m);
       boundary img (m\<lparr>dev := u\<rparr>) }
     else m_putc img c m }"

definition m_puts :: "image \<Rightarrow> string \<Rightarrow> machine \<Rightarrow> machine option" where
  "m_puts img s = each (m_putc img) (bytes s)"

definition m_put_hex32 :: "image \<Rightarrow> u32 \<Rightarrow> machine \<Rightarrow> machine option" where
  "m_put_hex32 img v = each (m_putc img) (bytes ''0x'' @ hex_digits 8 v)"

partial_function (option) m_getc :: "image \<Rightarrow> machine \<Rightarrow> (u8 \<times> machine) option" where
  "m_getc img m = do {
     let (st, u) = read_status (dev m);
     m \<leftarrow> boundary img (m\<lparr>dev := u\<rparr>);
     if st AND UART_RX_READY_BIT \<noteq> 0 then do {
       let (d, u) = read_rxdata (dev m);
       m \<leftarrow> boundary img (m\<lparr>dev := u\<rparr>);
       Some (ucast (d AND 0xFF), m) }
     else m_getc img m }"

text \<open>A CSR write takes effect, then a pending interrupt is taken.\<close>

definition csrs_mie :: "image \<Rightarrow> u32 \<Rightarrow> machine \<Rightarrow> machine option" where
  "csrs_mie img b m = pass img (m\<lparr>mie := mie m OR b\<rparr>)"

definition csrc_mie :: "image \<Rightarrow> u32 \<Rightarrow> machine \<Rightarrow> machine option" where
  "csrc_mie img b m = pass img (m\<lparr>mie := mie m AND NOT b\<rparr>)"

definition csrsi_mstatus :: "image \<Rightarrow> u32 \<Rightarrow> machine \<Rightarrow> machine option" where
  "csrsi_mstatus img b m = pass img (m\<lparr>mstatus := mstatus m OR b\<rparr>)"

definition csrci_mstatus :: "image \<Rightarrow> u32 \<Rightarrow> machine \<Rightarrow> machine option" where
  "csrci_mstatus img b m = pass img (m\<lparr>mstatus := mstatus m AND NOT b\<rparr>)"

definition m_ctrl :: "image \<Rightarrow> u32 \<Rightarrow> machine \<Rightarrow> machine option" where
  "m_ctrl img w m = boundary img (m\<lparr>dev := write_ctrl w (dev m)\<rparr>)"

text \<open>The macro \<open>CSR_WALK\<close> on one of the four registers, which keep what is written.\<close>

datatype csr = Mscratch | Mcause | Mepc | Mtval

fun csr_name :: "csr \<Rightarrow> string" where
  "csr_name Mscratch = ''mscratch''" | "csr_name Mcause = ''mcause''" | "csr_name Mepc = ''mepc''" | "csr_name Mtval = ''mtval''"

fun csr_write :: "csr \<Rightarrow> u32 \<Rightarrow> machine \<Rightarrow> machine" where
  "csr_write Mscratch v m = m\<lparr>mscratch := v\<rparr>" | "csr_write Mcause v m = m\<lparr>mcause := v\<rparr>"
| "csr_write Mepc v m = m\<lparr>mepc := v\<rparr>" | "csr_write Mtval v m = m\<lparr>mtval := v\<rparr>"

fun csr_read :: "csr \<Rightarrow> machine \<Rightarrow> u32" where
  "csr_read Mscratch m = mscratch m" | "csr_read Mcause m = mcause m"
| "csr_read Mepc m = mepc m" | "csr_read Mtval m = mtval m"

definition CSR_WALK :: "image \<Rightarrow> csr \<Rightarrow> u32 \<Rightarrow> machine \<Rightarrow> machine option" where
  "CSR_WALK img r v m = do {
     m \<leftarrow> pass img (csr_write r v m);
     let rb = csr_read r m;
     m \<leftarrow> m_puts img ('' '' @ csr_name r @ ''='') m;
     m_put_hex32 img rb m }"

definition csr_bit_walk :: "image \<Rightarrow> u32 \<Rightarrow> machine \<Rightarrow> machine option" where
  "csr_bit_walk img pattern m = do {
     m \<leftarrow> m_puts img ''CSRW '' m;
     m \<leftarrow> m_put_hex32 img pattern m;
     m \<leftarrow> CSR_WALK img Mscratch pattern m;
     m \<leftarrow> CSR_WALK img Mcause pattern m;
     m \<leftarrow> CSR_WALK img Mepc pattern m;
     m \<leftarrow> CSR_WALK img Mtval pattern m;
     m_puts img CRLF m }"

text \<open>Reading a CSR or a variable that the handler writes.\<close>

definition rd :: "image \<Rightarrow> (machine \<Rightarrow> 'a) \<Rightarrow> machine \<Rightarrow> ('a \<times> machine) option" where
  "rd img f m = do { let v = f m; m \<leftarrow> pass img m; Some (v, m) }"

definition show_csr :: "image \<Rightarrow> string \<Rightarrow> (machine \<Rightarrow> u32) \<Rightarrow> machine \<Rightarrow> machine option" where
  "show_csr img s f m = do { m \<leftarrow> m_puts img s m; (v, m) \<leftarrow> rd img f m; m_put_hex32 img v m }"

primrec echo_loop :: "image \<Rightarrow> nat \<Rightarrow> machine \<Rightarrow> machine option" where
  "echo_loop img 0 m = Some m"
| "echo_loop img (Suc n) m = do { (c, m) \<leftarrow> m_getc img m; m \<leftarrow> m_putc img c m; echo_loop img n m }"

partial_function (option) wait_meip :: "image \<Rightarrow> machine \<Rightarrow> machine option" where
  "wait_meip img m = do {
     (v, m) \<leftarrow> rd img mip m;
     if v AND MIP_MEIP \<noteq> 0 then Some m else wait_meip img m }"

text \<open>The \<open>ecall\<close>: the handler comes back behind it; a return to any other place is not followed.\<close>

definition ecall :: "image \<Rightarrow> machine \<Rightarrow> machine option" where
  "ecall img m = do {
     m \<leftarrow> take_trap img MCAUSE_ECALL_M (ecall_addr img) m;
     if mepc m = ecall_addr img + 4 then pass img m else None }"

text \<open>The bounded wait for the software interrupt.\<close>

function msi_spin :: "image \<Rightarrow> nat \<Rightarrow> machine \<Rightarrow> machine option" where
  "msi_spin img spin m = do {
     (n, m) \<leftarrow> rd img msi_count m;
     if n \<noteq> 0 then Some m
     else do {
       (b, m) \<leftarrow> rd img bad_cause m;
       if b \<noteq> 0 then Some m
       else if spin + 1 < unat MSI_SPIN_LIMIT then msi_spin img (spin + 1) m else Some m } }"
  by pat_completeness auto
termination
  by (relation "measure (\<lambda>(img, spin, m). unat MSI_SPIN_LIMIT - spin)") auto

declare msi_spin.simps [simp del]

text \<open>\<open>wfi\<close> sleeps until an interrupt is pending, which is taken on the way out.\<close>

partial_function (option) wfi :: "image \<Rightarrow> machine \<Rightarrow> machine option" where
  "wfi img m = (if int_pending m then boundary img m else wfi img (m\<lparr>dev := tick (dev m)\<rparr>))"

text \<open>\<open>while (irq_chars < PHASE_CHARS && !bad_cause) wfi\<close>\<close>

partial_function (option) sleep_loop :: "image \<Rightarrow> machine \<Rightarrow> machine option" where
  "sleep_loop img m = do {
     (n, m) \<leftarrow> rd img irq_chars m;
     if unat n < PHASE_CHARS then do {
       (b, m) \<leftarrow> rd img bad_cause m;
       if b = 0 then do { m \<leftarrow> wfi img m; sleep_loop img m } else Some m }
     else Some m }"

definition msi_report :: "image \<Rightarrow> machine \<Rightarrow> machine option" where
  "msi_report img m = do {
     (n, m) \<leftarrow> rd img msi_count m;
     if n \<noteq> 0 then m_puts img (''MSI OK'' @ CRLF) m
     else do {
       m \<leftarrow> show_csr img ''MSI TIMEOUT MST '' mstatus m;
       m \<leftarrow> show_csr img '' MIP '' mip m;
       m \<leftarrow> show_csr img '' MIE '' mie m;
       m \<leftarrow> show_csr img '' BADC '' bad_cause m;
       m \<leftarrow> show_csr img '' CAUSE '' mcause m;
       m \<leftarrow> show_csr img '' EPC '' mepc m;
       m_puts img CRLF m } }"

text \<open>Before phase 1, phase 1, and the three steps of phase 2.\<close>

definition print_checks :: "image \<Rightarrow> machine \<Rightarrow> machine option" where
  "print_checks img m = do {
     m \<leftarrow> m_puts img (CRLF @ ''ECHO'' @ CRLF) m;
     m \<leftarrow> m_puts img ''PAT '' m;
     m \<leftarrow> m_put_hex32 img 0x0123ABCD m;
     m \<leftarrow> m_putc img 0x20 m;
     m \<leftarrow> m_put_hex32 img 0xFEDC5432 m;
     m \<leftarrow> m_puts img CRLF m;
     m \<leftarrow> csr_bit_walk img 0xFFFFFFFF m;
     m \<leftarrow> csr_bit_walk img 0xAAAAAAAA m;
     csr_bit_walk img 0x55555555 m }"

definition phase_1 :: "image \<Rightarrow> machine \<Rightarrow> machine option" where
  "phase_1 img m = do { m \<leftarrow> echo_loop img PHASE_CHARS m; m_puts img (CRLF @ ''IRQ'' @ CRLF) m }"

definition arm_traps :: "image \<Rightarrow> machine \<Rightarrow> machine option" where
  "arm_traps img m = do {
     m \<leftarrow> m_ctrl img CTRL_RX_IE m;
     m \<leftarrow> pass img (m\<lparr>mtvec := handler_addr img AND NOT 2\<rparr>);
     m \<leftarrow> csrs_mie img MIE_MEIE m;
     m \<leftarrow> show_csr img ''MTVEC '' mtvec m;
     m \<leftarrow> m_puts img '' HND '' m;
     m \<leftarrow> m_put_hex32 img (handler_addr img) m;
     m_puts img CRLF m }"

definition phase_2a :: "image \<Rightarrow> machine \<Rightarrow> machine option" where
  "phase_2a img m = do {
     m \<leftarrow> wait_meip img m;
     m \<leftarrow> show_csr img ''MIP '' mip m;
     m \<leftarrow> show_csr img '' MIE '' mie m;
     m \<leftarrow> show_csr img '' MST '' mstatus m;
     m \<leftarrow> m_puts img CRLF m;
     m \<leftarrow> ecall img m;
     (n, m) \<leftarrow> rd img sync_traps m;
     m \<leftarrow> m_puts img (if n \<noteq> 0 then ''TRAP OK CAUSE '' else ''TRAP FAIL CAUSE '') m;
     (v, m) \<leftarrow> rd img mcause m;
     m \<leftarrow> m_put_hex32 img v m;
     m \<leftarrow> show_csr img '' EPC '' mepc m;
     m_puts img CRLF m }"

definition phase_msi :: "image \<Rightarrow> machine \<Rightarrow> machine option" where
  "phase_msi img m = do {
     m \<leftarrow> csrc_mie img MIE_MEIE m;
     m \<leftarrow> csrs_mie img MIE_MSIE m;
     m \<leftarrow> pass img (m\<lparr>msip := 1\<rparr>);
     m \<leftarrow> show_csr img ''MSIPREG '' msip m;
     m \<leftarrow> show_csr img '' MIP '' mip m;
     m \<leftarrow> show_csr img '' MIE '' mie m;
     m \<leftarrow> m_puts img CRLF m;
     m \<leftarrow> csrsi_mstatus img MSTATUS_MIE m;
     m \<leftarrow> msi_spin img 0 m;
     m \<leftarrow> csrc_mie img MIE_MSIE m;
     msi_report img m }"

definition phase_2bc :: "image \<Rightarrow> machine \<Rightarrow> machine option" where
  "phase_2bc img m = do {
     m \<leftarrow> csrs_mie img MIE_MEIE m;
     m \<leftarrow> csrsi_mstatus img MSTATUS_MIE m;
     m \<leftarrow> show_csr img ''MST2 '' mstatus m;
     m \<leftarrow> m_puts img CRLF m;
     m \<leftarrow> sleep_loop img m;
     csrci_mstatus img MSTATUS_MIE m }"

definition verdict :: "image \<Rightarrow> machine \<Rightarrow> machine option" where
  "verdict img m = do {
     m \<leftarrow> m_ctrl img 0 m;
     (b, m) \<leftarrow> rd img bad_cause m;
     (n, m) \<leftarrow> rd img irq_chars m;
     if b \<noteq> 0 \<or> unat n < PHASE_CHARS then do {
       m \<leftarrow> pass img (m\<lparr>marker := Some 0xBAD\<rparr>);
       m_puts img (''BAD'' @ CRLF) m }
     else do {
       m \<leftarrow> pass img (m\<lparr>marker := Some 0x600D\<rparr>);
       m_puts img (''GOOD'' @ CRLF) m } }"

text \<open>\<open>main\<close> up to its final loop.\<close>

definition echo_main :: "image \<Rightarrow> machine \<Rightarrow> machine option" where
  "echo_main img m = do {
     m \<leftarrow> print_checks img m;
     m \<leftarrow> phase_1 img m;
     m \<leftarrow> arm_traps img m;
     m \<leftarrow> phase_2a img m;
     m \<leftarrow> phase_msi img m;
     m \<leftarrow> phase_2bc img m;
     verdict img m }"

text \<open>The machine at reset, with the variables of the image.\<close>

definition boot :: "uart \<Rightarrow> machine" where
  "boot u = \<lparr>dev = u, mstatus = 0x1800, mie = 0, mtvec = 0, mscratch = 0, mcause = 0, mepc = 0, mtval = 0, mtip = False,
     msip = 0, irq_chars = 0, sync_traps = 0, msi_count = 0, bad_cause = 0, bad_traps = 0, marker = None\<rparr>"


section \<open>The handler\<close>

lemma drain_spec:
  "drain m = Some m' \<Longrightarrow> \<exists>bs. sent (dev m') = sent (dev m) @ bs
     \<and> m' = m\<lparr>dev := dev m', irq_chars := irq_chars m + of_nat (length bs)\<rparr> \<and> \<not> rx_ready (dev m')
     \<and> subseq (bs @ incoming (dev m')) (incoming (dev m))
     \<and> (length (incoming (dev m)) \<le> FIFO_DEPTH \<longrightarrow> incoming (dev m) = bs @ incoming (dev m'))
     \<and> tx_ie (dev m') = tx_ie (dev m) \<and> rx_ie (dev m') = rx_ie (dev m) \<and> (rx_ready (dev m) \<longrightarrow> bs \<noteq> [])"
proof (induction m rule: drain.induct)
  case (1 m)
  define u1 where "u1 = tick (dev m)"
  have st: "read_status (dev m) = (status_word u1, u1)" by (simp add: read_status_def u1_def Let_def)
  have l1: "later (dev m) u1" "sent u1 = sent (dev m)" by (simp_all add: u1_def)
  show ?case
  proof (cases "rx_ready u1")
    case False
    then have "m' = m\<lparr>dev := u1\<rparr>" using 1(2) by (subst (asm) drain.simps) (simp add: st status_rx)
    then show ?thesis using l1 False by (intro exI [of _ "[]"]) (auto simp: later_def)
  next
    case True
    obtain d u2 where r: "read_rxdata u1 = (d, u2)" by fastforce
    have in1: "incoming (tick u1) = ucast (d AND 0xFF) # incoming u2"
      using read_rxdata_ready [OF True r] by simp
    have e2: "tx_ie u2 = tx_ie u1" "rx_ie u2 = rx_ie u1" "sent u2 = sent u1"
      using r tick_sent [of u1] by (auto simp: read_rxdata_def Let_def sent_def split: list.splits)
    obtain u3 where u3: "uart_putc (ucast (d AND 0xFF)) u2 = Some u3" "drain (m\<lparr>dev := u3, irq_chars := irq_chars m + 1\<rparr>) = Some m'"
      using 1(2) True by (subst (asm) drain.simps) (auto simp: st status_rx r bind_eq_Some_conv)
    let ?c = "ucast (d AND 0xFF) :: u8"
    have "status_word u1 AND UART_RX_READY_BIT \<noteq> 0" using True by (simp add: status_rx)
    from 1(1) [OF st [symmetric] refl this refl r [symmetric] u3] obtain bs where
      bs: "sent (dev m') = sent u3 @ bs" "m' = m\<lparr>dev := dev m', irq_chars := irq_chars m + 1 + of_nat (length bs)\<rparr>"
        "\<not> rx_ready (dev m')" "subseq (bs @ incoming (dev m')) (incoming u3)"
        "length (incoming u3) \<le> FIFO_DEPTH \<longrightarrow> incoming u3 = bs @ incoming (dev m')"
        "tx_ie (dev m') = tx_ie u3" "rx_ie (dev m') = rx_ie u3" by auto
    have l3: "later u2 u3" using u3(1) by (rule later_putc)
    have s3: "sent u3 = sent u2 @ [?c]" using uart_putc_spec [OF u3(1)] by simp
    have l2: "later (dev m) (tick u1)" using l1(1) by (rule later_trans) simp
    have sub: "subseq ((?c # bs) @ incoming (dev m')) (incoming (dev m))"
    proof -
      have "subseq (bs @ incoming (dev m')) (incoming u2)" using bs(4) l3 by (auto simp: later_def intro: subseq_order.trans)
      then have "subseq (?c # bs @ incoming (dev m')) (incoming (tick u1))" unfolding in1 by simp
      then show ?thesis using l2 by (auto simp: later_def intro: subseq_order.trans)
    qed
    have all: "incoming (dev m) = (?c # bs) @ incoming (dev m')" if "length (incoming (dev m)) \<le> FIFO_DEPTH"
    proof -
      have "incoming (dev m) = ?c # incoming u2" using l2 in1 that by (simp add: later_def)
      moreover from this have "length (incoming u2) \<le> FIFO_DEPTH" using that by simp
      ultimately show ?thesis using l3 bs(5) by (simp add: later_def)
    qed
    show ?thesis
      using bs(1,2,3,6,7) s3 e2 l1(2) l3 sub all
      by (intro exI [of _ "?c # bs"]) (auto simp: later_def u1_def algebra_simps)
  qed
qed

definition hex32 :: "u32 \<Rightarrow> u8 list" where
  "hex32 v = bytes ''0x'' @ hex_digits 8 v"

text \<open>The line the handler prints on entry.\<close>

definition entry_text :: "u32 \<Rightarrow> u32 \<Rightarrow> u8 list" where
  "entry_text cause pc = [0x48] @ hex32 cause @ [0x40] @ hex32 pc @ [0x20]"

lemma on_dev_seq: "do { m \<leftarrow> on_dev f m; on_dev g m } = on_dev (\<lambda>u. do { u \<leftarrow> f u; g u }) m"
  by (cases "f (dev m)") (auto simp: on_dev_def)

lemma trap_handler_entry:
  "trap_handler m = do {
     m \<leftarrow> on_dev (each uart_putc (entry_text (mcause m) (mepc m))) m;
     if mcause m = MCAUSE_MSI then on_dev (uart_putc 0x58) (m\<lparr>msip := 0, msi_count := msi_count m + 1\<rparr>)
     else if mcause m = MCAUSE_ECALL_M then on_dev (uart_putc 0x58) (m\<lparr>mepc := mepc m + 4, sync_traps := sync_traps m + 1\<rparr>)
     else if mcause m \<noteq> MCAUSE_MEI then
       (let m = m\<lparr>bad_cause := mcause m, mstatus := mstatus m AND NOT MSTATUS_MIE, bad_traps := bad_traps m + 1\<rparr> in
        if bad_traps m \<ge> 4 then None else on_dev (uart_putc 0x58) m)
     else do { m \<leftarrow> drain m; on_dev (uart_putc 0x58) m } }"
proof -
  have hex: "uart_put_hex32 v u = each uart_putc (hex32 v) u" for v u
    by (simp add: uart_put_hex32_each hex32_def)
  show ?thesis
    by (simp add: trap_handler_def on_dev_def entry_text_def each_append hex Let_def Option.bind_assoc cong: bind_option_cong if_cong)
qed


section \<open>The handler returns\<close>

lemma tick_credit: "tx_credit k u \<le> Suc (tx_credit k (tick u))"
proof (cases "fair_sched k (sched u)")
  case True
  have "length (sched u) \<le> Suc (length (tl (sched u)))" by simp
  then have "length (sched u) div Suc k \<le> Suc (length (tl (sched u))) div Suc k" by (rule div_le_mono)
  also have "\<dots> \<le> (length (tl (sched u)) + Suc k) div Suc k" by (rule div_le_mono) simp
  also have "\<dots> = Suc (length (tl (sched u)) div Suc k)" using div_add_self2 [of "Suc k" "length (tl (sched u))"] by simp
  finally show ?thesis
    using True fair_sched_drop [OF True, of 1] by (simp add: tx_credit_def sched_tick drop_Suc del: length_tl)
qed (simp add: tx_credit_def)

lemma read_rxdata_keeps:
  assumes "read_rxdata u = (d, u')"
  shows "sched u' = sched (tick u)" and "fifo_ok u \<Longrightarrow> fifo_ok u'"
  using assms tick_fifo_ok [of u] by (auto simp: read_rxdata_def Let_def fifo_ok_def split: list.splits)

lemma later_length: "later u v \<Longrightarrow> length (incoming v) \<le> length (incoming u)"
  unfolding later_def using list_emb_length by blast

lemma drain_live:
  "fifo_ok (dev m) \<Longrightarrow> 3 * length (incoming (dev m)) < tx_credit k (dev m) \<Longrightarrow>
     \<exists>m'. drain m = Some m' \<and> fifo_ok (dev m') \<and> tx_credit k (dev m) \<le> 3 * length (incoming (dev m)) + 1 + tx_credit k (dev m')"
proof (induction m rule: drain.induct)
  case (1 m)
  define u1 where "u1 = tick (dev m)"
  have st: "read_status (dev m) = (status_word u1, u1)" by (simp add: read_status_def u1_def Let_def)
  have ok1: "fifo_ok u1" "tx_credit k (dev m) \<le> Suc (tx_credit k u1)"
    using 1(2) tick_fifo_ok tick_credit by (simp_all add: u1_def)
  show ?case
  proof (cases "rx_ready u1")
    case False
    then have "drain m = Some (m\<lparr>dev := u1\<rparr>)" by (subst drain.simps) (simp add: st status_rx)
    then show ?thesis using ok1 by simp
  next
    case True
    obtain d u2 where r: "read_rxdata u1 = (d, u2)" by fastforce
    let ?c = "ucast (d AND 0xFF) :: u8"
    have "later (dev m) (tick u1)" unfolding u1_def by (rule later_trans [OF later_tick later_tick])
    moreover have "incoming (tick u1) = ?c # incoming u2" using read_rxdata_ready [OF True r] by simp
    ultimately have len: "Suc (length (incoming u2)) \<le> length (incoming (dev m))"
      using later_length [of "dev m" "tick u1"] by simp
    have ok2: "fifo_ok u2" "tx_credit k u1 \<le> Suc (tx_credit k u2)"
    proof -
      show "fifo_ok u2" using read_rxdata_keeps(2) [OF r] ok1(1) by simp
      have "tx_credit k u2 = tx_credit k (tick u1)" using read_rxdata_keeps(1) [OF r] by (simp add: tx_credit_def)
      then show "tx_credit k u1 \<le> Suc (tx_credit k u2)" using tick_credit [of k u1] by simp
    qed
    have "0 < tx_credit k u2" using ok1(2) ok2(2) 1(3) len by linarith
    with uart_putc_live [OF ok2(1)] obtain u3 where
      u3: "uart_putc ?c u2 = Some u3" "tx_credit k u2 \<le> Suc (tx_credit k u3)" by blast
    have ok3: "fifo_ok u3" using uart_putc_spec [OF u3(1)] ok2(1) by simp
    have len3: "length (incoming u3) \<le> length (incoming u2)"
      by (rule later_length [OF later_putc [OF u3(1)]])
    have credit: "3 * length (incoming u3) < tx_credit k u3" using ok1(2) ok2(2) u3(2) 1(3) len len3 by linarith
    have "status_word u1 AND UART_RX_READY_BIT \<noteq> 0" using True by (simp add: status_rx)
    from 1(1) [OF st [symmetric] refl this refl r [symmetric] u3(1)] ok3 credit obtain m' where
      m': "drain (m\<lparr>dev := u3, irq_chars := irq_chars m + 1\<rparr>) = Some m'" "fifo_ok (dev m')"
        "tx_credit k u3 \<le> 3 * length (incoming u3) + 1 + tx_credit k (dev m')" by auto
    have "drain m = Some m'"
      using m'(1) u3(1) True by (subst drain.simps) (simp add: st status_rx r)
    moreover have "tx_credit k (dev m) \<le> 3 * length (incoming (dev m)) + 1 + tx_credit k (dev m')"
      using ok1(2) ok2(2) u3(2) m'(3) len len3 by linarith
    ultimately show ?thesis using m'(2) by blast
  qed
qed

lemma length_entry_text: "length (entry_text c p) = 23"
  by (simp add: entry_text_def hex32_def hex_digits_def)

text \<open>What the handler does on an external interrupt, given that it returns.\<close>

lemma trap_handler_mei:
  assumes "mcause m = MCAUSE_MEI" and "trap_handler m = Some m'"
  shows "\<exists>bs. sent (dev m') = sent (dev m) @ entry_text MCAUSE_MEI (mepc m) @ bs @ [0x58]
    \<and> m' = m\<lparr>dev := dev m', irq_chars := irq_chars m + of_nat (length bs)\<rparr>
    \<and> subseq (bs @ incoming (dev m')) (incoming (dev m))
    \<and> (length (incoming (dev m)) \<le> FIFO_DEPTH \<longrightarrow> incoming (dev m) = bs @ incoming (dev m'))
    \<and> tx_ie (dev m') = tx_ie (dev m) \<and> rx_ie (dev m') = rx_ie (dev m) \<and> (rx_ready (dev m) \<longrightarrow> bs \<noteq> [])"
proof -
  from assms obtain u m2 u3 where
    u: "each uart_putc (entry_text MCAUSE_MEI (mepc m)) (dev m) = Some u"
    and m2: "drain (m\<lparr>dev := u\<rparr>) = Some m2" and u3: "uart_putc 0x58 (dev m2) = Some u3" "m' = m2\<lparr>dev := u3\<rparr>"
    unfolding trap_handler_entry by (auto simp: on_dev_def bind_eq_Some_conv causes)
  from drain_spec [OF m2] obtain bs where
    bs: "sent (dev m2) = sent u @ bs" "m2 = m\<lparr>dev := dev m2, irq_chars := irq_chars m + of_nat (length bs)\<rparr>"
      "subseq (bs @ incoming (dev m2)) (incoming u)"
      "length (incoming u) \<le> FIFO_DEPTH \<longrightarrow> incoming u = bs @ incoming (dev m2)"
      "tx_ie (dev m2) = tx_ie u" "rx_ie (dev m2) = rx_ie u" "rx_ready u \<longrightarrow> bs \<noteq> []" by auto
  have l: "later (dev m) u" "later (dev m2) u3" using u u3(1) by (simp_all add: later_each later_putc)
  have s: "sent u = sent (dev m) @ entry_text MCAUSE_MEI (mepc m)" "sent u3 = sent (dev m2) @ [0x58]"
    using polled.each_log [OF u] uart_putc_spec [OF u3(1)] by simp_all
  have "subseq (bs @ incoming u3) (bs @ incoming (dev m2))" using l(2) by (simp only: later_def subseq_append')
  then have "subseq (bs @ incoming u3) (incoming (dev m))"
    using bs(3) l(1) by (auto simp: later_def intro: subseq_order.trans)
  moreover have "incoming (dev m) = bs @ incoming u3" if "length (incoming (dev m)) \<le> FIFO_DEPTH"
    using l bs(4) that by (auto simp: later_def)
  moreover have m': "m' = m\<lparr>dev := u3, irq_chars := irq_chars m + of_nat (length bs)\<rparr>"
    by (subst u3(2), subst bs(2)) simp
  moreover have "sent u3 = sent (dev m) @ entry_text MCAUSE_MEI (mepc m) @ bs @ [0x58]" using s bs(1) by simp
  moreover have "tx_ie u3 = tx_ie (dev m)" "rx_ie u3 = rx_ie (dev m)" using bs(5,6) l by (simp_all add: later_def)
  moreover have "rx_ready (dev m) \<longrightarrow> bs \<noteq> []" using bs(7) l(1) by (simp add: later_def)
  ultimately show ?thesis by (intro exI [of _ bs]) simp
qed


section \<open>Asleep for good\<close>

lemma mret_after_mask: "bit (mret_status (entry_status s AND NOT MSTATUS_MIE)) 3 \<longleftrightarrow> bit s 3"
  by (simp add: mret_status_def entry_status_def MSTATUS_MIE_def bit_simps)

definition asleep :: "machine \<Rightarrow> bool" where
  "asleep m \<longleftrightarrow> incoming (dev m) = [] \<and> \<not> tx_ie (dev m) \<and> \<not> mtip m \<and> \<not> bit (msip m) 0"

lemma asleep_quiet: "asleep m \<Longrightarrow> \<not> int_pending m"
  by (simp add: asleep_def int_pending_def mip_def uart_irq_def rx_ready_def incoming_def)

lemma asleep_tick: "asleep m \<Longrightarrow> asleep (m\<lparr>dev := tick (dev m)\<rparr>)"
  by (simp add: asleep_def incoming_tick_empty)

lemma wfi_asleep: "asleep m \<Longrightarrow> wfi img m = None"
proof (rule ccontr)
  assume a: "asleep m" and "wfi img m \<noteq> None"
  then obtain m' where "wfi img m = Some m'" by auto
  then have "\<not> asleep m"
  proof (rule wfi.raw_induct [where P = "\<lambda>_ m _. \<not> asleep m", rotated])
    fix w :: "image \<Rightarrow> machine \<Rightarrow> machine option" and img m y
    assume "\<And>img m y. w img m = Some y \<Longrightarrow> \<not> asleep m"
      and "(if int_pending m then boundary img m else w img (m\<lparr>dev := tick (dev m)\<rparr>)) = Some y"
    then show "\<not> asleep m" using asleep_quiet [of m] asleep_tick [of m] by (auto split: if_splits)
  qed
  then show False using a by simp
qed

lemma boundary_asleep: "asleep m \<Longrightarrow> boundary img m = Some m"
  by (simp add: boundary_def asleep_quiet)

lemma sleep_loop_stuck:
  assumes "unat (irq_chars m) < PHASE_CHARS" and "bad_cause m = 0"
    and "bit (mstatus m) 3" and "mie m = MIE_MEIE" and "rx_ie (dev m)" and "\<not> tx_ie (dev m)"
    and "\<not> mtip m" and "\<not> bit (msip m) 0" and "incoming (dev m) = [b]" and "rx_ready (tick (dev m))"
    and "trap_target MCAUSE_MEI m = handler_addr img"
  shows "sleep_loop img m = None"
proof -
  let ?m = "m\<lparr>dev := tick (dev m)\<rparr>"
  have irq: "uart_irq (tick (dev m))" using assms(5,10) by (simp add: uart_irq_def)
  have pend: "int_pending ?m" "int_cause ?m = MCAUSE_MEI"
    using assms(3,4) irq by (auto simp: int_pending_def int_cause_def mip_def MIP_MEIP_def MIE_MEIE_def bit_simps)
  have one: "incoming (tick (dev m)) = [b]" using assms(9) by (subst incoming_tick) (simp_all add: FIFO_DEPTH_def)
  have target: "trap_target MCAUSE_MEI ?m = handler_addr img" using assms(11) by (simp add: trap_target_def)
  show ?thesis
  proof (cases "trap_handler (enter MCAUSE_MEI (int_addr img) ?m)")
    case None
    then have "rd img irq_chars m = None" by (simp add: rd_def pass_def boundary_def pend take_trap_def)
    then show ?thesis by (subst sleep_loop.simps) simp
  next
    case (Some h)
    have e: "mcause (enter MCAUSE_MEI (int_addr img) ?m) = MCAUSE_MEI" "dev (enter MCAUSE_MEI (int_addr img) ?m) = tick (dev m)"
      by (simp_all add: enter_def)
    from trap_handler_mei [OF e(1) Some] obtain bs where
      h: "h = (enter MCAUSE_MEI (int_addr img) ?m)\<lparr>dev := dev h, irq_chars := irq_chars m + of_nat (length bs)\<rparr>"
        "[b] = bs @ incoming (dev h)" "bs \<noteq> []" "tx_ie (dev h) = tx_ie (dev m)"
      unfolding e using one assms(10) by (auto simp: FIFO_DEPTH_def enter_def)
    let ?h = "h\<lparr>mstatus := mret_status (mstatus h)\<rparr>"
    have f: "mtip h = mtip m" "msip h = msip m" "bad_cause h = bad_cause m"
      by (subst h(1), simp add: enter_def)+
    have "incoming (dev h) = []" using h(2,3) by (cases bs) auto
    then have as: "asleep ?h" using f h(4) assms(6-8) by (simp add: asleep_def)
    have "rd img irq_chars m = Some (irq_chars m, ?h)"
      by (simp add: rd_def pass_def boundary_def pend take_trap_def Some target)
    moreover have "rd img bad_cause ?h = Some (0, ?h\<lparr>dev := tick (dev ?h)\<rparr>)"
      using boundary_asleep [OF asleep_tick [OF as]] f(3) assms(2) by (simp add: rd_def pass_def)
    moreover have "wfi img (?h\<lparr>dev := tick (dev ?h)\<rparr>) = None" by (rule wfi_asleep [OF asleep_tick [OF as]])
    ultimately show ?thesis using assms(1) by (subst sleep_loop.simps) simp
  qed
qed


section \<open>What every step keeps\<close>

text \<open>Characters counted or still to come.\<close>

definition in_play :: "machine \<Rightarrow> nat" where
  "in_play m = unat (irq_chars m) + length (incoming (dev m))"

definition good :: "machine \<Rightarrow> bool" where
  "good m \<longleftrightarrow> bad_cause m = 0 \<and> \<not> mtip m \<and> in_play m < 2 ^ 32"

text \<open>From \<open>m\<close> to \<open>m'\<close> no unexpected trap was taken, and the count of characters has not gone down.\<close>

definition goes :: "machine \<Rightarrow> machine \<Rightarrow> bool" where
  "goes m m' \<longleftrightarrow> (good m \<longrightarrow> good m' \<and> unat (irq_chars m) \<le> unat (irq_chars m')) \<and> marker m' = marker m"

definition keeps :: "(machine \<Rightarrow> machine option) \<Rightarrow> bool" where
  "keeps f \<longleftrightarrow> (\<forall>m m'. f m = Some m' \<longrightarrow> goes m m')"

definition keeps2 :: "(machine \<Rightarrow> ('a \<times> machine) option) \<Rightarrow> bool" where
  "keeps2 f \<longleftrightarrow> (\<forall>m x m'. f m = Some (x, m') \<longrightarrow> goes m m')"

named_theorems keeps_rules \<open>steps of the program that keep the machine good\<close>

lemma goes_refl [simp]: "goes m m"
  by (simp add: goes_def)

lemma goes_trans: "goes m m' \<Longrightarrow> goes m' m'' \<Longrightarrow> goes m m''"
  by (auto simp: goes_def)

lemma keepsD: "keeps f \<Longrightarrow> f m = Some m' \<Longrightarrow> goes m m'"
  by (simp add: keeps_def)

lemma keeps2D: "keeps2 f \<Longrightarrow> f m = Some (x, m') \<Longrightarrow> goes m m'"
  by (simp add: keeps2_def)

lemma keeps_bind [keeps_rules]: "keeps f \<Longrightarrow> keeps g \<Longrightarrow> keeps (\<lambda>m. Option.bind (f m) g)"
  unfolding keeps_def bind_eq_Some_conv by (blast intro: goes_trans)

lemma keeps_bind2 [keeps_rules]: "keeps2 f \<Longrightarrow> (\<And>x. keeps (g x)) \<Longrightarrow> keeps (\<lambda>m. Option.bind (f m) (\<lambda>(x, m). g x m))"
  by (auto simp: keeps_def keeps2_def bind_eq_Some_conv) (blast intro: goes_trans)

lemma keeps_if [keeps_rules]: "keeps f \<Longrightarrow> keeps g \<Longrightarrow> keeps (\<lambda>m. if P then f m else g m)"
  by (simp add: keeps_def)

lemma keeps_Some [keeps_rules]: "keeps Some" "keeps (\<lambda>m. None)"
  by (simp_all add: keeps_def)

lemma keeps_each [keeps_rules]: "(\<And>x. keeps (f x)) \<Longrightarrow> keeps (each f xs)"
proof (induction xs)
  case Nil
  then show ?case using keeps_Some(1) by (simp add: keeps_def)
next
  case (Cons x xs)
  then show ?case using keeps_bind [of "f x" "each f xs"] by simp
qed

lemma goes_later: "later (dev m) u \<Longrightarrow> goes m (m\<lparr>dev := u\<rparr>)"
  using later_length [of "dev m" u] by (auto simp: goes_def good_def in_play_def)

lemma take_trap_goes:
  assumes "cause \<in> {MCAUSE_MEI, MCAUSE_MSI, MCAUSE_ECALL_M}" and "take_trap img cause pc m = Some m'"
  shows "goes m m'"
proof -
  let ?e = "enter cause pc m"
  from assms(2) obtain h where h: "trap_handler ?e = Some h" "m' = h\<lparr>mstatus := mret_status (mstatus h)\<rparr>"
    by (auto simp: take_trap_def bind_eq_Some_conv split: if_splits)
  have e: "mcause ?e = cause" "dev ?e = dev m" "irq_chars ?e = irq_chars m" "bad_cause ?e = bad_cause m"
    "mtip ?e = mtip m" "marker ?e = marker m" by (simp_all add: enter_def)
  show ?thesis
  proof (cases "cause = MCAUSE_MEI")
    case True
    from trap_handler_mei [OF _ h(1)] e True obtain bs where
      bs: "h = ?e\<lparr>dev := dev h, irq_chars := irq_chars m + of_nat (length bs)\<rparr>" "subseq (bs @ incoming (dev h)) (incoming (dev m))"
      by auto
    have f: "irq_chars h = irq_chars m + of_nat (length bs)" "bad_cause h = bad_cause m" "mtip h = mtip m" "marker h = marker m"
      by (subst bs(1), simp add: e)+
    have len: "length bs + length (incoming (dev h)) \<le> length (incoming (dev m))"
      using list_emb_length [OF bs(2)] by simp
    have "unat (irq_chars h) = unat (irq_chars m) + length bs" if "in_play m < 2 ^ 32"
      using that len unfolding f(1) in_play_def by (subst unat_add_lem [THEN iffD1]) (simp_all add: unat_of_nat take_bit_nat_eq_self)
    then show ?thesis using h(2) f len by (auto simp: goes_def good_def in_play_def)
  next
    case False
    then obtain u v where uv: "each uart_putc (entry_text cause pc) (dev m) = Some u" "uart_putc 0x58 u = Some v" "dev h = v"
      "irq_chars h = irq_chars m" "bad_cause h = bad_cause m" "mtip h = mtip m" "marker h = marker m"
      using h(1) assms(1) unfolding trap_handler_entry
      by (auto simp: on_dev_def bind_eq_Some_conv enter_def causes split: if_splits)
    then have "later (dev m) v" by (blast intro: later_trans later_each later_putc)
    then have "length (incoming (dev h)) \<le> length (incoming (dev m))" using uv(3) later_length by simp
    then show ?thesis using h(2) uv(4-7) by (auto simp: goes_def good_def in_play_def)
  qed
qed

lemma take_trap_marker: "take_trap img cause pc m = Some m' \<Longrightarrow> marker m' = marker m"
proof -
  assume "take_trap img cause pc m = Some m'"
  moreover have "trap_handler n = Some h \<Longrightarrow> marker h = marker n" for n h
  proof -
    have drained: "drain a = Some b \<Longrightarrow> marker b = marker a" for a b
      using drain_spec [of a b] by (metis (no_types, lifting) machine.select_convs machine.surjective machine.update_convs(1,11))
    show "trap_handler n = Some h \<Longrightarrow> marker h = marker n"
      unfolding trap_handler_entry by (auto simp: on_dev_def bind_eq_Some_conv Let_def split: if_splits dest: drained)
  qed
  ultimately show ?thesis by (auto simp: take_trap_def bind_eq_Some_conv enter_def split: if_splits)
qed

lemma int_cause_known:
  assumes "int_pending m" and "\<not> mtip m"
  shows "int_cause m \<in> {MCAUSE_MEI, MCAUSE_MSI}"
proof -
  have "(0x800 :: u32) = 2 ^ 11" "(8 :: u32) = 2 ^ 3" by simp_all
  then have b: "w AND 0x800 = 0 \<longleftrightarrow> \<not> bit w 11" "w AND 8 = 0 \<longleftrightarrow> \<not> bit w 3" for w :: u32
    by (simp_all only: and_exp_eq_0_iff_not_bit)
  have "mip m AND mie m AND 0x888 = (mip m AND 0x888) AND mie m" by (simp only: ac_simps)
  also have "mip m AND 0x888 = mip m" using assms(2) by (simp add: mip_def MIP_MEIP_def)
  finally have "mip m AND mie m \<noteq> 0" using assms(1) by (simp add: int_pending_def)
  moreover have "mie m AND 0x808 = (mie m AND 0x800) OR (mie m AND 8)" by (simp flip: bit.conj_disj_distrib)
  ultimately have "bit (mip m AND mie m) 11 \<or> bit (mip m AND mie m) 3"
    using assms(2) b [of "mie m"]
    by (cases "uart_irq (dev m)"; cases "bit (msip m) 0") (auto simp: mip_def MIP_MEIP_def bit_simps and.commute)
  then show ?thesis by (auto simp: int_cause_def)
qed

lemma keeps_boundary [keeps_rules]: "keeps (boundary img)"
proof -
  have "goes m m'" if run: "boundary img m = Some m'" for m m'
  proof (cases "int_pending m \<and> \<not> mtip m")
    case True
    then have "int_cause m \<in> {MCAUSE_MEI, MCAUSE_MSI, MCAUSE_ECALL_M}" using int_cause_known by blast
    then show ?thesis using run True by (auto simp: boundary_def intro: take_trap_goes)
  next
    case False
    then show ?thesis using run
      by (auto simp: boundary_def goes_def good_def split: if_splits dest: take_trap_marker)
  qed
  then show ?thesis by (simp add: keeps_def)
qed


lemma goes_dev_tick [simp]: "goes m (m\<lparr>dev := tick (dev m)\<rparr>)"
  by (rule goes_later) simp

lemma goes_csr [simp]:
  "goes m (m\<lparr>mie := v\<rparr>)" "goes m (m\<lparr>mstatus := v\<rparr>)" "goes m (m\<lparr>mtvec := v\<rparr>)" "goes m (m\<lparr>msip := v\<rparr>)" "goes m (csr_write r v m)"
  by (cases r; simp add: goes_def good_def in_play_def)+

lemma goes_ctrl [simp]: "goes m (m\<lparr>dev := write_ctrl w (dev m)\<rparr>)"
proof -
  have "incoming (write_ctrl w (dev m)) = incoming (tick (dev m))" by (simp add: write_ctrl_def incoming_def Let_def)
  then show ?thesis
    using later_length [OF later_tick, of "dev m"] by (auto simp: goes_def good_def in_play_def)
qed

lemma keeps_boundary_upd [keeps_rules]: "(\<And>m. goes m (f m)) \<Longrightarrow> keeps (\<lambda>m. boundary img (f m))"
  using keeps_boundary unfolding keeps_def by (blast intro: goes_trans)

lemma keepsI: "(\<And>m. f m = g m) \<Longrightarrow> keeps g \<Longrightarrow> keeps f"
  by (simp add: keeps_def)

lemma keeps_pass: "(\<And>m. goes m (f m)) \<Longrightarrow> keeps (\<lambda>m. pass img (f m))"
  unfolding pass_def by (rule keeps_boundary_upd) (blast intro: goes_trans goes_dev_tick)

lemma keeps2_rd [keeps_rules]: "keeps2 (rd img f)"
  using keeps_pass [of "\<lambda>m. m" img] by (auto simp: rd_def keeps2_def keeps_def bind_eq_Some_conv)

lemma later_read_status: "read_status u = (st, u') \<Longrightarrow> later u u'"
  by (auto simp: read_status_def Let_def)

lemma goes_read_rxdata: "read_rxdata (dev m) = (d, u) \<Longrightarrow> goes m (m\<lparr>dev := u\<rparr>)"
proof -
  assume "read_rxdata (dev m) = (d, u)"
  then have "length (incoming u) \<le> length (incoming (tick (dev m)))"
    by (auto simp: read_rxdata_def Let_def incoming_def split: list.splits)
  then show ?thesis
    using later_length [OF later_tick, of "dev m"] by (auto simp: goes_def good_def in_play_def)
qed

lemma goes_boundary: "goes m n \<Longrightarrow> boundary img n = Some m' \<Longrightarrow> goes m m'"
  using keepsD [OF keeps_boundary] goes_trans by blast

lemma keeps_m_putc [keeps_rules]: "keeps (m_putc img c)"
proof -
  have "goes m m'" if "m_putc img c m = Some m'" for m m'
    using that
  proof (rule m_putc.raw_induct [where P = "\<lambda>img c m m'. goes m m'", rotated])
    fix p :: "image \<Rightarrow> u8 \<Rightarrow> machine \<Rightarrow> machine option" and img c m y
    assume IH: "\<And>img c m y. p img c m = Some y \<Longrightarrow> goes m y"
      and run: "(let (st, u) = read_status (dev m) in do { m \<leftarrow> boundary img (m\<lparr>dev := u\<rparr>);
        if st AND UART_TX_READY_BIT \<noteq> 0 then do { u \<leftarrow> write_txdata (ucast c) (dev m); boundary img (m\<lparr>dev := u\<rparr>) }
        else p img c m }) = Some y"
    obtain st u where r: "read_status (dev m) = (st, u)" by fastforce
    from run r obtain n where n: "boundary img (m\<lparr>dev := u\<rparr>) = Some n"
      and rest: "(if st AND UART_TX_READY_BIT \<noteq> 0 then do { u \<leftarrow> write_txdata (ucast c) (dev n); boundary img (n\<lparr>dev := u\<rparr>) }
        else p img c n) = Some y" by (auto simp: bind_eq_Some_conv)
    have "goes m n" using goes_boundary [OF goes_later [OF later_read_status [OF r]] n] .
    moreover have "goes n y"
      using rest IH goes_later [OF later_write_txdata, of "ucast c" n]
      by (auto simp: bind_eq_Some_conv split: if_splits dest!: goes_boundary [rotated])
    ultimately show "goes m y" by (rule goes_trans)
  qed
  then show ?thesis by (simp add: keeps_def)
qed

lemma keeps2_m_getc [keeps_rules]: "keeps2 (m_getc img)"
proof -
  have "goes m (snd r)" if "m_getc img m = Some r" for m r
    using that
  proof (rule m_getc.raw_induct [where P = "\<lambda>img m r. goes m (snd r)", rotated])
    fix p :: "image \<Rightarrow> machine \<Rightarrow> (u8 \<times> machine) option" and img m y
    assume IH: "\<And>img m y. p img m = Some y \<Longrightarrow> goes m (snd y)"
      and run: "(let (st, u) = read_status (dev m) in do { m \<leftarrow> boundary img (m\<lparr>dev := u\<rparr>);
        if st AND UART_RX_READY_BIT \<noteq> 0 then
          let (d, u) = read_rxdata (dev m) in do { m \<leftarrow> boundary img (m\<lparr>dev := u\<rparr>); Some (ucast (d AND 0xFF), m) }
        else p img m }) = Some y"
    obtain st u where r: "read_status (dev m) = (st, u)" by fastforce
    from run r obtain n where n: "boundary img (m\<lparr>dev := u\<rparr>) = Some n"
      and rest: "(if st AND UART_RX_READY_BIT \<noteq> 0 then
          let (d, u) = read_rxdata (dev n) in do { m \<leftarrow> boundary img (n\<lparr>dev := u\<rparr>); Some (ucast (d AND 0xFF), m) }
        else p img n) = Some y" by (auto simp: bind_eq_Some_conv)
    have "goes m n" using goes_boundary [OF goes_later [OF later_read_status [OF r]] n] .
    moreover have "goes n (snd y)"
      using rest IH goes_read_rxdata [of n]
      by (auto simp: bind_eq_Some_conv split: if_splits prod.splits dest!: goes_boundary [rotated])
    ultimately show "goes m (snd y)" by (rule goes_trans)
  qed
  then show ?thesis by (fastforce simp: keeps2_def)
qed

lemma keeps_wait_meip [keeps_rules]: "keeps (wait_meip img)"
proof -
  have "goes m m'" if "wait_meip img m = Some m'" for m m'
    using that
  proof (rule wait_meip.raw_induct [where P = "\<lambda>img m m'. goes m m'", rotated])
    fix p :: "image \<Rightarrow> machine \<Rightarrow> machine option" and img m y
    assume "\<And>img m y. p img m = Some y \<Longrightarrow> goes m y"
      and "do { (v, m) \<leftarrow> rd img mip m; if v AND MIP_MEIP \<noteq> 0 then Some m else p img m } = Some y"
    then show "goes m y"
      by (auto simp: bind_eq_Some_conv split: if_splits dest!: keeps2D [OF keeps2_rd] intro: goes_trans)
  qed
  then show ?thesis by (simp add: keeps_def)
qed

lemma keeps_wfi [keeps_rules]: "keeps (wfi img)"
proof -
  have "goes m m'" if "wfi img m = Some m'" for m m'
    using that
  proof (rule wfi.raw_induct [where P = "\<lambda>img m m'. goes m m'", rotated])
    fix p :: "image \<Rightarrow> machine \<Rightarrow> machine option" and img m y
    assume "\<And>img m y. p img m = Some y \<Longrightarrow> goes m y"
      and "(if int_pending m then boundary img m else p img (m\<lparr>dev := tick (dev m)\<rparr>)) = Some y"
    then show "goes m y"
      by (auto split: if_splits intro: goes_boundary [OF goes_refl] goes_trans [OF goes_dev_tick])
  qed
  then show ?thesis by (simp add: keeps_def)
qed

text \<open>The loop ends with the characters of the phase counted, unless an unexpected trap was taken.\<close>

lemma sleep_loop_end:
  assumes "sleep_loop img m = Some m'"
  shows "goes m m' \<and> (good m \<longrightarrow> PHASE_CHARS \<le> unat (irq_chars m'))"
  using assms
proof (rule sleep_loop.raw_induct [where P = "\<lambda>img m m'. goes m m' \<and> (good m \<longrightarrow> PHASE_CHARS \<le> unat (irq_chars m'))", rotated])
  fix p :: "image \<Rightarrow> machine \<Rightarrow> machine option" and img m y
  assume IH: "\<And>img m y. p img m = Some y \<Longrightarrow> goes m y \<and> (good m \<longrightarrow> PHASE_CHARS \<le> unat (irq_chars y))"
    and run: "do { (n, m) \<leftarrow> rd img irq_chars m;
      if unat n < PHASE_CHARS then do { (b, m) \<leftarrow> rd img bad_cause m; if b = 0 then do { m \<leftarrow> wfi img m; p img m } else Some m }
      else Some m } = Some y"
  have rdD: "goes a b \<and> v = f a" if "rd img f a = Some (v, b)" for f :: "machine \<Rightarrow> u32" and a v b
    using that keeps2D [OF keeps2_rd that] by (auto simp: rd_def bind_eq_Some_conv)
  from run obtain n1 where n1: "rd img irq_chars m = Some (irq_chars m, n1)"
    and rest: "(if unat (irq_chars m) < PHASE_CHARS then do { (b, m) \<leftarrow> rd img bad_cause n1; if b = 0 then do { m \<leftarrow> wfi img m; p img m } else Some m }
      else Some n1) = Some y"
    by (auto simp: bind_eq_Some_conv dest: rdD)
  have g1: "goes m n1" using rdD [OF n1] by simp
  show "goes m y \<and> (good m \<longrightarrow> PHASE_CHARS \<le> unat (irq_chars y))"
  proof (cases "unat (irq_chars m) < PHASE_CHARS")
    case False
    then show ?thesis using rest g1 by (auto simp: goes_def)
  next
    case True
    with rest obtain n2 where n2: "rd img bad_cause n1 = Some (bad_cause n1, n2)"
      and rest2: "(if bad_cause n1 = 0 then do { m \<leftarrow> wfi img n2; p img m } else Some n2) = Some y"
      by (auto simp: bind_eq_Some_conv dest: rdD)
    have g2: "goes m n2" using g1 rdD [OF n2] goes_trans by blast
    show ?thesis
    proof (cases "bad_cause n1 = 0")
      case False
      then show ?thesis using rest2 g1 g2 by (auto simp: goes_def good_def)
    next
      case True
      with rest2 obtain n3 where n3: "wfi img n2 = Some n3" "p img n3 = Some y" by (auto simp: bind_eq_Some_conv)
      have "goes m n3" using g2 keepsD [OF keeps_wfi n3(1)] goes_trans by blast
      then show ?thesis using IH [OF n3(2)] by (auto simp: goes_def)
    qed
  qed
qed

lemma keeps_sleep_loop [keeps_rules]: "keeps (sleep_loop img)"
  using sleep_loop_end by (simp add: keeps_def)

lemma keeps_ecall [keeps_rules]: "keeps (ecall img)"
proof -
  have "goes m m'" if "ecall img m = Some m'" for m m'
    using that keeps_pass [of "\<lambda>m. m" img, simplified]
    by (auto simp: ecall_def bind_eq_Some_conv split: if_splits dest!: take_trap_goes [rotated] dest: keepsD intro: goes_trans)
  then show ?thesis by (simp add: keeps_def)
qed

lemma keeps_msi_spin [keeps_rules]: "keeps (msi_spin img spin)"
proof -
  have "msi_spin img spin m = Some m' \<Longrightarrow> goes m m'" for m m'
  proof (induction "unat MSI_SPIN_LIMIT - spin" arbitrary: spin m rule: less_induct)
    case less
    have "spin + 1 < unat MSI_SPIN_LIMIT \<Longrightarrow> msi_spin img (spin + 1) n = Some m' \<Longrightarrow> goes n m'" for n
      by (rule less(1)) simp_all
    then show ?case using less(2)
      by (subst (asm) msi_spin.simps)
        (auto simp: bind_eq_Some_conv split: if_splits dest!: keeps2D [OF keeps2_rd] intro: goes_trans)
  qed
  then show ?thesis by (simp add: keeps_def)
qed

lemma keeps_puts [keeps_rules]: "keeps (m_puts img s)" "keeps (m_put_hex32 img v)"
  unfolding m_puts_def m_put_hex32_def by (intro keeps_rules)+

lemma keeps_csr [keeps_rules]:
  "keeps (csrs_mie img b)" "keeps (csrc_mie img b)" "keeps (csrsi_mstatus img b)" "keeps (csrci_mstatus img b)" "keeps (m_ctrl img b)"
  by (rule keepsI [OF csrs_mie_def] keepsI [OF csrc_mie_def] keepsI [OF csrsi_mstatus_def] keepsI [OF csrci_mstatus_def]
      keepsI [OF m_ctrl_def]; intro keeps_pass keeps_boundary_upd; simp)+

lemma keeps_show_csr [keeps_rules]: "keeps (show_csr img s f)"
  by (rule keepsI [OF show_csr_def]) (intro keeps_rules)

lemma keeps_rb: "(\<And>v. keeps (g v)) \<Longrightarrow> keeps (\<lambda>m. g (f m) m)"
  by (simp add: keeps_def)

lemma keeps_CSR_WALK [keeps_rules]: "keeps (CSR_WALK img r v)"
proof -
  have "keeps (\<lambda>m. do { m \<leftarrow> m_puts img ('' '' @ csr_name r @ ''='') m; m_put_hex32 img x m })" for x
    by (intro keeps_rules)
  from keeps_bind [OF keeps_pass keeps_rb [of "\<lambda>x m. do { m \<leftarrow> m_puts img ('' '' @ csr_name r @ ''='') m; m_put_hex32 img x m }", OF this]]
  show ?thesis by (rule keepsI [rotated]) (simp_all add: CSR_WALK_def Let_def)
qed

lemma keeps_csr_bit_walk [keeps_rules]: "keeps (csr_bit_walk img v)"
  by (rule keepsI [OF csr_bit_walk_def]) (intro keeps_rules)

lemma keeps_echo_loop [keeps_rules]: "keeps (echo_loop img n)"
proof (induction n)
  case 0
  show ?case by (rule keepsI [OF echo_loop.simps(1)]) (rule keeps_rules)
next
  case (Suc n)
  show ?case by (rule keepsI [OF echo_loop.simps(2)]) (intro keeps_rules Suc)
qed

lemma keeps_phases [keeps_rules]:
  "keeps (print_checks img)" "keeps (phase_1 img)" "keeps (phase_2a img)" "keeps (msi_report img)"
     apply (rule keepsI [OF print_checks_def]; intro keeps_rules)
    apply (rule keepsI [OF phase_1_def]; intro keeps_rules)
   apply (rule keepsI [OF phase_2a_def]; intro keeps_rules)
  apply (rule keepsI [OF msi_report_def]; intro keeps_rules)
  done

lemma keeps_phases' [keeps_rules]:
  "keeps (arm_traps img)" "keeps (phase_msi img)" "keeps (phase_2bc img)"
    apply (rule keepsI [OF arm_traps_def]; intro keeps_rules keeps_pass goes_csr)
   apply (rule keepsI [OF phase_msi_def]; intro keeps_rules keeps_pass goes_csr)
  apply (rule keepsI [OF phase_2bc_def]; intro keeps_rules)
  done


lemma verdict_good:
  assumes "verdict img m = Some m'" and "good m \<and> PHASE_CHARS \<le> unat (irq_chars m)"
  shows "marker m' = Some 0x600D \<and> bad_cause m' = 0 \<and> PHASE_CHARS \<le> unat (irq_chars m')"
proof -
  from assms(1) obtain m1 m2 m3 where m: "m_ctrl img 0 m = Some m1" "rd img bad_cause m1 = Some (bad_cause m1, m2)"
      "rd img irq_chars m2 = Some (irq_chars m2, m3)"
    and rest: "(if bad_cause m1 \<noteq> 0 \<or> unat (irq_chars m2) < PHASE_CHARS then do {
       m \<leftarrow> pass img (m3\<lparr>marker := Some 0xBAD\<rparr>); m_puts img (''BAD'' @ CRLF) m }
     else do { m \<leftarrow> pass img (m3\<lparr>marker := Some 0x600D\<rparr>); m_puts img (''GOOD'' @ CRLF) m }) = Some m'"
    by (auto simp: verdict_def bind_eq_Some_conv rd_def)
  have g1: "goes m m1" by (rule keepsD [OF keeps_csr(5) m(1)])
  have g2: "goes m m2" by (rule goes_trans [OF g1 keeps2D [OF keeps2_rd m(2)]])
  have g3: "goes m m3" by (rule goes_trans [OF g2 keeps2D [OF keeps2_rd m(3)]])
  have "bad_cause m1 = 0 \<and> PHASE_CHARS \<le> unat (irq_chars m2)" using g1 g2 assms(2) by (auto simp: goes_def good_def)
  with rest obtain m4 where m4: "pass img (m3\<lparr>marker := Some 0x600D\<rparr>) = Some m4" "m_puts img (''GOOD'' @ CRLF) m4 = Some m'"
    by (auto simp: bind_eq_Some_conv)
  have "goes (m3\<lparr>marker := Some 0x600D\<rparr>) m'"
    using keepsD [OF keeps_pass [OF goes_refl] m4(1)] keepsD [OF keeps_puts(1) m4(2)] goes_trans by blast
  moreover have "good (m3\<lparr>marker := Some 0x600D\<rparr>)" "PHASE_CHARS \<le> unat (irq_chars m3)"
    using g3 assms(2) by (auto simp: goes_def good_def in_play_def)
  ultimately show ?thesis by (auto simp: goes_def good_def)
qed

section \<open>The properties\<close>

lemma fair_sched_1: "(\<And>es. es \<in> set s \<Longrightarrow> Ship \<in> set es) \<Longrightarrow> fair_sched (Suc 0) s"
proof (unfold fair_sched_def, intro allI impI)
  fix i
  assume each_slot: "\<And>es. es \<in> set s \<Longrightarrow> Ship \<in> set es" and "i + Suc 0 \<le> length s"
  then have "take (Suc 0) (drop i s) = [s ! i]" "s ! i \<in> set s" by (simp_all add: take_Suc_conv_app_nth)
  then show "Ship \<in> set (concat (take (Suc 0) (drop i s)))" using each_slot by simp
qed

lemma trap_handler_mei_live:
  assumes "mcause m = MCAUSE_MEI" and "fifo_ok (dev m)" and "3 * length (incoming (dev m)) + 25 \<le> tx_credit k (dev m)"
  shows "\<exists>m'. trap_handler m = Some m'"
proof -
  have "length (entry_text MCAUSE_MEI (mepc m)) \<le> tx_credit k (dev m)" using assms(3) by (simp add: length_entry_text)
  from live.each_live [OF assms(2) this] obtain u where
    u: "each uart_putc (entry_text MCAUSE_MEI (mepc m)) (dev m) = Some u" "tx_credit k (dev m) \<le> 23 + tx_credit k u"
    by (auto simp: length_entry_text)
  have ok: "fifo_ok u" by (rule polled.each_ok [OF u(1) assms(2)])
  have "length (incoming u) \<le> length (incoming (dev m))" by (rule later_length [OF later_each [OF u(1)]])
  then have "3 * length (incoming u) + 2 \<le> tx_credit k u" using u(2) assms(3) by linarith
  moreover from this drain_live [of "m\<lparr>dev := u\<rparr>" k] ok obtain m2 where
    m2: "drain (m\<lparr>dev := u\<rparr>) = Some m2" "fifo_ok (dev m2)" "tx_credit k u \<le> 3 * length (incoming u) + 1 + tx_credit k (dev m2)"
    by auto
  ultimately have "0 < tx_credit k (dev m2)" by linarith
  with uart_putc_live [OF m2(2)] obtain u3 where "uart_putc 0x58 (dev m2) = Some u3" by blast
  with u(1) m2(1) assms(1) show ?thesis unfolding trap_handler_entry by (simp add: on_dev_def causes)
qed

text \<open>C36: On an external interrupt the handler returns whenever the device ships bytes often enough. It prints
  its entry line, then echoes a run of the received bytes in order, then an \<open>X\<close>; it counts exactly the bytes
  it echoed, echoes at least one when one is queued, loses none if the FIFO can hold what arrives, and
  changes nothing else.\<close>

theorem trap_handler_echoes:
  assumes "mcause m = MCAUSE_MEI" and "fifo_ok (dev m)" and "3 * length (incoming (dev m)) + 25 \<le> tx_credit k (dev m)"
  shows "\<exists>m' bs. trap_handler m = Some m'
    \<and> sent (dev m') = sent (dev m) @ entry_text MCAUSE_MEI (mepc m) @ bs @ [0x58]
    \<and> m' = m\<lparr>dev := dev m', irq_chars := irq_chars m + of_nat (length bs)\<rparr>
    \<and> subseq (bs @ incoming (dev m')) (incoming (dev m))
    \<and> (length (incoming (dev m)) \<le> FIFO_DEPTH \<longrightarrow> incoming (dev m) = bs @ incoming (dev m'))
    \<and> (rx_ready (dev m) \<longrightarrow> bs \<noteq> [])"
proof -
  obtain m' where m': "trap_handler m = Some m'" using trap_handler_mei_live [OF assms] by blast
  with trap_handler_mei [OF assms(1) m'] show ?thesis by blast
qed

definition handler_example :: machine where
  "handler_example = (boot (idle_uart\<lparr>rx_fifo := [0x41], sched := replicate 60 [Ship]\<rparr>))\<lparr>mcause := MCAUSE_MEI, mepc := 0x80\<rparr>"

lemma tx_credit_shipping: "tx_credit (Suc 0) (u\<lparr>sched := replicate n [Ship]\<rparr>) = n div 2"
  using fair_sched_1 [of "replicate n [Ship]"] by (simp add: tx_credit_def flip: numeral_2_eq_2)

lemma trap_handler_echoes_witness:
  "\<exists>m' bs. trap_handler handler_example = Some m'
    \<and> sent (dev m') = entry_text MCAUSE_MEI 0x80 @ bs @ [0x58]
    \<and> bs @ incoming (dev m') = [0x41] \<and> bs \<noteq> []"
proof -
  have e: "dev handler_example = idle_uart\<lparr>rx_fifo := [0x41], sched := replicate 60 [Ship]\<rparr>"
    "mcause handler_example = MCAUSE_MEI" "mepc handler_example = 0x80"
    by (simp_all add: handler_example_def boot_def)
  have inc: "incoming (dev handler_example) = [0x41]" "fifo_ok (dev handler_example)" "sent (dev handler_example) = []"
    "rx_ready (dev handler_example)"
    by (simp_all add: e idle_uart_def incoming_def arrivals_def fifo_ok_def FIFO_DEPTH_def sent_def rx_ready_def)
  have "3 * length (incoming (dev handler_example)) + 25 \<le> tx_credit 1 (dev handler_example)"
    unfolding inc(1) unfolding e by (simp add: tx_credit_shipping)
  from trap_handler_echoes [OF e(2) inc(2) this] show ?thesis
    unfolding inc(1,3) e(3) by (auto simp: FIFO_DEPTH_def inc(4))
qed

text \<open>The handler's masking of interrupts on an unexpected trap has no effect: \<open>csrci mstatus, MIE\<close> clears a bit
  that trap entry has already cleared, and \<open>mret\<close> puts back the enable saved in \<open>MPIE\<close>. So after the first three
  unexpected traps interrupts are enabled as they were before the trap.\<close>

theorem trap_handler_mask_undone:
  assumes "cause \<notin> {MCAUSE_MEI, MCAUSE_MSI, MCAUSE_ECALL_M}" and "bad_traps m < 3"
    and "fifo_ok (dev m)" and "24 \<le> tx_credit k (dev m)" and "trap_target cause m = handler_addr img"
  shows "\<exists>m'. take_trap img cause pc m = Some m' \<and> bad_cause m' = cause \<and> bad_traps m' = bad_traps m + 1
    \<and> sent (dev m') = sent (dev m) @ entry_text cause pc @ [0x58] \<and> bit (mstatus m') 3 = bit (mstatus m) 3"
proof -
  let ?e = "enter cause pc m"
  have "length (entry_text cause pc @ [0x58]) \<le> tx_credit k (dev m)" using assms(4) by (simp add: length_entry_text)
  from live.each_live [OF assms(3) this] obtain u v where
    u: "each uart_putc (entry_text cause pc) (dev m) = Some u" "uart_putc 0x58 u = Some v"
      "sent v = sent (dev m) @ entry_text cause pc @ [0x58]"
    by (auto simp: each_append bind_eq_Some_conv)
  have "\<not> 4 \<le> bad_traps m + 1"
    using assms(2) by (simp add: word_le_nat_alt word_less_nat_alt unat_word_ariths)
  then have "trap_handler ?e = Some (?e\<lparr>bad_cause := cause, mstatus := mstatus ?e AND NOT MSTATUS_MIE,
      bad_traps := bad_traps m + 1, dev := v\<rparr>)"
    using assms(1) u(1,2) unfolding trap_handler_entry by (simp add: on_dev_def enter_def)
  then show ?thesis
    using u(3) mret_after_mask [of "mstatus m"] assms(5) by (simp add: take_trap_def enter_def)
qed

lemma trap_handler_mask_undone_witness:
  "\<exists>m'. take_trap \<lparr>handler_addr = 0, ecall_addr = 0x200, int_addr = 0x300\<rparr> MCAUSE_MTI 0x80 ((boot (idle_uart\<lparr>sched := replicate 60 [Ship]\<rparr>))\<lparr>mstatus := 0x1808\<rparr>) = Some m'
    \<and> bad_cause m' = MCAUSE_MTI \<and> bit (mstatus m') 3"
proof -
  let ?m = "(boot (idle_uart\<lparr>sched := replicate 60 [Ship]\<rparr>))\<lparr>mstatus := 0x1808\<rparr>"
  have "24 \<le> tx_credit (Suc 0) (dev ?m)" by (simp add: boot_def tx_credit_shipping)
  from trap_handler_mask_undone [OF _ _ _ this, of MCAUSE_MTI "\<lparr>handler_addr = 0, ecall_addr = 0x200, int_addr = 0x300\<rparr>" "0x80"] show ?thesis
    by (auto simp: boot_def causes fifo_ok_def idle_uart_def FIFO_DEPTH_def trap_target_def)
qed

text \<open>C37: With \<open>mtvec\<close> at the handler, the check of \<open>irq_chars\<close> and the \<open>wfi\<close> behind it are not atomic. When the fourth character raises its
  interrupt right after the loop has read \<open>irq_chars\<close> = 3, the handler counts it, but the program goes on to sleep
  with the old value, and as no character is left to come it never wakes up: it neither reports nor ends although all
  four characters were echoed.\<close>

theorem sleep_loop_lost_wakeup:
  assumes "irq_chars m = 3" and "bad_cause m = 0"
    and "bit (mstatus m) 3" and "mie m = MIE_MEIE" and "rx_ie (dev m)" and "\<not> tx_ie (dev m)"
    and "\<not> mtip m" and "\<not> bit (msip m) 0" and "incoming (dev m) = [b]" and "rx_ready (tick (dev m))"
    and "fifo_ok (dev m)" and "29 \<le> tx_credit k (dev m)" and "trap_target MCAUSE_MEI m = handler_addr img"
  shows "(\<exists>m'. rd img irq_chars m = Some (3, m') \<and> unat (irq_chars m') = PHASE_CHARS) \<and> sleep_loop img m = None"
proof -
  let ?m = "m\<lparr>dev := tick (dev m)\<rparr>"
  let ?e = "enter MCAUSE_MEI (int_addr img) ?m"
  have irq: "uart_irq (tick (dev m))" using assms(5,10) by (simp add: uart_irq_def)
  have pend: "int_pending ?m" "int_cause ?m = MCAUSE_MEI"
    using assms(3,4) irq by (auto simp: int_pending_def int_cause_def mip_def MIP_MEIP_def MIE_MEIE_def bit_simps)
  have one: "incoming (tick (dev m)) = [b]" using assms(9) by (subst incoming_tick) (simp_all add: FIFO_DEPTH_def)
  have e: "mcause ?e = MCAUSE_MEI" "dev ?e = tick (dev m)" by (simp_all add: enter_def)
  have target: "trap_target MCAUSE_MEI ?m = handler_addr img" using assms(13) by (simp add: trap_target_def)
  have "fifo_ok (dev ?e)" "3 * length (incoming (dev ?e)) + 25 \<le> tx_credit k (dev ?e)"
    unfolding e one using assms(11,12) tick_credit [of k "dev m"] by (simp_all add: tick_fifo_ok)
  from trap_handler_mei_live [OF e(1) this] obtain h where h: "trap_handler ?e = Some h" by blast
  from trap_handler_mei [OF e(1) h] obtain bs where
    bs: "h = ?e\<lparr>dev := dev h, irq_chars := irq_chars m + of_nat (length bs)\<rparr>" "[b] = bs @ incoming (dev h)" "bs \<noteq> []"
    unfolding e using one assms(10) by (auto simp: FIFO_DEPTH_def enter_def)
  have "length bs = 1" using bs(2,3) by (cases bs) auto
  then have "irq_chars h = 4" by (subst bs(1)) (simp add: assms(1))
  then have "rd img irq_chars m = Some (3, h\<lparr>mstatus := mret_status (mstatus h)\<rparr>) \<and> unat (irq_chars h) = PHASE_CHARS"
    by (simp add: rd_def pass_def boundary_def pend take_trap_def target h assms(1) PHASE_CHARS_def)
  moreover have "sleep_loop img m = None"
    using assms by (intro sleep_loop_stuck) (auto simp: PHASE_CHARS_def)
  ultimately show ?thesis by simp
qed

definition about_to_sleep :: machine where
  "about_to_sleep = (boot (idle_uart\<lparr>rx_ie := True, sched := [Arrive 0x41, Ship] # replicate 60 [Ship]\<rparr>))
     \<lparr>irq_chars := 3, mstatus := 0x1808, mie := MIE_MEIE, mtvec := 0x100\<rparr>"

lemma sleep_loop_lost_wakeup_witness:
  "(\<exists>m'. rd \<lparr>handler_addr = 0x100, ecall_addr = 0x200, int_addr = 0x300\<rparr> irq_chars about_to_sleep = Some (3, m')
     \<and> unat (irq_chars m') = PHASE_CHARS)
   \<and> sleep_loop \<lparr>handler_addr = 0x100, ecall_addr = 0x200, int_addr = 0x300\<rparr> about_to_sleep = None"
proof (rule sleep_loop_lost_wakeup [where b = "0x41" and k = 1])
  have "fair_sched (Suc 0) ([Arrive 0x41, Ship] # replicate 60 [Ship])" by (rule fair_sched_1) auto
  then show "29 \<le> tx_credit 1 (dev about_to_sleep)"
    by (simp add: about_to_sleep_def boot_def tx_credit_def flip: numeral_2_eq_2)
qed (simp_all add: about_to_sleep_def boot_def idle_uart_def incoming_def arrivals_def fifo_ok_def FIFO_DEPTH_def rx_ready_def tick_def trap_target_def)

text \<open>The program never reports a failure. Whatever the order and timing of the received characters (fewer than
  \<open>2 ^ 32\<close> of them) and of the interrupts, if \<open>main\<close> reaches its end, it has set the marker \<open>0x600D\<close>, after no unexpected
  trap and at least \<open>PHASE_CHARS\<close> characters counted by the handler.\<close>

lemma echo_main_never_bad:
  assumes "length (incoming u) < 2 ^ 32"
    and main: "echo_main img (boot u) = Some m'"
  shows "marker m' = Some 0x600D \<and> bad_cause m' = 0 \<and> PHASE_CHARS \<le> unat (irq_chars m')"
proof -
  let ?pre = "\<lambda>m. do {
     m \<leftarrow> print_checks img m;
     m \<leftarrow> phase_1 img m;
     m \<leftarrow> arm_traps img m;
     m \<leftarrow> phase_2a img m;
     m \<leftarrow> phase_msi img m;
     m \<leftarrow> csrs_mie img MIE_MEIE m;
     m \<leftarrow> csrsi_mstatus img MSTATUS_MIE m;
     m \<leftarrow> show_csr img ''MST2 '' mstatus m;
     m_puts img CRLF m }"
  have pre: "keeps ?pre" by (intro keeps_rules)
  have "echo_main img (boot u) = do { m \<leftarrow> ?pre (boot u); m \<leftarrow> sleep_loop img m; m \<leftarrow> csrci_mstatus img MSTATUS_MIE m; verdict img m }"
    by (simp add: echo_main_def phase_2bc_def)
  with main obtain m1 m2 m3 where run: "?pre (boot u) = Some m1" "sleep_loop img m1 = Some m2"
      "csrci_mstatus img MSTATUS_MIE m2 = Some m3" "verdict img m3 = Some m'"
    by (auto simp: bind_eq_Some_conv)
  have "good (boot u)" using assms(1) by (simp add: good_def in_play_def boot_def)
  then have "good m1" using keepsD [OF pre run(1)] by (simp add: goes_def)
  then have "good m3 \<and> PHASE_CHARS \<le> unat (irq_chars m3)"
    using sleep_loop_end [OF run(2)] keepsD [OF keeps_csr(4) run(3)] by (auto simp: goes_def)
  then show ?thesis using verdict_good [OF run(4)] by simp
qed

section \<open>A run to the end\<close>

text \<open>All input is in the receive FIFO, and the transmitter cannot interrupt.\<close>

definition closed :: "uart \<Rightarrow> bool" where
  "closed u \<longleftrightarrow> fifo_ok u \<and> arrivals (concat (sched u)) = [] \<and> \<not> tx_ie u"

text \<open>\<open>v\<close> is \<open>u\<close> after some writing.\<close>

definition written :: "uart \<Rightarrow> uart \<Rightarrow> bool" where
  "written u v \<longleftrightarrow> rx_fifo v = rx_fifo u \<and> rx_ie v = rx_ie u \<and> closed v"

lemma written_refl [simp]: "closed u \<Longrightarrow> written u u"
  by (simp add: written_def)

lemma written_trans: "written u v \<Longrightarrow> written v w \<Longrightarrow> written u w"
  by (simp add: written_def)

lemma closed_tx [simp]: "closed u \<Longrightarrow> length x \<le> FIFO_DEPTH \<Longrightarrow> closed (u\<lparr>tx_fifo := x\<rparr>)"
  by (simp add: closed_def fifo_ok_def)

lemma fold_ship: "arrivals es = [] \<Longrightarrow> rx_fifo (fold hw_event es u) = rx_fifo u"
proof (induction es arbitrary: u)
  case (Cons e es)
  then show ?case by (cases e) (auto split: list.splits)
qed simp

lemma written_tick [simp]: "closed u \<Longrightarrow> written u (tick u)"
proof (cases "sched u")
  case (Cons es rest)
  assume "closed u"
  then show ?thesis using Cons tick_fifo_ok [of u]
    by (simp add: written_def closed_def tick_def fold_ship)
qed (simp add: tick_idle)

lemma written_write_txdata: "closed u \<Longrightarrow> write_txdata w u = Some v \<Longrightarrow> written u v"
proof (induction w u rule: write_txdata.induct)
  case (1 w u)
  note t = written_tick [OF 1(2)]
  show ?case
  proof (cases "tx_ready (tick u)")
    case True
    then have "v = (tick u)\<lparr>tx_fifo := tx_fifo (tick u) @ [ucast w]\<rparr>" using 1(3) by (simp add: write_txdata.simps [of w u])
    then show ?thesis using t True by (simp add: written_def tx_ready_def)
  next
    case False
    then have "sched u \<noteq> []" "write_txdata w (tick u) = Some v" using 1(3) by (auto simp: write_txdata.simps [of w u] split: if_splits)
    then show ?thesis using 1(1) [OF False] t written_trans by (auto simp: written_def)
  qed
qed

lemma written_putc: "closed u \<Longrightarrow> uart_putc c u = Some v \<Longrightarrow> written u v"
proof -
  assume u: "closed u" and "uart_putc c u = Some v"
  then obtain w where w: "wait_status UART_TX_READY_BIT u = Some w" "write_txdata (ucast c) w = Some v"
    by (auto simp: uart_putc_def bind_eq_Some_conv)
  have "written u (tick x)" if "written u x" for x using that written_tick [of x] by (auto simp: written_def)
  from wait_status_inv [OF w(1), of "written u", OF this] u have "written u w" by simp
  then show ?thesis using written_write_txdata [OF _ w(2)] by (auto simp: written_def)
qed

lemma written_each: "closed u \<Longrightarrow> each uart_putc cs u = Some v \<Longrightarrow> written u v"
  by (rule each_invariant [where P = "written u"]) (auto simp: written_def dest: written_putc)

lemma closed_read: "closed u \<Longrightarrow> read_rxdata u = (d, v) \<Longrightarrow> closed v \<and> rx_ie v = rx_ie u"
  using written_tick [of u] by (auto simp: read_rxdata_def Let_def written_def closed_def fifo_ok_def split: list.splits)

lemma closed_drain: "drain m = Some m' \<Longrightarrow> closed (dev m) \<Longrightarrow> closed (dev m')"
proof (induction m rule: drain.induct)
  case (1 m)
  obtain st u1 where r: "read_status (dev m) = (st, u1)" by fastforce
  have c1: "closed u1" using r written_tick [OF 1(3)] by (auto simp: read_status_def Let_def written_def)
  obtain d u2 where d: "read_rxdata u1 = (d, u2)" by fastforce
  show ?case
  proof (cases "st AND UART_RX_READY_BIT \<noteq> 0")
    case True
    with 1(2) r d obtain u3 where u3: "uart_putc (ucast (d AND 0xFF)) u2 = Some u3"
      "drain (m\<lparr>dev := u3, irq_chars := irq_chars m + 1\<rparr>) = Some m'"
      by (subst (asm) drain.simps) (auto simp: bind_eq_Some_conv)
    have "closed u3" using written_putc [OF _ u3(1)] closed_read [OF c1 d] by (simp add: written_def)
    then show ?thesis using 1(1) [OF r [symmetric] refl True refl d [symmetric] u3(1,2)] by simp
  next
    case False
    then show ?thesis using 1(2) r c1 by (subst (asm) drain.simps) auto
  qed
qed

text \<open>What a run of the program is followed by: the registers and variables of the program and the received characters.\<close>

definition face :: "machine \<Rightarrow> u32 \<times> u32 \<times> u32 \<times> bool \<times> u32 \<times> u32 \<times> u32 \<times> u32 \<times> u32 \<times> u32 \<times> u8 list \<times> bool" where
  "face m = (mstatus m, mie m, mtvec m, mtip m, msip m, irq_chars m, sync_traps m, msi_count m, bad_cause m, bad_traps m,
     rx_fifo (dev m), rx_ie (dev m))"

definition still :: "machine \<Rightarrow> bool" where
  "still m \<longleftrightarrow> closed (dev m) \<and> \<not> int_pending m"

lemma face_pending:
  assumes "face m' = face m" and "closed (dev m)" and "closed (dev m')"
  shows "mip m' = mip m" and "int_pending m' = int_pending m"
proof -
  have "uart_irq (dev m') = uart_irq (dev m)"
    using assms by (simp add: face_def closed_def uart_irq_def rx_ready_def)
  then show "mip m' = mip m" "int_pending m' = int_pending m" using assms(1) by (simp_all add: face_def mip_def int_pending_def)
qed

lemma still_written:
  assumes "still m" and "written (dev m) u"
  shows "still (m\<lparr>dev := u\<rparr>)" and "face (m\<lparr>dev := u\<rparr>) = face m"
proof -
  show f: "face (m\<lparr>dev := u\<rparr>) = face m" using assms(2) by (simp add: face_def written_def)
  then show "still (m\<lparr>dev := u\<rparr>)" using face_pending [OF f] assms by (simp add: still_def written_def)
qed

lemma still_boundary: "still m \<Longrightarrow> boundary img m = Some m"
  by (simp add: still_def boundary_def)

text \<open>Steps that only write, and take at most \<open>n\<close> of the shipping credit.\<close>

definition costs :: "nat \<Rightarrow> nat \<Rightarrow> (machine \<Rightarrow> machine option) \<Rightarrow> bool" where
  "costs k n f \<longleftrightarrow> (\<forall>m. still m \<longrightarrow> n \<le> tx_credit k (dev m) \<longrightarrow>
     (\<exists>m'. f m = Some m' \<and> face m' = face m \<and> still m' \<and> tx_credit k (dev m) \<le> n + tx_credit k (dev m')))"

named_theorems costs_rules \<open>what the steps of the program cost\<close>

lemma costsD:
  assumes "costs k n f" and "still m" and "n \<le> tx_credit k (dev m)"
  obtains m' where "f m = Some m'" "face m' = face m" "still m'" "tx_credit k (dev m) \<le> n + tx_credit k (dev m')"
  using assms by (auto simp: costs_def)

lemma costs_mono: "costs k a f \<Longrightarrow> a \<le> n \<Longrightarrow> costs k n f"
  unfolding costs_def by (metis (no_types, opaque_lifting) add_le_mono1 le_trans)

lemma costs_bind [costs_rules]:
  assumes "costs k a f" and "costs k b g"
  shows "costs k (a + b) (\<lambda>m. Option.bind (f m) g)"
  unfolding costs_def
proof (intro allI impI)
  fix m
  assume m: "still m" "a + b \<le> tx_credit k (dev m)"
  then obtain m1 where 1: "f m = Some m1" "face m1 = face m" "still m1" "tx_credit k (dev m) \<le> a + tx_credit k (dev m1)"
    using costsD [OF assms(1), of m] by auto
  moreover from this m obtain m2 where "g m1 = Some m2" "face m2 = face m1" "still m2" "tx_credit k (dev m1) \<le> b + tx_credit k (dev m2)"
    using costsD [OF assms(2), of m1] by auto
  ultimately show "\<exists>m'. Option.bind (f m) g = Some m' \<and> face m' = face m \<and> still m' \<and> tx_credit k (dev m) \<le> a + b + tx_credit k (dev m')"
    by auto
qed

lemma m_putc_written:
  assumes "wait_status UART_TX_READY_BIT u = Some u1"
  shows "u = dev m \<longrightarrow> still m \<longrightarrow> write_txdata (ucast c) u1 = Some v \<longrightarrow> m_putc img c m = Some (m\<lparr>dev := v\<rparr>)"
  using assms
proof (induction "UART_TX_READY_BIT" u arbitrary: m rule: wait_status_cases)
  case (1 u)
  show ?case
  proof (intro impI)
    assume u: "u = dev m" "still m" and v: "write_txdata (ucast c) u1 = Some v"
    have t: "still (m\<lparr>dev := tick u\<rparr>)" using u still_written [OF u(2) written_tick] by (simp add: still_def)
    show "m_putc img c m = Some (m\<lparr>dev := v\<rparr>)"
    proof (cases "tx_ready (tick u)")
      case True
      then have "u1 = tick u" using 1(2) by (subst (asm) wait_status_unfold) (simp add: status_tx)
      moreover have "still (m\<lparr>dev := v\<rparr>)"
        using still_written(1) [OF t, of v] written_write_txdata [OF _ v] t calculation by (simp add: still_def)
      ultimately show ?thesis using True v u still_boundary [OF t] still_boundary [of "m\<lparr>dev := v\<rparr>"]
        by (subst m_putc.simps) (simp add: read_status_def Let_def status_tx)
    next
      case False
      then have "sched u \<noteq> []" "wait_status UART_TX_READY_BIT (tick u) = Some u1"
        using 1(2) by (subst (asm) wait_status_unfold, simp add: status_tx split: if_splits)+
      then have "m_putc img c (m\<lparr>dev := tick u\<rparr>) = Some (m\<lparr>dev := v\<rparr>)"
        using 1(1) False t v by (simp add: status_tx)
      then show ?thesis using False u still_boundary [OF t]
        by (subst m_putc.simps) (simp add: read_status_def Let_def status_tx)
    qed
  qed
qed

lemma costs_putc [costs_rules]: "costs k 1 (m_putc img c)"
  unfolding costs_def
proof (intro allI impI)
  fix m
  assume m: "still m" "1 \<le> tx_credit k (dev m)"
  then obtain v where v: "uart_putc c (dev m) = Some v" "tx_credit k (dev m) \<le> Suc (tx_credit k v)"
    using uart_putc_live [of "dev m" k c] by (auto simp: still_def closed_def)
  then obtain w where "wait_status UART_TX_READY_BIT (dev m) = Some w" "write_txdata (ucast c) w = Some v"
    by (auto simp: uart_putc_def bind_eq_Some_conv)
  then have "m_putc img c m = Some (m\<lparr>dev := v\<rparr>)" using m_putc_written m(1) by blast
  moreover have "written (dev m) v" using written_putc [OF _ v(1)] m(1) by (simp add: still_def)
  ultimately show "\<exists>m'. m_putc img c m = Some m' \<and> face m' = face m \<and> still m' \<and> tx_credit k (dev m) \<le> 1 + tx_credit k (dev m')"
    using still_written [OF m(1)] v(2) by auto
qed

lemma costs_each [costs_rules]: "(\<And>x. costs k 1 (f x)) \<Longrightarrow> costs k (length xs) (each f xs)"
proof (induction xs)
  case (Cons x xs)
  then show ?case using costs_bind [of k 1 "f x" "length xs" "each f xs"] by simp
qed (simp add: costs_def)

lemma costs_puts [costs_rules]: "costs k (length s) (m_puts img s)" "costs k 10 (m_put_hex32 img v)"
  using costs_each [of k "m_putc img" "bytes s", OF costs_putc] costs_each [of k "m_putc img" "bytes ''0x'' @ hex_digits 8 v", OF costs_putc]
  by (simp_all add: m_puts_def m_put_hex32_def bytes_def hex_digits_def)

text \<open>A step without an access to the device.\<close>

lemma pass_still:
  assumes "closed (dev m)" and "\<not> int_pending m"
  shows "pass img m = Some (m\<lparr>dev := tick (dev m)\<rparr>)" "still (m\<lparr>dev := tick (dev m)\<rparr>)" "face (m\<lparr>dev := tick (dev m)\<rparr>) = face m"
    "tx_credit k (dev m) \<le> 1 + tx_credit k (dev (m\<lparr>dev := tick (dev m)\<rparr>))"
proof -
  have m: "still m" using assms by (simp add: still_def)
  show s: "still (m\<lparr>dev := tick (dev m)\<rparr>)" "face (m\<lparr>dev := tick (dev m)\<rparr>) = face m"
    using still_written [OF m written_tick [OF assms(1)]] by simp_all
  then show "pass img m = Some (m\<lparr>dev := tick (dev m)\<rparr>)" by (simp add: pass_def still_boundary)
  show "tx_credit k (dev m) \<le> 1 + tx_credit k (dev (m\<lparr>dev := tick (dev m)\<rparr>))" using tick_credit [of k "dev m"] by simp
qed

lemma costs_pass:
  assumes "\<And>m. face (f m) = face m" and "\<And>m. dev (f m) = dev m"
  shows "costs k 1 (\<lambda>m. pass img (f m))"
  unfolding costs_def
proof (intro allI impI)
  fix m assume m: "still m"
  have "closed (dev (f m))" "\<not> int_pending (f m)" using m face_pending [of "f m" m] assms by (simp_all add: still_def)
  from pass_still [OF this] show "\<exists>m'. pass img (f m) = Some m' \<and> face m' = face m \<and> still m' \<and> tx_credit k (dev m) \<le> 1 + tx_credit k (dev m')"
    using assms by metis
qed

lemma costs_rd [costs_rules]:
  assumes "\<And>v. costs k n (g v)"
  shows "costs k (1 + n) (\<lambda>m. Option.bind (rd img f m) (\<lambda>(v, m). g v m))"
proof -
  have "costs k (1 + n) (\<lambda>m. Option.bind (pass img m) (g v))" for v
    by (rule costs_bind [OF costs_pass assms]) simp_all
  then show ?thesis by (simp add: costs_def rd_def)
qed

lemma costs_show_csr [costs_rules]: "costs k (length s + 11) (show_csr img s f)"
  unfolding show_csr_def by (rule costs_mono, (rule costs_rules)+) simp

lemma costs_CSR_WALK [costs_rules]: "costs k 21 (CSR_WALK img r v)"
proof -
  have p: "costs k 1 (\<lambda>m. pass img (csr_write r v m))" by (rule costs_pass) (cases r; simp add: face_def)+
  have "costs k (length ('' '' @ csr_name r @ ''='') + 10) (\<lambda>m. do { m \<leftarrow> m_puts img ('' '' @ csr_name r @ ''='') m; m_put_hex32 img x m })" for x
    by (intro costs_rules)
  then have "costs k (1 + (length ('' '' @ csr_name r @ ''='') + 10)) (\<lambda>m. do { m \<leftarrow> pass img (csr_write r v m);
      let rb = csr_read r m; m \<leftarrow> m_puts img ('' '' @ csr_name r @ ''='') m; m_put_hex32 img rb m })"
    by (intro costs_bind [OF p]) (simp add: costs_def Let_def)
  then show ?thesis unfolding CSR_WALK_def by (rule costs_mono) (cases r; simp)
qed

lemma costs_csr_bit_walk [costs_rules]: "costs k 110 (csr_bit_walk img v)"
  unfolding csr_bit_walk_def by (rule costs_mono, (rule costs_rules)+) (simp add: CRLF_def)

lemma costs_print_checks: "costs k 400 (print_checks img)"
  unfolding print_checks_def by (rule costs_mono, (rule costs_rules)+) (simp add: CRLF_def)

text \<open>Polling: the loop takes the first characters from the FIFO.\<close>

lemma getc_still:
  assumes "closed (dev m)" and "mie m = 0" and "rx_fifo (dev m) = b # bs"
  shows "\<exists>m'. m_getc img m = Some (b, m') \<and> face m' = face (m\<lparr>dev := (dev m)\<lparr>rx_fifo := bs\<rparr>\<rparr>) \<and> still m'
    \<and> tx_credit k (dev m) \<le> 2 + tx_credit k (dev m')"
proof -
  let ?u = "tick (dev m)" and ?m = "m\<lparr>dev := tick (dev m)\<rparr>"
  have quiet: "boundary img n = Some n" if "mie n = 0" for n using that by (simp add: boundary_def int_pending_def)
  have u: "written (dev m) ?u" "written ?u (tick ?u)" using written_tick [OF assms(1)] written_tick [of ?u] by (auto simp: written_def)
  then have rx: "rx_ready ?u" "rx_fifo (tick ?u) = b # bs" using assms(3) by (simp_all add: written_def rx_ready_def)
  let ?v = "(tick ?u)\<lparr>rx_fifo := bs, rx_overrun := False\<rparr>"
  have d: "read_rxdata ?u = (ucast b, ?v)" using rx(2) by (simp add: read_rxdata_def Let_def)
  have "m_getc img m = Some (b, m\<lparr>dev := ?v\<rparr>)"
    using rx(1) d assms(2) by (subst m_getc.simps) (simp add: read_status_def Let_def status_rx quiet)
  moreover have "closed ?v" using u rx(2) by (auto simp: written_def closed_def fifo_ok_def)
  moreover have "tx_credit k ?v = tx_credit k (tick ?u)" by (simp add: tx_credit_def)
  then have "tx_credit k (dev m) \<le> 2 + tx_credit k ?v" using tick_credit [of k "dev m"] tick_credit [of k ?u] by simp
  ultimately show ?thesis using u assms(2)
    by (intro exI [of _ "m\<lparr>dev := ?v\<rparr>"]) (simp add: face_def still_def written_def int_pending_def)
qed

lemma echo_loop_still:
  assumes "closed (dev m)" and "mie m = 0" and "rx_fifo (dev m) = cs @ bs" and "3 * length cs \<le> tx_credit k (dev m)"
  shows "\<exists>m'. echo_loop img (length cs) m = Some m' \<and> face m' = face (m\<lparr>dev := (dev m)\<lparr>rx_fifo := bs\<rparr>\<rparr>) \<and> closed (dev m')
    \<and> tx_credit k (dev m) \<le> 3 * length cs + tx_credit k (dev m')"
  using assms
proof (induction cs arbitrary: m)
  case (Cons c cs)
  from getc_still [OF Cons.prems(1,2), of c "cs @ bs" img k] Cons.prems(3) obtain m1 where
    1: "m_getc img m = Some (c, m1)" "face m1 = face (m\<lparr>dev := (dev m)\<lparr>rx_fifo := cs @ bs\<rparr>\<rparr>)" "still m1"
      "tx_credit k (dev m) \<le> 2 + tx_credit k (dev m1)" by auto
  have "1 \<le> tx_credit k (dev m1)" using 1(4) Cons.prems(4) by simp
  from costsD [OF costs_putc 1(3) this] obtain m2 where
    2: "m_putc img c m1 = Some m2" "face m2 = face m1" "still m2" "tx_credit k (dev m1) \<le> 1 + tx_credit k (dev m2)" by blast
  have "closed (dev m2)" "mie m2 = 0" "rx_fifo (dev m2) = cs @ bs" "3 * length cs \<le> tx_credit k (dev m2)"
    using 1 2 Cons.prems by (simp_all add: still_def face_def)
  from Cons.IH [OF this] obtain m3 where "echo_loop img (length cs) m2 = Some m3"
    "face m3 = face (m2\<lparr>dev := (dev m2)\<lparr>rx_fifo := bs\<rparr>\<rparr>)" "closed (dev m3)" "tx_credit k (dev m2) \<le> 3 * length cs + tx_credit k (dev m3)" by blast
  with 1 2 show ?case by (auto simp: face_def)
qed (simp add: face_def)

text \<open>The two interrupts and the \<open>ecall\<close>.\<close>

lemma other_trap_still:
  assumes "closed (dev m)" and "24 \<le> tx_credit k (dev m)" and "trap_target cause m = handler_addr img"
    and "cause = MCAUSE_MSI \<or> cause = MCAUSE_ECALL_M"
  shows "\<exists>m'. take_trap img cause pc m = Some m' \<and> closed (dev m') \<and> tx_credit k (dev m) \<le> 24 + tx_credit k (dev m')
    \<and> mepc m' = (if cause = MCAUSE_ECALL_M then pc + 4 else pc)
    \<and> face m' = face (if cause = MCAUSE_MSI then m\<lparr>msip := 0, msi_count := msi_count m + 1, mstatus := mret_status (entry_status (mstatus m))\<rparr>
        else m\<lparr>sync_traps := sync_traps m + 1, mstatus := mret_status (entry_status (mstatus m))\<rparr>)"
proof -
  have ok: "fifo_ok (dev m)" using assms(1) by (simp add: closed_def)
  have "length (entry_text cause pc @ [0x58]) \<le> tx_credit k (dev m)" using assms(2) by (simp add: length_entry_text)
  from live.each_live [OF ok this] obtain v where v: "each uart_putc (entry_text cause pc @ [0x58]) (dev m) = Some v"
    "tx_credit k (dev m) \<le> 24 + tx_credit k v" by (auto simp: length_entry_text)
  have w: "written (dev m) v" by (rule written_each [OF assms(1) v(1)])
  from v(1) obtain u where u: "each uart_putc (entry_text cause pc) (dev m) = Some u" "uart_putc 0x58 u = Some v"
    by (auto simp: each_append bind_eq_Some_conv)
  show ?thesis
  proof (cases "cause = MCAUSE_MSI")
    case True
    then show ?thesis using assms(3) u v(2) w unfolding take_trap_def trap_handler_entry
      by (simp add: on_dev_def enter_def face_def written_def causes)
  next
    case False
    then have "cause = MCAUSE_ECALL_M" using assms(4) by blast
    then show ?thesis using assms(3) u v(2) w unfolding take_trap_def trap_handler_entry
      by (simp add: on_dev_def enter_def face_def written_def causes)
  qed
qed

lemma mei_trap_still:
  assumes "closed (dev m)" and "3 * length (rx_fifo (dev m)) + 25 \<le> tx_credit k (dev m)" and "trap_target MCAUSE_MEI m = handler_addr img"
  shows "\<exists>m'. take_trap img MCAUSE_MEI pc m = Some m' \<and> closed (dev m')
    \<and> tx_credit k (dev m) \<le> 3 * length (rx_fifo (dev m)) + 25 + tx_credit k (dev m')
    \<and> face m' = face (m\<lparr>dev := (dev m)\<lparr>rx_fifo := []\<rparr>, irq_chars := irq_chars m + of_nat (length (rx_fifo (dev m))),
        mstatus := mret_status (entry_status (mstatus m))\<rparr>)"
proof -
  have ok: "fifo_ok (dev m)" using assms(1) by (simp add: closed_def)
  have "length (entry_text MCAUSE_MEI pc) \<le> tx_credit k (dev m)" using assms(2) by (simp add: length_entry_text)
  from live.each_live [OF ok this] obtain u where u: "each uart_putc (entry_text MCAUSE_MEI pc) (dev m) = Some u"
    "tx_credit k (dev m) \<le> 23 + tx_credit k u" by (auto simp: length_entry_text)
  have w: "written (dev m) u" by (rule written_each [OF assms(1) u(1)])
  let ?h = "(enter MCAUSE_MEI pc m)\<lparr>dev := u\<rparr>"
  have inc: "incoming u = rx_fifo (dev m)" "fifo_ok u" using w by (simp_all add: incoming_def written_def closed_def)
  have cr: "3 * length (incoming (dev ?h)) < tx_credit k (dev ?h)" using inc(1) u(2) assms(2) by simp
  have okh: "fifo_ok (dev ?h)" using inc(2) by simp
  from drain_live [OF okh cr] obtain m2 where d: "drain ?h = Some m2" "fifo_ok (dev m2)"
    "tx_credit k u \<le> 3 * length (rx_fifo (dev m)) + 1 + tx_credit k (dev m2)" using inc(1) by auto
  have c2: "closed (dev m2)" using closed_drain [OF d(1)] w by (simp add: written_def)
  from drain_spec [OF d(1)] obtain bs where bs: "m2 = ?h\<lparr>dev := dev m2, irq_chars := irq_chars ?h + of_nat (length bs)\<rparr>"
    "\<not> rx_ready (dev m2)" "length (incoming u) \<le> FIFO_DEPTH \<longrightarrow> incoming u = bs @ incoming (dev m2)" "rx_ie (dev m2) = rx_ie u" by auto
  have "rx_fifo (dev m2) = []" "incoming (dev m2) = []" using bs(2) c2 by (simp_all add: rx_ready_def incoming_def closed_def)
  moreover from this have "bs = rx_fifo (dev m)" using bs(3) inc ok by (simp add: fifo_ok_def)
  moreover from u(2) d(3) assms(2) have "0 < tx_credit k (dev m2)" by simp
  with uart_putc_live [OF d(2)] obtain v where v: "uart_putc 0x58 (dev m2) = Some v" "tx_credit k (dev m2) \<le> Suc (tx_credit k v)" by blast
  moreover have "written (dev m2) v" by (rule written_putc [OF c2 v(1)])
  moreover have "take_trap img MCAUSE_MEI pc m = Some (m2\<lparr>dev := v, mstatus := mret_status (mstatus m2)\<rparr>)"
    using assms(3) u(1) d(1) v(1) unfolding take_trap_def trap_handler_entry by (simp add: on_dev_def enter_def causes)
  moreover have "mstatus m2 = entry_status (mstatus m)" by (subst bs(1)) (simp add: enter_def)
  ultimately show ?thesis using u(2) d(3) w bs(4)
    by (intro exI [of _ "m2\<lparr>dev := v, mstatus := mret_status (mstatus m2)\<rparr>"], subst (4) bs(1)) (simp add: face_def enter_def written_def)
qed

text \<open>The phases, each from the values of the registers and variables before it.\<close>

lemma pass_quiet:
  assumes "closed (dev m)" and "\<not> int_pending m"
  obtains m' where "pass img m = Some m'" "face m' = face m" "closed (dev m')" "still m'" "tx_credit k (dev m) \<le> 1 + tx_credit k (dev m')"
  using pass_still(1) [OF assms, of img] pass_still(2,3) [OF assms] pass_still(4) [OF assms, of k] by (auto simp: still_def)

lemma irq_off: "\<not> bit (mstatus m) 3 \<Longrightarrow> \<not> int_pending m"
  by (simp add: int_pending_def)

lemma costs_if [costs_rules]: "costs k a f \<Longrightarrow> costs k b g \<Longrightarrow> costs k (a + b) (\<lambda>m. if P then f m else g m)"
  using costs_mono [of k a f "a + b"] costs_mono [of k b g "a + b"] by (cases P) simp_all

lemma write_ctrl_closed:
  assumes "closed u" and "\<not> bit w 0"
  shows "closed (write_ctrl w u)" "rx_fifo (write_ctrl w u) = rx_fifo u" "rx_ie (write_ctrl w u) = bit w 1"
    "tx_credit k u \<le> 1 + tx_credit k (write_ctrl w u)"
proof -
  have "tx_credit k (write_ctrl w u) = tx_credit k (tick u)" by (simp add: write_ctrl_def tx_credit_def Let_def)
  then show "tx_credit k u \<le> 1 + tx_credit k (write_ctrl w u)" using tick_credit [of k u] by simp
qed (use written_tick [OF assms(1)] assms(2) in \<open>auto simp: write_ctrl_def written_def closed_def fifo_ok_def Let_def\<close>)

lemma and_not_disjoint: "x AND y = 0 \<Longrightarrow> x AND NOT y = x" for x y :: u32
proof (rule bit_word_eqI)
  fix n
  assume "x AND y = 0" "n < LENGTH(32)"
  then have "\<not> bit (x AND y) n" by simp
  then show "bit (x AND NOT y) n = bit x n" using \<open>n < LENGTH(32)\<close> by (auto simp: bit_and_iff bit_not_iff)
qed

lemma aligned_target:
  fixes x :: u32
  assumes "x AND 3 = 0"
  shows "x AND NOT 2 = x" "x AND NOT 3 = x"
proof -
  have "x AND 2 = (x AND 3) AND 2" by (simp add: and.assoc)
  then show "x AND NOT 2 = x" using assms by (intro and_not_disjoint) simp
  show "x AND NOT 3 = x" by (rule and_not_disjoint [OF assms])
qed

lemma arm_traps_still:
  assumes "closed (dev m)" and "60 \<le> tx_credit k (dev m)" and "face m = (0x1800, 0, tv, False, 0, 0, 0, 0, 0, 0, rx, ie)" and "handler_addr img AND 3 = 0"
  shows "\<exists>m'. arm_traps img m = Some m' \<and> closed (dev m') \<and> tx_credit k (dev m) \<le> 60 + tx_credit k (dev m')
    \<and> face m' = (0x1800, 0x800, handler_addr img, False, 0, 0, 0, 0, 0, 0, rx, True)"
proof -
  let ?m1 = "m\<lparr>dev := write_ctrl CTRL_RX_IE (dev m)\<rparr>"
  note w = write_ctrl_closed [OF assms(1), of CTRL_RX_IE]
  have 1: "closed (dev ?m1)" "face ?m1 = (0x1800, 0, tv, False, 0, 0, 0, 0, 0, 0, rx, True)" "tx_credit k (dev m) \<le> 1 + tx_credit k (dev ?m1)"
    "m_ctrl img CTRL_RX_IE m = Some ?m1"
    using w assms(3) by (simp_all add: CTRL_RX_IE_def face_def m_ctrl_def boundary_def int_pending_def)
  let ?n1 = "?m1\<lparr>mtvec := handler_addr img AND NOT 2\<rparr>"
  have "\<not> int_pending ?n1" using 1(2) by (simp add: int_pending_def face_def)
  from pass_quiet [OF _ this, of img k] 1(1) obtain m2 where 2: "pass img ?n1 = Some m2" "face m2 = face ?n1" "closed (dev m2)" "still m2"
    "tx_credit k (dev ?n1) \<le> 1 + tx_credit k (dev m2)" by auto
  let ?n2 = "m2\<lparr>mie := mie m2 OR MIE_MEIE\<rparr>"
  have "\<not> int_pending ?n2" using 1(2) 2(2) by (intro irq_off) (simp add: face_def)
  from pass_quiet [OF _ this, of img k] 2(3) obtain m3 where 3: "csrs_mie img MIE_MEIE m2 = Some m3" "face m3 = face ?n2" "closed (dev m3)" "still m3"
    "tx_credit k (dev ?n2) \<le> 1 + tx_credit k (dev m3)" by (auto simp: csrs_mie_def)
  have c: "costs k 50 (\<lambda>m. do { m \<leftarrow> show_csr img ''MTVEC '' mtvec m; m \<leftarrow> m_puts img '' HND '' m;
      m \<leftarrow> m_put_hex32 img (handler_addr img) m; m_puts img CRLF m })"
    by (rule costs_mono, (rule costs_rules)+) (simp add: CRLF_def)
  have "50 \<le> tx_credit k (dev m3)" using 1(3) 2(5) 3(5) assms(2) by simp
  from costsD [OF c 3(4) this] obtain m4 where 4: "do { m \<leftarrow> show_csr img ''MTVEC '' mtvec m3; m \<leftarrow> m_puts img '' HND '' m;
      m \<leftarrow> m_put_hex32 img (handler_addr img) m; m_puts img CRLF m } = Some m4" "face m4 = face m3" "still m4"
    "tx_credit k (dev m3) \<le> 50 + tx_credit k (dev m4)" by blast
  have "arm_traps img m = Some m4" using 1(4) 2(1) 3(1) 4(1) by (simp add: arm_traps_def)
  moreover have "face m4 = (0x1800, 0x800, handler_addr img, False, 0, 0, 0, 0, 0, 0, rx, True)"
    using 1(2) 2(2) 3(2) 4(2) aligned_target(1) [OF assms(4)] by (simp add: face_def MIE_MEIE_def)
  ultimately show ?thesis using 1(3) 2(5) 3(5) 4(3,4) by (auto simp: still_def)
qed

lemma traps_return: "mret_status (entry_status 0x1800) = 0x1880" "mret_status (entry_status 0x1888) = 0x1888"
  by (simp_all add: mret_status_def entry_status_def)

lemma phase_2a_still:
  assumes "closed (dev m)" and "200 \<le> tx_credit k (dev m)" and "handler_addr img AND 3 = 0" and "rx \<noteq> []"
    and "face m = (0x1800, 0x800, handler_addr img, False, 0, 0, 0, 0, 0, 0, rx, True)"
  shows "\<exists>m'. phase_2a img m = Some m' \<and> closed (dev m') \<and> tx_credit k (dev m) \<le> 200 + tx_credit k (dev m')
    \<and> face m' = (0x1880, 0x800, handler_addr img, False, 0, 0, 1, 0, 0, 0, rx, True)"
proof -
  have q: "\<not> int_pending m" using assms(5) by (intro irq_off) (simp add: face_def)
  from pass_quiet [OF assms(1) q, of img k] obtain m1 where 1: "pass img m = Some m1" "face m1 = face m" "closed (dev m1)" "still m1"
    "tx_credit k (dev m) \<le> 1 + tx_credit k (dev m1)" by blast
  have "uart_irq (dev m)" using assms(4,5) by (simp add: face_def uart_irq_def rx_ready_def)
  then have "mip m AND MIP_MEIP \<noteq> 0" by (simp add: mip_def MIP_MEIP_def bit.conj_disj_distrib2)
  then have w: "wait_meip img m = Some m1" using 1(1) by (subst wait_meip.simps) (simp add: rd_def)
  have c: "costs k 60 (\<lambda>m. do { m \<leftarrow> show_csr img ''MIP '' mip m; m \<leftarrow> show_csr img '' MIE '' mie m;
      m \<leftarrow> show_csr img '' MST '' mstatus m; m_puts img CRLF m })"
    by (rule costs_mono, (rule costs_rules)+) (simp add: CRLF_def)
  have "60 \<le> tx_credit k (dev m1)" using 1(5) assms(2) by simp
  from costsD [OF c 1(4) this] obtain m2 where 2: "do { m \<leftarrow> show_csr img ''MIP '' mip m1; m \<leftarrow> show_csr img '' MIE '' mie m;
      m \<leftarrow> show_csr img '' MST '' mstatus m; m_puts img CRLF m } = Some m2" "face m2 = face m1" "still m2"
    "tx_credit k (dev m1) \<le> 60 + tx_credit k (dev m2)" by blast
  have t: "trap_target MCAUSE_ECALL_M m2 = handler_addr img"
  proof -
    have "mtvec m2 = handler_addr img" using 1(2) 2(2) assms(5) by (simp add: face_def)
    then show ?thesis using aligned_target(2) [OF assms(3)] by (simp add: trap_target_def MCAUSE_ECALL_M_def)
  qed
  from other_trap_still [OF _ _ t, of k "ecall_addr img"] 2(3,4) 1(5) assms(2) obtain m3 where
    3: "take_trap img MCAUSE_ECALL_M (ecall_addr img) m2 = Some m3" "closed (dev m3)" "tx_credit k (dev m2) \<le> 24 + tx_credit k (dev m3)"
    "mepc m3 = ecall_addr img + 4" "face m3 = face (m2\<lparr>sync_traps := sync_traps m2 + 1, mstatus := mret_status (entry_status (mstatus m2))\<rparr>)"
    by (auto simp: still_def causes)
  have f3: "face m3 = (0x1880, 0x800, handler_addr img, False, 0, 0, 1, 0, 0, 0, rx, True)"
    using 3(5) 2(2) 1(2) assms(5) by (simp add: face_def traps_return)
  have "\<not> int_pending m3" using f3 by (intro irq_off) (simp add: face_def)
  from pass_quiet [OF 3(2) this, of img k] obtain m4 where 4: "pass img m3 = Some m4" "face m4 = face m3" "still m4"
    "tx_credit k (dev m3) \<le> 1 + tx_credit k (dev m4)" by blast
  have p: "costs k 16 (m_puts img (if n \<noteq> 0 then ''TRAP OK CAUSE '' else ''TRAP FAIL CAUSE ''))" for n :: u32
    by (rule costs_mono [OF costs_puts(1)]) simp
  have c: "costs k 60 (\<lambda>m. do { (n, m) \<leftarrow> rd img sync_traps m;
      m \<leftarrow> m_puts img (if n \<noteq> 0 then ''TRAP OK CAUSE '' else ''TRAP FAIL CAUSE '') m;
      (v, m) \<leftarrow> rd img mcause m; m \<leftarrow> m_put_hex32 img v m; m \<leftarrow> show_csr img '' EPC '' mepc m; m_puts img CRLF m })"
    by (rule costs_mono, (rule p costs_rules)+) (simp add: CRLF_def)
  have "60 \<le> tx_credit k (dev m4)" using 1(5) 2(4) 3(3) 4(4) assms(2) by simp
  from costsD [OF c 4(3) this] obtain m5 where 5: "do { (n, m) \<leftarrow> rd img sync_traps m4;
      m \<leftarrow> m_puts img (if n \<noteq> 0 then ''TRAP OK CAUSE '' else ''TRAP FAIL CAUSE '') m;
      (v, m) \<leftarrow> rd img mcause m; m \<leftarrow> m_put_hex32 img v m; m \<leftarrow> show_csr img '' EPC '' mepc m; m_puts img CRLF m } = Some m5"
    "face m5 = face m4" "still m5" "tx_credit k (dev m4) \<le> 60 + tx_credit k (dev m5)" by blast
  have "phase_2a img m = (do { m \<leftarrow> do { m \<leftarrow> show_csr img ''MIP '' mip m1; m \<leftarrow> show_csr img '' MIE '' mie m;
      m \<leftarrow> show_csr img '' MST '' mstatus m; m_puts img CRLF m };
      m \<leftarrow> ecall img m; (n, m) \<leftarrow> rd img sync_traps m;
      m \<leftarrow> m_puts img (if n \<noteq> 0 then ''TRAP OK CAUSE '' else ''TRAP FAIL CAUSE '') m;
      (v, m) \<leftarrow> rd img mcause m; m \<leftarrow> m_put_hex32 img v m; m \<leftarrow> show_csr img '' EPC '' mepc m; m_puts img CRLF m })"
    using w by (simp add: phase_2a_def Option.bind_assoc)
  also have "\<dots> = Some m5" unfolding 2(1) using 3(1,4) 4(1) 5(1) by (simp add: ecall_def)
  finally have "phase_2a img m = Some m5" .
  then show ?thesis using f3 1(5) 2(4) 3(3) 4(2,4) 5(2-4) by (auto simp: still_def)
qed

text \<open>With only the software interrupt enabled, and none requested, or after everything has been received, nothing is pending.\<close>

lemma nothing_pending:
  "face m = (st, 8, tv, False, 0, ic, sy, mc, bc, bt, rx, ie) \<Longrightarrow> \<not> int_pending m"
  "face m = (st, 0, tv, False, ms, ic, sy, mc, bc, bt, rx, ie) \<Longrightarrow> \<not> int_pending m"
  "face m = (st, v, tv, False, 0, ic, sy, mc, bc, bt, [], ie) \<Longrightarrow> closed (dev m) \<Longrightarrow> \<not> int_pending m"
  by (auto simp: face_def int_pending_def mip_def MIP_MEIP_def uart_irq_def rx_ready_def closed_def)

lemma phase_msi_still:
  assumes "closed (dev m)" and "300 \<le> tx_credit k (dev m)" and "handler_addr img AND 3 = 0"
    and "face m = (0x1880, 0x800, handler_addr img, False, 0, 0, 1, 0, 0, 0, rx, True)"
  shows "\<exists>m'. phase_msi img m = Some m' \<and> closed (dev m') \<and> tx_credit k (dev m) \<le> 300 + tx_credit k (dev m')
    \<and> face m' = (0x1888, 0, handler_addr img, False, 0, 0, 1, 1, 0, 0, rx, True)"
proof -
  let ?n1 = "m\<lparr>mie := mie m AND NOT MIE_MEIE\<rparr>"
  have f1: "face ?n1 = (0x1880, 0, handler_addr img, False, 0, 0, 1, 0, 0, 0, rx, True)" using assms(4) by (simp add: face_def MIE_MEIE_def)
  from pass_quiet [OF _ nothing_pending(2) [OF f1], of img k] assms(1) obtain m1 where
    1: "csrc_mie img MIE_MEIE m = Some m1" "face m1 = face ?n1" "closed (dev m1)" "tx_credit k (dev m) \<le> 1 + tx_credit k (dev m1)"
    by (auto simp: csrc_mie_def)
  let ?n2 = "m1\<lparr>mie := mie m1 OR MIE_MSIE\<rparr>"
  have f2: "face ?n2 = (0x1880, 8, handler_addr img, False, 0, 0, 1, 0, 0, 0, rx, True)" using f1 1(2) by (simp add: face_def MIE_MSIE_def)
  from pass_quiet [OF _ nothing_pending(1) [OF f2], of img k] 1(3) obtain m2 where
    2: "csrs_mie img MIE_MSIE m1 = Some m2" "face m2 = face ?n2" "closed (dev m2)" "tx_credit k (dev m1) \<le> 1 + tx_credit k (dev m2)"
    by (auto simp: csrs_mie_def)
  let ?n3 = "m2\<lparr>msip := 1\<rparr>"
  have f3: "face ?n3 = (0x1880, 8, handler_addr img, False, 1, 0, 1, 0, 0, 0, rx, True)" using f2 2(2) by (simp add: face_def)
  have "\<not> int_pending ?n3" using f3 by (intro irq_off) (simp add: face_def)
  from pass_quiet [OF _ this, of img k] 2(3) obtain m3 where
    3: "pass img ?n3 = Some m3" "face m3 = face ?n3" "still m3" "tx_credit k (dev m2) \<le> 1 + tx_credit k (dev m3)" by auto
  have c: "costs k 60 (\<lambda>m. do { m \<leftarrow> show_csr img ''MSIPREG '' msip m; m \<leftarrow> show_csr img '' MIP '' mip m;
      m \<leftarrow> show_csr img '' MIE '' mie m; m_puts img CRLF m })"
    by (rule costs_mono, (rule costs_rules)+) (simp add: CRLF_def)
  have "60 \<le> tx_credit k (dev m3)" using 1(4) 2(4) 3(4) assms(2) by simp
  from costsD [OF c 3(3) this] obtain m4 where 4: "do { m \<leftarrow> show_csr img ''MSIPREG '' msip m3; m \<leftarrow> show_csr img '' MIP '' mip m;
      m \<leftarrow> show_csr img '' MIE '' mie m; m_puts img CRLF m } = Some m4" "face m4 = face m3" "still m4"
    "tx_credit k (dev m3) \<le> 60 + tx_credit k (dev m4)" by blast
  text \<open>The interrupt is taken as soon as it is enabled.\<close>
  let ?n5 = "m4\<lparr>mstatus := mstatus m4 OR MSTATUS_MIE, dev := tick (dev m4)\<rparr>"
  have t5: "written (dev m4) (tick (dev m4))" using 4(3) by (simp add: still_def)
  then have f5: "face ?n5 = (0x1888, 8, handler_addr img, False, 1, 0, 1, 0, 0, 0, rx, True)" "closed (dev ?n5)"
    using f3 3(2) 4(2) by (simp_all add: face_def MSTATUS_MIE_def written_def)
  have p5: "int_pending ?n5" "int_cause ?n5 = MCAUSE_MSI" using f5(1)
    by (auto simp: face_def int_pending_def int_cause_def mip_def MIP_MEIP_def bit_simps)
  have g5: "trap_target MCAUSE_MSI ?n5 = handler_addr img"
    using f5(1) aligned_target(2) [OF assms(3)] assms(3) by (simp add: face_def trap_target_def)
  have "24 \<le> tx_credit k (dev ?n5)" using tick_credit [of k "dev m4"] 1(4) 2(4) 3(4) 4(4) assms(2) by simp
  from other_trap_still [OF f5(2) this g5, of "int_addr img"] obtain m5 where
    5: "csrsi_mstatus img MSTATUS_MIE m4 = Some m5" "closed (dev m5)" "tx_credit k (dev ?n5) \<le> 24 + tx_credit k (dev m5)"
      "face m5 = face (?n5\<lparr>msip := 0, msi_count := msi_count ?n5 + 1, mstatus := mret_status (entry_status (mstatus ?n5))\<rparr>)"
    using p5 by (auto simp: csrsi_mstatus_def pass_def boundary_def)
  have f6: "face m5 = (0x1888, 8, handler_addr img, False, 0, 0, 1, 1, 0, 0, rx, True)" using 5(4) f5(1) by (simp add: face_def traps_return)
  from pass_quiet [OF 5(2) nothing_pending(1) [OF f6], of img k] obtain m6 where
    6: "pass img m5 = Some m6" "face m6 = face m5" "closed (dev m6)" "tx_credit k (dev m5) \<le> 1 + tx_credit k (dev m6)" by blast
  have s6: "msi_spin img 0 m5 = Some m6" using 6(1) f6 by (subst msi_spin.simps) (simp add: rd_def face_def)
  let ?n7 = "m6\<lparr>mie := mie m6 AND NOT MIE_MSIE\<rparr>"
  have f7: "face ?n7 = (0x1888, 0, handler_addr img, False, 0, 0, 1, 1, 0, 0, rx, True)" using f6 6(2) by (simp add: face_def MIE_MSIE_def)
  from pass_quiet [OF _ nothing_pending(2) [OF f7], of img k] 6(3) obtain m7 where
    7: "csrc_mie img MIE_MSIE m6 = Some m7" "face m7 = face ?n7" "still m7" "tx_credit k (dev m6) \<le> 1 + tx_credit k (dev m7)"
    by (auto simp: csrc_mie_def)
  have c: "costs k 150 (msi_report img)"
    unfolding msi_report_def by (rule costs_mono, (rule costs_rules)+) (simp add: CRLF_def)
  have "150 \<le> tx_credit k (dev m7)" using tick_credit [of k "dev m4"] 1(4) 2(4) 3(4) 4(4) 5(3) 6(4) 7(4) assms(2) by simp
  from costsD [OF c 7(3) this] obtain m8 where 8: "msi_report img m7 = Some m8" "face m8 = face m7" "still m8"
    "tx_credit k (dev m7) \<le> 150 + tx_credit k (dev m8)" by blast
  have "phase_msi img m = (do { m \<leftarrow> do { m \<leftarrow> show_csr img ''MSIPREG '' msip m3; m \<leftarrow> show_csr img '' MIP '' mip m;
      m \<leftarrow> show_csr img '' MIE '' mie m; m_puts img CRLF m };
      m \<leftarrow> csrsi_mstatus img MSTATUS_MIE m; m \<leftarrow> msi_spin img 0 m; m \<leftarrow> csrc_mie img MIE_MSIE m; msi_report img m })"
    using 1(1) 2(1) 3(1) by (simp add: phase_msi_def Option.bind_assoc)
  also have "\<dots> = Some m8" unfolding 4(1) using 5(1) s6 7(1) 8(1) by simp
  finally show ?thesis
    using f7 7(2) 8(2,3) tick_credit [of k "dev m4"] 1(4) 2(4) 3(4) 4(4) 5(3) 6(4) 7(4) 8(4) by (auto simp: still_def)
qed

lemma phase_2bc_still:
  assumes "closed (dev m)" and "3 * length rx + 80 \<le> tx_credit k (dev m)" and "handler_addr img AND 3 = 0"
    and "PHASE_CHARS \<le> length rx" and "length rx \<le> FIFO_DEPTH"
    and "face m = (0x1888, 0, handler_addr img, False, 0, 0, 1, 1, 0, 0, rx, True)"
  shows "\<exists>m'. phase_2bc img m = Some m' \<and> closed (dev m') \<and> tx_credit k (dev m) \<le> 3 * length rx + 80 + tx_credit k (dev m')
    \<and> face m' = (0x1880, 0x800, handler_addr img, False, 0, of_nat (length rx), 1, 1, 0, 0, [], True)"
proof -
  let ?n1 = "m\<lparr>mie := mie m OR MIE_MEIE, dev := tick (dev m)\<rparr>" and ?c = "of_nat (length rx) :: u32"
  have f1: "face ?n1 = (0x1888, 0x800, handler_addr img, False, 0, 0, 1, 1, 0, 0, rx, True)" "closed (dev ?n1)"
    using assms(6) written_tick [OF assms(1)] by (simp_all add: face_def MIE_MEIE_def written_def)
  have "rx \<noteq> []" using assms(4) by (auto simp: PHASE_CHARS_def)
  then have p1: "int_pending ?n1" "int_cause ?n1 = MCAUSE_MEI" using f1(1)
    by (auto simp: face_def int_pending_def int_cause_def mip_def MIP_MEIP_def uart_irq_def rx_ready_def bit_simps)
  have g1: "trap_target MCAUSE_MEI ?n1 = handler_addr img"
    using f1(1) aligned_target(2) [OF assms(3)] assms(3) by (simp add: face_def trap_target_def)
  have "3 * length (rx_fifo (dev ?n1)) + 25 \<le> tx_credit k (dev ?n1)"
    using f1(1) tick_credit [of k "dev m"] assms(2) by (simp add: face_def)
  from mei_trap_still [OF f1(2) this g1, of "int_addr img"] obtain m1 where
    1: "csrs_mie img MIE_MEIE m = Some m1" "closed (dev m1)" "tx_credit k (dev m) \<le> 3 * length rx + 26 + tx_credit k (dev m1)"
      "face m1 = (0x1888, 0x800, handler_addr img, False, 0, ?c, 1, 1, 0, 0, [], True)"
    using p1 f1(1) tick_credit [of k "dev m"] by (auto simp: csrs_mie_def pass_def boundary_def face_def traps_return)
  let ?n2 = "m1\<lparr>mstatus := mstatus m1 OR MSTATUS_MIE\<rparr>"
  have f2: "face ?n2 = (0x1888, 0x800, handler_addr img, False, 0, ?c, 1, 1, 0, 0, [], True)" using 1(4) by (simp add: face_def MSTATUS_MIE_def)
  from pass_quiet [OF _ nothing_pending(3) [OF f2], of img k] 1(2) obtain m2 where
    2: "csrsi_mstatus img MSTATUS_MIE m1 = Some m2" "face m2 = face ?n2" "still m2" "tx_credit k (dev m1) \<le> 1 + tx_credit k (dev m2)"
    by (auto simp: csrsi_mstatus_def)
  have c: "costs k 40 (\<lambda>m. do { m \<leftarrow> show_csr img ''MST2 '' mstatus m; m_puts img CRLF m })"
    by (rule costs_mono, (rule costs_rules)+) (simp add: CRLF_def)
  have "40 \<le> tx_credit k (dev m2)" using 1(3) 2(4) assms(2) by simp
  from costsD [OF c 2(3) this] obtain m3 where 3: "do { m \<leftarrow> show_csr img ''MST2 '' mstatus m2; m_puts img CRLF m } = Some m3"
    "face m3 = face m2" "still m3" "tx_credit k (dev m2) \<le> 40 + tx_credit k (dev m3)" by blast
  have f3: "face m3 = (0x1888, 0x800, handler_addr img, False, 0, ?c, 1, 1, 0, 0, [], True)" using 3(2) 2(2) f2 by simp
  from pass_quiet [OF _ nothing_pending(3) [OF f3], of img k] 3(3) obtain m4 where
    4: "pass img m3 = Some m4" "face m4 = face m3" "closed (dev m4)" "tx_credit k (dev m3) \<le> 1 + tx_credit k (dev m4)"
    by (auto simp: still_def)
  have "unat ?c = length rx" using assms(5) by (simp add: unat_of_nat take_bit_nat_eq_self FIFO_DEPTH_def)
  then have s4: "sleep_loop img m3 = Some m4" using 4(1) f3 assms(4)
    by (subst sleep_loop.simps) (simp add: rd_def face_def not_less)
  let ?n5 = "m4\<lparr>mstatus := mstatus m4 AND NOT MSTATUS_MIE\<rparr>"
  have f5: "face ?n5 = (0x1880, 0x800, handler_addr img, False, 0, ?c, 1, 1, 0, 0, [], True)" using 4(2) f3 by (simp add: face_def MSTATUS_MIE_def)
  from pass_quiet [OF _ nothing_pending(3) [OF f5], of img k] 4(3) obtain m5 where
    5: "csrci_mstatus img MSTATUS_MIE m4 = Some m5" "face m5 = face ?n5" "closed (dev m5)" "tx_credit k (dev m4) \<le> 1 + tx_credit k (dev m5)"
    by (auto simp: csrci_mstatus_def)
  have "phase_2bc img m = (do { m \<leftarrow> do { m \<leftarrow> show_csr img ''MST2 '' mstatus m2; m_puts img CRLF m };
      m \<leftarrow> sleep_loop img m; csrci_mstatus img MSTATUS_MIE m })"
    using 1(1) 2(1) by (simp add: phase_2bc_def Option.bind_assoc)
  also have "\<dots> = Some m5" unfolding 3(1) using s4 5(1) by simp
  finally show ?thesis using f5 5(2,3) 1(3) 2(4) 3(4) 4(4) 5(4) by (auto simp: still_def)
qed

lemma verdict_still:
  assumes "closed (dev m)" and "20 \<le> tx_credit k (dev m)" and "face m = (0x1880, v, tv, False, 0, ic, sy, mc, 0, bt, [], ie)"
    and "PHASE_CHARS \<le> unat ic"
  shows "\<exists>m'. verdict img m = Some m' \<and> face m' = (0x1880, v, tv, False, 0, ic, sy, mc, 0, bt, [], False)"
proof -
  let ?m1 = "m\<lparr>dev := write_ctrl 0 (dev m)\<rparr>"
  note w = write_ctrl_closed [OF assms(1), of 0]
  have quiet: "\<not> int_pending n" if "face n = (0x1880, v, tv, False, 0, ic, sy, mc, 0, bt, [], False)" for n
    using that by (intro irq_off) (simp add: face_def)
  have 1: "face ?m1 = (0x1880, v, tv, False, 0, ic, sy, mc, 0, bt, [], False)" "closed (dev ?m1)" "tx_credit k (dev m) \<le> 1 + tx_credit k (dev ?m1)"
    using w assms(3) by (simp_all add: face_def)
  from pass_quiet [OF 1(2) quiet [OF 1(1)], of img k] obtain m2 where 2: "pass img ?m1 = Some m2" "face m2 = face ?m1" "closed (dev m2)"
    "tx_credit k (dev ?m1) \<le> 1 + tx_credit k (dev m2)" by blast
  have f2: "face m2 = (0x1880, v, tv, False, 0, ic, sy, mc, 0, bt, [], False)" using 1(1) 2(2) by simp
  from pass_quiet [OF 2(3) quiet [OF f2], of img k] obtain m3 where 3: "pass img m2 = Some m3" "face m3 = face m2" "closed (dev m3)"
    "tx_credit k (dev m2) \<le> 1 + tx_credit k (dev m3)" by blast
  let ?n4 = "m3\<lparr>marker := Some 0x600D\<rparr>"
  have f4: "face ?n4 = (0x1880, v, tv, False, 0, ic, sy, mc, 0, bt, [], False)" using f2 3(2) by (simp add: face_def)
  from pass_quiet [OF _ quiet [OF f4], of img k] 3(3) obtain m4 where 4: "pass img ?n4 = Some m4" "face m4 = face ?n4" "still m4"
    "tx_credit k (dev m3) \<le> 1 + tx_credit k (dev m4)" by auto
  have "length (''GOOD'' @ CRLF) \<le> tx_credit k (dev m4)" using 1(3) 2(4) 3(4) 4(4) assms(2) by (simp add: CRLF_def)
  from costsD [OF costs_puts(1) 4(3) this] obtain m5 where 5: "m_puts img (''GOOD'' @ CRLF) m4 = Some m5" "face m5 = face m4" by blast
  have "bad_cause ?m1 = 0" "irq_chars m2 = ic" using 1(1) f2 by (simp_all add: face_def)
  then have "verdict img m = Some m5"
    using 2(1) 3(1) 4(1) 5(1) assms(4) quiet [OF 1(1)] by (simp add: verdict_def m_ctrl_def boundary_def rd_def)
  then show ?thesis using 5(2) 4(2) f4 by simp
qed

lemma phase_1_still:
  assumes "still m" and "30 \<le> tx_credit k (dev m)" and "PHASE_CHARS \<le> length rx" and "face m = (st, 0, tv, False, 0, ic, sy, mc, bc, bt, rx, ie)"
  shows "\<exists>m'. phase_1 img m = Some m' \<and> still m' \<and> tx_credit k (dev m) \<le> 20 + tx_credit k (dev m')
    \<and> face m' = (st, 0, tv, False, 0, ic, sy, mc, bc, bt, drop PHASE_CHARS rx, ie)"
proof -
  let ?cs = "take PHASE_CHARS rx" and ?rx = "drop PHASE_CHARS rx"
  have "closed (dev m)" "mie m = 0" "rx_fifo (dev m) = ?cs @ ?rx" "3 * length ?cs \<le> tx_credit k (dev m)"
    using assms by (simp_all add: still_def face_def PHASE_CHARS_def)
  note run = echo_loop_still [OF this, of img]
  have "length ?cs = PHASE_CHARS" using assms(3) by simp
  with run obtain m2 where
    2: "echo_loop img PHASE_CHARS m = Some m2" "face m2 = face (m\<lparr>dev := (dev m)\<lparr>rx_fifo := ?rx\<rparr>\<rparr>)" "closed (dev m2)"
      "tx_credit k (dev m) \<le> 12 + tx_credit k (dev m2)" by (auto simp: PHASE_CHARS_def)
  have f2: "face m2 = (st, 0, tv, False, 0, ic, sy, mc, bc, bt, ?rx, ie)" using 2(2) assms(4) by (simp add: face_def)
  have "still m2" using nothing_pending(2) [OF f2] 2(3) by (simp add: still_def)
  have c: "costs k 7 (m_puts img (CRLF @ ''IRQ'' @ CRLF))" by (rule costs_mono [OF costs_puts(1)]) (simp add: CRLF_def)
  have "7 \<le> tx_credit k (dev m2)" using 2(4) assms(2) by simp
  from costsD [OF c \<open>still m2\<close> this] obtain m3 where 3: "m_puts img (CRLF @ ''IRQ'' @ CRLF) m2 = Some m3" "face m3 = face m2" "still m3"
    "tx_credit k (dev m2) \<le> 7 + tx_credit k (dev m3)" by blast
  have "phase_1 img m = Some m3" using 2(1) 3(1) by (simp add: phase_1_def)
  then show ?thesis using 2(4) 3 f2 by auto
qed

lemma echo_main_still:
  assumes "handler_addr img AND 3 = 0" and "closed u" and "2 * PHASE_CHARS \<le> length (rx_fifo u)" and "1500 \<le> tx_credit k u"
  shows "\<exists>m'. echo_main img (boot u) = Some m'
    \<and> face m' = (0x1880, 0x800, handler_addr img, False, 0, of_nat (length (rx_fifo u) - PHASE_CHARS), 1, 1, 0, 0, [], False)"
proof -
  let ?rx = "drop PHASE_CHARS (rx_fifo u)"
  have len: "length (rx_fifo u) \<le> 16" using assms(2) by (simp add: closed_def fifo_ok_def FIFO_DEPTH_def)
  have f0: "face (boot u) = (0x1800, 0, 0, False, 0, 0, 0, 0, 0, 0, rx_fifo u, rx_ie u)" "dev (boot u) = u" by (simp_all add: face_def boot_def)
  have "still (boot u)" using nothing_pending(2) [OF f0(1)] assms(2) f0(2) by (simp add: still_def)
  moreover have "400 \<le> tx_credit k (dev (boot u))" using assms(4) f0(2) by simp
  ultimately obtain m1 where 1: "print_checks img (boot u) = Some m1" "face m1 = face (boot u)" "still m1"
    "tx_credit k (dev (boot u)) \<le> 400 + tx_credit k (dev m1)" using costsD [OF costs_print_checks] by blast
  have "30 \<le> tx_credit k (dev m1)" "PHASE_CHARS \<le> length (rx_fifo u)" using 1(4) f0(2) assms(3,4) by simp_all
  from phase_1_still [OF 1(3) this 1(2) [unfolded f0(1)], of img] obtain m3 where
    p1: "phase_1 img m1 = Some m3" and 3: "face m3 = (0x1800, 0, 0, False, 0, 0, 0, 0, 0, 0, ?rx, rx_ie u)" "still m3"
      "tx_credit k (dev m1) \<le> 20 + tx_credit k (dev m3)" by blast
  have c3: "closed (dev m3)" "60 \<le> tx_credit k (dev m3)" using 1(4) 3(2,3) f0(2) assms(4) by (simp_all add: still_def)
  from arm_traps_still [OF c3 3(1) assms(1)] obtain m4 where
    4: "arm_traps img m3 = Some m4" "closed (dev m4)" "tx_credit k (dev m3) \<le> 60 + tx_credit k (dev m4)"
      "face m4 = (0x1800, 0x800, handler_addr img, False, 0, 0, 0, 0, 0, 0, ?rx, True)" by blast
  have rx: "?rx \<noteq> []" "PHASE_CHARS \<le> length ?rx" "length ?rx \<le> FIFO_DEPTH" using assms(3) len by (auto simp: PHASE_CHARS_def FIFO_DEPTH_def)
  have "200 \<le> tx_credit k (dev m4)" using 1(4) 3(3) 4(3) f0(2) assms(4) by simp
  from phase_2a_still [OF 4(2) this assms(1) rx(1) 4(4)] obtain m5 where
    5: "phase_2a img m4 = Some m5" "closed (dev m5)" "tx_credit k (dev m4) \<le> 200 + tx_credit k (dev m5)"
      "face m5 = (0x1880, 0x800, handler_addr img, False, 0, 0, 1, 0, 0, 0, ?rx, True)" by blast
  have "300 \<le> tx_credit k (dev m5)" using 1(4) 3(3) 4(3) 5(3) f0(2) assms(4) by simp
  from phase_msi_still [OF 5(2) this assms(1) 5(4)] obtain m6 where
    6: "phase_msi img m5 = Some m6" "closed (dev m6)" "tx_credit k (dev m5) \<le> 300 + tx_credit k (dev m6)"
      "face m6 = (0x1888, 0, handler_addr img, False, 0, 0, 1, 1, 0, 0, ?rx, True)" by blast
  have "3 * length ?rx + 80 \<le> tx_credit k (dev m6)" using 1(4) 3(3) 4(3) 5(3) 6(3) f0(2) assms(4) len by (simp add: PHASE_CHARS_def)
  from phase_2bc_still [OF 6(2) this assms(1) rx(2,3) 6(4)] obtain m7 where
    7: "phase_2bc img m6 = Some m7" "closed (dev m7)" "tx_credit k (dev m6) \<le> 3 * length ?rx + 80 + tx_credit k (dev m7)"
      "face m7 = (0x1880, 0x800, handler_addr img, False, 0, of_nat (length ?rx), 1, 1, 0, 0, [], True)" by blast
  have count: "unat (of_nat (length ?rx) :: u32) = length ?rx" using len by (simp add: unat_of_nat take_bit_nat_eq_self)
  have "20 \<le> tx_credit k (dev m7)" using 1(4) 3(3) 4(3) 5(3) 6(3) 7(3) f0(2) assms(4) len by (simp add: PHASE_CHARS_def)
  from verdict_still [OF 7(2) this 7(4), of img] rx(2) count obtain m8 where
    8: "verdict img m7 = Some m8" "face m8 = (0x1880, 0x800, handler_addr img, False, 0, of_nat (length ?rx), 1, 1, 0, 0, [], False)" by auto
  have main: "echo_main img (boot u) = Some m8" using 1(1) p1 4(1) 5(1) 6(1) 7(1) 8(1) by (simp add: echo_main_def)
  then show ?thesis using 8(2) by auto
qed

text \<open>C35: With at least eight and at most 16 characters received before the program starts, and a transmitter that ships them and all the
  output, \<open>main\<close> runs to its end: it polls the first four, steps over the \<open>ecall\<close> and takes the software interrupt, each exactly
  once, takes the external interrupt, whose handler counts all remaining characters, is not left asleep, takes no unexpected trap, and
  sets the marker \<open>0x600D\<close>. And whatever the order and timing of the characters of another run (fewer than \<open>2 ^ 32\<close> of them) and of its
  interrupts, if that run ends, it ends with the marker \<open>0x600D\<close>, without an unexpected trap and with at least \<open>PHASE_CHARS\<close>
  characters counted by the handler: the program never reports BAD.\<close>

theorem echo_main_reports_good:
  assumes "handler_addr img AND 3 = 0" and "closed u" and "2 * PHASE_CHARS \<le> length (rx_fifo u)" and "1500 \<le> tx_credit k u"
  shows "(\<exists>m'. echo_main img (boot u) = Some m' \<and> marker m' = Some 0x600D \<and> bad_cause m' = 0 \<and> bad_traps m' = 0
      \<and> sync_traps m' = 1 \<and> msi_count m' = 1 \<and> unat (irq_chars m') = length (rx_fifo u) - PHASE_CHARS \<and> rx_fifo (dev m') = [])
    \<and> (length (incoming v) < 2 ^ 32 \<and> echo_main img (boot v) = Some m'' \<longrightarrow>
        marker m'' = Some 0x600D \<and> bad_cause m'' = 0 \<and> PHASE_CHARS \<le> unat (irq_chars m''))"
proof -
  have len: "length (rx_fifo u) \<le> 16" using assms(2) by (simp add: closed_def fifo_ok_def FIFO_DEPTH_def)
  then have count: "unat (of_nat (length (rx_fifo u) - PHASE_CHARS) :: u32) = length (rx_fifo u) - PHASE_CHARS"
    by (simp add: unat_of_nat take_bit_nat_eq_self)
  from echo_main_still [OF assms] obtain m' where m': "echo_main img (boot u) = Some m'"
    "face m' = (0x1880, 0x800, handler_addr img, False, 0, of_nat (length (rx_fifo u) - PHASE_CHARS), 1, 1, 0, 0, [], False)" by blast
  have "incoming u = rx_fifo u" using assms(2) by (simp add: closed_def incoming_def)
  then have "length (incoming u) < 2 ^ 32" using len by simp
  from echo_main_never_bad [OF this m'(1)] m' count show ?thesis using echo_main_never_bad [of v img m''] by (auto simp: face_def)
qed

text \<open>Eight characters are waiting when the program starts, and the transmitter ships one byte per cycle.\<close>

lemma echo_main_reports_good_witness:
  "(\<exists>m'. echo_main \<lparr>handler_addr = 0x100, ecall_addr = 0x200, int_addr = 0x300\<rparr>
      (boot (idle_uart\<lparr>rx_fifo := replicate 8 0x41, sched := replicate 3000 [Ship]\<rparr>)) = Some m'
    \<and> marker m' = Some 0x600D \<and> sync_traps m' = 1 \<and> msi_count m' = 1 \<and> unat (irq_chars m') = 4)"
proof -
  let ?u = "idle_uart\<lparr>rx_fifo := replicate 8 0x41, sched := replicate 3000 [Ship]\<rparr>"
  have "arrivals (concat (replicate n [Ship])) = []" for n by (induction n) simp_all
  then have "closed ?u" by (simp add: closed_def idle_uart_def fifo_ok_def FIFO_DEPTH_def)
  moreover have "1500 \<le> tx_credit (Suc 0) ?u" by (simp add: tx_credit_shipping)
  ultimately show ?thesis
    using echo_main_reports_good [of "\<lparr>handler_addr = 0x100, ecall_addr = 0x200, int_addr = 0x300\<rparr>" ?u "Suc 0"]
    by (auto simp: PHASE_CHARS_def)
qed

end
