(* ===== verification/Native_Ram.thy ===== *)
theory Native_Ram
  imports Prelude
begin

text \<open>
  The native RAM \<open>rtl/utils/native_ram.sv\<close> behind the instruction and data ports of the core, at register
  level: one step is one rising clock edge. The width of the data is a type parameter; depth, read-only and
  the number of outstanding reads are in \<open>nram_cfg\<close>. The benches of \<open>sim/hw\<close> run on this model.
\<close>

section \<open>Parameters, registers and ports\<close>

record nram_cfg =
  ADDR_W :: nat
  READ_ONLY :: bool
  OUTSTANDING :: nat

record 'd nram =
  rif_q :: bool
  rd_d_q :: 'd
  count_q :: nat
  skid_q :: "'d list"
  cells :: "nat \<Rightarrow> 'd"

record 'd nram_req =
  req_valid :: bool
  req_we :: bool
  req_addr :: u32
  req_wdata :: 'd
  req_wstrb :: u8
  req_rready :: bool

record 'd nram_rsp =
  rsp_wready :: bool
  rsp_rvalid :: bool
  rsp_rdata :: 'd

fun clog2 :: "nat \<Rightarrow> nat" where
  "clog2 n = (if n \<le> 1 then 0 else Suc (clog2 ((n + 1) div 2)))"

declare clog2.simps [simp del]

definition CNT_W :: "nram_cfg \<Rightarrow> nat" where
  "CNT_W c = clog2 (OUTSTANDING c + 1)"

definition STRB_W :: "'w :: len itself \<Rightarrow> nat" where
  "STRB_W _ = LENGTH('w) div 8"

definition word_addr :: "nram_cfg \<Rightarrow> ('w :: len) word nram_req \<Rightarrow> nat" where
  "word_addr c q = unat (req_addr q) mod 2 ^ ADDR_W c div STRB_W TYPE('w)"

section \<open>The response FIFO\<close>

definition skid_pop :: "('w :: len) word nram \<Rightarrow> 'w word nram_req \<Rightarrow> bool" where
  "skid_pop r q \<longleftrightarrow> count_q r \<noteq> 0 \<and> req_rready q"

definition land_consumed :: "('w :: len) word nram \<Rightarrow> 'w word nram_req \<Rightarrow> bool" where
  "land_consumed r q \<longleftrightarrow> rif_q r \<and> count_q r = 0 \<and> req_rready q"

definition land_stored :: "('w :: len) word nram \<Rightarrow> 'w word nram_req \<Rightarrow> bool" where
  "land_stored r q \<longleftrightarrow> rif_q r \<and> \<not> land_consumed r q"

definition write_idx :: "('w :: len) word nram \<Rightarrow> 'w word nram_req \<Rightarrow> nat" where
  "write_idx r q = count_q r - of_bool (skid_pop r q)"

text \<open>In the \<open>CNT_W\<close> bits of the register.\<close>

definition new_count :: "nram_cfg \<Rightarrow> ('w :: len) word nram \<Rightarrow> 'w word nram_req \<Rightarrow> nat" where
  "new_count c r q = (write_idx r q + of_bool (land_stored r q)) mod 2 ^ CNT_W c"

definition nram_out :: "nram_cfg \<Rightarrow> ('w :: len) word nram \<Rightarrow> 'w word nram_req \<Rightarrow> 'w word nram_rsp" where
  "nram_out c r q = \<lparr>rsp_wready = new_count c r q < OUTSTANDING c,
     rsp_rvalid = (count_q r \<noteq> 0 \<or> rif_q r),
     rsp_rdata = (if count_q r \<noteq> 0 then skid_q r ! 0 else rd_d_q r)\<rparr>"

definition launch_hs :: "nram_cfg \<Rightarrow> ('w :: len) word nram \<Rightarrow> 'w word nram_req \<Rightarrow> bool" where
  "launch_hs c r q \<longleftrightarrow> req_valid q \<and> rsp_wready (nram_out c r q)"

definition launch_read :: "nram_cfg \<Rightarrow> ('w :: len) word nram \<Rightarrow> 'w word nram_req \<Rightarrow> bool" where
  "launch_read c r q \<longleftrightarrow> launch_hs c r q \<and> \<not> req_we q"

definition launch_write :: "nram_cfg \<Rightarrow> ('w :: len) word nram \<Rightarrow> 'w word nram_req \<Rightarrow> bool" where
  "launch_write c r q \<longleftrightarrow> launch_hs c r q \<and> req_we q"

section \<open>One clock edge\<close>

definition put_lane :: "nat \<Rightarrow> 'w :: len word \<Rightarrow> 'w word \<Rightarrow> 'w word" where
  "put_lane i d w = (w AND NOT (push_bit (8 * i) 0xFF)) OR (d AND push_bit (8 * i) 0xFF)"

definition strobed :: "u8 \<Rightarrow> 'w :: len word \<Rightarrow> 'w word \<Rightarrow> 'w word" where
  "strobed strb d w = fold (\<lambda>i w. if bit strb i then put_lane i d w else w) [0..<STRB_W TYPE('w)] w"

definition next_skid :: "('w :: len) word nram \<Rightarrow> 'w word nram_req \<Rightarrow> 'w word list" where
  "next_skid r q = (let s = (if skid_pop r q then tl (skid_q r) @ [0] else skid_q r)
     in if land_stored r q then s[write_idx r q := rd_d_q r] else s)"

definition next_cells :: "nram_cfg \<Rightarrow> ('w :: len) word nram \<Rightarrow> 'w word nram_req \<Rightarrow> nat \<Rightarrow> 'w word" where
  "next_cells c r q = (if \<not> READ_ONLY c \<and> launch_write c r q
     then (cells r)(word_addr c q := strobed (req_wstrb q) (req_wdata q) (cells r (word_addr c q)))
     else cells r)"

text \<open>The storage is not reset, and its write is not gated by the reset.\<close>

definition nram_edge :: "nram_cfg \<Rightarrow> bool \<Rightarrow> ('w :: len) word nram \<Rightarrow> 'w word nram_req \<Rightarrow> 'w word nram" where
  "nram_edge c rstn r q =
     (if \<not> rstn then r\<lparr>rif_q := False, rd_d_q := 0, count_q := 0, cells := next_cells c r q\<rparr>
      else r\<lparr>rif_q := launch_read c r q,
             rd_d_q := (if launch_read c r q then cells r (word_addr c q) else rd_d_q r),
             count_q := new_count c r q, skid_q := next_skid r q, cells := next_cells c r q\<rparr>)"

lemmas fifo_wires = skid_pop_def land_consumed_def land_stored_def write_idx_def next_skid_def

lemmas nram_wires = skid_pop_def land_consumed_def land_stored_def write_idx_def new_count_def nram_out_def
  launch_hs_def launch_read_def launch_write_def next_skid_def next_cells_def

section \<open>Byte strobes\<close>

lemma bit_put_lane:
  "n < LENGTH('w) \<Longrightarrow> bit (put_lane i d w :: 'w :: len word) n \<longleftrightarrow> (if n div 8 = i then bit d n else bit w n)"
proof -
  assume n: "n < LENGTH('w)"
  have ff: "(0xFF :: 'w word) = mask 8" by (simp add: mask_eq_exp_minus_1)
  have "bit (push_bit (8 * i) 0xFF :: 'w word) n \<longleftrightarrow> 8 * i \<le> n \<and> n < 8 * i + 8"
    unfolding ff using n by (auto simp: bit_simps)
  moreover have "8 * i \<le> n \<and> n < 8 * i + 8 \<longleftrightarrow> n div 8 = i" by auto
  ultimately show ?thesis using n by (auto simp: put_lane_def bit_simps)
qed

text \<open>A strobed write replaces the bytes whose strobe is set.\<close>

lemma bit_strobed:
  assumes "n < 8 * STRB_W TYPE('w)"
  shows "bit (strobed s d w :: 'w :: len word) n \<longleftrightarrow> (if bit s (n div 8) then bit d n else bit w n)"
proof -
  have len: "n < LENGTH('w)" using assms by (simp add: STRB_W_def)
  have "bit (fold (\<lambda>i w. if bit s i then put_lane i d w else w) [0..<k] w) n
    \<longleftrightarrow> (if n div 8 < k \<and> bit s (n div 8) then bit d n else bit w n)" for k
    by (induction k) (auto simp: bit_put_lane len less_Suc_eq)
  moreover have "n div 8 < STRB_W TYPE('w)" using assms by (simp add: less_mult_imp_div_less mult.commute)
  ultimately show ?thesis by (simp add: strobed_def)
qed

lemma strobed_all: "strobed 0xF d w = (d :: u32)"
proof (rule bit_word_eqI)
  fix n assume "n < LENGTH(32)"
  then have "n div 8 \<in> {0, 1, 2, 3}" by auto
  moreover have "bit (0xF :: u8) 0" "bit (0xF :: u8) 1" "bit (0xF :: u8) 2" "bit (0xF :: u8) 3" by code_simp+
  ultimately have "bit (0xF :: u8) (n div 8)" by (auto simp only: insert_iff empty_iff)
  with \<open>n < LENGTH(32)\<close> show "bit (strobed 0xF d w) n \<longleftrightarrow> bit d n" by (simp add: bit_strobed STRB_W_def)
qed

section \<open>The responses are a queue\<close>

text \<open>The reads that have been launched and not been taken, oldest first.\<close>

definition pending :: "('w :: len) word nram \<Rightarrow> 'w word list" where
  "pending r = take (count_q r) (skid_q r) @ (if rif_q r then [rd_d_q r] else [])"

definition nram_ok :: "nram_cfg \<Rightarrow> ('w :: len) word nram \<Rightarrow> bool" where
  "nram_ok c r \<longleftrightarrow> 1 \<le> OUTSTANDING c \<and> length (skid_q r) = OUTSTANDING c
     \<and> count_q r + of_bool (rif_q r) \<le> OUTSTANDING c"

lemma clog2_bound: "n \<le> 2 ^ clog2 n"
proof (induction n rule: clog2.induct)
  case (1 n)
  show ?case
  proof (cases "n \<le> 1")
    case False
    then have "(n + 1) div 2 \<le> 2 ^ clog2 ((n + 1) div 2)" using 1 by simp
    then have "n \<le> 2 * 2 ^ clog2 ((n + 1) div 2)" by linarith
    then show ?thesis using False by (subst clog2.simps) simp
  qed (simp add: clog2.simps)
qed

lemma write_idx_bound:
  assumes "nram_ok c r"
  shows "write_idx r q + of_bool (land_stored r q) \<le> OUTSTANDING c"
  using assms by (auto simp: nram_ok_def nram_wires of_bool_def split: if_splits)

lemma new_count_exact:
  assumes "nram_ok c r"
  shows "new_count c r q = write_idx r q + of_bool (land_stored r q)"
proof -
  have "OUTSTANDING c + 1 \<le> 2 ^ CNT_W c" unfolding CNT_W_def by (rule clog2_bound)
  then show ?thesis using write_idx_bound [OF assms, of q] by (simp add: new_count_def)
qed

lemma length_pending: "nram_ok c r \<Longrightarrow> length (pending r) = count_q r + of_bool (rif_q r)"
  by (auto simp: pending_def nram_ok_def)

lemma out_pending:
  assumes "nram_ok c r"
  shows "rsp_rvalid (nram_out c r q) \<longleftrightarrow> pending r \<noteq> []"
    and "pending r \<noteq> [] \<Longrightarrow> rsp_rdata (nram_out c r q) = hd (pending r)"
    and "rsp_wready (nram_out c r q) \<longleftrightarrow> length (pending r) - of_bool (req_rready q \<and> pending r \<noteq> []) < OUTSTANDING c"
proof -
  show "rsp_rvalid (nram_out c r q) \<longleftrightarrow> pending r \<noteq> []"
    using assms by (cases "skid_q r") (auto simp: nram_out_def pending_def nram_ok_def)
  show "pending r \<noteq> [] \<Longrightarrow> rsp_rdata (nram_out c r q) = hd (pending r)"
    using assms by (cases "skid_q r"; cases "count_q r") (auto simp: nram_out_def pending_def nram_ok_def)
  have "new_count c r q = length (pending r) - of_bool (req_rready q \<and> pending r \<noteq> [])"
    unfolding new_count_exact [OF assms] length_pending [OF assms]
    using assms by (cases "skid_q r") (auto simp: nram_wires pending_def nram_ok_def)
  then show "rsp_wready (nram_out c r q) \<longleftrightarrow> length (pending r) - of_bool (req_rready q \<and> pending r \<noteq> []) < OUTSTANDING c"
    by (simp add: nram_out_def)
qed


text \<open>One edge of the abstract queue: the head leaves when the master is ready, the word of a launched read
  enters at the end.\<close>

definition queue_edge :: "bool \<Rightarrow> 'd option \<Rightarrow> 'd list \<Rightarrow> 'd list" where
  "queue_edge ready new xs = (if ready then tl xs else xs) @ (case new of None \<Rightarrow> [] | Some x \<Rightarrow> [x])"

definition new_read :: "nram_cfg \<Rightarrow> ('w :: len) word nram \<Rightarrow> 'w word nram_req \<Rightarrow> 'w word option" where
  "new_read c r q = (if launch_read c r q then Some (cells r (word_addr c q)) else None)"

lemma take_shift: "length s = n \<Longrightarrow> k < n \<Longrightarrow> take k (tl s @ [x]) = tl (take (Suc k) s)"
  by (cases s) (auto simp: take_tl)

lemma edge_ok:
  assumes ok: "nram_ok c r"
  shows "nram_ok c (nram_edge c True r q)"
proof -
  let ?r = "nram_edge c True r q"
  have "length (skid_q ?r) = OUTSTANDING c"
    using ok by (auto simp: nram_edge_def next_skid_def nram_ok_def Let_def)
  moreover have "count_q ?r + of_bool (rif_q ?r) \<le> OUTSTANDING c"
    using write_idx_bound [OF ok, of q]
    by (auto simp: nram_edge_def new_count_exact [OF ok] launch_read_def launch_hs_def nram_out_def of_bool_def)
  ultimately show ?thesis using ok by (simp add: nram_ok_def)
qed

lemma pending_edge:
  assumes ok: "nram_ok c r"
  shows "pending (nram_edge c True r q) = queue_edge (req_rready q) (new_read c r q) (pending r)"
proof -
  define old where "old = take (count_q r) (skid_q r) @ (if rif_q r then [rd_d_q r] else [])"
  have "take (new_count c r q) (next_skid r q) = (if req_rready q then tl old else old)"
  proof (cases "count_q r = 0")
    case True
    then show ?thesis using ok
      by (cases "skid_q r") (auto simp: old_def new_count_exact [OF ok] fifo_wires nram_ok_def Let_def)
  next
    case False
    then obtain k where k: "count_q r = Suc k" by (cases "count_q r") auto
    have len: "length (skid_q r) = OUTSTANDING c" "Suc k + of_bool (rif_q r) \<le> OUTSTANDING c"
      using ok k by (simp_all add: nram_ok_def)
    have ne: "take (Suc k) (skid_q r) \<noteq> []" using len by auto
    show ?thesis
    proof (cases "req_rready q")
      case True
      have "take k (tl (skid_q r) @ [0]) = tl (take (Suc k) (skid_q r))"
        by (rule take_shift [OF len(1)]) (use len(2) in simp)
      moreover have "take (Suc k) ((tl (skid_q r) @ [0])[k := rd_d_q r]) = take k (tl (skid_q r) @ [0]) @ [rd_d_q r]"
        using len by (subst take_Suc_conv_app_nth) auto
      ultimately show ?thesis using True k ne
        by (auto simp: old_def new_count_exact [OF ok] fifo_wires Let_def)
    next
      case False
      have "rif_q r \<Longrightarrow> take (Suc (Suc k)) ((skid_q r)[Suc k := rd_d_q r]) = take (Suc k) (skid_q r) @ [rd_d_q r]"
        using len by (subst take_Suc_conv_app_nth) auto
      then show ?thesis using False k by (auto simp: old_def new_count_exact [OF ok] fifo_wires Let_def)
    qed
  qed
  then show ?thesis
    by (auto simp: pending_def old_def queue_edge_def new_read_def nram_edge_def)
qed

text \<open>A run: the words the master takes and the words of the reads that are launched, in order.\<close>

fun nram_run :: "nram_cfg \<Rightarrow> ('w :: len) word nram_req list \<Rightarrow> 'w word nram \<Rightarrow> 'w word list \<times> 'w word list \<times> 'w word nram" where
  "nram_run c [] r = ([], [], r)"
| "nram_run c (q # qs) r = (
     let o1 = nram_out c r q;
         (taken, launched, r') = nram_run c qs (nram_edge c True r q)
     in ((if rsp_rvalid o1 \<and> req_rready q then [rsp_rdata o1] else []) @ taken,
         (case new_read c r q of None \<Rightarrow> [] | Some x \<Rightarrow> [x]) @ launched, r'))"

lemma nram_run_queue:
  "nram_ok c r \<Longrightarrow> nram_run c qs r = (taken, launched, r') \<Longrightarrow>
     pending r @ launched = taken @ pending r' \<and> nram_ok c r'"
proof (induction qs arbitrary: r taken launched)
  case (Cons q qs)
  obtain t l where run: "nram_run c qs (nram_edge c True r q) = (t, l, r')"
    using Cons.prems(2) by (auto simp: Let_def split: prod.splits)
  have IH: "pending (nram_edge c True r q) @ l = t @ pending r' \<and> nram_ok c r'"
    by (rule Cons.IH [OF edge_ok [OF Cons.prems(1)] run])
  then have "(if req_rready q then tl (pending r) else pending r) @ (case new_read c r q of None \<Rightarrow> [] | Some x \<Rightarrow> [x]) @ l = t @ pending r'"
    unfolding pending_edge [OF Cons.prems(1)] queue_edge_def by simp
  moreover have "taken = (if pending r \<noteq> [] \<and> req_rready q then [hd (pending r)] else []) @ t"
    and "launched = (case new_read c r q of None \<Rightarrow> [] | Some x \<Rightarrow> [x]) @ l"
    using Cons.prems(2) run out_pending(1,2) [OF Cons.prems(1), of q] by (auto simp: Let_def)
  ultimately show ?case using IH by (cases "pending r") (auto split: if_splits)
qed simp

text \<open>C5: Whatever the master asks and however long it is not ready, the native RAM answers the reads it has
  accepted in order, each once, with the word of memory at the time of the accept, and holds at most
  \<open>OUTSTANDING\<close> answers back.\<close>

theorem nram_answers_in_order:
  assumes "nram_ok c r" and "pending r = []" and "nram_run c qs r = (taken, launched, r')"
  shows "launched = taken @ pending r' \<and> length (pending r') \<le> OUTSTANDING c"
  using nram_run_queue [OF assms(1,3)] assms(2) by (auto simp: length_pending nram_ok_def)

definition fetch_cfg :: nram_cfg where
  "fetch_cfg = \<lparr>ADDR_W = 16, READ_ONLY = True, OUTSTANDING = 2\<rparr>"

definition read_at :: "u32 \<Rightarrow> bool \<Rightarrow> u64 nram_req" where
  "read_at a ready = \<lparr>req_valid = True, req_we = False, req_addr = a, req_wdata = 0, req_wstrb = 0, req_rready = ready\<rparr>"

definition empty_ram :: "u64 nram" where
  "empty_ram = \<lparr>rif_q = False, rd_d_q = 0, count_q = 0, skid_q = [0, 0], cells = of_nat\<rparr>"

lemma empty_ram_run:
  "fst (nram_run fetch_cfg [read_at 0 False, read_at 8 False, read_at 16 False, read_at 16 True] empty_ram) = [0]"
  "fst (snd (nram_run fetch_cfg [read_at 0 False, read_at 8 False, read_at 16 False, read_at 16 True] empty_ram)) = [0, 1, 2]"
  by (simp_all add: nram_edge_def nram_wires new_read_def fetch_cfg_def read_at_def empty_ram_def word_addr_def STRB_W_def CNT_W_def
      clog2.simps Let_def)

lemma nram_answers_in_order_witness:
  "\<exists>r'. [0, 1, 2] = [0] @ pending r' \<and> length (pending r' :: u64 list) \<le> 2"
proof -
  obtain t l r' where run: "nram_run fetch_cfg [read_at 0 False, read_at 8 False, read_at 16 False, read_at 16 True] empty_ram = (t, l, r')"
    by (metis prod_cases3)
  then have "t = [0]" "l = [0, 1, 2]" using empty_ram_run by simp_all
  with nram_answers_in_order [OF _ _ run] show ?thesis
    by (auto simp: nram_ok_def fetch_cfg_def empty_ram_def pending_def)
qed

end
