(* ===== verification/Native_Mem_Tb.thy ===== *)
theory Native_Mem_Tb
  imports Native_Ram
begin

text \<open>
  The bench \<open>sim/hw/native_mem_tb/native_mem_tb.cpp\<close> on its wrapper \<open>native_mem_tb.sv\<close>: a read-write and a
  read-only native RAM, 32 bits wide, one read outstanding. The state holds what the bench drives (\<open>req\<close>), what
  it sees since the last evaluation (\<open>rsp\<close>) and the registers (\<open>ram\<close>) of each port. Waiting loops give up after 21
  rounds, as in the source, and the messages are those of failures.
\<close>

section \<open>The device under test\<close>

datatype port = DMEM | IMEM

fun port_cfg :: "port \<Rightarrow> nram_cfg" where
  "port_cfg DMEM = \<lparr>ADDR_W = 16, READ_ONLY = False, OUTSTANDING = 1\<rparr>"
| "port_cfg IMEM = \<lparr>ADDR_W = 16, READ_ONLY = True, OUTSTANDING = 1\<rparr>"

record chan =
  req :: "u32 nram_req"
  rsp :: "u32 nram_rsp"
  ram :: "u32 nram"

record bench =
  rstn_i :: bool
  chans :: "port \<Rightarrow> chan"
  checks :: nat
  fails :: nat
  messages :: "string list"

definition eval :: "bench \<Rightarrow> bench" where
  "eval b = b\<lparr>chans := \<lambda>p. let x = chans b p in x\<lparr>rsp := nram_out (port_cfg p) (ram x) (req x)\<rparr>\<rparr>"

definition posedge :: "bench \<Rightarrow> bench" where
  "posedge b = b\<lparr>chans := \<lambda>p. let x = chans b p in x\<lparr>ram := nram_edge (port_cfg p) (rstn_i b) (ram x) (req x)\<rparr>\<rparr>"

definition tick :: "bench \<Rightarrow> bench" where
  "tick b = eval (posedge (eval b))"

definition set_req :: "port \<Rightarrow> (u32 nram_req \<Rightarrow> u32 nram_req) \<Rightarrow> bench \<Rightarrow> bench" where
  "set_req p f b = b\<lparr>chans := (chans b)(p := (chans b p)\<lparr>req := f (req (chans b p))\<rparr>)\<rparr>"

definition CHECK :: "bool \<Rightarrow> string \<Rightarrow> bench \<Rightarrow> bench" where
  "CHECK cond msg b = (let b = b\<lparr>checks := checks b + 1\<rparr> in
     if cond then b else b\<lparr>fails := fails b + 1, messages := messages b @ [msg]\<rparr>)"

definition timeout :: "string \<Rightarrow> bench \<Rightarrow> bench" where
  "timeout msg b = b\<lparr>fails := fails b + 1, messages := messages b @ [msg]\<rparr>"

section \<open>Accesses\<close>

definition port_idle :: "port \<Rightarrow> bench \<Rightarrow> bench" where
  "port_idle p b = eval (set_req p (\<lambda>q. q\<lparr>req_valid := False, req_we := False, req_rready := True\<rparr>) b)"

definition d_idle :: "bench \<Rightarrow> bench" where "d_idle = port_idle DMEM"
definition i_idle :: "bench \<Rightarrow> bench" where "i_idle = port_idle IMEM"

primrec launch_loop :: "nat \<Rightarrow> port \<Rightarrow> bench \<Rightarrow> bool \<times> bench" where
  "launch_loop 0 p b = (False, b)"
| "launch_loop (Suc n) p b = (let b = eval b; x = chans b p in
     if req_valid (req x) \<and> rsp_wready (rsp x) then (True, tick b) else launch_loop n p (tick b))"

primrec rvalid_loop :: "nat \<Rightarrow> port \<Rightarrow> bench \<Rightarrow> bool \<times> bench" where
  "rvalid_loop 0 p b = (False, b)"
| "rvalid_loop (Suc n) p b =
     (if rsp_rvalid (rsp (chans b p)) then (True, b) else rvalid_loop n p (eval (tick b)))"

primrec hold_loop :: "nat \<Rightarrow> port \<Rightarrow> bench \<Rightarrow> bench" where
  "hold_loop 0 p b = b"
| "hold_loop (Suc n) p b = (let
     b = eval (set_req p (\<lambda>q. q\<lparr>req_rready := False\<rparr>) b);
     b = CHECK (rsp_rvalid (rsp (chans b p))) ''RVALID dropped while RREADY=0 (must be held)'' b
   in hold_loop n p (eval (tick b)))"

text \<open>Drive a write and drop the request after its handshake.\<close>

definition port_write :: "port \<Rightarrow> u32 \<Rightarrow> u32 \<Rightarrow> u8 \<Rightarrow> bench \<Rightarrow> bench" where
  "port_write p addr data strb b = (
     case launch_loop 21 p (set_req p (\<lambda>q. q\<lparr>req_valid := True, req_we := True, req_addr := addr,
         req_wdata := data, req_wstrb := strb, req_rready := False\<rparr>) b) of
       (False, b) \<Rightarrow> timeout ''TIMEOUT in write'' b
     | (True, b) \<Rightarrow> eval (set_req p (\<lambda>q. q\<lparr>req_valid := False, req_we := False\<rparr>) b))"

definition port_read :: "port \<Rightarrow> u32 \<Rightarrow> nat \<Rightarrow> bench \<Rightarrow> u32 \<times> bench" where
  "port_read p addr r_hold b = (
     case launch_loop 21 p (set_req p (\<lambda>q. q\<lparr>req_valid := True, req_we := False, req_addr := addr, req_rready := False\<rparr>) b) of
       (False, b) \<Rightarrow> (0xDEAD, timeout ''TIMEOUT in read launch'' b)
     | (True, b) \<Rightarrow> (case rvalid_loop 21 p (eval (set_req p (\<lambda>q. q\<lparr>req_valid := False\<rparr>) b)) of
         (False, b) \<Rightarrow> (0xDEAD, timeout ''TIMEOUT waiting for rvalid'' b)
       | (True, b) \<Rightarrow> (let
           b = hold_loop r_hold p b;
           b = eval (set_req p (\<lambda>q. q\<lparr>req_rready := True\<rparr>) b);
           b = CHECK (rsp_rvalid (rsp (chans b p))) ''RVALID dropped before R handshake'' b;
           rd = rsp_rdata (rsp (chans b p));
           b = tick b;
           b = eval (set_req p (\<lambda>q. q\<lparr>req_rready := False\<rparr>) b);
           b = CHECK (\<not> rsp_rvalid (rsp (chans b p))) ''RVALID stayed high after R handshake'' b
         in (rd, port_idle p b))))"

definition d_write :: "u32 \<Rightarrow> u32 \<Rightarrow> u8 \<Rightarrow> bench \<Rightarrow> bench" where "d_write = port_write DMEM"
definition d_read :: "u32 \<Rightarrow> nat \<Rightarrow> bench \<Rightarrow> u32 \<times> bench" where "d_read = port_read DMEM"
definition i_read :: "u32 \<Rightarrow> nat \<Rightarrow> bench \<Rightarrow> u32 \<times> bench" where "i_read = port_read IMEM"
definition i_write_attempt :: "u32 \<Rightarrow> u32 \<Rightarrow> u8 \<Rightarrow> bench \<Rightarrow> bench" where "i_write_attempt = port_write IMEM"

section \<open>The tests\<close>

definition reset_seq :: "bench \<Rightarrow> bench" where
  "reset_seq b = (let
     b = b\<lparr>rstn_i := False\<rparr>;
     b = eval (i_idle (d_idle b));
     b = (tick ^^ 4) b;
     b = b\<lparr>rstn_i := True\<rparr>
   in tick (eval b))"

definition expect_read :: "port \<Rightarrow> u32 \<Rightarrow> nat \<Rightarrow> u32 \<Rightarrow> string \<Rightarrow> bench \<Rightarrow> bench" where
  "expect_read p addr r_hold want msg b = (let (r, b) = port_read p addr r_hold b in CHECK (r = want) msg b)"

text \<open>Store and load, neighbours, and byte strobes.\<close>

definition dmem_tests :: "bench \<Rightarrow> bench" where
  "dmem_tests b = (let
     b = d_write 0x0000 0xDEADBEEF 0xF b;
     b = expect_read DMEM 0x0000 3 0xDEADBEEF ''posted store + readback (delayed RREADY)'' b;
     b = d_write 0x0010 0x11111111 0xF b;
     b = d_write 0x0014 0x22222222 0xF b;
     b = expect_read DMEM 0x0010 0 0x11111111 ''back-to-back addr 0x10'' b;
     b = expect_read DMEM 0x0014 0 0x22222222 ''back-to-back addr 0x14'' b;
     b = d_write 0x0020 0xFFFFFFFF 0xF b;
     b = d_write 0x0020 0x00000000 0x3 b;
     b = expect_read DMEM 0x0020 0 0xFFFF0000 ''byte strobe partial write (low 2 bytes)'' b;
     b = d_write 0x0024 0x00000000 0xF b;
     b = d_write 0x0024 0xAB000000 0x8 b
   in expect_read DMEM 0x0024 0 0xAB000000 ''byte strobe partial write (high byte)'' b)"

text \<open>A write while a read response is held.\<close>

definition blocked_write :: "bench \<Rightarrow> bench" where
  "blocked_write b = (let
     b = eval (set_req DMEM (\<lambda>q. q\<lparr>req_valid := True, req_we := True, req_addr := 0x0028,
       req_wdata := 0x33333333, req_wstrb := 0xF, req_rready := False\<rparr>) b);
     b = CHECK (\<not> rsp_wready (rsp (chans b DMEM))) ''WREADY high while read response pending (single outstanding)'' b;
     b = eval (tick b)
   in CHECK (\<not> rsp_wready (rsp (chans b DMEM))) ''WREADY high 2nd cycle while read pending'' b)"

definition outstanding_test :: "bench \<Rightarrow> bench" where
  "outstanding_test b = (let
     b = set_req DMEM (\<lambda>q. q\<lparr>req_valid := True, req_we := False, req_addr := 0x0010, req_rready := False\<rparr>) b;
     (launched, b) = launch_loop 21 DMEM b;
     b = (if launched then b else timeout ''TIMEOUT launching read for single-outstanding'' b);
     b = eval (set_req DMEM (\<lambda>q. q\<lparr>req_valid := False\<rparr>) b);
     (_, b) = rvalid_loop 21 DMEM b;
     b = CHECK (rsp_rvalid (rsp (chans b DMEM))) ''RVALID up for single-outstanding check'' b;
     b = blocked_write b;
     b = eval (set_req DMEM (\<lambda>q. q\<lparr>req_valid := False, req_rready := True\<rparr>) b);
     b = tick b;
     b = eval (set_req DMEM (\<lambda>q. q\<lparr>req_rready := False\<rparr>) b);
     b = d_idle b;
     (r, b) = d_read 0x0028 0 b
   in CHECK (r \<noteq> 0x33333333) ''write committed while WREADY=0 (must not)'' b)"

definition imem_tests :: "bench \<Rightarrow> bench" where
  "imem_tests b = (let
     b = expect_read IMEM 0x0000 2 0xCAFEBABE ''RO read word 0 (preloaded)'' b;
     b = expect_read IMEM 0x0004 2 0xDEADBEEF ''RO read word 1 (preloaded)'' b;
     b = i_write_attempt 0x0000 0x0BADF00D 0xF b
   in expect_read IMEM 0x0000 0 0xCAFEBABE ''RO write ignored (preload survives)'' b)"

definition native_mem_main :: "bench \<Rightarrow> nat \<times> bench" where
  "native_mem_main b = (let b = imem_tests (outstanding_test (dmem_tests (reset_seq b)))
     in (if fails b \<noteq> 0 then 1 else 0, b))"


section \<open>One access\<close>

text \<open>The states of the RAM with one outstanding read: no read, a word landing, a word held.\<close>

definition quiet :: "u32 nram \<Rightarrow> bool" where
  "quiet r \<longleftrightarrow> \<not> rif_q r \<and> count_q r = 0 \<and> length (skid_q r) = 1"

definition landing :: "u32 \<Rightarrow> u32 nram \<Rightarrow> bool" where
  "landing v r \<longleftrightarrow> rif_q r \<and> rd_d_q r = v \<and> count_q r = 0 \<and> length (skid_q r) = 1"

definition held :: "u32 \<Rightarrow> u32 nram \<Rightarrow> bool" where
  "held v r \<longleftrightarrow> \<not> rif_q r \<and> count_q r = 1 \<and> skid_q r = [v]"

definition answering :: "u32 \<Rightarrow> u32 nram \<Rightarrow> bool" where
  "answering v r \<longleftrightarrow> landing v r \<or> held v r"

definition word_of :: "u32 \<Rightarrow> nat" where
  "word_of a = unat a mod 65536 div 4"

lemma port_cfg_fields [simp]:
  "OUTSTANDING (port_cfg p) = 1" "ADDR_W (port_cfg p) = 16" "READ_ONLY (port_cfg p) \<longleftrightarrow> p = IMEM" "CNT_W (port_cfg p) = 1"
  by (cases p; simp add: CNT_W_def clog2.simps)+

lemma word_addr_port: "word_addr (port_cfg p) (q :: u32 nram_req) = word_of (req_addr q)"
  by (simp add: word_addr_def word_of_def STRB_W_def)

lemma quiet_edge:
  assumes "quiet r"
  shows "\<not> req_valid q \<Longrightarrow> nram_edge (port_cfg p) True r q = r"
    and "req_valid q \<Longrightarrow> \<not> req_we q \<Longrightarrow> landing (cells r (word_of (req_addr q))) (nram_edge (port_cfg p) True r q)
      \<and> cells (nram_edge (port_cfg p) True r q) = cells r"
    and "req_valid q \<Longrightarrow> req_we q \<Longrightarrow> quiet (nram_edge (port_cfg p) True r q) \<and>
      cells (nram_edge (port_cfg p) True r q) = (if p = IMEM then cells r
        else (cells r)(word_of (req_addr q) := strobed (req_wstrb q) (req_wdata q) (cells r (word_of (req_addr q)))))"
    and "rsp_wready (nram_out (port_cfg p) r q)" and "\<not> rsp_rvalid (nram_out (port_cfg p) r q)"
  using assms by (auto simp: quiet_def landing_def nram_edge_def nram_wires word_addr_port Let_def)

lemma answering_edge:
  assumes "answering v r" and "\<not> req_valid q \<or> \<not> req_rready q"
  shows "\<not> req_rready q \<Longrightarrow> answering v (nram_edge (port_cfg p) True r q)"
    and "req_rready q \<Longrightarrow> quiet (nram_edge (port_cfg p) True r q)"
    and "cells (nram_edge (port_cfg p) True r q) = cells r"
    and "rsp_rvalid (nram_out (port_cfg p) r q)" and "rsp_rdata (nram_out (port_cfg p) r q) = v"
    and "\<not> req_rready q \<Longrightarrow> \<not> rsp_wready (nram_out (port_cfg p) r q)"
  using assms
  by (auto simp: answering_def quiet_def landing_def held_def nram_edge_def nram_wires Let_def length_Suc_conv list_update_code)

text \<open>The two ports do not touch each other: what a port does while the other is not asked anything.\<close>

definition resting :: "chan \<Rightarrow> bool" where
  "resting x \<longleftrightarrow> quiet (ram x) \<and> \<not> req_valid (req x)"

definition at :: "port \<Rightarrow> bench \<Rightarrow> u32 nram_req \<Rightarrow> u32 nram \<Rightarrow> (port \<Rightarrow> u32 nram) \<Rightarrow> bench \<Rightarrow> bool" where
  "at p b0 q r m b \<longleftrightarrow> rstn_i b \<and> req (chans b p) = q \<and> ram (chans b p) = r
     \<and> (\<forall>y. y \<noteq> p \<longrightarrow> resting (chans b y) \<and> ram (chans b y) = m y)
     \<and> checks b = checks b0 \<and> fails b = fails b0 \<and> messages b = messages b0"

lemma at_set: "at p b0 q r m b \<Longrightarrow> at p b0 (f q) r m (set_req p f b)"
  by (auto simp: at_def set_req_def)

lemma at_eval: "at p b0 q r m b \<Longrightarrow> at p b0 q r m (eval b)"
  by (auto simp: at_def eval_def resting_def Let_def)

lemma at_tick: "at p b0 q r m b \<Longrightarrow> at p b0 q (nram_edge (port_cfg p) True r q) m (tick b)"
  by (auto simp: at_def tick_def eval_def posedge_def resting_def quiet_edge Let_def)

lemma at_rsp: "at p b0 q r m b \<Longrightarrow> rsp (chans (eval b) p) = nram_out (port_cfg p) r q"
  by (auto simp: at_def eval_def Let_def)

lemma at_rsp_tick: "at p b0 q r m b \<Longrightarrow> rsp (chans (tick b) p) = nram_out (port_cfg p) (nram_edge (port_cfg p) True r q) q"
  by (auto simp: at_def tick_def eval_def posedge_def Let_def)

lemma eval_idem: "eval (eval b) = eval b"
  by (simp add: eval_def Let_def)

lemma launch_accepts:
  assumes "at p b0 q r m b" and "quiet r" and "req_valid q" and "0 < n"
  shows "launch_loop n p b = (True, tick (eval b))"
  using assms at_rsp [OF assms(1)] at_eval [OF assms(1)] quiet_edge(4) [OF assms(2), of p q]
  by (cases n) (simp_all add: Let_def at_def)

lemma at_check: "at p b0 q r m b \<Longrightarrow> cond \<Longrightarrow> at p (b0\<lparr>checks := checks b0 + 1\<rparr>) q r m (CHECK cond msg b)"
  by (simp add: at_def CHECK_def)

lemma chans_CHECK [simp]: "chans (CHECK cond msg b) = chans b"
  by (simp add: CHECK_def Let_def)

lemma hold_loop_result:
  assumes "at p b0 q r m b" and "answering v r" and "\<not> req_valid q" and "\<not> req_rready q"
  shows "\<exists>r'. at p (b0\<lparr>checks := checks b0 + n\<rparr>) q r' m (hold_loop n p b) \<and> answering v r' \<and> cells r' = cells r"
  using assms
proof (induction n arbitrary: b0 r b)
  case 0
  then show ?case by auto
next
  case (Suc n)
  have q: "q\<lparr>req_rready := False\<rparr> = q" using Suc.prems(4) by (cases q) simp
  let ?s = "set_req p (\<lambda>q. q\<lparr>req_rready := False\<rparr>) b"
  have s: "at p b0 q r m ?s" using at_set [OF Suc.prems(1), of "\<lambda>q. q\<lparr>req_rready := False\<rparr>"] by (simp only: q)
  have v: "rsp_rvalid (rsp (chans (eval ?s) p))"
    using answering_edge(4) [OF Suc.prems(2), of q p] Suc.prems(3) by (simp add: at_rsp [OF s])
  let ?c = "CHECK (rsp_rvalid (rsp (chans (eval ?s) p))) ''RVALID dropped while RREADY=0 (must be held)'' (eval ?s)"
  have c: "at p (b0\<lparr>checks := checks b0 + 1\<rparr>) q r m ?c" by (rule at_check [OF at_eval [OF s] v])
  let ?r = "nram_edge (port_cfg p) True r q"
  have t: "at p (b0\<lparr>checks := checks b0 + 1\<rparr>) q ?r m (eval (tick ?c))" by (rule at_eval [OF at_tick [OF c]])
  have a: "answering v ?r" "cells ?r = cells r"
    using answering_edge(1,3) [OF Suc.prems(2)] Suc.prems(3,4) by blast+
  from Suc.IH [OF t a(1) Suc.prems(3,4)] a(2) show ?case by (simp add: Let_def)
qed

definition settled :: "bench \<Rightarrow> bool" where
  "settled b \<longleftrightarrow> rstn_i b \<and> (\<forall>p. resting (chans b p))"

definition mem_of :: "bench \<Rightarrow> port \<Rightarrow> nat \<Rightarrow> u32" where
  "mem_of b p = cells (ram (chans b p))"

lemma mem_of_counters [simp]: "mem_of (b\<lparr>checks := n\<rparr>) = mem_of b"
  by (simp add: mem_of_def fun_eq_iff)

text \<open>An access is over: the ports rest, the memory is \<open>M\<close>, and \<open>n\<close> checks have passed.\<close>

definition passed :: "nat \<Rightarrow> (port \<Rightarrow> nat \<Rightarrow> u32) \<Rightarrow> bench \<Rightarrow> bench \<Rightarrow> bool" where
  "passed n M b b' \<longleftrightarrow> settled b' \<and> mem_of b' = M \<and> checks b' = checks b + n \<and> fails b' = fails b \<and> messages b' = messages b"

lemma settled_at: "settled b \<Longrightarrow> at p b (req (chans b p)) (ram (chans b p)) (\<lambda>y. ram (chans b y)) b"
  by (simp add: settled_def at_def)

lemma at_passed:
  assumes "at p b0 q r (\<lambda>y. ram (chans b y)) b'" and "quiet r" and "\<not> req_valid q"
    and "checks b0 = checks b + n" "fails b0 = fails b" "messages b0 = messages b"
  shows "passed n ((mem_of b)(p := cells r)) b b'"
proof -
  have "resting (chans b' y)" for y using assms(1-3) by (cases "y = p") (auto simp: at_def resting_def)
  then show ?thesis using assms by (auto simp: passed_def settled_def mem_of_def at_def)
qed

lemma port_idle_at: "at p b0 q r m b \<Longrightarrow> at p b0 (q\<lparr>req_valid := False, req_we := False, req_rready := True\<rparr>) r m (port_idle p b)"
  unfolding port_idle_def by (rule at_eval [OF at_set])

lemma port_write_result:
  assumes "settled b"
  shows "passed 0 (if p = IMEM then mem_of b
    else (mem_of b)(p := (mem_of b p)(word_of a := strobed s d (mem_of b p (word_of a))))) b (port_write p a d s b)"
proof -
  define q r where "q = (req (chans b p))\<lparr>req_valid := True, req_we := True, req_addr := a, req_wdata := d, req_wstrb := s, req_rready := False\<rparr>"
    and "r = ram (chans b p)"
  have quiet: "quiet r" using assms by (simp add: settled_def resting_def r_def)
  have q: "req_valid q" "req_we q" "req_addr q = a" "req_wdata q = d" "req_wstrb q = s" by (simp_all add: q_def)
  let ?b = "set_req p (\<lambda>q. q\<lparr>req_valid := True, req_we := True, req_addr := a, req_wdata := d, req_wstrb := s, req_rready := False\<rparr>) b"
  let ?r = "nram_edge (port_cfg p) True r q"
  have "at p b q r (\<lambda>y. ram (chans b y)) ?b" unfolding q_def r_def by (rule at_set [OF settled_at [OF assms]])
  from at_tick [OF at_eval [OF this]] launch_accepts [OF this quiet q(1), of 21]
  have l: "launch_loop 21 p ?b = (True, tick (eval ?b))" and t: "at p b q ?r (\<lambda>y. ram (chans b y)) (tick (eval ?b))" by simp_all
  have "port_write p a d s b = eval (set_req p (\<lambda>q. q\<lparr>req_valid := False, req_we := False\<rparr>) (tick (eval ?b)))"
    by (simp add: port_write_def l)
  then have "at p b (q\<lparr>req_valid := False, req_we := False\<rparr>) ?r (\<lambda>y. ram (chans b y)) (port_write p a d s b)"
    using at_eval [OF at_set [OF t, of "\<lambda>q. q\<lparr>req_valid := False, req_we := False\<rparr>"]] by (simp only:)
  then have "passed 0 ((mem_of b)(p := cells ?r)) b (port_write p a d s b)"
    by (rule at_passed) (use quiet_edge(3) [OF quiet q(1,2)] in simp_all)
  moreover have "(mem_of b)(p := cells ?r) = (if p = IMEM then mem_of b
    else (mem_of b)(p := (mem_of b p)(word_of a := strobed s d (mem_of b p (word_of a)))))"
    using quiet_edge(3) [OF quiet q(1,2), of p] q by (auto simp: mem_of_def r_def)
  ultimately show ?thesis by simp
qed

lemma read_launched:
  assumes "settled b"
    and f: "f = (\<lambda>q. q\<lparr>req_valid := True, req_we := False, req_addr := a, req_rready := False\<rparr>)"
  shows "\<exists>b1 q r. launch_loop 21 p (set_req p f b) = (True, b1)
    \<and> at p b q r (\<lambda>y. ram (chans b y)) (eval (set_req p (\<lambda>q. q\<lparr>req_valid := False\<rparr>) b1))
    \<and> rvalid_loop 21 p (eval (set_req p (\<lambda>q. q\<lparr>req_valid := False\<rparr>) b1)) = (True, eval (set_req p (\<lambda>q. q\<lparr>req_valid := False\<rparr>) b1))
    \<and> rsp_rvalid (rsp (chans (eval (set_req p (\<lambda>q. q\<lparr>req_valid := False\<rparr>) b1)) p))
    \<and> answering (mem_of b p (word_of a)) r \<and> cells r = mem_of b p \<and> \<not> req_valid q \<and> \<not> req_rready q"
proof -
  define q r where "q = (req (chans b p))\<lparr>req_valid := True, req_we := False, req_addr := a, req_rready := False\<rparr>"
    and "r = ram (chans b p)"
  let ?b = "set_req p f b"
  let ?r = "nram_edge (port_cfg p) True r q" and ?q1 = "q\<lparr>req_valid := False\<rparr>"
  have quiet: "quiet r" using assms(1) by (simp add: settled_def resting_def r_def)
  have q: "req_valid q" "\<not> req_we q" "req_addr q = a" by (simp_all add: q_def)
  have s: "at p b q r (\<lambda>y. ram (chans b y)) ?b" unfolding f q_def r_def by (rule at_set [OF settled_at [OF assms(1)]])
  let ?c = "tick (eval ?b)"
  have l: "launch_loop 21 p ?b = (True, ?c)" by (rule launch_accepts [OF s quiet q(1)]) simp
  have b1: "at p b ?q1 ?r (\<lambda>y. ram (chans b y)) (set_req p (\<lambda>q. q\<lparr>req_valid := False\<rparr>) ?c)"
    by (rule at_set [OF at_tick [OF at_eval [OF s]]])
  have ans: "answering (mem_of b p (word_of a)) ?r" and cells: "cells ?r = mem_of b p"
    using quiet_edge(2) [OF quiet q(1,2), of p] q by (simp_all add: answering_def mem_of_def r_def)
  have q1: "\<not> req_valid ?q1" "\<not> req_rready ?q1" by (simp_all add: q_def)
  have rv: "rsp_rvalid (rsp (chans (eval (set_req p (\<lambda>q. q\<lparr>req_valid := False\<rparr>) ?c)) p))"
    unfolding at_rsp [OF b1] using answering_edge(4) [OF ans] q1 by blast
  then have "rvalid_loop 21 p (eval (set_req p (\<lambda>q. q\<lparr>req_valid := False\<rparr>) ?c)) = (True, eval (set_req p (\<lambda>q. q\<lparr>req_valid := False\<rparr>) ?c))"
    by (simp add: numeral_eq_Suc)
  with l at_eval [OF b1] rv ans cells q1 show ?thesis by blast
qed

lemma port_read_result:
  assumes "settled b"
  shows "\<exists>b'. port_read p a h b = (mem_of b p (word_of a), b') \<and> passed (h + 2) (mem_of b) b b'"
proof -
  let ?v = "mem_of b p (word_of a)" and ?m = "\<lambda>y. ram (chans b y)"
  from read_launched [OF assms refl, of p a] obtain b0 q1 r1 where
    l: "launch_loop 21 p (set_req p (\<lambda>q. q\<lparr>req_valid := True, req_we := False, req_addr := a, req_rready := False\<rparr>) b) = (True, b0)"
    and at1: "at p b q1 r1 ?m (eval (set_req p (\<lambda>q. q\<lparr>req_valid := False\<rparr>) b0))"
    and w: "rvalid_loop 21 p (eval (set_req p (\<lambda>q. q\<lparr>req_valid := False\<rparr>) b0)) = (True, eval (set_req p (\<lambda>q. q\<lparr>req_valid := False\<rparr>) b0))"
    and r1: "answering ?v r1" "cells r1 = mem_of b p" and q1: "\<not> req_valid q1" "\<not> req_rready q1" by auto
  define b1 where "b1 = eval (set_req p (\<lambda>q. q\<lparr>req_valid := False\<rparr>) b0)"
  from hold_loop_result [OF at1 r1(1) q1, of h] obtain r2 where
    h: "at p (b\<lparr>checks := checks b + h\<rparr>) q1 r2 ?m (hold_loop h p b1)" "answering ?v r2" "cells r2 = mem_of b p"
    using r1(2) by (auto simp: b1_def)
  let ?q2 = "q1\<lparr>req_rready := True\<rparr>"
  let ?s2 = "set_req p (\<lambda>q. q\<lparr>req_rready := True\<rparr>) (hold_loop h p b1)"
  have s2: "at p (b\<lparr>checks := checks b + h\<rparr>) ?q2 r2 ?m ?s2" by (rule at_set [OF h(1)])
  have o2: "rsp_rvalid (rsp (chans (eval ?s2) p))" "rsp_rdata (rsp (chans (eval ?s2) p)) = ?v"
    unfolding at_rsp [OF s2] using answering_edge(4,5) [OF h(2), of ?q2 p] q1 by simp_all
  define b3 where "b3 = CHECK (rsp_rvalid (rsp (chans (eval ?s2) p))) ''RVALID dropped before R handshake'' (eval ?s2)"
  have b3: "at p (b\<lparr>checks := checks b + h + 1\<rparr>) ?q2 r2 ?m b3"
    using at_check [OF at_eval [OF s2] o2(1)] by (simp add: b3_def)
  let ?r3 = "nram_edge (port_cfg p) True r2 ?q2" and ?q3 = "?q2\<lparr>req_rready := False\<rparr>"
  have r3: "quiet ?r3" "cells ?r3 = mem_of b p" using answering_edge(2,3) [OF h(2), of ?q2 p] h(3) q1 by simp_all
  let ?s4 = "set_req p (\<lambda>q. q\<lparr>req_rready := False\<rparr>) (tick b3)"
  have s4: "at p (b\<lparr>checks := checks b + h + 1\<rparr>) ?q3 ?r3 ?m ?s4" by (rule at_set [OF at_tick [OF b3]])
  have o4: "\<not> rsp_rvalid (rsp (chans (eval ?s4) p))" unfolding at_rsp [OF s4] using quiet_edge(5) [OF r3(1)] by blast
  define b5 where "b5 = CHECK (\<not> rsp_rvalid (rsp (chans (eval ?s4) p))) ''RVALID stayed high after R handshake'' (eval ?s4)"
  have b5: "at p (b\<lparr>checks := checks b + h + 2\<rparr>) ?q3 ?r3 ?m b5"
    using at_check [OF at_eval [OF s4] o4] by (simp add: b5_def)
  have "port_read p a h b = (?v, port_idle p b5)"
    unfolding port_read_def l by (simp add: w [folded b1_def] Let_def b1_def [symmetric] o2 b3_def b5_def)
  moreover have "passed (h + 2) ((mem_of b)(p := cells ?r3)) b (port_idle p b5)"
    by (rule at_passed [OF port_idle_at [OF b5] r3(1)]) simp_all
  ultimately show ?thesis by (simp only: r3(2) fun_upd_triv) blast
qed

section \<open>The bench passes\<close>

lemma passed_trans: "passed n M b b1 \<Longrightarrow> passed k M' b1 b2 \<Longrightarrow> passed (n + k) M' b b2"
  by (auto simp: passed_def)

lemma passed_settled: "passed n M b b1 \<Longrightarrow> settled b1 \<and> mem_of b1 = M"
  by (simp add: passed_def)

lemma strobed_examples: "strobed 0x3 0 0xFFFFFFFF = (0xFFFF0000 :: u32)" "strobed 0x8 0xAB000000 0 = (0xAB000000 :: u32)"
  by code_simp+

lemma d_write_step:
  assumes "passed n M b0 b"
  shows "passed n (M(DMEM := (M DMEM)(word_of a := strobed s d (M DMEM (word_of a))))) b0 (d_write a d s b)"
  using passed_trans [OF assms port_write_result [of b DMEM a s d]] passed_settled [OF assms]
  by (simp add: d_write_def)

lemma expect_step:
  assumes "passed n M b0 b" and "M p (word_of a) = want"
  shows "passed (n + h + 3) M b0 (expect_read p a h want msg b)"
proof -
  have s: "settled b" "mem_of b = M" using passed_settled [OF assms(1)] by simp_all
  from port_read_result [OF s(1), of p a h] obtain b' where
    r: "port_read p a h b = (M p (word_of a), b')" "passed (h + 2) M b b'" using s(2) by auto
  from passed_trans [OF assms(1) r(2)] show ?thesis
    using assms(2) by (auto simp: expect_read_def r(1) passed_def CHECK_def settled_def mem_of_def)
qed

lemma word_of_values [simp]:
  "word_of 0 = 0" "word_of 4 = 1" "word_of 0x10 = 4" "word_of 0x14 = 5" "word_of 0x20 = 8" "word_of 0x24 = 9" "word_of 0x28 = 10"
  by (simp_all add: word_of_def)

definition tested :: "(port \<Rightarrow> nat \<Rightarrow> u32) \<Rightarrow> port \<Rightarrow> nat \<Rightarrow> u32" where
  "tested M = M(DMEM := (M DMEM)(0 := 0xDEADBEEF, 4 := 0x11111111, 5 := 0x22222222, 8 := 0xFFFF0000, 9 := 0xAB000000))"

lemma dmem_tests_pass:
  assumes "settled b"
  shows "passed 18 (tested (mem_of b)) b (dmem_tests b)"
proof -
  have start: "passed 0 (mem_of b) b b" using assms by (simp add: passed_def)
  have "\<exists>k M. passed k M b (dmem_tests b) \<and> k = 18 \<and> M = tested (mem_of b)"
    unfolding dmem_tests_def Let_def
    by (intro exI conjI, (rule expect_step d_write_step start)+)
      (simp_all add: tested_def strobed_all strobed_examples fun_upd_twist)
  then show ?thesis by blast
qed

lemma blocked_write_result:
  assumes "at DMEM b0 q r m b" and "answering v r"
  shows "\<exists>q' r'. at DMEM (b0\<lparr>checks := checks b0 + 2\<rparr>) q' r' m (blocked_write b) \<and> answering v r' \<and> cells r' = cells r"
proof -
  let ?f = "\<lambda>q. q\<lparr>req_valid := True, req_we := True, req_addr := 0x28, req_wdata := 0x33333333, req_wstrb := 0xF, req_rready := False\<rparr>"
  let ?q = "?f q" and ?s = "set_req DMEM ?f b"
  have s: "at DMEM b0 ?q r m ?s" by (rule at_set [OF assms(1)])
  have o: "\<not> rsp_wready (rsp (chans (eval ?s) DMEM))"
    unfolding at_rsp [OF s] by (rule answering_edge(6) [OF assms(2)]) simp_all
  define b1 where "b1 = CHECK True ''WREADY high while read response pending (single outstanding)'' (eval ?s)"
  have b1: "at DMEM (b0\<lparr>checks := checks b0 + 1\<rparr>) ?q r m b1"
    using at_check [OF at_eval [OF s] TrueI] by (simp add: b1_def)
  let ?r = "nram_edge (port_cfg DMEM) True r ?q"
  have r: "answering v ?r" "cells ?r = cells r" using answering_edge(1,3) [OF assms(2), of ?q DMEM] by simp_all
  have t: "at DMEM (b0\<lparr>checks := checks b0 + 1\<rparr>) ?q ?r m (tick b1)" by (rule at_tick [OF b1])
  have o2: "\<not> rsp_wready (rsp (chans (eval (tick b1)) DMEM))"
    unfolding at_rsp [OF t] by (rule answering_edge(6) [OF r(1)]) simp_all
  have "blocked_write b = CHECK True ''WREADY high 2nd cycle while read pending'' (eval (tick b1))"
    unfolding blocked_write_def by (simp add: o o2 Let_def b1_def [symmetric])
  with at_check [OF at_eval [OF t] TrueI] r show ?thesis by auto
qed

lemma outstanding_test_pass:
  assumes "settled b" and "mem_of b DMEM 10 \<noteq> 0x33333333"
  shows "passed 6 (mem_of b) b (outstanding_test b)"
proof -
  let ?v = "mem_of b DMEM (word_of 0x10)" and ?m = "\<lambda>y. ram (chans b y)"
  from read_launched [OF assms(1) refl, of DMEM "0x10"] obtain b0 q1 r1 where
    l: "launch_loop 21 DMEM (set_req DMEM (\<lambda>q. q\<lparr>req_valid := True, req_we := False, req_addr := 0x10, req_rready := False\<rparr>) b) = (True, b0)"
    and at1: "at DMEM b q1 r1 ?m (eval (set_req DMEM (\<lambda>q. q\<lparr>req_valid := False\<rparr>) b0))"
    and w: "rvalid_loop 21 DMEM (eval (set_req DMEM (\<lambda>q. q\<lparr>req_valid := False\<rparr>) b0)) = (True, eval (set_req DMEM (\<lambda>q. q\<lparr>req_valid := False\<rparr>) b0))"
    and rv: "rsp_rvalid (rsp (chans (eval (set_req DMEM (\<lambda>q. q\<lparr>req_valid := False\<rparr>) b0)) DMEM))"
    and r1: "answering ?v r1" "cells r1 = mem_of b DMEM" by auto
  define b2 where "b2 = CHECK True ''RVALID up for single-outstanding check'' (eval (set_req DMEM (\<lambda>q. q\<lparr>req_valid := False\<rparr>) b0))"
  have b2: "at DMEM (b\<lparr>checks := checks b + 1\<rparr>) q1 r1 ?m b2" unfolding b2_def by (rule at_check [OF at1 TrueI])
  from blocked_write_result [OF this r1(1)] r1(2) obtain q3 r3 where
    b3: "at DMEM (b\<lparr>checks := checks b + 3\<rparr>) q3 r3 ?m (blocked_write b2)"
    and r3: "answering ?v r3" "cells r3 = mem_of b DMEM" by (auto simp: eval_nat_numeral)
  let ?q4 = "q3\<lparr>req_valid := False, req_rready := True\<rparr>"
  let ?r5 = "nram_edge (port_cfg DMEM) True r3 ?q4"
  define b5 where "b5 = tick (eval (set_req DMEM (\<lambda>q. q\<lparr>req_valid := False, req_rready := True\<rparr>) (blocked_write b2)))"
  have b5: "at DMEM (b\<lparr>checks := checks b + 3\<rparr>) ?q4 ?r5 ?m b5"
    unfolding b5_def by (rule at_tick [OF at_eval [OF at_set [OF b3]]])
  have r5: "quiet ?r5" "cells ?r5 = mem_of b DMEM" using answering_edge(2,3) [OF r3(1), of ?q4 DMEM] r3(2) by simp_all
  define b6 where "b6 = d_idle (eval (set_req DMEM (\<lambda>q. q\<lparr>req_rready := False\<rparr>) b5))"
  have "passed 3 ((mem_of b)(DMEM := cells ?r5)) b b6"
    unfolding b6_def d_idle_def by (rule at_passed [OF port_idle_at [OF at_eval [OF at_set [OF b5]]] r5(1)]) simp_all
  then have p6: "passed 3 (mem_of b) b b6" by (simp only: r5(2) fun_upd_triv)
  then have s6: "settled b6" "mem_of b6 = mem_of b" using passed_settled by blast+
  from port_read_result [OF s6(1), of DMEM "0x28" 0] obtain b7 where
    r: "port_read DMEM 0x28 0 b6 = (mem_of b DMEM 10, b7)" "passed 2 (mem_of b) b6 b7" using s6(2) by (auto simp: numeral_2_eq_2)
  have "outstanding_test b = CHECK (mem_of b DMEM 10 \<noteq> 0x33333333) ''write committed while WREADY=0 (must not)'' b7"
    unfolding outstanding_test_def d_read_def
    by (simp add: l w rv r(1) Let_def b2_def [symmetric] b5_def [symmetric] b6_def [symmetric])
  with passed_trans [OF p6 r(2)] assms(2) show ?thesis
    by (simp add: passed_def CHECK_def settled_def mem_of_def)
qed

lemma imem_tests_pass:
  assumes "settled b" and "mem_of b IMEM 0 = 0xCAFEBABE" and "mem_of b IMEM 1 = 0xDEADBEEF"
  shows "passed 13 (mem_of b) b (imem_tests b)"
proof -
  have start: "passed 0 (mem_of b) b b" using assms(1) by (simp add: passed_def)
  have attempt: "passed n M b (i_write_attempt a d s b')" if "passed n M b b'" for n M b' a d s
    using passed_trans [OF that port_write_result [of b' IMEM a s d]] passed_settled [OF that]
    by (simp add: i_write_attempt_def)
  have "\<exists>k M. passed k M b (imem_tests b) \<and> k = 13 \<and> M = mem_of b"
    unfolding imem_tests_def Let_def
    by (intro exI conjI, (rule expect_step attempt start)+) (simp_all add: assms(2) assms(3) [simplified])
  then show ?thesis by blast
qed

definition resetting :: "bench \<Rightarrow> bench \<Rightarrow> bool" where
  "resetting b0 b \<longleftrightarrow> \<not> rstn_i b \<and> (\<forall>p. \<not> req_valid (req (chans b p)) \<and> length (skid_q (ram (chans b p))) = 1)
     \<and> mem_of b = mem_of b0 \<and> checks b = checks b0 \<and> fails b = fails b0 \<and> messages b = messages b0"

lemma resetting_tick: "resetting b0 b \<Longrightarrow> resetting b0 (tick b) \<and> (\<forall>p. quiet (ram (chans (tick b) p)))"
  by (auto simp: resetting_def tick_def eval_def posedge_def Let_def nram_edge_def nram_wires quiet_def mem_of_def fun_eq_iff)

lemma reset_seq_result:
  assumes "\<And>p. length (skid_q (ram (chans b p))) = 1"
  shows "passed 0 (mem_of b) b (reset_seq b)"
proof -
  let ?s = "eval (i_idle (d_idle (b\<lparr>rstn_i := False\<rparr>)))"
  have "\<not> req_valid (req (chans ?s p))" for p
    by (cases p) (simp_all add: eval_def d_idle_def i_idle_def port_idle_def set_req_def Let_def)
  then have "resetting b ?s"
    using assms by (auto simp: resetting_def eval_def d_idle_def i_idle_def port_idle_def set_req_def mem_of_def Let_def fun_eq_iff)
  then have "resetting b ((tick ^^ 3) ?s)" by (simp add: numeral_eq_Suc resetting_tick)
  then have r: "resetting b ((tick ^^ 4) ?s) \<and> (\<forall>p. quiet (ram (chans ((tick ^^ 4) ?s) p)))"
    using resetting_tick [of b "(tick ^^ 3) ?s"] by (simp add: numeral_eq_Suc)
  define b1 where "b1 = ((tick ^^ 4) ?s)\<lparr>rstn_i := True\<rparr>"
  have "settled b1" "mem_of b1 = mem_of b" "checks b1 = checks b" "fails b1 = fails b" "messages b1 = messages b"
    using r by (auto simp: b1_def settled_def resting_def resetting_def mem_of_def fun_eq_iff)
  moreover from this have "settled (tick (eval b1)) \<and> mem_of (tick (eval b1)) = mem_of b1"
    by (auto simp: settled_def resting_def mem_of_def tick_def eval_def posedge_def Let_def quiet_edge fun_eq_iff)
  moreover have "checks (tick (eval b1)) = checks b1 \<and> fails (tick (eval b1)) = fails b1 \<and> messages (tick (eval b1)) = messages b1"
    by (simp add: tick_def eval_def posedge_def)
  ultimately show ?thesis by (simp add: reset_seq_def passed_def Let_def b1_def [symmetric])
qed

section \<open>Properties\<close>

text \<open>On either port a read that follows a write gets the bytes whose strobes were set from the write and the
  others from memory as it was, or all of memory on the read-only port, for every address, word, strobe and delay of
  the ready signal; no check fails on the way.\<close>

theorem write_read_round_trip:
  assumes "settled b"
  shows "\<exists>b'. port_read p a h (port_write p a d s b) =
      (if p = IMEM then mem_of b p (word_of a) else strobed s d (mem_of b p (word_of a)), b')
    \<and> settled b' \<and> fails b' = fails b \<and> checks b' = checks b + h + 2"
proof -
  note w = port_write_result [OF assms, of p a s d]
  from port_read_result [OF conjunct1 [OF passed_settled [OF w]], of p a h] passed_settled [OF w] obtain b' where
    "port_read p a h (port_write p a d s b) =
       (if p = IMEM then mem_of b p (word_of a) else strobed s d (mem_of b p (word_of a)), b')"
    and r: "passed (h + 2) (mem_of (port_write p a d s b)) (port_write p a d s b) b'" by (auto split: if_splits)
  with passed_trans [OF w r] show ?thesis by (auto simp: passed_def)
qed

text \<open>The bench passes on the model of the RAM: it makes its 37 checks, none fails and none times out, and it returns
  0, whatever the registers held before the reset, provided the instruction memory is preloaded as the wrapper does
  and the word of the last data test does not happen to hold the value that must not be written.\<close>

theorem native_mem_bench_passes:
  assumes "\<And>p. length (skid_q (ram (chans b p))) = 1"
    and "mem_of b IMEM 0 = 0xCAFEBABE" "mem_of b IMEM 1 = 0xDEADBEEF" "mem_of b DMEM 10 \<noteq> 0x33333333"
    and "checks b = 0" "fails b = 0" "messages b = []"
  shows "\<exists>b'. native_mem_main b = (0, b') \<and> checks b' = 37 \<and> fails b' = 0 \<and> messages b' = []"
proof -
  note p1 = reset_seq_result [OF assms(1)]
  note s1 = passed_settled [OF p1]
  note p2 = passed_trans [OF p1 dmem_tests_pass [OF conjunct1 [OF s1]]]
  note s2 = passed_settled [OF p2]
  have "mem_of (dmem_tests (reset_seq b)) DMEM 10 \<noteq> 0x33333333" using s1 s2 assms(4) by (simp add: tested_def)
  note p3 = passed_trans [OF p2 outstanding_test_pass [OF conjunct1 [OF s2] this]]
  note s3 = passed_settled [OF p3]
  have "mem_of (outstanding_test (dmem_tests (reset_seq b))) IMEM 0 = 0xCAFEBABE"
    "mem_of (outstanding_test (dmem_tests (reset_seq b))) IMEM 1 = 0xDEADBEEF"
    using s1 s2 s3 assms(2,3) by (simp_all add: tested_def)
  from passed_trans [OF p3 imem_tests_pass [OF conjunct1 [OF s3] this]] assms(5-7) show ?thesis
    by (auto simp: native_mem_main_def passed_def Let_def)
qed

definition fresh_ram :: "port \<Rightarrow> u32 nram" where
  "fresh_ram p = \<lparr>rif_q = True, rd_d_q = 5, count_q = 1, skid_q = [7],
     cells = (\<lambda>_. 0)(0 := (if p = IMEM then 0xCAFEBABE else 0), 1 := (if p = IMEM then 0xDEADBEEF else 0))\<rparr>"

definition fresh_bench :: bench where
  "fresh_bench = \<lparr>rstn_i = True, chans = \<lambda>p. \<lparr>
     req = \<lparr>req_valid = True, req_we = False, req_addr = 0, req_wdata = 0, req_wstrb = 0, req_rready = False\<rparr>,
     rsp = \<lparr>rsp_wready = False, rsp_rvalid = False, rsp_rdata = 0\<rparr>, ram = fresh_ram p\<rparr>,
     checks = 0, fails = 0, messages = []\<rparr>"

lemma native_mem_bench_passes_witness:
  "\<exists>b'. native_mem_main fresh_bench = (0, b') \<and> checks b' = 37 \<and> fails b' = 0 \<and> messages b' = []"
  by (rule native_mem_bench_passes) (simp_all add: fresh_bench_def fresh_ram_def mem_of_def)

definition resting_bench :: bench where
  "resting_bench = fresh_bench\<lparr>chans := \<lambda>p. (chans fresh_bench p)\<lparr>
     req := \<lparr>req_valid = False, req_we = False, req_addr = 0, req_wdata = 0, req_wstrb = 0, req_rready = False\<rparr>,
     ram := (fresh_ram p)\<lparr>rif_q := False, count_q := 0\<rparr>\<rparr>\<rparr>"

lemma resting_bench_settled: "settled resting_bench"
  by (simp add: settled_def resting_def quiet_def resting_bench_def fresh_bench_def fresh_ram_def)

lemma strobed_low: "strobed 0x3 0xAABBCCDD 0 = (0xCCDD :: u32)"
  by code_simp

lemma write_read_round_trip_witness:
  "\<exists>b'. port_read DMEM 0x101 3 (port_write DMEM 0x101 0xAABBCCDD 0x3 resting_bench) = (0xCCDD, b')
    \<and> settled b' \<and> fails b' = 0 \<and> checks b' = 5"
  using write_read_round_trip [OF resting_bench_settled, of DMEM "0x101" 3 "0xAABBCCDD" "0x3"] strobed_low
  by (simp add: resting_bench_def fresh_bench_def fresh_ram_def mem_of_def word_of_def)
end
