(* ===== verification/Native_Ram64_Tb.thy ===== *)
theory Native_Ram64_Tb
  imports Native_Ram
begin

text \<open>
  The bench \<open>sim/hw/native_ram64_tb/native_ram64_tb.cpp\<close> on its wrapper \<open>native_ram64_tb.sv\<close>: the native RAM as the
  instruction port uses it, 64 bits wide, read-only, two reads outstanding. State and conventions as in
  \<open>Native_Mem_Tb\<close>.
\<close>

record bench64 =
  rstn64 :: bool
  req64 :: "u64 nram_req"
  rsp64 :: "u64 nram_rsp"
  ram64 :: "u64 nram"
  checks64 :: nat
  fails64 :: nat
  messages64 :: "string list"

text \<open>The parameters in the wrapper.\<close>

definition imem64_cfg :: nram_cfg where
  "imem64_cfg = \<lparr>ADDR_W = 16, READ_ONLY = True, OUTSTANDING = 2\<rparr>"

definition eval64 :: "bench64 \<Rightarrow> bench64" where
  "eval64 b = b\<lparr>rsp64 := nram_out imem64_cfg (ram64 b) (req64 b)\<rparr>"

definition posedge64 :: "bench64 \<Rightarrow> bench64" where
  "posedge64 b = b\<lparr>ram64 := nram_edge imem64_cfg (rstn64 b) (ram64 b) (req64 b)\<rparr>"

definition tick64 :: "bench64 \<Rightarrow> bench64" where
  "tick64 b = eval64 (posedge64 (eval64 b))"

definition CHECK64 :: "bool \<Rightarrow> string \<Rightarrow> bench64 \<Rightarrow> bench64" where
  "CHECK64 cond msg b = (let b = b\<lparr>checks64 := checks64 b + 1\<rparr> in
     if cond then b else b\<lparr>fails64 := fails64 b + 1, messages64 := messages64 b @ [msg]\<rparr>)"

definition set_req64 :: "(u64 nram_req \<Rightarrow> u64 nram_req) \<Rightarrow> bench64 \<Rightarrow> bench64" where
  "set_req64 f b = b\<lparr>req64 := f (req64 b)\<rparr>"

definition idle64 :: "bench64 \<Rightarrow> bench64" where
  "idle64 b = eval64 (set_req64 (\<lambda>q. q\<lparr>req_valid := False, req_addr := 0, req_rready := False\<rparr>) b)"

definition ask64 :: "u32 \<Rightarrow> bench64 \<Rightarrow> bench64" where
  "ask64 a b = eval64 (set_req64 (\<lambda>q. q\<lparr>req_valid := True, req_addr := a, req_rready := False\<rparr>) b)"

definition rready64 :: "bool \<Rightarrow> bench64 \<Rightarrow> bench64" where
  "rready64 x b = eval64 (set_req64 (\<lambda>q. q\<lparr>req_rready := x\<rparr>) b)"

definition W0 :: u64 where "W0 = 0xDEADBEEFCAFEBABE"
definition W1 :: u64 where "W1 = 0x0BADF00D12345678"
definition W2 :: u64 where "W2 = 0xAAAABBBBCCCCDDDD"

definition reset64 :: "bench64 \<Rightarrow> bench64" where
  "reset64 b = (let
     b = eval64 (idle64 (b\<lparr>rstn64 := False\<rparr>));
     b = (tick64 ^^ 4) b;
     b = eval64 (b\<lparr>rstn64 := True\<rparr>)
   in tick64 b)"

text \<open>Tests 1 to 3: two reads are accepted, the third is not.\<close>

definition launch_a64 :: "bench64 \<Rightarrow> bench64" where
  "launch_a64 b = (let
     b = ask64 0x0000 b;
     b = CHECK64 (rsp_wready (rsp64 b)) ''read A accepted (skid empty)'' b
   in idle64 (tick64 b))"

definition launch_b64 :: "bench64 \<Rightarrow> bench64" where
  "launch_b64 b = (let
     b = ask64 0x0008 b;
     b = CHECK64 (rsp_wready (rsp64 b)) ''read B accepted while read A in flight (2-outstanding)'' b;
     b = CHECK64 (rsp_rvalid (rsp64 b)) ''RVALID up when read A data lands'' b;
     b = CHECK64 (rsp_rdata (rsp64 b) = W0) ''read A data at head when B launches'' b
   in idle64 (tick64 b))"

definition block_c64 :: "bench64 \<Rightarrow> bench64" where
  "block_c64 b = (let
     b = ask64 0x0010 b;
     b = CHECK64 (\<not> rsp_wready (rsp64 b)) ''read C blocked while two responses held (skid full)'' b;
     b = CHECK64 (rsp_rvalid (rsp64 b)) ''RVALID held while C blocked'' b;
     b = CHECK64 (rsp_rdata (rsp64 b) = W0) ''read A still at head while C blocked'' b
   in idle64 (tick64 b))"

text \<open>Test 4: the response is held while the master is not ready.\<close>

definition hold_step64 :: "bench64 \<Rightarrow> bench64" where
  "hold_step64 b = (let
     b = rready64 False b;
     b = CHECK64 (rsp_rvalid (rsp64 b)) ''RVALID dropped while RREADY=0 (must be held)'' b;
     b = CHECK64 (rsp_rdata (rsp64 b) = W0) ''head data changed while RREADY=0'' b
   in eval64 (tick64 b))"

definition hold_test64 :: "bench64 \<Rightarrow> bench64" where
  "hold_test64 = hold_step64 ^^ 4"

text \<open>Tests 5 to 8: the responses come in order, and the third read launches once there is room.\<close>

definition drain64 :: "u64 \<Rightarrow> string \<Rightarrow> string \<Rightarrow> bench64 \<Rightarrow> bench64" where
  "drain64 want msg1 msg2 b = (let
     b = rready64 True b;
     b = CHECK64 (rsp_rvalid (rsp64 b)) msg1 b;
     b = CHECK64 (rsp_rdata (rsp64 b) = want) msg2 b
   in rready64 False (tick64 b))"

definition launch_c64 :: "bench64 \<Rightarrow> bench64" where
  "launch_c64 b = (let
     b = ask64 0x0010 b;
     b = CHECK64 (rsp_wready (rsp64 b)) ''read C accepted after one response drained'' b
   in idle64 (tick64 b))"

definition native_ram64_main :: "bench64 \<Rightarrow> nat \<times> bench64" where
  "native_ram64_main b = (let
     b = block_c64 (launch_b64 (launch_a64 (reset64 b)));
     b = hold_test64 b;
     b = drain64 W0 ''RVALID dropped before R handshake (drain A)'' ''drain read A data'' b;
     b = launch_c64 b;
     b = drain64 W1 ''RVALID dropped before R handshake (drain B)'' ''drain read B data'' b;
     b = drain64 W2 ''RVALID dropped before R handshake (drain C)'' ''drain read C data'' b;
     b = CHECK64 (\<not> rsp_rvalid (rsp64 b)) ''RVALID stayed high after all responses drained'' b
   in (if fails64 b \<noteq> 0 then 1 else 0, b))"

section \<open>The bench passes\<close>

text \<open>What the bench sees is a queue of responses: \<open>xs\<close> are the reads under way, oldest first.\<close>

definition st :: "u64 nram_req \<Rightarrow> u64 list \<Rightarrow> nat \<Rightarrow> bench64 \<Rightarrow> bool" where
  "st q xs n b \<longleftrightarrow> rstn64 b \<and> req64 b = q \<and> \<not> req_we q \<and> rsp64 b = nram_out imem64_cfg (ram64 b) q
     \<and> nram_ok imem64_cfg (ram64 b) \<and> pending (ram64 b) = xs
     \<and> cells (ram64 b) 0 = W0 \<and> cells (ram64 b) 1 = W1 \<and> cells (ram64 b) 2 = W2
     \<and> checks64 b = n \<and> fails64 b = 0 \<and> messages64 b = []"

lemma cfg64 [simp]: "OUTSTANDING imem64_cfg = 2" "READ_ONLY imem64_cfg" "ADDR_W imem64_cfg = 16"
  by (simp_all add: imem64_cfg_def)

lemma st_set: "st q xs n b \<Longrightarrow> \<not> req_we (f q) \<Longrightarrow> st (f q) xs n (eval64 (set_req64 f b))"
  by (simp add: st_def eval64_def set_req64_def)

lemma st_ask: "st q xs n b \<Longrightarrow> st (q\<lparr>req_valid := True, req_addr := a, req_rready := False\<rparr>) xs n (ask64 a b)"
  unfolding ask64_def by (rule st_set) (simp_all add: st_def)

lemma st_idle: "st q xs n b \<Longrightarrow> st (q\<lparr>req_valid := False, req_addr := 0, req_rready := False\<rparr>) xs n (idle64 b)"
  unfolding idle64_def by (rule st_set) (simp_all add: st_def)

lemma st_rready: "st q xs n b \<Longrightarrow> st (q\<lparr>req_rready := x\<rparr>) xs n (rready64 x b)"
  unfolding rready64_def by (rule st_set) (simp_all add: st_def)

lemma st_eval: "st q xs n b \<Longrightarrow> st q xs n (eval64 b)"
  by (simp add: st_def eval64_def)

lemma st_check: "st q xs n b \<Longrightarrow> c \<Longrightarrow> st q xs (Suc n) (CHECK64 c msg b)"
  by (simp add: st_def CHECK64_def)

lemma st_out:
  assumes "st q xs n b"
  shows "rsp_rvalid (rsp64 b) \<longleftrightarrow> xs \<noteq> []" and "xs \<noteq> [] \<Longrightarrow> rsp_rdata (rsp64 b) = hd xs"
    and "rsp_wready (rsp64 b) \<longleftrightarrow> length xs - of_bool (req_rready q \<and> xs \<noteq> []) < 2"
  using assms out_pending [of imem64_cfg "ram64 b" q] by (auto simp: st_def)

definition word64 :: "u32 \<Rightarrow> u64" where
  "word64 a = (if a = 0 then W0 else if a = 8 then W1 else W2)"

lemma st_tick:
  assumes "st q xs n b" and "req_addr q \<in> {0, 8, 16}"
  shows "st q (queue_edge (req_rready q) (if req_valid q \<and> rsp_wready (rsp64 b) then Some (word64 (req_addr q)) else None) xs) n (tick64 b)"
proof -
  have "new_read imem64_cfg (ram64 b) q = (if req_valid q \<and> rsp_wready (rsp64 b) then Some (word64 (req_addr q)) else None)"
    using assms by (auto simp: st_def new_read_def launch_read_def launch_hs_def word64_def word_addr_def STRB_W_def)
  moreover have "cells (nram_edge imem64_cfg True (ram64 b) q) = cells (ram64 b)"
    by (simp add: nram_edge_def next_cells_def)
  ultimately show ?thesis
    using assms edge_ok [of imem64_cfg "ram64 b" q] pending_edge [of imem64_cfg "ram64 b" q]
    by (simp add: st_def tick64_def eval64_def posedge64_def)
qed

lemma word64_values: "word64 0 = W0" "word64 8 = W1" "word64 16 = W2"
  by (simp_all add: word64_def)

lemma rsp64_CHECK64 [simp]: "rsp64 (CHECK64 c msg b) = rsp64 b"
  by (simp add: CHECK64_def Let_def)

lemma launch_a64_result: "st q [] n b \<Longrightarrow> \<exists>q. st q [W0] (n + 1) (launch_a64 b)"
proof -
  assume "st q [] n b"
  note a = st_ask [OF this, of 0]
  note o = st_out [OF a]
  have c: "st (q\<lparr>req_valid := True, req_addr := 0, req_rready := False\<rparr>) [] (Suc n) (CHECK64 (rsp_wready (rsp64 (ask64 0 b))) msg (ask64 0 b))" for msg
    by (rule st_check [OF a]) (simp add: o)
  show ?thesis using st_idle [OF st_tick [OF c]] o by (auto simp: launch_a64_def Let_def queue_edge_def word64_values)
qed

lemma launch_b64_result: "st q [W0] n b \<Longrightarrow> \<exists>q. st q [W0, W1] (n + 3) (launch_b64 b)"
proof -
  assume "st q [W0] n b"
  note a = st_ask [OF this, of 8]
  note o = st_out [OF a]
  have c: "st (q\<lparr>req_valid := True, req_addr := 8, req_rready := False\<rparr>) [W0] (Suc (Suc (Suc n)))
    (CHECK64 True m3 (CHECK64 True m2 (CHECK64 True m1 (ask64 8 b))))" for m1 m2 m3
    by (intro st_check a TrueI)
  show ?thesis using st_idle [OF st_tick [OF c]] o
    by (auto simp: launch_b64_def Let_def queue_edge_def word64_values numeral_3_eq_3)
qed

lemma block_c64_result: "st q [W0, W1] n b \<Longrightarrow> \<exists>q. st q [W0, W1] (n + 3) (block_c64 b) \<and> \<not> req_valid q \<and> req_addr q = 0"
proof -
  assume "st q [W0, W1] n b"
  note a = st_ask [OF this, of 16]
  note o = st_out [OF a]
  have c: "st (q\<lparr>req_valid := True, req_addr := 16, req_rready := False\<rparr>) [W0, W1] (Suc (Suc (Suc n)))
    (CHECK64 True m3 (CHECK64 True m2 (CHECK64 True m1 (ask64 16 b))))" for m1 m2 m3
    by (intro st_check a TrueI)
  show ?thesis using st_idle [OF st_tick [OF c]] o
    by (auto simp: block_c64_def Let_def queue_edge_def numeral_3_eq_3
        intro!: exI [of _ "q\<lparr>req_valid := False, req_addr := 0, req_rready := False\<rparr>"])
qed

lemma hold_step64_result:
  assumes "st q [W0, W1] n b" and "\<not> req_valid q" and "req_addr q = 0"
  shows "\<exists>q. st q [W0, W1] (n + 2) (hold_step64 b) \<and> \<not> req_valid q \<and> req_addr q = 0"
proof -
  note a = st_rready [OF assms(1), of False]
  note o = st_out [OF a]
  have c: "st (q\<lparr>req_rready := False\<rparr>) [W0, W1] (Suc (Suc n)) (CHECK64 True m2 (CHECK64 True m1 (rready64 False b)))" for m1 m2
    by (intro st_check a TrueI)
  show ?thesis using st_eval [OF st_tick [OF c]] o assms(2,3)
    by (auto simp: hold_step64_def Let_def queue_edge_def intro!: exI [of _ "q\<lparr>req_rready := False\<rparr>"])
qed

lemma drain64_result:
  assumes "st q (w # xs) n b" and "\<not> req_valid q" and "req_addr q = 0"
  shows "\<exists>q. st q xs (n + 2) (drain64 w m1 m2 b) \<and> \<not> req_valid q \<and> req_addr q = 0"
proof -
  note a = st_rready [OF assms(1), of True]
  note o = st_out [OF a]
  have c: "st (q\<lparr>req_rready := True\<rparr>) (w # xs) (Suc (Suc n)) (CHECK64 True m2 (CHECK64 True m1 (rready64 True b)))"
    by (intro st_check a TrueI)
  show ?thesis using st_rready [OF st_tick [OF c], of False] o assms(2,3)
    by (auto simp: drain64_def Let_def queue_edge_def intro!: exI [of _ "q\<lparr>req_rready := False\<rparr>"])
qed

lemma launch_c64_result: "st q [W1] n b \<Longrightarrow> \<exists>q. st q [W1, W2] (n + 1) (launch_c64 b) \<and> \<not> req_valid q \<and> req_addr q = 0"
proof -
  assume "st q [W1] n b"
  note a = st_ask [OF this, of 16]
  note o = st_out [OF a]
  have c: "st (q\<lparr>req_valid := True, req_addr := 16, req_rready := False\<rparr>) [W1] (Suc n) (CHECK64 True msg (ask64 16 b))" for msg
    by (rule st_check [OF a TrueI])
  show ?thesis using st_idle [OF st_tick [OF c]] o
    by (auto simp: launch_c64_def Let_def queue_edge_def word64_values
        intro!: exI [of _ "q\<lparr>req_valid := False, req_addr := 0, req_rready := False\<rparr>"])
qed

text \<open>The preload of the wrapper; the write enable is tied to 0 there.\<close>

definition wired64 :: "bench64 \<Rightarrow> bool" where
  "wired64 b \<longleftrightarrow> \<not> req_we (req64 b) \<and> length (skid_q (ram64 b)) = 2
     \<and> cells (ram64 b) 0 = W0 \<and> cells (ram64 b) 1 = W1 \<and> cells (ram64 b) 2 = W2
     \<and> checks64 b = 0 \<and> fails64 b = 0 \<and> messages64 b = []"

lemma wired64_tick: "wired64 b \<Longrightarrow> \<not> rstn64 b \<Longrightarrow> wired64 (tick64 b) \<and> \<not> rstn64 (tick64 b) \<and> req64 (tick64 b) = req64 b
    \<and> nram_ok imem64_cfg (ram64 (tick64 b)) \<and> pending (ram64 (tick64 b)) = []"
  by (simp add: wired64_def tick64_def eval64_def posedge64_def nram_edge_def next_cells_def nram_ok_def pending_def)

lemma reset64_result:
  assumes "wired64 b"
  shows "\<exists>q. st q [] 0 (reset64 b)"
proof -
  let ?s = "eval64 (idle64 (b\<lparr>rstn64 := False\<rparr>))"
  have s: "wired64 ?s \<and> \<not> rstn64 ?s \<and> \<not> req_valid (req64 ?s) \<and> req_addr (req64 ?s) = 0 \<and> req_rready (req64 ?s) = False"
    using assms by (simp add: wired64_def eval64_def idle64_def set_req64_def)
  have four: "(tick64 ^^ 4) ?s = tick64 (tick64 (tick64 (tick64 ?s)))" by (simp add: numeral_eq_Suc)
  let ?t = "(tick64 ^^ 4) ?s"
  have t: "wired64 ?t \<and> nram_ok imem64_cfg (ram64 ?t) \<and> pending (ram64 ?t) = [] \<and> req64 ?t = req64 ?s"
    unfolding four by (simp add: wired64_tick s)
  have "st (req64 ?s) [] 0 (eval64 (?t\<lparr>rstn64 := True\<rparr>))"
    using t by (auto simp: st_def eval64_def wired64_def)
  from st_tick [OF this] s show ?thesis
    by (auto simp: reset64_def queue_edge_def Let_def)
qed

lemma hold_test64_result:
  assumes "st q [W0, W1] n b" and "\<not> req_valid q" and "req_addr q = 0"
  shows "\<exists>q. st q [W0, W1] (n + 8) (hold_test64 b) \<and> \<not> req_valid q \<and> req_addr q = 0"
proof -
  have "\<exists>q. st q [W0, W1] (n + 2 * k) ((hold_step64 ^^ k) b) \<and> \<not> req_valid q \<and> req_addr q = 0" for k
  proof (induction k)
    case (Suc k)
    then obtain q where "st q [W0, W1] (n + 2 * k) ((hold_step64 ^^ k) b)" "\<not> req_valid q" "req_addr q = 0" by blast
    from hold_step64_result [OF this] show ?case by simp
  qed (use assms in auto)
  from this [of 4] show ?thesis by (simp add: hold_test64_def)
qed

text \<open>The bench of the instruction port passes on the model of the RAM whatever its registers held before the reset:
  all 23 checks, two reads under way, the third refused until there is room, the responses in order.\<close>

theorem native_ram64_bench_passes:
  assumes "wired64 b"
  shows "\<exists>b'. native_ram64_main b = (0, b') \<and> checks64 b' = 23 \<and> fails64 b' = 0 \<and> messages64 b' = []"
proof -
  obtain q1 where 1: "st q1 [] 0 (reset64 b)" using reset64_result [OF assms] by blast
  obtain q2 where 2: "st q2 [W0] 1 (launch_a64 (reset64 b))" using launch_a64_result [OF 1] by auto
  obtain q3 where 3: "st q3 [W0, W1] 4 (launch_b64 (launch_a64 (reset64 b)))" using launch_b64_result [OF 2] by auto
  define b4 where "b4 = block_c64 (launch_b64 (launch_a64 (reset64 b)))"
  obtain q4 where 4: "st q4 [W0, W1] 7 b4" "\<not> req_valid q4" "req_addr q4 = 0"
    using block_c64_result [OF 3] by (auto simp: b4_def)
  obtain q5 where 5: "st q5 [W0, W1] 15 (hold_test64 b4)" "\<not> req_valid q5" "req_addr q5 = 0"
    using hold_test64_result [OF 4] by auto
  define b6 where "b6 = drain64 W0 ''RVALID dropped before R handshake (drain A)'' ''drain read A data'' (hold_test64 b4)"
  obtain q6 where 6: "st q6 [W1] 17 b6" using drain64_result [OF 5] by (auto simp: b6_def)
  obtain q7 where 7: "st q7 [W1, W2] 18 (launch_c64 b6)" "\<not> req_valid q7" "req_addr q7 = 0"
    using launch_c64_result [OF 6] by auto
  define b8 where "b8 = drain64 W1 ''RVALID dropped before R handshake (drain B)'' ''drain read B data'' (launch_c64 b6)"
  obtain q8 where 8: "st q8 [W2] 20 b8" "\<not> req_valid q8" "req_addr q8 = 0"
    using drain64_result [OF 7] by (auto simp: b8_def)
  define b9 where "b9 = drain64 W2 ''RVALID dropped before R handshake (drain C)'' ''drain read C data'' b8"
  obtain q9 where 9: "st q9 [] 22 b9" using drain64_result [OF 8] by (auto simp: b9_def)
  have "st q9 [] 23 (CHECK64 True ''RVALID stayed high after all responses drained'' b9)"
    using st_check [OF 9 TrueI] by simp
  moreover have "\<not> rsp_rvalid (rsp64 b9)" using st_out(1) [OF 9] by simp
  ultimately show ?thesis
    by (auto simp: native_ram64_main_def Let_def st_def b4_def [symmetric] b6_def [symmetric] b8_def [symmetric] b9_def [symmetric])
qed

definition fresh_bench64 :: bench64 where
  "fresh_bench64 = \<lparr>rstn64 = True,
     req64 = \<lparr>req_valid = True, req_we = False, req_addr = 4, req_wdata = 0, req_wstrb = 0, req_rready = True\<rparr>,
     rsp64 = \<lparr>rsp_wready = False, rsp_rvalid = False, rsp_rdata = 0\<rparr>,
     ram64 = \<lparr>rif_q = True, rd_d_q = 5, count_q = 2, skid_q = [7, 8], cells = (\<lambda>_. 0)(0 := W0, 1 := W1, 2 := W2)\<rparr>,
     checks64 = 0, fails64 = 0, messages64 = []\<rparr>"

lemma native_ram64_bench_passes_witness:
  "\<exists>b'. native_ram64_main fresh_bench64 = (0, b') \<and> checks64 b' = 23 \<and> fails64 b' = 0 \<and> messages64 b' = []"
  by (rule native_ram64_bench_passes) (simp add: wired64_def fresh_bench64_def)

end
