(* ===== verification/Axi_Ram_Tb.thy ===== *)
theory Axi_Ram_Tb
  imports Native_Ram
begin

text \<open>
  The AXI4-Lite RAM \<open>rtl/utils/axi4_lite_ram.sv\<close> at register level, 32 bits wide with 64 KiB as its wrapper
  \<open>sim/hw/ram_tb/ram_tb.sv\<close> builds it, and the bench \<open>ram_tb.cpp\<close> on it. State and conventions as in
  \<open>Native_Mem_Tb\<close>: \<open>mst\<close> is what the bench drives, \<open>slv\<close> what it sees since the last evaluation, \<open>regs\<close> the
  registers. The byte strobes are those of \<open>Native_Ram\<close>.
\<close>

section \<open>The RAM\<close>

record axi_ram =
  aw_seen_q :: bool
  w_seen_q :: bool
  aw_word_q :: nat
  wstrb_q :: u8
  wdata_q :: u32
  bvalid_q :: bool
  rvalid_q :: bool
  rdata_q :: u32
  mem_q :: "nat \<Rightarrow> u32"

record axi_master =
  awaddr :: u32
  awvalid :: bool
  wdata :: u32
  wstrb :: u8
  wvalid :: bool
  bready :: bool
  araddr :: u32
  arvalid :: bool
  rready :: bool

record axi_slave =
  awready :: bool
  wready :: bool
  bvalid :: bool
  arready :: bool
  rvalid :: bool
  rdata :: u32

definition axi_word :: "u32 \<Rightarrow> nat" where
  "axi_word a = unat a mod 2 ^ 16 div 4"

definition axi_out :: "axi_ram \<Rightarrow> axi_master \<Rightarrow> axi_slave" where
  "axi_out r m = \<lparr>awready = (\<not> aw_seen_q r \<and> \<not> bvalid_q r), wready = (\<not> w_seen_q r \<and> \<not> bvalid_q r),
     bvalid = bvalid_q r, arready = (\<not> rvalid_q r \<or> rvalid_q r \<and> rready m), rvalid = rvalid_q r, rdata = rdata_q r\<rparr>"

definition aw_hs :: "axi_ram \<Rightarrow> axi_master \<Rightarrow> bool" where
  "aw_hs r m \<longleftrightarrow> awvalid m \<and> awready (axi_out r m)"

definition w_hs :: "axi_ram \<Rightarrow> axi_master \<Rightarrow> bool" where
  "w_hs r m \<longleftrightarrow> wvalid m \<and> wready (axi_out r m)"

definition b_hs :: "axi_ram \<Rightarrow> axi_master \<Rightarrow> bool" where
  "b_hs r m \<longleftrightarrow> bvalid (axi_out r m) \<and> bready m"

definition ar_hs :: "axi_ram \<Rightarrow> axi_master \<Rightarrow> bool" where
  "ar_hs r m \<longleftrightarrow> arvalid m \<and> arready (axi_out r m)"

definition do_write :: "axi_ram \<Rightarrow> axi_master \<Rightarrow> bool" where
  "do_write r m \<longleftrightarrow> (aw_seen_q r \<or> aw_hs r m) \<and> (w_seen_q r \<or> w_hs r m) \<and> \<not> bvalid_q r"

text \<open>The write path: registers and storage.\<close>

definition write_regs :: "axi_ram \<Rightarrow> axi_master \<Rightarrow> axi_ram" where
  "write_regs r m = (let
     r1 = (if aw_hs r m then r\<lparr>aw_seen_q := True, aw_word_q := axi_word (awaddr m)\<rparr> else r);
     r2 = (if w_hs r m then r1\<lparr>w_seen_q := True, wstrb_q := wstrb m, wdata_q := wdata m\<rparr> else r1);
     r3 = (if do_write r m then r2\<lparr>aw_seen_q := False, w_seen_q := False, bvalid_q := True\<rparr> else r2)
   in if b_hs r m then r3\<lparr>bvalid_q := False\<rparr> else r3)"

definition next_mem :: "axi_ram \<Rightarrow> axi_master \<Rightarrow> nat \<Rightarrow> u32" where
  "next_mem r m = (if do_write r m then (let
       waddr_eff = (if aw_hs r m then axi_word (awaddr m) else aw_word_q r);
       wdata_eff = (if w_hs r m then wdata m else wdata_q r);
       wstrb_eff = (if w_hs r m then wstrb m else wstrb_q r)
     in (mem_q r)(waddr_eff := strobed wstrb_eff wdata_eff (mem_q r waddr_eff)))
   else mem_q r)"

text \<open>The read path takes the word before a write of the same edge.\<close>

definition axi_edge :: "bool \<Rightarrow> axi_ram \<Rightarrow> axi_master \<Rightarrow> axi_ram" where
  "axi_edge rstn r m =
     (if \<not> rstn then r\<lparr>aw_seen_q := False, w_seen_q := False, aw_word_q := 0, wstrb_q := 0, wdata_q := 0,
        bvalid_q := False, rvalid_q := False, rdata_q := 0, mem_q := next_mem r m\<rparr>
      else (write_regs r m)\<lparr>
        rvalid_q := (if ar_hs r m then True else if rvalid_q r \<and> rready m then False else rvalid_q r),
        rdata_q := (if ar_hs r m then mem_q r (axi_word (araddr m)) else rdata_q r),
        mem_q := next_mem r m\<rparr>)"

lemmas axi_wires = axi_out_def aw_hs_def w_hs_def b_hs_def ar_hs_def do_write_def write_regs_def next_mem_def

section \<open>The bench\<close>

record abench =
  arstn :: bool
  mst :: axi_master
  slv :: axi_slave
  regs :: axi_ram
  achecks :: nat
  afails :: nat
  amessages :: "string list"

definition aeval :: "abench \<Rightarrow> abench" where
  "aeval b = b\<lparr>slv := axi_out (regs b) (mst b)\<rparr>"

definition aposedge :: "abench \<Rightarrow> abench" where
  "aposedge b = b\<lparr>regs := axi_edge (arstn b) (regs b) (mst b)\<rparr>"

definition atick :: "abench \<Rightarrow> abench" where
  "atick b = aeval (aposedge (aeval b))"

definition drive :: "(axi_master \<Rightarrow> axi_master) \<Rightarrow> abench \<Rightarrow> abench" where
  "drive f b = b\<lparr>mst := f (mst b)\<rparr>"

definition ACHECK :: "bool \<Rightarrow> string \<Rightarrow> abench \<Rightarrow> abench" where
  "ACHECK cond msg b = (let b = b\<lparr>achecks := achecks b + 1\<rparr> in
     if cond then b else b\<lparr>afails := afails b + 1, amessages := amessages b @ [msg]\<rparr>)"

definition atimeout :: "string \<Rightarrow> abench \<Rightarrow> abench" where
  "atimeout msg b = b\<lparr>afails := afails b + 1, amessages := amessages b @ [msg]\<rparr>"

definition aidle :: "abench \<Rightarrow> abench" where
  "aidle b = aeval (drive (\<lambda>m. m\<lparr>awvalid := False, wvalid := False, arvalid := False, bready := True, rready := True\<rparr>) b)"

primrec push_aw_w_loop :: "nat \<Rightarrow> bool \<Rightarrow> bool \<Rightarrow> abench \<Rightarrow> abench" where
  "push_aw_w_loop 0 aw_done w_done b = atimeout ''TIMEOUT in push_aw_w'' b"
| "push_aw_w_loop (Suc n) aw_done w_done b = (let
     b = aeval b;
     aw_done = (aw_done \<or> awvalid (mst b) \<and> awready (slv b));
     w_done = (w_done \<or> wvalid (mst b) \<and> wready (slv b));
     b = atick b;
     b = (if aw_done then drive (\<lambda>m. m\<lparr>awvalid := False\<rparr>) b else b);
     b = (if w_done then drive (\<lambda>m. m\<lparr>wvalid := False\<rparr>) b else b)
   in if aw_done \<and> w_done \<and> n \<noteq> 0 then b else push_aw_w_loop n aw_done w_done b)"

definition push_aw_w :: "u32 \<Rightarrow> u32 \<Rightarrow> u8 \<Rightarrow> abench \<Rightarrow> abench" where
  "push_aw_w addr data strb b = push_aw_w_loop 21 False False (drive (\<lambda>m. m\<lparr>awaddr := addr, awvalid := True,
     wdata := data, wstrb := strb, wvalid := True, bready := False\<rparr>) b)"

primrec push_aw_loop :: "nat \<Rightarrow> abench \<Rightarrow> abench" where
  "push_aw_loop 0 b = atimeout ''TIMEOUT push_aw'' b"
| "push_aw_loop (Suc n) b = (let b = aeval b in
     if awvalid (mst b) \<and> awready (slv b) then drive (\<lambda>m. m\<lparr>awvalid := False\<rparr>) (atick b) else push_aw_loop n (atick b))"

definition push_aw :: "u32 \<Rightarrow> abench \<Rightarrow> abench" where
  "push_aw addr b = push_aw_loop 21 (drive (\<lambda>m. m\<lparr>awaddr := addr, awvalid := True, bready := False\<rparr>) b)"

primrec push_w_loop :: "nat \<Rightarrow> abench \<Rightarrow> abench" where
  "push_w_loop 0 b = atimeout ''TIMEOUT push_w'' b"
| "push_w_loop (Suc n) b = (let b = aeval b in
     if wvalid (mst b) \<and> wready (slv b) then drive (\<lambda>m. m\<lparr>wvalid := False\<rparr>) (atick b) else push_w_loop n (atick b))"

definition push_w :: "u32 \<Rightarrow> u8 \<Rightarrow> abench \<Rightarrow> abench" where
  "push_w data strb b = push_w_loop 21 (drive (\<lambda>m. m\<lparr>wdata := data, wstrb := strb, wvalid := True, bready := False\<rparr>) b)"

text \<open>Wait for a flag of the slave; the result says that it came.\<close>

primrec wait_for :: "nat \<Rightarrow> (axi_slave \<Rightarrow> bool) \<Rightarrow> abench \<Rightarrow> bool \<times> abench" where
  "wait_for 0 flag b = (False, b)"
| "wait_for (Suc n) flag b = (if flag (slv b) then (True, b) else wait_for n flag (atick b))"

primrec b_hold_loop :: "nat \<Rightarrow> abench \<Rightarrow> abench" where
  "b_hold_loop 0 b = b"
| "b_hold_loop (Suc n) b = (let
     b = aeval (drive (\<lambda>m. m\<lparr>bready := False\<rparr>) b);
     b = ACHECK (bvalid (slv b)) ''BVALID dropped while BREADY=0 (must be held)'' b
   in b_hold_loop n (atick b))"

definition accept_b_held :: "nat \<Rightarrow> abench \<Rightarrow> abench" where
  "accept_b_held hold b = (case wait_for 21 bvalid b of
     (False, b) \<Rightarrow> atimeout ''TIMEOUT waiting for bvalid'' b
   | (True, b) \<Rightarrow> (let
       b = b_hold_loop hold b;
       b = aeval (drive (\<lambda>m. m\<lparr>bready := True\<rparr>) b);
       b = ACHECK (bvalid (slv b)) ''BVALID dropped before B handshake'' b;
       b = atick b;
       b = aeval (drive (\<lambda>m. m\<lparr>bready := False\<rparr>) b)
     in ACHECK (\<not> bvalid (slv b)) ''BVALID stayed high after B handshake'' b))"

definition write_together :: "u32 \<Rightarrow> u32 \<Rightarrow> u8 \<Rightarrow> nat \<Rightarrow> abench \<Rightarrow> abench" where
  "write_together addr data strb b_hold b = aidle (accept_b_held b_hold (push_aw_w addr data strb (aidle b)))"

definition write_aw_first :: "u32 \<Rightarrow> u32 \<Rightarrow> u8 \<Rightarrow> nat \<Rightarrow> abench \<Rightarrow> abench" where
  "write_aw_first addr data strb b_hold b = aidle (accept_b_held b_hold (push_w data strb (push_aw addr (aidle b))))"

definition write_w_first :: "u32 \<Rightarrow> u32 \<Rightarrow> u8 \<Rightarrow> nat \<Rightarrow> abench \<Rightarrow> abench" where
  "write_w_first addr data strb b_hold b = aidle (accept_b_held b_hold (push_aw addr (push_w data strb (aidle b))))"

primrec push_ar_loop :: "nat \<Rightarrow> abench \<Rightarrow> bool \<times> abench" where
  "push_ar_loop 0 b = (False, b)"
| "push_ar_loop (Suc n) b = (let b = aeval b in
     if arvalid (mst b) \<and> arready (slv b) then (True, drive (\<lambda>m. m\<lparr>arvalid := False\<rparr>) (atick b))
     else push_ar_loop n (atick b))"

primrec r_hold_loop :: "nat \<Rightarrow> abench \<Rightarrow> abench" where
  "r_hold_loop 0 b = b"
| "r_hold_loop (Suc n) b = (let
     b = aeval (drive (\<lambda>m. m\<lparr>rready := False\<rparr>) b);
     b = ACHECK (rvalid (slv b)) ''RVALID dropped while RREADY=0 (must be held)'' b
   in r_hold_loop n (atick b))"

definition read_from :: "u32 \<Rightarrow> nat \<Rightarrow> abench \<Rightarrow> u32 \<times> abench" where
  "read_from addr r_hold b = (
     case push_ar_loop 21 (drive (\<lambda>m. m\<lparr>araddr := addr, arvalid := True, rready := False\<rparr>) (aidle b)) of
       (False, b) \<Rightarrow> (0xDEAD, atimeout ''TIMEOUT read AR'' b)
     | (True, b) \<Rightarrow> (case wait_for 21 rvalid b of
         (False, b) \<Rightarrow> (0xDEAD, atimeout ''TIMEOUT waiting rvalid'' b)
       | (True, b) \<Rightarrow> (let
           b = r_hold_loop r_hold b;
           b = aeval (drive (\<lambda>m. m\<lparr>rready := True\<rparr>) b);
           b = ACHECK (rvalid (slv b)) ''RVALID dropped before R handshake'' b;
           rd = rdata (slv b);
           b = atick b;
           b = aeval (drive (\<lambda>m. m\<lparr>rready := False\<rparr>) b);
           b = ACHECK (\<not> rvalid (slv b)) ''RVALID stayed high after R handshake'' b
         in (rd, aidle b))))"


section \<open>The tests\<close>

definition areset :: "abench \<Rightarrow> abench" where
  "areset b = (let
     b = aeval (aidle (b\<lparr>arstn := False\<rparr>));
     b = (atick ^^ 4) b;
     b = aeval (b\<lparr>arstn := True\<rparr>)
   in atick b)"

definition expect_word :: "u32 \<Rightarrow> nat \<Rightarrow> u32 \<Rightarrow> string \<Rightarrow> abench \<Rightarrow> abench" where
  "expect_word addr r_hold want msg b = (let (r, b) = read_from addr r_hold b in ACHECK (r = want) msg b)"

text \<open>Tests 1 to 3: the three orders of a write, with the response held back.\<close>

definition order_tests :: "abench \<Rightarrow> abench" where
  "order_tests b = (let
     b = write_together 0x0000 0xDEADBEEF 0xF 3 b;
     b = expect_word 0x0000 2 0xDEADBEEF ''readback after write_together'' b;
     b = write_aw_first 0x0010 0x12345678 0xF 4 b;
     b = expect_word 0x0010 0 0x12345678 ''readback after write_aw_first'' b;
     b = write_w_first 0x0020 0xAABBCCDD 0xF 4 b
   in expect_word 0x0020 0 0xAABBCCDD ''readback after write_w_first'' b)"

text \<open>Tests 4 to 6: byte strobes and neighbours.\<close>

definition strobe_tests :: "abench \<Rightarrow> abench" where
  "strobe_tests b = (let
     b = write_together 0x0030 0xFFFFFFFF 0xF 2 b;
     b = write_together 0x0030 0x00000000 0x3 2 b;
     b = expect_word 0x0030 0 0xFFFF0000 ''byte strobe partial write (low 2 bytes)'' b;
     b = write_together 0x0040 0x00000000 0xF 2 b;
     b = write_together 0x0040 0xAB000000 0x8 2 b;
     b = expect_word 0x0040 0 0xAB000000 ''byte strobe partial write (high byte)'' b;
     b = write_together 0x0050 0x11111111 0xF 0 b;
     b = write_together 0x0054 0x22222222 0xF 0 b;
     b = expect_word 0x0050 0 0x11111111 ''back-to-back addr 0x50'' b
   in expect_word 0x0054 0 0x22222222 ''back-to-back addr 0x54'' b)"

text \<open>Test 7: nothing is accepted while a write response is pending.\<close>

definition pending_test :: "abench \<Rightarrow> abench" where
  "pending_test b = (let
     b = push_aw_w 0x0060 0x33333333 0xF (aidle b);
     (_, b) = wait_for 21 bvalid b;
     b = aeval (drive (\<lambda>m. m\<lparr>awvalid := True, awaddr := 0x0070, wvalid := True, wdata := 0x44444444, wstrb := 0xF,
       bready := False\<rparr>) b);
     b = ACHECK (\<not> awready (slv b)) ''AWREADY high while B pending (single outstanding)'' b;
     b = ACHECK (\<not> wready (slv b)) ''WREADY high while B pending (single outstanding)'' b;
     b = atick b;
     b = atick (aeval (drive (\<lambda>m. m\<lparr>awvalid := False, wvalid := False, bready := True\<rparr>) b));
     b = aeval (drive (\<lambda>m. m\<lparr>bready := False\<rparr>) b);
     b = ACHECK (\<not> bvalid (slv b)) ''B cleared after accepting pending response'' b
   in aidle b)"

definition ram_tb_main :: "abench \<Rightarrow> nat \<times> abench" where
  "ram_tb_main b = (let b = pending_test (strobe_tests (order_tests (areset b)))
     in (if afails b \<noteq> 0 then 1 else 0, b))"

section \<open>One access\<close>

text \<open>The states of the write side, and of the read side.\<close>

definition w_rest :: "axi_ram \<Rightarrow> bool" where
  "w_rest r \<longleftrightarrow> \<not> aw_seen_q r \<and> \<not> w_seen_q r \<and> \<not> bvalid_q r"

definition aw_held :: "nat \<Rightarrow> axi_ram \<Rightarrow> bool" where
  "aw_held w r \<longleftrightarrow> aw_seen_q r \<and> aw_word_q r = w \<and> \<not> w_seen_q r \<and> \<not> bvalid_q r"

definition w_held :: "u32 \<Rightarrow> u8 \<Rightarrow> axi_ram \<Rightarrow> bool" where
  "w_held d s r \<longleftrightarrow> \<not> aw_seen_q r \<and> w_seen_q r \<and> wdata_q r = d \<and> wstrb_q r = s \<and> \<not> bvalid_q r"

definition w_resp :: "axi_ram \<Rightarrow> bool" where
  "w_resp r \<longleftrightarrow> \<not> aw_seen_q r \<and> \<not> w_seen_q r \<and> bvalid_q r"

definition no_request :: "axi_master \<Rightarrow> bool" where
  "no_request m \<longleftrightarrow> \<not> awvalid m \<and> \<not> wvalid m \<and> \<not> arvalid m"

text \<open>The bench with the master at \<open>m\<close> and the RAM at \<open>r\<close>; flags of registers are seen as they are.\<close>

definition ax :: "axi_master \<Rightarrow> axi_ram \<Rightarrow> nat \<Rightarrow> abench \<Rightarrow> abench \<Rightarrow> bool" where
  "ax m r n b0 b \<longleftrightarrow> arstn b \<and> mst b = m \<and> regs b = r \<and> bvalid (slv b) = bvalid_q r \<and> rvalid (slv b) = rvalid_q r
     \<and> achecks b = achecks b0 + n \<and> afails b = afails b0 \<and> amessages b = amessages b0"

lemma ax_drive: "ax m r n b0 b \<Longrightarrow> ax (f m) r n b0 (drive f b)"
  by (simp add: ax_def drive_def)

lemma ax_eval: "ax m r n b0 b \<Longrightarrow> ax m r n b0 (aeval b)"
  by (simp add: ax_def aeval_def axi_out_def)

lemma ax_out: "ax m r n b0 b \<Longrightarrow> slv (aeval b) = axi_out r m"
  by (simp add: ax_def aeval_def)

lemma ax_tick: "ax m r n b0 b \<Longrightarrow> ax m (axi_edge True r m) n b0 (atick b)"
  by (simp add: ax_def atick_def aeval_def aposedge_def axi_out_def)

lemma ax_check: "ax m r n b0 b \<Longrightarrow> c \<Longrightarrow> ax m r (Suc n) b0 (ACHECK c msg b)"
  by (simp add: ax_def ACHECK_def)

lemma slv_ACHECK [simp]: "slv (ACHECK c msg b) = slv b"
  by (simp add: ACHECK_def Let_def)

definition stored :: "nat \<Rightarrow> u8 \<Rightarrow> u32 \<Rightarrow> (nat \<Rightarrow> u32) \<Rightarrow> nat \<Rightarrow> u32" where
  "stored w s d M = M(w := strobed s d (M w))"

lemma edge_write:
  "w_rest r \<Longrightarrow> awvalid m \<Longrightarrow> wvalid m \<Longrightarrow> w_resp (axi_edge True r m)
     \<and> mem_q (axi_edge True r m) = stored (axi_word (awaddr m)) (wstrb m) (wdata m) (mem_q r)"
  "w_rest r \<Longrightarrow> awvalid m \<Longrightarrow> \<not> wvalid m \<Longrightarrow> aw_held (axi_word (awaddr m)) (axi_edge True r m) \<and> mem_q (axi_edge True r m) = mem_q r"
  "w_rest r \<Longrightarrow> \<not> awvalid m \<Longrightarrow> wvalid m \<Longrightarrow> w_held (wdata m) (wstrb m) (axi_edge True r m) \<and> mem_q (axi_edge True r m) = mem_q r"
  "w_rest r \<Longrightarrow> \<not> awvalid m \<Longrightarrow> \<not> wvalid m \<Longrightarrow> w_rest (axi_edge True r m) \<and> mem_q (axi_edge True r m) = mem_q r"
  "aw_held w r \<Longrightarrow> \<not> awvalid m \<Longrightarrow> wvalid m \<Longrightarrow> w_resp (axi_edge True r m)
     \<and> mem_q (axi_edge True r m) = stored w (wstrb m) (wdata m) (mem_q r)"
  "w_held d s r \<Longrightarrow> awvalid m \<Longrightarrow> \<not> wvalid m \<Longrightarrow> w_resp (axi_edge True r m)
     \<and> mem_q (axi_edge True r m) = stored (axi_word (awaddr m)) s d (mem_q r)"
  "w_resp r \<Longrightarrow> \<not> bready m \<Longrightarrow> w_resp (axi_edge True r m) \<and> mem_q (axi_edge True r m) = mem_q r"
  "w_resp r \<Longrightarrow> bready m \<Longrightarrow> w_rest (axi_edge True r m) \<and> mem_q (axi_edge True r m) = mem_q r"
  by (simp_all add: w_rest_def aw_held_def w_held_def w_resp_def axi_edge_def axi_wires stored_def Let_def)

lemma edge_read:
  "\<not> arvalid m \<Longrightarrow> \<not> rvalid_q r \<Longrightarrow> \<not> rvalid_q (axi_edge True r m)"
  "arvalid m \<Longrightarrow> \<not> rvalid_q r \<Longrightarrow> rvalid_q (axi_edge True r m) \<and> rdata_q (axi_edge True r m) = mem_q r (axi_word (araddr m))"
  "\<not> arvalid m \<Longrightarrow> rvalid_q r \<Longrightarrow> \<not> rready m \<Longrightarrow> rvalid_q (axi_edge True r m) \<and> rdata_q (axi_edge True r m) = rdata_q r"
  "\<not> arvalid m \<Longrightarrow> rvalid_q r \<Longrightarrow> rready m \<Longrightarrow> \<not> rvalid_q (axi_edge True r m)"
  by (simp_all add: axi_edge_def axi_wires Let_def)

text \<open>Where an access can stand: nothing under way, an address or a word held, or a write response pending; \<open>n\<close>
  checks have passed since \<open>b0\<close>, and memory is \<open>M\<close>.\<close>

definition between :: "(axi_ram \<Rightarrow> bool) \<Rightarrow> nat \<Rightarrow> (nat \<Rightarrow> u32) \<Rightarrow> abench \<Rightarrow> abench \<Rightarrow> bool" where
  "between side n M b0 b \<longleftrightarrow> (\<exists>m r. ax m r n b0 b \<and> no_request m \<and> side r \<and> \<not> rvalid_q r \<and> mem_q r = M)"

abbreviation rest :: "nat \<Rightarrow> (nat \<Rightarrow> u32) \<Rightarrow> abench \<Rightarrow> abench \<Rightarrow> bool" where
  "rest \<equiv> between w_rest"

abbreviation responding :: "nat \<Rightarrow> (nat \<Rightarrow> u32) \<Rightarrow> abench \<Rightarrow> abench \<Rightarrow> bool" where
  "responding n M b0 b \<equiv> between w_resp n M b0 b \<and> \<not> bready (mst b)"

lemma aidle_rest: "rest n M b0 b \<Longrightarrow> rest n M b0 (aidle b)"
  unfolding between_def aidle_def using ax_eval [OF ax_drive] by (fastforce simp: no_request_def)

lemma push_aw_w_responds:
  assumes "rest n M b0 b"
  shows "responding n (stored (axi_word a) s d M) b0 (push_aw_w a d s b)"
proof -
  obtain m r where b: "ax m r n b0 b" "no_request m" "w_rest r" "\<not> rvalid_q r" "mem_q r = M" using assms by (auto simp: between_def)
  let ?f = "\<lambda>m. m\<lparr>awaddr := a, awvalid := True, wdata := d, wstrb := s, wvalid := True, bready := False\<rparr>"
  let ?m = "?f m" and ?b1 = "aeval (drive ?f b)"
  have b1: "ax ?m r n b0 ?b1" and o1: "slv ?b1 = axi_out r ?m"
    using ax_eval [OF ax_drive [OF b(1)], of ?f] ax_out [OF ax_drive [OF b(1)], of ?f] by simp_all
  let ?r = "axi_edge True r ?m"
  have r: "w_resp ?r" "mem_q ?r = stored (axi_word a) s d M" "\<not> rvalid_q ?r"
    using edge_write(1) [OF b(3), of ?m] edge_read(1) [of ?m r] b(2,4,5) by (simp_all add: no_request_def)
  have "push_aw_w a d s b = drive (\<lambda>m. m\<lparr>wvalid := False\<rparr>) (drive (\<lambda>m. m\<lparr>awvalid := False\<rparr>) (atick ?b1))"
    using b1 o1 b(3) by (simp add: push_aw_w_def numeral_eq_Suc Let_def ax_def axi_out_def w_rest_def)
  with ax_drive [OF ax_drive [OF ax_tick [OF b1], of "\<lambda>m. m\<lparr>awvalid := False\<rparr>"], of "\<lambda>m. m\<lparr>wvalid := False\<rparr>"] r b(2)
  show ?thesis by (auto simp: between_def no_request_def ax_def)
qed

text \<open>One channel at a time: the handshake comes in the first round.\<close>

lemma push_aw_first:
  assumes "between side n M b0 b" and "\<And>r. side r \<Longrightarrow> \<not> aw_seen_q r \<and> \<not> bvalid_q r"
  shows "\<exists>m r. ax m r n b0 b \<and> side r \<and> \<not> rvalid_q r \<and> mem_q r = M \<and> no_request m
    \<and> (let m1 = m\<lparr>awaddr := a, awvalid := True, bready := False\<rparr> in
       ax (m1\<lparr>awvalid := False\<rparr>) (axi_edge True r m1) n b0 (push_aw a b))"
proof -
  obtain m r where b: "ax m r n b0 b" "no_request m" "side r" "\<not> rvalid_q r" "mem_q r = M" using assms by (auto simp: between_def)
  let ?f = "\<lambda>m. m\<lparr>awaddr := a, awvalid := True, bready := False\<rparr>"
  let ?b1 = "aeval (drive ?f b)"
  have b1: "ax (?f m) r n b0 ?b1" and o1: "slv ?b1 = axi_out r (?f m)"
    using ax_eval [OF ax_drive [OF b(1)], of ?f] ax_out [OF ax_drive [OF b(1)], of ?f] by simp_all
  have "push_aw a b = drive (\<lambda>m. m\<lparr>awvalid := False\<rparr>) (atick ?b1)"
    using b1 o1 assms(2) [OF b(3)] by (simp add: push_aw_def numeral_eq_Suc Let_def ax_def axi_out_def)
  with ax_drive [OF ax_tick [OF b1], of "\<lambda>m. m\<lparr>awvalid := False\<rparr>"] b show ?thesis
    by (auto simp: Let_def intro!: exI [of _ m] exI [of _ r])
qed

lemma push_w_first:
  assumes "between side n M b0 b" and "\<And>r. side r \<Longrightarrow> \<not> w_seen_q r \<and> \<not> bvalid_q r"
  shows "\<exists>m r. ax m r n b0 b \<and> side r \<and> \<not> rvalid_q r \<and> mem_q r = M \<and> no_request m
    \<and> (let m1 = m\<lparr>wdata := d, wstrb := s, wvalid := True, bready := False\<rparr> in
       ax (m1\<lparr>wvalid := False\<rparr>) (axi_edge True r m1) n b0 (push_w d s b))"
proof -
  obtain m r where b: "ax m r n b0 b" "no_request m" "side r" "\<not> rvalid_q r" "mem_q r = M" using assms by (auto simp: between_def)
  let ?f = "\<lambda>m. m\<lparr>wdata := d, wstrb := s, wvalid := True, bready := False\<rparr>"
  let ?b1 = "aeval (drive ?f b)"
  have b1: "ax (?f m) r n b0 ?b1" and o1: "slv ?b1 = axi_out r (?f m)"
    using ax_eval [OF ax_drive [OF b(1)], of ?f] ax_out [OF ax_drive [OF b(1)], of ?f] by simp_all
  have "push_w d s b = drive (\<lambda>m. m\<lparr>wvalid := False\<rparr>) (atick ?b1)"
    using b1 o1 assms(2) [OF b(3)] by (simp add: push_w_def numeral_eq_Suc Let_def ax_def axi_out_def)
  with ax_drive [OF ax_tick [OF b1], of "\<lambda>m. m\<lparr>wvalid := False\<rparr>"] b show ?thesis
    by (auto simp: Let_def intro!: exI [of _ m] exI [of _ r])
qed

lemma betweenI: "ax m r n b0 b \<Longrightarrow> no_request m \<Longrightarrow> side r \<Longrightarrow> \<not> rvalid_q r \<Longrightarrow> mem_q r = M \<Longrightarrow> between side n M b0 b"
  by (auto simp: between_def)

lemma push_aw_then_w:
  assumes "rest n M b0 b"
  shows "responding n (stored (axi_word a) s d M) b0 (push_w d s (push_aw a b))"
proof -
  from push_aw_first [OF assms, where a = a] obtain m r where
    1: "w_rest r" "\<not> rvalid_q r" "mem_q r = M" "no_request m"
    "ax (m\<lparr>awaddr := a, bready := False, awvalid := False\<rparr>) (axi_edge True r (m\<lparr>awaddr := a, awvalid := True, bready := False\<rparr>)) n b0 (push_aw a b)"
    by (auto simp: w_rest_def Let_def)
  have "between (aw_held (axi_word a)) n M b0 (push_aw a b)"
    by (rule betweenI [OF 1(5)])
      (use 1 edge_write(2) [OF 1(1), of "m\<lparr>awaddr := a, awvalid := True, bready := False\<rparr>"]
        edge_read(1) [of "m\<lparr>awaddr := a, awvalid := True, bready := False\<rparr>" r] in \<open>simp_all add: no_request_def\<close>)
  from push_w_first [OF this, where d = d and s = s] obtain m r where
    2: "aw_held (axi_word a) r" "\<not> rvalid_q r" "mem_q r = M" "no_request m"
    "ax (m\<lparr>wdata := d, wstrb := s, bready := False, wvalid := False\<rparr>) (axi_edge True r (m\<lparr>wdata := d, wstrb := s, wvalid := True, bready := False\<rparr>)) n b0
      (push_w d s (push_aw a b))" by (auto simp: aw_held_def Let_def)
  have "between w_resp n (stored (axi_word a) s d M) b0 (push_w d s (push_aw a b))"
    by (rule betweenI [OF 2(5)])
      (use 2 edge_write(5) [OF 2(1), of "m\<lparr>wdata := d, wstrb := s, wvalid := True, bready := False\<rparr>"]
        edge_read(1) [of "m\<lparr>wdata := d, wstrb := s, wvalid := True, bready := False\<rparr>" r] in \<open>simp_all add: no_request_def\<close>)
  with 2(5) show ?thesis by (simp add: ax_def)
qed

lemma push_w_then_aw:
  assumes "rest n M b0 b"
  shows "responding n (stored (axi_word a) s d M) b0 (push_aw a (push_w d s b))"
proof -
  from push_w_first [OF assms, where d = d and s = s] obtain m r where
    1: "w_rest r" "\<not> rvalid_q r" "mem_q r = M" "no_request m"
    "ax (m\<lparr>wdata := d, wstrb := s, bready := False, wvalid := False\<rparr>) (axi_edge True r (m\<lparr>wdata := d, wstrb := s, wvalid := True, bready := False\<rparr>)) n b0 (push_w d s b)"
    by (auto simp: w_rest_def Let_def)
  have "between (w_held d s) n M b0 (push_w d s b)"
    by (rule betweenI [OF 1(5)])
      (use 1 edge_write(3) [OF 1(1), of "m\<lparr>wdata := d, wstrb := s, wvalid := True, bready := False\<rparr>"]
        edge_read(1) [of "m\<lparr>wdata := d, wstrb := s, wvalid := True, bready := False\<rparr>" r] in \<open>simp_all add: no_request_def\<close>)
  from push_aw_first [OF this, where a = a] obtain m r where
    2: "w_held d s r" "\<not> rvalid_q r" "mem_q r = M" "no_request m"
    "ax (m\<lparr>awaddr := a, bready := False, awvalid := False\<rparr>) (axi_edge True r (m\<lparr>awaddr := a, awvalid := True, bready := False\<rparr>)) n b0
      (push_aw a (push_w d s b))" by (auto simp: w_held_def Let_def)
  have "between w_resp n (stored (axi_word a) s d M) b0 (push_aw a (push_w d s b))"
    by (rule betweenI [OF 2(5)])
      (use 2 edge_write(6) [OF 2(1), of "m\<lparr>awaddr := a, awvalid := True, bready := False\<rparr>"]
        edge_read(1) [of "m\<lparr>awaddr := a, awvalid := True, bready := False\<rparr>" r] in \<open>simp_all add: no_request_def\<close>)
  with 2(5) show ?thesis by (simp add: ax_def)
qed

lemma b_hold_loop_result:
  "responding n M b0 b \<Longrightarrow> responding (n + h) M b0 (b_hold_loop h b)"
proof (induction h arbitrary: n b)
  case (Suc h)
  obtain m r where b: "ax m r n b0 b" "no_request m" "w_resp r" "\<not> rvalid_q r" "mem_q r = M"
    using Suc.prems by (auto simp: between_def)
  let ?f = "\<lambda>m. m\<lparr>bready := False\<rparr>"
  let ?b = "aeval (drive ?f b)"
  have e: "ax (?f m) r n b0 ?b" "slv ?b = axi_out r (?f m)"
    using ax_eval [OF ax_drive [OF b(1)], of ?f] ax_out [OF ax_drive [OF b(1)], of ?f] by simp_all
  have v: "bvalid (slv ?b)" using e(2) b(3) by (simp add: axi_out_def w_resp_def)
  have t: "ax (?f m) (axi_edge True r (?f m)) (Suc n) b0
    (atick (ACHECK (bvalid (slv ?b)) ''BVALID dropped while BREADY=0 (must be held)'' ?b))"
    by (rule ax_tick [OF ax_check [OF e(1) v]])
  have "between w_resp (Suc n) M b0 (atick (ACHECK (bvalid (slv ?b)) ''BVALID dropped while BREADY=0 (must be held)'' ?b))"
    by (rule betweenI [OF t])
      (use b edge_write(7) [OF b(3), of "?f m"] edge_read(1) [of "?f m" r] in \<open>simp_all add: no_request_def\<close>)
  with t have "responding (Suc n) M b0 (atick (ACHECK (bvalid (slv ?b)) ''BVALID dropped while BREADY=0 (must be held)'' ?b))"
    by (simp add: ax_def)
  from Suc.IH [OF this] show ?case by (simp add: Let_def)
qed simp

lemma wait_for_now: "flag (slv b) \<Longrightarrow> 0 < n \<Longrightarrow> wait_for n flag b = (True, b)"
  by (cases n) simp_all

lemma accept_result:
  assumes "responding n M b0 b"
  shows "rest (n + h + 2) M b0 (accept_b_held h b)"
proof -
  have "bvalid (slv b)" using assms by (auto simp: between_def ax_def w_resp_def)
  then have w: "wait_for 21 bvalid b = (True, b)" by (rule wait_for_now) simp
  obtain m r where b: "ax m r (n + h) b0 (b_hold_loop h b)" "no_request m" "w_resp r" "\<not> rvalid_q r" "mem_q r = M"
    using b_hold_loop_result [OF assms, of h] by (auto simp: between_def)
  let ?f = "\<lambda>m. m\<lparr>bready := True\<rparr>" and ?g = "\<lambda>m. m\<lparr>bready := False\<rparr>"
  define b1 where "b1 = aeval (drive ?f (b_hold_loop h b))"
  have e: "ax (?f m) r (n + h) b0 b1" "slv b1 = axi_out r (?f m)"
    unfolding b1_def by (rule ax_eval [OF ax_drive [OF b(1)]], rule ax_out [OF ax_drive [OF b(1)]])
  define b2 where "b2 = ACHECK True ''BVALID dropped before B handshake'' b1"
  have t: "ax (?f m) (axi_edge True r (?f m)) (Suc (n + h)) b0 (atick b2)"
    unfolding b2_def by (rule ax_tick [OF ax_check [OF e(1) TrueI]])
  let ?r = "axi_edge True r (?f m)" and ?b3 = "aeval (drive ?g (atick b2))"
  have r: "w_rest ?r" "mem_q ?r = M" "\<not> rvalid_q ?r"
    using edge_write(8) [OF b(3), of "?f m"] edge_read(1) [of "?f m" r] b(2,4,5) by (simp_all add: no_request_def)
  have e3: "ax (?g (?f m)) ?r (Suc (n + h)) b0 ?b3" "slv ?b3 = axi_out ?r (?g (?f m))"
    by (rule ax_eval [OF ax_drive [OF t]], rule ax_out [OF ax_drive [OF t]])
  have "accept_b_held h b = ACHECK True ''BVALID stayed high after B handshake'' ?b3"
    using e(2) e3(2) b(3) r(1)
    by (simp add: accept_b_held_def w Let_def b1_def [symmetric] b2_def [symmetric] axi_out_def w_resp_def w_rest_def)
  moreover have "rest (Suc (Suc (n + h))) M b0 (ACHECK True ''BVALID stayed high after B handshake'' ?b3)"
    by (rule betweenI [OF ax_check [OF e3(1) TrueI]]) (use r b(2) in \<open>simp_all add: no_request_def\<close>)
  ultimately show ?thesis by simp
qed

lemma write_together_result: "rest n M b0 b \<Longrightarrow> rest (n + h + 2) (stored (axi_word a) s d M) b0 (write_together a d s h b)"
  unfolding write_together_def by (intro aidle_rest accept_result push_aw_w_responds)

lemma write_aw_first_result: "rest n M b0 b \<Longrightarrow> rest (n + h + 2) (stored (axi_word a) s d M) b0 (write_aw_first a d s h b)"
  unfolding write_aw_first_def by (intro aidle_rest accept_result push_aw_then_w)

lemma write_w_first_result: "rest n M b0 b \<Longrightarrow> rest (n + h + 2) (stored (axi_word a) s d M) b0 (write_w_first a d s h b)"
  unfolding write_w_first_def by (intro aidle_rest accept_result push_w_then_aw)

text \<open>A read response under way.\<close>

definition answered :: "u32 \<Rightarrow> nat \<Rightarrow> (nat \<Rightarrow> u32) \<Rightarrow> abench \<Rightarrow> abench \<Rightarrow> bool" where
  "answered v n M b0 b \<longleftrightarrow> (\<exists>m r. ax m r n b0 b \<and> no_request m \<and> w_rest r \<and> rvalid_q r \<and> rdata_q r = v \<and> mem_q r = M)"

lemma answeredI:
  "ax m r n b0 b \<Longrightarrow> no_request m \<Longrightarrow> w_rest r \<Longrightarrow> rvalid_q r \<Longrightarrow> rdata_q r = v \<Longrightarrow> mem_q r = M \<Longrightarrow> answered v n M b0 b"
  by (auto simp: answered_def)

lemma push_ar_result:
  assumes "rest n M b0 b"
  shows "\<exists>b1. push_ar_loop 21 (drive (\<lambda>m. m\<lparr>araddr := a, arvalid := True, rready := False\<rparr>) b) = (True, b1)
    \<and> answered (M (axi_word a)) n M b0 b1"
proof -
  obtain m r where b: "ax m r n b0 b" "no_request m" "w_rest r" "\<not> rvalid_q r" "mem_q r = M" using assms by (auto simp: between_def)
  let ?f = "\<lambda>m. m\<lparr>araddr := a, arvalid := True, rready := False\<rparr>"
  let ?b1 = "aeval (drive ?f b)"
  have b1: "ax (?f m) r n b0 ?b1" and o1: "slv ?b1 = axi_out r (?f m)"
    by (rule ax_eval [OF ax_drive [OF b(1)]], rule ax_out [OF ax_drive [OF b(1)]])
  let ?r = "axi_edge True r (?f m)"
  have r: "w_rest ?r" "mem_q ?r = M" "rvalid_q ?r" "rdata_q ?r = M (axi_word a)"
    using edge_write(4) [OF b(3), of "?f m"] edge_read(2) [of "?f m" r] b(2,4,5) by (simp_all add: no_request_def)
  have "push_ar_loop 21 (drive ?f b) = (True, drive (\<lambda>m. m\<lparr>arvalid := False\<rparr>) (atick ?b1))"
    using b1 o1 b(4) by (simp add: numeral_eq_Suc Let_def ax_def axi_out_def)
  moreover have "answered (M (axi_word a)) n M b0 (drive (\<lambda>m. m\<lparr>arvalid := False\<rparr>) (atick ?b1))"
    by (rule answeredI [OF ax_drive [OF ax_tick [OF b1]]]) (use r b(2) in \<open>simp_all add: no_request_def\<close>)
  ultimately show ?thesis by blast
qed

lemma r_hold_loop_result: "answered v n M b0 b \<Longrightarrow> answered v (n + h) M b0 (r_hold_loop h b)"
proof (induction h arbitrary: n b)
  case (Suc h)
  obtain m r where b: "ax m r n b0 b" "no_request m" "w_rest r" "rvalid_q r" "rdata_q r = v" "mem_q r = M"
    using Suc.prems by (auto simp: answered_def)
  let ?f = "\<lambda>m. m\<lparr>rready := False\<rparr>"
  let ?b = "aeval (drive ?f b)"
  have e: "ax (?f m) r n b0 ?b" "slv ?b = axi_out r (?f m)"
    by (rule ax_eval [OF ax_drive [OF b(1)]], rule ax_out [OF ax_drive [OF b(1)]])
  have v: "rvalid (slv ?b)" using e(2) b(4) by (simp add: axi_out_def)
  have t: "ax (?f m) (axi_edge True r (?f m)) (Suc n) b0
    (atick (ACHECK (rvalid (slv ?b)) ''RVALID dropped while RREADY=0 (must be held)'' ?b))"
    by (rule ax_tick [OF ax_check [OF e(1) v]])
  have "answered v (Suc n) M b0 (atick (ACHECK (rvalid (slv ?b)) ''RVALID dropped while RREADY=0 (must be held)'' ?b))"
    by (rule answeredI [OF t])
      (use edge_write(4) [OF b(3), of "?f m"] edge_read(3) [of "?f m" r] b in \<open>simp_all add: no_request_def\<close>)
  from Suc.IH [OF this] show ?case by (simp add: Let_def)
qed simp

lemma read_from_result:
  assumes "rest n M b0 b"
  shows "\<exists>b1. read_from a h b = (M (axi_word a), b1) \<and> rest (n + h + 2) M b0 b1"
proof -
  let ?v = "M (axi_word a)"
  obtain b1 where l: "push_ar_loop 21 (drive (\<lambda>m. m\<lparr>araddr := a, arvalid := True, rready := False\<rparr>) (aidle b)) = (True, b1)"
    and b1: "answered ?v n M b0 b1" using push_ar_result [OF aidle_rest [OF assms]] by blast
  have "rvalid (slv b1)" using b1 by (auto simp: answered_def ax_def)
  then have w: "wait_for 21 rvalid b1 = (True, b1)" by (rule wait_for_now) simp
  obtain m r where b: "ax m r (n + h) b0 (r_hold_loop h b1)" "no_request m" "w_rest r" "rvalid_q r" "rdata_q r = ?v" "mem_q r = M"
    using r_hold_loop_result [OF b1, of h] by (auto simp: answered_def)
  let ?f = "\<lambda>m. m\<lparr>rready := True\<rparr>" and ?g = "\<lambda>m. m\<lparr>rready := False\<rparr>"
  define b2 where "b2 = aeval (drive ?f (r_hold_loop h b1))"
  have e: "ax (?f m) r (n + h) b0 b2" "slv b2 = axi_out r (?f m)"
    unfolding b2_def by (rule ax_eval [OF ax_drive [OF b(1)]], rule ax_out [OF ax_drive [OF b(1)]])
  define b3 where "b3 = ACHECK True ''RVALID dropped before R handshake'' b2"
  have t: "ax (?f m) (axi_edge True r (?f m)) (Suc (n + h)) b0 (atick b3)"
    unfolding b3_def by (rule ax_tick [OF ax_check [OF e(1) TrueI]])
  let ?r = "axi_edge True r (?f m)"
  define b4 where "b4 = aeval (drive ?g (atick b3))"
  have r: "w_rest ?r" "mem_q ?r = M" "\<not> rvalid_q ?r"
    using edge_write(4) [OF b(3), of "?f m"] edge_read(4) [of "?f m" r] b(2,4,6) by (simp_all add: no_request_def)
  have e4: "ax (?g (?f m)) ?r (Suc (n + h)) b0 b4" "slv b4 = axi_out ?r (?g (?f m))"
    unfolding b4_def by (rule ax_eval [OF ax_drive [OF t]], rule ax_out [OF ax_drive [OF t]])
  have "read_from a h b = (?v, aidle (ACHECK True ''RVALID stayed high after R handshake'' b4))"
    using e(2) e4(2) b(4,5) r(3)
    by (simp add: read_from_def l w Let_def b2_def [symmetric] b3_def [symmetric] b4_def [symmetric] axi_out_def)
  moreover have "rest (Suc (Suc (n + h))) M b0 (ACHECK True ''RVALID stayed high after R handshake'' b4)"
    by (rule betweenI [OF ax_check [OF e4(1) TrueI]]) (use r b(2) in \<open>simp_all add: no_request_def\<close>)
  ultimately show ?thesis using aidle_rest by simp
qed

lemma expect_word_result:
  assumes "rest n M b0 b" and "M (axi_word a) = want"
  shows "rest (n + h + 3) M b0 (expect_word a h want msg b)"
proof -
  from read_from_result [OF assms(1), of a h] obtain b1 where
    r: "read_from a h b = (M (axi_word a), b1)" "rest (n + h + 2) M b0 b1" by blast
  then obtain m r where b1: "ax m r (n + h + 2) b0 b1" "no_request m" "w_rest r" "\<not> rvalid_q r" "mem_q r = M"
    by (auto simp: between_def)
  have "rest (Suc (n + h + 2)) M b0 (ACHECK (M (axi_word a) = want) msg b1)"
    by (rule betweenI [OF ax_check [OF b1(1) assms(2)]]) (use b1 in simp_all)
  then show ?thesis by (simp add: expect_word_def r(1) eval_nat_numeral)
qed

section \<open>The bench passes\<close>

lemma axi_word_values [simp]:
  "axi_word 0 = 0" "axi_word 0x10 = 4" "axi_word 0x20 = 8" "axi_word 0x30 = 12" "axi_word 0x40 = 16"
  "axi_word 0x50 = 20" "axi_word 0x54 = 21" "axi_word 0x60 = 24"
  by (simp_all add: axi_word_def)

lemma strobed_bytes: "strobed 0x3 0 0xFFFFFFFF = (0xFFFF0000 :: u32)" "strobed 0x8 0xAB000000 0 = (0xAB000000 :: u32)"
  by code_simp+

lemma order_tests_result:
  assumes "rest n M b0 b"
  shows "\<exists>M1. rest (n + 28) M1 b0 (order_tests b)"
proof -
  have "\<exists>k M1. rest k M1 b0 (order_tests b) \<and> k = n + 28"
    unfolding order_tests_def Let_def
    by (intro exI conjI, (rule expect_word_result write_together_result write_aw_first_result write_w_first_result assms)+)
      (simp_all add: stored_def strobed_all)
  then show ?thesis by blast
qed

lemma strobe_tests_result:
  assumes "rest n M b0 b"
  shows "\<exists>M1. rest (n + 32) M1 b0 (strobe_tests b)"
proof -
  have "\<exists>k M1. rest k M1 b0 (strobe_tests b) \<and> k = n + 32"
    unfolding strobe_tests_def Let_def
    by (intro exI conjI, (rule expect_word_result write_together_result assms)+)
      (simp_all add: stored_def strobed_all strobed_bytes)
  then show ?thesis by blast
qed

lemma pending_test_result:
  assumes "rest n M b0 b"
  shows "\<exists>M1. rest (n + 3) M1 b0 (pending_test b)"
proof -
  define b1 where "b1 = push_aw_w 0x60 0x33333333 0xF (aidle b)"
  from push_aw_w_responds [OF aidle_rest [OF assms], of "0x60" "0xF" "0x33333333"] obtain m r where
    1: "ax m r n b0 b1" "no_request m" "w_resp r" "\<not> rvalid_q r" by (auto simp: between_def b1_def)
  have "bvalid (slv b1)" using 1 by (simp add: ax_def w_resp_def)
  then have w: "wait_for 21 bvalid b1 = (True, b1)" by (rule wait_for_now) simp
  let ?f = "\<lambda>m. m\<lparr>awvalid := True, awaddr := 0x70, wvalid := True, wdata := 0x44444444, wstrb := 0xF, bready := False\<rparr>"
  define b2 where "b2 = aeval (drive ?f b1)"
  have e2: "ax (?f m) r n b0 b2" "slv b2 = axi_out r (?f m)"
    unfolding b2_def by (rule ax_eval [OF ax_drive [OF 1(1)]], rule ax_out [OF ax_drive [OF 1(1)]])
  define b3 where "b3 = ACHECK True ''WREADY high while B pending (single outstanding)'' (ACHECK True ''AWREADY high while B pending (single outstanding)'' b2)"
  have e3: "ax (?f m) r (Suc (Suc n)) b0 b3" unfolding b3_def by (intro ax_check e2(1) TrueI)
  let ?r4 = "axi_edge True r (?f m)" and ?g = "\<lambda>m. m\<lparr>awvalid := False, wvalid := False, bready := True\<rparr>"
  have r4: "w_resp ?r4" "\<not> rvalid_q ?r4"
    using edge_write(7) [OF 1(3), of "?f m"] edge_read(1) [of "?f m" r] 1(2,4) by (simp_all add: no_request_def)
  define b5 where "b5 = atick (aeval (drive ?g (atick b3)))"
  let ?r5 = "axi_edge True ?r4 (?g (?f m))" and ?h = "\<lambda>m. m\<lparr>bready := False\<rparr>"
  have e5: "ax (?g (?f m)) ?r5 (Suc (Suc n)) b0 b5"
    unfolding b5_def by (rule ax_tick [OF ax_eval [OF ax_drive [OF ax_tick [OF e3]]]])
  have r5: "w_rest ?r5" "\<not> rvalid_q ?r5"
    using edge_write(8) [OF r4(1), of "?g (?f m)"] edge_read(1) [of "?g (?f m)" ?r4] r4(2) 1(2) by (simp_all add: no_request_def)
  define b6 where "b6 = aeval (drive ?h b5)"
  have e6: "ax (?h (?g (?f m))) ?r5 (Suc (Suc n)) b0 b6" "slv b6 = axi_out ?r5 (?h (?g (?f m)))"
    unfolding b6_def by (rule ax_eval [OF ax_drive [OF e5]], rule ax_out [OF ax_drive [OF e5]])
  have p: "pending_test b = aidle (ACHECK True ''B cleared after accepting pending response'' b6)"
    using e2(2) e6(2) 1(3) r5(1)
    by (simp add: pending_test_def w Let_def b1_def [symmetric] b2_def [symmetric] b3_def [symmetric] b5_def [symmetric] b6_def [symmetric]
        axi_out_def w_resp_def w_rest_def)
  have "rest (Suc (Suc (Suc n))) (mem_q ?r5) b0 (ACHECK True ''B cleared after accepting pending response'' b6)"
    by (rule betweenI [OF ax_check [OF e6(1) TrueI]]) (use r5 1(2) in \<open>simp_all add: no_request_def\<close>)
  from aidle_rest [OF this] show ?thesis unfolding p by (auto simp: eval_nat_numeral)
qed

definition in_reset :: "abench \<Rightarrow> abench \<Rightarrow> bool" where
  "in_reset b0 b \<longleftrightarrow> \<not> arstn b \<and> no_request (mst b) \<and> achecks b = achecks b0 \<and> afails b = afails b0 \<and> amessages b = amessages b0"

lemma in_reset_tick: "in_reset b0 b \<Longrightarrow> in_reset b0 (atick b) \<and> w_rest (regs (atick b)) \<and> \<not> rvalid_q (regs (atick b))"
  by (simp add: in_reset_def atick_def aeval_def aposedge_def axi_edge_def w_rest_def)

lemma areset_result: "\<exists>M. rest 0 M b (areset b)"
proof -
  let ?s = "aeval (aidle (b\<lparr>arstn := False\<rparr>))"
  define b1 where "b1 = (atick ^^ 4) ?s"
  have "in_reset b ?s" by (simp add: in_reset_def aeval_def aidle_def drive_def no_request_def)
  then have "in_reset b ((atick ^^ 3) ?s)" by (simp add: numeral_eq_Suc in_reset_tick)
  from in_reset_tick [OF this] have b1: "no_request (mst b1)" "achecks b1 = achecks b" "afails b1 = afails b"
    "amessages b1 = amessages b" "w_rest (regs b1)" "\<not> rvalid_q (regs b1)"
    by (simp_all add: b1_def in_reset_def numeral_eq_Suc)
  have "ax (mst b1) (regs b1) 0 b (aeval (b1\<lparr>arstn := True\<rparr>))"
    using b1 by (simp add: ax_def aeval_def axi_out_def)
  from ax_tick [OF this] have "ax (mst b1) (axi_edge True (regs b1) (mst b1)) 0 b (areset b)"
    by (simp add: areset_def Let_def b1_def)
  then have "rest 0 (mem_q (axi_edge True (regs b1) (mst b1))) b (areset b)"
    by (rule betweenI) (use b1 edge_write(4) [of "regs b1" "mst b1"] edge_read(1) [of "mst b1" "regs b1"] in \<open>simp_all add: no_request_def\<close>)
  then show ?thesis by blast
qed

section \<open>Properties\<close>

text \<open>Address and data may come together or one after the other, in either order, and the response may be held
  back for any time: the write stores the strobed bytes and nothing else, and no check fails. A read then returns them.\<close>

theorem axi_write_orders_agree:
  assumes "rest n M b0 b" and "wr \<in> {write_together, write_aw_first, write_w_first}"
  shows "rest (n + h + 2) (M(axi_word a := strobed s d (M (axi_word a)))) b0 (wr a d s h b)
    \<and> fst (read_from a k (wr a d s h b)) = strobed s d (M (axi_word a))"
proof -
  have r: "rest (n + h + 2) (stored (axi_word a) s d M) b0 (wr a d s h b)"
    using assms(2) write_together_result [OF assms(1)] write_aw_first_result [OF assms(1)] write_w_first_result [OF assms(1)] by auto
  from read_from_result [OF r, of a k] r show ?thesis by (auto simp: stored_def)
qed

text \<open>The bench passes on the model of the RAM from any state: it makes its 63 checks, none fails and none times
  out, and it returns 0.\<close>

theorem ram_bench_passes:
  assumes "achecks b = 0" "afails b = 0" "amessages b = []"
  shows "\<exists>b'. ram_tb_main b = (0, b') \<and> achecks b' = 63 \<and> afails b' = 0 \<and> amessages b' = []"
proof -
  obtain M0 where "rest 0 M0 b (areset b)" using areset_result by blast
  from order_tests_result [OF this] obtain M1 where "rest 28 M1 b (order_tests (areset b))" by auto
  from strobe_tests_result [OF this] obtain M2 where "rest 60 M2 b (strobe_tests (order_tests (areset b)))" by auto
  from pending_test_result [OF this] obtain M3 where "rest 63 M3 b (pending_test (strobe_tests (order_tests (areset b))))" by auto
  then show ?thesis using assms by (auto simp: between_def ax_def ram_tb_main_def Let_def)
qed

definition fresh_abench :: abench where
  "fresh_abench = \<lparr>arstn = True,
     mst = \<lparr>awaddr = 0, awvalid = True, wdata = 1, wstrb = 0xF, wvalid = True, bready = False, araddr = 4, arvalid = True, rready = False\<rparr>,
     slv = \<lparr>awready = True, wready = True, bvalid = False, arready = True, rvalid = False, rdata = 0\<rparr>,
     regs = \<lparr>aw_seen_q = True, w_seen_q = False, aw_word_q = 3, wstrb_q = 0, wdata_q = 0, bvalid_q = True, rvalid_q = True,
       rdata_q = 0, mem_q = (\<lambda>_. 0)\<rparr>,
     achecks = 0, afails = 0, amessages = []\<rparr>"

lemma ram_bench_passes_witness:
  "\<exists>b'. ram_tb_main fresh_abench = (0, b') \<and> achecks b' = 63 \<and> afails b' = 0 \<and> amessages b' = []"
  by (rule ram_bench_passes) (simp_all add: fresh_abench_def)

lemma axi_write_orders_agree_witness:
  "\<exists>n M. rest (n + 5) (M(axi_word 0x30 := strobed 0x3 7 (M (axi_word 0x30)))) fresh_abench (write_w_first 0x30 7 0x3 3 (areset fresh_abench))
    \<and> fst (read_from 0x30 0 (write_w_first 0x30 7 0x3 3 (areset fresh_abench))) = strobed 0x3 7 (M (axi_word 0x30))"
proof -
  obtain M where "rest 0 M fresh_abench (areset fresh_abench)" using areset_result by blast
  from axi_write_orders_agree [OF this, of write_w_first 3 "0x30" "0x3" 7 0]
  have "rest (0 + 5) (M(axi_word 0x30 := strobed 0x3 7 (M (axi_word 0x30)))) fresh_abench (write_w_first 0x30 7 0x3 3 (areset fresh_abench))
    \<and> fst (read_from 0x30 0 (write_w_first 0x30 7 0x3 3 (areset fresh_abench))) = strobed 0x3 7 (M (axi_word 0x30))" by simp
  then show ?thesis by blast
qed
end
