(* ===== verification/Sim_Serial.thy ===== *)
theory Sim_Serial
  imports Prelude
begin

text \<open>
  The serial line of the simulation: the stimulus driver \<open>UartRxDriver\<close> and \<open>unescape\<close> of \<open>sim/sim_main.cpp\<close>,
  and the line monitor \<open>tx_monitor\<close> and the frames \<open>rx_frame\<close> of \<open>sim/hw/uart_tb/uart_tb.cpp\<close>. The level of the line
  in a clock is a truth value; what the UART does between the two pins is not part of this theory. Counters are
  natural numbers, as none gets large in the runs considered.
\<close>

section \<open>The stimulus driver\<close>

record rx_driver =
  dbytes :: "u8 list"
  bit_cycles :: int
  paced :: bool
  idx :: nat
  active :: bool
  cur :: u8
  bit_no :: nat
  cnt :: nat
  gap :: nat

definition GAP_CYCLES :: nat where "GAP_CYCLES = 10"

definition new_driver :: "u8 list \<Rightarrow> int \<Rightarrow> bool \<Rightarrow> rx_driver" where
  "new_driver s n p = \<lparr>dbytes = s, bit_cycles = n, paced = p, idx = 0, active = False, cur = 0, bit_no = 0, cnt = 0, gap = 0\<rparr>"

definition all_sent :: "rx_driver \<Rightarrow> bool" where
  "all_sent d \<longleftrightarrow> idx d \<ge> length (dbytes d) \<and> \<not> active d"

definition frames_sent :: "rx_driver \<Rightarrow> nat" where
  "frames_sent d = idx d - (if active d then 1 else 0)"

text \<open>A clock inside a frame.\<close>

definition frame_clock :: "rx_driver \<Rightarrow> bool \<times> rx_driver" where
  "frame_clock d = (let
     level = (if bit_no d = 0 then False else if bit_no d \<le> 8 then bit (cur d) (bit_no d - 1) else True);
     d = d\<lparr>cnt := cnt d + 1\<rparr>
   in (level,
     if int (cnt d) = bit_cycles d then
       (let d = d\<lparr>cnt := 0, bit_no := bit_no d + 1\<rparr>
        in if bit_no d > 9 then d\<lparr>active := False, gap := GAP_CYCLES\<rparr> else d)
     else d))"

definition step :: "bool \<Rightarrow> rx_driver \<Rightarrow> bool \<times> rx_driver" where
  "step blocked d =
     (if \<not> active d then
        (if gap d > 0 then (True, d\<lparr>gap := gap d - 1\<rparr>)
         else if idx d \<ge> length (dbytes d) \<or> paced d \<and> blocked then (True, d)
         else frame_clock (d\<lparr>cur := dbytes d ! idx d, idx := idx d + 1, active := True, bit_no := 0, cnt := 0\<rparr>))
      else frame_clock d)"

text \<open>The line over a run, one entry of the list for each clock.\<close>

fun drive_line :: "bool list \<Rightarrow> rx_driver \<Rightarrow> bool list \<times> rx_driver" where
  "drive_line [] d = ([], d)"
| "drive_line (x # xs) d = (let (v, d1) = step x d; (vs, d2) = drive_line xs d1 in (v # vs, d2))"

section \<open>The bench side\<close>

definition BIT_CYCLES :: nat where "BIT_CYCLES = 10"

record monitor =
  mon_state :: nat
  mon_cnt :: nat
  mon_bit :: nat
  mon_byte :: nat
  mon_target :: nat
  tx_bytes :: "nat list"

definition tx_monitor :: "bool \<Rightarrow> monitor \<Rightarrow> monitor" where
  "tx_monitor txd m =
     (if mon_state m = 0 then
        (if \<not> txd then m\<lparr>mon_state := 1, mon_cnt := 0, mon_bit := 0, mon_byte := 0,
           mon_target := BIT_CYCLES + BIT_CYCLES div 2\<rparr> else m)
      else if mon_state m = 1 then
        (let m = m\<lparr>mon_cnt := mon_cnt m + 1\<rparr> in
         if mon_cnt m = mon_target m then
           (let m = (if txd then m\<lparr>mon_byte := mon_byte m OR push_bit (mon_bit m) 1\<rparr> else m);
                m = m\<lparr>mon_bit := mon_bit m + 1, mon_target := mon_target m + BIT_CYCLES\<rparr>
            in if mon_bit m = 8 then m\<lparr>tx_bytes := tx_bytes m @ [mon_byte m], mon_state := 2\<rparr> else m)
         else m)
      else if txd then m\<lparr>mon_state := 0\<rparr> else m)"

definition mon_start :: monitor where
  "mon_start = \<lparr>mon_state = 0, mon_cnt = 0, mon_bit = 0, mon_byte = 0, mon_target = 0, tx_bytes = []\<rparr>"

definition drive :: "bool \<Rightarrow> nat \<Rightarrow> bool list" where
  "drive level cycles = replicate cycles level"

text \<open>The levels of \<open>rxd_i\<close> during \<open>rx_frame\<close>.\<close>

definition rx_frame :: "u8 \<Rightarrow> bool list" where
  "rx_frame byte = drive False BIT_CYCLES @ concat (map (\<lambda>b. drive (bit byte b) BIT_CYCLES) [0..<8]) @ drive True BIT_CYCLES"

section \<open>The monitor reads what the driver sends\<close>

text \<open>After \<open>t\<close> clocks of a frame the monitor has sampled \<open>samples t\<close> bits.\<close>

definition samples :: "nat \<Rightarrow> nat" where
  "samples t = (t + 4) div 10 - 1"

definition in_frame :: "nat list \<Rightarrow> u8 \<Rightarrow> nat \<Rightarrow> monitor \<Rightarrow> bool" where
  "in_frame xs c t m \<longleftrightarrow>
     (if t \<le> 85 then mon_state m = 1 \<and> mon_cnt m = t - 1 \<and> mon_bit m = samples t \<and> mon_target m = 15 + 10 * samples t
        \<and> mon_byte m = take_bit (samples t) (unat c) \<and> tx_bytes m = xs
      else tx_bytes m = xs @ [unat c]
        \<and> (if t \<le> 90 then mon_state m = 2 \<or> mon_state m = 0 \<and> bit c 7 else mon_state m = 0))"

definition level_at :: "u8 \<Rightarrow> nat \<Rightarrow> bool" where
  "level_at c t = (if t < 10 then False else if t < 90 then bit c (t div 10 - 1) else True)"

lemma in_frame_first: "mon_state m = 0 \<Longrightarrow> tx_bytes m = xs \<Longrightarrow> in_frame xs c 1 (tx_monitor False m)"
  by (simp add: in_frame_def tx_monitor_def BIT_CYCLES_def samples_def)

lemma bit_byte: "bit (unat (c :: u8)) k = bit c k"
  by (simp add: bit_simps)

lemma take_bit_step: "(take_bit k n OR (if bit n k then push_bit k 1 else 0) :: nat) = take_bit (Suc k) n"
  by (rule bit_eqI) (auto simp: bit_simps less_Suc_eq)

lemma in_frame_step:
  assumes "in_frame xs c t m" and "0 < t" and "t < 100"
  shows "in_frame xs c (Suc t) (tx_monitor (level_at c t) m)"
proof -
  consider "t < 85" "t mod 10 \<noteq> 5" | "t < 85" "t mod 10 = 5" | "t = 85" | "85 < t" using assms(3) by linarith
  then show ?thesis
  proof cases
    case 1
    have "Suc (t + 4) mod 10 \<noteq> 0" using 1(2) by (simp add: mod_Suc mod_simps) presburger
    then have "Suc (t + 4) div 10 = (t + 4) div 10" by (simp only: div_Suc if_False)
    then have "samples (Suc t) = samples t" by (simp add: samples_def)
    moreover have "t \<noteq> 15 + 10 * samples t"
    proof
      assume "t = 15 + 10 * samples t"
      then have "t mod 10 = (15 + 10 * samples t) mod 10" by simp
      then show False using 1(2) by simp
    qed
    moreover have "mon_state m = 1" "Suc (mon_cnt m) = t" "mon_target m = 15 + 10 * samples t"
      using assms 1 by (simp_all add: in_frame_def)
    ultimately have "tx_monitor (level_at c t) m = m\<lparr>mon_cnt := t\<rparr>" by (simp add: tx_monitor_def Let_def)
    then show ?thesis using assms 1 \<open>samples (Suc t) = samples t\<close> by (simp add: in_frame_def)
  next
    case 2
    then obtain k where t: "t = 10 * k + 5" by (metis div_mult_mod_eq mult.commute)
    show ?thesis
    proof (cases k)
      case 0
      then show ?thesis using assms t by (simp add: in_frame_def tx_monitor_def samples_def level_at_def)
    next
      case (Suc j)
      then have s: "samples t = j" "samples (Suc t) = Suc j" "j < 7" using t 2 by (simp_all add: samples_def)
      have l: "level_at c t = bit c j" using t Suc 2 by (simp add: level_at_def)
      have m: "mon_state m = 1" "Suc (mon_cnt m) = t" "mon_bit m = j" "mon_target m = t" "mon_byte m = take_bit j (unat c)"
        using assms t Suc s by (simp_all add: in_frame_def)
      have "tx_monitor (level_at c t) m = m\<lparr>mon_cnt := t, mon_byte := take_bit (Suc j) (unat c), mon_bit := Suc j, mon_target := t + 10\<rparr>"
        unfolding l using m s(3) take_bit_step [of j "unat c"] bit_byte [of c j]
        by (cases "bit c j") (simp_all add: tx_monitor_def BIT_CYCLES_def Let_def)
      then show ?thesis using assms t Suc s by (simp add: in_frame_def)
    qed
  next
    case 3
    have s: "samples 85 = 7" by (simp add: samples_def)
    have l: "level_at c 85 = bit c 7" by (simp add: level_at_def)
    have "take_bit 8 (unat c) = unat c" using unat_lt_256 [of c] by (simp add: take_bit_nat_eq_self)
    then have "tx_monitor (bit c 7) m = m\<lparr>mon_cnt := 85, mon_byte := unat c, mon_bit := 8, mon_target := 95,
        tx_bytes := tx_bytes m @ [unat c], mon_state := 2\<rparr>"
      using assms 3 s take_bit_step [of 7 "unat c"] bit_byte [of c 7]
      by (cases "bit c 7") (simp_all add: in_frame_def tx_monitor_def BIT_CYCLES_def Let_def)
    then show ?thesis using assms 3 l by (simp add: in_frame_def)
  next
    case 4
    have "level_at c t = (if t < 90 then bit c 7 else True)"
    proof (cases "t < 90")
      case True
      then have "t div 10 = 8" using 4 by presburger
      then show ?thesis using True 4 by (simp add: level_at_def)
    qed (simp add: level_at_def)
    then have l: "if t < 90 then level_at c t = bit c 7 else level_at c t" by simp
    then have "mon_state m = 2 \<or> mon_state m = 0 \<and> level_at c t"
      using assms(1) 4 by (auto simp: in_frame_def split: if_splits)
    then have "tx_monitor (level_at c t) m = m\<lparr>mon_state := (if level_at c t then 0 else 2)\<rparr>"
      by (auto simp: tx_monitor_def)
    then show ?thesis using assms(1) 4 l by (auto simp: in_frame_def split: if_splits)
  qed
qed


text \<open>Driver and monitor, clock by clock.\<close>

definition in_sync :: "u8 list \<Rightarrow> rx_driver \<Rightarrow> monitor \<Rightarrow> bool" where
  "in_sync s d m \<longleftrightarrow> dbytes d = s \<and> bit_cycles d = 10 \<and> idx d \<le> length s
     \<and> (if active d then 0 < idx d \<and> cur d = s ! (idx d - 1) \<and> bit_no d \<le> 9 \<and> cnt d < 10 \<and> 0 < 10 * bit_no d + cnt d
          \<and> in_frame (map unat (take (idx d - 1) s)) (cur d) (10 * bit_no d + cnt d) m
        else mon_state m = 0 \<and> tx_bytes m = map unat (take (idx d) s))"

lemma frame_clock_level:
  assumes "cnt d < 10" and "bit_no d \<le> 9"
  shows "fst (frame_clock d) = level_at (cur d) (10 * bit_no d + cnt d)"
proof -
  have "(10 * bit_no d + cnt d) div 10 = bit_no d" using assms(1) by simp
  moreover have "10 * bit_no d + cnt d < 10 \<longleftrightarrow> bit_no d = 0" "10 * bit_no d + cnt d < 90 \<longleftrightarrow> bit_no d \<le> 8"
    using assms(1) by auto
  ultimately show ?thesis by (simp add: frame_clock_def level_at_def Let_def)
qed

lemma in_sync_frame:
  assumes "in_sync s d m" and "active d"
  shows "in_sync s (snd (frame_clock d)) (tx_monitor (fst (frame_clock d)) m)"
proof -
  let ?t = "10 * bit_no d + cnt d"
  have d: "dbytes d = s" "bit_cycles d = 10" "idx d \<le> length s" "0 < idx d" "cur d = s ! (idx d - 1)" "bit_no d \<le> 9" "cnt d < 10"
    "0 < ?t" "in_frame (map unat (take (idx d - 1) s)) (cur d) ?t m" using assms(1) unfolding in_sync_def if_P [OF assms(2)] by - (elim conjE, assumption)+
  have "?t < 100" using d(6,7) by simp
  then have f: "in_frame (map unat (take (idx d - 1) s)) (cur d) (Suc ?t) (tx_monitor (fst (frame_clock d)) m)"
    unfolding frame_clock_level [OF d(7,6)] by (rule in_frame_step [OF d(9,8)])
  have take: "take (idx d) s = take (idx d - 1) s @ [cur d]"
    using d(3-5) take_Suc_conv_app_nth [of "idx d - 1" s] by simp
  consider "cnt d < 9" | "cnt d = 9" "bit_no d < 9" | "cnt d = 9" "bit_no d = 9" using d(6,7) by linarith
  then show ?thesis
  proof cases
    case 1
    then show ?thesis using d f assms(2) by (simp add: in_sync_def frame_clock_def Let_def)
  next
    case 2
    then show ?thesis using d f assms(2) by (simp add: in_sync_def frame_clock_def Let_def algebra_simps)
  next
    case 3
    then show ?thesis using d f take by (simp add: in_sync_def frame_clock_def in_frame_def Let_def)
  qed
qed

lemma in_sync_step:
  assumes "in_sync s d m"
  shows "in_sync s (snd (step x d)) (tx_monitor (fst (step x d)) m)"
proof -
  consider "active d" | "\<not> active d" "0 < gap d \<or> idx d \<ge> length (dbytes d) \<or> paced d \<and> x"
    | "\<not> active d" "\<not> (0 < gap d \<or> idx d \<ge> length (dbytes d) \<or> paced d \<and> x)" by blast
  then show ?thesis
  proof cases
    case 1
    then show ?thesis using in_sync_frame [OF assms] by (simp add: step_def)
  next
    case 2
    then show ?thesis using assms by (auto simp: step_def in_sync_def tx_monitor_def)
  next
    case 3
    have m: "mon_state m = 0" "tx_bytes m = map unat (take (idx d) s)" "dbytes d = s" "bit_cycles d = 10"
      using assms 3 by (simp_all add: in_sync_def)
    let ?d = "d\<lparr>cur := dbytes d ! idx d, idx := idx d + 1, active := True, bit_no := 0, cnt := 0\<rparr>"
    have "frame_clock ?d = (False, ?d\<lparr>cnt := 1\<rparr>)" using m by (simp add: frame_clock_def Let_def)
    moreover have "in_frame (map unat (take (idx d) s)) (s ! idx d) 1 (tx_monitor False m)" by (rule in_frame_first [OF m(1,2)])
    ultimately show ?thesis using 3 m by (auto simp: step_def in_sync_def)
  qed
qed

lemma drive_line_sync:
  "in_sync s d m \<Longrightarrow> drive_line xs d = (line, d') \<Longrightarrow> in_sync s d' (fold tx_monitor line m)"
proof (induction xs arbitrary: d m line)
  case (Cons x xs)
  obtain vs where run: "drive_line xs (snd (step x d)) = (vs, d')" "line = fst (step x d) # vs"
    using Cons.prems(2) by (auto simp: Let_def split: prod.splits)
  from Cons.IH [OF in_sync_step [OF Cons.prems(1)] run(1)] run(2) show ?case by simp
qed simp

lemma rx_frame_levels: "rx_frame c = map (level_at c) [0..<100]"
proof -
  have "[0..<100] = [0..<10] @ concat (map (\<lambda>b. map (\<lambda>k. 10 * (b + 1) + k) [0..<10]) [0..<8]) @ map (\<lambda>k. 90 + k) [0..<10]"
    by code_simp
  moreover have "map (level_at c) [0..<10] = drive False 10" "map (\<lambda>k. level_at c (90 + k)) [0..<10] = drive True 10"
    by (simp_all add: level_at_def drive_def upt_conv_Cons numeral_eq_Suc)
  moreover have level: "map (\<lambda>k. level_at c (10 * (b + 1) + k)) [0..<10] = drive (bit c b) 10" if "b < 8" for b
  proof -
    have "level_at c (10 * (b + 1) + k) = bit c b" if "k < 10" for k
    proof -
      have "(10 * (b + 1) + k) div 10 = b + 1" using that by simp
      then show ?thesis using that \<open>b < 8\<close> unfolding level_at_def by simp
    qed
    then have "map (\<lambda>k. level_at c (10 * (b + 1) + k)) [0..<10] = map (\<lambda>k. bit c b) [0..<10]" by simp
    then show ?thesis by (simp add: drive_def map_replicate_const)
  qed
  moreover from level have "map (\<lambda>b. map (level_at c) (map (\<lambda>k. 10 * (b + 1) + k) [0..<10])) [0..<8] = map (\<lambda>b. drive (bit c b) 10) [0..<8]"
    by (simp add: comp_def)
  ultimately show ?thesis unfolding rx_frame_def BIT_CYCLES_def by (simp only: map_append map_concat map_map comp_def)
qed

lemma monitor_frame:
  assumes "mon_state m = 0"
  shows "mon_state (fold tx_monitor (rx_frame c) m) = 0 \<and> tx_bytes (fold tx_monitor (rx_frame c) m) = tx_bytes m @ [unat c]"
proof -
  have "in_frame (tx_bytes m) c (Suc n) (fold tx_monitor (map (level_at c) [0..<Suc n]) m)" if "n < 100" for n
    using that
  proof (induction n)
    case 0
    then show ?case using in_frame_first [OF assms refl] by (simp add: level_at_def)
  next
    case (Suc n)
    then show ?case using in_frame_step [of "tx_bytes m" c "Suc n"] by simp
  qed
  from this [of 99] have "in_frame (tx_bytes m) c 100 (fold tx_monitor (map (level_at c) [0..<100]) m)" by simp
  then show ?thesis unfolding rx_frame_levels by (simp add: in_frame_def)
qed

section \<open>Escapes\<close>

text \<open>The C library on ASCII.\<close>

definition isdigit :: "u8 \<Rightarrow> bool" where
  "isdigit c \<longleftrightarrow> 0x30 \<le> c \<and> c \<le> 0x39"

definition isxdigit :: "u8 \<Rightarrow> bool" where
  "isxdigit c \<longleftrightarrow> isdigit c \<or> 0x41 \<le> c \<and> c \<le> 0x46 \<or> 0x61 \<le> c \<and> c \<le> 0x66"

definition tolower :: "u8 \<Rightarrow> u8" where
  "tolower c = (if 0x41 \<le> c \<and> c \<le> 0x5A then c + 0x20 else c)"

definition hex_value :: "u8 \<Rightarrow> nat" where
  "hex_value c = (if isdigit c then unat c - 0x30 else unat (tolower c) - 0x61 + 10)"

text \<open>Up to \<open>n\<close> hex digits of \<open>s\<close>: the value and the rest.\<close>

primrec hex_digits :: "nat \<Rightarrow> nat \<Rightarrow> u8 list \<Rightarrow> nat \<times> u8 list" where
  "hex_digits 0 v s = (v, s)"
| "hex_digits (Suc n) v s = (case s of [] \<Rightarrow> (v, s)
     | c # r \<Rightarrow> if isxdigit c then hex_digits n (v * 16 + hex_value c) r else (v, s))"

lemma hex_digits_shorter: "(w, r) = hex_digits n v s \<Longrightarrow> length r \<le> length s"
  by (induction n arbitrary: v s) (fastforce split: list.splits if_splits)+

text \<open>The string without its terminating zero.\<close>

function unescape :: "u8 list \<Rightarrow> u8 list" where
  "unescape [] = []"
| "unescape (c # s) =
     (if c \<noteq> 0x5C \<or> s = [] then c # unescape s
      else (let e = hd s; r = tl s in
        if e = 0x72 then 0x0D # unescape r
        else if e = 0x6E then 0x0A # unescape r
        else if e = 0x74 then 0x09 # unescape r
        else if e = 0x30 then 0 # unescape r
        else if e = 0x5C then 0x5C # unescape r
        else if e = 0x78 then (case hex_digits 2 0 r of (v, r1) \<Rightarrow> of_nat v # unescape r1)
        else e # unescape r))"
  by pat_completeness auto
termination by (relation "measure length") (auto simp: length_tl neq_Nil_conv dest!: hex_digits_shorter)

declare unescape.simps [simp del]

text \<open>A byte as an escape, with two hex digits.\<close>

definition hex_char :: "nat \<Rightarrow> u8" where
  "hex_char n = (if n < 10 then of_nat (0x30 + n) else of_nat (0x61 + n - 10))"

definition escape :: "u8 \<Rightarrow> u8 list" where
  "escape c = [0x5C, 0x78, hex_char (unat c div 16), hex_char (unat c mod 16)]"

lemma hex_char_digit: "n < 16 \<Longrightarrow> isxdigit (hex_char n) \<and> hex_value (hex_char n) = n"
proof -
  assume "n < 16"
  moreover have "\<forall>n\<in>set [0..<16]. isxdigit (hex_char n) \<and> hex_value (hex_char n) = n" by code_simp
  ultimately show ?thesis by auto
qed

lemma unescape_escape: "unescape (escape c @ s) = c # unescape s"
proof -
  have "unat c div 16 < 16" using unat_lt_256 [of c] by auto
  then have "hex_digits 2 0 (hex_char (unat c div 16) # hex_char (unat c mod 16) # s) = (unat c, s)"
    using hex_char_digit [of "unat c div 16"] hex_char_digit [of "unat c mod 16"] by (simp add: numeral_2_eq_2)
  then show ?thesis by (simp add: escape_def unescape.simps(2))
qed

lemma monitor_frames:
  "mon_state m = 0 \<Longrightarrow> mon_state (fold tx_monitor (concat (map rx_frame bs)) m) = 0
     \<and> tx_bytes (fold tx_monitor (concat (map rx_frame bs)) m) = tx_bytes m @ map unat bs"
  by (induction bs arbitrary: m) (simp_all add: monitor_frame)

text \<open>the frames that \<open>rx_frame\<close> of the UART bench puts on a line one behind the other, with no idle clock between
  them, are what its own line monitor reads: \<open>tx_monitor\<close>, watching the same line, ends armed for the next start bit
  and has decoded every byte, in order.\<close>

theorem frames_decoded:
  "tx_bytes (fold tx_monitor (concat (map rx_frame bs)) mon_start) = map unat bs
     \<and> mon_state (fold tx_monitor (concat (map rx_frame bs)) mon_start) = 0"
  using monitor_frames [of mon_start bs] by (simp add: mon_start_def)

lemma in_sync_start: "in_sync s (new_driver s 10 p) mon_start"
  by (simp add: in_sync_def new_driver_def mon_start_def)

text \<open>C38: the stimulus driver of the simulation sends 8N1 frames. Whatever the UART answers clock by clock when asked
  whether it is blocked, and with or without pacing, a monitor of the same bit time reads from the driver's line a
  prefix of its string: the \<open>sent\<close> complete frames and possibly the one under way. Once the driver is \<open>done\<close> it has
  read the whole string, no byte lost, doubled or corrupted.\<close>

theorem driver_sends_string:
  assumes "drive_line blocked (new_driver s 10 p) = (line, d)"
  shows "\<exists>n. tx_bytes (fold tx_monitor line mon_start) = map unat (take n s) \<and> frames_sent d \<le> n \<and> n \<le> frames_sent d + 1
     \<and> (all_sent d \<longrightarrow> take n s = s)"
proof -
  have inv: "in_sync s d (fold tx_monitor line mon_start)" by (rule drive_line_sync [OF in_sync_start assms])
  show ?thesis
  proof (cases "active d")
    case True
    have k: "0 < idx d" "idx d \<le> length s" "cur d = s ! (idx d - 1)"
      "in_frame (map unat (take (idx d - 1) s)) (cur d) (10 * bit_no d + cnt d) (fold tx_monitor line mon_start)"
      using inv unfolding in_sync_def if_P [OF True] by - (elim conjE, assumption)+
    have "take (idx d) s = take (idx d - 1) s @ [cur d]" using k(1-3) take_Suc_conv_app_nth [of "idx d - 1" s] by simp
    then have "tx_bytes (fold tx_monitor line mon_start) \<in> {map unat (take (idx d - 1) s), map unat (take (idx d) s)}"
      using k(4) by (simp add: in_frame_def split: if_splits)
    then show ?thesis using k(1) True by (auto simp: frames_sent_def all_sent_def)
  next
    case False
    then have "tx_bytes (fold tx_monitor line mon_start) = map unat (take (idx d) s)" "dbytes d = s"
      using inv by (simp_all add: in_sync_def)
    then show ?thesis using False by (auto simp: frames_sent_def all_sent_def)
  qed
qed

theorem driver_sends_string_witness:
  "fst (drive_line (replicate 3 True @ replicate 112 False) (new_driver [0x41] 10 True)) \<noteq> [] \<and>
   (\<exists>n. tx_bytes (fold tx_monitor (fst (drive_line (replicate 3 True @ replicate 112 False) (new_driver [0x41] 10 True))) mon_start)
     = map unat (take n [0x41 :: u8]))"
proof -
  obtain line d where run: "drive_line (replicate 3 True @ replicate 112 False) (new_driver [0x41] 10 True) = (line, d)"
    by (cases "drive_line (replicate 3 True @ replicate 112 False) (new_driver [0x41] 10 True)")
  have "length (fst (drive_line xs d0)) = length xs" for xs d0
    by (induction xs arbitrary: d0) (simp_all add: Let_def case_prod_unfold)
  from this [of "replicate 3 True @ replicate 112 False" "new_driver [0x41] 10 True"] have "line \<noteq> []" using run by auto
  moreover obtain n where "tx_bytes (fold tx_monitor line mon_start) = map unat (take n [0x41 :: u8])"
    using driver_sends_string [OF run] by blast
  ultimately show ?thesis unfolding run fst_conv by blast
qed

text \<open>The clocks the driver still needs when nothing holds it up, for a bit time of \<open>n\<close> clocks.\<close>

definition clocks_left :: "nat \<Rightarrow> rx_driver \<Rightarrow> nat" where
  "clocks_left n d = (if active d then 10 * n + GAP_CYCLES - (n * bit_no d + cnt d) else gap d)
     + (10 * n + GAP_CYCLES) * (length (dbytes d) - idx d)"

definition clocked :: "nat \<Rightarrow> rx_driver \<Rightarrow> bool" where
  "clocked n d \<longleftrightarrow> bit_cycles d = int n \<and> (active d \<longrightarrow> bit_no d \<le> 9 \<and> cnt d < n)"

lemma frame_clock_left:
  assumes "clocked n d" and "active d"
  shows "clocked n (snd (frame_clock d)) \<and> clocks_left n (snd (frame_clock d)) = clocks_left n d - 1
     \<and> paced (snd (frame_clock d)) = paced d"
proof -
  have d: "bit_cycles d = int n" "bit_no d \<le> 9" "cnt d < n" using assms by (simp_all add: clocked_def)
  have "n * bit_no d \<le> n * 9" using d(2) by (rule mult_le_mono2)
  then have t: "n * bit_no d + cnt d < 10 * n" using d(3) by linarith
  consider "Suc (cnt d) < n" | "Suc (cnt d) = n" "bit_no d < 9" | "Suc (cnt d) = n" "bit_no d = 9" using d by linarith
  then show ?thesis using d t assms(2) by cases (auto simp: frame_clock_def clocked_def clocks_left_def Let_def)
qed

lemma step_left:
  assumes "clocked n d" and "0 < n" and "\<not> (paced d \<and> x)"
  shows "clocked n (snd (step x d)) \<and> clocks_left n (snd (step x d)) = clocks_left n d - 1 \<and> paced (snd (step x d)) = paced d"
proof -
  consider "active d" | "\<not> active d" "0 < gap d \<or> idx d \<ge> length (dbytes d)"
    | "\<not> active d" "gap d = 0" "idx d < length (dbytes d)" by linarith
  then show ?thesis
  proof cases
    case 1
    then show ?thesis using frame_clock_left [OF assms(1)] by (simp add: step_def)
  next
    case 2
    then show ?thesis using assms by (auto simp: step_def clocked_def clocks_left_def)
  next
    case 3
    let ?d = "d\<lparr>cur := dbytes d ! idx d, idx := idx d + 1, active := True, bit_no := 0, cnt := 0\<rparr>"
    have "clocked n ?d" "active ?d" using assms by (simp_all add: clocked_def)
    moreover have "length (dbytes d) - idx d = Suc (length (dbytes d) - Suc (idx d))" using 3 by simp
    then have "clocks_left n ?d = clocks_left n d" using 3 by (simp add: clocks_left_def)
    moreover have "step x d = frame_clock ?d" using 3 assms(3) by (auto simp: step_def)
    ultimately show ?thesis using frame_clock_left [of n ?d] by simp
  qed
qed

lemma drive_line_left:
  "clocked n d \<Longrightarrow> 0 < n \<Longrightarrow> \<not> paced d \<or> True \<notin> set xs
     \<Longrightarrow> clocked n (snd (drive_line xs d)) \<and> clocks_left n (snd (drive_line xs d)) = clocks_left n d - length xs"
proof (induction xs arbitrary: d)
  case (Cons x xs)
  have s: "clocked n (snd (step x d)) \<and> clocks_left n (snd (step x d)) = clocks_left n d - 1 \<and> paced (snd (step x d)) = paced d"
    by (rule step_left) (use Cons.prems in auto)
  then show ?case using Cons.IH [of "snd (step x d)"] Cons.prems by (auto simp: Let_def case_prod_unfold)
qed simp

text \<open>C40: the driver gets through its string. With a bit time of \<open>n > 0\<close> clocks, if pacing is off or the UART is never
  blocked, it is \<open>done\<close> after \<open>10 n + 10\<close> clocks for each byte: ten bits and the ten idle clocks of the gap, which it
  keeps after every frame with or without pacing.\<close>

theorem driver_finishes:
  assumes "0 < n" and "\<not> p \<or> True \<notin> set blocked" and "(10 * n + 10) * length s \<le> length blocked"
  shows "all_sent (snd (drive_line blocked (new_driver s (int n) p)))"
proof -
  let ?d = "snd (drive_line blocked (new_driver s (int n) p))"
  have "clocked n ?d \<and> clocks_left n ?d = clocks_left n (new_driver s (int n) p) - length blocked"
    by (rule drive_line_left) (use assms in \<open>simp_all add: clocked_def new_driver_def\<close>)
  moreover have "clocks_left n (new_driver s (int n) p) = (10 * n + 10) * length s"
    by (simp add: clocks_left_def new_driver_def GAP_CYCLES_def)
  ultimately have left: "clocked n ?d" "clocks_left n ?d = 0" using assms(3) by simp_all
  have "\<not> active ?d"
  proof
    assume "active ?d"
    then have "bit_no ?d \<le> 9" "cnt ?d < n" using left(1) by (simp_all add: clocked_def)
    moreover have "n * bit_no ?d \<le> n * 9" using calculation(1) by (rule mult_le_mono2)
    ultimately have "0 < 10 * n - (n * bit_no ?d + cnt ?d)" by linarith
    then show False using left(2) \<open>active ?d\<close> by (simp add: clocks_left_def)
  qed
  then show ?thesis using left(2) assms(1) by (simp add: clocks_left_def all_sent_def)
qed

theorem driver_finishes_witness:
  "all_sent (snd (drive_line (replicate 120 True) (new_driver [0x41, 0x5C] (int 5) False)))"
  by (rule driver_finishes) simp_all

text \<open>any byte string can be given to the driver through the environment: writing every byte as a backslash, an
  \<open>x\<close> and two hex digits, \<open>unescape\<close> gives the string back, whatever the bytes are (control characters, the
  backslash, zero, and bytes followed by what could be further hex digits).\<close>

theorem unescape_hex: "unescape (concat (map escape s)) = s"
  by (induction s) (simp_all add: unescape_escape unescape.simps(1))

end
