(* ===== verification/Sim_Main.thy ===== *)
theory Sim_Main
  imports Sim_Serial
begin

text \<open>
  The test bench of the whole system, \<open>main\<close> of \<open>sim/sim_main.cpp\<close>: it clocks the Verilator model of the core, samples
  its debug taps twice a cycle, and keeps the logs, the stall histogram, the event counters, the WFI checks and the
  commit log, until the core parks or a bound is reached. The Verilator model is generated from the RTL, so the core is
  an argument: a record of what the bench can do with it. The files written (\<open>VCD\<close>, the format of the printed lines) are
  left out: a line is kept as its figures, and a percentage or a quotient as its numerator and denominator.
  \<open>int\<close> and \<open>long\<close> counters are unbounded here: none is counted more than a few times in a cycle, and there are fewer than
  \<open>2 ^ 31\<close> cycles.
\<close>

section \<open>The core, as the bench sees it\<close>

text \<open>The taps sampled in the low half of the clock.\<close>

record low_taps =
  wb_en :: bool
  wb_addr :: u32
  wb_data :: u32
  mem_done :: bool
  store_done :: bool
  alu_start :: bool
  csr_start :: bool
  branch_valid_o :: bool
  cf_resolving :: bool
  pred_t :: bool
  mispredict :: bool
  count_q :: u32
  mem_running :: bool
  mem_bus_drive :: bool
  mem_capture :: bool
  misaligned_trap :: bool
  div_running :: bool
  wfi_stall :: bool
  resource_stall :: bool
  span_wait :: bool
  decoded_valid :: bool

text \<open>The taps sampled after the rising edge.\<close>

record high_taps =
  unused_dbg_stall :: bool
  wfi_halt_q :: bool
  int_pending_i :: bool
  fe_valid :: bool
  fe_pc :: u32
  fe_instr :: u32
  de_valid :: bool
  de_pc :: u32
  de_instr :: u32
  ex_valid :: bool
  ex_pc :: u32
  ex_instr :: u32

type_synonym sample = "low_taps \<times> high_taps"

text \<open>An evaluation takes \<open>rstn_i\<close>, \<open>uart_rxd_i\<close> and the state; \<open>clk_i\<close> is in the name.\<close>

record 's core =
  new_top :: 's
  eval_low :: "bool \<Rightarrow> bool \<Rightarrow> 's \<Rightarrow> 's"
  eval_high :: "bool \<Rightarrow> bool \<Rightarrow> 's \<Rightarrow> 's"
  rx_fifo_full :: "'s \<Rightarrow> bool"
  low_tap :: "'s \<Rightarrow> low_taps"
  high_tap :: "'s \<Rightarrow> high_taps"
  dmem :: "'s \<Rightarrow> nat \<Rightarrow> u32"
  ras_hit_q :: "'s \<Rightarrow> nat"
  ras_miss_q :: "'s \<Rightarrow> nat"

definition tick :: "'s core \<Rightarrow> bool \<Rightarrow> bool \<Rightarrow> 's \<Rightarrow> 's" where
  "tick c rstn rxd dut = eval_high c rstn rxd (eval_low c rstn rxd dut)"

section \<open>The environment\<close>

text \<open>The C library: \<open>isspace\<close>, \<open>atoi\<close> on a value that fits, and \<open>strtoul\<close> with base 0 on a 64-bit host.\<close>

type_synonym env = "string \<Rightarrow> u8 list option"

definition isspace :: "u8 \<Rightarrow> bool" where
  "isspace c \<longleftrightarrow> c = 0x20 \<or> 0x09 \<le> c \<and> c \<le> 0x0D"

primrec decimal :: "int \<Rightarrow> u8 list \<Rightarrow> int" where
  "decimal v [] = v"
| "decimal v (c # s) = (if isdigit c then decimal (v * 10 + int (unat c - 0x30)) s else v)"

definition atoi :: "u8 list \<Rightarrow> int" where
  "atoi s = (let s = dropWhile isspace s in
     case s of [] \<Rightarrow> 0
       | c # r \<Rightarrow> if c = 0x2D then - decimal 0 r else if c = 0x2B then decimal 0 r else decimal 0 s)"

primrec digits :: "nat \<Rightarrow> nat \<Rightarrow> u8 list \<Rightarrow> nat" where
  "digits b v [] = v"
| "digits b v (c # s) = (if isxdigit c \<and> hex_value c < b then digits b (v * b + hex_value c) s else v)"

definition strtoul0 :: "u8 list \<Rightarrow> u64" where
  "strtoul0 s = (let
     s = dropWhile isspace s;
     neg = (s \<noteq> [] \<and> hd s = 0x2D);
     s = (if s \<noteq> [] \<and> (hd s = 0x2D \<or> hd s = 0x2B) then tl s else s);
     v = (case s of
         c # x # d # r \<Rightarrow>
           if c = 0x30 \<and> (x = 0x78 \<or> x = 0x58) \<and> isxdigit d then digits 16 0 (d # r)
           else digits (if c = 0x30 then 8 else 10) 0 s
       | c # r \<Rightarrow> digits (if c = 0x30 then 8 else 10) 0 s
       | [] \<Rightarrow> 0)
   in if v \<ge> 2 ^ 64 then - 1 else if neg then - of_nat v else of_nat v)"

record config =
  instr_log :: bool
  trace :: bool
  max_cyc :: int
  wfi_stuck_n :: int
  wfi_halt_n :: int

text \<open>\<open>atoi\<close> of a variable, or a default.\<close>

definition env_int :: "env \<Rightarrow> string \<Rightarrow> int \<Rightarrow> int" where
  "env_int e name d = (case e name of None \<Rightarrow> d | Some v \<Rightarrow> atoi v)"

text \<open>\<open>args\<close> is \<open>argv\<close> without the program name; \<open>opens\<close> says whether a file can be opened for writing.\<close>

definition config_of :: "u8 list list \<Rightarrow> env \<Rightarrow> (u8 list \<Rightarrow> bool) \<Rightarrow> config" where
  "config_of args e opens = \<lparr>
     instr_log = (case e ''INSTR_LOG'' of Some v \<Rightarrow> atoi v \<noteq> 0
       | None \<Rightarrow> \<not> (\<exists>a\<in>set args. take 7 a = bytes ''+IINIT='')),
     trace = (case e ''RTL_TRACE'' of Some t \<Rightarrow> opens t | None \<Rightarrow> False),
     max_cyc = env_int e ''MAX_CYC'' 80000,
     wfi_stuck_n = env_int e ''WFI_STUCK_N'' 64,
     wfi_halt_n = env_int e ''WFI_HALT_N'' 4000\<rparr>"

definition driver_of :: "env \<Rightarrow> rx_driver" where
  "driver_of e = new_driver (case e ''UART_RX'' of Some s \<Rightarrow> unescape s | None \<Rightarrow> [])
     (env_int e ''UART_BIT_CYCLES'' 5) (case e ''UART_RX_PACED'' of Some v \<Rightarrow> atoi v \<noteq> 0 | None \<Rightarrow> True)"

definition PARK_N :: nat where "PARK_N = 8"
definition DMEM_WORDS :: nat where "DMEM_WORDS = 4096"

section \<open>What a run keeps\<close>

datatype stall_cause = SC_LOAD_WAIT | SC_LSU_LAUNCH | SC_LSU_MISTRAP | SC_DIV | SC_CSR | SC_WFI | SC_RVC_HOLD
  | SC_RVC_SPAN | SC_REDIRECT | SC_IMEM | SC_DEC_BUBBLE | SC_OTHER

definition causes :: "stall_cause list" where
  "causes = [SC_LOAD_WAIT, SC_LSU_LAUNCH, SC_LSU_MISTRAP, SC_DIV, SC_CSR, SC_WFI, SC_RVC_HOLD,
     SC_RVC_SPAN, SC_REDIRECT, SC_IMEM, SC_DEC_BUBBLE, SC_OTHER]"

record events =
  n_loads :: nat
  n_stores :: nat
  n_divs :: nat
  n_csrs :: nat
  n_redirects :: nat
  pv_div :: bool
  pv_csr :: bool
  pv_redir :: bool
  n_bp_resolved :: nat
  n_bp_predt :: nat
  n_bp_mispred :: nat

record stalls =
  stalled :: nat
  sc_count :: "stall_cause \<Rightarrow> nat"
  counted_cyc :: nat
  post_redirect :: bool

datatype wfi_why = Wake_path_lost | Never_woken

record wfi =
  wfi_wake_seen :: bool
  wfi_since_wake :: nat
  wfi_held :: nat
  wfi_fail_cyc :: int
  wfi_fail_why :: "wfi_why option"

text \<open>The first two stages.\<close>

record front =
  fe_log :: "(int \<times> u32 \<times> u32 \<times> bool) list"
  de_log :: "(int \<times> u32 \<times> u32) list"
  fetched :: nat
  decoded :: nat
  prev_fe_pc :: u32
  have_prev_fe :: bool
  fe_pc_checked :: nat
  fe_pc_ok :: nat
  fe_pc_bad :: nat

datatype ex_line = Wb int u32 u32 | Ex int u32 u32

text \<open>The retire stream; a line of the commit log is pc, register and value.\<close>

record retires =
  ex_log :: "ex_line list"
  commits :: "(u32 \<times> u32 \<times> u32) list"
  retired :: nat
  last_ex_pc :: u32
  last_ex_instr :: u32
  same_ret :: nat
  park_cyc :: int

record sim =
  evs :: events
  sts :: stalls
  wfs :: wfi
  frs :: front
  rets :: retires

definition sim_start :: sim where
  "sim_start = \<lparr>
     evs = \<lparr>n_loads = 0, n_stores = 0, n_divs = 0, n_csrs = 0, n_redirects = 0, pv_div = False, pv_csr = False,
       pv_redir = False, n_bp_resolved = 0, n_bp_predt = 0, n_bp_mispred = 0\<rparr>,
     sts = \<lparr>stalled = 0, sc_count = (\<lambda>_. 0), counted_cyc = 0, post_redirect = False\<rparr>,
     wfs = \<lparr>wfi_wake_seen = False, wfi_since_wake = 0, wfi_held = 0, wfi_fail_cyc = -1, wfi_fail_why = None\<rparr>,
     frs = \<lparr>fe_log = [], de_log = [], fetched = 0, decoded = 0, prev_fe_pc = 0, have_prev_fe = False,
       fe_pc_checked = 0, fe_pc_ok = 0, fe_pc_bad = 0\<rparr>,
     rets = \<lparr>ex_log = [], commits = [], retired = 0, last_ex_pc = 0, last_ex_instr = 0, same_ret = 0, park_cyc = -1\<rparr>\<rparr>"

section \<open>One cycle\<close>

definition count_events :: "low_taps \<Rightarrow> events \<Rightarrow> events" where
  "count_events t s = (let
     ev_mem_done = mem_done t; ev_store_done = store_done t; ev_div = alu_start t; ev_csr = csr_start t;
     ev_redir = branch_valid_o t; ev_bp_res = cf_resolving t; ev_bp_predt = pred_t t; ev_bp_mis = mispredict t;
     s = (if ev_mem_done then s\<lparr>n_loads := n_loads s + 1\<rparr> else s);
     s = (if ev_store_done then s\<lparr>n_stores := n_stores s + 1\<rparr> else s);
     s = (if ev_div \<and> \<not> pv_div s then s\<lparr>n_divs := n_divs s + 1\<rparr> else s);
     s = (if ev_csr \<and> \<not> pv_csr s then s\<lparr>n_csrs := n_csrs s + 1\<rparr> else s);
     s = (if ev_redir \<and> \<not> pv_redir s then s\<lparr>n_redirects := n_redirects s + 1\<rparr> else s);
     s = (if ev_bp_res then s\<lparr>n_bp_resolved := n_bp_resolved s + 1\<rparr> else s);
     s = (if ev_bp_predt \<and> ev_bp_res then s\<lparr>n_bp_predt := n_bp_predt s + 1\<rparr> else s);
     s = (if ev_bp_mis then s\<lparr>n_bp_mispred := n_bp_mispred s + 1\<rparr> else s)
   in s\<lparr>pv_div := ev_div, pv_csr := ev_csr, pv_redir := ev_redir\<rparr>)"

text \<open>What holds the pipe in a cycle.\<close>

definition classify :: "low_taps \<Rightarrow> bool \<Rightarrow> stall_cause" where
  "classify t redirect_pending = (let buf_empty = (count_q t = 0) in
     if mem_running t then SC_LOAD_WAIT
     else if (mem_bus_drive t \<or> mem_capture t) \<and> \<not> store_done t then SC_LSU_LAUNCH
     else if misaligned_trap t then SC_LSU_MISTRAP
     else if div_running t \<or> alu_start t then SC_DIV
     else if csr_start t then SC_CSR
     else if wfi_stall t then SC_WFI
     else if resource_stall t then SC_RVC_HOLD
     else if span_wait t then SC_RVC_SPAN
     else if redirect_pending then SC_REDIRECT
     else if buf_empty then SC_IMEM
     else if \<not> decoded_valid t then SC_DEC_BUBBLE
     else SC_OTHER)"

definition wfi_check :: "config \<Rightarrow> int \<Rightarrow> high_taps \<Rightarrow> wfi \<Rightarrow> wfi" where
  "wfi_check g cyc t s = (let halt = wfi_halt_q t; ipend = int_pending_i t in
     if \<not> halt then s\<lparr>wfi_held := 0, wfi_since_wake := 0, wfi_wake_seen := False\<rparr>
     else (let
       s = s\<lparr>wfi_held := wfi_held s + 1\<rparr>;
       s = (if ipend then s\<lparr>wfi_wake_seen := True\<rparr> else s);
       s = (if wfi_wake_seen s then s\<lparr>wfi_since_wake := wfi_since_wake s + 1\<rparr> else s)
     in if wfi_fail_cyc s < 0 \<and> wfi_wake_seen s \<and> int (wfi_since_wake s) > wfi_stuck_n g
        then s\<lparr>wfi_fail_cyc := cyc, wfi_fail_why := Some Wake_path_lost\<rparr>
        else if wfi_fail_cyc s < 0 \<and> int (wfi_held s) > wfi_halt_n g
        then s\<lparr>wfi_fail_cyc := cyc, wfi_fail_why := Some Never_woken\<rparr> else s))"

definition log_fetch :: "config \<Rightarrow> int \<Rightarrow> high_taps \<Rightarrow> front \<Rightarrow> front" where
  "log_fetch g cyc t s = (if fe_valid t then (let
       pc = fe_pc t; instr = fe_instr t; c = (instr AND 3 \<noteq> 3);
       s = (if instr_log g then s\<lparr>fe_log := fe_log s @ [(cyc, pc, instr, c)]\<rparr> else s);
       s = (if have_prev_fe s then (let s = s\<lparr>fe_pc_checked := fe_pc_checked s + 1\<rparr> in
              if pc = prev_fe_pc s + 4 then s\<lparr>fe_pc_ok := fe_pc_ok s + 1\<rparr> else s\<lparr>fe_pc_bad := fe_pc_bad s + 1\<rparr>)
            else s)
     in s\<lparr>prev_fe_pc := pc, have_prev_fe := True, fetched := fetched s + 1\<rparr>)
   else s)"

definition log_decode :: "config \<Rightarrow> int \<Rightarrow> high_taps \<Rightarrow> front \<Rightarrow> front" where
  "log_decode g cyc t s = (if de_valid t then (let
       s = (if instr_log g then s\<lparr>de_log := de_log s @ [(cyc, de_pc t, de_instr t)]\<rparr> else s)
     in s\<lparr>decoded := decoded s + 1\<rparr>)
   else s)"

text \<open>The histogram: \<open>sc_this\<close> is the cause found in the low half, \<open>ev_redir_now\<close> whether a redirect fired there.\<close>

definition account :: "stall_cause \<Rightarrow> bool \<Rightarrow> high_taps \<Rightarrow> stalls \<Rightarrow> stalls" where
  "account sc_this ev_redir_now t s = (let
     s = s\<lparr>counted_cyc := counted_cyc s + 1\<rparr>;
     s = (if ex_valid t then s\<lparr>post_redirect := False\<rparr>
          else s\<lparr>sc_count := (sc_count s)(sc_this := sc_count s sc_this + 1)\<rparr>)
   in if ev_redir_now then s\<lparr>post_redirect := True\<rparr> else s)"

definition log_wb :: "config \<Rightarrow> int \<Rightarrow> low_taps \<Rightarrow> retires \<Rightarrow> retires" where
  "log_wb g cyc t s = (if wb_en t \<and> instr_log g then s\<lparr>ex_log := ex_log s @ [Wb cyc (wb_addr t) (wb_data t)]\<rparr> else s)"

text \<open>The commit log shows no write to \<open>x0\<close>.\<close>

definition log_commit :: "config \<Rightarrow> low_taps \<Rightarrow> u32 \<Rightarrow> retires \<Rightarrow> retires" where
  "log_commit g lo pc s = (if trace g then (let
       rd = (if wb_en lo \<and> wb_addr lo \<noteq> 0 then wb_addr lo else 0);
       val = (if wb_en lo \<and> wb_addr lo \<noteq> 0 then wb_data lo else 0)
     in s\<lparr>commits := commits s @ [(pc, rd, val)]\<rparr>)
   else s)"

text \<open>Park detection; the flag says that the loop is left.\<close>

definition park_check :: "int \<Rightarrow> u32 \<Rightarrow> u32 \<Rightarrow> retires \<Rightarrow> bool \<times> retires" where
  "park_check cyc pc instr s = (let
     s = (if pc = last_ex_pc s \<and> instr = last_ex_instr s then s\<lparr>same_ret := same_ret s + 1\<rparr> else s\<lparr>same_ret := 1\<rparr>);
     s = s\<lparr>last_ex_pc := pc, last_ex_instr := instr\<rparr>
   in if same_ret s \<ge> PARK_N \<and> park_cyc s < 0 then (True, s\<lparr>park_cyc := cyc\<rparr>) else (False, s))"

definition retire :: "config \<Rightarrow> int \<Rightarrow> low_taps \<Rightarrow> high_taps \<Rightarrow> retires \<Rightarrow> bool \<times> retires" where
  "retire g cyc lo t s = (if ex_valid t then (let
       pc = ex_pc t; instr = ex_instr t;
       s = (if instr_log g then s\<lparr>ex_log := ex_log s @ [Ex cyc pc instr]\<rparr> else s);
       s = s\<lparr>retired := retired s + 1\<rparr>;
       s = log_commit g lo pc s
     in park_check cyc pc instr s)
   else (False, s))"

text \<open>All that the bench does with the samples of a cycle.\<close>

definition sim_cycle :: "config \<Rightarrow> int \<Rightarrow> low_taps \<Rightarrow> high_taps \<Rightarrow> sim \<Rightarrow> bool \<times> sim" where
  "sim_cycle g cyc lo hi s = (let
     s = s\<lparr>evs := count_events lo (evs s)\<rparr>;
     sc_this = classify lo (post_redirect (sts s));
     s = (if unused_dbg_stall hi then s\<lparr>sts := (sts s)\<lparr>stalled := stalled (sts s) + 1\<rparr>\<rparr> else s);
     s = s\<lparr>wfs := wfi_check g cyc hi (wfs s)\<rparr>;
     s = s\<lparr>frs := log_decode g cyc hi (log_fetch g cyc hi (frs s))\<rparr>;
     s = s\<lparr>rets := log_wb g cyc lo (rets s)\<rparr>;
     s = s\<lparr>sts := account sc_this (branch_valid_o lo) hi (sts s)\<rparr>;
     (brk, r) = retire g cyc lo hi (rets s)
   in (brk, s\<lparr>rets := r\<rparr>))"

text \<open>A clock of core and driver, with the two samples.\<close>

definition clock :: "'s core \<Rightarrow> 's \<times> rx_driver \<Rightarrow> sample \<times> 's \<times> rx_driver" where
  "clock c st = (case st of (dut, drv) \<Rightarrow> let
     (rxd, drv) = step (rx_fifo_full c dut) drv;
     dut = eval_low c True rxd dut;
     lo = low_tap c dut;
     dut = eval_high c True rxd dut
   in ((lo, high_tap c dut), dut, drv))"

text \<open>The loop, from cycle \<open>cyc\<close> with \<open>n\<close> cycles to go to the bound.\<close>

fun run_loop :: "config \<Rightarrow> 's core \<Rightarrow> nat \<Rightarrow> int \<Rightarrow> 's \<times> rx_driver \<Rightarrow> sim \<Rightarrow> int \<times> ('s \<times> rx_driver) \<times> sim" where
  "run_loop g c 0 cyc st s = (cyc, st, s)"
| "run_loop g c (Suc n) cyc st s = (let
     ((lo, hi), st) = clock c st;
     (brk, s) = sim_cycle g cyc lo hi s
   in if brk then (cyc, st, s) else run_loop g c n (cyc + 1) st s)"

section \<open>The report\<close>

text \<open>
  A line of the report with its figures. Of a quotient printed both parts are given: \<open>Ipc retired cyc\<close>, and
  \<open>Cpi_bucket\<close> with the count and the retires it is divided by.
\<close>

datatype line =
    Fetched nat int nat nat
  | Decoded nat int
  | Retired_parked nat int int nat
  | Retired_bound nat int int
  | Ipc nat int
  | Stalled nat int
  | No_retire int nat nat
  | Bucket stall_cause nat nat int
  | Total int
  | Events nat nat nat nat nat nat
  | Per_mem_op nat nat nat nat
  | Per_redirect nat nat
  | Internal nat int
  | Cpi_bucket stall_cause nat nat
  | Cpi_below stall_cause
  | Cpi nat nat
  | Density nat nat nat nat
  | Branches nat nat nat int
  | Ras nat nat nat
  | Wfi_fail int "wfi_why option"
  | Wfi_ok
  | Probe u64 u32
  | Probe_outside u64 nat

definition summary :: "config \<Rightarrow> int \<Rightarrow> sim \<Rightarrow> line list" where
  "summary g cyc s =
     [Fetched (fetched (frs s)) cyc (fe_pc_ok (frs s)) (fe_pc_bad (frs s)), Decoded (decoded (frs s)) cyc,
      if park_cyc (rets s) \<ge> 0 then Retired_parked (retired (rets s)) cyc (park_cyc (rets s)) PARK_N
      else Retired_bound (retired (rets s)) cyc (max_cyc g),
      Ipc (retired (rets s)) cyc] @ (if cyc > 0 then [Stalled (stalled (sts s)) cyc] else [])"

definition histogram :: "sim \<Rightarrow> line list" where
  "histogram s = (if counted_cyc (sts s) > 0 then (let
       e = evs s; n = sc_count (sts s);
       nonretire = int (counted_cyc (sts s)) - int (retired (rets s));
       sum = sum_list (map n causes)
     in [No_retire nonretire (counted_cyc (sts s)) (retired (rets s))]
        @ map (\<lambda>i. Bucket i (n i) (counted_cyc (sts s)) nonretire) (filter (\<lambda>i. n i \<noteq> 0) causes)
        @ [Total nonretire, Events (n_loads e + n_stores e) (n_loads e) (n_stores e) (n_divs e) (n_csrs e) (n_redirects e)]
        @ (if n_loads e + n_stores e \<noteq> 0
           then [Per_mem_op (n SC_LOAD_WAIT + n SC_LSU_LAUNCH + n SC_LSU_MISTRAP) (n_loads e + n_stores e) (n SC_LOAD_WAIT) (n_loads e)]
           else [])
        @ (if n_redirects e \<noteq> 0 then [Per_redirect (n SC_REDIRECT) (n_redirects e)] else [])
        @ (if int sum \<noteq> nonretire then [Internal sum nonretire] else []))
   else [])"

text \<open>A bucket is printed as below the resolution when its quotient is less than 0.0005.\<close>

definition cpi :: "'s core \<Rightarrow> 's \<Rightarrow> sim \<Rightarrow> line list" where
  "cpi c dut s = (if retired (rets s) > 0 then (let
       e = evs s; n = sc_count (sts s); r = retired (rets s);
       ras_hits = ras_hit_q c dut; ras_misses = ras_miss_q c dut; ras_tot = ras_hits + ras_misses
     in map (\<lambda>i. if 2000 * n i < r then Cpi_below i else Cpi_bucket i (n i) r) (filter (\<lambda>i. n i \<noteq> 0) causes)
        @ [Cpi (counted_cyc (sts s)) r, Density r (n_redirects e) (n_loads e + n_stores e) (n_divs e)]
        @ (if n_bp_resolved e > 0
           then [Branches (n_bp_resolved e) (n_bp_predt e) (n_bp_mispred e) (int (n_bp_resolved e) - int (n_bp_mispred e))]
             @ (if ras_tot > 0 then [Ras ras_tot ras_hits ras_misses] else [])
           else []))
   else [])"

definition wfi_line :: "sim \<Rightarrow> line" where
  "wfi_line s = (if wfi_fail_cyc (wfs s) \<ge> 0 then Wfi_fail (wfi_fail_cyc (wfs s)) (wfi_fail_why (wfs s)) else Wfi_ok)"

definition probe_word :: "(nat \<Rightarrow> u32) \<Rightarrow> u8 list \<Rightarrow> line" where
  "probe_word mem one = (let addr = strtoul0 one; word = addr div 4 in
     if unat word < DMEM_WORDS then Probe addr (mem (unat word)) else Probe_outside addr DMEM_WORDS)"

text \<open>The list of addresses, split at its commas (\<open>0x2C\<close>).\<close>

function probe_list :: "(nat \<Rightarrow> u32) \<Rightarrow> u8 list \<Rightarrow> line list" where
  "probe_list mem spec = (if spec = [] then [] else (let
     one = takeWhile (\<lambda>ch. ch \<noteq> 0x2C) spec;
     rest = drop 1 (dropWhile (\<lambda>ch. ch \<noteq> 0x2C) spec)
   in (if one = [] then [] else [probe_word mem one]) @ probe_list mem rest))"
  by pat_completeness auto
termination by (relation "measure (length \<circ> snd)") (auto simp: neq_Nil_conv less_Suc_eq_le intro: order.trans [OF diff_le_self length_dropWhile_le])

declare probe_list.simps [simp del]

section \<open>The program\<close>

definition reset_core :: "'s core \<Rightarrow> 's" where
  "reset_core c = ((tick c False True) ^^ 4) (new_top c)"

definition run_sim :: "'s core \<Rightarrow> u8 list list \<Rightarrow> env \<Rightarrow> (u8 list \<Rightarrow> bool) \<Rightarrow> int \<times> ('s \<times> rx_driver) \<times> sim" where
  "run_sim c args e opens = (let g = config_of args e opens in
     run_loop g c (nat (max_cyc g)) 0 (reset_core c, driver_of e) sim_start)"

text \<open>Exit status and report.\<close>

definition sim_main :: "'s core \<Rightarrow> u8 list list \<Rightarrow> env \<Rightarrow> (u8 list \<Rightarrow> bool) \<Rightarrow> int \<times> line list" where
  "sim_main c args e opens = (let
     g = config_of args e opens;
     (cyc, (dut, drv), s) = run_sim c args e opens
   in (if wfi_fail_cyc (wfs s) \<ge> 0 then 1 else 0,
       summary g cyc s @ histogram s @ cpi c dut s @ [wfi_line s]
       @ (case e ''PROBE'' of Some pl \<Rightarrow> probe_list (dmem c dut) pl | None \<Rightarrow> [])))"

end
