(* ===== verification/Sim_Run.thy ===== *)
theory Sim_Run
  imports Sim_Main
begin

text \<open>
  What the run loop of \<open>sim/sim_main.cpp\<close> computes, for every core: each counter, log and verdict is stated as a
  function of the samples of the executed cycles.
\<close>

section \<open>The samples of a run\<close>

text \<open>The samples of the next \<open>n\<close> clocks.\<close>

primrec history :: "'s core \<Rightarrow> nat \<Rightarrow> 's \<times> rx_driver \<Rightarrow> sample list" where
  "history c 0 st = []"
| "history c (Suc n) st = (case clock c st of (x, st') \<Rightarrow> x # history c n st')"

text \<open>The samples of the cycles a run executes.\<close>

definition cycles :: "'s core \<Rightarrow> u8 list list \<Rightarrow> env \<Rightarrow> (u8 list \<Rightarrow> bool) \<Rightarrow> sample list" where
  "cycles c args e opens = (case run_sim c args e opens of (cyc, st, s) \<Rightarrow>
     take (counted_cyc (sts s)) (history c (nat (max_cyc (config_of args e opens))) (reset_core c, driver_of e)))"

text \<open>The books after some samples.\<close>

definition sim_after :: "config \<Rightarrow> sample list \<Rightarrow> sim" where
  "sim_after g xs = fold (\<lambda>(i, lo, hi) s. snd (sim_cycle g (int i) lo hi s)) (enumerate 0 xs) sim_start"

lemma sim_after_Nil [simp]: "sim_after g [] = sim_start"
  by (simp add: sim_after_def)

lemma sim_after_snoc: "sim_after g (xs @ [(lo, hi)]) = snd (sim_cycle g (int (length xs)) lo hi (sim_after g xs))"
  by (simp add: sim_after_def enumerate_append_eq)

lemma sample_induct [case_names Nil snoc]:
  "P [] \<Longrightarrow> (\<And>lo hi xs. P xs \<Longrightarrow> P (xs @ [(lo, hi)])) \<Longrightarrow> P (xs :: sample list)"
  by (rule rev_induct) auto

lemma sim_cycle_parts [simp]:
  "evs (snd (sim_cycle g cyc lo hi s)) = count_events lo (evs s)"
  "wfs (snd (sim_cycle g cyc lo hi s)) = wfi_check g cyc hi (wfs s)"
  "frs (snd (sim_cycle g cyc lo hi s)) = log_decode g cyc hi (log_fetch g cyc hi (frs s))"
  "rets (snd (sim_cycle g cyc lo hi s)) = snd (retire g cyc lo hi (log_wb g cyc lo (rets s)))"
  "fst (sim_cycle g cyc lo hi s) = fst (retire g cyc lo hi (log_wb g cyc lo (rets s)))"
  "sts (snd (sim_cycle g cyc lo hi s)) = account (classify lo (post_redirect (sts s))) (branch_valid_o lo) hi
     (if unused_dbg_stall hi then (sts s)\<lparr>stalled := stalled (sts s) + 1\<rparr> else sts s)"
  by (simp_all add: sim_cycle_def Let_def split: prod.splits)

lemma account_parts [simp]:
  "counted_cyc (account k r hi s) = Suc (counted_cyc s)"
  "post_redirect (account k r hi s) \<longleftrightarrow> r \<or> \<not> ex_valid hi \<and> post_redirect s"
  "sc_count (account k r hi s) = (if ex_valid hi then sc_count s else (sc_count s)(k := sc_count s k + 1))"
  "stalled (account k r hi s) = stalled s"
  by (auto simp: account_def Let_def)

lemma log_wb_parts [simp]:
  "commits (log_wb g cyc lo s) = commits s" "retired (log_wb g cyc lo s) = retired s"
  "last_ex_pc (log_wb g cyc lo s) = last_ex_pc s" "last_ex_instr (log_wb g cyc lo s) = last_ex_instr s"
  "same_ret (log_wb g cyc lo s) = same_ret s" "park_cyc (log_wb g cyc lo s) = park_cyc s"
  by (simp_all add: log_wb_def)

lemma stalled_parts [simp]:
  "counted_cyc (if b then s\<lparr>stalled := n\<rparr> else s) = counted_cyc s"
  "post_redirect (if b then s\<lparr>stalled := n\<rparr> else s) = post_redirect s"
  "sc_count (if b then s\<lparr>stalled := n\<rparr> else s) = sc_count s"
  "stalled (if b then s\<lparr>stalled := n\<rparr> else s) = (if b then n else stalled s)"
  by simp_all

text \<open>What a retire leaves in the commit log.\<close>

definition commit_line :: "sample \<Rightarrow> u32 \<times> u32 \<times> u32" where
  "commit_line x = (ex_pc (snd x), if wb_en (fst x) then wb_addr (fst x) else 0,
     if wb_en (fst x) \<and> wb_addr (fst x) \<noteq> 0 then wb_data (fst x) else 0)"

lemma log_commit_parts [simp]:
  "commits (log_commit g lo pc s) = (if trace g then commits s @ [(pc, if wb_en lo then wb_addr lo else 0,
     if wb_en lo \<and> wb_addr lo \<noteq> 0 then wb_data lo else 0)] else commits s)"
  "retired (log_commit g lo pc s) = retired s" "last_ex_pc (log_commit g lo pc s) = last_ex_pc s"
  "last_ex_instr (log_commit g lo pc s) = last_ex_instr s" "same_ret (log_commit g lo pc s) = same_ret s"
  "park_cyc (log_commit g lo pc s) = park_cyc s"
  by (simp_all add: log_commit_def Let_def)

text \<open>The run of identical retires, one more retire counted.\<close>

definition same_next :: "u32 \<Rightarrow> u32 \<Rightarrow> retires \<Rightarrow> nat" where
  "same_next pc instr s = (if pc = last_ex_pc s \<and> instr = last_ex_instr s then Suc (same_ret s) else 1)"

lemma same_next_updates [simp]:
  "same_next pc instr (s\<lparr>ex_log := l\<rparr>) = same_next pc instr s"
  "same_next pc instr (s\<lparr>retired := n\<rparr>) = same_next pc instr s"
  "same_next pc instr (log_commit g lo pc' s) = same_next pc instr s"
  "same_next pc instr (log_wb g cyc lo s) = same_next pc instr s"
  by (simp_all add: same_next_def)

lemma park_check_parts [simp]:
  "commits (snd (park_check cyc pc instr s)) = commits s" "retired (snd (park_check cyc pc instr s)) = retired s"
  "last_ex_pc (snd (park_check cyc pc instr s)) = pc" "last_ex_instr (snd (park_check cyc pc instr s)) = instr"
  "same_ret (snd (park_check cyc pc instr s)) = same_next pc instr s"
  "park_cyc (snd (park_check cyc pc instr s)) = (if park_cyc s < 0 \<and> PARK_N \<le> same_next pc instr s then cyc else park_cyc s)"
  "fst (park_check cyc pc instr s) \<longleftrightarrow> park_cyc s < 0 \<and> PARK_N \<le> same_next pc instr s"
  by (auto simp: park_check_def same_next_def Let_def)

lemma retire_parts [simp]:
  "retired (snd (retire g cyc lo hi s)) = (if ex_valid hi then Suc (retired s) else retired s)"
  "commits (snd (retire g cyc lo hi s)) = (if ex_valid hi \<and> trace g then commits s @ [commit_line (lo, hi)] else commits s)"
  "last_ex_pc (snd (retire g cyc lo hi s)) = (if ex_valid hi then ex_pc hi else last_ex_pc s)"
  "last_ex_instr (snd (retire g cyc lo hi s)) = (if ex_valid hi then ex_instr hi else last_ex_instr s)"
  "same_ret (snd (retire g cyc lo hi s)) = (if ex_valid hi then same_next (ex_pc hi) (ex_instr hi) s else same_ret s)"
  "park_cyc (snd (retire g cyc lo hi s)) =
     (if ex_valid hi \<and> park_cyc s < 0 \<and> PARK_N \<le> same_next (ex_pc hi) (ex_instr hi) s then cyc else park_cyc s)"
  "fst (retire g cyc lo hi s) \<longleftrightarrow> ex_valid hi \<and> park_cyc s < 0 \<and> PARK_N \<le> same_next (ex_pc hi) (ex_instr hi) s"
  by (cases "ex_valid hi"; cases "instr_log g"; simp add: retire_def commit_line_def Let_def)+

abbreviation (input) parked :: "sim \<Rightarrow> bool" where
  "parked s \<equiv> 0 \<le> park_cyc (rets s)"

lemma cycle_breaks:
  assumes "\<not> parked s" and "0 \<le> cyc"
  shows "fst (sim_cycle g cyc lo hi s) \<longleftrightarrow> parked (snd (sim_cycle g cyc lo hi s))"
  using assms by auto

lemma not_parked: "\<not> 0 \<le> park_cyc (rets sim_start)"
  by (simp add: sim_start_def)

lemma counted_after: "counted_cyc (sts (sim_after g xs)) = length xs"
  by (induction xs rule: sample_induct) (simp_all add: sim_after_snoc sim_start_def)

lemma length_history [simp]: "length (history c n st) = n"
  by (induction n arbitrary: st) (simp_all split: prod.splits)

text \<open>The loop: it executes \<open>m\<close> cycles, the first that parks the last of them.\<close>

lemma run_loop_history:
  assumes "run_loop g c n (int (length xs)) st (sim_after g xs) = (cyc, st', s)" and "\<not> parked (sim_after g xs)"
  shows "\<exists>m\<le>n. s = sim_after g (xs @ take m (history c n st)) \<and> cyc = int (length xs + m) - (if parked s then 1 else 0)
     \<and> (\<not> parked s \<longrightarrow> m = n) \<and> (\<forall>j<m. \<not> parked (sim_after g (xs @ take j (history c n st))))"
  using assms
proof (induction n arbitrary: xs st)
  case 0
  then have "s = sim_after g xs" "cyc = int (length xs)" by simp_all
  then show ?case using 0(2) by (intro exI [of _ 0]) simp
next
  case (Suc n)
  obtain lo hi st1 where k: "clock c st = ((lo, hi), st1)" by (metis prod.collapse)
  let ?s = "sim_after g (xs @ [(lo, hi)])"
  have brk: "fst (sim_cycle g (int (length xs)) lo hi (sim_after g xs)) \<longleftrightarrow> parked ?s"
    using cycle_breaks [OF Suc.prems(2), of "int (length xs)" g lo hi] by (simp only: sim_after_snoc of_nat_0_le_iff simp_thms)
  have cycle: "sim_cycle g (int (length xs)) lo hi (sim_after g xs) = (parked ?s, ?s)"
    by (rule prod_eqI) (simp_all only: brk fst_conv snd_conv sim_after_snoc)
  have loop: "run_loop g c (Suc n) (int (length xs)) st (sim_after g xs)
      = (if parked ?s then (int (length xs), st1, ?s) else run_loop g c n (int (length xs) + 1) st1 ?s)"
    unfolding run_loop.simps k Let_def prod.case cycle by (rule refl)
  show ?case
  proof (cases "parked ?s")
    case True
    then have "s = ?s" "cyc = int (length xs)" using Suc.prems(1) unfolding loop by simp_all
    then show ?thesis using True k Suc.prems(2) by (intro exI [of _ "Suc 0"]) simp
  next
    case False
    then have "run_loop g c n (int (length (xs @ [(lo, hi)]))) st1 ?s = (cyc, st', s)"
      using Suc.prems(1) unfolding loop by (simp add: add.commute)
    from Suc.IH [OF this False] obtain m where m: "m \<le> n" "s = sim_after g ((xs @ [(lo, hi)]) @ take m (history c n st1))"
      "cyc = int (length (xs @ [(lo, hi)]) + m) - (if parked s then 1 else 0)" "\<not> parked s \<longrightarrow> m = n"
      "\<forall>j<m. \<not> parked (sim_after g ((xs @ [(lo, hi)]) @ take j (history c n st1)))" by blast
    have "\<forall>j<Suc m. \<not> parked (sim_after g (xs @ take j (history c (Suc n) st)))"
    proof (intro allI impI)
      fix j assume "j < Suc m"
      then show "\<not> parked (sim_after g (xs @ take j (history c (Suc n) st)))" using m(5) Suc.prems(2) k by (cases j) simp_all
    qed
    moreover have "s = sim_after g (xs @ take (Suc m) (history c (Suc n) st))" using m(2) k by simp
    moreover have "cyc = int (length xs + Suc m) - (if parked s then 1 else 0)" using m(3) by (simp only: length_append list.size)
    moreover have "Suc m \<le> Suc n" "\<not> parked s \<longrightarrow> Suc m = Suc n" using m(1,4) by simp_all
    ultimately show ?thesis by blast
  qed
qed

lemma run_after:
  assumes "run_sim c args e opens = (cyc, st, s)"
  defines "g \<equiv> config_of args e opens" and "xs \<equiv> cycles c args e opens"
  shows "s = sim_after g xs" and "cyc = int (length xs) - (if parked s then 1 else 0)"
    and "\<not> parked s \<Longrightarrow> length xs = nat (max_cyc g)" and "\<And>j. j < length xs \<Longrightarrow> \<not> parked (sim_after g (take j xs))"
    and "length xs \<le> nat (max_cyc g)"
proof -
  let ?H = "history c (nat (max_cyc g)) (reset_core c, driver_of e)"
  have "run_loop g c (nat (max_cyc g)) (int (length [])) (reset_core c, driver_of e) (sim_after g []) = (cyc, st, s)"
    using assms(1) by (simp add: run_sim_def g_def Let_def)
  from run_loop_history [OF this, unfolded sim_after_Nil append_Nil list.size(3) add_0, OF not_parked]
  obtain m where m: "m \<le> nat (max_cyc g)" "s = sim_after g (take m ?H)"
    "cyc = int m - (if parked s then 1 else 0)" "\<not> parked s \<longrightarrow> m = nat (max_cyc g)"
    "\<forall>j<m. \<not> parked (sim_after g (take j ?H))" by blast
  have xs: "xs = take m ?H" using m(1,2) assms(1) by (simp add: xs_def cycles_def g_def counted_after)
  have len: "length xs = m" using m(1) by (simp add: xs)
  show "s = sim_after g xs" using m(2) xs by simp
  show "cyc = int (length xs) - (if parked s then 1 else 0)" using m(3) len by simp
  show "length xs = nat (max_cyc g)" if "\<not> parked s" using m(4) len that by simp
  show "length xs \<le> nat (max_cyc g)" using m(1) len by simp
  show "\<not> parked (sim_after g (take j xs))" if "j < length xs" for j
  proof -
    have "take j xs = take j ?H" using that len by (simp add: xs)
    then show ?thesis using m(5) that len by simp
  qed
qed

section \<open>The stall histogram\<close>












definition retired_samples :: "sample list \<Rightarrow> sample list" where
  "retired_samples xs = filter (\<lambda>x. ex_valid (snd x)) xs"

lemma retired_samples_snoc [simp]:
  "retired_samples [] = []"
  "retired_samples (xs @ [x]) = retired_samples xs @ (if ex_valid (snd x) then [x] else [])"
  by (simp_all add: retired_samples_def)

lemma retired_after: "retired (rets (sim_after g xs)) = length (retired_samples xs)"
  by (induction xs rule: sample_induct) (auto simp: sim_after_snoc sim_start_def)

lemma sum_count_update: "sum_list (map (n(k := Suc (n k))) causes) = Suc (sum_list (map n causes))"
  by (cases k) (simp_all add: causes_def)

lemma buckets_after:
  "retired (rets (sim_after g xs)) + sum_list (map (sc_count (sts (sim_after g xs))) causes) = length xs"
  by (induction xs rule: sample_induct) (auto simp: sim_after_snoc sim_start_def causes_def [symmetric] sum_count_update simp flip: fun_upd_def)

text \<open>Lines that are not in the report.\<close>

lemma probe_lines: "x \<in> set (probe_list mem spec) \<Longrightarrow> (\<exists>a v. x = Probe a v) \<or> (\<exists>a n. x = Probe_outside a n)"
proof (induction mem spec rule: probe_list.induct)
  case (1 mem spec)
  then show ?case
    by (subst (asm) probe_list.simps) (auto simp: Let_def probe_word_def split: if_splits)
qed

lemma cpi_lines: "x \<in> set (cpi c dut s) \<Longrightarrow> \<not> (\<exists>n k. x = Internal n k) \<and> x \<noteq> Wfi_ok \<and> \<not> (\<exists>k w. x = Wfi_fail k w)"
  by (auto simp: cpi_def Let_def split: if_splits)

lemma summary_lines: "x \<in> set (summary g cyc s) \<Longrightarrow> \<not> (\<exists>n k. x = Internal n k) \<and> x \<noteq> Wfi_ok \<and> \<not> (\<exists>k w. x = Wfi_fail k w)"
  by (auto simp: summary_def split: if_splits)

lemma histogram_lines:
  "x \<in> set (histogram s) \<Longrightarrow> x \<noteq> Wfi_ok \<and> \<not> (\<exists>k w. x = Wfi_fail k w)
     \<and> ((\<exists>n k. x = Internal n k) \<longrightarrow> int (sum_list (map (sc_count (sts s)) causes)) \<noteq> int (counted_cyc (sts s)) - int (retired (rets s)))"
  by (auto simp: histogram_def Let_def split: if_splits)

text \<open>C6: the books of a run balance, whatever the core does: the cycles counted are the retires plus the buckets of the
  histogram, the bench never prints its internal warning that they are not, and the number of cycles in its report is
  that count, or one less when the run ended because the core parked.\<close>

theorem run_balances:
  "case run_sim c args e opens of (cyc, st, s) \<Rightarrow>
     counted_cyc (sts s) = retired (rets s) + sum_list (map (sc_count (sts s)) causes)
     \<and> cyc = int (counted_cyc (sts s)) - (if 0 \<le> park_cyc (rets s) then 1 else 0)
     \<and> \<not> (\<exists>n k. Internal n k \<in> set (snd (sim_main c args e opens)))"
proof -
  obtain cyc dut drv s where run: "run_sim c args e opens = (cyc, (dut, drv), s)" by (metis prod.collapse)
  let ?xs = "cycles c args e opens"
  note after = run_after [OF run]
  have sum: "retired (rets s) + sum_list (map (sc_count (sts s)) causes) = length ?xs" "counted_cyc (sts s) = length ?xs"
    unfolding after(1) by (rule buckets_after, rule counted_after)
  have no: "Internal n k \<notin> set (summary g cyc s)" "Internal n k \<notin> set (cpi c dut s)" "Internal n k \<noteq> wfi_line s"
      "Internal n k \<notin> set (probe_list mem spec)" "Internal n k \<notin> set (histogram s)" for n k g mem spec
    using summary_lines [of "Internal n k"] cpi_lines [of "Internal n k"] probe_lines [of "Internal n k"]
      histogram_lines [of "Internal n k" s] sum by (auto simp: wfi_line_def)
  have "\<not> (\<exists>n k. Internal n k \<in> set (snd (sim_main c args e opens)))"
    by (cases "e ''PROBE''") (simp_all add: sim_main_def run no Let_def)
  then show ?thesis using sum after(2) by (simp add: run)
qed


section \<open>Parking\<close>

definition retire_stream :: "sample list \<Rightarrow> (u32 \<times> u32) list" where
  "retire_stream xs = map (\<lambda>x. (ex_pc (snd x), ex_instr (snd x))) (retired_samples xs)"

text \<open>How often the last element of a list is repeated at its end.\<close>

definition tail_run :: "'a list \<Rightarrow> nat" where
  "tail_run xs = (case rev xs of [] \<Rightarrow> 0 | y # ys \<Rightarrow> Suc (length (takeWhile (\<lambda>z. z = y) ys)))"

lemma tail_run_snoc: "tail_run (xs @ [x]) = (if xs \<noteq> [] \<and> last xs = x then Suc (tail_run xs) else 1)"
  by (cases xs rule: rev_cases) (auto simp: tail_run_def)

lemma tail_run_single [simp]: "tail_run [] = 0" "tail_run [x] = 1"
  by (simp_all add: tail_run_def)

definition spinning :: "sample list \<Rightarrow> bool" where
  "spinning xs \<longleftrightarrow> PARK_N \<le> tail_run (retire_stream xs)"

lemma retire_stream_snoc:
  "retire_stream (xs @ [(lo, hi)]) = retire_stream xs @ (if ex_valid hi then [(ex_pc hi, ex_instr hi)] else [])"
  by (simp add: retire_stream_def)

definition stream_state :: "sim \<Rightarrow> (u32 \<times> u32) list \<Rightarrow> bool" where
  "stream_state s rs \<longleftrightarrow> same_ret (rets s) = tail_run rs
     \<and> (last_ex_pc (rets s), last_ex_instr (rets s)) = (if rs = [] then (0, 0) else last rs)"

lemma stream_after: "stream_state (sim_after g xs) (retire_stream xs)"
proof (induction xs rule: sample_induct)
  case (snoc lo hi xs)
  then show ?case
    by (cases "retire_stream xs = []")
      (auto simp: stream_state_def retire_stream_snoc tail_run_snoc sim_after_snoc same_next_def)
qed (simp add: stream_state_def retire_stream_def tail_run_def sim_start_def)

lemma park_after:
  "\<not> (\<exists>j<length xs. spinning (take j xs)) \<Longrightarrow> park_cyc (rets (sim_after g xs)) = (if spinning xs then int (length xs) - 1 else -1)"
proof (induction xs rule: sample_induct)
  case Nil
  show ?case by (simp add: sim_start_def spinning_def retire_stream_def PARK_N_def)
next
  case (snoc lo hi xs)
  have no: "\<not> spinning (take j xs)" if "j \<le> length xs" for j using snoc.prems that by (auto simp: less_Suc_eq_le)
  then have park: "park_cyc (rets (sim_after g xs)) = -1" using snoc.IH no [of "length xs"] by (auto simp: less_imp_le)
  let ?s = "sim_after g (xs @ [(lo, hi)])"
  have run: "same_ret (rets ?s) = tail_run (retire_stream (xs @ [(lo, hi)]))"
    using stream_after [of g "xs @ [(lo, hi)]"] by (simp add: stream_state_def)
  show ?case
  proof (cases "ex_valid hi")
    case True
    then have "same_ret (rets ?s) = same_next (ex_pc hi) (ex_instr hi) (rets (sim_after g xs))" by (simp add: sim_after_snoc)
    then show ?thesis using True park run by (simp add: sim_after_snoc spinning_def)
  next
    case False
    then have "\<not> spinning (xs @ [(lo, hi)])" using no [of "length xs"] by (simp add: spinning_def retire_stream_snoc)
    then show ?thesis using False park by (simp add: sim_after_snoc)
  qed
qed

text \<open>C7: park detection. The run stops in the first cycle after which the last \<open>PARK_N\<close> = 8 retires have the same pc
  and instruction, however many cycles without a retire lie between them, and \<open>park_cyc\<close> is that cycle; if there is no
  such cycle, it runs to the bound \<open>max_cyc\<close> and reports no park.\<close>

theorem park_detected:
  "case run_sim c args e opens of (cyc, st, s) \<Rightarrow> let xs = cycles c args e opens in
     \<not> (\<exists>j<length xs. spinning (take j xs))
     \<and> (if spinning xs then park_cyc (rets s) = int (length xs) - 1
        else park_cyc (rets s) = -1 \<and> length xs = nat (max_cyc (config_of args e opens)))"
proof -
  obtain cyc st s where run: "run_sim c args e opens = (cyc, st, s)" by (metis prod.collapse)
  let ?xs = "cycles c args e opens"
  let ?g = "config_of args e opens"
  note after = run_after [OF run]
  have first: "\<not> (\<exists>j<length ?xs. spinning (take j ?xs))"
  proof
    assume "\<exists>j<length ?xs. spinning (take j ?xs)"
    then obtain j where j: "j < length ?xs \<and> spinning (take j ?xs)" "\<forall>i<j. \<not> (i < length ?xs \<and> spinning (take i ?xs))"
      using exists_least_iff [of "\<lambda>j. j < length ?xs \<and> spinning (take j ?xs)"] by blast
    have "0 < j"
    proof (rule ccontr)
      assume "\<not> 0 < j"
      then show False using j(1) by (simp add: spinning_def retire_stream_def PARK_N_def)
    qed
    have "\<not> (\<exists>i<length (take j ?xs). spinning (take i (take j ?xs)))" using j by auto
    from park_after [OF this, of ?g] have "0 \<le> park_cyc (rets (sim_after ?g (take j ?xs)))" using j(1) \<open>0 < j\<close> by simp
    then show False using after(4) [of j] j(1) by simp
  qed
  have park: "park_cyc (rets s) = (if spinning ?xs then int (length ?xs) - 1 else -1)"
    using park_after [OF first, of ?g] after(1) by simp
  show ?thesis using first park after(3) by (simp add: run Let_def)
qed

section \<open>The WFI checks\<close>

text \<open>How long the halt has been held, and how long of that since an interrupt was first pending.\<close>

definition halted :: "sample list \<Rightarrow> sample list" where
  "halted xs = takeWhile (\<lambda>x. wfi_halt_q (snd x)) (rev xs)"

definition halt_held :: "sample list \<Rightarrow> nat" where
  "halt_held xs = length (halted xs)"

definition held_since_wake :: "sample list \<Rightarrow> nat" where
  "held_since_wake xs = length (dropWhile (\<lambda>x. \<not> int_pending_i (snd x)) (rev (halted xs)))"

definition wfi_bad :: "config \<Rightarrow> sample list \<Rightarrow> wfi_why option" where
  "wfi_bad g xs = (if 0 < held_since_wake xs \<and> wfi_stuck_n g < int (held_since_wake xs) then Some Wake_path_lost
     else if 0 < halt_held xs \<and> wfi_halt_n g < int (halt_held xs) then Some Never_woken else None)"

lemma halted_snoc: "halted (xs @ [(lo, hi)]) = (if wfi_halt_q hi then (lo, hi) # halted xs else [])"
  by (simp add: halted_def)

lemma held_since_wake_snoc:
  "held_since_wake (xs @ [(lo, hi)]) =
     (if wfi_halt_q hi then if 0 < held_since_wake xs \<or> int_pending_i hi then Suc (held_since_wake xs) else 0 else 0)"
  by (auto simp: held_since_wake_def halted_snoc dropWhile_append dropWhile_eq_Nil_conv)

definition wfi_state :: "config \<Rightarrow> sample list \<Rightarrow> wfi \<Rightarrow> bool" where
  "wfi_state g xs w \<longleftrightarrow> wfi_held w = halt_held xs \<and> wfi_since_wake w = held_since_wake xs
     \<and> (wfi_wake_seen w \<longleftrightarrow> 0 < held_since_wake xs)"

lemma wfi_check_state:
  assumes "wfi_state g xs w"
  shows "wfi_state g (xs @ [(lo, hi)]) (wfi_check g cyc hi w)"
    and "0 \<le> wfi_fail_cyc w \<Longrightarrow> wfi_fail_cyc (wfi_check g cyc hi w) = wfi_fail_cyc w \<and> wfi_fail_why (wfi_check g cyc hi w) = wfi_fail_why w"
    and "wfi_fail_cyc w < 0 \<Longrightarrow> (wfi_fail_cyc (wfi_check g cyc hi w), wfi_fail_why (wfi_check g cyc hi w)) =
      (case wfi_bad g (xs @ [(lo, hi)]) of None \<Rightarrow> (wfi_fail_cyc w, wfi_fail_why w) | Some why \<Rightarrow> (cyc, Some why))"
  using assms
  by (auto simp: wfi_state_def wfi_check_def wfi_bad_def Let_def halt_held_def halted_snoc held_since_wake_snoc)

text \<open>The number of cycles after which a check first fails.\<close>

definition first_bad :: "config \<Rightarrow> sample list \<Rightarrow> nat option" where
  "first_bad g xs = find (\<lambda>j. wfi_bad g (take j xs) \<noteq> None) [0..<Suc (length xs)]"

lemma find_snoc: "find P (ys @ [y]) = (case find P ys of None \<Rightarrow> if P y then Some y else None | Some z \<Rightarrow> Some z)"
  by (induction ys) auto

lemma find_hit: "find P ys = Some y \<Longrightarrow> y \<in> set ys \<and> P y"
  by (induction ys) (auto split: if_splits)

lemma first_bad_snoc:
  "first_bad g (xs @ [x]) = (case first_bad g xs of None \<Rightarrow> if wfi_bad g (xs @ [x]) \<noteq> None then Some (Suc (length xs)) else None
     | Some j \<Rightarrow> Some j)"
proof -
  have old: "find (\<lambda>j. wfi_bad g (take j (xs @ [x])) \<noteq> None) [0..<Suc (length xs)] = first_bad g xs"
    unfolding first_bad_def by (rule find_cong) (auto simp: less_Suc_eq_le)
  have upt: "[0..<Suc (length (xs @ [x]))] = [0..<Suc (length xs)] @ [Suc (length xs)]" by simp
  have "take (Suc (length xs)) (xs @ [x]) = xs @ [x]" by simp
  then show ?thesis unfolding first_bad_def [of g "xs @ [x]"] upt find_snoc old by (simp only:)
qed

lemma first_bad_take: "first_bad g xs = Some j \<Longrightarrow> 0 < j \<and> j \<le> length xs \<and> wfi_bad g (take j xs) \<noteq> None"
proof -
  assume "first_bad g xs = Some j"
  from find_hit [OF this [unfolded first_bad_def]] have "j \<le> length xs \<and> wfi_bad g (take j xs) \<noteq> None" by auto
  moreover have "wfi_bad g [] = None" by (simp add: wfi_bad_def halt_held_def held_since_wake_def halted_def)
  ultimately show ?thesis by (cases j) auto
qed

lemma wfi_after:
  "wfi_state g xs (wfs (sim_after g xs)) \<and> (wfi_fail_cyc (wfs (sim_after g xs)), wfi_fail_why (wfs (sim_after g xs))) =
     (case first_bad g xs of None \<Rightarrow> (-1, None) | Some j \<Rightarrow> (int j - 1, wfi_bad g (take j xs)))"
proof (induction xs rule: sample_induct)
  case Nil
  have "first_bad g [] = None" using first_bad_take [of g "[]"] by (cases "first_bad g []") auto
  then show ?case by (simp add: sim_start_def wfi_state_def halt_held_def held_since_wake_def halted_def)
next
  case (snoc lo hi xs)
  let ?w = "wfs (sim_after g xs)"
  let ?v = "wfi_check g (int (length xs)) hi ?w"
  have step: "wfs (sim_after g (xs @ [(lo, hi)])) = ?v" by (simp add: sim_after_snoc)
  have state: "wfi_state g xs ?w" using snoc.IH by (rule conjunct1)
  note check = wfi_check_state [OF state]
  show ?case
  proof (cases "first_bad g xs")
    case None
    then have "wfi_fail_cyc ?w = -1" "wfi_fail_why ?w = None" using snoc.IH by simp_all
    then show ?thesis unfolding step first_bad_snoc using None check(1) check(3) [where cyc = "int (length xs)" and hi = hi and lo = lo]
      by (auto split: option.splits)
  next
    case (Some j)
    then have "wfi_fail_cyc ?w = int j - 1" "wfi_fail_why ?w = wfi_bad g (take j xs)" using snoc.IH by simp_all
    then show ?thesis unfolding step first_bad_snoc using Some check(1) check(2) [where cyc = "int (length xs)" and hi = hi] first_bad_take [OF Some]
      by simp
  qed
qed

text \<open>C8: the verdict on WFI. The exit status is 1 exactly when after some executed cycle the halt has been held for more
  than \<open>WFI_HALT_N\<close> cycles, or for more than \<open>WFI_STUCK_N\<close> cycles since an interrupt was first pending during it; the
  report then names the first such cycle and the check that failed in it, the second of the two winning.\<close>

theorem wfi_verdict:
  "let g = config_of args e opens; xs = cycles c args e opens; (status, report) = sim_main c args e opens in
   case first_bad g xs of
     None \<Rightarrow> status = 0 \<and> Wfi_ok \<in> set report
   | Some j \<Rightarrow> status = 1 \<and> Wfi_fail (int j - 1) (wfi_bad g (take j xs)) \<in> set report \<and> Wfi_ok \<notin> set report"
proof -
  obtain cyc dut drv s where run: "run_sim c args e opens = (cyc, (dut, drv), s)" by (metis prod.collapse)
  let ?xs = "cycles c args e opens"
  let ?g = "config_of args e opens"
  have fail: "(wfi_fail_cyc (wfs s), wfi_fail_why (wfs s)) =
      (case first_bad ?g ?xs of None \<Rightarrow> (-1, None) | Some j \<Rightarrow> (int j - 1, wfi_bad ?g (take j ?xs)))"
    using wfi_after [of ?g ?xs] run_after(1) [OF run] by simp
  have no: "Wfi_ok \<notin> set (summary g cyc s)" "Wfi_ok \<notin> set (cpi c dut s)" "Wfi_ok \<notin> set (probe_list mem spec)"
      "Wfi_ok \<notin> set (histogram s)" for g mem spec
    using summary_lines [of "Wfi_ok"] cpi_lines [of "Wfi_ok"] probe_lines [of "Wfi_ok"] histogram_lines [of "Wfi_ok" s]
    by auto
  have main: "sim_main c args e opens = (if wfi_fail_cyc (wfs s) \<ge> 0 then 1 else 0,
       summary ?g cyc s @ histogram s @ cpi c dut s @ [wfi_line s]
       @ (case e ''PROBE'' of Some pl \<Rightarrow> probe_list (dmem c dut) pl | None \<Rightarrow> []))"
    by (simp add: sim_main_def run Let_def)
  show ?thesis
  proof (cases "first_bad ?g ?xs")
    case None
    then show ?thesis using fail by (simp add: main wfi_line_def Let_def)
  next
    case (Some j)
    then have "0 < j" using first_bad_take by blast
    then show ?thesis using fail Some no by (simp add: main wfi_line_def Let_def split: option.splits)
  qed
qed

text \<open>A halt that is held long and then woken in time is reported as never woken.\<close>

lemma late_wake_blamed:
  assumes "wfi_halt_n g = int n" and "1 \<le> wfi_stuck_n g"
    and "wfi_halt_q q" and "\<not> int_pending_i q" and "wfi_halt_q w" and "int_pending_i w"
  shows "held_since_wake (replicate n (lo, q) @ [(lo, w)]) = 1"
    and "wfi_bad g (replicate n (lo, q) @ [(lo, w)]) = Some Never_woken"
proof -
  have h: "halted (replicate n (lo, q) @ [(lo, w)]) = (lo, w) # replicate n (lo, q)"
    using assms by (simp add: halted_snoc) (simp add: halted_def takeWhile_eq_all_conv)
  have "held_since_wake (replicate n (lo, q)) = 0"
    using assms by (simp add: held_since_wake_def halted_def dropWhile_eq_Nil_conv takeWhile_eq_all_conv)
  then show s: "held_since_wake (replicate n (lo, q) @ [(lo, w)]) = 1" using assms by (simp add: held_since_wake_snoc)
  show "wfi_bad g (replicate n (lo, q) @ [(lo, w)]) = Some Never_woken" using assms s by (simp add: wfi_bad_def halt_held_def h)
qed

section \<open>The commit log\<close>

lemma commits_after: "commits (rets (sim_after g xs)) = (if trace g then map commit_line (retired_samples xs) else [])"
  by (induction xs rule: sample_induct) (auto simp: sim_after_snoc sim_start_def)

text \<open>the commit log has one line for each retire, in order, with the pc of the retire and the register write
  sampled before its edge; a write to \<open>x0\<close> leaves no trace: no line shows a value for register 0.\<close>

theorem commit_log:
  "case run_sim c args e opens of (cyc, st, s) \<Rightarrow>
     commits (rets s) = (if trace (config_of args e opens) then map commit_line (retired_samples (cycles c args e opens)) else [])
     \<and> \<not> (\<exists>pc val. (pc, 0, val) \<in> set (commits (rets s)) \<and> val \<noteq> 0)
     \<and> retired (rets s) = length (retired_samples (cycles c args e opens))"
proof -
  obtain cyc st s where run: "run_sim c args e opens = (cyc, st, s)" by (metis prod.collapse)
  have s: "s = sim_after (config_of args e opens) (cycles c args e opens)" by (rule run_after(1) [OF run])
  show ?thesis unfolding run prod.case s commits_after retired_after by (auto simp: commit_line_def split: if_splits)
qed

section \<open>Event counters\<close>

definition count_high :: "(low_taps \<Rightarrow> bool) \<Rightarrow> sample list \<Rightarrow> nat" where
  "count_high f xs = length (filter (\<lambda>x. f (fst x)) xs)"

definition high_last :: "(low_taps \<Rightarrow> bool) \<Rightarrow> sample list \<Rightarrow> bool" where
  "high_last f xs \<longleftrightarrow> xs \<noteq> [] \<and> f (fst (last xs))"

text \<open>The cycles in which a signal is high and was not in the cycle before.\<close>

definition rising_edges :: "(low_taps \<Rightarrow> bool) \<Rightarrow> sample list \<Rightarrow> nat" where
  "rising_edges f xs = length (filter (\<lambda>i. f (fst (xs ! i)) \<and> \<not> high_last f (take i xs)) [0..<length xs])"

lemma count_high_snoc [simp]:
  "count_high f [] = 0" "count_high f (xs @ [x]) = count_high f xs + (if f (fst x) then 1 else 0)"
  by (simp_all add: count_high_def)

lemma high_last_snoc [simp]: "\<not> high_last f []" "high_last f (xs @ [x]) \<longleftrightarrow> f (fst x)"
  by (simp_all add: high_last_def)

lemma rising_edges_snoc [simp]:
  "rising_edges f [] = 0"
  "rising_edges f (xs @ [x]) = rising_edges f xs + (if f (fst x) \<and> \<not> high_last f xs then 1 else 0)"
proof -
  have "filter (\<lambda>i. f (fst ((xs @ [x]) ! i)) \<and> \<not> high_last f (take i (xs @ [x]))) [0..<length xs]
      = filter (\<lambda>i. f (fst (xs ! i)) \<and> \<not> high_last f (take i xs)) [0..<length xs]"
    by (rule filter_cong) (simp_all add: nth_append)
  then show "rising_edges f (xs @ [x]) = rising_edges f xs + (if f (fst x) \<and> \<not> high_last f xs then 1 else 0)"
    by (simp add: rising_edges_def)
qed (simp add: rising_edges_def)

text \<open>The counters of some samples.\<close>

definition events_of :: "sample list \<Rightarrow> events" where
  "events_of xs = \<lparr>n_loads = count_high mem_done xs, n_stores = count_high store_done xs, n_divs = rising_edges alu_start xs,
     n_csrs = rising_edges csr_start xs, n_redirects = rising_edges branch_valid_o xs, pv_div = high_last alu_start xs,
     pv_csr = high_last csr_start xs, pv_redir = high_last branch_valid_o xs, n_bp_resolved = count_high cf_resolving xs,
     n_bp_predt = count_high (\<lambda>t. pred_t t \<and> cf_resolving t) xs, n_bp_mispred = count_high mispredict xs\<rparr>"

lemma bumps:
  "(if b then e\<lparr>n_loads := n_loads e + 1\<rparr> else e) = e\<lparr>n_loads := n_loads e + (if b then 1 else 0)\<rparr>"
  "(if b then e\<lparr>n_stores := n_stores e + 1\<rparr> else e) = e\<lparr>n_stores := n_stores e + (if b then 1 else 0)\<rparr>"
  "(if b then e\<lparr>n_divs := n_divs e + 1\<rparr> else e) = e\<lparr>n_divs := n_divs e + (if b then 1 else 0)\<rparr>"
  "(if b then e\<lparr>n_csrs := n_csrs e + 1\<rparr> else e) = e\<lparr>n_csrs := n_csrs e + (if b then 1 else 0)\<rparr>"
  "(if b then e\<lparr>n_redirects := n_redirects e + 1\<rparr> else e) = e\<lparr>n_redirects := n_redirects e + (if b then 1 else 0)\<rparr>"
  "(if b then e\<lparr>n_bp_resolved := n_bp_resolved e + 1\<rparr> else e) = e\<lparr>n_bp_resolved := n_bp_resolved e + (if b then 1 else 0)\<rparr>"
  "(if b then e\<lparr>n_bp_predt := n_bp_predt e + 1\<rparr> else e) = e\<lparr>n_bp_predt := n_bp_predt e + (if b then 1 else 0)\<rparr>"
  "(if b then e\<lparr>n_bp_mispred := n_bp_mispred e + 1\<rparr> else e) = e\<lparr>n_bp_mispred := n_bp_mispred e + (if b then 1 else 0)\<rparr>"
  by simp_all

lemma count_events_after: "evs (sim_after g xs) = events_of xs"
proof (induction xs rule: sample_induct)
  case (snoc lo hi xs)
  then show ?case by (simp add: sim_after_snoc events_of_def count_events_def [unfolded bumps] Let_def)
qed (simp add: sim_start_def events_of_def)

text \<open>the event counters. Loads and stores are the cycles in which one completes, divisions, CSR reads and redirects
  the rising edges of their signals, and the branch predictor's counters, deliberately, the cycles in which theirs are
  high; if a mispredict implies a resolving branch, the mispredicts taken from the resolved branches in the report leave
  no negative number.\<close>

theorem events_counted:
  assumes "\<forall>x\<in>set (cycles c args e opens). mispredict (fst x) \<longrightarrow> cf_resolving (fst x)"
  shows "case run_sim c args e opens of (cyc, st, s) \<Rightarrow> let xs = cycles c args e opens in
     evs s = events_of xs \<and> n_bp_predt (evs s) \<le> n_bp_resolved (evs s) \<and> n_bp_mispred (evs s) \<le> n_bp_resolved (evs s)"
proof -
  obtain cyc st s where run: "run_sim c args e opens = (cyc, st, s)" by (metis prod.collapse)
  have mono: "count_high f xs \<le> count_high h xs" if "\<forall>x\<in>set xs. f (fst x) \<longrightarrow> h (fst x)" for f h and xs :: "sample list"
    using that by (induction xs) (auto simp: count_high_def)
  show ?thesis
    using mono [OF assms] mono [of "cycles c args e opens" "\<lambda>t. pred_t t \<and> cf_resolving t" cf_resolving]
    by (simp add: run run_after(1) [OF run] count_events_after events_of_def Let_def)
qed

text \<open>A core whose taps never change.\<close>

definition fixed_core :: "low_taps \<Rightarrow> high_taps \<Rightarrow> unit core" where
  "fixed_core lo hi = \<lparr>new_top = (), eval_low = (\<lambda>_ _ u. u), eval_high = (\<lambda>_ _ u. u), rx_fifo_full = (\<lambda>_. False),
     low_tap = (\<lambda>_. lo), high_tap = (\<lambda>_. hi), dmem = (\<lambda>_ _. 0), ras_hit_q = (\<lambda>_. 0), ras_miss_q = (\<lambda>_. 0)\<rparr>"

definition branch_taps :: low_taps where
  "branch_taps = \<lparr>wb_en = False, wb_addr = 0, wb_data = 0, mem_done = False, store_done = False, alu_start = False,
     csr_start = False, branch_valid_o = True, cf_resolving = True, pred_t = False, mispredict = True, count_q = 0,
     mem_running = False, mem_bus_drive = False, mem_capture = False, misaligned_trap = False, div_running = False,
     wfi_stall = False, resource_stall = False, span_wait = False, decoded_valid = False\<rparr>"

definition loop_taps :: high_taps where
  "loop_taps = \<lparr>unused_dbg_stall = False, wfi_halt_q = False, int_pending_i = False, fe_valid = True, fe_pc = 0x40,
     fe_instr = 0x6F, de_valid = True, de_pc = 0x40, de_instr = 0x6F, ex_valid = True, ex_pc = 0x40, ex_instr = 0x6F\<rparr>"

lemma fixed_core_history: "set (history (fixed_core lo hi) n st) \<subseteq> {(lo, hi)}"
proof (induction n arbitrary: st)
  case (Suc n)
  have "fst (clock (fixed_core lo hi) st) = (lo, hi)"
    by (cases st) (simp add: clock_def fixed_core_def Let_def split: prod.splits)
  moreover have "set (history (fixed_core lo hi) (Suc n) st)
      = insert (fst (clock (fixed_core lo hi) st)) (set (history (fixed_core lo hi) n (snd (clock (fixed_core lo hi) st))))"
    by (cases "clock (fixed_core lo hi) st") simp
  ultimately show ?case using Suc.IH by auto
qed simp

theorem events_counted_witness:
  "case run_sim (fixed_core branch_taps loop_taps) [] (\<lambda>_. None) (\<lambda>_. False) of (cyc, st, s) \<Rightarrow>
     let xs = cycles (fixed_core branch_taps loop_taps) [] (\<lambda>_. None) (\<lambda>_. False) in
     evs s = events_of xs \<and> n_bp_predt (evs s) \<le> n_bp_resolved (evs s) \<and> n_bp_mispred (evs s) \<le> n_bp_resolved (evs s)"
proof (rule events_counted)
  let ?c = "fixed_core branch_taps loop_taps"
  have "set (cycles ?c [] (\<lambda>_. None) (\<lambda>_. False)) \<subseteq> {(branch_taps, loop_taps)}"
    using fixed_core_history set_take_subset unfolding cycles_def by (fastforce split: prod.splits)
  then show "\<forall>x\<in>set (cycles ?c [] (\<lambda>_. None) (\<lambda>_. False)). mispredict (fst x) \<longrightarrow> cf_resolving (fst x)"
    by (auto simp: branch_taps_def)
qed

section \<open>The front end\<close>

definition fetch_pcs :: "sample list \<Rightarrow> u32 list" where
  "fetch_pcs xs = map (\<lambda>x. fe_pc (snd x)) (filter (\<lambda>x. fe_valid (snd x)) xs)"

text \<open>Neighbours in a list.\<close>

definition neighbours :: "'a list \<Rightarrow> ('a \<times> 'a) list" where
  "neighbours xs = zip xs (tl xs)"

lemma neighbours_snoc [simp]:
  "neighbours [] = []" "neighbours (xs @ [x]) = neighbours xs @ (if xs = [] then [] else [(last xs, x)])"
proof -
  show "neighbours (xs @ [x]) = neighbours xs @ (if xs = [] then [] else [(last xs, x)])"
  proof (induction xs)
    case (Cons y ys)
    then show ?case by (cases ys) (auto simp: neighbours_def)
  qed (simp add: neighbours_def)
qed (simp add: neighbours_def)

lemma fetch_pcs_snoc [simp]:
  "fetch_pcs [] = []" "fetch_pcs (xs @ [x]) = fetch_pcs xs @ (if fe_valid (snd x) then [fe_pc (snd x)] else [])"
  by (simp_all add: fetch_pcs_def)

definition front_state :: "u32 list \<Rightarrow> front \<Rightarrow> bool" where
  "front_state ps f \<longleftrightarrow> fetched f = length ps \<and> have_prev_fe f = (ps \<noteq> []) \<and> (ps \<noteq> [] \<longrightarrow> prev_fe_pc f = last ps)
     \<and> fe_pc_checked f = length (neighbours ps)
     \<and> fe_pc_ok f = length (filter (\<lambda>(p, q). q = p + 4) (neighbours ps))
     \<and> fe_pc_bad f = length (filter (\<lambda>(p, q). q \<noteq> p + 4) (neighbours ps))"

lemma log_decode_front [simp]: "front_state ps (log_decode g cyc hi f) = front_state ps f"
  by (simp add: front_state_def log_decode_def Let_def)

lemma log_fetch_front:
  "front_state ps f \<Longrightarrow> front_state (ps @ (if fe_valid hi then [fe_pc hi] else [])) (log_fetch g cyc hi f)"
  by (auto simp: front_state_def log_fetch_def Let_def)

lemma front_after: "front_state (fetch_pcs xs) (frs (sim_after g xs))"
proof (induction xs rule: sample_induct)
  case (snoc lo hi xs)
  then show ?case using log_fetch_front [OF snoc.IH, of hi g "int (length xs)"] by (auto simp: sim_after_snoc split: if_splits)
qed (simp add: sim_start_def front_state_def)

text \<open>the fetch figures. Every valid fetch sample is counted, and the word-advance check compares each with the one
  before it: the \<open>ok\<close> and \<open>bad\<close> figures count the neighbours in the fetch stream that are, and are not, 4 apart, and
  together they are one less than the fetched words.\<close>

theorem word_advance_checked:
  "case run_sim c args e opens of (cyc, st, s) \<Rightarrow> let ps = fetch_pcs (cycles c args e opens) in
     fetched (frs s) = length ps
     \<and> fe_pc_ok (frs s) = length (filter (\<lambda>(p, q). q = p + 4) (neighbours ps))
     \<and> fe_pc_ok (frs s) + fe_pc_bad (frs s) = fe_pc_checked (frs s)
     \<and> fe_pc_checked (frs s) = fetched (frs s) - 1"
proof -
  obtain cyc st s where run: "run_sim c args e opens = (cyc, st, s)" by (metis prod.collapse)
  have "front_state (fetch_pcs (cycles c args e opens)) (frs s)" unfolding run_after(1) [OF run] by (rule front_after)
  moreover have "length (filter (\<lambda>(p, q). q = p + 4) ns) + length (filter (\<lambda>(p, q). q \<noteq> p + 4) ns) = length ns" for ns :: "(u32 \<times> u32) list"
    by (induction ns) auto
  ultimately show ?thesis by (simp add: run front_state_def neighbours_def)
qed

section \<open>Probes\<close>

text \<open>An address in hex.\<close>

definition hex_addr :: "u64 \<Rightarrow> u8 list" where
  "hex_addr a = [0x30, 0x78] @ map (\<lambda>i. hex_char (unat a div 16 ^ i mod 16)) (rev [0..<16])"

lemma digits_hex_char: "\<forall>d\<in>set ds. d < 16 \<Longrightarrow> digits 16 v (map hex_char ds) = foldl (\<lambda>v d. v * 16 + d) v ds"
  by (induction ds arbitrary: v) (simp_all add: hex_char_digit)

lemma nibbles: "foldl (\<lambda>v d. v * 16 + d) v (map (\<lambda>i. n div 16 ^ i mod 16) (rev [0..<k])) = v * 16 ^ k + n mod 16 ^ k" for n :: nat
proof (induction k arbitrary: v)
  case (Suc k)
  have "16 ^ Suc k = 16 ^ k * (16 :: nat)" by simp
  then have "n mod 16 ^ Suc k = 16 ^ k * (n div 16 ^ k mod 16) + n mod 16 ^ k" by (simp only: mod_mult2_eq)
  then show ?case using Suc.IH [of "v * 16 + n div 16 ^ k mod 16"] by (simp add: algebra_simps)
qed simp

lemma strtoul_0x:
  "isxdigit d \<Longrightarrow> digits 16 0 (d # r) < 2 ^ 64 \<Longrightarrow> strtoul0 (0x30 # 0x78 # d # r) = of_nat (digits 16 0 (d # r))"
  by (simp add: strtoul0_def isspace_def Let_def del: digits.simps)

lemma strtoul_hex: "strtoul0 (hex_addr a) = a"
proof -
  let ?ds = "map (\<lambda>i. unat a div 16 ^ i mod 16) (rev [0..<16])"
  have addr: "hex_addr a = 0x30 # 0x78 # map hex_char ?ds" by (simp add: hex_addr_def)
  have ne: "map hex_char ?ds = hex_char (unat a div 16 ^ 15 mod 16) # map hex_char (tl ?ds)" by (simp add: upt_rec)
  have "unat a < 16 ^ 16" using unsigned_less [of a] by simp
  then have v: "digits 16 0 (map hex_char ?ds) = unat a" using digits_hex_char [of ?ds 0] nibbles [of 0 "unat a" 16] by simp
  moreover have "isxdigit (hex_char (unat a div 16 ^ 15 mod 16))" using hex_char_digit by simp
  ultimately have "strtoul0 (0x30 # 0x78 # map hex_char ?ds) = of_nat (unat a)"
    using strtoul_0x [of _ "map hex_char (tl ?ds)"] \<open>unat a < 16 ^ 16\<close> unfolding ne by (simp del: digits.simps)
  then show ?thesis unfolding addr by simp
qed

text \<open>Addresses separated by commas.\<close>

primrec join :: "u8 list list \<Rightarrow> u8 list" where
  "join [] = []"
| "join (s # ss) = s @ (if ss = [] then [] else 0x2C # join ss)"

lemma hex_char_no_comma: "n < 16 \<Longrightarrow> hex_char n \<noteq> 0x2C"
proof -
  assume "n < 16"
  moreover have "\<forall>n\<in>set [0..<16]. hex_char n \<noteq> 0x2C" by code_simp
  ultimately show ?thesis by auto
qed

lemma hex_addr_no_comma: "0x2C \<notin> set (hex_addr a)" "hex_addr a \<noteq> []"
  using hex_char_no_comma by (force simp: hex_addr_def)+

text \<open>\<open>PROBE\<close> reads the D-mem words it names. Given a list of byte addresses in hex, separated by commas, it prints in
  their order the word of the D-mem array at a quarter of each address, and for an address past the array a line that
  says so, without reading: no address makes it leave the array.\<close>

theorem probes_read:
  "probe_list mem (join (map hex_addr as)) =
     map (\<lambda>a. if unat a div 4 < DMEM_WORDS then Probe a (mem (unat a div 4)) else Probe_outside a DMEM_WORDS) as"
proof (induction as)
  case (Cons a as)
  let ?s = "join (map hex_addr (a # as))"
  have "takeWhile (\<lambda>ch. ch \<noteq> 0x2C) (hex_addr a @ (if as = [] then [] else 0x2C # join (map hex_addr as))) = hex_addr a"
    "drop 1 (dropWhile (\<lambda>ch. ch \<noteq> 0x2C) (hex_addr a @ (if as = [] then [] else 0x2C # join (map hex_addr as)))) = join (map hex_addr as)"
    using hex_addr_no_comma(1) [of a] by (auto simp: takeWhile_append dropWhile_append)
  then have split: "takeWhile (\<lambda>ch. ch \<noteq> 0x2C) ?s = hex_addr a" "drop 1 (dropWhile (\<lambda>ch. ch \<noteq> 0x2C) ?s) = join (map hex_addr as)"
    by simp_all
  have "?s \<noteq> []" using hex_addr_no_comma(2) by simp
  then have "probe_list mem ?s = probe_word mem (hex_addr a) # probe_list mem (join (map hex_addr as))"
    unfolding probe_list.simps [of mem ?s] Let_def split using hex_addr_no_comma(2) by simp
  then show ?case using Cons.IH by (simp add: probe_word_def strtoul_hex unat_div Let_def)
qed (simp add: probe_list.simps)

end
