(* ===== verification/Uart_Rtl.thy ===== *)
theory Uart_Rtl
  imports Uart Axi_Ram_Tb Sim_Serial
begin

text \<open>
  The UART of the board, \<open>rtl/utils/axi4_lite_uart.sv\<close>, register by register: one clock edge is a function of the
  registers, the pins of the AXI4-Lite master and the level of \<open>rxd_i\<close>. Both FIFOs have the depth 16 of every instance.
  The records of the bus pins are those of the RAM. Shown here: the hardware refines the device that the programs see
  (theory \<open>Uart\<close>), and its two engines read and write 8N1 frames.
\<close>

section \<open>Ring buffers\<close>

text \<open>One pointer bit more than the index: 32 positions for 16 slots.\<close>

record ring =
  store :: "nat \<Rightarrow> u8"
  wptr :: nat
  rptr :: nat

definition fifo_empty :: "ring \<Rightarrow> bool" where
  "fifo_empty r \<longleftrightarrow> wptr r = rptr r"

definition fifo_full :: "ring \<Rightarrow> bool" where
  "fifo_full r \<longleftrightarrow> wptr r div FIFO_DEPTH \<noteq> rptr r div FIFO_DEPTH \<and> wptr r mod FIFO_DEPTH = rptr r mod FIFO_DEPTH"

definition fifo_head :: "ring \<Rightarrow> u8" where
  "fifo_head r = store r (rptr r mod FIFO_DEPTH)"

text \<open>The storage is written under reset too, the pointers are cleared.\<close>

definition ring_edge :: "bool \<Rightarrow> u8 option \<Rightarrow> bool \<Rightarrow> ring \<Rightarrow> ring" where
  "ring_edge rstn push pop r = \<lparr>
     store = (case push of Some b \<Rightarrow> (store r)(wptr r mod FIFO_DEPTH := b) | None \<Rightarrow> store r),
     wptr = (if \<not> rstn then 0 else if push \<noteq> None then (wptr r + 1) mod (2 * FIFO_DEPTH) else wptr r),
     rptr = (if \<not> rstn then 0 else if pop then (rptr r + 1) mod (2 * FIFO_DEPTH) else rptr r)\<rparr>"

section \<open>Engines\<close>

datatype tx_state = TX_IDLE | TX_START | TX_DATA | TX_STOP

record tx_engine =
  tx_state_q :: tx_state
  tx_shift_q :: u8
  tx_bit_cnt_q :: nat
  txd_q :: bool
  tx_baud_cnt_q :: u16

definition tx_fifo_pop :: "bool \<Rightarrow> tx_engine \<Rightarrow> bool" where
  "tx_fifo_pop none e \<longleftrightarrow> tx_state_q e = TX_IDLE \<and> \<not> none"

text \<open>An edge of the transmitter, with the divisor, and whether its FIFO is empty and its head.\<close>

definition tx_edge :: "u16 \<Rightarrow> bool \<Rightarrow> u8 \<Rightarrow> tx_engine \<Rightarrow> tx_engine" where
  "tx_edge div_q none head e = (let tx_baud_tick = (tx_baud_cnt_q e = div_q) in
     case tx_state_q e of
       TX_IDLE \<Rightarrow> (let e = e\<lparr>tx_baud_cnt_q := 0\<rparr> in
         if tx_fifo_pop none e then e\<lparr>tx_shift_q := head, tx_state_q := TX_START, txd_q := False\<rparr> else e)
     | TX_START \<Rightarrow>
         if tx_baud_tick then e\<lparr>tx_baud_cnt_q := 0, tx_state_q := TX_DATA, tx_bit_cnt_q := 0, txd_q := bit (tx_shift_q e) 0\<rparr>
         else e\<lparr>tx_baud_cnt_q := tx_baud_cnt_q e + 1\<rparr>
     | TX_DATA \<Rightarrow>
         if tx_baud_tick then
           (if tx_bit_cnt_q e = 7 then e\<lparr>tx_baud_cnt_q := 0, tx_state_q := TX_STOP, txd_q := True\<rparr>
            else e\<lparr>tx_baud_cnt_q := 0, tx_bit_cnt_q := tx_bit_cnt_q e + 1, tx_shift_q := drop_bit 1 (tx_shift_q e),
              txd_q := bit (tx_shift_q e) 1\<rparr>)
         else e\<lparr>tx_baud_cnt_q := tx_baud_cnt_q e + 1\<rparr>
     | TX_STOP \<Rightarrow>
         if tx_baud_tick then e\<lparr>tx_baud_cnt_q := 0, tx_state_q := TX_IDLE\<rparr>
         else e\<lparr>tx_baud_cnt_q := tx_baud_cnt_q e + 1\<rparr>)"

definition tx_reset :: tx_engine where
  "tx_reset = \<lparr>tx_state_q = TX_IDLE, tx_shift_q = 0, tx_bit_cnt_q = 0, txd_q = True, tx_baud_cnt_q = 0\<rparr>"

datatype rx_state = RX_IDLE | RX_START | RX_DATA | RX_STOP

record rx_engine =
  rx_state_q :: rx_state
  rx_shift_q :: u8
  rx_bit_cnt_q :: nat
  rx_cnt_q :: u16

definition rx_frame_done :: "u16 \<Rightarrow> rx_engine \<Rightarrow> bool" where
  "rx_frame_done div_q e \<longleftrightarrow> rx_state_q e = RX_STOP \<and> rx_cnt_q e = div_q"

text \<open>An edge of the receiver.\<close>

definition rx_edge :: "u16 \<Rightarrow> bool \<Rightarrow> rx_engine \<Rightarrow> rx_engine" where
  "rx_edge div_q rxd e = (let rx_half_div = drop_bit 1 div_q in
     case rx_state_q e of
       RX_IDLE \<Rightarrow> (let e = e\<lparr>rx_cnt_q := 0\<rparr> in if \<not> rxd then e\<lparr>rx_state_q := RX_START\<rparr> else e)
     | RX_START \<Rightarrow>
         if rx_cnt_q e = rx_half_div then
           (if \<not> rxd then e\<lparr>rx_cnt_q := 0, rx_state_q := RX_DATA, rx_bit_cnt_q := 0\<rparr>
            else e\<lparr>rx_cnt_q := 0, rx_state_q := RX_IDLE\<rparr>)
         else e\<lparr>rx_cnt_q := rx_cnt_q e + 1\<rparr>
     | RX_DATA \<Rightarrow>
         if rx_cnt_q e = div_q then
           (let e = e\<lparr>rx_cnt_q := 0, rx_shift_q := drop_bit 1 (rx_shift_q e) OR (if rxd then 0x80 else 0)\<rparr> in
            if rx_bit_cnt_q e = 7 then e\<lparr>rx_state_q := RX_STOP\<rparr> else e\<lparr>rx_bit_cnt_q := rx_bit_cnt_q e + 1\<rparr>)
         else e\<lparr>rx_cnt_q := rx_cnt_q e + 1\<rparr>
     | RX_STOP \<Rightarrow>
         if rx_cnt_q e = div_q then e\<lparr>rx_cnt_q := 0, rx_state_q := RX_IDLE\<rparr>
         else e\<lparr>rx_cnt_q := rx_cnt_q e + 1\<rparr>)"

definition rx_reset :: rx_engine where
  "rx_reset = \<lparr>rx_state_q = RX_IDLE, rx_shift_q = 0, rx_bit_cnt_q = 0, rx_cnt_q = 0\<rparr>"

section \<open>Registers and bus\<close>

definition REG_TXDATA :: nat where "REG_TXDATA = 0"
definition REG_RXDATA :: nat where "REG_RXDATA = 1"
definition REG_STATUS :: nat where "REG_STATUS = 2"
definition REG_CTRL :: nat where "REG_CTRL = 3"
definition REG_BAUDDIV :: nat where "REG_BAUDDIV = 4"

text \<open>Bits 4 to 2 of an address.\<close>

definition reg_of :: "u32 \<Rightarrow> nat" where
  "reg_of a = unat a div 4 mod 8"

record uart_bus =
  aw_seen_q :: bool
  w_seen_q :: bool
  wdata_q :: u32
  wstrb_q :: u8
  awaddr_word_q :: nat
  bvalid_q :: bool
  rvalid_q :: bool
  rdata_q :: u32

record uart_rtl =
  bus :: uart_bus
  tx_ie_q :: bool
  rx_ie_q :: bool
  div_q :: u16
  div_pending_q :: u16
  div_pending_valid_q :: bool
  tx :: tx_engine
  rx :: rx_engine
  rx_overrun_q :: bool
  tx_ring :: ring
  rx_ring :: ring

definition rtl_tx_ready :: "uart_rtl \<Rightarrow> bool" where
  "rtl_tx_ready u \<longleftrightarrow> \<not> fifo_full (tx_ring u)"

definition rtl_rx_ready :: "uart_rtl \<Rightarrow> bool" where
  "rtl_rx_ready u \<longleftrightarrow> \<not> fifo_empty (rx_ring u)"

definition rtl_irq :: "uart_rtl \<Rightarrow> bool" where
  "rtl_irq u \<longleftrightarrow> rtl_tx_ready u \<and> tx_ie_q u \<or> rtl_rx_ready u \<and> rx_ie_q u"

definition uart_out :: "uart_rtl \<Rightarrow> axi_master \<Rightarrow> axi_slave" where
  "uart_out u m = (let s = bus u; tx_full_block_aw = (reg_of (awaddr m) = REG_TXDATA \<and> \<not> rtl_tx_ready u) in
     \<lparr>awready = (\<not> aw_seen_q s \<and> \<not> bvalid_q s \<and> \<not> tx_full_block_aw), wready = (\<not> w_seen_q s \<and> \<not> bvalid_q s),
      bvalid = bvalid_q s, arready = (\<not> rvalid_q s \<or> rvalid_q s \<and> rready m), rvalid = rvalid_q s, rdata = rdata_q s\<rparr>)"

definition uaw_hs :: "uart_rtl \<Rightarrow> axi_master \<Rightarrow> bool" where
  "uaw_hs u m \<longleftrightarrow> awvalid m \<and> awready (uart_out u m)"

definition uw_hs :: "uart_rtl \<Rightarrow> axi_master \<Rightarrow> bool" where
  "uw_hs u m \<longleftrightarrow> wvalid m \<and> wready (uart_out u m)"

definition ub_hs :: "uart_rtl \<Rightarrow> axi_master \<Rightarrow> bool" where
  "ub_hs u m \<longleftrightarrow> bvalid (uart_out u m) \<and> bready m"

definition uar_hs :: "uart_rtl \<Rightarrow> axi_master \<Rightarrow> bool" where
  "uar_hs u m \<longleftrightarrow> arvalid m \<and> arready (uart_out u m)"

definition waddr_eff :: "uart_rtl \<Rightarrow> axi_master \<Rightarrow> nat" where
  "waddr_eff u m = (if uaw_hs u m then reg_of (awaddr m) else awaddr_word_q (bus u))"

definition wdata_eff :: "uart_rtl \<Rightarrow> axi_master \<Rightarrow> u32" where
  "wdata_eff u m = (if uw_hs u m then wdata m else wdata_q (bus u))"

definition wr_low_byte :: "uart_rtl \<Rightarrow> axi_master \<Rightarrow> bool" where
  "wr_low_byte u m = bit (if uw_hs u m then wstrb m else wstrb_q (bus u)) 0"

definition tx_write_hold :: "uart_rtl \<Rightarrow> axi_master \<Rightarrow> bool" where
  "tx_write_hold u m \<longleftrightarrow> waddr_eff u m = REG_TXDATA \<and> \<not> rtl_tx_ready u"

definition udo_write :: "uart_rtl \<Rightarrow> axi_master \<Rightarrow> bool" where
  "udo_write u m \<longleftrightarrow> (aw_seen_q (bus u) \<or> uaw_hs u m) \<and> (w_seen_q (bus u) \<or> uw_hs u m) \<and> \<not> bvalid_q (bus u)
     \<and> \<not> tx_write_hold u m"

definition tx_push :: "uart_rtl \<Rightarrow> axi_master \<Rightarrow> bool" where
  "tx_push u m \<longleftrightarrow> udo_write u m \<and> waddr_eff u m = REG_TXDATA \<and> wr_low_byte u m"

definition rx_read :: "uart_rtl \<Rightarrow> axi_master \<Rightarrow> bool" where
  "rx_read u m \<longleftrightarrow> uar_hs u m \<and> reg_of (araddr m) = REG_RXDATA"

definition rx_fifo_pop :: "uart_rtl \<Rightarrow> axi_master \<Rightarrow> bool" where
  "rx_fifo_pop u m \<longleftrightarrow> rx_read u m \<and> rtl_rx_ready u"

definition rx_fifo_push :: "uart_rtl \<Rightarrow> axi_master \<Rightarrow> bool" where
  "rx_fifo_push u m \<longleftrightarrow> rx_frame_done (div_q u) (rx u) \<and> (\<not> fifo_full (rx_ring u) \<or> rx_fifo_pop u m)"

definition rdata_mux :: "uart_rtl \<Rightarrow> axi_master \<Rightarrow> u32" where
  "rdata_mux u m = (let a = reg_of (araddr m) in
     if a = REG_RXDATA then ucast (fifo_head (rx_ring u))
     else if a = REG_STATUS then (if rx_overrun_q u then 4 else 0) OR (if rtl_rx_ready u then 2 else 0)
       OR (if rtl_tx_ready u then 1 else 0)
     else if a = REG_CTRL then (if rx_ie_q u then 2 else 0) OR (if tx_ie_q u then 1 else 0)
     else if a = REG_BAUDDIV then ucast (div_q u)
     else 0)"

text \<open>The handshakes of the write and the read channels.\<close>

definition bus_edge :: "uart_rtl \<Rightarrow> axi_master \<Rightarrow> uart_bus" where
  "bus_edge u m = (let
     s = bus u;
     s = (if uaw_hs u m then s\<lparr>aw_seen_q := True, awaddr_word_q := reg_of (awaddr m)\<rparr> else s);
     s = (if uw_hs u m then s\<lparr>w_seen_q := True, wdata_q := wdata m, wstrb_q := wstrb m\<rparr> else s);
     s = (if udo_write u m then s\<lparr>aw_seen_q := False, w_seen_q := False, bvalid_q := True\<rparr> else s);
     s = (if ub_hs u m then s\<lparr>bvalid_q := False\<rparr> else s)
   in if uar_hs u m then s\<lparr>rvalid_q := True, rdata_q := rdata_mux u m\<rparr>
      else if rvalid_q s \<and> rready m then s\<lparr>rvalid_q := False\<rparr> else s)"

definition bus_reset :: uart_bus where
  "bus_reset = \<lparr>aw_seen_q = False, w_seen_q = False, wdata_q = 0, wstrb_q = 0, awaddr_word_q = 0, bvalid_q = False,
     rvalid_q = False, rdata_q = 0\<rparr>"

text \<open>Both engines idle: a pending divisor is applied.\<close>

definition div_apply :: "uart_rtl \<Rightarrow> bool" where
  "div_apply u \<longleftrightarrow> div_pending_valid_q u \<and> tx_state_q (tx u) = TX_IDLE \<and> rx_state_q (rx u) = RX_IDLE"

definition rings_edge :: "bool \<Rightarrow> axi_master \<Rightarrow> uart_rtl \<Rightarrow> uart_rtl \<Rightarrow> uart_rtl" where
  "rings_edge rstn m u v = v\<lparr>
     tx_ring := ring_edge rstn (if tx_push u m then Some (ucast (wdata_eff u m)) else None)
       (tx_fifo_pop (fifo_empty (tx_ring u)) (tx u)) (tx_ring u),
     rx_ring := ring_edge rstn (if rx_fifo_push u m then Some (rx_shift_q (rx u)) else None) (rx_fifo_pop u m) (rx_ring u)\<rparr>"

text \<open>A clock edge out of reset, and under reset; \<open>BAUD_DIV_RESET\<close> is a parameter.\<close>

definition run_edge :: "axi_master \<Rightarrow> bool \<Rightarrow> uart_rtl \<Rightarrow> uart_rtl" where
  "run_edge m rxd u = (let
     ctrl = (udo_write u m \<and> wr_low_byte u m \<and> waddr_eff u m = REG_CTRL);
     baud = (udo_write u m \<and> wr_low_byte u m \<and> waddr_eff u m = REG_BAUDDIV)
   in rings_edge True m u (u\<lparr>
     bus := bus_edge u m,
     tx_ie_q := (if ctrl then bit (wdata_eff u m) 0 else tx_ie_q u),
     rx_ie_q := (if ctrl then bit (wdata_eff u m) 1 else rx_ie_q u),
     div_q := (if div_apply u then div_pending_q u else div_q u),
     div_pending_q := (if baud then ucast (wdata_eff u m) else div_pending_q u),
     div_pending_valid_q := (if div_apply u then False else if baud then True else div_pending_valid_q u),
     tx := tx_edge (div_q u) (fifo_empty (tx_ring u)) (fifo_head (tx_ring u)) (tx u),
     rx := rx_edge (div_q u) rxd (rx u),
     rx_overrun_q := (if rx_frame_done (div_q u) (rx u) \<and> fifo_full (rx_ring u) \<and> \<not> rx_fifo_pop u m then True
       else if rx_read u m then False else rx_overrun_q u)\<rparr>))"

definition reset_edge :: "u16 \<Rightarrow> axi_master \<Rightarrow> uart_rtl \<Rightarrow> uart_rtl" where
  "reset_edge BAUD_DIV_RESET m u = rings_edge False m u (u\<lparr>
     bus := bus_reset, tx_ie_q := False, rx_ie_q := False, div_q := BAUD_DIV_RESET, div_pending_q := 0,
     div_pending_valid_q := False, tx := tx_reset, rx := rx_reset, rx_overrun_q := False\<rparr>)"

definition uart_edge :: "u16 \<Rightarrow> bool \<Rightarrow> axi_master \<Rightarrow> bool \<Rightarrow> uart_rtl \<Rightarrow> uart_rtl" where
  "uart_edge BAUD_DIV_RESET rstn m rxd u = (if rstn then run_edge m rxd u else reset_edge BAUD_DIV_RESET m u)"

section \<open>The rings are queues\<close>

definition occupied :: "ring \<Rightarrow> nat" where
  "occupied r = (wptr r + 32 - rptr r) mod 32"

definition items :: "ring \<Rightarrow> u8 list" where
  "items r = map (\<lambda>i. store r ((rptr r + i) mod 16)) [0..<occupied r]"

definition ring_ok :: "ring \<Rightarrow> bool" where
  "ring_ok r \<longleftrightarrow> wptr r < 32 \<and> rptr r < 32 \<and> occupied r \<le> 16"

lemma FIFO_DEPTH_16 [simp]: "FIFO_DEPTH = 16"
  by (simp add: FIFO_DEPTH_def)

lemma length_items [simp]: "length (items r) = occupied r"
  by (simp add: items_def)

lemma occupied_if:
  "wptr r < 32 \<Longrightarrow> rptr r < 32 \<Longrightarrow> occupied r = (if rptr r \<le> wptr r then wptr r - rptr r else wptr r + 32 - rptr r)"
proof -
  assume b: "wptr r < 32" "rptr r < 32"
  show ?thesis
  proof (cases "rptr r \<le> wptr r")
    case True
    then have "wptr r + 32 - rptr r = wptr r - rptr r + 32" by simp
    then have "occupied r = (wptr r - rptr r) mod 32" by (simp only: occupied_def mod_add_self2)
    then show ?thesis using True b by simp
  qed (use b in \<open>simp add: occupied_def\<close>)
qed

lemma below_32:
  fixes x :: nat
  assumes "x < 32"
  shows "x div 16 = (if x < 16 then 0 else 1)" and "x mod 16 = (if x < 16 then x else x - 16)"
    and "(x + 1) mod 32 = (if x = 31 then 0 else x + 1)"
proof -
  have "x div 16 = 1" if "16 \<le> x" using that assms by (intro div_nat_eqI) auto
  moreover have "x mod 16 = x - 16" if "16 \<le> x" using that assms by (simp add: mod_if)
  ultimately show "x div 16 = (if x < 16 then 0 else 1)" "x mod 16 = (if x < 16 then x else x - 16)" by auto
  show "(x + 1) mod 32 = (if x = 31 then 0 else x + 1)" using assms by (simp add: mod_Suc)
qed

lemma wrap_16: "(x + 32) mod 16 = x mod (16 :: nat)"
proof -
  have "x + 32 = x + 16 * 2" by simp
  then show ?thesis by (simp only: mod_mult_self2)
qed

lemma fifo_empty_iff: "ring_ok r \<Longrightarrow> fifo_empty r \<longleftrightarrow> occupied r = 0"
  by (auto simp: ring_ok_def occupied_if fifo_empty_def)

lemma fifo_full_iff: "ring_ok r \<Longrightarrow> fifo_full r \<longleftrightarrow> occupied r = 16"
  by (auto simp: ring_ok_def occupied_if fifo_full_def below_32 split: if_splits)

lemma fifo_head_hd: "items r \<noteq> [] \<Longrightarrow> hd (items r) = fifo_head r"
  by (simp add: items_def fifo_head_def hd_map)

definition popped :: "ring \<Rightarrow> ring" where
  "popped r = r\<lparr>rptr := (rptr r + 1) mod 32\<rparr>"

definition pushed :: "u8 \<Rightarrow> ring \<Rightarrow> ring" where
  "pushed b r = r\<lparr>store := (store r)(wptr r mod 16 := b), wptr := (wptr r + 1) mod 32\<rparr>"

lemma popped_items:
  assumes "ring_ok r" and "0 < occupied r"
  shows "ring_ok (popped r)" and "occupied (popped r) = occupied r - 1" and "items (popped r) = tl (items r)"
proof -
  have b: "wptr r < 32" "rptr r < 32" using assms(1) by (simp_all add: ring_ok_def)
  have p: "wptr (popped r) = wptr r" "rptr (popped r) = (if rptr r = 31 then 0 else rptr r + 1)" "store (popped r) = store r"
    using below_32(3) [OF b(2)] by (simp_all add: popped_def)
  then show n: "occupied (popped r) = occupied r - 1" using assms(2) b by (auto simp: occupied_if split: if_splits)
  show "ring_ok (popped r)" using assms n p b by (auto simp: ring_ok_def)
  obtain k where k: "occupied r = Suc k" using assms(2) by (cases "occupied r") auto
  have "(rptr r + Suc i) mod 16 = (rptr (popped r) + i) mod 16" for i using p(2) wrap_16 [of i] by (auto simp: add.commute)
  moreover have "[0..<Suc k] = 0 # map Suc [0..<k]" by (simp add: map_Suc_upt upt_conv_Cons)
  ultimately show "items (popped r) = tl (items r)" using n k p(3) by (simp add: items_def comp_def del: upt_Suc)
qed

lemma pushed_items:
  assumes "ring_ok r" and "occupied r < 16"
  shows "ring_ok (pushed b r)" and "items (pushed b r) = items r @ [b]"
proof -
  have b: "wptr r < 32" "rptr r < 32" using assms(1) by (simp_all add: ring_ok_def)
  have p: "wptr (pushed b r) = (if wptr r = 31 then 0 else wptr r + 1)" "rptr (pushed b r) = rptr r"
    "store (pushed b r) = (store r)(wptr r mod 16 := b)"
    using below_32(3) [OF b(1)] by (simp_all add: pushed_def)
  then have n: "occupied (pushed b r) = Suc (occupied r)" using assms(2) b by (auto simp: occupied_if split: if_splits)
  show "ring_ok (pushed b r)" using assms n p b by (auto simp: ring_ok_def)
  have "wptr r = rptr r + occupied r \<or> wptr r + 32 = rptr r + occupied r" using b by (auto simp: occupied_if)
  then have w: "wptr r mod 16 = (rptr r + occupied r) mod 16" using wrap_16 [of "wptr r"] by auto
  have "(rptr r + i) mod 16 \<noteq> (rptr r + occupied r) mod 16" if "i < occupied r" for i
  proof
    assume "(rptr r + i) mod 16 = (rptr r + occupied r) mod 16"
    then have "16 dvd (rptr r + occupied r) - (rptr r + i)" using that by (metis add_le_cancel_left less_imp_le mod_eq_dvd_iff_nat)
    then show False using that assms(2) nat_dvd_not_less [of "occupied r - i" 16] by auto
  qed
  then show "items (pushed b r) = items r @ [b]" using n p(2,3) w by (simp add: items_def)
qed

text \<open>What a FIFO of 16 bytes promises its user; a push into a full one needs a pop in the same cycle.\<close>

locale byte_queue =
  fixes ok :: "'q \<Rightarrow> bool" and listing :: "'q \<Rightarrow> u8 list" and enq :: "u8 \<Rightarrow> 'q \<Rightarrow> 'q" and deq :: "'q \<Rightarrow> 'q"
  assumes enq: "ok q \<Longrightarrow> length (listing q) < 16 \<Longrightarrow> ok (enq b q) \<and> listing (enq b q) = listing q @ [b]"
    and deq: "ok q \<Longrightarrow> listing q \<noteq> [] \<Longrightarrow> ok (deq q) \<and> listing (deq q) = tl (listing q)"
    and bound: "ok q \<Longrightarrow> length (listing q) \<le> 16"
begin

definition both :: "u8 option \<Rightarrow> bool \<Rightarrow> 'q \<Rightarrow> 'q" where
  "both push pop q = (let q = (if pop then deq q else q) in case push of Some b \<Rightarrow> enq b q | None \<Rightarrow> q)"

lemma both_listing:
  assumes "ok q" and "pop \<Longrightarrow> listing q \<noteq> []" and "push \<noteq> None \<Longrightarrow> length (listing q) < 16 \<or> pop"
  shows "ok (both push pop q)"
    and "listing (both push pop q) = (if pop then tl (listing q) else listing q) @ (case push of Some b \<Rightarrow> [b] | None \<Rightarrow> [])"
proof -
  let ?q = "if pop then deq q else q"
  have q: "ok ?q" "listing ?q = (if pop then tl (listing q) else listing q)" using assms(1,2) deq by auto
  moreover have "push \<noteq> None \<Longrightarrow> length (listing ?q) < 16"
    using q(2) assms(2,3) bound [OF assms(1)] by (cases "listing q") auto
  ultimately show "ok (both push pop q)"
    "listing (both push pop q) = (if pop then tl (listing q) else listing q) @ (case push of Some b \<Rightarrow> [b] | None \<Rightarrow> [])"
    using enq by (auto simp: both_def Let_def split: option.splits)
qed

end

interpretation rq: byte_queue ring_ok items pushed popped
proof
  show "length (items q) \<le> 16" if "ring_ok q" for q using that by (simp add: ring_ok_def)
  show "ring_ok (popped q) \<and> items (popped q) = tl (items q)" if "ring_ok q" "items q \<noteq> []" for q
    using popped_items [OF that(1)] that(2) by (simp flip: length_greater_0_conv)
qed (use pushed_items in simp)

lemma ring_edge_both: "ring_edge True push pop r = rq.both push pop r"
  by (cases push) (simp_all add: ring_edge_def rq.both_def pushed_def popped_def)

lemmas ring_edge_queue = rq.both_listing [folded ring_edge_both]

lemma reset_ring: "ring_ok (ring_edge False push pop r)" "items (ring_edge False push pop r) = []"
  by (simp_all add: ring_edge_def ring_ok_def items_def occupied_def)

section \<open>The hardware refines the device of the programs\<close>

text \<open>
  The device a register state stands for; \<open>line\<close> is what has been shipped. A cycle's bus access and what the engines
  do in it, as the operations of \<open>Uart\<close>: the access comes first, as it sees the registers before the edge.
\<close>

definition device :: "u8 list \<Rightarrow> uart_rtl \<Rightarrow> uart" where
  "device line u = \<lparr>tx_fifo = items (tx_ring u), tx_line = line, rx_fifo = items (rx_ring u), rx_stale = fifo_head (rx_ring u),
     rx_overrun = rx_overrun_q u, tx_ie = tx_ie_q u, rx_ie = rx_ie_q u, sched = []\<rparr>"

definition bus_access :: "uart_rtl \<Rightarrow> axi_master \<Rightarrow> uart \<Rightarrow> uart" where
  "bus_access u m d = (let
     d = (if rx_read u m then snd (read_rxdata d) else d);
     d = (if udo_write u m \<and> wr_low_byte u m \<and> waddr_eff u m = REG_CTRL then write_ctrl (wdata_eff u m) d else d)
   in if tx_push u m then (case write_txdata (wdata_eff u m) d of Some d \<Rightarrow> d | None \<Rightarrow> d) else d)"

definition ships :: "uart_rtl \<Rightarrow> bool" where
  "ships u \<longleftrightarrow> tx_fifo_pop (fifo_empty (tx_ring u)) (tx u)"

definition engine_events :: "uart_rtl \<Rightarrow> uart_event list" where
  "engine_events u = (if ships u then [Ship] else [])
     @ (if rx_frame_done (div_q u) (rx u) then [Arrive (rx_shift_q (rx u))] else [])"

definition rtl_ok :: "uart_rtl \<Rightarrow> bool" where
  "rtl_ok u \<longleftrightarrow> ring_ok (tx_ring u) \<and> ring_ok (rx_ring u)"

lemma ready_iff:
  assumes "rtl_ok u"
  shows "rtl_tx_ready u \<longleftrightarrow> length (items (tx_ring u)) < 16" and "rtl_rx_ready u \<longleftrightarrow> items (rx_ring u) \<noteq> []"
    and "fifo_full (rx_ring u) \<longleftrightarrow> \<not> length (items (rx_ring u)) < 16" and "fifo_empty (tx_ring u) \<longleftrightarrow> items (tx_ring u) = []"
  using assms length_items [of "rx_ring u"] length_items [of "tx_ring u"]
  by (auto simp: rtl_ok_def rtl_tx_ready_def rtl_rx_ready_def fifo_full_iff fifo_empty_iff ring_ok_def simp flip: length_0_conv)

lemma tx_ring_edge:
  assumes "rtl_ok u"
  shows "ring_ok (tx_ring (run_edge m rxd u))"
    and "items (tx_ring (run_edge m rxd u)) = (if ships u then tl (items (tx_ring u)) else items (tx_ring u))
      @ (if tx_push u m then [ucast (wdata_eff u m)] else [])"
proof -
  have ok: "ring_ok (tx_ring u)" using assms by (simp add: rtl_ok_def)
  have edge: "tx_ring (run_edge m rxd u) =
      ring_edge True (if tx_push u m then Some (ucast (wdata_eff u m)) else None) (ships u) (tx_ring u)"
    by (simp add: run_edge_def rings_edge_def ships_def Let_def)
  have pop: "ships u \<Longrightarrow> items (tx_ring u) \<noteq> []" using ready_iff(4) [OF assms] by (auto simp: ships_def tx_fifo_pop_def)
  have push: "tx_push u m \<Longrightarrow> length (items (tx_ring u)) < 16"
    using ready_iff(1) [OF assms] by (auto simp: tx_push_def udo_write_def tx_write_hold_def)
  note queue = ring_edge_queue [OF ok, of "ships u" "if tx_push u m then Some (ucast (wdata_eff u m)) else None"]
  show "ring_ok (tx_ring (run_edge m rxd u))" unfolding edge by (rule queue(1)) (use pop push in \<open>auto split: if_splits\<close>)
  have "items (tx_ring (run_edge m rxd u)) = (if ships u then tl (items (tx_ring u)) else items (tx_ring u))
      @ (case if tx_push u m then Some (ucast (wdata_eff u m)) else None of Some b \<Rightarrow> [b] | None \<Rightarrow> [])"
    unfolding edge by (rule queue(2)) (use pop push in \<open>auto split: if_splits\<close>)
  then show "items (tx_ring (run_edge m rxd u)) = (if ships u then tl (items (tx_ring u)) else items (tx_ring u))
      @ (if tx_push u m then [ucast (wdata_eff u m)] else [])" by (simp split: if_splits)
qed

lemma rx_ring_edge:
  assumes "rtl_ok u"
  shows "ring_ok (rx_ring (run_edge m rxd u))"
    and "items (rx_ring (run_edge m rxd u)) = (if rx_fifo_pop u m then tl (items (rx_ring u)) else items (rx_ring u))
      @ (if rx_fifo_push u m then [rx_shift_q (rx u)] else [])"
proof -
  have ok: "ring_ok (rx_ring u)" using assms by (simp add: rtl_ok_def)
  have edge: "rx_ring (run_edge m rxd u) =
      ring_edge True (if rx_fifo_push u m then Some (rx_shift_q (rx u)) else None) (rx_fifo_pop u m) (rx_ring u)"
    by (simp add: run_edge_def rings_edge_def Let_def)
  have pop: "rx_fifo_pop u m \<Longrightarrow> items (rx_ring u) \<noteq> []" using ready_iff(2) [OF assms] by (auto simp: rx_fifo_pop_def)
  have push: "rx_fifo_push u m \<Longrightarrow> length (items (rx_ring u)) < 16 \<or> rx_fifo_pop u m"
    using ready_iff(3) [OF assms] by (auto simp: rx_fifo_push_def)
  note queue = ring_edge_queue [OF ok, of "rx_fifo_pop u m" "if rx_fifo_push u m then Some (rx_shift_q (rx u)) else None"]
  show "ring_ok (rx_ring (run_edge m rxd u))" unfolding edge by (rule queue(1)) (use pop push in \<open>auto split: if_splits\<close>)
  have "items (rx_ring (run_edge m rxd u)) = (if rx_fifo_pop u m then tl (items (rx_ring u)) else items (rx_ring u))
      @ (case if rx_fifo_push u m then Some (rx_shift_q (rx u)) else None of Some b \<Rightarrow> [b] | None \<Rightarrow> [])"
    unfolding edge by (rule queue(2)) (use pop push in \<open>auto split: if_splits\<close>)
  then show "items (rx_ring (run_edge m rxd u)) = (if rx_fifo_pop u m then tl (items (rx_ring u)) else items (rx_ring u))
      @ (if rx_fifo_push u m then [rx_shift_q (rx u)] else [])" by (simp split: if_splits)
qed

text \<open>The two fields of the device's FIFO sides after an access and the events of a cycle.\<close>

lemma tick_idle_device [simp]: "sched d = [] \<Longrightarrow> Uart.tick d = d"
  by (simp add: Uart.tick_def)

lemma write_txdata_now: "sched d = [] \<Longrightarrow> tx_ready d \<Longrightarrow> write_txdata w d = Some (d\<lparr>tx_fifo := tx_fifo d @ [ucast w]\<rparr>)"
  by (simp add: write_txdata.simps)

lemma bus_access_parts:
  assumes "rtl_ok u" and d_def: "d = bus_access u m (device line u)"
  shows "tx_fifo d = items (tx_ring u) @ (if tx_push u m then [ucast (wdata_eff u m)] else [])"
    and "rx_fifo d = (if rx_fifo_pop u m then tl (items (rx_ring u)) else items (rx_ring u))"
    and "rx_overrun d \<longleftrightarrow> rx_overrun_q u \<and> \<not> rx_read u m"
    and "tx_ie d = tx_ie_q (run_edge m rxd u)" and "rx_ie d = rx_ie_q (run_edge m rxd u)"
    and "tx_line d = line" and "sched d = []"
proof -
  define c where "c = (if rx_read u m then snd (read_rxdata (device line u)) else device line u)"
  define e where "e = (if udo_write u m \<and> wr_low_byte u m \<and> waddr_eff u m = REG_CTRL then write_ctrl (wdata_eff u m) c else c)"
  have c: "tx_fifo c = items (tx_ring u)" "rx_fifo c = (if rx_fifo_pop u m then tl (items (rx_ring u)) else items (rx_ring u))"
    "rx_overrun c \<longleftrightarrow> rx_overrun_q u \<and> \<not> rx_read u m" "tx_ie c = tx_ie_q u" "rx_ie c = rx_ie_q u" "tx_line c = line" "sched c = []"
    using ready_iff(2) [OF assms(1)]
    by (auto simp: c_def read_rxdata_def device_def rx_fifo_pop_def Let_def split: list.splits)
  have e: "tx_fifo e = tx_fifo c" "rx_fifo e = rx_fifo c" "rx_overrun e = rx_overrun c" "tx_line e = tx_line c" "sched e = []"
    "tx_ie e = tx_ie_q (run_edge m rxd u)" "rx_ie e = rx_ie_q (run_edge m rxd u)"
    using c(4,5,7) by (auto simp: e_def write_ctrl_def run_edge_def rings_edge_def Let_def)
  have ready: "tx_push u m \<Longrightarrow> tx_ready e"
    using ready_iff(1) [OF assms(1)] c(1) e(1) by (auto simp: tx_push_def udo_write_def tx_write_hold_def Uart.tx_ready_def)
  have "d = (if tx_push u m then (case write_txdata (wdata_eff u m) e of Some d \<Rightarrow> d | None \<Rightarrow> e) else e)"
    by (simp only: d_def bus_access_def Let_def c_def [symmetric] e_def [symmetric])
  then have acc: "d = (if tx_push u m then e\<lparr>tx_fifo := tx_fifo e @ [ucast (wdata_eff u m)]\<rparr> else e)"
    using write_txdata_now [OF e(5) ready] by (cases "tx_push u m") simp_all
  show "tx_fifo d = items (tx_ring u) @ (if tx_push u m then [ucast (wdata_eff u m)] else [])"
    "rx_fifo d = (if rx_fifo_pop u m then tl (items (rx_ring u)) else items (rx_ring u))"
    "rx_overrun d \<longleftrightarrow> rx_overrun_q u \<and> \<not> rx_read u m" "tx_ie d = tx_ie_q (run_edge m rxd u)" "rx_ie d = rx_ie_q (run_edge m rxd u)"
    "tx_line d = line" "sched d = []"
    unfolding acc using c e by simp_all
qed

lemma run_edge_overrun:
  "rx_overrun_q (run_edge m rxd u) = (if rx_frame_done (div_q u) (rx u) \<and> fifo_full (rx_ring u) \<and> \<not> rx_fifo_pop u m then True
     else if rx_read u m then False else rx_overrun_q u)"
  by (simp add: run_edge_def rings_edge_def Let_def)

lemma refines_tx:
  assumes "tx_fifo d = items (tx_ring u) @ q" and "tx_line d = line" and "rtl_ok u"
  defines "d' \<equiv> fold hw_event (if ships u then [Ship] else []) d"
  shows "tx_fifo d' = (if ships u then tl (items (tx_ring u)) else items (tx_ring u)) @ q"
    and "tx_line d' = line @ (if ships u then [fifo_head (tx_ring u)] else [])"
    and "rx_fifo d' = rx_fifo d" and "rx_overrun d' = rx_overrun d" and "tx_ie d' = tx_ie d" and "rx_ie d' = rx_ie d"
    and "sched d' = sched d"
proof -
  have ne: "ships u \<Longrightarrow> items (tx_ring u) \<noteq> []" using ready_iff(4) [OF assms(3)] by (auto simp: ships_def tx_fifo_pop_def)
  show "tx_fifo d' = (if ships u then tl (items (tx_ring u)) else items (tx_ring u)) @ q"
    "tx_line d' = line @ (if ships u then [fifo_head (tx_ring u)] else [])"
    "rx_fifo d' = rx_fifo d" "rx_overrun d' = rx_overrun d" "tx_ie d' = tx_ie d" "rx_ie d' = rx_ie d" "sched d' = sched d"
    using assms(1,2) ne fifo_head_hd [of "tx_ring u"] unfolding d'_def
    by (cases "items (tx_ring u)"; auto split: list.splits)+
qed

lemma refines_rx:
  assumes "rtl_ok u" and "rx_fifo d = (if rx_fifo_pop u m then tl (items (rx_ring u)) else items (rx_ring u))"
    and "rx_overrun d \<longleftrightarrow> rx_overrun_q u \<and> \<not> rx_read u m"
  defines "d' \<equiv> fold hw_event (if rx_frame_done (div_q u) (rx u) then [Arrive (rx_shift_q (rx u))] else []) d"
  shows "rx_fifo d' = items (rx_ring (run_edge m rxd u))" and "rx_overrun d' = rx_overrun_q (run_edge m rxd u)"
    and "tx_fifo d' = tx_fifo d" and "tx_line d' = tx_line d" and "tx_ie d' = tx_ie d" and "rx_ie d' = rx_ie d" and "sched d' = sched d"
proof -
  have "length (items (rx_ring u)) \<le> 16" using assms(1) by (simp add: rtl_ok_def ring_ok_def)
  moreover have "rx_fifo_pop u m \<Longrightarrow> items (rx_ring u) \<noteq> []" using ready_iff(2) [OF assms(1)] by (auto simp: rx_fifo_pop_def)
  ultimately have room: "length (rx_fifo d) < 16 \<longleftrightarrow> \<not> fifo_full (rx_ring u) \<or> rx_fifo_pop u m"
    using ready_iff(3) [OF assms(1)] assms(2) by (cases "items (rx_ring u)") auto
  show "rx_fifo d' = items (rx_ring (run_edge m rxd u))"
    unfolding rx_ring_edge(2) [OF assms(1)] d'_def using room assms(2) by (auto simp: rx_fifo_push_def)
  show "rx_overrun d' = rx_overrun_q (run_edge m rxd u)"
    unfolding run_edge_overrun d'_def using room assms(3) by (auto simp: rx_fifo_pop_def)
  show "tx_fifo d' = tx_fifo d" "tx_line d' = tx_line d" "tx_ie d' = tx_ie d" "rx_ie d' = rx_ie d" "sched d' = sched d"
    unfolding d'_def by simp_all
qed

text \<open>C4: the hardware refines the device the programs are verified on. In every clock edge out of reset, whatever the bus
  master and the line do, the FIFOs, the overrun flag, the interrupt enables and the bytes shipped become what the device
  model makes of them: first the register access committed in that cycle (a read of RXDATA, a write of CTRL or TXDATA),
  then a \<open>Ship\<close> if the transmitter takes a byte and an \<open>Arrive\<close> if the receiver completes a frame. The two pointers
  of each ring stay those of a queue of at most 16 bytes.\<close>

theorem rtl_refines_device:
  assumes "rtl_ok u"
  shows "rtl_ok (run_edge m rxd u)
    \<and> device (line @ (if ships u then [fifo_head (tx_ring u)] else [])) (run_edge m rxd u)
      = (fold hw_event (engine_events u) (bus_access u m (device line u)))\<lparr>rx_stale := fifo_head (rx_ring (run_edge m rxd u))\<rparr>"
proof
  show "rtl_ok (run_edge m rxd u)" using tx_ring_edge(1) rx_ring_edge(1) assms by (simp add: rtl_ok_def)
  define d where "d = bus_access u m (device line u)"
  define s where "s = fold hw_event (if ships u then [Ship] else []) d"
  define a where "a = fold hw_event (if rx_frame_done (div_q u) (rx u) then [Arrive (rx_shift_q (rx u))] else []) s"
  note d = bus_access_parts [OF assms d_def]
  note s = refines_tx [OF d(1,6) assms, folded s_def]
  have "rx_fifo s = (if rx_fifo_pop u m then tl (items (rx_ring u)) else items (rx_ring u))"
    "rx_overrun s \<longleftrightarrow> rx_overrun_q u \<and> \<not> rx_read u m" using s d by simp_all
  note a = refines_rx [OF assms this, folded a_def]
  have "fold hw_event (engine_events u) d = a" by (simp add: engine_events_def a_def s_def)
  moreover have "device (line @ (if ships u then [fifo_head (tx_ring u)] else [])) (run_edge m rxd u)
      = a\<lparr>rx_stale := fifo_head (rx_ring (run_edge m rxd u))\<rparr>"
    by (rule uart.equality)
      (simp_all add: device_def a(3-7) s(1,2,5-7) d(1,6,7) tx_ring_edge(2) [OF assms] flip: a(1,2) d(4,5))
  ultimately show "device (line @ (if ships u then [fifo_head (tx_ring u)] else [])) (run_edge m rxd u)
      = (fold hw_event (engine_events u) (bus_access u m (device line u)))\<lparr>rx_stale := fifo_head (rx_ring (run_edge m rxd u))\<rparr>"
    by (simp add: d_def)
qed

text \<open>what software reads of the hardware is what the device model answers: the data latched for a read of STATUS or
  RXDATA, and the interrupt line.\<close>

theorem rtl_reads_device:
  assumes "rtl_ok u"
  shows "rtl_irq u = uart_irq (device line u) \<and> status_word (device line u) = rdata_mux u (m\<lparr>araddr := 8\<rparr>)
    \<and> fst (read_rxdata (device line u)) = rdata_mux u (m\<lparr>araddr := 4\<rparr>)"
proof -
  have r: "Uart.tx_ready (device line u) = rtl_tx_ready u" "Uart.rx_ready (device line u) = rtl_rx_ready u"
    using ready_iff(1,2) [OF assms] by (simp_all add: Uart.tx_ready_def Uart.rx_ready_def device_def)
  have "reg_of 8 = REG_STATUS" "reg_of 4 = REG_RXDATA" "REG_STATUS \<noteq> REG_RXDATA"
    by (simp_all add: reg_of_def REG_STATUS_def REG_RXDATA_def)
  moreover have "rdata_mux u (m\<lparr>araddr := a\<rparr>) = status_word (device line u)" if "reg_of a = REG_STATUS" for a
    using that calculation(3) r by (auto simp: rdata_mux_def status_word_def device_def Let_def or.commute or.left_commute)
  moreover have "rdata_mux u (m\<lparr>araddr := a\<rparr>) = fst (read_rxdata (device line u))" if "reg_of a = REG_RXDATA" for a
    using that fifo_head_hd [of "rx_ring u"]
    by (auto simp: rdata_mux_def read_rxdata_def device_def Let_def split: list.splits)
  moreover have "rtl_irq u = uart_irq (device line u)" using r by (simp add: rtl_irq_def uart_irq_def) (simp add: device_def)
  ultimately show ?thesis by simp
qed

section \<open>The transmitter writes frames\<close>

text \<open>A frame on the line, \<open>n\<close> clocks for each bit: a start bit, the bits of the byte, the lowest first, a stop bit.\<close>

definition level :: "u8 \<Rightarrow> nat \<Rightarrow> bool" where
  "level c k = (if k = 0 then False else if k \<le> 8 then bit c (k - 1) else True)"

definition frame :: "nat \<Rightarrow> u8 \<Rightarrow> bool list" where
  "frame n c = concat (map (\<lambda>k. replicate n (level c k)) [0..<10])"

lemma rx_frame_frame: "rx_frame c = frame BIT_CYCLES c"
  by (simp add: rx_frame_def frame_def drive_def level_def upt_rec)

text \<open>The transmitter on its own: the queue it takes bytes from, and \<open>txd_o\<close> after each edge.\<close>

definition tx_clock :: "u16 \<Rightarrow> u8 list \<times> tx_engine \<Rightarrow> u8 list \<times> tx_engine" where
  "tx_clock d s = (case s of (q, e) \<Rightarrow>
     (if tx_fifo_pop (q = []) e then tl q else q, tx_edge d (q = []) (hd q) e))"

fun tx_line_of :: "u16 \<Rightarrow> nat \<Rightarrow> u8 list \<times> tx_engine \<Rightarrow> bool list \<times> u8 list \<times> tx_engine" where
  "tx_line_of d 0 s = ([], s)"
| "tx_line_of d (Suc k) s = (let s = tx_clock d s; (xs, s') = tx_line_of d k s in (txd_q (snd s) # xs, s'))"

lemma tx_line_of_add:
  "tx_line_of d (j + k) s = (let (xs, s) = tx_line_of d j s; (ys, s) = tx_line_of d k s in (xs @ ys, s))"
  by (induction j arbitrary: s) (simp_all add: Let_def case_prod_unfold)

lemma of_nat_div_iff: "t \<le> unat d \<Longrightarrow> (of_nat t = d) = (t = unat d)" for d :: u16
  by (auto simp: le_unat_uoi word_unat_eq_iff)

text \<open>The transmitter after \<open>p\<close> clocks of a frame, the one that took the byte included.\<close>

definition tx_phase :: "nat \<Rightarrow> u8 \<Rightarrow> nat \<Rightarrow> tx_engine \<Rightarrow> bool" where
  "tx_phase n c p e \<longleftrightarrow> (let k = (p - 1) div n in
     tx_baud_cnt_q e = of_nat ((p - 1) mod n) \<and> txd_q e = level c k
     \<and> (if k = 0 then tx_state_q e = TX_START \<and> tx_shift_q e = c
        else if k \<le> 8 then tx_state_q e = TX_DATA \<and> tx_bit_cnt_q e = k - 1 \<and> tx_shift_q e = drop_bit (k - 1) c
        else tx_state_q e = TX_STOP))"

definition tx_at_rest :: "tx_engine \<Rightarrow> bool" where
  "tx_at_rest e \<longleftrightarrow> tx_state_q e = TX_IDLE \<and> txd_q e"

lemma tx_phase_start: "tx_at_rest e \<Longrightarrow> tx_phase n c 1 (tx_edge d False c e)"
  by (simp add: tx_at_rest_def tx_phase_def tx_edge_def tx_fifo_pop_def level_def)

lemma tx_phase_step:
  assumes "tx_phase n c p e" and n: "n = Suc (unat d)" and "0 < p" and "p < 10 * n"
  shows "tx_phase n c (Suc p) (tx_edge d emp b e)"
proof -
  define k j where "k = (p - 1) div n" and "j = (p - 1) mod n"
  have "p = Suc (p - 1)" using assms(3) by simp
  then have p: "p = Suc (k * n + j)" "j < n" using n unfolding k_def j_def by (simp_all only: div_mult_mod_eq) simp
  have "k < 10" using assms(3,4) unfolding k_def by (intro less_mult_imp_div_less) linarith
  have e: "tx_baud_cnt_q e = of_nat j" "txd_q e = level c k"
    "if k = 0 then tx_state_q e = TX_START \<and> tx_shift_q e = c
     else if k \<le> 8 then tx_state_q e = TX_DATA \<and> tx_bit_cnt_q e = k - 1 \<and> tx_shift_q e = drop_bit (k - 1) c
     else tx_state_q e = TX_STOP"
    using assms(1) unfolding tx_phase_def Let_def k_def j_def by simp_all
  have tick: "(of_nat j = d) = (j = unat d)" using of_nat_div_iff p(2) n by auto
  show ?thesis
  proof (cases "Suc j < n")
    case True
    have div: "(Suc p - 1) div n = k" "(Suc p - 1) mod n = Suc j"
    proof -
      have eq: "Suc p - 1 = Suc j + k * n" "n \<noteq> 0" using p True by simp_all
      show "(Suc p - 1) div n = k" "(Suc p - 1) mod n = Suc j" unfolding eq(1)
        by (simp_all only: div_mult_self1 [OF eq(2)] mod_mult_self1 div_less [OF True] mod_less [OF True] add_0_right)
    qed
    have "tx_edge d emp b e = e\<lparr>tx_baud_cnt_q := of_nat (Suc j)\<rparr>"
      using True e tick n by (auto simp: tx_edge_def add.commute split: if_splits)
    then show ?thesis unfolding tx_phase_def Let_def div using e by simp
  next
    case False
    then have j: "j = unat d" and eq: "p = Suc k * n" using p n by auto
    have "n \<noteq> 0" using n by simp
    have div: "(Suc p - 1) div n = Suc k" "(Suc p - 1) mod n = 0"
      unfolding eq diff_Suc_1 using nonzero_mult_div_cancel_right [OF \<open>n \<noteq> 0\<close>, of "Suc k"] by (simp_all del: mult_Suc)
    have "Suc k < 10" using assms(4) eq \<open>n \<noteq> 0\<close> by (simp only: mult_less_cancel2)
    consider "k = 0" | "0 < k" "k < 8" | "k = 8" using \<open>Suc k < 10\<close> by linarith
    then show ?thesis
    proof cases
      case 1
      then show ?thesis unfolding tx_phase_def Let_def div using e tick j
        by (simp add: tx_edge_def level_def)
    next
      case 2
      then obtain i where "k = Suc i" by (cases k) auto
      then show ?thesis unfolding tx_phase_def Let_def div using 2 e tick j
        by (simp add: tx_edge_def level_def bit_simps)
    next
      case 3
      then show ?thesis unfolding tx_phase_def Let_def div using e tick j
        by (simp add: tx_edge_def level_def)
    qed
  qed
qed

lemma tx_phase_end:
  assumes "tx_phase n c (10 * n) e" and "n = Suc (unat d)"
  shows "tx_at_rest (tx_edge d emp b e)"
proof -
  have div: "(10 * n - 1) div n = 9" "(10 * n - 1) mod n = unat d"
  proof -
    have "10 * n - 1 = n * 9 + unat d" using assms(2) by simp
    then show "(10 * n - 1) div n = 9" "(10 * n - 1) mod n = unat d" using assms(2) by (simp_all only: div_mult_self4 mod_mult_self4) simp_all
  qed
  show ?thesis using assms(1) unfolding tx_phase_def Let_def div by (simp add: tx_edge_def tx_at_rest_def level_def)
qed

lemma frame_levels: "0 < n \<Longrightarrow> frame n c = map (\<lambda>i. level c (i div n)) [0..<10 * n]"
proof -
  assume n: "0 < n"
  have "concat (map (\<lambda>k. replicate n (level c k)) [0..<m]) = map (\<lambda>i. level c (i div n)) [0..<m * n]" for m
  proof (induction m)
    case (Suc m)
    have "(m * n + i) div n = m" if "i < n" for i using that by simp
    then have "map (\<lambda>i. level c ((m * n + i) div n)) [0..<n] = replicate n (level c m)"
      by (simp add: list_eq_iff_nth_eq del: div_mult_self3 div_mult_self1)
    moreover have "[0..<Suc m * n] = [0..<m * n] @ map (\<lambda>i. m * n + i) [0..<n]"
      using map_add_upt [of "m * n" n] upt_add_eq_append [of 0 "m * n" n] by (simp add: add.commute)
    ultimately show ?case using Suc.IH by (simp add: comp_def)
  qed simp
  then show ?thesis by (simp add: frame_def)
qed

text \<open>The line during a frame.\<close>

lemma tx_busy_line:
  assumes "n = Suc (unat d)" and "tx_phase n c p e" and "0 < p" and "p + k \<le> 10 * n"
  shows "\<exists>e'. tx_line_of d k (q, e) = (map (\<lambda>i. level c ((p + i) div n)) [0..<k], q, e') \<and> tx_phase n c (p + k) e'"
  using assms(2-4)
proof (induction k arbitrary: p e)
  case (Suc k)
  let ?e = "tx_edge d (q = []) (hd q) e"
  have ph: "tx_phase n c (Suc p) ?e" using Suc.prems assms(1) by (intro tx_phase_step) simp_all
  have "tx_state_q e \<noteq> TX_IDLE" using Suc.prems(1) by (auto simp: tx_phase_def Let_def split: if_splits)
  then have clock: "tx_clock d (q, e) = (q, ?e)" by (simp add: tx_clock_def tx_fifo_pop_def)
  have "txd_q ?e = level c (p div n)" using ph by (simp add: tx_phase_def Let_def)
  moreover obtain e' where "tx_line_of d k (q, ?e) = (map (\<lambda>i. level c ((Suc p + i) div n)) [0..<k], q, e') \<and> tx_phase n c (Suc p + k) e'"
    using Suc.IH [OF ph] Suc.prems by auto
  moreover have "map (\<lambda>i. level c ((p + i) div n)) [0..<Suc k] = level c (p div n) # map (\<lambda>i. level c ((Suc p + i) div n)) [0..<k]"
    by (simp add: upt_conv_Cons map_Suc_upt [symmetric] comp_def del: upt_Suc)
  ultimately show ?case using clock by (intro exI [of _ e']) (simp add: Let_def del: upt_Suc)
qed simp

lemma tx_frame_line:
  assumes "n = Suc (unat d)" and "tx_at_rest e"
  shows "\<exists>e'. tx_line_of d (10 * n + 1) (c # q, e) = (frame n c @ [True], q, e') \<and> tx_at_rest e'"
proof -
  let ?e = "tx_edge d False c e"
  have ph: "tx_phase n c 1 ?e" by (rule tx_phase_start [OF assms(2)])
  have clock: "tx_clock d (c # q, e) = (q, ?e)" using assms(2) by (simp add: tx_clock_def tx_fifo_pop_def tx_at_rest_def)
  have "1 + (10 * n - 1) \<le> 10 * n" using assms(1) by simp
  from tx_busy_line [OF assms(1) ph _ this, of q] obtain e1 where
    run: "tx_line_of d (10 * n - 1) (q, ?e) = (map (\<lambda>i. level c ((1 + i) div n)) [0..<10 * n - 1], q, e1)"
      "tx_phase n c (1 + (10 * n - 1)) e1" by auto
  have "1 + (10 * n - 1) = 10 * n" using assms(1) by simp
  then have e1: "tx_phase n c (10 * n) e1" using run(2) by simp
  let ?e2 = "tx_edge d (q = []) (hd q) e1"
  have rest: "tx_at_rest ?e2" by (rule tx_phase_end [OF e1 assms(1)])
  have "tx_state_q e1 \<noteq> TX_IDLE" using e1 by (auto simp: tx_phase_def Let_def split: if_splits)
  then have last: "tx_line_of d 1 (q, e1) = ([True], q, ?e2)" using rest by (simp add: tx_clock_def tx_fifo_pop_def tx_at_rest_def)
  have "txd_q ?e = level c 0" using ph by (simp add: tx_phase_def)
  then have first: "tx_line_of d 1 (c # q, e) = ([level c 0], q, ?e)" by (simp add: clock)
  have len: "10 * n + 1 = 1 + ((10 * n - 1) + 1)" using assms(1) by simp
  have "frame n c = level c 0 # map (\<lambda>i. level c ((1 + i) div n)) [0..<10 * n - 1]"
  proof -
    have "[0..<10 * n] = 0 # map Suc [0..<10 * n - 1]" using assms(1) by (simp add: map_Suc_upt upt_conv_Cons)
    then show ?thesis using assms(1) frame_levels [of n c] by (simp add: comp_def)
  qed
  then show ?thesis unfolding len tx_line_of_add [of d 1] tx_line_of_add [of d "10 * n - 1"] first
    using run(1) last rest by simp
qed

lemma tx_queue_line:
  assumes "n = Suc (unat d)" and "tx_at_rest e"
  shows "\<exists>e'. tx_line_of d (length q * (10 * n + 1)) (q, e) = (concat (map (\<lambda>c. frame n c @ [True]) q), [], e') \<and> tx_at_rest e'"
  using assms(2)
proof (induction q arbitrary: e)
  case (Cons c q)
  obtain e1 where one: "tx_line_of d (10 * n + 1) (c # q, e) = (frame n c @ [True], q, e1)" "tx_at_rest e1"
    using tx_frame_line [OF assms(1) Cons.prems] by blast
  obtain e2 where "tx_line_of d (length q * (10 * n + 1)) (q, e1) = (concat (map (\<lambda>c. frame n c @ [True]) q), [], e2)" "tx_at_rest e2"
    using Cons.IH [OF one(2)] by blast
  moreover have "length (c # q) * (10 * n + 1) = (10 * n + 1) + length q * (10 * n + 1)" by simp
  ultimately show ?case using one(1) by (simp only: tx_line_of_add) simp
qed simp

text \<open>the transmitter ships its queue. From rest, with a divisor of \<open>n - 1\<close>, it takes the queued bytes in order
  and puts them on the line as 8N1 frames of \<open>n\<close> clocks a bit, with one more clock of idle line behind each, and is at
  rest again after \<open>10 n + 1\<close> clocks for each byte.\<close>

theorem tx_ships_frames:
  assumes "n = Suc (unat d)" and "tx_at_rest e"
  shows "\<exists>e'. tx_line_of d (length q * (10 * n + 1)) (q, e) = (concat (map (\<lambda>c. frame n c @ [True]) q), [], e') \<and> tx_at_rest e'"
  by (rule tx_queue_line [OF assms])

theorem tx_ships_frames_witness:
  "\<exists>e'. tx_line_of 9 (length [0x41, 0x0D :: u8] * (10 * 10 + 1)) ([0x41, 0x0D], tx_reset)
     = (concat (map (\<lambda>c. frame 10 c @ [True]) [0x41, 0x0D]), [], e') \<and> tx_at_rest e'"
  by (rule tx_ships_frames) (simp_all add: tx_reset_def tx_at_rest_def)

section \<open>The receiver reads frames\<close>

text \<open>The receiver over a line, and the bytes it completes.\<close>

fun rx_run :: "u16 \<Rightarrow> bool list \<Rightarrow> rx_engine \<Rightarrow> u8 list \<times> rx_engine" where
  "rx_run d [] e = ([], e)"
| "rx_run d (x # xs) e = (let (bs, e') = rx_run d xs (rx_edge d x e)
     in ((if rx_frame_done d e then [rx_shift_q e] else []) @ bs, e'))"

lemma rx_run_append: "rx_run d (xs @ ys) e = (let (bs, e) = rx_run d xs e; (cs, e) = rx_run d ys e in (bs @ cs, e))"
  by (induction xs arbitrary: e) (simp_all add: Let_def case_prod_unfold)

text \<open>The receiver after \<open>t\<close> clocks of a frame; it samples in the middle of a bit, \<open>h\<close> and one clocks behind its first.\<close>

definition rx_phase :: "nat \<Rightarrow> nat \<Rightarrow> u8 \<Rightarrow> nat \<Rightarrow> rx_engine \<Rightarrow> bool" where
  "rx_phase n h c t e \<longleftrightarrow>
     (if t = 0 then rx_state_q e = RX_IDLE
      else if t < h + 2 then rx_state_q e = RX_START \<and> rx_cnt_q e = of_nat (t - 1)
      else let k = (t - (h + 2)) div n; j = (t - (h + 2)) mod n in
        if k < 8 then rx_state_q e = RX_DATA \<and> rx_bit_cnt_q e = k \<and> rx_cnt_q e = of_nat j
          \<and> (\<forall>i<k. bit (rx_shift_q e) (8 - k + i) = bit c i)
        else if k = 8 then rx_state_q e = RX_STOP \<and> rx_cnt_q e = of_nat j \<and> rx_shift_q e = c
        else rx_state_q e = RX_IDLE)"

lemma bit_shift_in:
  "bit (drop_bit 1 s OR (if b then 0x80 else 0) :: u8) x \<longleftrightarrow> (if x = 7 then b else bit s (Suc x))"
proof -
  have "(0x80 :: u8) = 2 ^ 7" by simp
  then have top: "bit (0x80 :: u8) x \<longleftrightarrow> x = 7" by (simp only: bit_exp_iff) auto
  have "\<not> bit s 8" using bit_imp_le_length [of s 8] by auto
  moreover have "bit (drop_bit 1 s OR (if b then 0x80 else 0) :: u8) x \<longleftrightarrow> bit s (Suc x) \<or> b \<and> x = 7"
    by (cases b) (simp_all only: if_True if_False bit_or_iff bit_drop_bit_eq top or.right_neutral o_def plus_1_eq_Suc simp_thms)
  ultimately show ?thesis by auto
qed

lemma shift_in:
  assumes "\<forall>i<k. bit s (8 - k + i) = bit (c :: u8) i" and "k < 8"
  shows "\<forall>i<Suc k. bit (drop_bit 1 s OR (if bit c k then 0x80 else 0) :: u8) (8 - Suc k + i) = bit c i"
proof (intro allI impI)
  fix i assume "i < Suc k"
  then show "bit (drop_bit 1 s OR (if bit c k then 0x80 else 0) :: u8) (8 - Suc k + i) = bit c i"
  proof (cases "i = k")
    case False
    then have "Suc (8 - Suc k + i) = 8 - k + i" "8 - Suc k + i \<noteq> 7" using assms(2) \<open>i < Suc k\<close> by simp_all
    moreover have "bit s (8 - k + i) = bit c i" using False assms(1) \<open>i < Suc k\<close> by simp
    ultimately show ?thesis unfolding bit_shift_in by (simp only: if_False)
  qed (use assms(2) in \<open>simp only: bit_shift_in, simp\<close>)
qed

text \<open>Clock \<open>t\<close> of a frame is clock \<open>j\<close> of the receiver's bit \<open>k\<close>; its last clock falls into the next bit of the line.\<close>

lemma rx_clock:
  assumes "h + 1 < n" and "h + 2 \<le> t"
  defines "k \<equiv> (t - (h + 2)) div n" and "j \<equiv> (t - (h + 2)) mod n"
  shows "t = h + 2 + k * n + j" and "j < n"
    and "Suc j < n \<Longrightarrow> (Suc t - (h + 2)) div n = k \<and> (Suc t - (h + 2)) mod n = Suc j"
    and "Suc j = n \<Longrightarrow> (Suc t - (h + 2)) div n = Suc k \<and> (Suc t - (h + 2)) mod n = 0 \<and> t div n = Suc k"
proof -
  have n: "0 < n" using assms(1) by simp
  have eq: "t - (h + 2) = j + k * n" by (simp add: k_def j_def)
  show t: "t = h + 2 + k * n + j" using eq assms(2) by simp
  show "j < n" using n by (simp add: j_def)
  have suc: "Suc t - (h + 2) = Suc j + k * n" using t by simp
  show "(Suc t - (h + 2)) div n = k \<and> (Suc t - (h + 2)) mod n = Suc j" if "Suc j < n"
    unfolding suc using that n div_mult_self1 [of n "Suc j" k] mod_mult_self1 [of "Suc j" k n] by (simp del: add_Suc)
  show "(Suc t - (h + 2)) div n = Suc k \<and> (Suc t - (h + 2)) mod n = 0 \<and> t div n = Suc k" if "Suc j = n"
  proof (intro conjI)
    have s: "Suc t - (h + 2) = Suc k * n" using suc that by simp
    show "(Suc t - (h + 2)) div n = Suc k" "(Suc t - (h + 2)) mod n = 0"
      unfolding s using n nonzero_mult_div_cancel_right [of n "Suc k"] by (simp_all del: mult_Suc)
    have "t = h + 1 + Suc k * n" using t that by simp
    then show "t div n = Suc k" using n assms(1) div_mult_self1 [of n "h + 1" "Suc k"] by (simp del: mult_Suc)
  qed
qed

lemma half_divisor: "0 < unat d \<Longrightarrow> unat (drop_bit 1 d) < unat (d :: u16)"
  by (simp add: unat_drop_bit_eq drop_bit_eq_div unat_div)

lemma rx_phase_step:
  assumes "rx_phase n h c t e" and n: "n = Suc (unat d)" "0 < unat d" and h: "h = unat (drop_bit 1 d)" and t: "t < 10 * n"
  shows "rx_phase n h c (Suc t) (rx_edge d (level c (t div n)) e)"
    and "rx_frame_done d e \<longleftrightarrow> t = h + 1 + 9 * n" and "rx_frame_done d e \<Longrightarrow> rx_shift_q e = c"
proof -
  have hn: "h + 1 < n" using half_divisor [OF n(2)] n(1) h by simp
  have "rx_phase n h c (Suc t) (rx_edge d (level c (t div n)) e) \<and> (rx_frame_done d e \<longleftrightarrow> t = h + 1 + 9 * n)
      \<and> (rx_frame_done d e \<longrightarrow> rx_shift_q e = c)"
  proof -
    consider "t = 0" | "0 < t" "t < h + 1" | "t = h + 1" | "h + 2 \<le> t" by linarith
    then show ?thesis
    proof cases
      case 1
      then show ?thesis using assms(1) hn by (simp add: rx_phase_def rx_edge_def rx_frame_done_def level_def)
    next
      case 2
      have half: "(of_nat (t - 1) = drop_bit 1 d) = (t - 1 = h)" using of_nat_div_iff [of "t - 1" "drop_bit 1 d"] 2 h by simp
      have "of_nat (t - 1) + 1 = (of_nat t :: u16)" using 2 by (cases t) simp_all
      then show ?thesis using assms(1) 2 half hn by (auto simp: rx_phase_def rx_edge_def rx_frame_done_def)
    next
      case 3
      then have "(of_nat (t - 1) = drop_bit 1 d)" "t div n = 0" using h hn by simp_all
      then show ?thesis using assms(1) 3 hn by (simp add: rx_phase_def rx_edge_def rx_frame_done_def level_def)
    next
      case 4
      define k j where "k = (t - (h + 2)) div n" and "j = (t - (h + 2)) mod n"
      note clk = rx_clock [OF hn 4, folded k_def j_def]
      have tick: "(of_nat j = d) = (Suc j = n)" using of_nat_div_iff [of j d] clk(2) n by auto
      have "\<not> t < h + 2" "t \<noteq> 0" "\<not> Suc t < h + 2" "Suc t \<noteq> 0" using 4 by simp_all
      note phase = rx_phase_def [of n h c t, folded k_def j_def, unfolded if_not_P [OF this(1)] if_not_P [OF this(2)]]
        rx_phase_def [of n h c "Suc t", unfolded if_not_P [OF this(3)] if_not_P [OF this(4)]]
      have done_iff: "k = 8 \<and> Suc j = n \<longleftrightarrow> t = h + 1 + 9 * n"
      proof
        assume "t = h + 1 + 9 * n"
        then have eq: "k * n + Suc j = 9 * n" using clk(1) by simp
        then have "k * n < 9 * n" "9 * n \<le> Suc k * n" using clk(2) mult_Suc [of k n] by linarith+
        then have "k < 9" "9 \<le> Suc k" using hn mult_less_cancel2 [of k n 9] mult_le_cancel2 [of 9 n "Suc k"] by linarith+
        then have "k = 8" by simp
        then show "k = 8 \<and> Suc j = n" using eq by simp
      qed (use clk(1) in simp)
      have e: "if k < 8 then rx_state_q e = RX_DATA \<and> rx_bit_cnt_q e = k \<and> rx_cnt_q e = of_nat j
            \<and> (\<forall>i<k. bit (rx_shift_q e) (8 - k + i) = bit c i)
          else if k = 8 then rx_state_q e = RX_STOP \<and> rx_cnt_q e = of_nat j \<and> rx_shift_q e = c
          else rx_state_q e = RX_IDLE"
        using assms(1) unfolding phase(1) Let_def .
      have fin: "rx_frame_done d e \<longleftrightarrow> t = h + 1 + 9 * n" "rx_frame_done d e \<longrightarrow> rx_shift_q e = c"
        using e tick done_iff by (auto simp: rx_frame_done_def split: if_splits)
      have "rx_phase n h c (Suc t) (rx_edge d (level c (t div n)) e)"
      proof (cases "Suc j < n")
        case True
        have "of_nat j + 1 = (of_nat (Suc j) :: u16)" by simp
        moreover have "level c (t div n)" if "9 \<le> k"
        proof -
          have "9 * n \<le> k * n" using that by (rule mult_le_mono1)
          then have "9 * n \<le> t" using clk(1) by linarith
          then have "9 \<le> t div n" using n(1) by (simp add: less_eq_div_iff_mult_less_eq)
          then show ?thesis by (simp add: level_def)
        qed
        ultimately show ?thesis unfolding phase(2) Let_def clk(3) [OF True, THEN conjunct1] clk(3) [OF True, THEN conjunct2]
          using e tick True by (auto simp: rx_edge_def split: if_splits)
      next
        case False
        then have last: "Suc j = n" using clk(2) by simp
        have "k * n < 10 * n" using clk(1) t by linarith
        then have k: "k < 10" by simp
        consider "k < 7" | "k = 7" | "k = 8" | "k = 9" using k by linarith
        then show ?thesis
        proof cases
          case 1
          then have "level c (Suc k) = bit c k" by (simp add: level_def)
          then show ?thesis unfolding phase(2) Let_def clk(4) [OF last, THEN conjunct1] clk(4) [OF last, THEN conjunct2, THEN conjunct1]
              clk(4) [OF last, THEN conjunct2, THEN conjunct2]
            using e tick last 1 shift_in [of k "rx_shift_q e" c] by (simp add: rx_edge_def)
        next
          case 2
          then have "level c (Suc k) = bit c 7" by (simp add: level_def)
          moreover have "drop_bit 1 (rx_shift_q e) OR (if bit c 7 then 0x80 else 0) = c"
            using e 2 shift_in [of k "rx_shift_q e" c] by (intro bit_word_eqI) simp
          ultimately show ?thesis unfolding phase(2) Let_def clk(4) [OF last, THEN conjunct1] clk(4) [OF last, THEN conjunct2, THEN conjunct1]
              clk(4) [OF last, THEN conjunct2, THEN conjunct2]
            using e tick last 2 by (simp add: rx_edge_def)
        next
          case 3
          then show ?thesis unfolding phase(2) Let_def clk(4) [OF last, THEN conjunct1] clk(4) [OF last, THEN conjunct2, THEN conjunct1]
            using e tick last by (simp add: rx_edge_def)
        next
          case 4
          then show ?thesis unfolding phase(2) Let_def clk(4) [OF last, THEN conjunct1] clk(4) [OF last, THEN conjunct2, THEN conjunct1]
              clk(4) [OF last, THEN conjunct2, THEN conjunct2]
            using e by (simp add: rx_edge_def level_def)
        qed
      qed
      then show ?thesis using fin by blast
    qed
  qed
  then show "rx_phase n h c (Suc t) (rx_edge d (level c (t div n)) e)"
    "rx_frame_done d e \<longleftrightarrow> t = h + 1 + 9 * n" "rx_frame_done d e \<Longrightarrow> rx_shift_q e = c" by blast+
qed

lemma rx_frame_part:
  assumes n: "n = Suc (unat d)" "0 < unat d" and h: "h = unat (drop_bit 1 d)" and "rx_phase n h c t e" and "t + k \<le> 10 * n"
  shows "\<exists>e'. rx_run d (map (\<lambda>i. level c ((t + i) div n)) [0..<k]) e
      = (if t \<le> h + 1 + 9 * n \<and> h + 1 + 9 * n < t + k then [c] else [], e') \<and> rx_phase n h c (t + k) e'"
  using assms(4,5)
proof (induction k arbitrary: t e)
  case (Suc k)
  have t: "t < 10 * n" using Suc.prems by simp
  note step = rx_phase_step [OF Suc.prems(1) n h t]
  obtain e' where run: "rx_run d (map (\<lambda>i. level c ((Suc t + i) div n)) [0..<k]) (rx_edge d (level c (t div n)) e)
      = (if Suc t \<le> h + 1 + 9 * n \<and> h + 1 + 9 * n < Suc t + k then [c] else [], e')" "rx_phase n h c (Suc t + k) e'"
    using Suc.IH [OF step(1)] Suc.prems(2) by auto
  have "map (\<lambda>i. level c ((t + i) div n)) [0..<Suc k] = level c (t div n) # map (\<lambda>i. level c ((Suc t + i) div n)) [0..<k]"
    by (simp add: upt_conv_Cons map_Suc_upt [symmetric] comp_def del: upt_Suc)
  then show ?case using run step(2,3) by (intro exI [of _ e']) (auto simp: Let_def simp del: upt_Suc)
qed simp

definition rx_at_rest :: "rx_engine \<Rightarrow> bool" where
  "rx_at_rest e \<longleftrightarrow> rx_state_q e = RX_IDLE"

lemma rx_frame_run:
  assumes n: "n = Suc (unat d)" "0 < unat d" and "rx_at_rest e"
  shows "\<exists>e'. rx_run d (frame n c) e = ([c], e') \<and> rx_at_rest e'"
proof -
  define h where "h = unat (drop_bit 1 d)"
  have hn: "h + 1 < n" using half_divisor [OF n(2)] n(1) h_def by simp
  have "rx_phase n h c 0 e" using assms(3) by (simp add: rx_phase_def rx_at_rest_def)
  from rx_frame_part [OF n h_def this, of "10 * n"] obtain e' where
    run: "rx_run d (map (\<lambda>i. level c (i div n)) [0..<10 * n]) e = (if h + 1 + 9 * n < 10 * n then [c] else [], e')"
      "rx_phase n h c (10 * n) e'" by auto
  have "9 * n \<le> 10 * n - (h + 2)" using hn by simp
  then have "9 \<le> (10 * n - (h + 2)) div n" using n(1) by (simp add: less_eq_div_iff_mult_less_eq)
  moreover have "\<not> 10 * n < h + 2" "10 * n \<noteq> 0" using hn by simp_all
  ultimately have "rx_at_rest e'" using run(2) unfolding rx_phase_def rx_at_rest_def Let_def by (simp split: if_splits)
  then show ?thesis using run(1) hn frame_levels [of n c] by auto
qed

lemma rx_idle_run: "rx_at_rest e \<Longrightarrow> \<exists>e'. rx_run d (replicate g True) e = ([], e') \<and> rx_at_rest e'"
proof (induction g arbitrary: e)
  case (Suc g)
  have "rx_at_rest (rx_edge d True e)" "\<not> rx_frame_done d e" using Suc.prems by (simp_all add: rx_at_rest_def rx_edge_def rx_frame_done_def)
  then show ?case using Suc.IH by (fastforce simp: Let_def)
qed simp

lemma rx_frames_run:
  assumes "n = Suc (unat d)" and "0 < unat d" and "rx_at_rest e"
  shows "\<exists>e'. rx_run d (concat (map (\<lambda>(c, g). frame n c @ replicate g True) cs)) e = (map fst cs, e') \<and> rx_at_rest e'"
  using assms(3)
proof (induction cs arbitrary: e)
  case (Cons cg cs)
  obtain c g where cg: "cg = (c, g)" by (cases cg)
  obtain e1 where 1: "rx_run d (frame n c) e = ([c], e1)" "rx_at_rest e1" using rx_frame_run [OF assms(1,2) Cons.prems] by blast
  obtain e2 where 2: "rx_run d (replicate g True) e1 = ([], e2)" "rx_at_rest e2" using rx_idle_run [OF 1(2)] by blast
  show ?case using Cons.IH [OF 2(2)] 1 2 by (auto simp: cg rx_run_append Let_def case_prod_unfold)
qed simp

text \<open>the receiver reads what is sent at its own rate. With a divisor of \<open>n - 1 > 0\<close> it completes, from rest, exactly
  the bytes of the 8N1 frames of \<open>n\<close> clocks a bit on its line, in order, whatever idle time is between the frames,
  none at all included, and is at rest again behind the last stop bit.\<close>

theorem rx_receives_frames:
  assumes "n = Suc (unat d)" and "0 < unat d" and "rx_at_rest e"
  shows "\<exists>e'. rx_run d (concat (map (\<lambda>(c, g). frame n c @ replicate g True) cs)) e = (map fst cs, e') \<and> rx_at_rest e'"
  by (rule rx_frames_run [OF assms])

theorem rx_receives_frames_witness:
  "\<exists>e'. rx_run 4 (concat (map (\<lambda>(c, g). frame 5 c @ replicate g True) [(0x41, 0), (0x0D, 7)])) rx_reset
     = (map fst [(0x41, 0), (0x0D, 7 :: nat)], e') \<and> rx_at_rest e'"
  by (rule rx_receives_frames) (simp_all add: rx_reset_def rx_at_rest_def)

lemma tx_line_idle_gaps: "concat (map (\<lambda>c. frame n c @ [True]) q) = concat (map (\<lambda>(c, g). frame n c @ replicate g True) (map (\<lambda>c. (c, 1)) q))"
  by (simp add: comp_def)

text \<open>C13: two UARTs of the same divisor, other than 0, talk: what one transmitter makes of its queue, the other receiver
  reads back, every byte in order.\<close>

theorem uart_loop_back:
  assumes "n = Suc (unat d)" and "0 < unat d" and "tx_at_rest e" and "rx_at_rest r"
  shows "fst (rx_run d (fst (tx_line_of d (length q * (10 * n + 1)) (q, e))) r) = q"
proof -
  obtain e' where tx: "tx_line_of d (length q * (10 * n + 1)) (q, e) = (concat (map (\<lambda>c. frame n c @ [True]) q), [], e')"
    using tx_queue_line [OF assms(1,3)] by blast
  obtain r' where "rx_run d (concat (map (\<lambda>(c, g). frame n c @ replicate g True) (map (\<lambda>c. (c, 1)) q))) r
      = (map fst (map (\<lambda>c. (c, 1 :: nat)) q), r')" using rx_frames_run [OF assms(1,2,4)] by blast
  then show ?thesis unfolding tx fst_conv tx_line_idle_gaps by (simp add: comp_def)
qed

theorem uart_loop_back_witness:
  "fst (rx_run 4 (fst (tx_line_of 4 (length [0x41 :: u8] * (10 * 5 + 1)) ([0x41], tx_reset))) rx_reset) = [0x41]"
  by (rule uart_loop_back) (simp_all add: tx_reset_def tx_at_rest_def rx_reset_def rx_at_rest_def)

text \<open>With the divisor 0 the receiver confirms the start bit in the first data bit, and reads every byte shifted.\<close>

lemma rx_divisor_0: "fst (rx_run 0 (frame 1 0x54 @ [True]) rx_reset) = [0xAA]"
  by code_simp

section \<open>Writes of the divisor\<close>

text \<open>A run, the values written to BAUDDIV in its cycles, and a run in each cycle of which an engine works.\<close>

primrec uart_cycles :: "(axi_master \<times> bool) list \<Rightarrow> uart_rtl \<Rightarrow> uart_rtl" where
  "uart_cycles [] u = u"
| "uart_cycles (x # xs) u = uart_cycles xs (run_edge (fst x) (snd x) u)"

definition divisor_written :: "axi_master \<Rightarrow> uart_rtl \<Rightarrow> u16 list" where
  "divisor_written m u = (if udo_write u m \<and> wr_low_byte u m \<and> waddr_eff u m = REG_BAUDDIV then [ucast (wdata_eff u m)] else [])"

primrec divisors_written :: "(axi_master \<times> bool) list \<Rightarrow> uart_rtl \<Rightarrow> u16 list" where
  "divisors_written [] u = []"
| "divisors_written (x # xs) u = divisor_written (fst x) u @ divisors_written xs (run_edge (fst x) (snd x) u)"

definition both_idle :: "uart_rtl \<Rightarrow> bool" where
  "both_idle u \<longleftrightarrow> tx_state_q (tx u) = TX_IDLE \<and> rx_state_q (rx u) = RX_IDLE"

primrec busy_during :: "(axi_master \<times> bool) list \<Rightarrow> uart_rtl \<Rightarrow> bool" where
  "busy_during [] u = True"
| "busy_during (x # xs) u = (\<not> both_idle u \<and> busy_during xs (run_edge (fst x) (snd x) u))"

definition waiting_divisor :: "uart_rtl \<Rightarrow> u16 list" where
  "waiting_divisor u = (if div_pending_valid_q u then [div_pending_q u] else [])"

lemma divisor_edge:
  "div_q (run_edge m rxd u) = (if both_idle u \<and> waiting_divisor u \<noteq> [] then hd (waiting_divisor u) else div_q u)"
  "waiting_divisor (run_edge m rxd u) = (if both_idle u \<and> waiting_divisor u \<noteq> [] then []
     else if divisor_written m u \<noteq> [] then divisor_written m u else waiting_divisor u)"
  by (auto simp: run_edge_def rings_edge_def div_apply_def both_idle_def waiting_divisor_def divisor_written_def Let_def)

lemma divisor_written_single: "divisor_written m u = [] \<or> (\<exists>v. divisor_written m u = [v])"
  by (simp add: divisor_written_def)

text \<open>While an engine works the divisor stays, and the last value written waits.\<close>

lemma busy_divisor:
  assumes "busy_during xs u" and "waiting_divisor u = [w]"
  shows "div_q (uart_cycles xs u) = div_q u \<and> waiting_divisor (uart_cycles xs u) = [last (w # divisors_written xs u)]"
  using assms
proof (induction xs arbitrary: u w)
  case (Cons x xs)
  let ?u = "run_edge (fst x) (snd x) u"
  have e: "div_q ?u = div_q u" "waiting_divisor ?u = [last (w # divisor_written (fst x) u)]"
    using Cons.prems divisor_written_single [of "fst x" u] by (auto simp: divisor_edge)
  from Cons.IH [OF _ e(2)] Cons.prems(1) e(1) divisor_written_single [of "fst x" u] show ?case by auto
qed simp

lemma busy_during_take: "busy_during xs u \<Longrightarrow> busy_during (take i xs) u"
  by (induction xs arbitrary: i u) (auto simp: take_Cons split: nat.splits)

lemma no_divisor:
  "divisors_written zs u = [] \<Longrightarrow> waiting_divisor u = [] \<Longrightarrow> div_q (uart_cycles zs u) = div_q u"
  by (induction zs arbitrary: u) (simp_all add: divisor_edge)

lemma write_answered: "udo_write u m \<Longrightarrow> bvalid_q (bus (run_edge m rxd u))"
proof -
  assume w: "udo_write u m"
  then have "\<not> ub_hs u m" by (simp add: udo_write_def ub_hs_def uart_out_def Let_def)
  then show ?thesis using w by (simp add: run_edge_def rings_edge_def bus_edge_def Let_def)
qed

text \<open>C27: a divisor that is written waits until both engines are idle. Let a write of BAUDDIV commit in the first cycle of a run,
  with no other value waiting, and let an engine work in all cycles after it. Then the divisor stays what it
  was in every cycle of the run, and in the first cycle that finds both engines idle the last value written becomes the
  divisor, at once and for good, until another is written. But a write committed in that very cycle is lost: it
  is acknowledged, yet as long as no other follows the divisor remains the value that waited.\<close>

theorem baud_writes:
  assumes "waiting_divisor u = []" and "divisor_written (fst x) u \<noteq> []"
    and "busy_during ws (run_edge (fst x) (snd x) u)" and "divisors_written (x # ws) u = vs @ [v]"
    and "d = uart_cycles (x # ws) u" and "both_idle d" and "e = run_edge m rxd d" and "divisors_written zs e = []"
  shows "(\<forall>i. div_q (uart_cycles (take i (x # ws)) u) = div_q u) \<and> div_q e = v \<and> div_q (uart_cycles zs e) = v
    \<and> (udo_write d m \<longrightarrow> bvalid_q (bus e))"
proof -
  let ?u = "run_edge (fst x) (snd x) u"
  obtain w where w: "divisor_written (fst x) u = [w]" using assms(2) divisor_written_single by blast
  then have u: "div_q ?u = div_q u" "waiting_divisor ?u = [w]" using assms(1) by (simp_all add: divisor_edge)
  have "div_q (uart_cycles (take i (x # ws)) u) = div_q u" for i
    using busy_divisor [OF busy_during_take [OF assms(3)] u(2)] u(1) by (cases i) simp_all
  moreover have d: "waiting_divisor d = [v]"
    using busy_divisor [OF assms(3) u(2)] w assms(4) unfolding assms(5) by (metis append_Cons append_Nil divisors_written.simps(2) last_snoc uart_cycles.simps(2))
  then have "div_q e = v" "waiting_divisor e = []" using assms(6) by (simp_all add: assms(7) divisor_edge)
  ultimately show ?thesis using no_divisor [OF assms(8)] write_answered [of d m rxd] assms(7) by simp
qed

text \<open>A cycle of a UART in use: a byte waits for the idle transmitter, the receiver is at the end of a frame, and the
  master writes 4 to BAUDDIV while the value 9 is still pending.\<close>

definition busy_rtl :: uart_rtl where
  "busy_rtl = \<lparr>bus = bus_reset, tx_ie_q = False, rx_ie_q = True, div_q = 3, div_pending_q = 9, div_pending_valid_q = True,
     tx = tx_reset, rx = \<lparr>rx_state_q = RX_STOP, rx_shift_q = 0x41, rx_bit_cnt_q = 7, rx_cnt_q = 3\<rparr>, rx_overrun_q = False,
     tx_ring = \<lparr>store = (\<lambda>_. 0x5A), wptr = 2, rptr = 1\<rparr>, rx_ring = \<lparr>store = (\<lambda>_. 0x30), wptr = 17, rptr = 1\<rparr>\<rparr>"

definition baud_write :: axi_master where
  "baud_write = \<lparr>awaddr = 0x10, awvalid = True, wdata = 4, wstrb = 1, wvalid = True, bready = True, araddr = 4,
     arvalid = True, rready = True\<rparr>"

lemma busy_rtl_ok: "rtl_ok busy_rtl"
  by (simp add: rtl_ok_def ring_ok_def occupied_def busy_rtl_def)

lemma baud_write_commits: "udo_write busy_rtl baud_write" "wr_low_byte busy_rtl baud_write" "waddr_eff busy_rtl baud_write = REG_BAUDDIV"
  by code_simp+

theorem rtl_refines_device_witness:
  "rtl_ok (run_edge baud_write True busy_rtl)
    \<and> device ([] @ (if ships busy_rtl then [fifo_head (tx_ring busy_rtl)] else [])) (run_edge baud_write True busy_rtl)
      = (fold hw_event (engine_events busy_rtl) (bus_access busy_rtl baud_write (device [] busy_rtl)))
          \<lparr>rx_stale := fifo_head (rx_ring (run_edge baud_write True busy_rtl))\<rparr>"
  by (rule rtl_refines_device [OF busy_rtl_ok])

theorem rtl_reads_device_witness:
  "rtl_irq busy_rtl = uart_irq (device [] busy_rtl) \<and> status_word (device [] busy_rtl) = rdata_mux busy_rtl (baud_write\<lparr>araddr := 8\<rparr>)
    \<and> fst (read_rxdata (device [] busy_rtl)) = rdata_mux busy_rtl (baud_write\<lparr>araddr := 4\<rparr>)"
  by (rule rtl_reads_device [OF busy_rtl_ok])

text \<open>The receiver is in its stop bit for two cycles more. BAUDDIV is written twice before it is idle, with 4 and 6, and a
  third time, with 7, in the cycle that finds it idle. The divisor becomes 6, and the third write is lost.\<close>

definition stopping_rtl :: uart_rtl where
  "stopping_rtl = busy_rtl\<lparr>div_pending_valid_q := False, rx := \<lparr>rx_state_q = RX_STOP, rx_shift_q = 0x41, rx_bit_cnt_q = 7, rx_cnt_q = 0\<rparr>,
     tx_ring := \<lparr>store = (\<lambda>_. 0x5A), wptr = 1, rptr = 1\<rparr>\<rparr>"

definition bus_at_rest :: axi_master where
  "bus_at_rest = baud_write\<lparr>awvalid := False, wvalid := False, arvalid := False\<rparr>"

definition baud_writing :: "(axi_master \<times> bool) list" where
  "baud_writing = [(bus_at_rest, True), (baud_write\<lparr>wdata := 6, arvalid := False\<rparr>, True), (bus_at_rest, True)]"

lemma stopping_facts:
  "waiting_divisor stopping_rtl = []" "divisor_written baud_write stopping_rtl = [4]"
  "busy_during baud_writing (run_edge baud_write True stopping_rtl)"
  "divisors_written ((baud_write, True) # baud_writing) stopping_rtl = [4, 6]"
  "both_idle (uart_cycles ((baud_write, True) # baud_writing) stopping_rtl)"
  "udo_write (uart_cycles ((baud_write, True) # baud_writing) stopping_rtl) (baud_write\<lparr>wdata := 7\<rparr>)"
  by code_simp+

theorem baud_writes_witness:
  "div_q (run_edge (baud_write\<lparr>wdata := 7\<rparr>) True (uart_cycles ((baud_write, True) # baud_writing) stopping_rtl)) = 6
    \<and> bvalid_q (bus (run_edge (baud_write\<lparr>wdata := 7\<rparr>) True (uart_cycles ((baud_write, True) # baud_writing) stopping_rtl)))
    \<and> div_q (uart_cycles [] (run_edge (baud_write\<lparr>wdata := 7\<rparr>) True (uart_cycles ((baud_write, True) # baud_writing) stopping_rtl))) = 6"
proof -
  have "divisor_written (fst (baud_write, True)) stopping_rtl \<noteq> []" "divisors_written ((baud_write, True) # baud_writing) stopping_rtl = [4] @ [6]"
    "busy_during baud_writing (run_edge (fst (baud_write, True)) (snd (baud_write, True)) stopping_rtl)"
    using stopping_facts(2-4) by simp_all
  from baud_writes [OF stopping_facts(1) this(1,3,2) refl stopping_facts(5) refl, of "[]" "baud_write\<lparr>wdata := 7\<rparr>" True]
  show ?thesis using stopping_facts(6) by simp
qed

end
