(* ===== verification/Uart_Tb.thy ===== *)
theory Uart_Tb
  imports Uart_Rtl
begin

text \<open>
  The bench \<open>sim/hw/uart_tb/uart_tb.cpp\<close> on the UART of \<open>Uart_Rtl\<close>, in its wrapper \<open>uart_tb.sv\<close>: 10 clocks a bit, FIFOs
  of 16 bytes. Conventions as in \<open>Axi_Ram_Tb\<close>: \<open>umst\<close> is what the bench drives, \<open>uslv\<close>, \<open>txd_o\<close> and \<open>irq_o\<close> what it sees
  since the last evaluation, \<open>urtl\<close> the registers. The monitor of the line and the levels of a frame are those of
  \<open>Sim_Serial\<close>. Shown here: what each access and each frame does to the device, from any state between accesses, and
  that the whole bench passes.
\<close>

section \<open>The bench\<close>

definition TB_TXDATA :: u32 where "TB_TXDATA = 0x00"
definition TB_RXDATA :: u32 where "TB_RXDATA = 0x04"
definition TB_STATUS :: u32 where "TB_STATUS = 0x08"
definition TB_CTRL :: u32 where "TB_CTRL = 0x0C"

definition ST_TX_READY :: u32 where "ST_TX_READY = 0x1"
definition ST_RX_READY :: u32 where "ST_RX_READY = 0x2"
definition ST_RX_OVERRUN :: u32 where "ST_RX_OVERRUN = 0x4"

definition CTRL_TX_IE :: u32 where "CTRL_TX_IE = 0x1"
definition CTRL_RX_IE :: u32 where "CTRL_RX_IE = 0x2"

record ubench =
  urstn :: bool
  urxd :: bool
  umst :: axi_master
  uslv :: axi_slave
  txd_o :: bool
  irq_o :: bool
  urtl :: uart_rtl
  mon :: monitor
  tx_taken :: nat
  uchecks :: nat
  ufails :: nat
  umessages :: "string list"

text \<open>\<open>BAUD_DIV_RESET\<close> is \<open>1000 / 100 - 1\<close>.\<close>

definition ueval :: "ubench \<Rightarrow> ubench" where
  "ueval b = b\<lparr>uslv := uart_out (urtl b) (umst b), txd_o := txd_q (tx (urtl b)), irq_o := rtl_irq (urtl b)\<rparr>"

definition uposedge :: "ubench \<Rightarrow> ubench" where
  "uposedge b = b\<lparr>urtl := uart_edge 9 (urstn b) (umst b) (urxd b) (urtl b)\<rparr>"

definition utick :: "ubench \<Rightarrow> ubench" where
  "utick b = (let b = ueval (uposedge (ueval b)) in b\<lparr>mon := tx_monitor (txd_o b) (mon b)\<rparr>)"

definition udrive :: "(axi_master \<Rightarrow> axi_master) \<Rightarrow> ubench \<Rightarrow> ubench" where
  "udrive f b = b\<lparr>umst := f (umst b)\<rparr>"

definition UCHECK :: "bool \<Rightarrow> string \<Rightarrow> ubench \<Rightarrow> ubench" where
  "UCHECK cond msg b = (let b = b\<lparr>uchecks := uchecks b + 1\<rparr> in
     if cond then b else b\<lparr>ufails := ufails b + 1, umessages := umessages b @ [msg]\<rparr>)"

definition UCHECK_EQ :: "u32 \<Rightarrow> u32 \<Rightarrow> string \<Rightarrow> ubench \<Rightarrow> ubench" where
  "UCHECK_EQ got want msg b = UCHECK (got = want) msg b"

definition uidle :: "ubench \<Rightarrow> ubench" where
  "uidle b = ueval (udrive (\<lambda>m. m\<lparr>awvalid := False, wvalid := False, arvalid := False, bready := True, rready := True\<rparr>) b)"

text \<open>The loop of a write: iterations left, the three flags, the cycles counted.\<close>

primrec axi_write_loop :: "nat \<Rightarrow> bool \<Rightarrow> bool \<Rightarrow> bool \<Rightarrow> nat \<Rightarrow> ubench \<Rightarrow> bool \<times> nat \<times> ubench" where
  "axi_write_loop 0 aw w wb cycles b = (aw \<and> w \<and> wb, cycles, b)"
| "axi_write_loop (Suc n) aw w wb cycles b = (if aw \<and> w \<and> wb then (True, cycles, b) else let
     b = ueval b;
     aw = (aw \<or> awvalid (umst b) \<and> awready (uslv b));
     w = (w \<or> wvalid (umst b) \<and> wready (uslv b));
     wb = (wb \<or> bvalid (uslv b) \<and> bready (umst b));
     b = utick b;
     b = (if aw then udrive (\<lambda>m. m\<lparr>awvalid := False\<rparr>) b else b);
     b = (if w then udrive (\<lambda>m. m\<lparr>wvalid := False\<rparr>) b else b)
   in axi_write_loop n aw w wb (cycles + 1) b)"

definition axi_write_timed :: "u32 \<Rightarrow> u32 \<Rightarrow> nat \<Rightarrow> ubench \<Rightarrow> nat \<times> ubench" where
  "axi_write_timed addr data guard_cycles b = (let
     b = udrive (\<lambda>m. m\<lparr>awaddr := addr, awvalid := True, wdata := data, wstrb := 0xF, wvalid := True, bready := True\<rparr>) b;
     (complete, cycles, b) = axi_write_loop guard_cycles False False False 0 b;
     b = UCHECK complete ''axi_write did not complete'' b
   in (cycles, uidle b))"

definition axi_write :: "u32 \<Rightarrow> u32 \<Rightarrow> ubench \<Rightarrow> ubench" where
  "axi_write addr data b = snd (axi_write_timed addr data 32 b)"

primrec axi_read_loop :: "nat \<Rightarrow> bool \<Rightarrow> bool \<Rightarrow> u32 \<Rightarrow> ubench \<Rightarrow> bool \<times> u32 \<times> ubench" where
  "axi_read_loop 0 ar r v b = (ar \<and> r, v, b)"
| "axi_read_loop (Suc n) ar r v b = (if ar \<and> r then (True, v, b) else let
     b = ueval b;
     ar = (ar \<or> arvalid (umst b) \<and> arready (uslv b));
     (r, v) = (if rvalid (uslv b) \<and> rready (umst b) then (True, rdata (uslv b)) else (r, v));
     b = utick b;
     b = (if ar then udrive (\<lambda>m. m\<lparr>arvalid := False\<rparr>) b else b)
   in axi_read_loop n ar r v b)"

definition axi_read :: "u32 \<Rightarrow> ubench \<Rightarrow> u32 \<times> ubench" where
  "axi_read addr b = (let
     b = udrive (\<lambda>m. m\<lparr>araddr := addr, arvalid := True, rready := True\<rparr>) b;
     (complete, v, b) = axi_read_loop 32 False False 0 b;
     b = UCHECK complete ''axi_read did not complete'' b
   in (v, uidle b))"

text \<open>\<open>rx_frame\<close> puts the levels of a frame on \<open>rxd_i\<close>, one tick each.\<close>

definition send_frame :: "u8 \<Rightarrow> ubench \<Rightarrow> ubench" where
  "send_frame byte b = fold (\<lambda>level b. utick (b\<lparr>urxd := level\<rparr>)) (rx_frame byte) b"

primrec tx_frame_loop :: "nat \<Rightarrow> ubench \<Rightarrow> int \<times> ubench" where
  "tx_frame_loop 0 b = (if length (tx_bytes (mon b)) \<le> tx_taken b then (-1, b)
     else (int (tx_bytes (mon b) ! tx_taken b), b\<lparr>tx_taken := tx_taken b + 1\<rparr>))"
| "tx_frame_loop (Suc n) b = (if length (tx_bytes (mon b)) \<le> tx_taken b then tx_frame_loop n (utick b)
     else (int (tx_bytes (mon b) ! tx_taken b), b\<lparr>tx_taken := tx_taken b + 1\<rparr>))"

definition tx_frame :: "ubench \<Rightarrow> int \<times> ubench" where
  "tx_frame b = tx_frame_loop 4001 b"

definition tx_backlog :: "ubench \<Rightarrow> nat" where
  "tx_backlog b = length (tx_bytes (mon b)) - tx_taken b"

section \<open>The tests\<close>

definition ureset :: "ubench \<Rightarrow> ubench" where
  "ureset b = (let
     b = uidle (b\<lparr>urstn := False, urxd := True\<rparr>);
     b = (utick ^^ 4) b
   in utick (b\<lparr>urstn := True\<rparr>))"

text \<open>A status word read and compared under a mask.\<close>

definition expect_read :: "u32 \<Rightarrow> u32 \<Rightarrow> u32 \<Rightarrow> string \<Rightarrow> ubench \<Rightarrow> ubench" where
  "expect_read addr bits want msg b = (let (st, b) = axi_read addr b in UCHECK_EQ (st AND bits) want msg b)"

definition expect_frame :: "u32 \<Rightarrow> string \<Rightarrow> ubench \<Rightarrow> ubench" where
  "expect_frame want msg b = (let (got, b) = tx_frame b in UCHECK_EQ (word_of_int got) want msg b)"

definition reset_test :: "ubench \<Rightarrow> ubench" where
  "reset_test b = (let
     (st, b) = axi_read TB_STATUS b;
     b = UCHECK_EQ (st AND ST_TX_READY) ST_TX_READY ''TX_READY set out of reset'' b;
     b = UCHECK_EQ (st AND ST_RX_READY) 0 ''RX_READY clear out of reset'' b;
     b = UCHECK_EQ (st AND ST_RX_OVERRUN) 0 ''RX_OVERRUN clear out of reset'' b
   in UCHECK_EQ (if irq_o b then 1 else 0) 0 ''IRQ masked out of reset (both IEs are 0)'' b)"

definition tx_seq :: "u8 list" where
  "tx_seq = [0x41, 0x42, 0x43, 0x0D]"

definition queue_test :: "ubench \<Rightarrow> ubench" where
  "queue_test b = (let b = fold (\<lambda>c. axi_write TB_TXDATA (ucast c)) tx_seq b
     in fold (\<lambda>c. expect_frame (ucast c) ''queued TX byte shipped in order'') tx_seq b)"

primrec fill_loop :: "nat \<Rightarrow> u32 list \<Rightarrow> ubench \<Rightarrow> u32 list \<times> ubench" where
  "fill_loop 0 queued b = (queued, b)"
| "fill_loop (Suc n) queued b = (let (st, b) = axi_read TB_STATUS b in
     if st AND ST_TX_READY = 0 then (queued, b)
     else (let byte = 0x30 + of_nat (length queued) in fill_loop n (queued @ [byte]) (axi_write TB_TXDATA byte b)))"

definition full_test :: "ubench \<Rightarrow> ubench" where
  "full_test b = (let
     (queued, b) = fill_loop (4 * FIFO_DEPTH) [] b;
     b = expect_read TB_STATUS ST_TX_READY 0 ''TX_READY clear once the TX FIFO is full'' b;
     b = UCHECK (FIFO_DEPTH \<le> length queued) ''at least DEPTH bytes accepted'' b;
     (held, b) = axi_write_timed TB_TXDATA 0xFF (40 * BIT_CYCLES) b;
     b = UCHECK (8 < held) ''write to a full TX FIFO is held until room appears'' b;
     queued = queued @ [0xFF];
     b = fold (\<lambda>w. expect_frame w ''TX FIFO drains in order, held byte included'') queued b;
     b = expect_read TB_STATUS ST_TX_READY ST_TX_READY ''TX_READY back after the drain'' b;
     b = (utick ^^ (2 * BIT_CYCLES)) b
   in UCHECK_EQ (of_nat (tx_backlog b)) 0 ''no extra frame beyond the queued bytes'' b)"

definition burst_test :: "ubench \<Rightarrow> ubench" where
  "burst_test b = (let
     b = fold send_frame (map (\<lambda>i. 0x61 + of_nat i) [0..<8]) b;
     (st, b) = axi_read TB_STATUS b;
     b = UCHECK_EQ (st AND ST_RX_READY) ST_RX_READY ''RX_READY set after the burst'' b;
     b = UCHECK_EQ (st AND ST_RX_OVERRUN) 0 ''no overrun for a burst inside the depth'' b;
     b = fold (\<lambda>i. expect_read TB_RXDATA 0xFF (0x61 + of_nat i) ''RX burst byte retained in order'') [0..<8] b
   in expect_read TB_STATUS ST_RX_READY 0 ''RX_READY clear once the FIFO is drained'' b)"

definition empty_test :: "ubench \<Rightarrow> ubench" where
  "empty_test b = (let
     (stale, b) = axi_read TB_RXDATA b;
     b = expect_read TB_STATUS ST_RX_READY 0 ''empty read leaves RX_READY clear'' b;
     b = send_frame 0x5A b
   in expect_read TB_RXDATA 0xFF 0x5A ''FIFO still coherent after an empty read (no underflow)'' b)"

definition overrun_test :: "ubench \<Rightarrow> ubench" where
  "overrun_test b = (let
     b = fold send_frame (map (\<lambda>i. 0x10 + of_nat i) [0..<FIFO_DEPTH + 1]) b;
     b = expect_read TB_STATUS ST_RX_OVERRUN ST_RX_OVERRUN ''RX_OVERRUN latched on drop'' b;
     b = fold (\<lambda>i. expect_read TB_RXDATA 0xFF (0x10 + of_nat i) ''queued bytes survive the overrun'') [0..<FIFO_DEPTH] b;
     (st, b) = axi_read TB_STATUS b;
     b = UCHECK_EQ (st AND ST_RX_READY) 0 ''FIFO empty after draining the overrun case'' b
   in UCHECK_EQ (st AND ST_RX_OVERRUN) 0 ''RX_OVERRUN cleared by an RXDATA read'' b)"

definition expect_irq :: "u32 \<Rightarrow> string \<Rightarrow> ubench \<Rightarrow> ubench" where
  "expect_irq want msg b = UCHECK_EQ (if irq_o b then 1 else 0) want msg b"

definition irq_test :: "ubench \<Rightarrow> ubench" where
  "irq_test b = (let
     b = send_frame 0x77 b;
     b = expect_irq 0 ''RX byte pending but RX_IE=0: no IRQ'' b;
     b = ueval (axi_write TB_CTRL CTRL_RX_IE b);
     b = expect_irq 1 ''IRQ asserts once RX_IE is written'' b;
     b = ueval (snd (axi_read TB_RXDATA b));
     b = expect_irq 0 ''IRQ deasserts when software drains RX'' b;
     b = ueval (axi_write TB_CTRL CTRL_TX_IE b);
     b = expect_irq 1 ''TX_IE asserts while the TX FIFO has room'' b;
     b = ueval (axi_write TB_CTRL 0 b)
   in expect_irq 0 ''IRQ masked again with both IEs clear'' b)"

definition uart_tb_main :: "ubench \<Rightarrow> nat \<times> ubench" where
  "uart_tb_main b = (let b = irq_test (overrun_test (empty_test (burst_test (full_test (queue_test (reset_test (ureset b)))))))
     in (if ufails b \<noteq> 0 then 1 else 0, b))"

section \<open>What the bench knows of the UART\<close>

text \<open>
  A view: the bytes in the transmit FIFO, the byte on the line with the clocks its frame has had, the bytes whose frames
  are over; the bytes in the receive FIFO, the overrun flag, the interrupt enables. \<open>clock p\<close> is a cycle in which the
  bus pushes the bytes \<open>p\<close>, one or none.
\<close>

record view =
  fifo :: "u8 list"
  flight :: "(u8 \<times> nat) option"
  heard :: "nat list"
  got :: "u8 list"
  lost :: bool
  ies :: "bool \<times> bool"

definition clock :: "u8 list \<Rightarrow> view \<Rightarrow> view" where
  "clock p v = (case flight v of
     None \<Rightarrow> (case fifo v of [] \<Rightarrow> v\<lparr>fifo := p\<rparr> | c # q \<Rightarrow> v\<lparr>fifo := q @ p, flight := Some (c, 1)\<rparr>)
   | Some (c, k) \<Rightarrow> if k < 100 then v\<lparr>fifo := fifo v @ p, flight := Some (c, Suc k)\<rparr>
       else v\<lparr>fifo := fifo v @ p, flight := None, heard := heard v @ [unat c]\<rparr>)"

definition transmits :: "view \<Rightarrow> tx_engine \<Rightarrow> monitor \<Rightarrow> bool" where
  "transmits v e m \<longleftrightarrow> (case flight v of
     None \<Rightarrow> tx_at_rest e \<and> mon_state m = 0 \<and> tx_bytes m = heard v
   | Some (c, k) \<Rightarrow> 0 < k \<and> k \<le> 100 \<and> tx_phase 10 c k e \<and> in_frame (heard v) c k m)"

definition seen :: "view \<Rightarrow> uart_rtl \<Rightarrow> monitor \<Rightarrow> bool" where
  "seen v u m \<longleftrightarrow> rtl_ok u \<and> div_q u = 9 \<and> \<not> div_pending_valid_q u \<and> transmits v (tx u) m
     \<and> items (tx_ring u) = fifo v \<and> items (rx_ring u) = got v \<and> rx_overrun_q u = lost v \<and> ies v = (tx_ie_q u, rx_ie_q u)"

lemma level_level_at: "k < 100 \<Longrightarrow> level c (k div 10) = level_at c k"
proof -
  assume k: "k < 100"
  have "k div 10 = 0 \<longleftrightarrow> k < 10" "k div 10 \<le> 8 \<longleftrightarrow> k < 90" by linarith+
  then show ?thesis by (simp add: level_def level_at_def)
qed

lemma clock_transmits:
  assumes "transmits v e m" and emp: "emp \<longleftrightarrow> fifo v = []" and "fifo v \<noteq> [] \<Longrightarrow> head = hd (fifo v)"
  shows "transmits (clock p v) (tx_edge 9 emp head e) (tx_monitor (txd_q (tx_edge 9 emp head e)) m)"
    and "fifo (clock p v) = (if tx_fifo_pop emp e then tl (fifo v) else fifo v) @ p"
proof -
  let ?e = "tx_edge 9 emp head e"
  have both: "transmits (clock p v) ?e (tx_monitor (txd_q ?e) m) \<and> fifo (clock p v) = (if tx_fifo_pop emp e then tl (fifo v) else fifo v) @ p"
  proof (cases "flight v")
    case None
    then have r: "tx_at_rest e" "mon_state m = 0" "tx_bytes m = heard v" using assms(1) by (simp_all add: transmits_def)
    show ?thesis
    proof (cases "fifo v")
      case Nil
      then have "?e = e\<lparr>tx_baud_cnt_q := 0\<rparr>" using emp r(1) by (simp add: tx_edge_def tx_fifo_pop_def tx_at_rest_def)
      then show ?thesis using None Nil emp r by (simp add: clock_def transmits_def tx_at_rest_def tx_fifo_pop_def tx_monitor_def)
    next
      case (Cons c q)
      then have eh: "emp = False" "head = c" using emp assms(3) by simp_all
      have ph: "tx_phase 10 c 1 ?e" unfolding eh by (rule tx_phase_start [OF r(1)])
      then have "\<not> txd_q ?e" by (simp add: tx_phase_def level_def)
      then show ?thesis using None Cons eh ph r in_frame_first [OF r(2,3), of c]
        by (simp add: clock_def transmits_def tx_fifo_pop_def tx_at_rest_def)
    qed
  next
    case (Some ck)
    obtain c k where ck: "ck = (c, k)" by (cases ck)
    have s: "0 < k" "k \<le> 100" "tx_phase 10 c k e" "in_frame (heard v) c k m" using assms(1) Some ck by (simp_all add: transmits_def)
    have busy: "tx_state_q e \<noteq> TX_IDLE" using s(3) by (auto simp: tx_phase_def Let_def split: if_splits)
    have n: "10 = Suc (unat (9 :: u16))" by simp
    show ?thesis
    proof (cases "k < 100")
      case True
      have ph: "tx_phase 10 c (Suc k) ?e" by (rule tx_phase_step [OF s(3) n s(1)]) (use True in simp)
      then have "txd_q ?e = level_at c k" using level_level_at [OF True, of c] by (simp add: tx_phase_def Let_def)
      then show ?thesis using Some ck True busy ph s in_frame_step [OF s(4,1) True]
        by (simp add: clock_def transmits_def tx_fifo_pop_def)
    next
      case False
      then have k: "k = 10 * 10" using s(2) by simp
      have rest: "tx_at_rest ?e" by (rule tx_phase_end [OF s(3) [unfolded k] n])
      then show ?thesis using Some ck False busy s(4) k
        by (simp add: clock_def transmits_def tx_fifo_pop_def tx_at_rest_def in_frame_def tx_monitor_def)
    qed
  qed
  then show "transmits (clock p v) ?e (tx_monitor (txd_q ?e) m)" "fifo (clock p v) = (if tx_fifo_pop emp e then tl (fifo v) else fifo v) @ p"
    by simp_all
qed

lemma clock_fields [simp]: "got (clock p v) = got v" "lost (clock p v) = lost v" "ies (clock p v) = ies v"
  by (simp_all add: clock_def split: option.splits list.splits)

lemma clock_updates: "clock p (v\<lparr>got := q\<rparr>) = (clock p v)\<lparr>got := q\<rparr>" "clock p (v\<lparr>lost := x\<rparr>) = (clock p v)\<lparr>lost := x\<rparr>"
  "clock p (v\<lparr>ies := y\<rparr>) = (clock p v)\<lparr>ies := y\<rparr>"
  by (simp_all add: clock_def split: option.splits list.splits)

text \<open>A cycle, seen: the access of the bus, the transmitter's clock, and the byte the receiver completes, if it does.\<close>

definition accessed :: "uart_rtl \<Rightarrow> axi_master \<Rightarrow> view \<Rightarrow> view" where
  "accessed u m v = (let
     v = clock (if tx_push u m then [ucast (wdata_eff u m)] else []) v;
     v = (if rx_read u m then v\<lparr>got := tl (got v), lost := False\<rparr> else v)
   in if udo_write u m \<and> wr_low_byte u m \<and> waddr_eff u m = REG_CTRL then v\<lparr>ies := (bit (wdata_eff u m) 0, bit (wdata_eff u m) 1)\<rparr>
      else v)"

definition arrived :: "u8 \<Rightarrow> view \<Rightarrow> view" where
  "arrived b v = (if length (got v) < 16 then v\<lparr>got := got v @ [b]\<rparr> else v\<lparr>lost := True\<rparr>)"

lemma seen_edge:
  assumes "seen v u m" and "\<not> (udo_write u a \<and> wr_low_byte u a \<and> waddr_eff u a = REG_BAUDDIV)"
  shows "seen ((if rx_frame_done 9 (rx u) then arrived (rx_shift_q (rx u)) else id) (accessed u a v)) (run_edge a x u)
    (tx_monitor (txd_q (tx (run_edge a x u))) m)"
proof -
  have v: "rtl_ok u" "div_q u = 9" "\<not> div_pending_valid_q u" "transmits v (tx u) m" "items (tx_ring u) = fifo v"
    "items (rx_ring u) = got v" "rx_overrun_q u = lost v" "ies v = (tx_ie_q u, rx_ie_q u)" using assms(1) by (simp_all add: seen_def)
  let ?v = "(if rx_frame_done 9 (rx u) then arrived (rx_shift_q (rx u)) else id) (accessed u a v)" and ?u = "run_edge a x u"
  let ?p = "if tx_push u a then [ucast (wdata_eff u a)] else []"
  have fields: "fifo ?v = fifo (clock ?p v)" "flight ?v = flight (clock ?p v)" "heard ?v = heard (clock ?p v)"
    by (simp_all add: arrived_def accessed_def Let_def)
  have tx: "tx ?u = tx_edge 9 (fifo_empty (tx_ring u)) (fifo_head (tx_ring u)) (tx u)"
    "div_q ?u = 9" "\<not> div_pending_valid_q ?u" "ies ?v = (tx_ie_q ?u, rx_ie_q ?u)"
    using v(2,3,8) assms(2) by (auto simp: run_edge_def rings_edge_def div_apply_def arrived_def accessed_def Let_def)
  have emp: "fifo_empty (tx_ring u) \<longleftrightarrow> fifo v = []" using ready_iff(4) [OF v(1)] v(5) by simp
  have head: "fifo v \<noteq> [] \<Longrightarrow> fifo_head (tx_ring u) = hd (fifo v)" using fifo_head_hd [of "tx_ring u"] v(5) by simp
  note clocked = clock_transmits [OF v(4) emp head, of ?p]
  have trans: "transmits ?v (tx ?u) (tx_monitor (txd_q (tx ?u)) m)"
    using clocked(1) unfolding tx(1) transmits_def fields by simp
  have "items (tx_ring ?u) = fifo ?v" using tx_ring_edge(2) [OF v(1), of a x] clocked(2) fields(1) v(5) by (simp add: ships_def)
  moreover have "rtl_ok ?u" using tx_ring_edge(1) rx_ring_edge(1) v(1) by (simp add: rtl_ok_def)
  moreover have "items (rx_ring ?u) = got ?v \<and> rx_overrun_q ?u = lost ?v"
  proof -
    have b: "length (got v) \<le> 16" using v(1,6) length_items [of "rx_ring u"] by (simp add: rtl_ok_def ring_ok_def)
    have r: "rtl_rx_ready u \<longleftrightarrow> got v \<noteq> []" "fifo_full (rx_ring u) \<longleftrightarrow> \<not> length (got v) < 16"
      using ready_iff(2,3) [OF v(1)] v(6) by simp_all
    show ?thesis using rx_ring_edge(2) [OF v(1), of a x] run_edge_overrun [of a x u] v(2,6,7) r b
      by (cases "got v") (auto simp: accessed_def arrived_def Let_def rx_fifo_pop_def rx_fifo_push_def)
  qed
  ultimately show ?thesis using tx(2-4) trans by (simp add: seen_def)
qed

section \<open>One access\<close>

text \<open>The bench with the master at \<open>m\<close>, the line of the receiver idle, and the UART seen as \<open>v\<close>; \<open>k\<close> bytes have been
  taken, and \<open>n\<close> checks have passed since \<open>b0\<close>.\<close>

definition ub :: "axi_master \<Rightarrow> view \<Rightarrow> nat \<Rightarrow> nat \<Rightarrow> ubench \<Rightarrow> ubench \<Rightarrow> bool" where
  "ub m v k n b0 b \<longleftrightarrow> urstn b \<and> urxd b \<and> rx_at_rest (rx (urtl b)) \<and> umst b = m \<and> seen v (urtl b) (mon b) \<and> tx_taken b = k
     \<and> uchecks b = uchecks b0 + n \<and> ufails b = ufails b0 \<and> umessages b = umessages b0"

lemma ub_drive: "ub m v k n b0 b \<Longrightarrow> ub (f m) v k n b0 (udrive f b)"
  by (simp add: ub_def udrive_def)

lemma ub_eval: "ub m v k n b0 b \<Longrightarrow> ub m v k n b0 (ueval b)"
  by (simp add: ub_def ueval_def)

lemma ub_check: "ub m v k n b0 b \<Longrightarrow> c \<Longrightarrow> ub m v k (Suc n) b0 (UCHECK c msg b)"
  by (simp add: ub_def UCHECK_def)

lemma urtl_simps [simp]: "urtl (udrive f b) = urtl b" "urtl (ueval b) = urtl b" "urtl (UCHECK c msg b) = urtl b"
  "umst (udrive f b) = f (umst b)" "umst (ueval b) = umst b" "uslv (ueval b) = uart_out (urtl b) (umst b)"
  by (simp_all add: udrive_def ueval_def UCHECK_def Let_def)

lemma utick_run: "urstn b \<Longrightarrow> utick b = (let u = run_edge (umst b) (urxd b) (urtl b) in b\<lparr>urtl := u, uslv := uart_out u (umst b),
    txd_o := txd_q (tx u), irq_o := rtl_irq u, mon := tx_monitor (txd_q (tx u)) (mon b)\<rparr>)"
  by (simp add: utick_def ueval_def uposedge_def uart_edge_def Let_def)

lemma bus_run_edge [simp]: "bus (run_edge m x u) = bus_edge u m"
  by (simp add: run_edge_def rings_edge_def Let_def)

lemma rx_run_edge: "rx (run_edge m x u) = rx_edge (div_q u) x (rx u)"
  by (simp add: run_edge_def rings_edge_def Let_def)

lemma ub_tick:
  assumes "ub m v k n b0 b" and "\<not> (udo_write (urtl b) m \<and> wr_low_byte (urtl b) m \<and> waddr_eff (urtl b) m = REG_BAUDDIV)"
  shows "ub m (accessed (urtl b) m v) k n b0 (utick b)" and "bus (urtl (utick b)) = bus_edge (urtl b) m"
proof -
  have b: "urstn b" "urxd b" "rx_at_rest (rx (urtl b))" "umst b = m" "seen v (urtl b) (mon b)" using assms(1) by (simp_all add: ub_def)
  have r: "\<not> rx_frame_done 9 (rx (urtl b))" "rx_at_rest (rx_edge d True (rx (urtl b)))" for d
    using b(3) by (simp_all add: rx_frame_done_def rx_at_rest_def rx_edge_def)
  show "ub m (accessed (urtl b) m v) k n b0 (utick b)"
    using assms(1) seen_edge [OF b(5) assms(2), of True] r b(2,4) unfolding utick_run [OF b(1)]
    by (simp add: ub_def Let_def rx_run_edge)
  show "bus (urtl (utick b)) = bus_edge (urtl b) m" using b unfolding utick_run [OF b(1)] by (simp add: Let_def)
qed

definition quiet :: "axi_master \<Rightarrow> bool" where
  "quiet m \<longleftrightarrow> \<not> awvalid m \<and> \<not> wvalid m \<and> \<not> arvalid m \<and> bready m \<and> rready m"

definition bus_idle :: "uart_bus \<Rightarrow> bool" where
  "bus_idle s \<longleftrightarrow> \<not> aw_seen_q s \<and> \<not> w_seen_q s \<and> \<not> bvalid_q s \<and> \<not> rvalid_q s"

text \<open>Between two accesses.\<close>

definition desk :: "view \<Rightarrow> nat \<Rightarrow> nat \<Rightarrow> ubench \<Rightarrow> ubench \<Rightarrow> bool" where
  "desk v k n b0 b \<longleftrightarrow> (\<exists>m. ub m v k n b0 b \<and> quiet m) \<and> bus_idle (bus (urtl b)) \<and> irq_o b = rtl_irq (urtl b)"

lemmas wires = uart_out_def uaw_hs_def uw_hs_def ub_hs_def uar_hs_def waddr_eff_def wdata_eff_def wr_low_byte_def tx_write_hold_def
  udo_write_def tx_push_def rx_read_def bus_idle_def quiet_def

lemma REG_numbers [simp]: "REG_TXDATA = 0" "REG_RXDATA = 1" "REG_STATUS = 2" "REG_CTRL = 3" "REG_BAUDDIV = 4"
  by (simp_all add: REG_TXDATA_def REG_RXDATA_def REG_STATUS_def REG_CTRL_def REG_BAUDDIV_def)

lemma seen_ready: "seen v u m \<Longrightarrow> rtl_tx_ready u \<longleftrightarrow> length (fifo v) < 16" "seen v u m \<Longrightarrow> rtl_rx_ready u \<longleftrightarrow> got v \<noteq> []"
  using ready_iff(1,2) [of u] by (simp_all add: seen_def)

lemma quiet_cycle:
  assumes "bus_idle (bus u)" and "quiet m"
  shows "accessed u m v = clock [] v" and "bus_idle (bus_edge u m)" and "\<not> udo_write u m"
  using assms by (simp_all add: accessed_def bus_edge_def wires Let_def)

lemma desk_tick: "desk v k n b0 b \<Longrightarrow> desk (clock [] v) k n b0 (utick b)"
proof -
  assume d: "desk v k n b0 b"
  then obtain m where b: "ub m v k n b0 b" "quiet m" "bus_idle (bus (urtl b))" by (auto simp: desk_def)
  note q = quiet_cycle [OF b(3,2)]
  have "irq_o (utick b) = rtl_irq (urtl (utick b))" using b(1) by (simp add: utick_run ub_def Let_def)
  then show ?thesis using ub_tick [OF b(1)] q b(2) by (auto simp: desk_def)
qed

lemma desk_ticks: "desk v k n b0 b \<Longrightarrow> desk ((clock [] ^^ i) v) k n b0 ((utick ^^ i) b)"
  by (induction i) (simp_all add: desk_tick)

lemma desk_check: "desk v k n b0 b \<Longrightarrow> c \<Longrightarrow> desk v k (Suc n) b0 (UCHECK c msg b)"
  unfolding desk_def using ub_check by (fastforce simp: UCHECK_def Let_def)

text \<open>The end of an access: the check and \<open>idle\<close>.\<close>

lemma access_end:
  assumes "ub m v k n b0 b" and "bus_idle (bus (urtl b))"
  shows "desk v k (Suc n) b0 (uidle (UCHECK True msg b))"
proof -
  let ?f = "\<lambda>m. m\<lparr>awvalid := False, wvalid := False, arvalid := False, bready := True, rready := True\<rparr>"
  from ub_eval [OF ub_drive [OF ub_check [OF assms(1) TrueI]]] have "ub (?f m) v k (Suc n) b0 (uidle (UCHECK True msg b))"
    unfolding uidle_def .
  moreover have "quiet (?f m)" by (simp add: quiet_def)
  ultimately show ?thesis using assms(2) unfolding desk_def uidle_def by (auto simp: ueval_def udrive_def UCHECK_def Let_def)
qed

text \<open>A write response is taken.\<close>

definition written :: "u32 \<Rightarrow> u32 \<Rightarrow> view \<Rightarrow> view" where
  "written a d v = (if reg_of a = REG_TXDATA then clock [ucast d] v
     else if reg_of a = REG_CTRL then (clock [] v)\<lparr>ies := (bit d 0, bit d 1)\<rparr> else clock [] v)"

definition responds :: "axi_master \<Rightarrow> view \<Rightarrow> nat \<Rightarrow> nat \<Rightarrow> ubench \<Rightarrow> ubench \<Rightarrow> bool" where
  "responds m v k n b0 b \<longleftrightarrow> ub m v k n b0 b \<and> quiet m \<and> bvalid_q (bus (urtl b)) \<and> bus_idle (bus (urtl b)\<lparr>bvalid_q := False\<rparr>)"

lemma write_response:
  assumes "responds m v k n b0 b"
  shows "axi_write_loop (Suc g) True True False c b = axi_write_loop g True True True (Suc c) (udrive (\<lambda>m. m\<lparr>wvalid := False\<rparr>)
      (udrive (\<lambda>m. m\<lparr>awvalid := False\<rparr>) (utick (ueval b))))"
    and "ub m (clock [] v) k n b0 (utick (ueval b))" and "bus_idle (bus (urtl (utick (ueval b))))"
proof -
  have b: "ub m v k n b0 b" "quiet m" "bvalid_q (bus (urtl b))" "bus_idle (bus (urtl b)\<lparr>bvalid_q := False\<rparr>)"
    using assms by (simp_all add: responds_def)
  have m: "umst b = m" using b(1) by (simp add: ub_def)
  show "axi_write_loop (Suc g) True True False c b = axi_write_loop g True True True (Suc c) (udrive (\<lambda>m. m\<lparr>wvalid := False\<rparr>)
      (udrive (\<lambda>m. m\<lparr>awvalid := False\<rparr>) (utick (ueval b))))"
    using b(2,3) m by (simp add: uart_out_def quiet_def Let_def)
  have "accessed (urtl b) m v = clock [] v" "\<not> udo_write (urtl b) m" "bus_idle (bus_edge (urtl b) m)"
    using b(2-4) by (simp_all add: accessed_def bus_edge_def wires Let_def)
  with ub_tick [OF ub_eval [OF b(1)]] show "ub m (clock [] v) k n b0 (utick (ueval b))" "bus_idle (bus (urtl (utick (ueval b))))"
    by simp_all
qed

lemma axi_write_loop_done: "axi_write_loop g True True True c b = (True, c, b)"
  by (cases g) simp_all

text \<open>The master of a write, and the handshakes of its first cycle.\<close>

abbreviation writing :: "u32 \<Rightarrow> u32 \<Rightarrow> axi_master \<Rightarrow> axi_master" where
  "writing a d m \<equiv> m\<lparr>awaddr := a, awvalid := True, wdata := d, wstrb := 0xF, wvalid := True, bready := True\<rparr>"

lemma strobe_low [simp]: "bit (0xF :: u8) 0"
  by simp

lemma write_commits:
  assumes "bus_idle (bus u)" and "quiet m" and "reg_of a = REG_TXDATA \<Longrightarrow> rtl_tx_ready u"
  shows "udo_write u (writing a d m)" and "waddr_eff u (writing a d m) = reg_of a" and "wdata_eff u (writing a d m) = d"
    and "wr_low_byte u (writing a d m)" and "awready (uart_out u (writing a d m))" and "wready (uart_out u (writing a d m))"
    and "accessed u (writing a d m) v = written a d v"
    and "bvalid_q (bus_edge u (writing a d m))" and "bus_idle (bus_edge u (writing a d m)\<lparr>bvalid_q := False\<rparr>)"
  using assms by (auto simp: accessed_def written_def bus_edge_def wires Let_def)

lemma axi_write_result:
  assumes "desk v k n b0 b" and "reg_of a \<noteq> REG_BAUDDIV" and "reg_of a = REG_TXDATA \<Longrightarrow> length (fifo v) < 16"
  shows "\<exists>b'. axi_write_timed a d (Suc (Suc g)) b = (2, b') \<and> desk (clock [] (written a d v)) k (Suc n) b0 b'"
proof -
  obtain m where b: "ub m v k n b0 b" "quiet m" "bus_idle (bus (urtl b))" using assms(1) by (auto simp: desk_def)
  let ?m = "writing a d m" and ?m2 = "(writing a d m)\<lparr>awvalid := False, wvalid := False\<rparr>"
  define b1 where "b1 = ueval (udrive (writing a d) b)"
  have b1: "ub ?m v k n b0 b1" "urtl b1 = urtl b" "umst b1 = ?m" "uslv b1 = uart_out (urtl b) ?m" "ueval b1 = b1"
    using ub_eval [OF ub_drive [OF b(1)], of "writing a d"] b(1) by (simp_all add: b1_def ub_def ueval_def udrive_def)
  have "reg_of a = REG_TXDATA \<Longrightarrow> rtl_tx_ready (urtl b)" using assms(3) seen_ready(1) b(1) by (auto simp: ub_def)
  note w = write_commits [where d = d, OF b(3,2) this]
  have nb: "\<not> (udo_write (urtl b1) ?m \<and> wr_low_byte (urtl b1) ?m \<and> waddr_eff (urtl b1) ?m = REG_BAUDDIV)"
    using w(2) assms(2) b1(2) by simp
  define b2 where "b2 = udrive (\<lambda>m. m\<lparr>wvalid := False\<rparr>) (udrive (\<lambda>m. m\<lparr>awvalid := False\<rparr>) (utick b1))"
  have "ub ?m2 (written a d v) k n b0 b2"
    unfolding b2_def using ub_drive [OF ub_drive [OF ub_tick(1) [OF b1(1) nb], of "\<lambda>m. m\<lparr>awvalid := False\<rparr>"], of "\<lambda>m. m\<lparr>wvalid := False\<rparr>"]
    by (simp add: b1(2) w(7))
  moreover have "bus (urtl b2) = bus_edge (urtl b) ?m" using ub_tick(2) [OF b1(1) nb] b1(2) by (simp add: b2_def)
  moreover have "quiet ?m2" using b(2) by (simp add: quiet_def)
  ultimately have r: "responds ?m2 (written a d v) k n b0 b2" using w(8,9) by (simp add: responds_def)
  have step1: "axi_write_loop (Suc (Suc g)) False False False 0 (udrive (writing a d) b) = axi_write_loop (Suc g) True True False 1 b2"
    using w(5,6) b(3) b1(3,4) by (simp add: Let_def b2_def bus_idle_def uart_out_def flip: b1_def)
  define b3 where "b3 = udrive (\<lambda>m. m\<lparr>wvalid := False\<rparr>) (udrive (\<lambda>m. m\<lparr>awvalid := False\<rparr>) (utick (ueval b2)))"
  have loop: "axi_write_loop (Suc (Suc g)) False False False 0 (udrive (writing a d) b) = (True, 2, b3)"
    unfolding step1 write_response(1) [OF r] b3_def axi_write_loop_done by simp
  have "ub (?m2\<lparr>awvalid := False, wvalid := False\<rparr>) (clock [] (written a d v)) k n b0 b3" "bus_idle (bus (urtl b3))"
    unfolding b3_def using ub_drive [OF ub_drive [OF write_response(2) [OF r], of "\<lambda>m. m\<lparr>awvalid := False\<rparr>"], of "\<lambda>m. m\<lparr>wvalid := False\<rparr>"]
      write_response(3) [OF r] by simp_all
  then have "desk (clock [] (written a d v)) k (Suc n) b0 (uidle (UCHECK True ''axi_write did not complete'' b3))"
    by (rule access_end)
  then show ?thesis unfolding axi_write_timed_def Let_def loop by auto
qed

text \<open>A write of TXDATA into a full FIFO: the word is taken, the address waits.\<close>

definition waits :: "u32 \<Rightarrow> view \<Rightarrow> nat \<Rightarrow> nat \<Rightarrow> ubench \<Rightarrow> ubench \<Rightarrow> bool" where
  "waits d v k n b0 b \<longleftrightarrow> (\<exists>m. ub m v k n b0 b \<and> quiet (m\<lparr>awvalid := False\<rparr>) \<and> awvalid m \<and> awaddr m = TB_TXDATA)
     \<and> w_seen_q (bus (urtl b)) \<and> wdata_q (bus (urtl b)) = d \<and> wstrb_q (bus (urtl b)) = 0xF \<and> bus_idle (bus (urtl b)\<lparr>w_seen_q := False\<rparr>)"

lemma reg_of_values [simp]: "reg_of TB_TXDATA = 0" "reg_of TB_RXDATA = 1" "reg_of TB_STATUS = 2" "reg_of TB_CTRL = 3"
  by (simp_all add: reg_of_def TB_TXDATA_def TB_RXDATA_def TB_STATUS_def TB_CTRL_def)

lemma held_begins:
  assumes "desk v k n b0 b" and "\<not> length (fifo v) < 16"
  shows "\<exists>b'. axi_write_loop (Suc g) False False False 0 (udrive (writing TB_TXDATA d) b) = axi_write_loop g False True False 1 b'
    \<and> waits d (clock [] v) k n b0 b'"
proof -
  obtain m where b: "ub m v k n b0 b" "quiet m" "bus_idle (bus (urtl b))" using assms(1) by (auto simp: desk_def)
  let ?m = "writing TB_TXDATA d m"
  have full: "\<not> rtl_tx_ready (urtl b)" using assms(2) seen_ready(1) b(1) by (auto simp: ub_def)
  define b1 where "b1 = ueval (udrive (writing TB_TXDATA d) b)"
  have b1: "ub ?m v k n b0 b1" "urtl b1 = urtl b" "umst b1 = ?m" "uslv b1 = uart_out (urtl b) ?m"
    using ub_eval [OF ub_drive [OF b(1)], of "writing TB_TXDATA d"] b(1) by (simp_all add: b1_def ub_def)
  have e: "\<not> udo_write (urtl b1) ?m" "accessed (urtl b1) ?m v = clock [] v"
    using full b(2,3) b1(2) by (simp_all add: accessed_def wires Let_def)
  have s: "w_seen_q (bus_edge (urtl b) ?m)" "wdata_q (bus_edge (urtl b) ?m) = d" "wstrb_q (bus_edge (urtl b) ?m) = 0xF"
    "bus_idle (bus_edge (urtl b) ?m\<lparr>w_seen_q := False\<rparr>)"
    using full b(2,3) by (simp_all add: bus_edge_def wires Let_def)
  define b2 where "b2 = udrive (\<lambda>m. m\<lparr>wvalid := False\<rparr>) (utick b1)"
  have "axi_write_loop (Suc g) False False False 0 (udrive (writing TB_TXDATA d) b) = axi_write_loop g False True False 1 b2"
    using full b(3) b1(3,4) by (simp add: Let_def b2_def bus_idle_def uart_out_def flip: b1_def)
  moreover have "ub (?m\<lparr>wvalid := False\<rparr>) (clock [] v) k n b0 b2" "bus (urtl b2) = bus_edge (urtl b) ?m"
    unfolding b2_def using ub_drive [OF ub_tick(1) [OF b1(1)], of "\<lambda>m. m\<lparr>wvalid := False\<rparr>"] ub_tick(2) [OF b1(1)] e b1(2) by simp_all
  moreover have "quiet (?m\<lparr>wvalid := False, awvalid := False\<rparr>)" using b(2) by (simp add: quiet_def)
  ultimately show ?thesis unfolding waits_def using s by (intro exI [of _ b2]) auto
qed

lemma held_cycle:
  assumes "waits d v k n b0 b" and "\<not> length (fifo v) < 16"
  shows "\<exists>b'. axi_write_loop (Suc g) False True False c b = axi_write_loop g False True False (Suc c) b' \<and> waits d (clock [] v) k n b0 b'"
proof -
  obtain m where b: "ub m v k n b0 b" "quiet (m\<lparr>awvalid := False\<rparr>)" "awvalid m" "awaddr m = TB_TXDATA"
    and s: "w_seen_q (bus (urtl b))" "wdata_q (bus (urtl b)) = d" "wstrb_q (bus (urtl b)) = 0xF" "bus_idle (bus (urtl b)\<lparr>w_seen_q := False\<rparr>)"
    using assms(1) by (auto simp: waits_def)
  have full: "\<not> rtl_tx_ready (urtl b)" using assms(2) seen_ready(1) b(1) by (auto simp: ub_def)
  have m: "umst b = m" using b(1) by (simp add: ub_def)
  have e: "\<not> udo_write (urtl b) m" "accessed (urtl b) m v = clock [] v"
    using full b(2-4) s by (simp_all add: accessed_def wires Let_def)
  have e': "w_seen_q (bus_edge (urtl b) m)" "wdata_q (bus_edge (urtl b) m) = d" "wstrb_q (bus_edge (urtl b) m) = 0xF"
    "bus_idle (bus_edge (urtl b) m\<lparr>w_seen_q := False\<rparr>)"
    using full b(2-4) s by (simp_all add: bus_edge_def wires Let_def)
  define b2 where "b2 = udrive (\<lambda>m. m\<lparr>wvalid := False\<rparr>) (utick (ueval b))"
  have "axi_write_loop (Suc g) False True False c b = axi_write_loop g False True False (Suc c) b2"
    using full b(2-4) s m by (simp add: Let_def b2_def bus_idle_def uart_out_def)
  moreover have "ub (m\<lparr>wvalid := False\<rparr>) (clock [] v) k n b0 b2" "bus (urtl b2) = bus_edge (urtl b) m"
    unfolding b2_def using ub_drive [OF ub_tick(1) [OF ub_eval [OF b(1)]], of "\<lambda>m. m\<lparr>wvalid := False\<rparr>"] ub_tick(2) [OF ub_eval [OF b(1)]] e
    by simp_all
  moreover have "quiet (m\<lparr>wvalid := False, awvalid := False\<rparr>)" using b(2) by (simp add: quiet_def)
  ultimately show ?thesis unfolding waits_def using e' b(3,4) by (intro exI [of _ b2]) auto
qed

lemma held_ends:
  assumes "waits d v k n b0 b" and "length (fifo v) < 16"
  shows "\<exists>b' m. axi_write_loop (Suc g) False True False c b = axi_write_loop g True True False (Suc c) b'
    \<and> responds m (clock [ucast d] v) k n b0 b'"
proof -
  obtain m where b: "ub m v k n b0 b" "quiet (m\<lparr>awvalid := False\<rparr>)" "awvalid m" "awaddr m = TB_TXDATA"
    and s: "w_seen_q (bus (urtl b))" "wdata_q (bus (urtl b)) = d" "wstrb_q (bus (urtl b)) = 0xF" "bus_idle (bus (urtl b)\<lparr>w_seen_q := False\<rparr>)"
    using assms(1) by (auto simp: waits_def)
  have room: "rtl_tx_ready (urtl b)" using assms(2) seen_ready(1) b(1) by (auto simp: ub_def)
  have m: "umst b = m" using b(1) by (simp add: ub_def)
  have e: "waddr_eff (urtl b) m = REG_TXDATA" "accessed (urtl b) m v = clock [ucast d] v"
    using room b(2-4) s by (simp_all add: accessed_def wires Let_def)
  have e': "bvalid_q (bus_edge (urtl b) m)" "bus_idle (bus_edge (urtl b) m\<lparr>bvalid_q := False\<rparr>)"
    using room b(2-4) s by (simp_all add: bus_edge_def wires Let_def)
  define b2 where "b2 = udrive (\<lambda>m. m\<lparr>wvalid := False\<rparr>) (udrive (\<lambda>m. m\<lparr>awvalid := False\<rparr>) (utick (ueval b)))"
  have "axi_write_loop (Suc g) False True False c b = axi_write_loop g True True False (Suc c) b2"
    using room b(2-4) s m by (simp add: Let_def b2_def bus_idle_def uart_out_def)
  moreover have "ub (m\<lparr>awvalid := False, wvalid := False\<rparr>) (clock [ucast d] v) k n b0 b2" "bus (urtl b2) = bus_edge (urtl b) m"
    unfolding b2_def using ub_drive [OF ub_drive [OF ub_tick(1) [OF ub_eval [OF b(1)]], of "\<lambda>m. m\<lparr>awvalid := False\<rparr>"], of "\<lambda>m. m\<lparr>wvalid := False\<rparr>"]
      ub_tick(2) [OF ub_eval [OF b(1)]] e by simp_all
  moreover have "quiet (m\<lparr>awvalid := False, wvalid := False\<rparr>)" using b(2) by (simp add: quiet_def)
  ultimately show ?thesis unfolding responds_def using e' by (intro exI [of _ b2]) auto
qed

lemma held_cycles:
  assumes "waits d v k n b0 b" and "\<And>i. i < h \<Longrightarrow> \<not> length (fifo ((clock [] ^^ i) v)) < 16"
  shows "\<exists>b'. axi_write_loop (h + g) False True False c b = axi_write_loop g False True False (h + c) b' \<and> waits d ((clock [] ^^ h) v) k n b0 b'"
  using assms
proof (induction h arbitrary: v b c)
  case (Suc h)
  have "\<not> length (fifo v) < 16" using Suc.prems(2) [of 0] by simp
  from held_cycle [OF Suc.prems(1) this] obtain b1 where
    b1: "axi_write_loop (Suc (h + g)) False True False c b = axi_write_loop (h + g) False True False (Suc c) b1"
      "waits d (clock [] v) k n b0 b1" by blast
  have "\<not> length (fifo ((clock [] ^^ i) (clock [] v))) < 16" if "i < h" for i
    using Suc.prems(2) [of "Suc i"] that by (simp add: funpow_swap1)
  from Suc.IH [OF b1(2) this] obtain b2 where
    "axi_write_loop (h + g) False True False (Suc c) b1 = axi_write_loop g False True False (h + Suc c) b2"
    "waits d ((clock [] ^^ h) (clock [] v)) k n b0 b2" by blast
  then show ?case using b1(1) by (intro exI [of _ b2]) (simp add: funpow_swap1 del: axi_write_loop.simps)
qed auto

lemma held_write:
  assumes "desk v k n b0 b" and "\<And>i. i < Suc h \<Longrightarrow> \<not> length (fifo ((clock [] ^^ i) v)) < 16"
    and room: "length (fifo ((clock [] ^^ Suc h) v)) < 16"
  shows "\<exists>b'. axi_write_timed TB_TXDATA d (h + Suc (Suc (Suc g))) b = (h + 3, b')
    \<and> desk (clock [] (clock [ucast d] ((clock [] ^^ Suc h) v))) k (Suc n) b0 b'"
proof -
  have "\<not> length (fifo v) < 16" using assms(2) [of 0] by simp
  from held_begins [OF assms(1) this] obtain b1 where
    b1: "axi_write_loop (Suc (h + Suc (Suc g))) False False False 0 (udrive (writing TB_TXDATA d) b)
        = axi_write_loop (h + Suc (Suc g)) False True False 1 b1" "waits d (clock [] v) k n b0 b1" by blast
  have "\<not> length (fifo ((clock [] ^^ i) (clock [] v))) < 16" if "i < h" for i
    using assms(2) [of "Suc i"] that by (simp add: funpow_swap1)
  from held_cycles [OF b1(2) this] obtain b2 where
    b2: "axi_write_loop (h + Suc (Suc g)) False True False 1 b1 = axi_write_loop (Suc (Suc g)) False True False (h + 1) b2"
      "waits d ((clock [] ^^ h) (clock [] v)) k n b0 b2" by blast
  have "(clock [] ^^ h) (clock [] v) = (clock [] ^^ Suc h) v" by (simp add: funpow_swap1)
  from b2(2) [unfolded this] have w: "waits d ((clock [] ^^ Suc h) v) k n b0 b2" .
  obtain b3 m where b3: "axi_write_loop (Suc (Suc g)) False True False (h + 1) b2 = axi_write_loop (Suc g) True True False (Suc (h + 1)) b3"
    "responds m (clock [ucast d] ((clock [] ^^ Suc h) v)) k n b0 b3" using held_ends [OF w room] by blast
  define b4 where "b4 = udrive (\<lambda>m. m\<lparr>wvalid := False\<rparr>) (udrive (\<lambda>m. m\<lparr>awvalid := False\<rparr>) (utick (ueval b3)))"
  have "axi_write_loop (h + Suc (Suc (Suc g))) False False False 0 (udrive (writing TB_TXDATA d) b) = (True, h + 3, b4)"
    using b1(1) b2(1) b3(1) write_response(1) [OF b3(2), of g] by (simp add: b4_def axi_write_loop_done del: axi_write_loop.simps)
  moreover have "ub (m\<lparr>awvalid := False, wvalid := False\<rparr>) (clock [] (clock [ucast d] ((clock [] ^^ Suc h) v))) k n b0 b4"
    "bus_idle (bus (urtl b4))"
    unfolding b4_def using ub_drive [OF ub_drive [OF write_response(2) [OF b3(2)], of "\<lambda>m. m\<lparr>awvalid := False\<rparr>"], of "\<lambda>m. m\<lparr>wvalid := False\<rparr>"]
      write_response(3) [OF b3(2)] by simp_all
  from access_end [OF this] have "desk (clock [] (clock [ucast d] ((clock [] ^^ Suc h) v))) k (Suc n) b0
    (uidle (UCHECK True ''axi_write did not complete'' b4))" .
  ultimately show ?thesis unfolding axi_write_timed_def Let_def by auto
qed

text \<open>A read.\<close>

definition taken :: "u32 \<Rightarrow> view \<Rightarrow> view" where
  "taken a v = (if reg_of a = REG_RXDATA then (clock [] v)\<lparr>got := tl (got v), lost := False\<rparr> else clock [] v)"

definition status :: "view \<Rightarrow> u32" where
  "status v = (if lost v then 4 else 0) OR (if got v \<noteq> [] then 2 else 0) OR (if length (fifo v) < 16 then 1 else 0)"

abbreviation reading :: "u32 \<Rightarrow> axi_master \<Rightarrow> axi_master" where
  "reading a m \<equiv> m\<lparr>araddr := a, arvalid := True, rready := True\<rparr>"

lemma rdata_seen:
  assumes "seen v u m"
  shows "reg_of a = REG_STATUS \<Longrightarrow> rdata_mux u (reading a x) = status v"
    and "reg_of a = REG_RXDATA \<Longrightarrow> got v \<noteq> [] \<Longrightarrow> rdata_mux u (reading a x) = ucast (hd (got v))"
proof -
  have v: "rx_overrun_q u = lost v" "items (rx_ring u) = got v" using assms by (simp_all add: seen_def)
  show "rdata_mux u (reading a x) = status v" if "reg_of a = REG_STATUS"
    using that v(1) seen_ready [OF assms] by (simp add: rdata_mux_def status_def)
  show "rdata_mux u (reading a x) = ucast (hd (got v))" if "reg_of a = REG_RXDATA" "got v \<noteq> []"
    using that v(2) fifo_head_hd [of "rx_ring u"] by (simp add: rdata_mux_def)
qed

lemma read_begins:
  assumes "bus_idle (bus u)" and "quiet m"
  shows "arready (uart_out u (reading a m))" and "\<not> udo_write u (reading a m)" and "accessed u (reading a m) v = taken a v"
    and "rvalid_q (bus_edge u (reading a m))" and "rdata_q (bus_edge u (reading a m)) = rdata_mux u (reading a m)"
    and "bus_idle (bus_edge u (reading a m)\<lparr>rvalid_q := False\<rparr>)"
  using assms by (auto simp: accessed_def taken_def bus_edge_def wires Let_def)

lemma read_ends:
  assumes "bus_idle (s\<lparr>rvalid_q := False\<rparr>)" and "quiet m" and "bus u = s" and "rvalid_q s"
  shows "accessed u m v = clock [] v" and "bus_idle (bus_edge u m)" and "\<not> udo_write u m"
    and "rvalid (uart_out u m)" and "rdata (uart_out u m) = rdata_q s"
  using assms by (simp_all add: accessed_def bus_edge_def wires Let_def)

lemma axi_read_loop_done: "axi_read_loop g True True v b = (True, v, b)"
  by (cases g) simp_all

lemma axi_read_result:
  assumes "desk v k n b0 b"
  shows "\<exists>w b'. axi_read a b = (w, b') \<and> desk (clock [] (taken a v)) k (Suc n) b0 b'
    \<and> (reg_of a = REG_STATUS \<longrightarrow> w = status v) \<and> (reg_of a = REG_RXDATA \<longrightarrow> got v \<noteq> [] \<longrightarrow> w = ucast (hd (got v)))"
proof -
  obtain m where b: "ub m v k n b0 b" "quiet m" "bus_idle (bus (urtl b))" using assms(1) by (auto simp: desk_def)
  let ?m = "reading a m" and ?m2 = "(reading a m)\<lparr>arvalid := False\<rparr>"
  define b1 where "b1 = ueval (udrive (reading a) b)"
  have b1: "ub ?m v k n b0 b1" "urtl b1 = urtl b" "umst b1 = ?m" "uslv b1 = uart_out (urtl b) ?m"
    using ub_eval [OF ub_drive [OF b(1)], of "reading a"] b(1) by (simp_all add: b1_def ub_def)
  note r = read_begins [OF b(3,2), of a]
  define w where "w = rdata_mux (urtl b) ?m"
  define b2 where "b2 = udrive (\<lambda>m. m\<lparr>arvalid := False\<rparr>) (utick b1)"
  have b2: "ub ?m2 (taken a v) k n b0 b2" "bus (urtl b2) = bus_edge (urtl b) ?m"
    unfolding b2_def using ub_drive [OF ub_tick(1) [OF b1(1)], of "\<lambda>m. m\<lparr>arvalid := False\<rparr>"] ub_tick(2) [OF b1(1)] r(2,3) b1(2) by simp_all
  have step1: "axi_read_loop 32 False False 0 (udrive (reading a) b) = axi_read_loop 31 True False 0 b2"
    using r(1) b(3) b1(3,4) by (simp add: numeral_eq_Suc Let_def b2_def bus_idle_def uart_out_def flip: b1_def del: axi_read_loop.simps(2))
      (simp add: Let_def b2_def bus_idle_def uart_out_def flip: b1_def)
  have "quiet ?m2" using b(2) by (simp add: quiet_def)
  note e = read_ends [OF r(6) this b2(2) r(4)]
  define b3 where "b3 = udrive (\<lambda>m. m\<lparr>arvalid := False\<rparr>) (utick (ueval b2))"
  have "umst b2 = ?m2" using b2(1) by (simp add: ub_def)
  then have loop: "axi_read_loop 32 False False 0 (udrive (reading a) b) = (True, w, b3)"
    unfolding step1 using e(4,5) r(5) axi_read_loop_done [of 30]
    by (simp add: numeral_eq_Suc Let_def b3_def w_def)
  have "ub (?m2\<lparr>arvalid := False\<rparr>) (clock [] (taken a v)) k n b0 b3" "bus_idle (bus (urtl b3))"
    unfolding b3_def using ub_drive [OF ub_tick(1) [OF ub_eval [OF b2(1)]], of "\<lambda>m. m\<lparr>arvalid := False\<rparr>"] ub_tick(2) [OF ub_eval [OF b2(1)]] e(1-3)
    by simp_all
  then have "desk (clock [] (taken a v)) k (Suc n) b0 (uidle (UCHECK True ''axi_read did not complete'' b3))" by (rule access_end)
  moreover have "seen v (urtl b) (mon b)" using b(1) by (simp add: ub_def)
  note rdata_seen [OF this, of a m, folded w_def]
  ultimately show ?thesis unfolding axi_read_def Let_def loop by auto
qed

section \<open>One frame\<close>

lemma clock_arrived: "clock [] (arrived b v) = arrived b (clock [] v)"
  by (simp add: arrived_def clock_updates)

text \<open>Levels on the line of the receiver while the bus rests.\<close>

definition listens :: "view \<Rightarrow> nat \<Rightarrow> nat \<Rightarrow> ubench \<Rightarrow> ubench \<Rightarrow> bool" where
  "listens v k n b0 b \<longleftrightarrow> urstn b \<and> quiet (umst b) \<and> bus_idle (bus (urtl b)) \<and> seen v (urtl b) (mon b) \<and> tx_taken b = k
     \<and> uchecks b = uchecks b0 + n \<and> ufails b = ufails b0 \<and> umessages b = umessages b0 \<and> irq_o b = rtl_irq (urtl b)"

lemma desk_listens: "desk v k n b0 b \<longleftrightarrow> listens v k n b0 b \<and> urxd b \<and> rx_at_rest (rx (urtl b))"
  by (auto simp: desk_def listens_def ub_def)

lemma listens_tick:
  assumes "listens v k n b0 b" and "b' = utick (b\<lparr>urxd := x\<rparr>)"
  shows "listens ((if rx_frame_done 9 (rx (urtl b)) then arrived (rx_shift_q (rx (urtl b))) else id) (clock [] v)) k n b0 b'"
    and "rx (urtl b') = rx_edge 9 x (rx (urtl b))" and "urxd b' = x"
proof -
  have b: "urstn b" "quiet (umst b)" "bus_idle (bus (urtl b))" "seen v (urtl b) (mon b)" using assms(1) by (simp_all add: listens_def)
  note q = quiet_cycle [OF b(3,2)]
  have s: "seen ((if rx_frame_done 9 (rx (urtl b)) then arrived (rx_shift_q (rx (urtl b))) else id) (clock [] v))
    (run_edge (umst b) x (urtl b)) (tx_monitor (txd_q (tx (run_edge (umst b) x (urtl b)))) (mon b))"
    using seen_edge [OF b(4), of "umst b" x] q(1,3) by simp
  have b': "b' = (let u = run_edge (umst b) x (urtl b) in b\<lparr>urxd := x, urtl := u, uslv := uart_out u (umst b), txd_o := txd_q (tx u),
      irq_o := rtl_irq u, mon := tx_monitor (txd_q (tx u)) (mon b)\<rparr>)"
    unfolding assms(2) using b(1) by (simp add: utick_run Let_def)
  show "listens ((if rx_frame_done 9 (rx (urtl b)) then arrived (rx_shift_q (rx (urtl b))) else id) (clock [] v)) k n b0 b'"
    using assms(1) s q(2) unfolding b' by (simp add: listens_def Let_def)
  show "rx (urtl b') = rx_edge 9 x (rx (urtl b))" "urxd b' = x"
    using b(4) unfolding b' by (simp_all add: rx_run_edge seen_def Let_def)
qed

lemma listens_levels:
  assumes "listens v k n b0 b" and "rx_run 9 xs (rx (urtl b)) = (bs, e)" and "b' = fold (\<lambda>level b. utick (b\<lparr>urxd := level\<rparr>)) xs b"
  shows "listens (fold arrived bs ((clock [] ^^ length xs) v)) k n b0 b' \<and> rx (urtl b') = e \<and> (xs \<noteq> [] \<longrightarrow> urxd b' = last xs)"
  using assms
proof (induction xs arbitrary: v b bs)
  case (Cons x xs)
  let ?b = "utick (b\<lparr>urxd := x\<rparr>)"
  note t = listens_tick [OF Cons.prems(1) refl, of x]
  obtain cs where run: "rx_run 9 xs (rx (urtl ?b)) = (cs, e)"
    and bs: "bs = (if rx_frame_done 9 (rx (urtl b)) then [rx_shift_q (rx (urtl b))] else []) @ cs"
    using Cons.prems(2) t(2) by (auto simp: Let_def split: prod.splits)
  have jump: "(clock [] ^^ i) (arrived c w) = arrived c ((clock [] ^^ i) w)" for i c w
    by (induction i) (simp_all add: clock_arrived)
  have "fold arrived cs ((clock [] ^^ length xs) ((if rx_frame_done 9 (rx (urtl b)) then arrived (rx_shift_q (rx (urtl b))) else id) (clock [] v)))
      = fold arrived bs ((clock [] ^^ length (x # xs)) v)"
    unfolding bs by (simp add: jump funpow_swap1)
  with Cons.IH [OF t(1) run] Cons.prems(3) t(3) show ?case by auto
qed simp

lemma send_frame_result:
  assumes "desk v k n b0 b"
  shows "desk (arrived c ((clock [] ^^ 100) v)) k n b0 (send_frame c b)"
proof -
  have d: "listens v k n b0 b" "rx_at_rest (rx (urtl b))" using assms by (simp_all add: desk_listens)
  have "10 = Suc (unat (9 :: u16))" "0 < unat (9 :: u16)" by simp_all
  from rx_frame_run [OF this d(2), of c] obtain e where e: "rx_run 9 (rx_frame c) (rx (urtl b)) = ([c], e)" "rx_at_rest e"
    by (auto simp: rx_frame_frame BIT_CYCLES_def)
  have len: "length (rx_frame c) = 100" "rx_frame c \<noteq> []" "last (rx_frame c)"
    unfolding rx_frame_levels by (simp_all add: last_map level_at_def)
  show ?thesis using listens_levels [OF d(1) e(1) refl] e(2) len by (simp add: desk_listens send_frame_def)
qed

section \<open>The bytes the monitor hears\<close>

definition decoded :: "view \<Rightarrow> nat list" where
  "decoded v = heard v @ (case flight v of Some (c, p) \<Rightarrow> if p \<le> 85 then [] else [unat c] | None \<Rightarrow> [])"

lemma desk_decoded: "desk v k n b0 b \<Longrightarrow> tx_bytes (mon b) = decoded v \<and> tx_taken b = k"
  by (auto simp: desk_def ub_def seen_def transmits_def decoded_def in_frame_def split: option.splits)

lemma tx_frame_waits:
  assumes "desk v k n b0 b" and "\<And>j. j < i \<Longrightarrow> length (decoded ((clock [] ^^ j) v)) \<le> k"
    and "k < length (decoded ((clock [] ^^ i) v))" and "i \<le> 4001"
  shows "\<exists>b'. tx_frame b = (int (decoded ((clock [] ^^ i) v) ! k), b') \<and> desk ((clock [] ^^ i) v) (Suc k) n b0 b'"
proof -
  have loop: "tx_frame_loop (i + g) b = tx_frame_loop g ((utick ^^ i) b)" for g
    using assms(1,2)
  proof (induction i arbitrary: b v)
    case (Suc i)
    have "length (decoded ((clock [] ^^ j) (clock [] v))) \<le> k" if "j < i" for j using Suc.prems(2) [of "Suc j"] that by (simp add: funpow_swap1)
    from Suc.IH [OF desk_tick [OF Suc.prems(1)] this] Suc.prems(2) [of 0] desk_decoded [OF Suc.prems(1)]
    show ?case by (simp add: funpow_swap1)
  qed simp
  have d: "desk ((clock [] ^^ i) v) k n b0 ((utick ^^ i) b)" by (rule desk_ticks [OF assms(1)])
  note t = desk_decoded [OF d]
  let ?b = "(utick ^^ i) b\<lparr>tx_taken := k + 1\<rparr>"
  have "tx_frame b = (int (decoded ((clock [] ^^ i) v) ! k), ?b)"
  proof -
    have "tx_frame b = tx_frame_loop (4001 - i) ((utick ^^ i) b)" using loop [of "4001 - i"] assms(4) by (simp add: tx_frame_def)
    then show ?thesis using assms(3) t by (cases "4001 - i") auto
  qed
  moreover have "desk ((clock [] ^^ i) v) (Suc k) n b0 ?b" using d by (auto simp: desk_def ub_def)
  ultimately show ?thesis by blast
qed

lemma clock_jump: "flight v = Some (c, p) \<Longrightarrow> p + i \<le> 100 \<Longrightarrow> (clock [] ^^ i) v = v\<lparr>flight := Some (c, p + i)\<rparr>"
  by (induction i) (simp_all add: clock_def)


text \<open>The byte on the line, from the middle of its last bit on; and the next one behind it.\<close>

lemma tx_frame_in_flight:
  assumes "desk v k n b0 b" and "flight v = Some (c, p)" and "p \<le> 86" and "k = length (heard v)"
  shows "\<exists>b'. tx_frame b = (int (unat c), b') \<and> desk (v\<lparr>flight := Some (c, 86)\<rparr>) (Suc k) n b0 b'"
proof -
  have j: "(clock [] ^^ j) v = v\<lparr>flight := Some (c, p + j)\<rparr>" if "j \<le> 86 - p" for j using clock_jump [OF assms(2), of j] that assms(3) by simp
  have "length (decoded ((clock [] ^^ j) v)) \<le> k" if "j < 86 - p" for j using j [of j] that assms(4) by (simp add: decoded_def)
  moreover have "decoded ((clock [] ^^ (86 - p)) v) = heard v @ [unat c]" using j [of "86 - p"] assms(3) by (simp add: decoded_def)
  ultimately show ?thesis using tx_frame_waits [OF assms(1), of "86 - p"] j [of "86 - p"] assms(3,4) by simp
qed

lemma clock_next:
  assumes "flight v = Some (c, p)" and "p \<le> 100" and "fifo v = d # q"
  shows "(clock [] ^^ (101 - p)) v = v\<lparr>flight := None, heard := heard v @ [unat c]\<rparr>"
    and "i \<le> 99 \<Longrightarrow> (clock [] ^^ (102 - p + i)) v = v\<lparr>fifo := q, flight := Some (d, 1 + i), heard := heard v @ [unat c]\<rparr>"
proof -
  have "(clock [] ^^ (100 - p)) v = v\<lparr>flight := Some (c, 100)\<rparr>" using clock_jump [OF assms(1), of "100 - p"] assms(2) by simp
  moreover have "101 - p = Suc (100 - p)" using assms(2) by simp
  ultimately show n: "(clock [] ^^ (101 - p)) v = v\<lparr>flight := None, heard := heard v @ [unat c]\<rparr>" by (simp add: clock_def)
  have "(clock [] ^^ (102 - p)) v = clock [] ((clock [] ^^ (101 - p)) v)"
  proof -
    have "102 - p = Suc (101 - p)" using assms(2) by simp
    then show ?thesis by simp
  qed
  then have s: "(clock [] ^^ (102 - p)) v = v\<lparr>fifo := q, flight := Some (d, 1), heard := heard v @ [unat c]\<rparr>"
    unfolding n using assms(3) by (simp add: clock_def)
  have "(clock [] ^^ (102 - p + i)) v = (clock [] ^^ i) ((clock [] ^^ (102 - p)) v)" by (subst add.commute) (simp only: funpow_add o_apply)
  then show "(clock [] ^^ (102 - p + i)) v = v\<lparr>fifo := q, flight := Some (d, 1 + i), heard := heard v @ [unat c]\<rparr>" if "i \<le> 99"
    unfolding s using that clock_jump [of "v\<lparr>fifo := q, flight := Some (d, 1), heard := heard v @ [unat c]\<rparr>" d 1 i] by simp
qed

lemma tx_frame_next:
  assumes "desk v k n b0 b" and "flight v = Some (c, p)" and "86 \<le> p" "p \<le> 100" and "k = Suc (length (heard v))" and "fifo v = d # q"
  shows "\<exists>b'. tx_frame b = (int (unat d), b')
    \<and> desk (v\<lparr>fifo := q, flight := Some (d, 86), heard := heard v @ [unat c]\<rparr>) (Suc k) n b0 b'"
proof -
  note nx = clock_next [OF assms(2,4,6)]
  have "length (decoded ((clock [] ^^ j) v)) \<le> k" if "j < 102 - p + 85" for j
  proof -
    consider "j \<le> 100 - p" | "j = 101 - p" | "102 - p \<le> j" by linarith
    then show ?thesis
    proof cases
      case 1
      then show ?thesis using clock_jump [OF assms(2), of j] assms(3-5) by (simp add: decoded_def)
    next
      case 2
      show ?thesis unfolding 2 nx(1) using assms(5) by (simp add: decoded_def)
    next
      case 3
      then have "j = 102 - p + (j - (102 - p))" "j - (102 - p) < 85" using that by simp_all
      then show ?thesis using nx(2) [of "j - (102 - p)"] assms(5) by (simp add: decoded_def)
    qed
  qed
  then have early: "j < 102 - p + 85 \<Longrightarrow> length (decoded ((clock [] ^^ j) v)) \<le> k" for j .
  have at: "(clock [] ^^ (102 - p + 85)) v = v\<lparr>fifo := q, flight := Some (d, 86), heard := heard v @ [unat c]\<rparr>"
    by (subst nx(2)) simp_all
  have "102 - p + 85 \<le> 4001" using assms(4) by simp
  from tx_frame_waits [OF assms(1) early, of "102 - p + 85", unfolded at, OF _ _ this] show ?thesis
    using assms(5) by (simp add: decoded_def nth_append)
qed

text \<open>A queue drained: every byte is found in its turn.\<close>

lemma expect_frame_ok: "tx_frame b = (int (unat c), b') \<Longrightarrow> desk v k n b0 b' \<Longrightarrow> desk v k (Suc n) b0 (expect_frame (ucast c) msg b)"
  by (simp add: expect_frame_def UCHECK_EQ_def desk_check unsigned_ucast_eq)

lemma drain_result:
  assumes "desk v k n b0 b" and "flight v = Some (c, 86)" and "k = Suc (length (heard v))" and "fifo v = q"
  shows "desk (v\<lparr>fifo := [], flight := Some (last (c # q), 86), heard := heard v @ map unat (butlast (c # q))\<rparr>) (k + length q) (n + length q) b0
    (fold (\<lambda>w. expect_frame w msg) (map ucast q) b)"
  using assms
proof (induction q arbitrary: v k n b c)
  case Nil
  then have "v\<lparr>fifo := [], flight := Some (last [c], 86), heard := heard v @ map unat (butlast [c])\<rparr> = v" by (cases v) simp
  with Nil(1) show ?case by (simp only: fold_simps(1) list.map list.size add_0_right)
next
  case (Cons d q)
  obtain b' where f: "tx_frame b = (int (unat d), b')" "desk (v\<lparr>fifo := q, flight := Some (d, 86), heard := heard v @ [unat c]\<rparr>) (Suc k) n b0 b'"
    using tx_frame_next [OF Cons.prems(1,2) _ _ Cons.prems(3,4)] by auto
  from Cons.IH [OF expect_frame_ok [OF f]] Cons.prems(3) show ?case by simp
qed

section \<open>What the tests do\<close>

definition start_view :: view where
  "start_view = \<lparr>fifo = [], flight = None, heard = [], got = [], lost = False, ies = (False, False)\<rparr>"

definition silent :: "view \<Rightarrow> bool" where
  "silent v \<longleftrightarrow> fifo v = [] \<and> flight v = None"

lemma silent_clock [simp]: "silent v \<Longrightarrow> clock [] v = v" "silent v \<Longrightarrow> (clock [] ^^ i) v = v"
proof -
  show c: "clock [] v = v" if "silent v" for v using that by (cases v) (simp add: silent_def clock_def)
  show "(clock [] ^^ i) v = v" if "silent v" using c [OF that] by (induction i) simp_all
qed

lemma silent_simps [simp]: "silent (v\<lparr>got := q\<rparr>) = silent v" "silent (v\<lparr>lost := x\<rparr>) = silent v" "silent (v\<lparr>ies := y\<rparr>) = silent v"
  by (simp_all add: silent_def)

lemma desk_irq: "desk v k n b0 b \<Longrightarrow> irq_o b \<longleftrightarrow> length (fifo v) < 16 \<and> fst (ies v) \<or> got v \<noteq> [] \<and> snd (ies v)"
proof -
  assume "desk v k n b0 b"
  then have "irq_o b = rtl_irq (urtl b)" "seen v (urtl b) (mon b)" by (auto simp: desk_def ub_def)
  then show ?thesis using seen_ready by (simp add: rtl_irq_def) (simp add: seen_def)
qed

lemma desk_ueval: "desk v k n b0 b \<Longrightarrow> desk v k n b0 (ueval b)"
  by (auto simp: desk_def ub_def ueval_def)

lemma desk_expect_irq:
  assumes "desk v k n b0 b" and "want = (if length (fifo v) < 16 \<and> fst (ies v) \<or> got v \<noteq> [] \<and> snd (ies v) then 1 else 0)"
  shows "desk v k (Suc n) b0 (expect_irq want msg b)"
  unfolding expect_irq_def UCHECK_EQ_def by (rule desk_check [OF assms(1)]) (use desk_irq [OF assms(1)] assms(2) in simp)

subsection \<open>Reset\<close>

lemma reset_seen:
  assumes "m' = \<lparr>mon_state = 0, mon_cnt = x, mon_bit = y, mon_byte = z, mon_target = t, tx_bytes = []\<rparr>"
  shows "seen start_view (reset_edge 9 a u) m'" and "bus_idle (bus (reset_edge 9 a u))" and "rx_at_rest (rx (reset_edge 9 a u))"
    and "txd_q (tx (reset_edge 9 a u))"
  by (simp_all add: assms seen_def start_view_def reset_edge_def rings_edge_def rtl_ok_def reset_ring transmits_def tx_at_rest_def tx_reset_def
      bus_idle_def bus_reset_def rx_at_rest_def rx_reset_def)

lemma reset_tick:
  assumes "\<not> urstn b" and "mon_state (mon b) = 0" and "tx_bytes (mon b) = []"
  shows "seen start_view (urtl (utick b)) (mon b)" and "bus_idle (bus (urtl (utick b)))" and "rx_at_rest (rx (urtl (utick b)))"
    and "\<not> urstn (utick b)" and "mon (utick b) = mon b" and "umst (utick b) = umst b" and "urxd (utick b) = urxd b"
    and "tx_taken (utick b) = tx_taken b" and "uchecks (utick b) = uchecks b" and "ufails (utick b) = ufails b"
    and "umessages (utick b) = umessages b" and "irq_o (utick b) = rtl_irq (urtl (utick b))"
proof -
  obtain x y z t where m: "mon b = \<lparr>mon_state = 0, mon_cnt = x, mon_bit = y, mon_byte = z, mon_target = t, tx_bytes = []\<rparr>"
    using assms(2,3) by (cases "mon b") auto
  note r = reset_seen [OF m, of "umst b" "urtl b"]
  have "tx_monitor True (mon b) = mon b" using assms(2) by (simp add: tx_monitor_def)
  then have t: "utick b = (let u = reset_edge 9 (umst b) (urtl b) in b\<lparr>urtl := u, uslv := uart_out u (umst b), txd_o := True, irq_o := rtl_irq u,
      mon := mon b\<rparr>)"
    using assms(1) r(4) by (simp add: utick_def ueval_def uposedge_def uart_edge_def Let_def)
  show "seen start_view (urtl (utick b)) (mon b)" "bus_idle (bus (urtl (utick b)))" "rx_at_rest (rx (urtl (utick b)))"
    "\<not> urstn (utick b)" "mon (utick b) = mon b" "umst (utick b) = umst b" "urxd (utick b) = urxd b"
    "tx_taken (utick b) = tx_taken b" "uchecks (utick b) = uchecks b" "ufails (utick b) = ufails b"
    "umessages (utick b) = umessages b" "irq_o (utick b) = rtl_irq (urtl (utick b))"
    unfolding t using r assms(1) by (simp_all add: Let_def)
qed

lemma ureset_result:
  assumes "mon_state (mon b) = 0" and "tx_bytes (mon b) = []" and "tx_taken b = 0"
  shows "desk start_view 0 0 b (ureset b)"
proof -
  define b1 where "b1 = uidle (b\<lparr>urstn := False, urxd := True\<rparr>)"
  have b1: "\<not> urstn b1" "mon b1 = mon b" "urxd b1" "quiet (umst b1)" "tx_taken b1 = 0" "uchecks b1 = uchecks b" "ufails b1 = ufails b"
    "umessages b1 = umessages b" using assms by (simp_all add: b1_def uidle_def ueval_def udrive_def quiet_def)
  define b2 where "b2 = utick (utick (utick b1))"
  have b2: "\<not> urstn b2" "mon b2 = mon b" "umst b2 = umst b1" "urxd b2" "tx_taken b2 = 0" "uchecks b2 = uchecks b" "ufails b2 = ufails b"
    "umessages b2 = umessages b" using b1 assms by (simp_all add: b2_def reset_tick)
  define b3 where "b3 = utick b2"
  have "seen start_view (urtl b3) (mon b3) \<and> bus_idle (bus (urtl b3)) \<and> rx_at_rest (rx (urtl b3))
    \<and> umst b3 = umst b1 \<and> urxd b3 \<and> tx_taken b3 = 0 \<and> uchecks b3 = uchecks b \<and> ufails b3 = ufails b \<and> umessages b3 = umessages b
    \<and> irq_o b3 = rtl_irq (urtl b3)"
    unfolding b3_def using reset_tick [OF b2(1)] b2 assms by simp
  then have "desk start_view 0 0 b (b3\<lparr>urstn := True\<rparr>)" using b1(4) by (simp add: desk_listens listens_def)
  from desk_tick [OF this] have "desk start_view 0 0 b (utick (b3\<lparr>urstn := True\<rparr>))"
    using silent_clock(1) [of start_view] by (simp add: silent_def start_view_def)
  then show ?thesis by (simp add: ureset_def Let_def b3_def b2_def b1_def numeral_eq_Suc)
qed

subsection \<open>Accesses\<close>

lemma expect_status:
  assumes "desk v k n b0 b" and "status v AND bits = want"
  shows "desk (clock [] (clock [] v)) k (n + 2) b0 (expect_read TB_STATUS bits want msg b)"
proof -
  obtain b' where "axi_read TB_STATUS b = (status v, b')" "desk (clock [] (taken TB_STATUS v)) k (Suc n) b0 b'"
    using axi_read_result [OF assms(1), of TB_STATUS] by auto
  then show ?thesis using desk_check assms(2) by (fastforce simp: expect_read_def UCHECK_EQ_def taken_def)
qed

lemma byte_mask: "(ucast (c :: u8) :: u32) AND 0xFF = ucast c"
proof -
  have "(0xFF :: u32) = mask 8" by (simp add: mask_eq_exp_minus_1)
  moreover have "take_bit 8 (ucast c :: u32) = ucast c" by (rule bit_word_eqI) (auto simp: bit_simps dest: bit_imp_le_length)
  ultimately show ?thesis by (simp only: take_bit_eq_mask [symmetric])
qed

lemma expect_byte:
  assumes "desk v k n b0 b" and "silent v" and "got v = c # q"
  shows "desk (v\<lparr>got := q, lost := False\<rparr>) k (n + 2) b0 (expect_read TB_RXDATA 0xFF (ucast c) msg b)"
proof -
  obtain b' where b': "axi_read TB_RXDATA b = (ucast c, b')" "desk (v\<lparr>got := q, lost := False\<rparr>) k (Suc n) b0 b'"
    using axi_read_result [OF assms(1), of TB_RXDATA] assms(2,3) by (auto simp: taken_def)
  then show ?thesis using desk_check [OF b'(2) TrueI] by (simp add: expect_read_def UCHECK_EQ_def byte_mask)
qed

lemma expect_bytes:
  assumes "desk v k n b0 b" and "silent v" and "got v = cs @ q"
  shows "desk (v\<lparr>got := q, lost := (lost v \<and> cs = [])\<rparr>) k (n + 2 * length cs) b0
    (fold (\<lambda>c. expect_read TB_RXDATA 0xFF (ucast c) msg) cs b)"
  using assms
proof (induction cs arbitrary: v n b)
  case Nil
  then have "v\<lparr>got := q, lost := (lost v \<and> [] = ([] :: u8 list))\<rparr> = v" by (cases v) simp
  with Nil(1) show ?case by (simp only: fold_simps(1) list.size mult_0_right add_0_right)
next
  case (Cons c cs)
  from Cons.IH [OF expect_byte [OF Cons.prems(1,2)], of c "cs @ q"] Cons.prems(2,3) show ?case by (simp add: add.assoc)
qed

lemma axi_write_byte:
  assumes "desk v k n b0 b" and "length (fifo v) < 16"
  shows "desk (clock [] (clock [ucast d] v)) k (Suc n) b0 (axi_write TB_TXDATA d b)"
proof -
  have "\<exists>b'. axi_write_timed TB_TXDATA d (Suc (Suc 30)) b = (2, b') \<and> desk (clock [] (written TB_TXDATA d v)) k (Suc n) b0 b'"
    by (rule axi_write_result [OF assms(1)]) (use assms(2) in simp_all)
  then show ?thesis by (auto simp: axi_write_def written_def)
qed

lemma axi_write_ctrl:
  assumes "desk v k n b0 b" and "silent v"
  shows "desk (v\<lparr>ies := (bit d 0, bit d 1)\<rparr>) k (Suc n) b0 (ueval (axi_write TB_CTRL d b))"
proof -
  have "\<exists>b'. axi_write_timed TB_CTRL d (Suc (Suc 30)) b = (2, b') \<and> desk (clock [] (written TB_CTRL d v)) k (Suc n) b0 b'"
    by (rule axi_write_result [OF assms(1)]) simp_all
  then show ?thesis using assms(2) by (auto simp: axi_write_def written_def intro: desk_ueval)
qed

subsection \<open>Queues of bytes\<close>

text \<open>Up to 16 bytes, written without a look at the status: the first goes to the line, the others follow.\<close>

lemma queue_writes:
  assumes "desk v k n b0 b" and "silent v" and "length (c # q) \<le> 16"
  shows "desk (v\<lparr>fifo := q, flight := Some (c, 2 * length q + 1)\<rparr>) k (n + length (c # q)) b0
    (fold (\<lambda>c. axi_write TB_TXDATA (ucast c)) (c # q) b)"
  using assms(3)
proof (induction q rule: rev_induct)
  case Nil
  have "clock [] (clock [c] v) = v\<lparr>fifo := [], flight := Some (c, 1)\<rparr>" using assms(2) by (simp add: silent_def clock_def)
  then show ?case using axi_write_byte [OF assms(1), of "ucast c"] assms(2) by (simp add: silent_def)
next
  case (snoc d q)
  let ?v = "v\<lparr>fifo := q, flight := Some (c, 2 * length q + 1)\<rparr>"
  have d: "desk ?v k (n + length (c # q)) b0 (fold (\<lambda>c. axi_write TB_TXDATA (ucast c)) (c # q) b)" using snoc by simp
  have "clock [] (clock [d] ?v) = v\<lparr>fifo := q @ [d], flight := Some (c, 2 * length (q @ [d]) + 1)\<rparr>" using snoc.prems by (simp add: clock_def)
  then show ?case using axi_write_byte [OF d, of "ucast d"] snoc.prems by simp
qed

lemma queue_heard:
  assumes "desk v k n b0 b" and "silent v" and "k = length (heard v)" and "length (c # q) \<le> 16"
  shows "desk (v\<lparr>fifo := [], flight := Some (last (c # q), 86), heard := heard v @ map unat (butlast (c # q))\<rparr>)
    (k + length (c # q)) (n + 2 * length (c # q)) b0
    (fold (\<lambda>c. expect_frame (ucast c) msg) (c # q) (fold (\<lambda>c. axi_write TB_TXDATA (ucast c)) (c # q) b))"
proof -
  let ?b = "fold (\<lambda>c. axi_write TB_TXDATA (ucast c)) (c # q) b"
  note w = queue_writes [OF assms(1,2,4)]
  have "2 * length q + 1 \<le> 86" using assms(4) by simp
  from tx_frame_in_flight [OF w _ this] assms(3) obtain b' where
    f: "tx_frame ?b = (int (unat c), b')" "desk (v\<lparr>fifo := q, flight := Some (c, 86)\<rparr>) (Suc k) (n + length (c # q)) b0 b'" by auto
  have "fold (\<lambda>c. expect_frame (ucast c) msg) q B = fold (\<lambda>w. expect_frame w msg) (map ucast q) B" for B by (simp add: fold_map comp_def)
  then show ?thesis using drain_result [where msg = msg and c = c and q = q, OF expect_frame_ok [where msg = msg, OF f]] assms(3) by (cases "q = []") (simp_all add: fold_map comp_def ac_simps mult_2_right)
qed

text \<open>A burst of frames, of any length: the first 16 bytes are kept.\<close>

lemma fold_arrived: "length (got v) \<le> 16 \<Longrightarrow> fold arrived cs v
    = v\<lparr>got := take 16 (got v @ cs), lost := (lost v \<or> 16 < length (got v) + length cs)\<rparr>"
proof (induction cs arbitrary: v)
  case Nil
  then show ?case by (cases v) simp
next
  case (Cons c cs)
  show ?case
  proof (cases "length (got v) < 16")
    case True
    then show ?thesis using Cons.IH [of "arrived c v"] by (simp add: arrived_def)
  next
    case False
    then have "length (got v) = 16" using Cons.prems by simp
    then show ?thesis using Cons.IH [of "arrived c v"] by (simp add: arrived_def)
  qed
qed

lemma burst_result:
  assumes "desk v k n b0 b" and "silent v" and "got v = []"
  shows "desk (v\<lparr>got := take 16 cs, lost := (lost v \<or> 16 < length cs)\<rparr>) k n b0 (fold send_frame cs b)"
proof -
  have "desk (fold arrived cs v) k n b0 (fold send_frame cs b)"
    using assms(1,2)
  proof (induction cs arbitrary: v b)
    case (Cons c cs)
    have s: "silent (arrived c v)" using Cons.prems(2) by (simp add: arrived_def)
    show ?case using Cons.IH [OF _ s] send_frame_result [OF Cons.prems(1), of c] Cons.prems(2) by simp
  qed simp
  then show ?thesis using fold_arrived [of v cs] assms(3) by simp
qed


subsection \<open>The test of the full FIFO\<close>

text \<open>A round of the filling loop that writes \<open>c\<close>: four cycles, the third with the push.\<close>

definition filled :: "u8 \<Rightarrow> view \<Rightarrow> view" where
  "filled c v = clock [] (clock [c] (clock [] (clock [] v)))"

definition fill_byte :: "nat \<Rightarrow> u32" where
  "fill_byte j = 0x30 + of_nat j"

lemma clock_room: "length (fifo (clock [] v)) \<le> length (fifo v)"
  by (simp add: clock_def split: option.splits list.splits)

lemma status_ready: "status v AND ST_TX_READY = (if length (fifo v) < 16 then 1 else 0)"
  by (simp add: status_def ST_TX_READY_def)

lemma fill_loop_round:
  assumes "desk v k n b0 b" and "length (fifo v) < 16"
  shows "\<exists>b'. fill_loop (Suc g) qs b = fill_loop g (qs @ [fill_byte (length qs)]) b'
    \<and> desk (filled (ucast (fill_byte (length qs))) v) k (n + 2) b0 b'"
proof -
  obtain b1 where r: "axi_read TB_STATUS b = (status v, b1)" "desk (clock [] (clock [] v)) k (Suc n) b0 b1"
    using axi_read_result [OF assms(1), of TB_STATUS] by (auto simp: taken_def)
  have "length (fifo (clock [] (clock [] v))) < 16"
    using assms(2) clock_room [of v] clock_room [of "clock [] v"] by linarith
  from axi_write_byte [OF r(2) this, of "fill_byte (length qs)"] show ?thesis
    using r(1) assms(2) status_ready [of v] by (auto simp: filled_def fill_byte_def Let_def)
qed

lemma fill_loop_stops:
  assumes "desk v k n b0 b" and "\<not> length (fifo v) < 16"
  shows "\<exists>b'. fill_loop (Suc g) qs b = (qs, b') \<and> desk (clock [] (clock [] v)) k (n + 1) b0 b'"
proof -
  obtain b1 where r: "axi_read TB_STATUS b = (status v, b1)" "desk (clock [] (clock [] v)) k (Suc n) b0 b1"
    using axi_read_result [OF assms(1), of TB_STATUS] by (auto simp: taken_def)
  then show ?thesis using assms(2) status_ready [of v] by auto
qed

abbreviation fills :: "nat \<Rightarrow> view \<Rightarrow> view" where
  "fills i v \<equiv> fold (\<lambda>j. filled (ucast (fill_byte j))) [0..<i] v"

lemma fill_loop_rounds:
  assumes "desk v k n b0 b" and "list_all (\<lambda>j. length (fifo (fills j v)) < 16) [0..<i]"
  shows "\<exists>b'. fill_loop (i + g) [] b = fill_loop g (map fill_byte [0..<i]) b' \<and> desk (fills i v) k (n + 2 * i) b0 b'"
  using assms(2)
proof (induction i arbitrary: g)
  case 0
  then show ?case using assms(1) by auto
next
  case (Suc i)
  obtain b1 where b1: "fill_loop (i + Suc g) [] b = fill_loop (Suc g) (map fill_byte [0..<i]) b1" "desk (fills i v) k (n + 2 * i) b0 b1"
    using Suc.IH [of "Suc g"] Suc.prems by (auto simp del: fill_loop.simps)
  have "length (fifo (fills i v)) < 16" using Suc.prems by simp
  from fill_loop_round [OF b1(2) this, of g "map fill_byte [0..<i]"] b1(1) show ?case by (auto simp del: fill_loop.simps)
qed

definition queued_view :: view where
  "queued_view = \<lparr>fifo = [], flight = Some (0x0D, 86), heard = [0x41, 0x42, 0x43], got = [], lost = False, ies = (False, False)\<rparr>"

text \<open>A write into the full FIFO is held until the frame on the line is over and the next byte leaves.\<close>

lemma held_until_room:
  assumes "desk v k n b0 b" and "length (fifo v) = 16" and "flight v = Some (c, p)" and "p \<le> 100" and "104 - p \<le> g"
  shows "\<exists>b'. axi_write_timed TB_TXDATA d g b = (104 - p, b')
    \<and> desk (v\<lparr>fifo := tl (fifo v) @ [ucast d], flight := Some (hd (fifo v), 3), heard := heard v @ [unat c]\<rparr>) k (Suc n) b0 b'"
proof -
  obtain e q where q: "fifo v = e # q" "length q = 15" using assms(2) by (cases "fifo v") auto
  note nx = clock_next [OF assms(3,4) q(1)]
  let ?v = "v\<lparr>fifo := q, flight := Some (e, 1), heard := heard v @ [unat c]\<rparr>"
  have room: "(clock [] ^^ (102 - p)) v = ?v" using nx(2) [of 0] by simp
  have full: "\<not> length (fifo ((clock [] ^^ i) v)) < 16" if "i < 102 - p" for i
  proof (cases "i = 101 - p")
    case True
    then show ?thesis using nx(1) assms(2) by simp
  next
    case False
    then show ?thesis using clock_jump [OF assms(3), of i] that assms(2,4) by simp
  qed
  have h: "Suc (101 - p) = 102 - p" "101 - p + 3 = 104 - p" using assms(4) by simp_all
  obtain j where j: "g = 101 - p + Suc (Suc (Suc j))" using assms(4,5) by (metis h(2) le_iff_add add_Suc_right add_Suc add.commute numeral_3_eq_3 add_0)
  have "length (fifo ((clock [] ^^ Suc (101 - p)) v)) < 16" unfolding h(1) room using q(2) by simp
  from held_write [OF assms(1) full [folded h(1)] this, of d j] obtain b' where
    b': "axi_write_timed TB_TXDATA d g b = (104 - p, b')" "desk (clock [] (clock [ucast d] ?v)) k (Suc n) b0 b'"
    unfolding j h(1,2) room by blast
  have "clock [] (clock [ucast d] ?v) = v\<lparr>fifo := q @ [ucast d], flight := Some (e, 3), heard := heard v @ [unat c]\<rparr>" by (simp add: clock_def)
  then show ?thesis using b' q(1) by auto
qed

definition sent_view :: view where
  "sent_view = start_view\<lparr>heard := [0x41, 0x42, 0x43, 0x0D] @ map (\<lambda>j. 0x30 + j) [0..<17] @ [0xFF]\<rparr>"

lemma queued_view_fills:
  "list_all (\<lambda>j. length (fifo (fills j queued_view)) < 16) [0..<17]"
  "fills 17 queued_view = \<lparr>fifo = map (\<lambda>j. 0x31 + of_nat j) [0..<16], flight = Some (0x30, 53), heard = [0x41, 0x42, 0x43, 0x0D],
     got = [], lost = False, ies = (False, False)\<rparr>"
  by code_simp+

abbreviation full_view :: "nat \<Rightarrow> view" where
  "full_view p \<equiv> \<lparr>fifo = map (\<lambda>j. 0x31 + of_nat j) [0..<16], flight = Some (0x30, p), heard = [0x41, 0x42, 0x43, 0x0D], got = [], lost = False, ies = (False, False)\<rparr>"

text \<open>The filling ends after 17 bytes, with the FIFO full and 57 clocks of a frame gone.\<close>

lemma filling:
  assumes "desk queued_view 4 n b0 b"
  shows "\<exists>b2. fill_loop 64 [] b = (map fill_byte [0..<17], b2) \<and> desk (full_view 57) 4 (n + 37) b0
    (expect_read TB_STATUS ST_TX_READY 0 msg b2)"
proof -
  from fill_loop_rounds [OF assms queued_view_fills(1), of 47] obtain b1 where
    b1: "fill_loop 64 [] b = fill_loop (Suc 46) (map fill_byte [0..<17]) b1" "desk (full_view 53) 4 (n + 2 * 17) b0 b1"
    unfolding queued_view_fills(2) by auto
  from fill_loop_stops [OF b1(2), of 46 "map fill_byte [0..<17]"] obtain b2 where
    b2: "fill_loop 64 [] b = (map fill_byte [0..<17], b2)" "desk (full_view 55) 4 (n + 2 * 17 + 1) b0 b2"
    unfolding b1(1) by (auto simp: clock_def)
  have "desk (full_view 57) 4 (n + 37) b0 (expect_read TB_STATUS ST_TX_READY 0 msg b2)"
    using expect_status [OF b2(2), of ST_TX_READY 0 msg] status_ready [of "full_view 55"] by (simp add: clock_def add.commute)
  then show ?thesis using b2(1) by blast
qed

text \<open>After the held write: 18 bytes, in order.\<close>

abbreviation held_view :: "nat \<Rightarrow> view" where
  "held_view p \<equiv> \<lparr>fifo = map (\<lambda>j. 0x32 + of_nat j) [0..<15] @ [0xFF], flight = Some (0x31, p), heard = [0x41, 0x42, 0x43, 0x0D, 0x30],
     got = [], lost = False, ies = (False, False)\<rparr>"

abbreviation drained_view :: view where
  "drained_view \<equiv> \<lparr>fifo = [], flight = Some (0xFF, 86), heard = [0x41, 0x42, 0x43, 0x0D, 0x30, 0x31] @ map (\<lambda>j. 0x32 + j) [0..<15],
     got = [], lost = False, ies = (False, False)\<rparr>"

lemma holding:
  assumes "desk (full_view 57) 4 n b0 b"
  shows "\<exists>b'. axi_write_timed TB_TXDATA 0xFF 400 b = (47, b') \<and> desk (held_view 3) 4 (Suc n) b0 b'"
proof -
  have "tl (map (\<lambda>j. 0x31 + of_nat j) [0..<16]) @ [ucast (0xFF :: u32)] = map (\<lambda>j. 0x32 + of_nat j :: u8) [0..<15] @ [0xFF]"
    "hd (map (\<lambda>j. 0x31 + of_nat j) [0..<16]) = (0x31 :: u8)" by code_simp+
  then show ?thesis using held_until_room [OF assms, of "0x30" 57 400 "0xFF"] by simp
qed

lemma draining:
  assumes "desk (held_view 3) 4 n b0 b"
  shows "desk drained_view 22 (n + 18) b0 (fold (\<lambda>w. expect_frame w msg) (map fill_byte [0..<17] @ [0xFF]) b)"
proof -
  from tx_frame_waits [OF assms, of 0] obtain b1 where "tx_frame b = (int (unat (0x30 :: u8)), b1)" "desk (held_view 3) 5 n b0 b1"
    by (auto simp: decoded_def)
  from expect_frame_ok [where msg = msg, OF this] have d1: "desk (held_view 3) 5 (Suc n) b0 (expect_frame 0x30 msg b)" by simp
  from tx_frame_in_flight [OF d1, of "0x31" 3] obtain b2 where
    "tx_frame (expect_frame 0x30 msg b) = (int (unat (0x31 :: u8)), b2)" "desk (held_view 86) 6 (Suc n) b0 b2" by auto
  from expect_frame_ok [where msg = msg, OF this]
  have d2: "desk (held_view 86) 6 (Suc (Suc n)) b0 (expect_frame 0x31 msg (expect_frame 0x30 msg b))" by simp
  define q :: "u8 list" where "q = map (\<lambda>j. 0x32 + of_nat j) [0..<15] @ [0xFF]"
  have q: "map fill_byte [0..<17] @ [0xFF] = 0x30 # 0x31 # map ucast q" "length q = 16" "last (0x31 # q) = 0xFF"
    "map unat (butlast (0x31 # q)) = 0x31 # map (\<lambda>j. 0x32 + j) [0..<15]" unfolding q_def by code_simp+
  have v: "held_view 86 = \<lparr>fifo = q, flight = Some (0x31, 86), heard = [0x41, 0x42, 0x43, 0x0D, 0x30], got = [], lost = False, ies = (False, False)\<rparr>"
    by (simp only: q_def)
  have "desk drained_view (6 + length q) (Suc (Suc n) + length q) b0 (fold (\<lambda>w. expect_frame w msg) (map ucast q)
      (expect_frame 0x31 msg (expect_frame 0x30 msg b)))"
    using drain_result [where msg = msg and q = q and c = "0x31", OF d2 [unfolded v]] unfolding q(3,4) by simp
  then show ?thesis unfolding q(1) by (simp add: q(2) add.commute)
qed

lemma drained_silent: "(clock [] ^^ 20) (clock [] (clock [] drained_view)) = sent_view"
proof -
  let ?v = "drained_view\<lparr>flight := Some (0xFF, 88)\<rparr>"
  have two: "clock [] (clock [] drained_view) = ?v" by (simp add: clock_def)
  have "flight ?v = Some (0xFF, 88)" by simp
  from clock_jump [OF this, of 12] have "(clock [] ^^ 12) ?v = drained_view\<lparr>flight := Some (0xFF, 100)\<rparr>" by simp
  moreover have "clock [] (drained_view\<lparr>flight := Some (0xFF, 100)\<rparr>) = sent_view" by code_simp
  moreover have "silent sent_view" by (simp add: silent_def sent_view_def start_view_def)
  moreover have "(20 :: nat) = 7 + Suc 12" by simp
  ultimately show ?thesis unfolding two by (simp only: funpow_add o_apply funpow.simps(2) silent_clock(2))
qed

lemma full_test_result:
  assumes "desk queued_view 4 n b0 b"
  shows "desk sent_view 22 (n + 61) b0 (full_test b)"
proof -
  obtain b2 where b2: "fill_loop 64 [] b = (map fill_byte [0..<17], b2)"
    and d2: "desk (full_view 57) 4 (n + 37) b0 (expect_read TB_STATUS ST_TX_READY 0 ''TX_READY clear once the TX FIFO is full'' b2)"
    using filling [OF assms] by blast
  define b3 where "b3 = UCHECK True ''at least DEPTH bytes accepted'' (expect_read TB_STATUS ST_TX_READY 0 ''TX_READY clear once the TX FIFO is full'' b2)"
  from holding [OF desk_check [OF d2 TrueI]] obtain b4 where
    b4: "axi_write_timed TB_TXDATA 0xFF 400 b3 = (47, b4)" "desk (held_view 3) 4 (Suc (Suc (n + 37))) b0 b4" unfolding b3_def by blast
  define b5 where "b5 = fold (\<lambda>w. expect_frame w ''TX FIFO drains in order, held byte included'') (map fill_byte [0..<17] @ [0xFF])
    (UCHECK True ''write to a full TX FIFO is held until room appears'' b4)"
  define b6 where "b6 = (utick ^^ 20) (expect_read TB_STATUS ST_TX_READY ST_TX_READY ''TX_READY back after the drain'' b5)"
  have d5: "desk drained_view 22 (Suc (Suc (Suc (n + 37))) + 18) b0 b5"
    unfolding b5_def by (rule draining [OF desk_check [OF b4(2) TrueI]])
  have ready: "status drained_view AND ST_TX_READY = ST_TX_READY" by (simp add: status_ready) (simp add: ST_TX_READY_def)
  have "desk ((clock [] ^^ 20) (clock [] (clock [] drained_view))) 22 (Suc (Suc (Suc (n + 37))) + 18 + 2) b0 b6"
    unfolding b6_def by (rule desk_ticks [OF expect_status [OF d5 ready]])
  then have d6: "desk sent_view 22 (Suc (Suc (Suc (n + 37))) + 18 + 2) b0 b6" unfolding drained_silent .
  have "tx_backlog b6 = 0" using desk_decoded [OF d6] by (simp add: tx_backlog_def decoded_def sent_view_def start_view_def)
  moreover have "full_test b = UCHECK_EQ (of_nat (tx_backlog b6)) 0 ''no extra frame beyond the queued bytes'' b6"
    unfolding full_test_def Let_def
    by (simp add: b2 b4(1) BIT_CYCLES_def b3_def [unfolded UCHECK_def, symmetric] b5_def b6_def flip: b3_def)
  ultimately show ?thesis using desk_check [OF d6 TrueI] by (simp add: UCHECK_EQ_def add.commute)
qed

subsection \<open>The other tests\<close>

definition calm :: "view \<Rightarrow> bool" where
  "calm v \<longleftrightarrow> silent v \<and> got v = [] \<and> \<not> lost v \<and> ies v = (False, False)"

lemma read_status:
  assumes "desk v k n b0 b" and "silent v"
  shows "\<exists>b'. axi_read TB_STATUS b = (status v, b') \<and> desk v k (Suc n) b0 b'"
  using axi_read_result [OF assms(1), of TB_STATUS] assms(2) by (auto simp: taken_def)

lemma read_data:
  assumes "desk v k n b0 b" and "silent v"
  shows "\<exists>w b'. axi_read TB_RXDATA b = (w, b') \<and> desk (v\<lparr>got := tl (got v), lost := False\<rparr>) k (Suc n) b0 b'"
  using axi_read_result [OF assms(1), of TB_RXDATA] assms(2) by (auto simp: taken_def)

lemma expect_status_silent: "desk v k n b0 b \<Longrightarrow> silent v \<Longrightarrow> status v AND bits = want \<Longrightarrow> desk v k (n + 2) b0 (expect_read TB_STATUS bits want msg b)"
  using expect_status by fastforce

lemma fold_expect_bytes:
  "list_all (\<lambda>i. ucast (f i :: u8) = (g i :: u32)) xs \<Longrightarrow>
    fold (\<lambda>i. expect_read TB_RXDATA 0xFF (g i) msg) xs b = fold (\<lambda>c. expect_read TB_RXDATA 0xFF (ucast c) msg) (map f xs) b"
  by (induction xs arbitrary: b) simp_all

lemmas ST_defs = ST_TX_READY_def ST_RX_READY_def ST_RX_OVERRUN_def

lemma calm_same [simp]: "calm v \<Longrightarrow> v\<lparr>got := [], lost := False\<rparr> = v"
  by (cases v) (simp add: calm_def)

lemma calm_status: "calm v \<Longrightarrow> status v = 1" "calm v \<Longrightarrow> got v = []" "calm v \<Longrightarrow> silent v"
  by (simp_all add: calm_def silent_def status_def)

lemma reset_test_result:
  assumes "desk v k n b0 b" and "calm v"
  shows "desk v k (n + 5) b0 (reset_test b)"
proof -
  obtain b1 where b1: "axi_read TB_STATUS b = (status v, b1)" "desk v k (Suc n) b0 b1"
    using read_status [OF assms(1)] assms(2) by (auto simp: calm_def)
  have "\<not> irq_o b1" using desk_irq [OF b1(2)] assms(2) by (simp add: calm_def)
  then have "reset_test b = UCHECK True ''IRQ masked out of reset (both IEs are 0)'' (UCHECK True ''RX_OVERRUN clear out of reset''
      (UCHECK True ''RX_READY clear out of reset'' (UCHECK True ''TX_READY set out of reset'' b1)))"
    by (simp add: reset_test_def b1(1) UCHECK_EQ_def ST_defs calm_status assms(2)) (simp add: UCHECK_def Let_def)
  moreover have "desk v k (Suc (Suc (Suc (Suc (Suc n))))) b0 \<dots>" by (intro desk_check TrueI b1(2))
  ultimately show ?thesis by (simp add: eval_nat_numeral)
qed

lemma queue_test_result:
  assumes "desk start_view 0 n b0 b"
  shows "desk queued_view 4 (n + 8) b0 (queue_test b)"
proof -
  have "silent start_view" "heard start_view = []" by (simp_all add: silent_def start_view_def)
  have four: "4 = Suc (Suc (Suc (Suc 0)))" by simp
  from queue_heard [OF assms \<open>silent start_view\<close>, of "0x41" "[0x42, 0x43, 0x0D]"] \<open>heard start_view = []\<close>
  have "desk (start_view\<lparr>fifo := [], flight := Some (0x0D, 86), heard := [0x41, 0x42, 0x43]\<rparr>) 4 (n + 8) b0 (queue_test b)"
    unfolding queue_test_def tx_seq_def Let_def four by simp
  then show ?thesis by (simp add: start_view_def queued_view_def)
qed

lemma burst_test_result:
  assumes "desk v k n b0 b" and "calm v"
  shows "desk v k (n + 21) b0 (burst_test b)"
proof -
  define cs :: "u8 list" where "cs = map (\<lambda>i. 0x61 + of_nat i) [0..<8]"
  have cs: "length cs = 8" "take 16 cs = cs" "cs \<noteq> []" by (auto simp: cs_def)
  let ?v = "v\<lparr>got := cs\<rparr>"
  have "desk ?v k n b0 (fold send_frame cs b)" using burst_result [OF assms(1), of cs] assms(2) cs by (simp add: calm_def)
  moreover have s: "silent ?v" using assms(2) by (simp add: calm_def)
  ultimately obtain b1 where b1: "axi_read TB_STATUS (fold send_frame cs b) = (status ?v, b1)" "desk ?v k (Suc n) b0 b1" using read_status by blast
  define b2 where "b2 = UCHECK True ''no overrun for a burst inside the depth'' (UCHECK True ''RX_READY set after the burst'' b1)"
  have "status ?v = 3" using cs assms(2) by (simp add: status_def calm_def silent_def)
  then have st: "status ?v AND ST_RX_READY = ST_RX_READY" "status ?v AND ST_RX_OVERRUN = 0" by (simp_all add: ST_defs)
  have d2: "desk ?v k (Suc (Suc (Suc n))) b0 b2" unfolding b2_def by (intro desk_check TrueI b1(2))
  let ?m = "''RX burst byte retained in order''"
  have "got ?v = cs @ []" by simp
  from expect_bytes [where msg = ?m, OF d2 s this] have d3: "desk v k (Suc (Suc (Suc n)) + 2 * 8) b0 (fold (\<lambda>c. expect_read TB_RXDATA 0xFF (ucast c) ?m) cs b2)"
    using assms(2) cs by simp
  have "list_all (\<lambda>i. ucast (0x61 + of_nat i :: u8) = (0x61 + of_nat i :: u32)) [0..<8]" by code_simp
  then have f: "fold (\<lambda>i. expect_read TB_RXDATA 0xFF (0x61 + of_nat i) ?m) [0..<8] b2 = fold (\<lambda>c. expect_read TB_RXDATA 0xFF (ucast c) ?m) cs b2"
    unfolding cs_def by (rule fold_expect_bytes)
  have "status v AND ST_RX_READY = 0" using assms(2) by (simp add: calm_status ST_defs)
  from expect_status_silent [OF d3 _ this] have "desk v k (Suc (Suc (Suc n)) + 2 * 8 + 2) b0 (burst_test b)"
    unfolding burst_test_def Let_def by (simp add: b1(1) st UCHECK_EQ_def f calm_status assms(2) flip: cs_def b2_def)
  then show ?thesis by (simp add: add.commute)
qed

lemma empty_test_result:
  assumes "desk v k n b0 b" and "calm v"
  shows "desk v k (n + 5) b0 (empty_test b)"
proof -
  have s: "silent v" "got v = []" using assms(2) by (simp_all add: calm_def)
  obtain w b1 where b1: "axi_read TB_RXDATA b = (w, b1)" "desk v k (Suc n) b0 b1"
    using read_data [OF assms(1) s(1)] s(2) assms(2) by auto
  have "status v AND ST_RX_READY = 0" using assms(2) by (simp add: calm_status ST_defs)
  from send_frame_result [OF expect_status_silent [OF b1(2) s(1) this], of "0x5A"] s(1)
  have "desk (v\<lparr>got := [0x5A]\<rparr>) k (Suc n + 2) b0 (send_frame 0x5A (expect_read TB_STATUS ST_RX_READY 0 msg b1))" for msg
    using s(2) by (simp add: arrived_def)
  from expect_byte [OF this, of "0x5A" "[]"] have "desk v k (Suc n + 2 + 2) b0 (empty_test b)"
    using s assms(2) by (simp add: empty_test_def b1(1))
  then show ?thesis by (simp add: eval_nat_numeral)
qed

lemma overrun_test_result:
  assumes "desk v k n b0 b" and "calm v"
  shows "desk v k (n + 37) b0 (overrun_test b)"
proof -
  define cs :: "u8 list" where "cs = map (\<lambda>i. 0x10 + of_nat i) [0..<17]"
  define ds :: "u8 list" where "ds = map (\<lambda>i. 0x10 + of_nat i) [0..<16]"
  have cs: "length cs = 17" "take 16 cs = ds" "length ds = 16" "ds \<noteq> []" by (simp_all add: cs_def ds_def take_map)
  let ?v = "v\<lparr>got := ds, lost := True\<rparr>"
  have s: "silent ?v" using assms(2) by (simp add: calm_def)
  have d1: "desk ?v k n b0 (fold send_frame cs b)" using burst_result [OF assms(1), of cs] assms(2) cs by (simp add: calm_def)
  have "status ?v = 7" using cs(3) s by (auto simp: status_def silent_def)
  then have "status ?v AND ST_RX_OVERRUN = ST_RX_OVERRUN" by (simp add: ST_defs)
  from expect_status_silent [OF d1 s this] have d2: "desk ?v k (n + 2) b0
    (expect_read TB_STATUS ST_RX_OVERRUN ST_RX_OVERRUN ''RX_OVERRUN latched on drop'' (fold send_frame cs b))" .
  define b2 where "b2 = expect_read TB_STATUS ST_RX_OVERRUN ST_RX_OVERRUN ''RX_OVERRUN latched on drop'' (fold send_frame cs b)"
  let ?m = "''queued bytes survive the overrun''"
  define b3 where "b3 = fold (\<lambda>c. expect_read TB_RXDATA 0xFF (ucast c) ?m) ds b2"
  have "got ?v = ds @ []" by simp
  from expect_bytes [where msg = ?m, OF d2 s this] have d3: "desk v k (n + 2 + 2 * 16) b0 b3"
    unfolding b3_def b2_def using assms(2) cs(3,4) by simp
  have "list_all (\<lambda>i. ucast (0x10 + of_nat i :: u8) = (0x10 + of_nat i :: u32)) [0..<16]" by code_simp
  then have f: "fold (\<lambda>i. expect_read TB_RXDATA 0xFF (0x10 + of_nat i) ?m) [0..<16] b2 = b3"
    unfolding b3_def ds_def by (rule fold_expect_bytes)
  obtain b4 where b4: "axi_read TB_STATUS b3 = (1, b4)" "desk v k (Suc (n + 2 + 2 * 16)) b0 b4"
    using read_status [OF d3] assms(2) by (auto simp: calm_status)
  have "overrun_test b = UCHECK True ''RX_OVERRUN cleared by an RXDATA read'' (UCHECK True ''FIFO empty after draining the overrun case'' b4)"
    unfolding overrun_test_def Let_def by (simp add: b4(1) f UCHECK_EQ_def ST_defs flip: cs_def b2_def [unfolded ST_defs])
  moreover have "desk v k (Suc (Suc (Suc (n + 2 + 2 * 16)))) b0 \<dots>" by (intro desk_check TrueI b4(2))
  ultimately show ?thesis by (simp add: add.commute)
qed

lemma irq_test_result:
  assumes "desk v k n b0 b" and "calm v"
  shows "desk v k (n + 9) b0 (irq_test b)"
proof -
  have s: "silent v" "got v = []" "fifo v = []" "ies v = (False, False)" using assms(2) by (simp_all add: calm_def silent_def)
  let ?v1 = "v\<lparr>got := [0x77]\<rparr>"
  have d1: "desk ?v1 k n b0 (send_frame 0x77 b)" using send_frame_result [OF assms(1), of "0x77"] s by (simp add: arrived_def)
  define b1 where "b1 = expect_irq 0 ''RX byte pending but RX_IE=0: no IRQ'' (send_frame 0x77 b)"
  have d2: "desk ?v1 k (Suc n) b0 b1" unfolding b1_def by (rule desk_expect_irq [OF d1]) (use s in simp)
  define b2 where "b2 = expect_irq 1 ''IRQ asserts once RX_IE is written'' (ueval (axi_write TB_CTRL CTRL_RX_IE b1))"
  have "desk (?v1\<lparr>ies := (False, True)\<rparr>) k (Suc (Suc n)) b0 (ueval (axi_write TB_CTRL CTRL_RX_IE b1))"
    using axi_write_ctrl [OF d2, of CTRL_RX_IE] s by (simp add: CTRL_RX_IE_def)
  then have d3: "desk (?v1\<lparr>ies := (False, True)\<rparr>) k (Suc (Suc (Suc n))) b0 b2" unfolding b2_def by (rule desk_expect_irq) (use s in simp)
  obtain w b3 where b3: "axi_read TB_RXDATA b2 = (w, b3)" "desk (v\<lparr>ies := (False, True)\<rparr>) k (Suc (Suc (Suc (Suc n)))) b0 b3"
  proof -
    have "?v1\<lparr>ies := (False, True), got := [], lost := False\<rparr> = v\<lparr>ies := (False, True)\<rparr>" using assms(2) by (cases v) (simp add: calm_def)
    then show ?thesis using that read_data [OF d3] s by auto
  qed
  define b4 where "b4 = expect_irq 0 ''IRQ deasserts when software drains RX'' (ueval b3)"
  have d4: "desk (v\<lparr>ies := (False, True)\<rparr>) k (Suc (Suc (Suc (Suc (Suc n))))) b0 b4"
    unfolding b4_def by (rule desk_expect_irq [OF desk_ueval [OF b3(2)]]) (use s in simp)
  define b5 where "b5 = expect_irq 1 ''TX_IE asserts while the TX FIFO has room'' (ueval (axi_write TB_CTRL CTRL_TX_IE b4))"
  have "desk (v\<lparr>ies := (True, False)\<rparr>) k (Suc (Suc (Suc (Suc (Suc (Suc n)))))) b0 (ueval (axi_write TB_CTRL CTRL_TX_IE b4))"
    using axi_write_ctrl [OF d4, of CTRL_TX_IE] s by (simp add: CTRL_TX_IE_def)
  then have d5: "desk (v\<lparr>ies := (True, False)\<rparr>) k (Suc (Suc (Suc (Suc (Suc (Suc (Suc n))))))) b0 b5"
    unfolding b5_def by (rule desk_expect_irq) (use s in simp)
  have "v\<lparr>ies := (False, False)\<rparr> = v" using s by (cases v) simp
  moreover have "desk (v\<lparr>ies := (False, False)\<rparr>) k (Suc (Suc (Suc (Suc (Suc (Suc (Suc (Suc n)))))))) b0 (ueval (axi_write TB_CTRL 0 b5))"
    using axi_write_ctrl [OF d5, of 0] s by simp
  ultimately have "desk v k (Suc (Suc (Suc (Suc (Suc (Suc (Suc (Suc n)))))))) b0 (ueval (axi_write TB_CTRL 0 b5))" by (simp only:)
  then have "desk v k (Suc (Suc (Suc (Suc (Suc (Suc (Suc (Suc (Suc n))))))))) b0
      (expect_irq 0 ''IRQ masked again with both IEs clear'' (ueval (axi_write TB_CTRL 0 b5)))" by (rule desk_expect_irq) (use s in simp)
  then show ?thesis
    unfolding irq_test_def Let_def by (simp add: b3(1) eval_nat_numeral flip: b1_def b2_def b4_def b5_def)
qed

section \<open>Properties\<close>

text \<open>C9: the bench passes on the model of the UART, whatever its registers hold before the reset: it makes its 146 checks,
  none fails and no access times out, and it returns 0. On the line the monitor hears 22 bytes, the held one last.\<close>

theorem uart_bench_passes:
  assumes "mon b = mon_start" and "tx_taken b = 0" and "uchecks b = 0" "ufails b = 0" "umessages b = []"
  shows "\<exists>b'. uart_tb_main b = (0, b') \<and> uchecks b' = 146 \<and> ufails b' = 0 \<and> umessages b' = []
    \<and> tx_bytes (mon b') = [0x41, 0x42, 0x43, 0x0D] @ [0x30..<0x41] @ [0xFF]"
proof -
  have "calm start_view" "calm sent_view" by (simp_all add: calm_def silent_def start_view_def sent_view_def)
  have "desk start_view 0 0 b (ureset b)" by (rule ureset_result) (use assms in \<open>simp_all add: mon_start_def\<close>)
  from full_test_result [OF queue_test_result [OF reset_test_result [OF this \<open>calm start_view\<close>]]]
  have "desk sent_view 22 74 b (full_test (queue_test (reset_test (ureset b))))" by simp
  from irq_test_result [OF overrun_test_result [OF empty_test_result [OF burst_test_result [OF this]]]] \<open>calm sent_view\<close>
  have d: "desk sent_view 22 146 b (irq_test (overrun_test (empty_test (burst_test (full_test (queue_test (reset_test (ureset b))))))))" by simp
  have "decoded sent_view = [0x41, 0x42, 0x43, 0x0D] @ [0x30..<0x41] @ [0xFF]" by code_simp
  then show ?thesis using desk_decoded [OF d] d assms by (auto simp: uart_tb_main_def Let_def desk_def ub_def)
qed

definition fresh_ubench :: ubench where
  "fresh_ubench = \<lparr>urstn = True, urxd = False, umst = baud_write,
     uslv = \<lparr>awready = True, wready = True, bvalid = False, arready = True, rvalid = False, rdata = 0\<rparr>, txd_o = False, irq_o = True,
     urtl = busy_rtl, mon = mon_start, tx_taken = 0, uchecks = 0, ufails = 0, umessages = []\<rparr>"

theorem uart_bench_passes_witness:
  "\<exists>b'. uart_tb_main fresh_ubench = (0, b') \<and> uchecks b' = 146 \<and> ufails b' = 0 \<and> umessages b' = []
    \<and> tx_bytes (mon b') = [0x41, 0x42, 0x43, 0x0D] @ [0x30..<0x41] @ [0xFF]"
  by (rule uart_bench_passes) (simp_all add: fresh_ubench_def)

text \<open>C25: a write of TXDATA into the full FIFO is neither lost nor refused. Wherever between two accesses it starts, it
  completes when the frame on the line, \<open>p\<close> clocks old, is over and the next byte has left: after \<open>104 - p\<close> cycles if
  the bench waits that long. Its byte is then behind all the others, and no check fails.\<close>

theorem full_fifo_holds_write:
  assumes "desk v k n b0 b" and "length (fifo v) = 16" and "flight v = Some (c, p)" and "p \<le> 100" and "104 - p \<le> g"
  shows "\<exists>b'. axi_write_timed TB_TXDATA d g b = (104 - p, b')
    \<and> desk (v\<lparr>fifo := tl (fifo v) @ [ucast d], flight := Some (hd (fifo v), 3), heard := heard v @ [unat c]\<rparr>) k (Suc n) b0 b'"
  by (rule held_until_room [OF assms])

lemma fresh_desk: "desk start_view 0 0 fresh_ubench (ureset fresh_ubench)"
  by (rule ureset_result) (simp_all add: fresh_ubench_def mon_start_def)

theorem full_fifo_holds_write_witness:
  "\<exists>b b'. axi_write_timed TB_TXDATA 0xFF 400 b = (104 - 57, b')
    \<and> desk (full_view 57\<lparr>fifo := tl (fifo (full_view 57)) @ [ucast (0xFF :: u32)], flight := Some (hd (fifo (full_view 57)), 3),
        heard := heard (full_view 57) @ [unat (0x30 :: u8)]\<rparr>) 4 51 fresh_ubench b'"
proof -
  have "calm start_view" by (simp add: calm_def silent_def start_view_def)
  from queue_test_result [OF reset_test_result [OF fresh_desk this]] have
    "desk queued_view 4 (0 + 5 + 8) fresh_ubench (queue_test (reset_test (ureset fresh_ubench)))" .
  from filling [OF this] obtain b where "desk (full_view 57) 4 (0 + 5 + 8 + 37) fresh_ubench b" by blast
  from full_fifo_holds_write [OF this, of "0x30" 57 400 "0xFF"] show ?thesis by auto
qed

text \<open>C26: a burst of frames of any length, with no gap between them and no read in between, is kept up to the depth of
  the FIFO and read back in order: with the FIFO empty before, the status tells whether it had more than 16 bytes, every
  read of RXDATA finds the next of the first 16, and behind them the FIFO is empty and the overrun flag clear.\<close>

theorem burst_read_back:
  assumes "desk v k n b0 b" and "silent v" and "got v = []" and "\<not> lost v" and "cs \<noteq> []"
  shows "fst (axi_read TB_STATUS (fold send_frame cs b)) = (if 16 < length cs then 7 else 3)
    \<and> desk v k (n + 2 * length (take 16 cs)) b0
        (fold (\<lambda>c. expect_read TB_RXDATA 0xFF (ucast c) msg) (take 16 cs) (fold send_frame cs b))"
proof
  let ?v = "v\<lparr>got := take 16 cs, lost := (lost v \<or> 16 < length cs)\<rparr>"
  note d = burst_result [OF assms(1-3), of cs]
  have "silent ?v" "got ?v = take 16 cs @ []" using assms(2) by simp_all
  note s = this
  obtain b' where "axi_read TB_STATUS (fold send_frame cs b) = (status ?v, b')" using read_status [OF d s(1)] by blast
  moreover have "status ?v = (if 16 < length cs then 7 else 3)" using assms(2,4,5) by (simp add: status_def silent_def)
  ultimately show "fst (axi_read TB_STATUS (fold send_frame cs b)) = (if 16 < length cs then 7 else 3)" by simp
  have "?v\<lparr>got := [], lost := (lost ?v \<and> take 16 cs = [])\<rparr> = v" using assms(3-5) by (cases v) simp
  with expect_bytes [where msg = msg, OF d s] show "desk v k (n + 2 * length (take 16 cs)) b0
      (fold (\<lambda>c. expect_read TB_RXDATA 0xFF (ucast c) msg) (take 16 cs) (fold send_frame cs b))" by (simp only:)
qed

theorem burst_read_back_witness:
  "fst (axi_read TB_STATUS (fold send_frame [0x61, 0x0D] (ureset fresh_ubench))) = (if 16 < length [0x61, 0x0D :: u8] then 7 else 3)
    \<and> desk start_view 0 (0 + 2 * length (take 16 [0x61, 0x0D :: u8])) fresh_ubench
        (fold (\<lambda>c. expect_read TB_RXDATA 0xFF (ucast c) ''byte'') (take 16 [0x61, 0x0D :: u8]) (fold send_frame [0x61, 0x0D] (ureset fresh_ubench)))"
  by (rule burst_read_back [OF fresh_desk]) (simp_all add: silent_def start_view_def)

end
