(* ===== verification/Peri_Rtl.thy ===== *)
theory Peri_Rtl
  imports Axi_Ram_Tb
begin

text \<open>
  The two interrupt peripherals, register by register: the software interrupt \<open>rtl/utils/msip_peri.sv\<close> and the machine
  timer \<open>rtl/utils/clint_timer.sv\<close>. The handshakes of both are the same code; \<open>peri_bus\<close> and its operations stand for
  either copy. The records of the bus pins are those of the RAM. Shown here: what a write of the software interrupt
  does, the pipelined comparison of the timer, and the order of writes that sets a new deadline.
\<close>

section \<open>Handshakes\<close>

record peri_bus =
  aw_seen_q :: bool
  w_seen_q :: bool
  wdata_q :: u32
  bvalid_q :: bool
  rvalid_q :: bool
  rdata_q :: u32

definition peri_out :: "peri_bus \<Rightarrow> axi_master \<Rightarrow> axi_slave" where
  "peri_out s m = \<lparr>awready = (\<not> aw_seen_q s \<and> \<not> bvalid_q s), wready = (\<not> w_seen_q s \<and> \<not> bvalid_q s), bvalid = bvalid_q s,
     arready = (\<not> rvalid_q s \<or> rvalid_q s \<and> rready m), rvalid = rvalid_q s, rdata = rdata_q s\<rparr>"

definition paw_hs :: "peri_bus \<Rightarrow> axi_master \<Rightarrow> bool" where
  "paw_hs s m \<longleftrightarrow> awvalid m \<and> awready (peri_out s m)"

definition pw_hs :: "peri_bus \<Rightarrow> axi_master \<Rightarrow> bool" where
  "pw_hs s m \<longleftrightarrow> wvalid m \<and> wready (peri_out s m)"

definition pb_hs :: "peri_bus \<Rightarrow> axi_master \<Rightarrow> bool" where
  "pb_hs s m \<longleftrightarrow> bvalid (peri_out s m) \<and> bready m"

definition par_hs :: "peri_bus \<Rightarrow> axi_master \<Rightarrow> bool" where
  "par_hs s m \<longleftrightarrow> arvalid m \<and> arready (peri_out s m)"

definition pdo_write :: "peri_bus \<Rightarrow> axi_master \<Rightarrow> bool" where
  "pdo_write s m \<longleftrightarrow> (aw_seen_q s \<or> paw_hs s m) \<and> (w_seen_q s \<or> pw_hs s m) \<and> \<not> bvalid_q s"

definition pwdata_eff :: "peri_bus \<Rightarrow> axi_master \<Rightarrow> u32" where
  "pwdata_eff s m = (if pw_hs s m then wdata m else wdata_q s)"

text \<open>The write side of an edge, then the read side with the word it latches.\<close>

definition peri_write_edge :: "peri_bus \<Rightarrow> axi_master \<Rightarrow> peri_bus" where
  "peri_write_edge s m = (let
     t = (if paw_hs s m then s\<lparr>aw_seen_q := True\<rparr> else s);
     t = (if pw_hs s m then t\<lparr>w_seen_q := True, wdata_q := wdata m\<rparr> else t);
     t = (if pdo_write s m then t\<lparr>aw_seen_q := False, w_seen_q := False, bvalid_q := True\<rparr> else t)
   in if pb_hs s m then t\<lparr>bvalid_q := False\<rparr> else t)"

definition peri_read_edge :: "u32 \<Rightarrow> peri_bus \<Rightarrow> axi_master \<Rightarrow> peri_bus \<Rightarrow> peri_bus" where
  "peri_read_edge word s m t = (if par_hs s m then t\<lparr>rvalid_q := True, rdata_q := word\<rparr>
     else if rvalid_q s \<and> rready m then t\<lparr>rvalid_q := False\<rparr> else t)"

definition peri_bus_reset :: peri_bus where
  "peri_bus_reset = \<lparr>aw_seen_q = False, w_seen_q = False, wdata_q = 0, bvalid_q = False, rvalid_q = False, rdata_q = 0\<rparr>"

lemmas peri_wires = peri_out_def paw_hs_def pw_hs_def pb_hs_def par_hs_def pdo_write_def peri_write_edge_def peri_read_edge_def

section \<open>Software interrupt\<close>

record msip =
  mbus :: peri_bus
  msip_q :: bool

definition msip_edge :: "bool \<Rightarrow> msip \<Rightarrow> axi_master \<Rightarrow> msip" where
  "msip_edge rstn s m = (if \<not> rstn then \<lparr>mbus = peri_bus_reset, msip_q = False\<rparr>
     else s\<lparr>mbus := peri_read_edge (if msip_q s then 1 else 0) (mbus s) m (peri_write_edge (mbus s) m),
       msip_q := (if pdo_write (mbus s) m then bit (pwdata_eff (mbus s) m) 0 else msip_q s)\<rparr>)"

section \<open>Timer\<close>

definition REG_MTIME_LO :: nat where "REG_MTIME_LO = 0"
definition REG_MTIME_HI :: nat where "REG_MTIME_HI = 1"
definition REG_MTIMECMP_LO :: nat where "REG_MTIMECMP_LO = 2"
definition REG_MTIMECMP_HI :: nat where "REG_MTIMECMP_HI = 3"

record clint =
  cbus :: peri_bus
  awaddr_q :: nat
  mtime_q :: u64
  mtimecmp_q :: u64
  ge_hi_q :: bool
  eq_hi_q :: bool
  ge_lo_q :: bool
  mtip_q :: bool

definition hi_word :: "u64 \<Rightarrow> u32" where
  "hi_word w = ucast (drop_bit 32 w)"

definition lo_word :: "u64 \<Rightarrow> u32" where
  "lo_word w = ucast w"

definition joined :: "u32 \<Rightarrow> u32 \<Rightarrow> u64" where
  "joined hi lo = push_bit 32 (ucast hi) OR ucast lo"

definition addr_sel :: "u32 \<Rightarrow> nat" where
  "addr_sel a = unat a div 4 mod 4"

definition aw_sel_eff :: "clint \<Rightarrow> axi_master \<Rightarrow> nat" where
  "aw_sel_eff s m = (if aw_seen_q (cbus s) then awaddr_q s else addr_sel (awaddr m))"

definition rdata_launch :: "clint \<Rightarrow> axi_master \<Rightarrow> u32" where
  "rdata_launch s m = (let a = addr_sel (araddr m) in
     if a = REG_MTIME_LO then lo_word (mtime_q s) else if a = REG_MTIME_HI then hi_word (mtime_q s)
     else if a = REG_MTIMECMP_LO then lo_word (mtimecmp_q s) else hi_word (mtimecmp_q s))"

definition cmp_write :: "nat \<times> u32 \<Rightarrow> u64 \<Rightarrow> u64" where
  "cmp_write w c = (case w of (sel, d) \<Rightarrow>
     if sel = REG_MTIMECMP_LO then joined (hi_word c) d else if sel = REG_MTIMECMP_HI then joined d (lo_word c) else c)"

definition clint_edge :: "bool \<Rightarrow> clint \<Rightarrow> axi_master \<Rightarrow> clint" where
  "clint_edge rstn s m =
     (if \<not> rstn then \<lparr>cbus = peri_bus_reset, awaddr_q = 0, mtime_q = 0, mtimecmp_q = -1, ge_hi_q = False, eq_hi_q = False,
        ge_lo_q = False, mtip_q = False\<rparr>
      else s\<lparr>cbus := peri_read_edge (rdata_launch s m) (cbus s) m (peri_write_edge (cbus s) m),
        awaddr_q := (if paw_hs (cbus s) m then addr_sel (awaddr m) else awaddr_q s),
        mtime_q := mtime_q s + 1,
        mtimecmp_q := (if pdo_write (cbus s) m then cmp_write (aw_sel_eff s m, pwdata_eff (cbus s) m) (mtimecmp_q s) else mtimecmp_q s),
        ge_hi_q := hi_word (mtime_q s) > hi_word (mtimecmp_q s),
        eq_hi_q := hi_word (mtime_q s) = hi_word (mtimecmp_q s),
        ge_lo_q := lo_word (mtime_q s) \<ge> lo_word (mtimecmp_q s),
        mtip_q := ge_hi_q s \<or> eq_hi_q s \<and> ge_lo_q s\<rparr>)"

text \<open>Edges out of reset, one for each state of the master's pins; and the writes they commit.\<close>

definition clint_run :: "axi_master list \<Rightarrow> clint \<Rightarrow> clint" where
  "clint_run ms s = fold (\<lambda>m s. clint_edge True s m) ms s"

primrec clint_writes :: "axi_master list \<Rightarrow> clint \<Rightarrow> (nat \<times> u32) list" where
  "clint_writes [] s = []"
| "clint_writes (m # ms) s = (if pdo_write (cbus s) m then [(aw_sel_eff s m, pwdata_eff (cbus s) m)] else [])
     @ clint_writes ms (clint_edge True s m)"

section \<open>The halves of a 64-bit word\<close>

lemma unat_halves: "unat (w :: u64) = unat (hi_word w) * 2 ^ 32 + unat (lo_word w)"
proof -
  have lo: "unat (lo_word w) = take_bit 32 (unat w)" by (simp add: lo_word_def unsigned_ucast_eq)
  have w: "unat w < 2 ^ LENGTH(64)" by (rule unsigned_less)
  then have "take_bit 64 (unat w) = unat w" by (intro take_bit_nat_eq_self) simp
  then have hi: "unat (hi_word w) = take_bit 32 (drop_bit 32 (unat w))" by (simp add: hi_word_def unsigned_ucast_eq unsigned_drop_bit_eq)
  from w have "unat w div 2 ^ 32 < 2 ^ 32" by (simp add: div_less_iff_less_mult)
  then show ?thesis unfolding lo hi by (simp add: take_bit_eq_mod drop_bit_eq_div)
qed

lemma halves_le:
  assumes "(c :: nat) < 4294967296" and "d < 4294967296"
  shows "a * 4294967296 + c \<le> b * 4294967296 + d \<longleftrightarrow> a < b \<or> b = a \<and> c \<le> d"
proof (cases a b rule: linorder_cases)
  case less
  then have "a * 4294967296 + c \<le> b * 4294967296 + d" using assms by linarith
  then show ?thesis using less by simp
next
  case greater
  then have "\<not> a * 4294967296 + c \<le> b * 4294967296 + d" using assms by linarith
  then show ?thesis using greater by simp
qed simp

lemma word32_bound: "unat (w :: u32) < 4294967296"
proof -
  have "unat w < 2 ^ LENGTH(32)" by (rule unsigned_less)
  then show ?thesis by simp
qed

lemma le_halves: "(c :: u64) \<le> t \<longleftrightarrow> hi_word c < hi_word t \<or> hi_word t = hi_word c \<and> lo_word c \<le> lo_word t"
  using halves_le [OF word32_bound [of "lo_word c"] word32_bound [of "lo_word t"]] unat_halves [of c] unat_halves [of t]
  by (simp add: word_le_nat_alt word_less_nat_alt word_unat_eq_iff)

lemma joined_halves [simp]: "hi_word (joined hi lo) = hi" "lo_word (joined hi lo) = lo" "joined (hi_word w) (lo_word w) = w"
  by (rule bit_word_eqI; auto simp: hi_word_def lo_word_def joined_def bit_simps dest: bit_imp_le_length)+

section \<open>Properties\<close>

text \<open>the timer compares 64 bits in two stages, halves first. Two edges later the interrupt line tells whether the time
  had reached the deadline, for all values of both and whatever the bus does meanwhile.\<close>

theorem mtip_compares: "mtip_q (clint_edge True (clint_edge True s m) n) \<longleftrightarrow> mtimecmp_q s \<le> mtime_q s"
  by (auto simp: clint_edge_def le_halves)

lemma mtime_run: "mtime_q (clint_run ms s) = mtime_q s + of_nat (length ms)"
proof (induction ms arbitrary: s)
  case (Cons m ms)
  from Cons.IH [of "clint_edge True s m"] show ?case by (simp add: clint_run_def clint_edge_def)
qed (simp add: clint_run_def)

lemma mtimecmp_run: "mtimecmp_q (clint_run ms s) = fold cmp_write (clint_writes ms s) (mtimecmp_q s)"
proof (induction ms arbitrary: s)
  case (Cons m ms)
  from Cons.IH [of "clint_edge True s m"] show ?case by (simp add: clint_run_def clint_edge_def)
qed (simp add: clint_run_def)

lemma hi_max: "joined 0xFFFFFFFF lo \<ge> joined hi lo"
proof -
  have "hi \<le> 0xFFFFFFFF" using word32_bound [of hi] by (simp add: word_le_nat_alt)
  then show ?thesis by (auto simp: le_halves order_le_less)
qed

text \<open>C28: the order of writes that the header asks for is safe. While the words all ones, the low word and the high word of
  a new deadline are written, in this order and with any number of cycles between them, the interrupt line goes up only
  if the time has reached the old deadline or the new one; and at the end the deadline is the new one.\<close>

theorem deadline_change_is_safe:
  assumes "clint_writes ms s @ todo = [(REG_MTIMECMP_HI, 0xFFFFFFFF), (REG_MTIMECMP_LO, lo), (REG_MTIMECMP_HI, hi)]"
  shows "(mtip_q (clint_run (ms @ [m, n]) s) \<longrightarrow> min (mtimecmp_q s) (joined hi lo) \<le> mtime_q s + of_nat (length ms))
    \<and> (todo = [] \<longrightarrow> mtimecmp_q (clint_run ms s) = joined hi lo)"
proof -
  let ?c = "mtimecmp_q s"
  have w: "clint_writes ms s = take (length (clint_writes ms s)) [(REG_MTIMECMP_HI, 0xFFFFFFFF), (REG_MTIMECMP_LO, lo), (REG_MTIMECMP_HI, hi)]"
    using assms by (metis append_eq_conv_conj)
  have "length (clint_writes ms s) + length todo = 3" using arg_cong [OF assms, of length] by simp
  then consider "length (clint_writes ms s) = 0" | "length (clint_writes ms s) = 1" | "length (clint_writes ms s) = 2"
    | "length (clint_writes ms s) = 3" by linarith
  then have c: "mtimecmp_q (clint_run ms s) \<in> {?c, joined 0xFFFFFFFF (lo_word ?c), joined 0xFFFFFFFF lo, joined hi lo}
    \<and> (todo = [] \<longrightarrow> mtimecmp_q (clint_run ms s) = joined hi lo)"
    using w assms unfolding mtimecmp_run
    by cases (auto simp: cmp_write_def REG_MTIMECMP_HI_def REG_MTIMECMP_LO_def numeral_eq_Suc)
  have "joined 0xFFFFFFFF (lo_word ?c) \<ge> ?c" using hi_max [of "hi_word ?c" "lo_word ?c"] by simp
  then have "min ?c (joined hi lo) \<le> mtimecmp_q (clint_run ms s)"
    using c hi_max [of hi lo] by (auto simp: min_le_iff_disj)
  moreover have "mtip_q (clint_run (ms @ [m, n]) s) \<longleftrightarrow> mtimecmp_q (clint_run ms s) \<le> mtime_q (clint_run ms s)"
    by (simp add: clint_run_def) (auto simp: clint_edge_def le_halves)
  ultimately have "mtip_q (clint_run (ms @ [m, n]) s) \<Longrightarrow> min ?c (joined hi lo) \<le> mtime_q (clint_run ms s)" using order_trans by blast
  then show ?thesis using c unfolding mtime_run by blast
qed

text \<open>A timer at work, and a master that writes a word or only takes the response.\<close>

definition clint_at :: "u64 \<Rightarrow> u64 \<Rightarrow> clint" where
  "clint_at t c = \<lparr>cbus = peri_bus_reset, awaddr_q = 0, mtime_q = t, mtimecmp_q = c, ge_hi_q = False, eq_hi_q = False, ge_lo_q = False,
     mtip_q = False\<rparr>"

definition no_access :: axi_master where
  "no_access = \<lparr>awaddr = 0, awvalid = False, wdata = 0, wstrb = 0xF, wvalid = False, bready = True, araddr = 0, arvalid = False, rready = True\<rparr>"

definition write_of :: "u32 \<Rightarrow> u32 \<Rightarrow> axi_master" where
  "write_of a d = no_access\<lparr>awaddr := a, awvalid := True, wdata := d, wvalid := True\<rparr>"

definition safe_order :: "axi_master list" where
  "safe_order = [write_of 0xC 0xFFFFFFFF, no_access, write_of 0x8 0x10, no_access, write_of 0xC 1]"

definition low_first :: "axi_master list" where
  "low_first = [write_of 0x8 0x10, no_access, write_of 0xC 1]"

theorem deadline_change_is_safe_witness:
  "\<not> mtip_q (clint_run (safe_order @ [no_access, no_access]) (clint_at 0x80000000 0xF0000000))
    \<and> mtimecmp_q (clint_run safe_order (clint_at 0x80000000 0xF0000000)) = joined 1 0x10"
proof -
  have "clint_writes safe_order (clint_at 0x80000000 0xF0000000) @ []
    = [(REG_MTIMECMP_HI, 0xFFFFFFFF), (REG_MTIMECMP_LO, 0x10), (REG_MTIMECMP_HI, 1)]" by code_simp
  note safe = deadline_change_is_safe [OF this, of no_access no_access]
  have "\<not> min (mtimecmp_q (clint_at 0x80000000 0xF0000000)) (joined 1 0x10) \<le> mtime_q (clint_at 0x80000000 0xF0000000) + of_nat (length safe_order)"
    by code_simp
  then show ?thesis using safe by blast
qed

text \<open>The low word first: the line goes up far before either deadline.\<close>

lemma low_first_fires:
  "mtip_q (clint_run low_first (clint_at 0x80000000 0xF0000000)) \<and> mtimecmp_q (clint_run low_first (clint_at 0x80000000 0xF0000000)) = joined 1 0x10"
  by code_simp

text \<open>The pending bit of the software interrupt after any run is bit 0 of the last word written, whatever the byte strobes
  and the address, or as it was if none was.\<close>

definition msip_run :: "axi_master list \<Rightarrow> msip \<Rightarrow> msip" where
  "msip_run ms s = fold (\<lambda>m s. msip_edge True s m) ms s"

primrec msip_writes :: "axi_master list \<Rightarrow> msip \<Rightarrow> u32 list" where
  "msip_writes [] s = []"
| "msip_writes (m # ms) s = (if pdo_write (mbus s) m then [pwdata_eff (mbus s) m] else []) @ msip_writes ms (msip_edge True s m)"

lemma msip_last_write: "msip_q (msip_run ms s) = (if msip_writes ms s = [] then msip_q s else bit (last (msip_writes ms s)) 0)"
proof (induction ms arbitrary: s)
  case (Cons m ms)
  from Cons.IH [of "msip_edge True s m"] show ?case by (auto simp: msip_run_def msip_edge_def)
qed (simp add: msip_run_def)

end
