(* ===== verification/Axi_Ports.thy ===== *)
theory Axi_Ports
  imports Peri_Rtl Uart_Rtl
begin

text \<open>
  What all AXI4-Lite slaves of the peripheral bus have in common: each write is committed once and answered once, each
  read is answered once, with the word of the cycle in which it was accepted. The interface is a locale over the
  handshakes of a module; the RAM, the UART and the two interrupt peripherals are its interpretations.
\<close>

text \<open>A module seen from its port: a clock edge, the handshakes of the five channels (\<open>port_commit\<close>: a write takes effect),
  and what it holds: an address or a word waiting for the other, a write response, a read response and its word.\<close>

record ('s, 'm) port =
  port_edge :: "'s \<Rightarrow> 'm \<Rightarrow> 's"
  port_aw :: "'s \<Rightarrow> 'm \<Rightarrow> bool"
  port_w :: "'s \<Rightarrow> 'm \<Rightarrow> bool"
  port_commit :: "'s \<Rightarrow> 'm \<Rightarrow> bool"
  port_b :: "'s \<Rightarrow> 'm \<Rightarrow> bool"
  port_ar :: "'s \<Rightarrow> 'm \<Rightarrow> bool"
  port_r :: "'s \<Rightarrow> 'm \<Rightarrow> bool"
  held_aw :: "'s \<Rightarrow> bool"
  held_w :: "'s \<Rightarrow> bool"
  held_b :: "'s \<Rightarrow> bool"
  held_r :: "'s \<Rightarrow> bool"
  read_word :: "'s \<Rightarrow> 'm \<Rightarrow> u32"
  held_word :: "'s \<Rightarrow> u32"

primrec port_run :: "('s, 'm) port \<Rightarrow> 'm list \<Rightarrow> 's \<Rightarrow> 's" where
  "port_run P [] s = s"
| "port_run P (m # ms) s = port_run P ms (port_edge P s m)"

text \<open>How often a handshake takes place in a run, and the values that go with it.\<close>

primrec tally :: "('s, 'm) port \<Rightarrow> ('s \<Rightarrow> 'm \<Rightarrow> bool) \<Rightarrow> 'm list \<Rightarrow> 's \<Rightarrow> nat" where
  "tally P h [] s = 0"
| "tally P h (m # ms) s = (if h s m then 1 else 0) + tally P h ms (port_edge P s m)"

primrec words_at :: "('s, 'm) port \<Rightarrow> ('s \<Rightarrow> 'm \<Rightarrow> bool) \<Rightarrow> ('s \<Rightarrow> 'm \<Rightarrow> u32) \<Rightarrow> 'm list \<Rightarrow> 's \<Rightarrow> u32 list" where
  "words_at P h f [] s = []"
| "words_at P h f (m # ms) s = (if h s m then [f s m] else []) @ words_at P h f ms (port_edge P s m)"

definition one_if :: "bool \<Rightarrow> nat" where
  "one_if x = (if x then 1 else 0)"

text \<open>The read side alone: the words answered are those asked for.\<close>

definition serves_reads :: "('s, 'm) port \<Rightarrow> 'm list \<Rightarrow> 's \<Rightarrow> bool" where
  "serves_reads P ms s \<longleftrightarrow> (let e = port_run P ms s in
     (if held_r P s then [held_word P s] else []) @ words_at P (port_ar P) (read_word P) ms s
       = words_at P (port_r P) (\<lambda>s m. held_word P s) ms s @ (if held_r P e then [held_word P e] else []))"

definition serves :: "('s, 'm) port \<Rightarrow> 'm list \<Rightarrow> 's \<Rightarrow> bool" where
  "serves P ms s \<longleftrightarrow> (let e = port_run P ms s in
     tally P (port_aw P) ms s + one_if (held_aw P s) = tally P (port_commit P) ms s + one_if (held_aw P e)
     \<and> tally P (port_w P) ms s + one_if (held_w P s) = tally P (port_commit P) ms s + one_if (held_w P e)
     \<and> tally P (port_commit P) ms s + one_if (held_b P s) = tally P (port_b P) ms s + one_if (held_b P e)
     \<and> serves_reads P ms s)"

locale axi_read_port =
  fixes P :: "('s, 'm) port"
  assumes ar: "port_ar P s m \<Longrightarrow> \<not> held_r P s \<or> port_r P s m"
    and r: "port_r P s m \<Longrightarrow> held_r P s"
    and edge_r: "held_r P (port_edge P s m) \<longleftrightarrow> port_ar P s m \<or> held_r P s \<and> \<not> port_r P s m"
    and edge_word: "held_word P (port_edge P s m) = (if port_ar P s m then read_word P s m else held_word P s)"
begin

lemma reads_in_order: "serves_reads P ms s"
proof (induction ms arbitrary: s)
  case (Cons m ms)
  from Cons.IH [of "port_edge P s m"] ar [of s m] r [of s m] edge_r [of s m] edge_word [of s m] show ?case
    unfolding serves_reads_def Let_def
    by (cases "port_ar P s m"; cases "port_r P s m"; cases "held_r P s") auto
qed (simp add: serves_reads_def)

end

locale axi_slave_port = axi_read_port +
  assumes aw: "port_aw P s m \<Longrightarrow> \<not> held_aw P s"
    and w: "port_w P s m \<Longrightarrow> \<not> held_w P s"
    and commit: "port_commit P s m \<Longrightarrow> (held_aw P s \<or> port_aw P s m) \<and> (held_w P s \<or> port_w P s m) \<and> \<not> held_b P s"
    and b: "port_b P s m \<Longrightarrow> held_b P s"
    and edge_aw: "held_aw P (port_edge P s m) \<longleftrightarrow> (held_aw P s \<or> port_aw P s m) \<and> \<not> port_commit P s m"
    and edge_w: "held_w P (port_edge P s m) \<longleftrightarrow> (held_w P s \<or> port_w P s m) \<and> \<not> port_commit P s m"
    and edge_b: "held_b P (port_edge P s m) \<longleftrightarrow> (held_b P s \<or> port_commit P s m) \<and> \<not> port_b P s m"
begin

text \<open>A channel whose tokens are held until another handshake takes them.\<close>

lemma tally_balance:
  assumes "\<And>s m. h s m \<Longrightarrow> \<not> held s" and "\<And>s m. g s m \<Longrightarrow> held s \<or> h s m"
    and "\<And>s m. held (port_edge P s m) \<longleftrightarrow> (held s \<or> h s m) \<and> \<not> g s m"
  shows "tally P h ms s + one_if (held s) = tally P g ms s + one_if (held (port_run P ms s))"
proof (induction ms arbitrary: s)
  case (Cons m ms)
  from Cons.IH [of "port_edge P s m"] assms(1-3) [of s m] show ?case
    by (cases "h s m"; cases "g s m"; cases "held s") (auto simp: one_if_def)
qed (simp add: one_if_def)

lemma commit_balance: "tally P (port_commit P) ms s + one_if (held_b P s) = tally P (port_b P) ms s + one_if (held_b P (port_run P ms s))"
  by (rule tally_balance) (use commit b edge_b in blast)+

lemma serves: "serves P ms s"
proof -
  have "tally P (port_aw P) ms s + one_if (held_aw P s) = tally P (port_commit P) ms s + one_if (held_aw P (port_run P ms s))"
    by (rule tally_balance) (use aw commit edge_aw in blast)+
  moreover have "tally P (port_w P) ms s + one_if (held_w P s) = tally P (port_commit P) ms s + one_if (held_w P (port_run P ms s))"
    by (rule tally_balance) (use w commit edge_w in blast)+
  ultimately show ?thesis unfolding serves_def Let_def using commit_balance reads_in_order [of ms s] by blast
qed

end

section \<open>The modules\<close>

definition ram_port :: "(axi_ram, axi_master) port" where
  "ram_port = \<lparr>port_edge = axi_edge True, port_aw = aw_hs, port_w = w_hs, port_commit = do_write, port_b = b_hs, port_ar = ar_hs,
     port_r = (\<lambda>s m. rvalid (axi_out s m) \<and> rready m),
     held_aw = Axi_Ram_Tb.aw_seen_q, held_w = Axi_Ram_Tb.w_seen_q, held_b = Axi_Ram_Tb.bvalid_q, held_r = Axi_Ram_Tb.rvalid_q,
     read_word = (\<lambda>s m. mem_q s (axi_word (araddr m))), held_word = Axi_Ram_Tb.rdata_q\<rparr>"

interpretation ram: axi_slave_port ram_port
  by unfold_locales (auto simp: ram_port_def axi_wires axi_edge_def Let_def split: if_splits)

definition uart_port :: "(uart_rtl, axi_master \<times> bool) port" where
  "uart_port = \<lparr>port_edge = (\<lambda>u (m, rxd). run_edge m rxd u), port_aw = (\<lambda>u (m, _). uaw_hs u m), port_w = (\<lambda>u (m, _). uw_hs u m),
     port_commit = (\<lambda>u (m, _). udo_write u m), port_b = (\<lambda>u (m, _). ub_hs u m), port_ar = (\<lambda>u (m, _). uar_hs u m),
     port_r = (\<lambda>u (m, _). rvalid (uart_out u m) \<and> rready m),
     held_aw = (\<lambda>u. Uart_Rtl.aw_seen_q (Uart_Rtl.bus u)), held_w = (\<lambda>u. Uart_Rtl.w_seen_q (bus u)), held_b = (\<lambda>u. Uart_Rtl.bvalid_q (bus u)),
     held_r = (\<lambda>u. Uart_Rtl.rvalid_q (bus u)), read_word = (\<lambda>u (m, _). rdata_mux u m), held_word = (\<lambda>u. Uart_Rtl.rdata_q (bus u))\<rparr>"

lemma run_edge_bus: "bus (run_edge m rxd u) = bus_edge u m"
  by (simp add: run_edge_def rings_edge_def Let_def)

interpretation uart: axi_slave_port uart_port
  by unfold_locales (auto simp: uart_port_def run_edge_bus bus_edge_def uart_out_def uaw_hs_def uw_hs_def udo_write_def ub_hs_def uar_hs_def Let_def split: if_splits)

definition msip_port :: "(msip, axi_master) port" where
  "msip_port = \<lparr>port_edge = msip_edge True, port_aw = (\<lambda>s. paw_hs (mbus s)), port_w = (\<lambda>s. pw_hs (mbus s)), port_commit = (\<lambda>s. pdo_write (mbus s)),
     port_b = (\<lambda>s. pb_hs (mbus s)), port_ar = (\<lambda>s. par_hs (mbus s)), port_r = (\<lambda>s m. rvalid (peri_out (mbus s) m) \<and> rready m),
     held_aw = (\<lambda>s. Peri_Rtl.aw_seen_q (mbus s)), held_w = (\<lambda>s. Peri_Rtl.w_seen_q (mbus s)), held_b = (\<lambda>s. Peri_Rtl.bvalid_q (mbus s)),
     held_r = (\<lambda>s. Peri_Rtl.rvalid_q (mbus s)), read_word = (\<lambda>s m. if msip_q s then 1 else 0), held_word = (\<lambda>s. Peri_Rtl.rdata_q (mbus s))\<rparr>"

interpretation msip: axi_slave_port msip_port
  by unfold_locales (auto simp: msip_port_def msip_edge_def peri_wires Let_def split: if_splits)

definition clint_port :: "(clint, axi_master) port" where
  "clint_port = \<lparr>port_edge = clint_edge True, port_aw = (\<lambda>s. paw_hs (cbus s)), port_w = (\<lambda>s. pw_hs (cbus s)), port_commit = (\<lambda>s. pdo_write (cbus s)),
     port_b = (\<lambda>s. pb_hs (cbus s)), port_ar = (\<lambda>s. par_hs (cbus s)), port_r = (\<lambda>s m. rvalid (peri_out (cbus s) m) \<and> rready m),
     held_aw = (\<lambda>s. Peri_Rtl.aw_seen_q (cbus s)), held_w = (\<lambda>s. Peri_Rtl.w_seen_q (cbus s)), held_b = (\<lambda>s. Peri_Rtl.bvalid_q (cbus s)),
     held_r = (\<lambda>s. Peri_Rtl.rvalid_q (cbus s)), read_word = rdata_launch, held_word = (\<lambda>s. Peri_Rtl.rdata_q (cbus s))\<rparr>"

interpretation clint: axi_slave_port clint_port
  by unfold_locales (auto simp: clint_port_def clint_edge_def peri_wires Let_def split: if_splits)

text \<open>C14: the four slaves keep the AXI4-Lite contract in every run from every state, for every behaviour of the master: of
  the addresses and words accepted each is used by exactly one write, except one of each that still waits; every write
  is answered once, except the one whose response is pending; and the words answered to reads are, in order, those of
  the cycles in which the reads were accepted, except the one pending.\<close>

theorem slaves_serve_once: "serves ram_port ms r \<and> serves uart_port us u \<and> serves msip_port ms i \<and> serves clint_port ms c"
  using ram.serves uart.serves msip.serves clint.serves by blast

end
