(* ===== verification/Xbar_Rtl.thy ===== *)
theory Xbar_Rtl
  imports Axi_Ports
begin

text \<open>
  The peripheral bus: the crossbar \<open>rtl/bus/axi4_lite_xbar_3.sv\<close> with the windows of the board, and behind it the UART, the
  timer and the software interrupt, as \<open>rtl/core/top_module.sv\<close> connects them. Shown here: reads through the crossbar keep
  the contract of a read port, and an access outside the windows is answered with an error and reaches no slave.
\<close>

section \<open>The crossbar\<close>

record xbar =
  err_aw_seen_q :: bool
  err_w_seen_q :: bool
  err_bvalid_q :: bool
  err_rvalid_q :: bool
  wr_busy_q :: bool
  wr_sel_q :: nat
  rd_busy_q :: bool
  rd_sel_q :: nat

definition BASE0 :: u32 where "BASE0 = 0x10000000"
definition SIZE0 :: u32 where "SIZE0 = 0x00001000"
definition BASE1 :: u32 where "BASE1 = 0x10001000"
definition SIZE1 :: u32 where "SIZE1 = 0x00002000"
definition BASE2 :: u32 where "BASE2 = 0x10003000"
definition SIZE2 :: u32 where "SIZE2 = 0x00001000"

definition decode :: "u32 \<Rightarrow> nat" where
  "decode addr = (if BASE0 \<le> addr \<and> addr < BASE0 + SIZE0 then 0
     else if BASE1 \<le> addr \<and> addr < BASE1 + SIZE1 then 1
     else if BASE2 \<le> addr \<and> addr < BASE2 + SIZE2 then 2
     else 3)"

definition wr_sel_eff :: "xbar \<Rightarrow> axi_master \<Rightarrow> nat" where
  "wr_sel_eff x m = (if wr_busy_q x then wr_sel_q x else decode (awaddr m))"

text \<open>What master port \<open>i\<close> drives.\<close>

definition to_slave :: "xbar \<Rightarrow> axi_master \<Rightarrow> nat \<Rightarrow> axi_master" where
  "to_slave x m i = m\<lparr>
     awvalid := (\<not> wr_busy_q x \<and> awvalid m \<and> decode (awaddr m) = i),
     wvalid := (wvalid m \<and> wr_sel_eff x m = i),
     bready := (wr_busy_q x \<and> wr_sel_q x = i \<and> bready m),
     arvalid := (\<not> rd_busy_q x \<and> arvalid m \<and> decode (araddr m) = i),
     rready := (rd_busy_q x \<and> rd_sel_q x = i \<and> rready m)\<rparr>"

text \<open>What the slave port drives, with the two response codes; the slaves' own codes are OKAY.\<close>

record xbar_pins =
  pins :: axi_slave
  bresp :: nat
  rresp :: nat

definition RESP_DECERR :: nat where "RESP_DECERR = 3"

definition xbar_out :: "xbar \<Rightarrow> axi_master \<Rightarrow> (nat \<Rightarrow> axi_slave) \<Rightarrow> xbar_pins" where
  "xbar_out x m outs = (let
     aw_sel = decode (awaddr m); w_sel = wr_sel_eff x m; ar_sel = decode (araddr m);
     err_awready = (\<not> err_aw_seen_q x \<and> \<not> err_bvalid_q x);
     err_wready = (\<not> err_w_seen_q x \<and> \<not> err_bvalid_q x);
     err_arready = (\<not> err_rvalid_q x)
   in \<lparr>pins = \<lparr>
         awready = (\<not> wr_busy_q x \<and> awvalid m \<and> (if aw_sel < 3 then awready (outs aw_sel) else err_awready)),
         wready = (wvalid m \<and> (if w_sel < 3 then wready (outs w_sel) else err_wready)),
         bvalid = (wr_busy_q x \<and> (if wr_sel_q x < 3 then bvalid (outs (wr_sel_q x)) else err_bvalid_q x)),
         arready = (\<not> rd_busy_q x \<and> arvalid m \<and> (if ar_sel < 3 then arready (outs ar_sel) else err_arready)),
         rvalid = (rd_busy_q x \<and> (if rd_sel_q x < 3 then rvalid (outs (rd_sel_q x)) else err_rvalid_q x)),
         rdata = (if rd_busy_q x \<and> rd_sel_q x < 3 then rdata (outs (rd_sel_q x)) else 0)\<rparr>,
       bresp = (if wr_busy_q x \<and> \<not> wr_sel_q x < 3 then RESP_DECERR else 0),
       rresp = (if rd_busy_q x \<and> \<not> rd_sel_q x < 3 then RESP_DECERR else 0)\<rparr>)"

definition xbar_edge :: "xbar \<Rightarrow> axi_master \<Rightarrow> axi_slave \<Rightarrow> xbar" where
  "xbar_edge x m s = (let
     aw_hs = (awvalid m \<and> awready s); b_hs = (bvalid s \<and> bready m); ar_hs = (arvalid m \<and> arready s); r_hs = (rvalid s \<and> rready m);
     err_aw_hs = (aw_hs \<and> decode (awaddr m) = 3);
     err_w_hs = (wvalid m \<and> wready s \<and> wr_sel_eff x m = 3);
     err_do_write = ((err_aw_seen_q x \<or> err_aw_hs) \<and> (err_w_seen_q x \<or> err_w_hs) \<and> \<not> err_bvalid_q x);
     err_b_hs = (b_hs \<and> wr_sel_q x = 3); err_ar_hs = (ar_hs \<and> decode (araddr m) = 3); err_r_hs = (r_hs \<and> rd_sel_q x = 3)
   in \<lparr>err_aw_seen_q = (if err_do_write then False else if err_aw_hs then True else err_aw_seen_q x),
       err_w_seen_q = (if err_do_write then False else if err_w_hs then True else err_w_seen_q x),
       err_bvalid_q = (if err_b_hs then False else if err_do_write then True else err_bvalid_q x),
       err_rvalid_q = (if err_ar_hs then True else if err_r_hs then False else err_rvalid_q x),
       wr_busy_q = (if aw_hs then True else if b_hs then False else wr_busy_q x),
       wr_sel_q = (if aw_hs then decode (awaddr m) else wr_sel_q x),
       rd_busy_q = (if ar_hs then True else if r_hs then False else rd_busy_q x),
       rd_sel_q = (if ar_hs then decode (araddr m) else rd_sel_q x)\<rparr>)"

definition xbar_reset :: xbar where
  "xbar_reset = \<lparr>err_aw_seen_q = False, err_w_seen_q = False, err_bvalid_q = False, err_rvalid_q = False, wr_busy_q = False,
     wr_sel_q = 0, rd_busy_q = False, rd_sel_q = 0\<rparr>"

section \<open>The peripheral bus\<close>

record peri_sys =
  xb :: xbar
  serial :: uart_rtl
  timer :: clint
  soft :: msip

definition slave_pins :: "peri_sys \<Rightarrow> axi_master \<Rightarrow> nat \<Rightarrow> axi_slave" where
  "slave_pins p m i = (let a = to_slave (xb p) m i in
     if i = 0 then uart_out (serial p) a else if i = 1 then peri_out (cbus (timer p)) a else peri_out (mbus (soft p)) a)"

definition bus_pins :: "peri_sys \<Rightarrow> axi_master \<Rightarrow> xbar_pins" where
  "bus_pins p m = xbar_out (xb p) m (slave_pins p m)"

definition bus_step :: "peri_sys \<Rightarrow> axi_master \<times> bool \<Rightarrow> peri_sys" where
  "bus_step p mx = (case mx of (m, rxd) \<Rightarrow> \<lparr>
     xb = xbar_edge (xb p) m (pins (bus_pins p m)),
     serial = run_edge (to_slave (xb p) m 0) rxd (serial p),
     timer = clint_edge True (timer p) (to_slave (xb p) m 1),
     soft = msip_edge True (soft p) (to_slave (xb p) m 2)\<rparr>)"

section \<open>Reads\<close>

text \<open>The word a read finds in the cycle of its acceptance, and the one held by the slave that was asked last.\<close>

definition asked_word :: "peri_sys \<Rightarrow> axi_master \<times> bool \<Rightarrow> u32" where
  "asked_word p mx = (let m = fst mx; i = decode (araddr m) in
     if i = 0 then rdata_mux (serial p) m else if i = 1 then rdata_launch (timer p) m
     else if i = 2 then (if msip_q (soft p) then 1 else 0) else 0)"

definition answer_word :: "peri_sys \<Rightarrow> u32" where
  "answer_word p = (let i = rd_sel_q (xb p) in
     if i = 0 then Uart_Rtl.rdata_q (bus (serial p)) else if i = 1 then Peri_Rtl.rdata_q (cbus (timer p))
     else if i = 2 then Peri_Rtl.rdata_q (mbus (soft p)) else 0)"

definition bus_port :: "(peri_sys, axi_master \<times> bool) port" where
  "bus_port = \<lparr>port_edge = bus_step, port_aw = (\<lambda>p (m, _). awvalid m \<and> awready (pins (bus_pins p m))),
     port_w = (\<lambda>p (m, _). wvalid m \<and> wready (pins (bus_pins p m))), port_commit = (\<lambda>p _. False),
     port_b = (\<lambda>p (m, _). bvalid (pins (bus_pins p m)) \<and> bready m),
     port_ar = (\<lambda>p (m, _). arvalid m \<and> arready (pins (bus_pins p m))),
     port_r = (\<lambda>p (m, _). rvalid (pins (bus_pins p m)) \<and> rready m),
     held_aw = (\<lambda>p. False), held_w = (\<lambda>p. False), held_b = (\<lambda>p. wr_busy_q (xb p)), held_r = (\<lambda>p. rd_busy_q (xb p)),
     read_word = asked_word, held_word = answer_word\<rparr>"

lemma decode_cases: "decode a = 0 \<or> decode a = 1 \<or> decode a = 2 \<or> decode a = 3"
  by (simp add: decode_def)

lemma rdata_edges:
  "Uart_Rtl.rdata_q (bus (run_edge a x u)) = (if uar_hs u a then rdata_mux u a else Uart_Rtl.rdata_q (bus u))"
  "Peri_Rtl.rdata_q (cbus (clint_edge True c a)) = (if par_hs (cbus c) a then rdata_launch c a else Peri_Rtl.rdata_q (cbus c))"
  "Peri_Rtl.rdata_q (mbus (msip_edge True i a)) = (if par_hs (mbus i) a then (if msip_q i then 1 else 0) else Peri_Rtl.rdata_q (mbus i))"
  by (simp_all add: run_edge_bus bus_edge_def clint_edge_def msip_edge_def peri_write_edge_def peri_read_edge_def Let_def)

lemma mux_same: "rdata_mux u (to_slave x m i) = rdata_mux u m" "rdata_launch c (to_slave x m i) = rdata_launch c m"
  by (simp_all add: rdata_mux_def rdata_launch_def to_slave_def Let_def)

text \<open>A slave accepts a read exactly if the crossbar does for it.\<close>

lemma ar_reaches:
  "uar_hs (serial p) (to_slave (xb p) m 0) \<longleftrightarrow> arvalid m \<and> arready (pins (bus_pins p m)) \<and> decode (araddr m) = 0"
  "par_hs (cbus (timer p)) (to_slave (xb p) m 1) \<longleftrightarrow> arvalid m \<and> arready (pins (bus_pins p m)) \<and> decode (araddr m) = 1"
  "par_hs (mbus (soft p)) (to_slave (xb p) m 2) \<longleftrightarrow> arvalid m \<and> arready (pins (bus_pins p m)) \<and> decode (araddr m) = 2"
  by (use decode_cases [of "araddr m"] in \<open>auto simp: uar_hs_def par_hs_def uart_out_def peri_out_def bus_pins_def xbar_out_def slave_pins_def Let_def to_slave_def\<close>)

lemma xbar_reads:
  "arready (pins (bus_pins p m)) \<Longrightarrow> \<not> rd_busy_q (xb p)"
  "rvalid (pins (bus_pins p m)) \<Longrightarrow> rd_busy_q (xb p)"
  by (simp_all add: bus_pins_def xbar_out_def Let_def)

interpretation peri: axi_read_port bus_port
proof
  fix p :: peri_sys and mx :: "axi_master \<times> bool"
  obtain m rxd where mx: "mx = (m, rxd)" by (cases mx)
  show "\<not> held_r bus_port p \<or> port_r bus_port p mx" if "port_ar bus_port p mx"
    using that xbar_reads by (auto simp: bus_port_def mx)
  show "held_r bus_port p" if "port_r bus_port p mx"
    using that xbar_reads by (auto simp: bus_port_def mx)
  show "held_r bus_port (port_edge bus_port p mx) \<longleftrightarrow> port_ar bus_port p mx \<or> held_r bus_port p \<and> \<not> port_r bus_port p mx"
    using xbar_reads [of p m] by (auto simp: bus_port_def mx bus_step_def xbar_edge_def Let_def)
  show "held_word bus_port (port_edge bus_port p mx) = (if port_ar bus_port p mx then read_word bus_port p mx else held_word bus_port p)"
  proof (cases "arvalid m \<and> arready (pins (bus_pins p m))")
    case True
    then have "rd_sel_q (xb (bus_step p mx)) = decode (araddr m)" by (simp add: mx bus_step_def xbar_edge_def Let_def)
    then show ?thesis using True decode_cases [of "araddr m"]
      by (auto simp: bus_port_def mx answer_word_def asked_word_def bus_step_def rdata_edges ar_reaches mux_same Let_def simp del: One_nat_def)
  next
    case False
    then have "rd_sel_q (xb (bus_step p mx)) = rd_sel_q (xb p)" by (auto simp: mx bus_step_def xbar_edge_def Let_def)
    then show ?thesis using False
      by (auto simp: bus_port_def mx answer_word_def bus_step_def rdata_edges ar_reaches Let_def simp del: One_nat_def)
  qed
qed

lemma driven_word:
  "rdata (pins (bus_pins p m)) = (if rd_busy_q (xb p) \<and> rd_sel_q (xb p) < 3 then answer_word p else 0)"
  by (auto simp: bus_pins_def xbar_out_def slave_pins_def answer_word_def uart_out_def peri_out_def Let_def less_Suc_eq numeral_3_eq_3)

text \<open>reads through the peripheral bus, in every run from every state: every read that is accepted is answered once and in
  order, with the word that the UART, the timer or the software interrupt has at its address in the cycle of the
  acceptance, and with 0 outside their windows; one answer at most is pending.\<close>

theorem bus_reads_in_order:
  "serves_reads bus_port ms p \<and> rdata (pins (bus_pins p m)) = (if rd_busy_q (xb p) \<and> rd_sel_q (xb p) < 3 then answer_word p else 0)"
  using peri.reads_in_order driven_word by blast

section \<open>Accesses outside the windows\<close>

text \<open>The pins of a master that asks for nothing.\<close>

definition quiet :: "axi_master \<Rightarrow> axi_master" where
  "quiet m = m\<lparr>awvalid := False, wvalid := False, bready := False, arvalid := False, rready := False\<rparr>"

lemma to_slave_unmapped:
  assumes "\<not> wr_busy_q x" "\<not> rd_busy_q x" "decode (awaddr m) = 3" "decode (araddr m) = 3" "i < 3"
  shows "to_slave x m i = quiet m"
  using assms by (simp add: to_slave_def quiet_def wr_sel_eff_def)

text \<open>an access to the peripheral region outside the three windows, read and write in the same cycle, with the crossbar as after
  reset: it is accepted at once, the slaves see a cycle without any access, and in the next cycle, whatever the master drives,
  both responses are there, DECERR with the read word 0; when the master takes them the crossbar is free
  again, so that an unmapped address cannot hang the processor.\<close>

theorem unmapped_is_answered:
  assumes x: "xb p = xbar_reset" and m: "awvalid m" "wvalid m" "arvalid m" "decode (awaddr m) = 3" "decode (araddr m) = 3"
    and n: "bready n" "rready n" "\<not> awvalid n" "\<not> arvalid n" "\<not> wvalid n"
  shows "(let s = pins (bus_pins p m); p' = bus_step p (m, rxd); o' = bus_pins p' n in
     awready s \<and> wready s \<and> arready s
     \<and> serial p' = run_edge (quiet m) rxd (serial p) \<and> timer p' = clint_edge True (timer p) (quiet m) \<and> soft p' = msip_edge True (soft p) (quiet m)
     \<and> bvalid (pins o') \<and> bresp o' = RESP_DECERR \<and> rvalid (pins o') \<and> rresp o' = RESP_DECERR \<and> rdata (pins o') = 0
     \<and> xb (bus_step p' (n, rxd')) = xbar_reset\<lparr>wr_sel_q := 3, rd_sel_q := 3\<rparr>)"
proof -
  have s: "awready (pins (bus_pins p m))" "wready (pins (bus_pins p m))" "arready (pins (bus_pins p m))"
    using m by (simp_all add: bus_pins_def xbar_out_def x xbar_reset_def wr_sel_eff_def Let_def)
  have q: "to_slave (xb p) m i = quiet m" if "i < 3" for i
    by (rule to_slave_unmapped) (use m that in \<open>simp_all add: x xbar_reset_def\<close>)
  have e: "xb (bus_step p (m, rxd)) = \<lparr>err_aw_seen_q = False, err_w_seen_q = False, err_bvalid_q = True, err_rvalid_q = True,
      wr_busy_q = True, wr_sel_q = 3, rd_busy_q = True, rd_sel_q = 3\<rparr>"
    using m s by (simp add: bus_step_def xbar_edge_def x xbar_reset_def wr_sel_eff_def Let_def)
  have o: "bvalid (pins (bus_pins (bus_step p (m, rxd)) n))" "bresp (bus_pins (bus_step p (m, rxd)) n) = RESP_DECERR"
    "rvalid (pins (bus_pins (bus_step p (m, rxd)) n))" "rresp (bus_pins (bus_step p (m, rxd)) n) = RESP_DECERR"
    "rdata (pins (bus_pins (bus_step p (m, rxd)) n)) = 0"
    by (simp_all add: bus_pins_def xbar_out_def e Let_def)
  have f: "xb (bus_step (bus_step p (m, rxd)) (n, rxd')) = xbar_reset\<lparr>wr_sel_q := 3, rd_sel_q := 3\<rparr>"
    using n o by (simp add: bus_step_def [of "bus_step p (m, rxd)"] xbar_edge_def e xbar_reset_def Let_def)
  show ?thesis using s o f q by (simp add: bus_step_def Let_def)
qed

end
