(* ===== verification/Bridge_Rtl.thy ===== *)
theory Bridge_Rtl
  imports Xbar_Rtl
begin

text \<open>
  The processor's way to the peripherals: the master bridge \<open>rtl/bus/axi4_lite_master_bridge.sv\<close>, which turns the native
  requests of the load/store unit into AXI4-Lite transactions, composed with the peripheral bus. Shown here: bridge,
  crossbar and slaves keep in step, so that the bridge is idle exactly if nothing is pending anywhere; a read
  is answered one cycle after its launch, and a write takes effect in the cycle of its launch in the slave at its address, or,
  for a byte written to a full transmit FIFO, in the first cycle that has room.
\<close>

section \<open>The bridge\<close>

text \<open>\<open>mem_req_t\<close> and \<open>mem_rsp_t\<close>.\<close>

record mem_req =
  req_wvalid :: bool
  req_we :: bool
  req_addr :: u32
  req_wdata :: u32
  req_wstrb :: u8
  req_rready :: bool

record mem_rsp =
  rsp_wready :: bool
  rsp_rvalid :: bool
  rsp_rdata :: u32
  rsp_bvalid :: bool

datatype bridge_state = S_IDLE | S_RD_ADDR | S_RD_WAIT | S_WR_BOTH | S_WR_ADDR | S_WR_DATA | S_WR_WAIT

record bridge =
  state_q :: bridge_state
  addr_q :: u32
  req_wdata_q :: u32
  req_wstrb_q :: u8

definition bridge_accept :: "bridge \<Rightarrow> mem_req \<Rightarrow> bool" where
  "bridge_accept b r \<longleftrightarrow> state_q b = S_IDLE \<and> req_wvalid r"

text \<open>The AXI side it drives.\<close>

definition bridge_axi :: "bridge \<Rightarrow> mem_req \<Rightarrow> axi_master" where
  "bridge_axi b r = (let
     d = \<lparr>awaddr = 0, awvalid = False, wdata = 0, wstrb = 0, wvalid = False, bready = True, araddr = 0, arvalid = False, rready = False\<rparr>
   in case state_q b of
     S_IDLE \<Rightarrow> (if req_wvalid r then
         if req_we r then d\<lparr>awaddr := req_addr r, awvalid := True, wdata := req_wdata r, wstrb := req_wstrb r, wvalid := True\<rparr>
         else d\<lparr>araddr := req_addr r, arvalid := True\<rparr>
       else d)
   | S_RD_ADDR \<Rightarrow> d\<lparr>araddr := addr_q b, arvalid := True\<rparr>
   | S_RD_WAIT \<Rightarrow> d\<lparr>rready := req_rready r\<rparr>
   | S_WR_BOTH \<Rightarrow> d\<lparr>awaddr := addr_q b, awvalid := True, wdata := req_wdata_q b, wstrb := req_wstrb_q b, wvalid := True\<rparr>
   | S_WR_ADDR \<Rightarrow> d\<lparr>wdata := req_wdata_q b, wstrb := req_wstrb_q b, wvalid := True\<rparr>
   | S_WR_DATA \<Rightarrow> d\<lparr>awaddr := addr_q b, awvalid := True\<rparr>
   | S_WR_WAIT \<Rightarrow> d)"

text \<open>The native side, and the next state, from the pins \<open>s\<close> of the slave port.\<close>

definition bridge_rsp :: "bridge \<Rightarrow> mem_req \<Rightarrow> axi_slave \<Rightarrow> mem_rsp" where
  "bridge_rsp b r s = (let m = bridge_axi b r in \<lparr>
     rsp_wready = (state_q b = S_IDLE),
     rsp_rvalid = (state_q b = S_RD_WAIT \<and> rvalid s \<and> rready m),
     rsp_rdata = (if state_q b = S_RD_WAIT then rdata s else 0),
     rsp_bvalid = (state_q b = S_WR_WAIT \<and> bvalid s \<and> bready m)\<rparr>)"

definition bridge_next :: "bridge \<Rightarrow> mem_req \<Rightarrow> axi_slave \<Rightarrow> bridge_state" where
  "bridge_next b r s = (let m = bridge_axi b r;
     ar = (arvalid m \<and> arready s); aw = (awvalid m \<and> awready s); w = (wvalid m \<and> wready s);
     rd = (rvalid s \<and> rready m); bd = (bvalid s \<and> bready m)
   in case state_q b of
     S_IDLE \<Rightarrow> (if req_wvalid r then
         if req_we r then if aw \<and> w then S_WR_WAIT else if aw then S_WR_ADDR else if w then S_WR_DATA else S_WR_BOTH
         else if ar then S_RD_WAIT else S_RD_ADDR
       else S_IDLE)
   | S_RD_ADDR \<Rightarrow> (if ar then S_RD_WAIT else S_RD_ADDR)
   | S_RD_WAIT \<Rightarrow> (if rd then S_IDLE else S_RD_WAIT)
   | S_WR_BOTH \<Rightarrow> (if aw \<and> w then S_WR_WAIT else if aw then S_WR_ADDR else if w then S_WR_DATA else S_WR_BOTH)
   | S_WR_ADDR \<Rightarrow> (if w then S_WR_WAIT else S_WR_ADDR)
   | S_WR_DATA \<Rightarrow> (if aw then S_WR_WAIT else S_WR_DATA)
   | S_WR_WAIT \<Rightarrow> (if bd then S_IDLE else S_WR_WAIT))"

definition bridge_edge :: "bool \<Rightarrow> bridge \<Rightarrow> mem_req \<Rightarrow> axi_slave \<Rightarrow> bridge" where
  "bridge_edge rstn b r s = (let t = (if bridge_accept b r
       then b\<lparr>addr_q := req_addr r, req_wdata_q := req_wdata r, req_wstrb_q := req_wstrb r\<rparr> else b)
   in t\<lparr>state_q := (if rstn then bridge_next b r s else S_IDLE)\<rparr>)"

section \<open>Bridge and peripheral bus\<close>

record cpu_bus =
  br :: bridge
  per :: peri_sys

definition cpu_pins :: "cpu_bus \<Rightarrow> mem_req \<Rightarrow> axi_slave" where
  "cpu_pins c r = pins (bus_pins (per c) (bridge_axi (br c) r))"

definition cpu_rsp :: "cpu_bus \<Rightarrow> mem_req \<Rightarrow> mem_rsp" where
  "cpu_rsp c r = bridge_rsp (br c) r (cpu_pins c r)"

definition cpu_step :: "cpu_bus \<Rightarrow> mem_req \<times> bool \<Rightarrow> cpu_bus" where
  "cpu_step c rl = (case rl of (r, rxd) \<Rightarrow>
     \<lparr>br = bridge_edge True (br c) r (cpu_pins c r), per = bus_step (per c) (bridge_axi (br c) r, rxd)\<rparr>)"

definition cpu_reset :: "u16 \<Rightarrow> mem_req \<Rightarrow> cpu_bus \<Rightarrow> cpu_bus" where
  "cpu_reset BAUD_DIV_RESET r c = (let m = bridge_axi (br c) r in
     \<lparr>br = bridge_edge False (br c) r (cpu_pins c r),
      per = \<lparr>xb = xbar_reset, serial = reset_edge BAUD_DIV_RESET (to_slave (xb (per c)) m 0) (serial (per c)),
        timer = clint_edge False (timer (per c)) (to_slave (xb (per c)) m 1),
        soft = msip_edge False (soft (per c)) (to_slave (xb (per c)) m 2)\<rparr>\<rparr>)"

primrec cpu_run :: "(mem_req \<times> bool) list \<Rightarrow> cpu_bus \<Rightarrow> cpu_bus" where
  "cpu_run [] c = c"
| "cpu_run (rl # rls) c = cpu_run rls (cpu_step c rl)"

section \<open>In step\<close>

text \<open>What slave \<open>i\<close> holds of a transaction: an address, a word, a write response, a read response; 3 is the crossbar's own terminator.\<close>

definition slave_holds :: "peri_sys \<Rightarrow> nat \<Rightarrow> bool \<times> bool \<times> bool \<times> bool" where
  "slave_holds p i = (
     if i = 0 then (let b = bus (serial p) in (Uart_Rtl.aw_seen_q b, Uart_Rtl.w_seen_q b, Uart_Rtl.bvalid_q b, Uart_Rtl.rvalid_q b))
     else if i = 1 then (let b = cbus (timer p) in (Peri_Rtl.aw_seen_q b, Peri_Rtl.w_seen_q b, Peri_Rtl.bvalid_q b, Peri_Rtl.rvalid_q b))
     else if i = 2 then (let b = mbus (soft p) in (Peri_Rtl.aw_seen_q b, Peri_Rtl.w_seen_q b, Peri_Rtl.bvalid_q b, Peri_Rtl.rvalid_q b))
     else (err_aw_seen_q (xb p), err_w_seen_q (xb p), err_bvalid_q (xb p), err_rvalid_q (xb p)))"

definition all_hold :: "(nat \<Rightarrow> bool \<times> bool \<times> bool \<times> bool) \<Rightarrow> peri_sys \<Rightarrow> bool" where
  "all_hold f p \<longleftrightarrow> slave_holds p 0 = f 0 \<and> slave_holds p 1 = f 1 \<and> slave_holds p 2 = f 2 \<and> slave_holds p 3 = f 3"

text \<open>The state of the bridge says what the crossbar and every slave hold.\<close>

definition in_step :: "cpu_bus \<Rightarrow> bool" where
  "in_step c \<longleftrightarrow> (let p = per c; x = xb p in case state_q (br c) of
     S_IDLE \<Rightarrow> \<not> wr_busy_q x \<and> \<not> rd_busy_q x \<and> all_hold (\<lambda>i. (False, False, False, False)) p
   | S_RD_WAIT \<Rightarrow> \<not> wr_busy_q x \<and> rd_busy_q x \<and> rd_sel_q x < 4 \<and> all_hold (\<lambda>i. (False, False, False, i = rd_sel_q x)) p
   | S_WR_DATA \<Rightarrow> \<not> wr_busy_q x \<and> \<not> rd_busy_q x \<and> decode (addr_q (br c)) = 0 \<and> reg_of (addr_q (br c)) = REG_TXDATA
       \<and> all_hold (\<lambda>i. (False, i = 0, False, False)) p
   | S_WR_WAIT \<Rightarrow> wr_busy_q x \<and> \<not> rd_busy_q x \<and> wr_sel_q x < 4 \<and> all_hold (\<lambda>i. (False, False, i = wr_sel_q x, False)) p
   | _ \<Rightarrow> False)"

text \<open>An edge of each slave, as far as what it holds.\<close>

lemma uart_holds:
  "Uart_Rtl.aw_seen_q (bus (run_edge a l u)) \<longleftrightarrow> (Uart_Rtl.aw_seen_q (bus u) \<or> uaw_hs u a) \<and> \<not> udo_write u a"
  "Uart_Rtl.w_seen_q (bus (run_edge a l u)) \<longleftrightarrow> (Uart_Rtl.w_seen_q (bus u) \<or> uw_hs u a) \<and> \<not> udo_write u a"
  "Uart_Rtl.bvalid_q (bus (run_edge a l u)) \<longleftrightarrow> (Uart_Rtl.bvalid_q (bus u) \<or> udo_write u a) \<and> \<not> ub_hs u a"
  "Uart_Rtl.rvalid_q (bus (run_edge a l u)) \<longleftrightarrow> uar_hs u a \<or> Uart_Rtl.rvalid_q (bus u) \<and> \<not> rready a"
  by (auto simp: run_edge_bus bus_edge_def Let_def)

lemma clint_holds:
  "Peri_Rtl.aw_seen_q (cbus (clint_edge True s a)) \<longleftrightarrow> (Peri_Rtl.aw_seen_q (cbus s) \<or> paw_hs (cbus s) a) \<and> \<not> pdo_write (cbus s) a"
  "Peri_Rtl.w_seen_q (cbus (clint_edge True s a)) \<longleftrightarrow> (Peri_Rtl.w_seen_q (cbus s) \<or> pw_hs (cbus s) a) \<and> \<not> pdo_write (cbus s) a"
  "Peri_Rtl.bvalid_q (cbus (clint_edge True s a)) \<longleftrightarrow> (Peri_Rtl.bvalid_q (cbus s) \<or> pdo_write (cbus s) a) \<and> \<not> pb_hs (cbus s) a"
  "Peri_Rtl.rvalid_q (cbus (clint_edge True s a)) \<longleftrightarrow> par_hs (cbus s) a \<or> Peri_Rtl.rvalid_q (cbus s) \<and> \<not> rready a"
  by (auto simp: clint_edge_def peri_write_edge_def peri_read_edge_def Let_def)

lemma msip_holds:
  "Peri_Rtl.aw_seen_q (mbus (msip_edge True s a)) \<longleftrightarrow> (Peri_Rtl.aw_seen_q (mbus s) \<or> paw_hs (mbus s) a) \<and> \<not> pdo_write (mbus s) a"
  "Peri_Rtl.w_seen_q (mbus (msip_edge True s a)) \<longleftrightarrow> (Peri_Rtl.w_seen_q (mbus s) \<or> pw_hs (mbus s) a) \<and> \<not> pdo_write (mbus s) a"
  "Peri_Rtl.bvalid_q (mbus (msip_edge True s a)) \<longleftrightarrow> (Peri_Rtl.bvalid_q (mbus s) \<or> pdo_write (mbus s) a) \<and> \<not> pb_hs (mbus s) a"
  "Peri_Rtl.rvalid_q (mbus (msip_edge True s a)) \<longleftrightarrow> par_hs (mbus s) a \<or> Peri_Rtl.rvalid_q (mbus s) \<and> \<not> rready a"
  by (auto simp: msip_edge_def peri_write_edge_def peri_read_edge_def Let_def)

lemmas slave_handshakes = uaw_hs_def uw_hs_def ub_hs_def uar_hs_def udo_write_def tx_write_hold_def waddr_eff_def uart_out_def
  paw_hs_def pw_hs_def pb_hs_def par_hs_def pdo_write_def peri_out_def

lemmas slave_edges = uart_holds clint_holds msip_holds

lemmas bridge_unfold = cpu_step_def cpu_rsp_def bridge_edge_def bridge_next_def bridge_accept_def bridge_axi_def bridge_rsp_def cpu_pins_def
  bus_pins_def xbar_out_def slave_pins_def bus_step_def xbar_edge_def to_slave_def wr_sel_eff_def

lemmas holds_unfold = in_step_def all_hold_def slave_holds_def slave_edges slave_handshakes

lemma decode_elems: "decode a \<in> {0, 1, 2, 3}"
  using decode_cases by auto

lemma below_4: "(i :: nat) < 4 \<Longrightarrow> i \<in> {0, 1, 2, 3}"
  by auto

lemma in_step_idle:
  assumes "in_step c" "state_q (br c) = S_IDLE"
  shows "in_step (cpu_step c (r, l))"
  using assms decode_elems [of "req_addr r"]
  by (cases "req_wvalid r \<and> req_we r"; elim insertE) (auto simp: holds_unfold bridge_unfold Let_def simp del: One_nat_def)

lemma in_step_rd_wait:
  assumes "in_step c" "state_q (br c) = S_RD_WAIT"
  shows "in_step (cpu_step c (r, l))"
proof -
  have "rd_sel_q (xb (per c)) \<in> {0, 1, 2, 3}" using assms by (intro below_4) (simp add: in_step_def Let_def)
  with assms show ?thesis
    by (elim insertE) (auto simp: holds_unfold bridge_unfold Let_def simp del: One_nat_def)
qed

lemma in_step_wr_wait:
  assumes "in_step c" "state_q (br c) = S_WR_WAIT"
  shows "in_step (cpu_step c (r, l))"
proof -
  have "wr_sel_q (xb (per c)) \<in> {0, 1, 2, 3}" using assms by (intro below_4) (simp add: in_step_def Let_def)
  with assms show ?thesis
    by (elim insertE) (auto simp: holds_unfold bridge_unfold Let_def simp del: One_nat_def)
qed

lemma in_step_wr_data:
  assumes "in_step c" "state_q (br c) = S_WR_DATA"
  shows "in_step (cpu_step c (r, l))"
  using assms by (auto simp: holds_unfold bridge_unfold Let_def simp del: One_nat_def)

lemma in_step_states: "in_step c \<Longrightarrow> state_q (br c) \<in> {S_IDLE, S_RD_WAIT, S_WR_DATA, S_WR_WAIT}"
  by (cases "state_q (br c)") (simp_all add: in_step_def Let_def)

lemma in_step_step: "in_step c \<Longrightarrow> in_step (cpu_step c rl)"
  using in_step_states [of c] in_step_idle in_step_rd_wait in_step_wr_data in_step_wr_wait by (cases rl) blast

lemma in_step_run: "in_step c \<Longrightarrow> in_step (cpu_run rls c)"
  by (induction rls arbitrary: c) (simp_all add: in_step_step)

lemma in_step_reset: "in_step (cpu_reset n r c)"
  by (simp add: cpu_reset_def in_step_def bridge_edge_def xbar_reset_def all_hold_def slave_holds_def reset_edge_def rings_edge_def bus_reset_def
    clint_edge_def msip_edge_def peri_bus_reset_def Let_def)

text \<open>C15: after a reset, whatever the processor asks for and whatever comes in on the serial line, the bridge, the crossbar and the
  slaves keep in step: the bridge is idle exactly while nothing is pending anywhere on the bus; while it waits for a read or
  a write response, the slave that was addressed holds that response and no other holds anything; and of the states in which
  it repeats a request it only ever enters the one with the address refused and the word taken, for a byte
  stored into the full transmit FIFO. The other three are not reached on this bus.\<close>

theorem bridge_in_step:
  "(let c = cpu_run rls (cpu_reset n r c\<^sub>0) in in_step c \<and> state_q (br c) \<in> {S_IDLE, S_RD_WAIT, S_WR_DATA, S_WR_WAIT})"
  using in_step_run [OF in_step_reset] in_step_states unfolding Let_def by blast

section \<open>Native accesses\<close>

text \<open>The writes that take effect in this cycle: the slave, its register and the word.\<close>

definition commits :: "cpu_bus \<Rightarrow> mem_req \<Rightarrow> (nat \<times> nat \<times> u32) list" where
  "commits c r = (let p = per c; a = to_slave (xb p) (bridge_axi (br c) r); u = serial p; t = timer p; i = soft p in
     (if udo_write u (a 0) then [(0, waddr_eff u (a 0), wdata_eff u (a 0))] else [])
     @ (if pdo_write (cbus t) (a 1) then [(1, aw_sel_eff t (a 1), pwdata_eff (cbus t) (a 1))] else [])
     @ (if pdo_write (mbus i) (a 2) then [(2, 0, pwdata_eff (mbus i) (a 2))] else []))"

text \<open>The write that a store asks for.\<close>

definition store_of :: "mem_req \<Rightarrow> (nat \<times> nat \<times> u32) list" where
  "store_of r = (let a = req_addr r; i = decode a in
     if i = 3 then [] else [(i, if i = 0 then reg_of a else if i = 1 then addr_sel a else 0, req_wdata r)])"

text \<open>A byte for the transmit FIFO, which is full.\<close>

definition refused :: "cpu_bus \<Rightarrow> u32 \<Rightarrow> bool" where
  "refused c a \<longleftrightarrow> decode a = 0 \<and> reg_of a = REG_TXDATA \<and> \<not> rtl_tx_ready (serial (per c))"

lemmas word_eff = wdata_eff_def aw_sel_eff_def pwdata_eff_def

lemma idle_write:
  assumes "in_step c" "state_q (br c) = S_IDLE" "req_wvalid r" "req_we r"
  shows "commits c r = (if refused c (req_addr r) then [] else store_of r)"
    and "state_q (br (cpu_step c (r, l))) = (if refused c (req_addr r) then S_WR_DATA else S_WR_WAIT)"
proof -
  from assms decode_elems [of "req_addr r"]
  show "commits c r = (if refused c (req_addr r) then [] else store_of r)"
    by (elim insertE) (auto simp: commits_def store_of_def refused_def word_eff holds_unfold bridge_unfold Let_def simp del: One_nat_def)
  from assms decode_elems [of "req_addr r"]
  show "state_q (br (cpu_step c (r, l))) = (if refused c (req_addr r) then S_WR_DATA else S_WR_WAIT)"
    by (elim insertE) (auto simp: refused_def holds_unfold bridge_unfold Let_def simp del: One_nat_def)
qed

lemma wr_wait_answers:
  assumes "in_step c" "state_q (br c) = S_WR_WAIT"
  shows "rsp_bvalid (cpu_rsp c r)" "state_q (br (cpu_step c (r, l))) = S_IDLE" "commits c r = []"
proof -
  have d: "wr_sel_q (xb (per c)) \<in> {0, 1, 2, 3}" using assms by (intro below_4) (simp add: in_step_def Let_def)
  with assms show "rsp_bvalid (cpu_rsp c r)"
    by (elim insertE) (auto simp: holds_unfold bridge_unfold Let_def simp del: One_nat_def)
  from d assms show "state_q (br (cpu_step c (r, l))) = S_IDLE"
    by (elim insertE) (auto simp: holds_unfold bridge_unfold Let_def simp del: One_nat_def)
  from d assms show "commits c r = []"
    by (elim insertE) (auto simp: commits_def word_eff holds_unfold bridge_unfold Let_def simp del: One_nat_def)
qed

lemma wr_data_retries:
  assumes "in_step c" "state_q (br c) = S_WR_DATA"
  shows "commits c r = (if rtl_tx_ready (serial (per c)) then [(0, REG_TXDATA, Uart_Rtl.wdata_q (bus (serial (per c))))] else [])"
    and "state_q (br (cpu_step c (r, l))) = (if rtl_tx_ready (serial (per c)) then S_WR_WAIT else S_WR_DATA)"
  using assms by (auto simp: commits_def word_eff holds_unfold bridge_unfold Let_def simp del: One_nat_def)

text \<open>What the UART and the bridge keep of a store that is refused.\<close>

definition keeps :: "mem_req \<Rightarrow> cpu_bus \<Rightarrow> bool" where
  "keeps r c \<longleftrightarrow> state_q (br c) = S_WR_DATA \<and> addr_q (br c) = req_addr r \<and> Uart_Rtl.wdata_q (bus (serial (per c))) = req_wdata r
     \<and> Uart_Rtl.wstrb_q (bus (serial (per c))) = req_wstrb r"

lemma uart_keeps:
  "Uart_Rtl.wdata_q (bus (run_edge a l u)) = (if uw_hs u a then wdata a else Uart_Rtl.wdata_q (bus u))"
  "Uart_Rtl.wstrb_q (bus (run_edge a l u)) = (if uw_hs u a then wstrb a else Uart_Rtl.wstrb_q (bus u))"
  by (simp_all add: run_edge_bus bus_edge_def Let_def)

lemma idle_keeps:
  assumes "in_step c" "state_q (br c) = S_IDLE" "req_wvalid r" "req_we r" "refused c (req_addr r)"
  shows "keeps r (cpu_step c (r, l))"
  using assms by (auto simp: keeps_def refused_def uart_keeps holds_unfold bridge_unfold Let_def simp del: One_nat_def)

lemma full_keeps:
  assumes "in_step c" "keeps r c" "\<not> rtl_tx_ready (serial (per c))"
  shows "keeps r (cpu_step c (r', l))" "commits c r' = []"
  using assms by (auto simp: keeps_def uart_keeps commits_def word_eff holds_unfold bridge_unfold Let_def simp del: One_nat_def)

text \<open>Cycles in which the transmit FIFO is full, and the writes of a run.\<close>

primrec full_during :: "(mem_req \<times> bool) list \<Rightarrow> cpu_bus \<Rightarrow> bool" where
  "full_during [] c = True"
| "full_during (rl # rls) c = (\<not> rtl_tx_ready (serial (per c)) \<and> full_during rls (cpu_step c rl))"

primrec commits_of :: "(mem_req \<times> bool) list \<Rightarrow> cpu_bus \<Rightarrow> (nat \<times> nat \<times> u32) list" where
  "commits_of [] c = []"
| "commits_of (rl # rls) c = commits c (fst rl) @ commits_of rls (cpu_step c rl)"

lemma full_run:
  assumes "in_step c" "keeps r c" "full_during rls c"
  shows "keeps r (cpu_run rls c) \<and> commits_of rls c = []"
  using assms
proof (induction rls arbitrary: c)
  case (Cons rl rls)
  obtain r' l where rl: "rl = (r', l)" by (cases rl)
  from Cons.prems have "\<not> rtl_tx_ready (serial (per c))" "full_during rls (cpu_step c (r', l))" by (simp_all add: rl)
  with full_keeps [OF Cons.prems(1,2)] Cons.IH [OF in_step_step [OF Cons.prems(1)]] show ?case by (simp add: rl)
qed simp

lemma kept_push:
  assumes "in_step c" "keeps r c" "rtl_tx_ready (serial (per c))"
  shows "tx_push (serial (per c)) (to_slave (xb (per c)) (bridge_axi (br c) r') 0) \<longleftrightarrow> bit (req_wstrb r) 0"
  using assms by (auto simp: tx_push_def wr_low_byte_def keeps_def holds_unfold bridge_unfold Let_def simp del: One_nat_def)

text \<open>C18: a store to a peripheral, in a state in step, as each one after a reset is. The bridge takes it at once; in that very cycle the write takes effect in the slave at its
  address and in no other, with the word of the store, one cycle later the response is with the processor, and then the
  bridge is free for the next request. A store outside the windows has no effect and is answered likewise. The one
  exception is a byte for the full transmit FIFO.\<close>

theorem native_store:
  assumes "in_step c" "state_q (br c) = S_IDLE" "req_wvalid r" "req_we r" "\<not> refused c (req_addr r)"
  shows "(let d = cpu_step c (r, l) in rsp_wready (cpu_rsp c r)
     \<and> commits c r = store_of r
     \<and> rsp_bvalid (cpu_rsp d r') \<and> commits d r' = [] \<and> state_q (br (cpu_step d (r', l'))) = S_IDLE)"
  using idle_write [OF assms(1-4)] wr_wait_answers [OF in_step_step [OF assms(1)]] assms by (simp add: cpu_rsp_def bridge_rsp_def Let_def)

text \<open>C16: a byte stored into the full transmit FIFO is not lost and not written twice, however long the FIFO stays full: the
  UART takes the word and refuses the address, the bridge repeats the address and accepts nothing else, no write takes
  effect anywhere, and in the first cycle with room the word of the store, and no other, is pushed (if its low strobe is set);
  one cycle later the processor has the response.\<close>

theorem store_waits_for_room:
  assumes c: "in_step c" "state_q (br c) = S_IDLE" and r: "req_wvalid r" "req_we r" "refused c (req_addr r)"
    and full: "full_during rls (cpu_step c (r, l))" and room: "rtl_tx_ready (serial (per (cpu_run ((r, l) # rls) c)))"
  shows "(let d = cpu_run ((r, l) # rls) c; e = cpu_step d (r', l') in commits_of ((r, l) # rls) c = []
     \<and> \<not> rsp_wready (cpu_rsp d r') \<and> commits d r' = [(0, REG_TXDATA, req_wdata r)]
     \<and> tx_push (serial (per d)) (to_slave (xb (per d)) (bridge_axi (br d) r') 0) = bit (req_wstrb r) 0
     \<and> rsp_bvalid (cpu_rsp e r'') \<and> state_q (br (cpu_step e (r'', l''))) = S_IDLE)"
proof -
  let ?d = "cpu_run ((r, l) # rls) c"
  have d: "in_step ?d" by (rule in_step_run [OF c(1)])
  have k: "keeps r ?d" "commits_of ((r, l) # rls) c = []"
    using full_run [OF in_step_step [OF c(1)] idle_keeps [OF c r] full] idle_write(1) [OF c r(1,2)] r(3) by simp_all
  then have s: "state_q (br ?d) = S_WR_DATA" "Uart_Rtl.wdata_q (bus (serial (per ?d))) = req_wdata r" by (simp_all add: keeps_def)
  have e: "state_q (br (cpu_step ?d (r', l'))) = S_WR_WAIT" "commits ?d r' = [(0, REG_TXDATA, req_wdata r)]"
    using wr_data_retries [OF d s(1)] room s(2) by simp_all
  show ?thesis using k(2) e kept_push [OF d k(1) room] s(1) wr_wait_answers [OF in_step_step [OF d] e(1)]
    by (simp add: cpu_rsp_def bridge_rsp_def Let_def)
qed

lemma rd_wait_answers:
  assumes "in_step c" "state_q (br c) = S_RD_WAIT"
  shows "rsp_rvalid (cpu_rsp c r) = req_rready r"
    and "state_q (br (cpu_step c (r, l))) = (if req_rready r then S_IDLE else S_RD_WAIT)"
    and "rsp_rdata (cpu_rsp c r) = (if rd_sel_q (xb (per c)) < 3 then answer_word (per c) else 0)"
    and "rd_sel_q (xb (per (cpu_step c (r, l)))) = rd_sel_q (xb (per c)) \<and> answer_word (per (cpu_step c (r, l))) = answer_word (per c)"
proof -
  have d: "rd_sel_q (xb (per c)) \<in> {0, 1, 2, 3}" using assms by (intro below_4) (simp add: in_step_def Let_def)
  with assms show "rsp_rvalid (cpu_rsp c r) = req_rready r"
    by (elim insertE) (auto simp: holds_unfold bridge_unfold Let_def simp del: One_nat_def)
  from d assms show "state_q (br (cpu_step c (r, l))) = (if req_rready r then S_IDLE else S_RD_WAIT)"
    by (elim insertE) (auto simp: holds_unfold bridge_unfold Let_def simp del: One_nat_def)
  have "rd_busy_q (xb (per c))" using assms by (simp add: in_step_def Let_def)
  then show "rsp_rdata (cpu_rsp c r) = (if rd_sel_q (xb (per c)) < 3 then answer_word (per c) else 0)"
    using assms(2) by (simp add: cpu_rsp_def bridge_rsp_def cpu_pins_def driven_word Let_def)
  have "\<not> arvalid (bridge_axi (br c) r)" using assms(2) by (simp add: bridge_axi_def Let_def)
  then show "rd_sel_q (xb (per (cpu_step c (r, l)))) = rd_sel_q (xb (per c)) \<and> answer_word (per (cpu_step c (r, l))) = answer_word (per c)"
    using peri.edge_word [of "per c" "(bridge_axi (br c) r, l)"] by (simp add: bus_port_def cpu_step_def bus_step_def xbar_edge_def Let_def)
qed

lemma idle_read:
  assumes "in_step c" "state_q (br c) = S_IDLE" "req_wvalid r" "\<not> req_we r"
  shows "state_q (br (cpu_step c (r, l))) = S_RD_WAIT"
    and "rd_sel_q (xb (per (cpu_step c (r, l)))) = decode (req_addr r)"
    and "answer_word (per (cpu_step c (r, l))) = asked_word (per c) (bridge_axi (br c) r, l)"
proof -
  have ar: "arvalid (bridge_axi (br c) r) \<and> arready (cpu_pins c r)"
    using assms decode_elems [of "req_addr r"] by (elim insertE) (auto simp: holds_unfold bridge_unfold Let_def simp del: One_nat_def)
  then show "state_q (br (cpu_step c (r, l))) = S_RD_WAIT" "rd_sel_q (xb (per (cpu_step c (r, l)))) = decode (req_addr r)"
    using assms by (simp_all add: cpu_step_def bridge_edge_def bridge_accept_def bridge_next_def bus_step_def xbar_edge_def cpu_pins_def
      bridge_axi_def Let_def)
  from ar show "answer_word (per (cpu_step c (r, l))) = asked_word (per c) (bridge_axi (br c) r, l)"
    using peri.edge_word [of "per c" "(bridge_axi (br c) r, l)"] by (simp add: bus_port_def cpu_step_def cpu_pins_def)
qed

lemma rd_wait_run:
  assumes "in_step c" "state_q (br c) = S_RD_WAIT" "list_all (\<lambda>w. \<not> req_rready (fst w)) ws"
  shows "state_q (br (cpu_run ws c)) = S_RD_WAIT \<and> rd_sel_q (xb (per (cpu_run ws c))) = rd_sel_q (xb (per c))
    \<and> answer_word (per (cpu_run ws c)) = answer_word (per c)"
  using assms
proof (induction ws arbitrary: c)
  case (Cons w ws)
  obtain r l where w: "w = (r, l)" by (cases w)
  show ?case using Cons.IH [OF in_step_step [OF Cons.prems(1)], of w] Cons.prems(3) rd_wait_answers(2,4) [OF Cons.prems(1,2), of r l]
    by (simp add: w)
qed simp

text \<open>C17: a load from a peripheral, in a state in step. The bridge takes it at once; from the next cycle on the word which the slave at the address
  had in the cycle of the launch, 0 outside the windows, is offered until the processor is ready for it, whatever the
  slave does meanwhile; the response comes in the first cycle in which the processor is ready, and the bridge is free again.\<close>

theorem native_load:
  assumes "in_step c" "state_q (br c) = S_IDLE" "req_wvalid r" "\<not> req_we r"
    and "list_all (\<lambda>w. \<not> req_rready (fst w)) ws" "req_rready r'"
  shows "(let d = cpu_run ((r, l) # ws) c in rsp_wready (cpu_rsp c r) \<and> rsp_rvalid (cpu_rsp d r')
     \<and> rsp_rdata (cpu_rsp d r') = asked_word (per c) (bridge_axi (br c) r, l) \<and> state_q (br (cpu_step d (r', l'))) = S_IDLE)"
proof -
  let ?d = "cpu_run ((r, l) # ws) c"
  have d: "in_step ?d" by (rule in_step_run [OF assms(1)])
  have s: "state_q (br ?d) = S_RD_WAIT" "rd_sel_q (xb (per ?d)) = decode (req_addr r)"
    "answer_word (per ?d) = asked_word (per c) (bridge_axi (br c) r, l)"
    using rd_wait_run [OF in_step_step [OF assms(1)], of "(r, l)" ws] idle_read [OF assms(1-4), of l] assms(5) by simp_all
  have z: "asked_word (per c) (bridge_axi (br c) r, l) = 0" if "\<not> decode (req_addr r) < 3"
    using that assms(2-4) decode_elems [of "req_addr r"] by (auto simp: asked_word_def bridge_axi_def Let_def)
  show ?thesis using rd_wait_answers(1,3) [OF d s(1), of r'] rd_wait_answers(2) [OF d s(1), of r' l'] s z assms by (simp add: cpu_rsp_def bridge_rsp_def Let_def)
qed

section \<open>A board at rest\<close>

definition no_req :: mem_req where
  "no_req = \<lparr>req_wvalid = False, req_we = False, req_addr = 0, req_wdata = 0, req_wstrb = 0, req_rready = True\<rparr>"

definition store_req :: "u32 \<Rightarrow> u32 \<Rightarrow> mem_req" where
  "store_req a d = no_req\<lparr>req_wvalid := True, req_we := True, req_addr := a, req_wdata := d, req_wstrb := 0xF\<rparr>"

definition load_req :: "u32 \<Rightarrow> mem_req" where
  "load_req a = no_req\<lparr>req_wvalid := True, req_addr := a, req_rready := False\<rparr>"

text \<open>After a reset, with \<open>n\<close> bytes in the transmit FIFO and the transmitter in the last cycle of a stop bit.\<close>

definition board :: "nat \<Rightarrow> cpu_bus" where
  "board n = \<lparr>br = \<lparr>state_q = S_IDLE, addr_q = 0, req_wdata_q = 0, req_wstrb_q = 0\<rparr>,
     per = \<lparr>xb = xbar_reset,
       serial = \<lparr>bus = bus_reset, tx_ie_q = False, rx_ie_q = False, div_q = 3, div_pending_q = 0, div_pending_valid_q = False,
         tx = \<lparr>tx_state_q = TX_STOP, tx_shift_q = 0, tx_bit_cnt_q = 7, txd_q = True, tx_baud_cnt_q = 3\<rparr>, rx = rx_reset, rx_overrun_q = False,
         tx_ring = \<lparr>store = (\<lambda>_. 0x5A), wptr = n, rptr = 0\<rparr>, rx_ring = \<lparr>store = (\<lambda>_. 0x30), wptr = 1, rptr = 0\<rparr>\<rparr>,
       timer = clint_at 0x123456789 0, soft = \<lparr>mbus = peri_bus_reset, msip_q = False\<rparr>\<rparr>\<rparr>"

lemma board_ready: "in_step (board n)" "state_q (br (board n)) = S_IDLE"
  by (simp_all add: board_def in_step_def all_hold_def slave_holds_def xbar_reset_def bus_reset_def clint_at_def peri_bus_reset_def Let_def)

lemmas requests = no_req_def store_req_def load_req_def

lemmas windows = decode_def BASE0_def SIZE0_def BASE1_def SIZE1_def BASE2_def SIZE2_def

lemma serial_step: "serial (per (cpu_step c (r, l))) = run_edge (to_slave (xb (per c)) (bridge_axi (br c) r) 0) l (serial (per c))"
  by (simp add: cpu_step_def bus_step_def)

lemma ring_without_push:
  assumes "commits c r = []"
  shows "tx_ring (serial (per (cpu_step c (r, l)))) = ring_edge True None (tx_fifo_pop (fifo_empty (tx_ring (serial (per c)))) (tx (serial (per c)))) (tx_ring (serial (per c)))"
    and "tx (serial (per (cpu_step c (r, l)))) = tx_edge (div_q (serial (per c))) (fifo_empty (tx_ring (serial (per c)))) (fifo_head (tx_ring (serial (per c)))) (tx (serial (per c)))"
  using assms by (simp_all add: serial_step run_edge_def rings_edge_def tx_push_def commits_def Let_def split: if_splits)

theorem native_store_witness:
  "commits (board 16) (store_req 0x10003000 1) = [(2, 0, 1)]
    \<and> rsp_bvalid (cpu_rsp (cpu_step (board 16) (store_req 0x10003000 1, True)) no_req)"
proof -
  have r: "req_wvalid (store_req 0x10003000 1)" "req_we (store_req 0x10003000 1)" "\<not> refused (board 16) (req_addr (store_req 0x10003000 1))"
    and s: "store_of (store_req 0x10003000 1) = [(2, 0, 1)]"
    by (simp_all add: requests windows refused_def store_of_def)
  show ?thesis using native_store [OF board_ready r, of True no_req True] unfolding Let_def s by blast
qed

theorem native_load_witness:
  "rsp_rdata (cpu_rsp (cpu_run [(load_req 0x10000004, True), (load_req 0, True)] (board 16)) no_req) = 0x30"
proof -
  have r: "req_wvalid (load_req 0x10000004)" "\<not> req_we (load_req 0x10000004)"
    "list_all (\<lambda>w. \<not> req_rready (fst w)) [(load_req 0, True)]" "req_rready no_req"
    by (simp_all add: requests)
  have s: "asked_word (per (board 16)) (bridge_axi (br (board 16)) (load_req 0x10000004), True) = 0x30"
    by (simp add: asked_word_def requests windows board_def bridge_axi_def rdata_mux_def reg_of_def REG_RXDATA_def fifo_head_def)
  show ?thesis using native_load [OF board_ready(1) [of 16] board_ready(2) r, where l = True and l' = True] unfolding Let_def s by blast
qed

lemma board_full: "\<not> rtl_tx_ready (serial (per (board 16)))"
  by (simp add: board_def rtl_tx_ready_def fifo_full_def)

lemma board_refuses: "refused (board 16) (req_addr (store_req 0x10000000 0x41))"
  using board_full by (simp add: refused_def requests windows reg_of_def REG_TXDATA_def)

text \<open>The stop bit ends, the transmitter takes a byte, and then there is room.\<close>

lemma board_drains:
  defines "c \<equiv> cpu_step (board 16) (store_req 0x10000000 0x41, True)"
  shows "\<not> rtl_tx_ready (serial (per c)) \<and> rtl_tx_ready (serial (per (cpu_step c (no_req, True))))"
proof -
  have r: "req_wvalid (store_req 0x10000000 0x41)" "req_we (store_req 0x10000000 0x41)" by (simp_all add: requests)
  have n: "commits (board 16) (store_req 0x10000000 0x41) = []" using idle_write(1) [OF board_ready r] board_refuses by simp
  have t: "tx_ring (serial (per c)) = \<lparr>store = (\<lambda>_. 0x5A), wptr = 16, rptr = 0\<rparr>" "tx_state_q (tx (serial (per c))) = TX_IDLE"
    unfolding c_def ring_without_push [OF n]
    by (simp_all add: board_def ring_edge_def tx_edge_def tx_fifo_pop_def)
  then have full: "\<not> rtl_tx_ready (serial (per c))" by (simp add: rtl_tx_ready_def fifo_full_def)
  have c: "in_step c" "keeps (store_req 0x10000000 0x41) c"
    unfolding c_def by (rule in_step_step [OF board_ready(1)], rule idle_keeps [OF board_ready r board_refuses])
  have "tx_ring (serial (per (cpu_step c (no_req, True)))) = \<lparr>store = (\<lambda>_. 0x5A), wptr = 16, rptr = 1\<rparr>"
    unfolding ring_without_push [OF full_keeps(2) [OF c full]] t by (simp add: ring_edge_def tx_fifo_pop_def fifo_empty_def t)
  then show ?thesis using full by (simp add: rtl_tx_ready_def fifo_full_def)
qed

theorem store_waits_for_room_witness:
  "commits_of [(store_req 0x10000000 0x41, True), (no_req, True)] (board 16) = []
    \<and> commits (cpu_run [(store_req 0x10000000 0x41, True), (no_req, True)] (board 16)) no_req = [(0, REG_TXDATA, 0x41)]"
proof -
  have r: "req_wvalid (store_req 0x10000000 0x41)" "req_we (store_req 0x10000000 0x41)" and s: "req_wdata (store_req 0x10000000 0x41) = 0x41"
    by (simp_all add: requests)
  have f: "full_during [(no_req, True)] (cpu_step (board 16) (store_req 0x10000000 0x41, True))"
    "rtl_tx_ready (serial (per (cpu_run [(store_req 0x10000000 0x41, True), (no_req, True)] (board 16))))"
    using board_drains by simp_all
  show ?thesis using store_waits_for_room [OF board_ready r board_refuses f, of no_req True no_req True] unfolding Let_def s by blast
qed

end
