(* ===== verification/Spec2Isabelle.thy ===== *)
theory Spec2Isabelle
  imports Prelude Uart Printf Quicksort Sha256 Crc Yarvmon Core_State Core_Matrix Core_List Core_Sort Core_Bench Core_Init Core_Port Core_Seed Core_Main Dhry_Port Dhrystone Isa_Probe Echo
  Native_Ram Native_Mem_Tb Native_Ram64_Tb Axi_Ram_Tb Sim_Serial Sim_Main Sim_Run Uart_Rtl Uart_Tb Peri_Rtl Axi_Ports
  Xbar_Rtl Bridge_Rtl
begin

text \<open>
The firmware of the yarv-uc RISC-V microcontroller, the C programs under \<open>sim/sw\<close>, as the
software of one machine: a bare RV32 core with a polled and interrupting UART; and the C++ benches that run the
hardware, \<open>sim/sim_main.cpp\<close> for the whole system and \<open>sim/hw\<close> for its memories and its UART, with the modules they test.
Paths are relative to the repository's inner \<open>src\<close>, to \<open>sim/sw\<close> or to \<open>sim\<close>.

\<^bold>\<open>Parts and how they interact.\<close> Every program prints and reads through the UART driver
(\<open>common/uart.h\<close>), which polls the status register of the device (\<open>rtl/utils/axi4_lite_uart.sv\<close>).
The benchmarks print through the integer \<open>printf\<close> of \<open>common/ee_printf.c\<close>, which writes single bytes
with \<open>uart_putc\<close>. CoreMark calls three benchmarks (list, matrix, state machine) through the list
benchmark, folds their results with the CRC of \<open>core_util.c\<close>, and measures with the clock of its port.
Dhrystone uses its own port (clock, heap, \<open>strcpy\<close>). The SHA-256 shell, the monitor, the quicksort
program, the echo test and the instruction probe use the driver alone. The memory benches and the UART bench drive one
module each, pin by pin; the UART module refines the device that the programs see. The system bench clocks the core, feeds the UART's receive pin from \<open>UartRxDriver\<close>,
and keeps its books from two samples of the debug taps a cycle.

\<^bold>\<open>Theories and sources.\<close>
  \<^item> \<open>Prelude\<close>: word types, checked arrays, string literals, \<open>each\<close> (an operation over a list), word lemmas.
  \<^item> \<open>Uart\<close>: \<open>common/uart.h\<close> and the register-level device. State \<open>uart\<close>: the two FIFOs, flags, control
    bits, the line towards the terminal (\<open>sent\<close>) and a schedule of what the hardware does between accesses.
  \<^item> \<open>Printf\<close>: \<open>common/ee_printf.c\<close>. \<open>Crc\<close>: the check sums of \<open>coremark/eembc/core_util.c\<close>.
  \<^item> \<open>Quicksort\<close>: \<open>quicksort/main.c\<close>. \<open>Sha256\<close>: \<open>sha256/sha256.c\<close>, hash and shell.
    \<open>Yarvmon\<close>: \<open>yarvmon/yarvmon.c\<close>, line editor, examine, deposit, dump, run.
  \<^item> \<open>Core_State\<close>, \<open>Core_Matrix\<close>: \<open>core_state.c\<close> and \<open>core_matrix.c\<close>. \<open>Core_List\<close> (operations),
    \<open>Core_Sort\<close> (merge sort), \<open>Core_Bench\<close> (the benchmark) and \<open>Core_Init\<close> (the initial list):
    \<open>core_list_join.c\<close>, on a heap with one map per field of \<open>list_head\<close> and \<open>list_data\<close>.
  \<^item> \<open>Core_Port\<close>: \<open>coremark/core_portme.c\<close>, with \<open>get_seed_32\<close> and \<open>check_data_types\<close> of \<open>core_util.c\<close>.
    \<open>Core_Seed\<close>: the seeds from the command line and from functions in \<open>core_util.c\<close>, which the port does not select.
    \<open>Core_Main\<close>: \<open>coremark/eembc/core_main.c\<close>. The record \<open>results\<close> adds to the world of the list
    benchmark the other fields of the C struct \<open>core_results\<close>.
  \<^item> \<open>Dhry_Port\<close>: \<open>dhrystone/dhry_portme.c\<close>. \<open>Dhrystone\<close>: \<open>dhrystone/sifive/dhry_1.c\<close>, \<open>dhry_2.c\<close>.
  \<^item> \<open>Isa_Probe\<close>: \<open>isa/isa_probe/isa_probe.c\<close>, on a core given as a record of instruction functions.
  \<^item> \<open>Echo\<close>: \<open>peri/uart_echo/uart_echo.c\<close>, with the interrupt entry and return of
    \<open>rtl/core/trap_unit.sv\<close>.
  \<^item> \<open>Native_Ram\<close>: \<open>rtl/utils/native_ram.sv\<close>, one clock edge as a function of registers and pins, for every width,
    depth and mode. \<open>Native_Mem_Tb\<close> and \<open>Native_Ram64_Tb\<close>: its benches \<open>hw/native_mem_tb\<close> and \<open>hw/native_ram64_tb\<close>.
    \<open>Axi_Ram_Tb\<close>: \<open>rtl/utils/axi4_lite_ram.sv\<close> and its bench \<open>hw/ram_tb\<close>.
  \<^item> \<open>Uart_Rtl\<close>: \<open>rtl/utils/axi4_lite_uart.sv\<close>, one clock edge as a function of registers, bus pins and the level of
    \<open>rxd_i\<close>. State \<open>uart_rtl\<close>: the bus registers, the divisor, the two bit engines and the two ring buffers.
    \<open>Uart_Tb\<close>: its bench \<open>hw/uart_tb\<close>.
  \<^item> \<open>Peri_Rtl\<close>: \<open>rtl/utils/msip_peri.sv\<close> and \<open>rtl/utils/clint_timer.sv\<close>. \<open>Axi_Ports\<close>: the AXI4-Lite contract of the RAM,
    the UART and these two.
  \<^item> \<open>Xbar_Rtl\<close>: the crossbar \<open>rtl/bus/axi4_lite_xbar_3.sv\<close> with UART, timer and software interrupt behind it, as
    \<open>rtl/core/top_module.sv\<close> wires them. \<open>Bridge_Rtl\<close>: the master bridge \<open>rtl/bus/axi4_lite_master_bridge.sv\<close> in front.
    State \<open>cpu_bus\<close>: bridge, crossbar and the three modules, which step together.
  \<^item> \<open>Sim_Serial\<close>: the stimulus driver and \<open>unescape\<close> of \<open>sim_main.cpp\<close>, the line monitor and the frames of
    \<open>hw/uart_tb/uart_tb.cpp\<close>. \<open>Sim_Main\<close>: \<open>main\<close> of \<open>sim_main.cpp\<close>, one record per group of its variables, on a core
    given as a record of functions (evaluations, taps, data memory). \<open>Sim_Run\<close>: what a run computes.

\<^bold>\<open>Conventions.\<close> An operation returns an option. \<open>None\<close> is a wait for the device that never
ends, an access outside an array, or a division the C standard leaves undefined; each theory says which.
Integers are words of their C width and wrap around. Loops are \<open>primrec\<close> over the iterations left, \<open>function\<close>
with a measure, or \<open>partial_function (option)\<close> where they need not end.

\<^bold>\<open>What is shown.\<close>
  \<^item> Device and driver: FIFO bounds and the flags in every interleaving; a run of driver calls, labelled by what it was
    given and handed out, accounts for every byte, and no byte is stored without room; \<open>uart_puts\<close> ends when the hardware ships bytes. The locales \<open>byte_sink\<close> and \<open>live_sink\<close>
    are the contract of a console; the driver, its paced variant and the monitor's console are interpretations.
  \<^item> \<open>printf\<close> prints the rendering of its format for all formats and arguments; its hazards are lemmas.
  \<^item> Sorting: quicksort sorts, stays in bounds and reaches the OK branch; the merge sort is stable for both
    comparisons of the benchmark, through the locale \<open>stable_order\<close> and two interpretations.
  \<^item> SHA-256 equals a FIPS 180-4 reference for every length; the shell refines an abstract line editor.
    The monitor's line input equals an abstract line editor that takes every character, and its character loop refines a
    reading of the line as tokens.
  \<^item> CoreMark: the number automaton classifies by the grammar of the formats, except that a number in scientific notation
    without a point is invalid to it; the matrix test and the list
    benchmark restore their inputs; initialisation builds the exact list, matrices and text; the CRC is the
    reflected CRC-16; \<open>iterate\<close> restores everything for every number of iterations; a whole standard
    run of \<open>main\<close> returns and judges by the published check sums. Evaluated on the parameters of the two
    standard runs, the model gives those sums: seeds 0, 0, 0x66 and size 666 give 0xe714 (list), 0x1fd7
    (matrix) and 0x8e3a (state); seeds 0x3415, 0x3415, 0x66 give 0xe3c1, 0x0747 and 0x8d84.
  \<^item> Dhrystone ends every number of runs with the announced values; \<open>strcpy\<close> by words is string assignment
    for every alignment; the zero-byte trick is exact.
  \<^item> The probe: its whole output on any core; all checks pass on a correct core; the two suspected
    faults are told apart; the table map does not see the third.
  \<^item> Echo: the handler echoes in order and counts; with enough characters at hand and a transmitter that ships, the program
    runs to its end and reports GOOD; it never ends with its BAD marker; one interleaving puts it to sleep for ever.
  \<^item> Memories: the read port of the native RAM refines a queue of answers; the three orders of an AXI4-Lite write
    agree; a read after a write returns the written bytes; each bench makes all its checks and none fails.
  \<^item> UART hardware: each ring is a queue (locale \<open>byte_queue\<close> and its interpretation); every clock edge is a register access
    and engine events of the device model; the transmitter ships its queue as 8N1 frames and the receiver reads such
    frames, so that two UARTs loop back; a written divisor waits, for however many cycles, until both engines are idle, with the one write that is lost;
    from any state between two accesses, a write into a full FIFO is held for a stated time and a burst of frames is kept
    up to 16 bytes; the bench passes all its 146 checks.
  \<^item> Bus slaves: the locale \<open>axi_slave_port\<close> and its four interpretations: every write is committed and answered once,
    every read is answered once and in order. \<open>axi_read_port\<close> is its read side, which the crossbar with its slaves keeps too. The timer's two-stage comparison is the comparison of 64 bits, and the
    documented order of writes sets a deadline without a false interrupt.
  \<^item> Peripheral bus: \<open>in_step\<close> says, for each state of the bridge, what the crossbar and every slave hold, and is kept by every
    cycle. From it follow what a load reads and when, where a store takes effect and when, what becomes of a byte for
    the full transmit FIFO, and that an address outside the windows is answered.
  \<^item> System bench, for every core: the books balance, each bucket of the stall histogram is a set of
    cycles given by the condition of its cause and by the order of the causes, the run parks in the first cycle after eight equal retires, the WFI verdict names the first bad cycle, the
    commit log is the retire stream with \<open>x0\<close> masked, probes stay inside the data memory. The driver's
    line is read back by the monitor, the driver finishes, and hex escapes reach it unchanged.

\<^bold>\<open>Parameters and bounds.\<close> The schedule of the UART hardware under the programs, the readings of \<open>mcycle\<close>, the bytes
behind the monitor's volatile accesses, the contents of memory before the program, the instructions of the probed core and
the core under the system bench are parameters. The total run of the echo test asks
for a transmitter that can ship 1500 bytes (\<open>tx_credit\<close>), more than the output of all phases. FIFOs of the UART have 16 bytes, as in every instance; in its bench a bit has 10 clocks, elsewhere the
divisor is arbitrary. Blocks of memory are assumed not to wrap around the address space. \<open>yarvmon\<close>, \<open>shell_loop\<close> and the echo
machine run for a given number of turns, as their C loops never end; everything proved holds for every number.
Waiting loops on the device end when the schedule satisfies their condition; the liveness lemmas give the
condition.

\<^bold>\<open>Not modelled.\<close> The SystemVerilog of the core, except the way from its bridge to the
peripherals and the trap entry the software relies on; waveforms and the text format of the
lines the system bench prints; the compliance environment and start-up code, which are assembly (\<open>strcmp.S\<close> is taken at its C meaning);
\<open>CORE_DEBUG\<close>, more than one context, heap or stack memory, and
floating point, which the port does not build; the naked entry of the trap reporter.
\<close>

end
